(* ===== verification/Prelude.thy ===== *)
theory Prelude
  imports Main "HOL-Library.Word" "HOL-Library.Multiset"
begin

text \<open>
  What the components share: the machine integer types of the C++ source, the two
  operations on a byte buffer every component with a buffer uses (reading a window,
  overwriting a window, the models of \<open>std::span\<close> plus \<open>std::ranges::copy\<close>),
  little-endian encoding (\<open>std::bit_cast\<close> between an integer and its bytes on the
  little-endian hosts the server runs on) and the swap-with-last removal that several
  vectors use. The collections \<open>buffer_simps\<close> and \<open>wrap_simps\<close> carry the
  component proofs.
\<close>

unbundle bit_operations_syntax

named_theorems buffer_simps
named_theorems wrap_simps

type_synonym u8 = "8 word"
type_synonym u16 = "16 word"
type_synonym u32 = "32 word"
type_synonym u64 = "64 word"

section \<open>Unsigned wrap-around on naturals\<close>

text \<open>
  A \<open>uint16_t\<close> (\<open>uint32_t\<close>, \<open>uint64_t\<close>) field that the proofs use as an index is kept
  as a natural number, with the wrap-around of every assignment written out.
\<close>

definition wrap16 :: "nat \<Rightarrow> nat" where
  "wrap16 n = n mod 65536"

definition wrap32 :: "nat \<Rightarrow> nat" where
  "wrap32 n = n mod 4294967296"

definition wrap64 :: "nat \<Rightarrow> nat" where
  "wrap64 n = n mod 18446744073709551616"

lemma wrap16_id [wrap_simps]: "n < 65536 \<Longrightarrow> wrap16 n = n"
  by (simp add: wrap16_def)

lemma wrap32_id [wrap_simps]: "n < 4294967296 \<Longrightarrow> wrap32 n = n"
  by (simp add: wrap32_def)

lemma wrap64_id [wrap_simps]: "n < 18446744073709551616 \<Longrightarrow> wrap64 n = n"
  by (simp add: wrap64_def)

lemma wrap16_less [simp]: "wrap16 n < 65536"
  by (simp add: wrap16_def)

lemma wrap32_less [simp]: "wrap32 n < 4294967296"
  by (simp add: wrap32_def)

lemma wrap64_less [simp]: "wrap64 n < 18446744073709551616"
  by (simp add: wrap64_def)

section \<open>Windows of a buffer\<close>

definition window :: "nat \<Rightarrow> nat \<Rightarrow> 'a list \<Rightarrow> 'a list" where
  "window i n xs = take n (drop i xs)"

definition store :: "nat \<Rightarrow> 'a list \<Rightarrow> 'a list \<Rightarrow> 'a list" where
  "store i ys xs = take i xs @ ys @ drop (i + length ys) xs"

lemma length_window [buffer_simps]: "i + n \<le> length xs \<Longrightarrow> length (window i n xs) = n"
  by (simp add: window_def)

lemma length_store [buffer_simps]:
  "i + length ys \<le> length xs \<Longrightarrow> length (store i ys xs) = length xs"
  by (simp add: store_def)

lemma window_0 [simp]: "window i 0 xs = []"
  by (simp add: window_def)

lemma store_Nil [simp]: "store i [] xs = xs"
  by (simp add: store_def)

lemma window_split: "window i (m + n) xs = window i m xs @ window (i + m) n xs"
  by (simp add: window_def take_add add.commute)

lemma window_within_store:
  assumes "i + length ys \<le> length xs" "i \<le> j" "j + n \<le> i + length ys"
  shows "window j n (store i ys xs) = window (j - i) n ys"
proof -
  have "drop j (store i ys xs) = drop (j - i) (ys @ drop (i + length ys) xs)"
    using assms by (simp add: store_def)
  then show ?thesis using assms by (simp add: window_def)
qed

lemma window_store_same [buffer_simps]:
  "i + length ys \<le> length xs \<Longrightarrow> window i (length ys) (store i ys xs) = ys"
  using window_within_store [of i ys xs i "length ys"] by (simp add: window_def)

lemma window_before_store [buffer_simps]:
  "i + length ys \<le> length xs \<Longrightarrow> j + n \<le> i \<Longrightarrow> window j n (store i ys xs) = window j n xs"
proof -
  assume *: "i + length ys \<le> length xs" "j + n \<le> i"
  then have "take n (drop j (take i xs)) = take n (drop j xs)"
    by (simp add: drop_take min_def)
  with * show ?thesis by (simp add: window_def store_def)
qed

lemma window_after_store [buffer_simps]:
  assumes "i + length ys \<le> length xs" "i + length ys \<le> j"
  shows "window j n (store i ys xs) = window j n xs"
proof -
  have "drop j (store i ys xs) = drop (j - (i + length ys)) (drop (i + length ys) xs)"
    using assms by (simp add: store_def)
  then show ?thesis using assms by (simp add: window_def)
qed

lemma window_of_window:
  "j + n \<le> m \<Longrightarrow> window j n (window i m xs) = window (i + j) n xs"
  by (simp add: window_def drop_take min_def add.commute)

lemma take_window: "take m (window i n xs) = window i (min m n) xs"
  by (simp add: window_def min_def)

lemma drop_window: "drop m (window i n xs) = window (i + m) (n - m) xs"
  by (simp add: window_def drop_take add.commute)

lemma window_all [simp]: "length xs = n \<Longrightarrow> window 0 n xs = xs"
  by (simp add: window_def)

lemma window_replicate: "i + n \<le> k \<Longrightarrow> window i n (replicate k x) = replicate n x"
  by (simp add: window_def min_def)

lemma window_1: "i < length xs \<Longrightarrow> window i (Suc 0) xs = [xs ! i]"
  by (simp add: window_def take_Suc_conv_app_nth)

lemma store_store_adjacent:
  assumes "i + length ys + length zs \<le> length xs"
  shows "store (i + length ys) zs (store i ys xs) = store i (ys @ zs) xs"
  using assms by (simp add: store_def ac_simps)

lemma window_append_left: "j + n \<le> length xs \<Longrightarrow> window j n (xs @ ys) = window j n xs"
  by (simp add: window_def)

lemma window_append_right: "window (length xs + j) n (xs @ ys) = window j n ys"
  by (simp add: window_def)

section \<open>Little-endian integers\<close>

definition le_bytes :: "nat \<Rightarrow> 'a::len word \<Rightarrow> u8 list" where
  "le_bytes n w = map (\<lambda>i. ucast (drop_bit (8 * i) w)) [0..<n]"

fun le_word :: "u8 list \<Rightarrow> 'a::len word" where
  "le_word [] = 0"
| "le_word (b # bs) = ucast b OR push_bit 8 (le_word bs)"

lemma length_le_bytes [simp]: "length (le_bytes n w) = n"
  by (simp add: le_bytes_def)

lemma le_bytes_Suc: "le_bytes (Suc n) w = ucast w # le_bytes n (drop_bit 8 w)"
proof -
  have "map (\<lambda>i. ucast (drop_bit (8 * i) w)) [Suc 0..<Suc n]
    = map (\<lambda>i. ucast (drop_bit (8 * i) (drop_bit 8 w)) :: u8) [0..<n]"
    unfolding map_Suc_upt [symmetric] by (simp add: add.commute)
  then show ?thesis
    by (simp add: le_bytes_def upt_conv_Cons del: upt_Suc)
qed

lemma bit_le_word_le_bytes:
  fixes w :: "'a::len word"
  assumes "k < LENGTH('a)"
  shows "bit (le_word (le_bytes n w) :: 'a word) k \<longleftrightarrow> k < 8 * n \<and> bit w k"
  using assms
proof (induction n arbitrary: w k)
  case 0
  then show ?case by (simp add: le_bytes_def)
next
  case (Suc n)
  show ?case
  proof (cases "k < 8")
    case True
    with Suc.prems show ?thesis
      by (simp add: le_bytes_Suc bit_simps)
  next
    case False
    with Suc.prems have "k - 8 < LENGTH('a)" by simp
    then have "bit (le_word (le_bytes n (drop_bit 8 w)) :: 'a word) (k - 8)
        \<longleftrightarrow> k - 8 < 8 * n \<and> bit (drop_bit 8 w) (k - 8)"
      by (rule Suc.IH)
    with False Suc.prems show ?thesis
      by (auto simp: le_bytes_Suc bit_simps)
  qed
qed

lemma le_word_le_bytes:
  fixes w :: "'a::len word"
  assumes "LENGTH('a) \<le> 8 * n"
  shows "le_word (le_bytes n w) = w"
  using assms by (intro bit_word_eqI) (simp add: bit_le_word_le_bytes)

lemma le_word_le_bytes_16 [simp]: "le_word (le_bytes 2 (w :: u16)) = w"
  by (simp add: le_word_le_bytes)

lemma le_word_le_bytes_32 [simp]: "le_word (le_bytes 4 (w :: u32)) = w"
  by (simp add: le_word_le_bytes)

lemma le_word_le_bytes_64 [simp]: "le_word (le_bytes 8 (w :: u64)) = w"
  by (simp add: le_word_le_bytes)

lemma le_bytes_le_word_aux:
  fixes bs :: "u8 list"
  assumes "8 * length bs \<le> LENGTH('a::len)"
  shows "le_bytes (length bs) (le_word bs :: 'a word) = bs"
  using assms
proof (induction bs)
  case Nil
  then show ?case by (simp add: le_bytes_def)
next
  case (Cons b bs)
  let ?w = "le_word bs :: 'a word"
  have len: "8 * length bs + 8 \<le> LENGTH('a)" using Cons.prems by simp
  have hd: "(ucast (le_word (b # bs) :: 'a word) :: u8) = b"
    using len by (intro bit_word_eqI) (auto simp: bit_simps)
  have high: "\<not> bit ?w k" if "LENGTH('a) - 8 \<le> k" for k
  proof -
    have "\<not> bit (le_word cs :: 'a word) k" if "8 * length cs \<le> k" for cs :: "u8 list" and k
      using that by (induction cs arbitrary: k) (auto simp: bit_simps dest: bit_imp_le_length)
    then show ?thesis using that len by simp
  qed
  have "drop_bit 8 (le_word (b # bs) :: 'a word) = ?w"
    using len high by (intro bit_word_eqI) (auto simp: bit_simps dest: bit_imp_le_length)
  with hd Cons.IH len show ?case by (simp add: le_bytes_Suc del: le_word.simps)
qed

lemma le_bytes_le_word_32: "length bs = 4 \<Longrightarrow> le_bytes 4 (le_word bs :: u32) = bs"
  using le_bytes_le_word_aux [of bs, where 'a = 32] by simp

section \<open>Removal by swapping with the last element\<close>

text \<open>
  \<open>*it = v.back(); v.pop_back();\<close> on a vector, with \<open>it\<close> the first position of the element
  (\<open>std::ranges::find\<close>); the vector is unchanged when the element is absent.
\<close>

fun index_of :: "'a \<Rightarrow> 'a list \<Rightarrow> nat option" where
  "index_of x [] = None"
| "index_of x (y # ys) = (if x = y then Some 0 else map_option Suc (index_of x ys))"

definition swap_remove :: "'a \<Rightarrow> 'a list \<Rightarrow> 'a list" where
  "swap_remove x xs = (case index_of x xs of
      None \<Rightarrow> xs
    | Some i \<Rightarrow> butlast (xs[i := last xs]))"

lemma index_of_None: "index_of x xs = None \<longleftrightarrow> x \<notin> set xs"
  by (induction xs) auto

lemma index_of_Some: "index_of x xs = Some i \<Longrightarrow> i < length xs \<and> xs ! i = x \<and> x \<notin> set (take i xs)"
  by (induction xs arbitrary: i) (auto split: if_splits)


lemma mset_butlast: "xs \<noteq> [] \<Longrightarrow> mset (butlast xs) = mset xs - {#last xs#}"
  by (metis add_diff_cancel_right' append_butlast_last_id mset.simps mset_append)

lemma mset_swap_remove: "mset (swap_remove x xs) = mset xs - {#x#}"
proof (cases "index_of x xs")
  case None
  moreover from None have "x \<notin> set xs" by (simp add: index_of_None)
  ultimately show ?thesis by (simp add: swap_remove_def diff_single_trivial)
next
  case (Some i)
  then have i: "i < length xs" "xs ! i = x" by (auto dest: index_of_Some)
  then have ne: "xs[i := last xs] \<noteq> []" by auto
  have "last (xs[i := last xs]) = last xs"
    using ne by (simp add: last_list_update)
  with Some i mset_butlast [OF ne] show ?thesis
    by (simp add: swap_remove_def mset_update)
qed

lemma set_swap_remove: "distinct xs \<Longrightarrow> set (swap_remove x xs) = set xs - {x}"
  by (metis mset_swap_remove set_mset_mset mset_remove1 set_remove1_eq)

lemma distinct_swap_remove: "distinct xs \<Longrightarrow> distinct (swap_remove x xs)"
  by (metis distinct_remove1 mset_eq_imp_distinct_iff mset_remove1 mset_swap_remove)


lemma swap_remove_Nil [simp]: "swap_remove x [] = []"
  by (simp add: swap_remove_def)

end
