(* ===== verification/Map_Position.thy ===== *)
theory Map_Position
  imports Prelude
begin

text \<open>
  \<open>struct Position\<close> and \<open>enum Direction\<close> of src/src/game/movement/position.hpp: the
  coordinates at their widths, the distances the rest of the server compares against its
  ranges, the ordering used by ordered containers, the wrap-around arithmetic of \<open>+\<close> and
  \<open>-\<close>, and the hash. The ordering is an instance of \<open>linorder\<close>, so the library's sorted
  containers apply to positions.
\<close>

datatype direction =
    DIRECTION_NORTH | DIRECTION_EAST | DIRECTION_SOUTH | DIRECTION_WEST
  | DIRECTION_SOUTHWEST | DIRECTION_SOUTHEAST | DIRECTION_NORTHWEST | DIRECTION_NORTHEAST
  | DIRECTION_NONE

fun direction_code :: "direction \<Rightarrow> u8" where
  "direction_code DIRECTION_NORTH = 0"
| "direction_code DIRECTION_EAST = 1"
| "direction_code DIRECTION_SOUTH = 2"
| "direction_code DIRECTION_WEST = 3"
| "direction_code DIRECTION_SOUTHWEST = 4"
| "direction_code DIRECTION_SOUTHEAST = 5"
| "direction_code DIRECTION_NORTHWEST = 6"
| "direction_code DIRECTION_NORTHEAST = 7"
| "direction_code DIRECTION_NONE = 8"

datatype position = Position (pos_x: u16) (pos_y: u16) (pos_z: u8)

definition getOffsetX :: "position \<Rightarrow> position \<Rightarrow> int" where
  "getOffsetX p1 p2 = uint (pos_x p1) - uint (pos_x p2)"

definition getOffsetY :: "position \<Rightarrow> position \<Rightarrow> int" where
  "getOffsetY p1 p2 = uint (pos_y p1) - uint (pos_y p2)"

definition getOffsetZ :: "position \<Rightarrow> position \<Rightarrow> int" where
  "getOffsetZ p1 p2 = uint (pos_z p1) - uint (pos_z p2)"

definition getDistanceX :: "position \<Rightarrow> position \<Rightarrow> int" where
  "getDistanceX p1 p2 = \<bar>getOffsetX p1 p2\<bar>"

definition getDistanceY :: "position \<Rightarrow> position \<Rightarrow> int" where
  "getDistanceY p1 p2 = \<bar>getOffsetY p1 p2\<bar>"

definition getDistanceZ :: "position \<Rightarrow> position \<Rightarrow> int" where
  "getDistanceZ p1 p2 = \<bar>getOffsetZ p1 p2\<bar>"

definition getDiagonalDistance :: "position \<Rightarrow> position \<Rightarrow> int" where
  "getDiagonalDistance p1 p2 = max (getDistanceX p1 p2) (getDistanceY p1 p2)"

definition areInRange2 :: "int \<Rightarrow> int \<Rightarrow> position \<Rightarrow> position \<Rightarrow> bool" where
  "areInRange2 deltax deltay p1 p2 \<longleftrightarrow>
     getDistanceX p1 p2 \<le> deltax \<and> getDistanceY p1 p2 \<le> deltay"

definition areInRange3 :: "int \<Rightarrow> int \<Rightarrow> int \<Rightarrow> position \<Rightarrow> position \<Rightarrow> bool" where
  "areInRange3 deltax deltay deltaz p1 p2 \<longleftrightarrow>
     getDistanceX p1 p2 \<le> deltax \<and> getDistanceY p1 p2 \<le> deltay \<and> getDistanceZ p1 p2 \<le> deltaz"

definition position_lt :: "position \<Rightarrow> position \<Rightarrow> bool" where
  "position_lt p q \<longleftrightarrow> pos_z p < pos_z q
     \<or> pos_z p = pos_z q \<and> pos_y p < pos_y q
     \<or> pos_z p = pos_z q \<and> pos_y p = pos_y q \<and> pos_x p < pos_x q"

text \<open>\<open>operator>\<close> is written as the negation of \<open>operator<\<close>.\<close>

definition position_gt :: "position \<Rightarrow> position \<Rightarrow> bool" where
  "position_gt p q \<longleftrightarrow> \<not> position_lt p q"

definition position_plus :: "position \<Rightarrow> position \<Rightarrow> position" where
  "position_plus p q = Position (pos_x p + pos_x q) (pos_y p + pos_y q) (pos_z p + pos_z q)"

definition position_minus :: "position \<Rightarrow> position \<Rightarrow> position" where
  "position_minus p q = Position (pos_x p - pos_x q) (pos_y p - pos_y q) (pos_z p - pos_z q)"

definition position_hash :: "position \<Rightarrow> u64" where
  "position_hash p = ucast (pos_x p) OR push_bit 16 (ucast (pos_y p)) OR push_bit 32 (ucast (pos_z p))"

instantiation position :: linorder
begin

definition less_position :: "position \<Rightarrow> position \<Rightarrow> bool" where
  "less_position p q \<longleftrightarrow> position_lt p q"

definition less_eq_position :: "position \<Rightarrow> position \<Rightarrow> bool" where
  "less_eq_position p q \<longleftrightarrow> position_lt p q \<or> p = q"

instance
proof
  fix p q r :: position
  show "(p < q) = (p \<le> q \<and> \<not> q \<le> p)"
    by (cases p; cases q) (auto simp: less_position_def less_eq_position_def position_lt_def)
  show "p \<le> p"
    by (simp add: less_eq_position_def)
  show "p \<le> q \<Longrightarrow> q \<le> r \<Longrightarrow> p \<le> r"
    by (cases p; cases q; cases r) (auto simp: less_eq_position_def position_lt_def)
  show "p \<le> q \<Longrightarrow> q \<le> p \<Longrightarrow> p = q"
    by (cases p; cases q) (auto simp: less_eq_position_def position_lt_def)
  show "p \<le> q \<or> q \<le> p"
    by (cases p; cases q) (auto simp: less_eq_position_def position_lt_def)
qed

end

lemma position_gt_iff_ge: "position_gt p q \<longleftrightarrow> q \<le> p"
  by (auto simp: position_gt_def less_position_def [symmetric] not_less)

lemmas distance_defs = getDistanceX_def getDistanceY_def getDistanceZ_def
  getOffsetX_def getOffsetY_def getOffsetZ_def

lemma distance_sym:
  "getDistanceX p q = getDistanceX q p"
  "getDistanceY p q = getDistanceY q p"
  "getDistanceZ p q = getDistanceZ q p"
  by (auto simp: distance_defs)

lemma distance_self [simp]:
  "getDistanceX p p = 0" "getDistanceY p p = 0" "getDistanceZ p p = 0"
  by (simp_all add: distance_defs)

lemma areInRange3_sym: "areInRange3 a b c p q = areInRange3 a b c q p"
  by (simp add: areInRange3_def distance_sym)

lemma getDiagonalDistance_triangle:
  "getDiagonalDistance p r \<le> getDiagonalDistance p q + getDiagonalDistance q r"
  by (auto simp: getDiagonalDistance_def distance_defs max_def)

lemma bit_position_hash:
  "bit (position_hash p) k \<longleftrightarrow> k < 64 \<and>
     (bit (pos_x p) k \<or> 16 \<le> k \<and> bit (pos_y p) (k - 16) \<or> 32 \<le> k \<and> bit (pos_z p) (k - 32))"
  by (auto simp: position_hash_def bit_simps dest: bit_imp_le_length)

lemma position_hash_inj: "position_hash p = position_hash q \<Longrightarrow> p = q"
proof -
  assume eq: "position_hash p = position_hash q"
  have same: "bit (position_hash p) k = bit (position_hash q) k" for k
    using eq by simp
  have "pos_x p = pos_x q"
  proof (rule bit_word_eqI)
    fix k assume "k < LENGTH(16)"
    then show "bit (pos_x p) k = bit (pos_x q) k"
      using same [of k] by (simp add: bit_position_hash)
  qed
  moreover have "pos_y p = pos_y q"
  proof (rule bit_word_eqI)
    fix k assume "k < LENGTH(16)"
    then show "bit (pos_y p) k = bit (pos_y q) k"
      using same [of "k + 16"] by (auto simp: bit_position_hash dest: bit_imp_le_length)
  qed
  moreover have "pos_z p = pos_z q"
  proof (rule bit_word_eqI)
    fix k assume "k < LENGTH(8)"
    then show "bit (pos_z p) k = bit (pos_z q) k"
      using same [of "k + 32"] by (auto simp: bit_position_hash dest: bit_imp_le_length)
  qed
  ultimately show "p = q" by (cases p; cases q) simp
qed

end
