(* ===== verification/Byte_Reader.thy ===== *)
theory Byte_Reader
  imports Prelude
begin

text \<open>
  The interface the readers of binary data share: \<open>NetworkMessage::get\<close>,
  \<open>PropStream::read\<close> and the unescaped \<open>FileStream::read\<close> all copy a fixed number of
  bytes from the front of what is left and reinterpret them. The locale \<open>byte_reader\<close>
  states the contract (what is left, and that a read takes its front); the readers of
  integers and of sequences of fields are proved correct once, inside it.
\<close>

text \<open>
  A read returns \<open>None\<close> where the C++ would access memory outside its buffer.
\<close>

type_synonym 's reader = "nat \<Rightarrow> 's \<Rightarrow> (u8 list \<times> 's) option"

definition read_int :: "'s reader \<Rightarrow> nat \<Rightarrow> 's \<Rightarrow> ('a::len word \<times> 's) option" where
  "read_int get n s = (case get n s of None \<Rightarrow> None | Some (bs, s') \<Rightarrow> Some (le_word bs, s'))"

fun read_chunks :: "'s reader \<Rightarrow> nat list \<Rightarrow> 's \<Rightarrow> (u8 list list \<times> 's) option" where
  "read_chunks get [] s = Some ([], s)"
| "read_chunks get (n # ns) s = (case get n s of
      None \<Rightarrow> None
    | Some (bs, s') \<Rightarrow> (case read_chunks get ns s' of
        None \<Rightarrow> None
      | Some (bss, s'') \<Rightarrow> Some (bs # bss, s'')))"

locale byte_reader =
  fixes get :: "'s reader"
    and remaining :: "'s \<Rightarrow> u8 list"
    and invar :: "'s \<Rightarrow> bool"
  assumes get_front: "invar s \<Longrightarrow> n \<le> length (remaining s) \<Longrightarrow>
      \<exists>s'. get n s = Some (take n (remaining s), s') \<and> remaining s' = drop n (remaining s) \<and> invar s'"
begin

lemma get_append:
  assumes "invar s" "remaining s = bs @ rest"
  shows "\<exists>s'. get (length bs) s = Some (bs, s') \<and> remaining s' = rest \<and> invar s'"
  using get_front [of s "length bs"] assms by simp

lemma read_int_append:
  assumes "invar s" "remaining s = le_bytes n (w :: 'a::len word) @ rest" "LENGTH('a) \<le> 8 * n"
  shows "\<exists>s'. read_int get n s = Some (w, s') \<and> remaining s' = rest \<and> invar s'"
  using get_append [OF assms(1,2)] assms(3) by (auto simp: read_int_def le_word_le_bytes)

lemma read_chunks_append:
  assumes "invar s" "remaining s = concat bss @ rest"
  shows "\<exists>s'. read_chunks get (map length bss) s = Some (bss, s') \<and> remaining s' = rest \<and> invar s'"
  using assms
proof (induction bss arbitrary: s)
  case Nil
  then show ?case by simp
next
  case (Cons bs bss)
  from Cons.prems have "remaining s = bs @ (concat bss @ rest)" by simp
  from get_append [OF Cons.prems(1) this] obtain s1 where
    "get (length bs) s = Some (bs, s1)" "remaining s1 = concat bss @ rest" "invar s1"
    by blast
  with Cons.IH [of s1] show ?case by force
qed

end

end
