(* ===== verification/Network_Message.thy ===== *)
theory Network_Message
  imports Map_Position Byte_Reader
begin

text \<open>
  \<open>NetworkMessage\<close> (src/src/server/network/message/networkmessage.hpp and .cpp): the
  fixed buffer of a message, its read and write cursor, and every operation on them.
  \<open>info.position\<close> and \<open>info.length\<close> are \<open>uint16_t\<close>, kept as naturals with the
  wrap-around written out. An operation that could index outside the buffer returns an
  option, \<open>None\<close> standing for the undefined behaviour of the C++ there; the lemmas show
  when it cannot happen. Logging has no effect on the state and is left out. The
  Boost.Locale conversions are the parameters \<open>to_utf\<close> and \<open>from_utf\<close>; \<open>addDouble\<close> and
  \<open>getDouble\<close> (floating point) are not modelled.
\<close>

abbreviation NETWORKMESSAGE_MAXSIZE :: nat where "NETWORKMESSAGE_MAXSIZE \<equiv> 65500"
abbreviation HEADER_LENGTH :: nat where "HEADER_LENGTH \<equiv> 2"
abbreviation CHECKSUM_LENGTH :: nat where "CHECKSUM_LENGTH \<equiv> 4"
abbreviation XTEA_MULTIPLE :: nat where "XTEA_MULTIPLE \<equiv> 8"
abbreviation INITIAL_BUFFER_POSITION :: nat where "INITIAL_BUFFER_POSITION \<equiv> 7"

definition MAX_BODY_LENGTH :: nat where
  [simp]: "MAX_BODY_LENGTH = NETWORKMESSAGE_MAXSIZE - HEADER_LENGTH - CHECKSUM_LENGTH - XTEA_MULTIPLE"

definition MAX_PROTOCOL_BODY_LENGTH :: nat where
  [simp]: "MAX_PROTOCOL_BODY_LENGTH = MAX_BODY_LENGTH - 10"

record netmsg =
  nm_length :: nat
  nm_position :: nat
  nm_overrun :: bool
  nm_buffer :: "u8 list"

definition nm_new :: netmsg where
  "nm_new = \<lparr>nm_length = 0, nm_position = INITIAL_BUFFER_POSITION, nm_overrun = False,
     nm_buffer = replicate NETWORKMESSAGE_MAXSIZE 0\<rparr>"

definition nm_reset :: "'a netmsg_scheme \<Rightarrow> 'a netmsg_scheme" where
  "nm_reset m = m\<lparr>nm_length := 0, nm_position := INITIAL_BUFFER_POSITION, nm_overrun := False,
     nm_buffer := replicate NETWORKMESSAGE_MAXSIZE 0\<rparr>"

section \<open>Guards and cursors\<close>

definition canAdd :: "nat \<Rightarrow> 'a netmsg_scheme \<Rightarrow> bool" where
  "canAdd n m \<longleftrightarrow> wrap64 (n + nm_position m) < MAX_BODY_LENGTH"

definition canRead :: "int \<Rightarrow> 'a netmsg_scheme \<Rightarrow> bool" where
  "canRead n m \<longleftrightarrow> n \<le> int (nm_length m) - (int (nm_position m) - int INITIAL_BUFFER_POSITION)"

definition setLength :: "nat \<Rightarrow> 'a netmsg_scheme \<Rightarrow> 'a netmsg_scheme" where
  "setLength n m = m\<lparr>nm_length := wrap16 n\<rparr>"

definition setBufferPosition :: "nat \<Rightarrow> 'a netmsg_scheme \<Rightarrow> 'a netmsg_scheme" where
  "setBufferPosition n m = m\<lparr>nm_position := wrap16 n\<rparr>"

definition getLengthHeader :: "'a netmsg_scheme \<Rightarrow> nat" where
  "getLengthHeader m =
     wrap16 (unat (nm_buffer m ! 0) + 256 * unat (nm_buffer m ! 1))"

text \<open>\<open>getBodyBuffer\<close> rewinds the cursor to the body; the pointer it returns is offset 2.\<close>

definition getBodyBuffer :: "'a netmsg_scheme \<Rightarrow> nat \<times> 'a netmsg_scheme" where
  "getBodyBuffer m = (HEADER_LENGTH, m\<lparr>nm_position := 2\<rparr>)"

definition skipBytes :: "int \<Rightarrow> 'a netmsg_scheme \<Rightarrow> 'a netmsg_scheme" where
  "skipBytes n m = m\<lparr>nm_position := nat ((int (nm_position m) + n) mod 65536)\<rparr>"

section \<open>Reading\<close>

text \<open>
  \<open>decodeHeader\<close>: the value is assembled in an \<open>int\<close>, and the cursor moves by
  \<open>sizeof(decodedHeader)\<close>, which is 4.
\<close>

definition decodeHeader :: "'a netmsg_scheme \<Rightarrow> nat \<times> 'a netmsg_scheme" where
  "decodeHeader m =
     (if \<not> canRead 2 m then (0, m)
      else if nm_position m + 1 < length (nm_buffer m) then
        (unat (nm_buffer m ! nm_position m) + 256 * unat (nm_buffer m ! (nm_position m + 1)),
         m\<lparr>nm_position := wrap16 (nm_position m + 4)\<rparr>)
      else (0, m))"

definition getByte :: "'a netmsg_scheme \<Rightarrow> u8 \<times> 'a netmsg_scheme" where
  "getByte m =
     (if \<not> canRead 1 m then (0, m)
      else if nm_position m = 0 then (0, m)
      else
        let m' = m\<lparr>nm_position := wrap16 (nm_position m + 1)\<rparr>
        in if nm_position m < length (nm_buffer m) then (nm_buffer m ! nm_position m, m')
           else (0, m'))"

definition getPreviousByte :: "'a netmsg_scheme \<Rightarrow> u8 \<times> 'a netmsg_scheme" where
  "getPreviousByte m =
     (if nm_position m = 0 then (0, m)
      else
        let p = nm_position m - 1; m' = m\<lparr>nm_position := p\<rparr>
        in if p < length (nm_buffer m) then (nm_buffer m ! p, m') else (0, m'))"

text \<open>The bytes \<open>get<T>\<close> reinterprets; \<open>T()\<close> is all zero bytes.\<close>

definition nm_get :: "nat \<Rightarrow> 'a netmsg_scheme \<Rightarrow> (u8 list \<times> 'a netmsg_scheme) option" where
  "nm_get n m =
     (if \<not> canRead (int n) m then Some (replicate n 0, m)
      else if length (nm_buffer m) < nm_position m + n then None
      else Some (window (nm_position m) n (nm_buffer m),
                 m\<lparr>nm_position := wrap16 (nm_position m + n)\<rparr>))"

definition getString ::
    "(u8 list \<Rightarrow> u8 list) \<Rightarrow> nat \<Rightarrow> 'a netmsg_scheme \<Rightarrow> (u8 list \<times> 'a netmsg_scheme) option" where
  "getString to_utf stringLen m =
     (case (if stringLen = 0
            then map_option (\<lambda>(w :: u16, m'). (unat w, m')) (read_int nm_get 2 m)
            else Some (stringLen, m)) of
        None \<Rightarrow> None
      | Some (len, m') \<Rightarrow>
          if \<not> canRead (int len) m' then Some ([], m')
          else if NETWORKMESSAGE_MAXSIZE < len then Some ([], m')
          else if length (nm_buffer m') < nm_position m' + len then None
          else Some (to_utf (window (nm_position m') len (nm_buffer m')),
                     m'\<lparr>nm_position := wrap16 (nm_position m' + len)\<rparr>))"

definition getPosition :: "'a netmsg_scheme \<Rightarrow> (position \<times> 'a netmsg_scheme) option" where
  "getPosition m =
     (case read_int nm_get 2 m of
        None \<Rightarrow> None
      | Some (x, m1) \<Rightarrow> (case read_int nm_get 2 m1 of
          None \<Rightarrow> None
        | Some (y, m2) \<Rightarrow> (let (z, m3) = getByte m2 in Some (Position x y z, m3))))"

section \<open>Writing\<close>

text \<open>The common last step of the writers: copy to the cursor, advance cursor and length.\<close>

definition nm_put :: "u8 list \<Rightarrow> 'a netmsg_scheme \<Rightarrow> 'a netmsg_scheme" where
  "nm_put bs m = m\<lparr>nm_buffer := store (nm_position m) bs (nm_buffer m),
     nm_position := wrap16 (nm_position m + length bs),
     nm_length := wrap16 (nm_length m + length bs)\<rparr>"

definition addByte :: "u8 \<Rightarrow> 'a netmsg_scheme \<Rightarrow> 'a netmsg_scheme" where
  "addByte b m =
     (if \<not> canAdd 1 m then m
      else if nm_position m < length (nm_buffer m) then nm_put [b] m
      else m\<lparr>nm_position := wrap16 (nm_position m + 1)\<rparr>)"

text \<open>\<open>add<T>\<close> on the bytes of the value.\<close>

definition nm_add :: "u8 list \<Rightarrow> 'a netmsg_scheme \<Rightarrow> 'a netmsg_scheme" where
  "nm_add bs m =
     (if \<not> canAdd (length bs) m then m
      else if length (nm_buffer m) < nm_position m + length bs then m
      else if length (nm_buffer m) - nm_position m < length bs then m
      else nm_put bs m)"

definition addBytes :: "u8 list \<Rightarrow> 'a netmsg_scheme \<Rightarrow> 'a netmsg_scheme option" where
  "addBytes bs m =
     (if \<not> canAdd (length bs) m then Some m
      else if NETWORKMESSAGE_MAXSIZE < length bs then Some m
      else if length (nm_buffer m) < nm_position m + length bs then None
      else Some (nm_put bs m))"

definition addPaddingBytes :: "nat \<Rightarrow> 'a netmsg_scheme \<Rightarrow> 'a netmsg_scheme option" where
  "addPaddingBytes n m =
     (if \<not> canAdd n m then Some m
      else if length (nm_buffer m) < nm_position m + n then None
      else Some (nm_put (replicate n 0x33) m))"

definition addString ::
    "(u8 list \<Rightarrow> u8 list) \<Rightarrow> u8 list \<Rightarrow> 'a netmsg_scheme \<Rightarrow> 'a netmsg_scheme option" where
  "addString from_utf value m =
     (if value = [] then Some (nm_add (le_bytes 2 (0 :: u16)) m)
      else
        let latin1Str = from_utf value; stringLen = length latin1Str
        in if \<not> canAdd (stringLen + 2) m then Some m
           else if NETWORKMESSAGE_MAXSIZE < stringLen then Some m
           else
             let m1 = nm_add (le_bytes 2 (of_nat stringLen :: u16)) m
             in if length (nm_buffer m1) < nm_position m1 + stringLen then None
                else Some (nm_put latin1Str m1))"

definition addPosition :: "position \<Rightarrow> 'a netmsg_scheme \<Rightarrow> 'a netmsg_scheme" where
  "addPosition pos m =
     addByte (pos_z pos) (nm_add (le_bytes 2 (pos_y pos)) (nm_add (le_bytes 2 (pos_x pos)) m))"

text \<open>\<open>NetworkMessage::append\<close>: the body of the other message, from its initial position.\<close>

definition nm_append :: "'b netmsg_scheme \<Rightarrow> 'a netmsg_scheme \<Rightarrow> 'a netmsg_scheme option" where
  "nm_append other m =
     (let otherLength = nm_length other
      in if \<not> canAdd otherLength m then Some m
         else if length (nm_buffer other) < INITIAL_BUFFER_POSITION + otherLength then None
         else if length (nm_buffer m) < nm_position m + otherLength then None
         else Some (nm_put (window INITIAL_BUFFER_POSITION otherLength (nm_buffer other)) m))"

section \<open>Well-formed messages\<close>

definition nm_wf :: "'a netmsg_scheme \<Rightarrow> bool" where
  "nm_wf m \<longleftrightarrow> length (nm_buffer m) = NETWORKMESSAGE_MAXSIZE
     \<and> nm_position m < 65536 \<and> nm_length m < 65536"

text \<open>A message can be read safely when its length leaves room for the initial offset.\<close>

definition nm_readable :: "'a netmsg_scheme \<Rightarrow> bool" where
  "nm_readable m \<longleftrightarrow> nm_wf m \<and> nm_length m + INITIAL_BUFFER_POSITION \<le> NETWORKMESSAGE_MAXSIZE"

text \<open>A message under construction: the cursor is at the end of the body.\<close>

definition nm_writing :: "'a netmsg_scheme \<Rightarrow> bool" where
  "nm_writing m \<longleftrightarrow> length (nm_buffer m) = NETWORKMESSAGE_MAXSIZE
     \<and> nm_position m = nm_length m + INITIAL_BUFFER_POSITION \<and> nm_position m < MAX_BODY_LENGTH"

definition nm_body :: "'a netmsg_scheme \<Rightarrow> u8 list" where
  "nm_body m = window INITIAL_BUFFER_POSITION (nm_length m) (nm_buffer m)"

lemma nm_new_writing [simp]: "nm_writing nm_new"
  by (simp add: nm_writing_def nm_new_def)

lemma nm_reset_writing [simp]: "nm_writing (nm_reset m)"
  by (simp add: nm_writing_def nm_reset_def)

lemma nm_writing_readable: "nm_writing m \<Longrightarrow> nm_readable m"
  by (auto simp: nm_writing_def nm_readable_def nm_wf_def)

lemma canRead_bound:
  "nm_readable m \<Longrightarrow> canRead (int n) m \<Longrightarrow> nm_position m + n \<le> length (nm_buffer m)"
  by (auto simp: nm_readable_def nm_wf_def canRead_def)

lemma canRead_1_bound:
  "nm_readable m \<Longrightarrow> canRead 1 m \<Longrightarrow> nm_position m < length (nm_buffer m)"
  by (auto simp: nm_readable_def nm_wf_def canRead_def)

lemma nm_readable_cursor:
  "nm_readable m \<Longrightarrow> p < 65536 \<Longrightarrow> nm_readable (m\<lparr>nm_position := p\<rparr>)"
  by (simp add: nm_readable_def nm_wf_def)


section \<open>Reads stay inside the buffer\<close>

datatype read_op =
    Read_Header | Read_Byte | Read_Previous | Read_Int nat | Read_String nat
  | Read_Position | Read_Skip int

text \<open>One read with its value dropped: what matters here is definedness and the cursor.\<close>

fun read_step :: "(u8 list \<Rightarrow> u8 list) \<Rightarrow> read_op \<Rightarrow> netmsg \<Rightarrow> netmsg option" where
  "read_step to_utf Read_Header m = Some (snd (decodeHeader m))"
| "read_step to_utf Read_Byte m = Some (snd (getByte m))"
| "read_step to_utf Read_Previous m = Some (snd (getPreviousByte m))"
| "read_step to_utf (Read_Int n) m = map_option snd (nm_get n m)"
| "read_step to_utf (Read_String n) m = map_option snd (getString to_utf n m)"
| "read_step to_utf Read_Position m = map_option snd (getPosition m)"
| "read_step to_utf (Read_Skip n) m = Some (skipBytes n m)"

fun read_run :: "(u8 list \<Rightarrow> u8 list) \<Rightarrow> read_op list \<Rightarrow> netmsg \<Rightarrow> netmsg option" where
  "read_run to_utf [] m = Some m"
| "read_run to_utf (op # ops) m = (case read_step to_utf op m of
      None \<Rightarrow> None | Some m' \<Rightarrow> read_run to_utf ops m')"

text \<open>What a read may change: the cursor only.\<close>

definition cursor_moved :: "'a netmsg_scheme \<Rightarrow> 'a netmsg_scheme \<Rightarrow> bool" where
  "cursor_moved m m' \<longleftrightarrow> (\<exists>p < 65536. m' = m\<lparr>nm_position := p\<rparr>)"

lemma cursor_moved_readable: "nm_readable m \<Longrightarrow> cursor_moved m m' \<Longrightarrow> nm_readable m'"
  by (auto simp: cursor_moved_def nm_readable_cursor)

lemma cursor_moved_trans: "cursor_moved m m' \<Longrightarrow> cursor_moved m' m'' \<Longrightarrow> cursor_moved m m''"
  by (auto simp: cursor_moved_def)

lemma cursor_moved_buffer:
  "cursor_moved m m' \<Longrightarrow> nm_buffer m' = nm_buffer m \<and> nm_length m' = nm_length m"
  by (auto simp: cursor_moved_def)

lemma cursor_moved_refl [simp]: "nm_readable m \<Longrightarrow> cursor_moved m m"
  by (auto simp: cursor_moved_def nm_readable_def nm_wf_def intro!: exI [of _ "nm_position m"])

lemma cursor_moved_to [simp]: "p < 65536 \<Longrightarrow> cursor_moved m (m\<lparr>nm_position := p\<rparr>)"
  by (auto simp: cursor_moved_def)

lemma nm_get_safe:
  "nm_readable m \<Longrightarrow> \<exists>bs m'. nm_get n m = Some (bs, m') \<and> cursor_moved m m' \<and> length bs = n"
  using canRead_bound [of m n] by (auto simp: nm_get_def not_less length_window)

lemma read_int_nm_get_safe:
  "nm_readable m \<Longrightarrow> \<exists>w m'. read_int nm_get n m = Some (w, m') \<and> cursor_moved m m'"
  using nm_get_safe [of m n] by (auto simp: read_int_def)

lemma getByte_moves: "nm_readable m \<Longrightarrow> cursor_moved m (snd (getByte m))"
  by (simp add: getByte_def Let_def)

lemma getString_safe:
  assumes "nm_readable m"
  shows "\<exists>r m'. getString to_utf n m = Some (r, m') \<and> cursor_moved m m'"
proof -
  have tail: "\<exists>r m2. (if \<not> canRead (int len) m1 then Some ([], m1)
      else if NETWORKMESSAGE_MAXSIZE < len then Some ([], m1)
      else if length (nm_buffer m1) < nm_position m1 + len then None
      else Some (to_utf (window (nm_position m1) len (nm_buffer m1)),
                 m1\<lparr>nm_position := wrap16 (nm_position m1 + len)\<rparr>)) = Some (r, m2)
      \<and> cursor_moved m1 m2" if "nm_readable m1" for m1 len
    using that canRead_bound [OF that, of len] by auto
  show ?thesis
  proof (cases "n = 0")
    case True
    obtain w :: u16 and m1 where r: "read_int nm_get 2 m = Some (w, m1)" "cursor_moved m m1"
      using read_int_nm_get_safe [OF assms] by blast
    with True tail [of m1 "unat w"] cursor_moved_readable [OF assms] show ?thesis
      by (force simp: getString_def dest: cursor_moved_trans)
  next
    case False
    with tail [OF assms, of n] show ?thesis by (simp add: getString_def)
  qed
qed

lemma getPosition_safe:
  assumes "nm_readable m"
  shows "\<exists>r m'. getPosition m = Some (r, m') \<and> cursor_moved m m'"
proof -
  obtain x :: u16 and m1 where 1: "read_int nm_get 2 m = Some (x, m1)" "cursor_moved m m1"
    using read_int_nm_get_safe [OF assms] by blast
  then have r1: "nm_readable m1" using assms cursor_moved_readable by blast
  obtain y :: u16 and m2 where 2: "read_int nm_get 2 m1 = Some (y, m2)" "cursor_moved m1 m2"
    using read_int_nm_get_safe [OF r1] by blast
  then have r2: "nm_readable m2" using r1 cursor_moved_readable by blast
  from 1 2 getByte_moves [OF r2] show ?thesis
    by (auto simp: getPosition_def split: prod.splits dest: cursor_moved_trans)
qed

lemma read_step_safe:
  assumes "nm_readable m"
  shows "\<exists>m'. read_step to_utf op m = Some m' \<and> cursor_moved m m'"
proof (cases op)
  case Read_Header
  with assms show ?thesis by (simp add: decodeHeader_def)
next
  case Read_Byte
  with assms show ?thesis by (simp add: getByte_moves)
next
  case Read_Previous
  with assms show ?thesis
    by (auto simp: getPreviousByte_def Let_def nm_readable_def nm_wf_def)
next
  case (Read_Int n)
  with nm_get_safe [OF assms, of n] show ?thesis by auto
next
  case (Read_String n)
  with getString_safe [OF assms, of to_utf n] show ?thesis by auto
next
  case Read_Position
  with getPosition_safe [OF assms] show ?thesis by auto
next
  case (Read_Skip n)
  have "nat ((int (nm_position m) + n) mod 65536) < 65536"
    using pos_mod_bound [of 65536 "int (nm_position m) + n"] by linarith
  with Read_Skip show ?thesis by (simp add: skipBytes_def)
qed

lemma read_run_safe:
  "nm_readable m \<Longrightarrow> \<exists>m'. read_run to_utf ops m = Some m' \<and> cursor_moved m m'"
proof (induction ops arbitrary: m)
  case Nil
  then show ?case by simp
next
  case (Cons op ops)
  then obtain m1 where "read_step to_utf op m = Some m1" "cursor_moved m m1"
    using read_step_safe by blast
  with Cons show ?case
    by (metis (no_types, lifting) cursor_moved_readable cursor_moved_trans option.simps(5) read_run.simps(2))
qed

section \<open>Writes stay inside the buffer\<close>

datatype field =
    F_Byte u8 | F_U16 u16 | F_U32 u32 | F_U64 u64 | F_String "u8 list" | F_Position position

fun field_bytes :: "(u8 list \<Rightarrow> u8 list) \<Rightarrow> field \<Rightarrow> u8 list" where
  "field_bytes from_utf (F_Byte b) = [b]"
| "field_bytes from_utf (F_U16 w) = le_bytes 2 w"
| "field_bytes from_utf (F_U32 w) = le_bytes 4 w"
| "field_bytes from_utf (F_U64 w) = le_bytes 8 w"
| "field_bytes from_utf (F_String s) =
     (let l = if s = [] then [] else from_utf s in le_bytes 2 (of_nat (length l) :: u16) @ l)"
| "field_bytes from_utf (F_Position p) =
     le_bytes 2 (pos_x p) @ le_bytes 2 (pos_y p) @ [pos_z p]"

fun add_field :: "(u8 list \<Rightarrow> u8 list) \<Rightarrow> field \<Rightarrow> netmsg \<Rightarrow> netmsg option" where
  "add_field from_utf (F_Byte b) m = Some (addByte b m)"
| "add_field from_utf (F_U16 w) m = Some (nm_add (le_bytes 2 w) m)"
| "add_field from_utf (F_U32 w) m = Some (nm_add (le_bytes 4 w) m)"
| "add_field from_utf (F_U64 w) m = Some (nm_add (le_bytes 8 w) m)"
| "add_field from_utf (F_String s) m = addString from_utf s m"
| "add_field from_utf (F_Position p) m = Some (addPosition p m)"

fun add_fields :: "(u8 list \<Rightarrow> u8 list) \<Rightarrow> field list \<Rightarrow> netmsg \<Rightarrow> netmsg option" where
  "add_fields from_utf [] m = Some m"
| "add_fields from_utf (f # fs) m = (case add_field from_utf f m of
      None \<Rightarrow> None | Some m' \<Rightarrow> add_fields from_utf fs m')"

text \<open>
  Outside wrap-around of the 64-bit sum in \<open>canAdd\<close> the guard is the plain comparison.
\<close>

lemma canAdd_writing:
  "nm_writing m \<Longrightarrow> n < 65536 \<Longrightarrow> canAdd n m \<longleftrightarrow> n + nm_position m < MAX_BODY_LENGTH"
  by (simp add: canAdd_def nm_writing_def wrap64_id)

lemma canAdd_huge: "NETWORKMESSAGE_MAXSIZE < n \<Longrightarrow> n < 65536 \<Longrightarrow> nm_writing m \<Longrightarrow> \<not> canAdd n m"
  by (simp add: canAdd_writing)

lemma nm_put_writing:
  "nm_writing m \<Longrightarrow> nm_position m + length bs < MAX_BODY_LENGTH \<Longrightarrow> nm_writing (nm_put bs m)"
  by (auto simp: nm_writing_def nm_put_def buffer_simps wrap_simps)

lemma nm_put_position [simp]:
  "nm_writing m \<Longrightarrow> nm_position m + length bs < MAX_BODY_LENGTH \<Longrightarrow>
    nm_position (nm_put bs m) = nm_position m + length bs
    \<and> nm_length (nm_put bs m) = nm_length m + length bs"
  by (simp add: nm_put_def nm_writing_def wrap_simps)

lemma nm_put_put:
  assumes "nm_writing m" "nm_position m + length xs + length ys < MAX_BODY_LENGTH"
  shows "nm_put ys (nm_put xs m) = nm_put (xs @ ys) m"
proof -
  have "store (nm_position m + length xs) ys (store (nm_position m) xs (nm_buffer m))
      = store (nm_position m) (xs @ ys) (nm_buffer m)"
    using assms by (intro store_store_adjacent) (simp add: nm_writing_def)
  with assms show ?thesis
    by (simp add: nm_put_def nm_writing_def wrap_simps ac_simps)
qed

lemma nm_put_Nil [simp]: "nm_writing m \<Longrightarrow> nm_put [] m = m"
  by (simp add: nm_put_def nm_writing_def wrap_simps)

lemma nm_put_body:
  assumes "nm_writing m" "nm_position m + length bs < MAX_BODY_LENGTH"
  shows "nm_body (nm_put bs m) = nm_body m @ bs"
proof -
  have "nm_body (nm_put bs m)
      = window 7 (nm_length m + length bs) (store (nm_position m) bs (nm_buffer m))"
    using assms by (simp add: nm_body_def) (simp add: nm_put_def)
  also have "\<dots> = window 7 (nm_length m) (store (nm_position m) bs (nm_buffer m))
      @ window (nm_position m) (length bs) (store (nm_position m) bs (nm_buffer m))"
    using assms(1) unfolding window_split by (simp add: nm_writing_def add.commute)
  also have "\<dots> = nm_body m @ bs"
    using assms by (simp add: nm_body_def nm_writing_def window_before_store window_store_same)
  finally show ?thesis .
qed

text \<open>A writer either drops its bytes or puts all of them.\<close>

lemma nm_add_cases:
  assumes "nm_writing m" "length bs < 65536"
  shows "nm_add bs m = (if nm_position m + length bs < MAX_BODY_LENGTH then nm_put bs m else m)"
  using assms by (auto simp: nm_add_def canAdd_writing) (auto simp: nm_writing_def)

lemma addByte_cases:
  assumes "nm_writing m"
  shows "addByte b m = (if nm_position m + 1 < MAX_BODY_LENGTH then nm_put [b] m else m)"
  using assms by (auto simp: addByte_def canAdd_writing) (auto simp: nm_writing_def)

lemma nm_add_writing: "nm_writing m \<Longrightarrow> length bs < 65536 \<Longrightarrow> nm_writing (nm_add bs m)"
  by (simp add: nm_add_cases nm_put_writing)

lemma addByte_writing: "nm_writing m \<Longrightarrow> nm_writing (addByte b m)"
  by (simp add: addByte_cases nm_put_writing)

lemma addString_cases:
  assumes "nm_writing m" "value \<noteq> []"
  shows "addString from_utf value m =
    (let l = from_utf value in
     Some (if length l \<le> NETWORKMESSAGE_MAXSIZE \<and> nm_position m + length l + 2 < MAX_BODY_LENGTH
           then nm_put (le_bytes 2 (of_nat (length l) :: u16) @ l) m else m))"
proof (cases "length (from_utf value) \<le> NETWORKMESSAGE_MAXSIZE")
  case False
  with assms show ?thesis by (simp add: addString_def Let_def)
next
  case small: True
  let ?l = "from_utf value" and ?h = "le_bytes 2 (of_nat (length (from_utf value)) :: u16)"
  have can: "canAdd (length ?l + 2) m \<longleftrightarrow> nm_position m + length ?l + 2 < MAX_BODY_LENGTH"
    using small assms(1) by (subst canAdd_writing) auto
  show ?thesis
  proof (cases "nm_position m + length ?l + 2 < MAX_BODY_LENGTH")
    case True
    have h: "nm_add ?h m = nm_put ?h m"
      using True assms(1) by (simp add: nm_add_cases)
    have "nm_writing (nm_put ?h m)"
      using True assms(1) by (intro nm_put_writing) auto
    moreover have "nm_put ?l (nm_put ?h m) = nm_put (?h @ ?l) m"
      using True assms(1) by (intro nm_put_put) auto
    ultimately show ?thesis
      using True small assms can h
      by (simp add: addString_def Let_def) (simp add: nm_writing_def)
  next
    case False
    with small assms can show ?thesis by (simp add: addString_def Let_def)
  qed
qed

lemma add_field_writing:
  assumes "nm_writing m"
  shows "\<exists>m'. add_field from_utf f m = Some m' \<and> nm_writing m'"
proof (cases f)
  case (F_String s)
  show ?thesis
  proof (cases "s = []")
    case True
    with F_String assms show ?thesis by (simp add: addString_def nm_add_writing)
  next
    case False
    with F_String assms show ?thesis
      by (auto simp: addString_cases Let_def intro!: nm_put_writing)
  qed
next
  case (F_Position p)
  with assms show ?thesis by (simp add: addPosition_def addByte_writing nm_add_writing)
qed (use assms in \<open>simp_all add: addByte_writing nm_add_writing\<close>)

lemma add_fields_writing:
  "nm_writing m \<Longrightarrow> \<exists>m'. add_fields from_utf fs m = Some m' \<and> nm_writing m'"
proof (induction fs arbitrary: m)
  case Nil
  then show ?case by simp
next
  case (Cons f fs)
  then show ?case using add_field_writing [OF Cons.prems, of from_utf f] by force
qed


section \<open>What is written is read back\<close>

text \<open>The read call that mirrors each write call.\<close>

fun read_field :: "(u8 list \<Rightarrow> u8 list) \<Rightarrow> field \<Rightarrow> netmsg \<Rightarrow> (field \<times> netmsg) option" where
  "read_field to_utf (F_Byte _) m = (let (b, m') = getByte m in Some (F_Byte b, m'))"
| "read_field to_utf (F_U16 _) m = map_option (\<lambda>(w, m'). (F_U16 w, m')) (read_int nm_get 2 m)"
| "read_field to_utf (F_U32 _) m = map_option (\<lambda>(w, m'). (F_U32 w, m')) (read_int nm_get 4 m)"
| "read_field to_utf (F_U64 _) m = map_option (\<lambda>(w, m'). (F_U64 w, m')) (read_int nm_get 8 m)"
| "read_field to_utf (F_String _) m =
     map_option (\<lambda>(s, m'). (F_String s, m')) (getString to_utf 0 m)"
| "read_field to_utf (F_Position _) m = map_option (\<lambda>(p, m'). (F_Position p, m')) (getPosition m)"

fun read_fields :: "(u8 list \<Rightarrow> u8 list) \<Rightarrow> field list \<Rightarrow> netmsg \<Rightarrow> (field list \<times> netmsg) option" where
  "read_fields to_utf [] m = Some ([], m)"
| "read_fields to_utf (f # fs) m = (case read_field to_utf f m of
      None \<Rightarrow> None
    | Some (f', m') \<Rightarrow> (case read_fields to_utf fs m' of
        None \<Rightarrow> None
      | Some (fs', m'') \<Rightarrow> Some (f' # fs', m'')))"

text \<open>What is left to read: from the cursor to the end the length announces.\<close>

definition nm_remaining :: "netmsg \<Rightarrow> u8 list" where
  "nm_remaining m = window (nm_position m)
     (nm_length m + INITIAL_BUFFER_POSITION - nm_position m) (nm_buffer m)"

definition nm_reading :: "netmsg \<Rightarrow> bool" where
  "nm_reading m \<longleftrightarrow> nm_readable m \<and> 0 < nm_position m
     \<and> nm_position m \<le> nm_length m + INITIAL_BUFFER_POSITION"

lemma length_nm_remaining:
  "nm_reading m \<Longrightarrow>
    length (nm_remaining m) = nm_length m + INITIAL_BUFFER_POSITION - nm_position m"
  unfolding nm_remaining_def
  by (rule length_window) (auto simp: nm_reading_def nm_readable_def nm_wf_def)

lemma nm_reading_advance:
  assumes "nm_reading m" "n \<le> length (nm_remaining m)"
  shows "nm_position m + n \<le> length (nm_buffer m)"
    and "nm_position m + n < 65536"
    and "canRead (int n) m"
    and "nm_reading (m\<lparr>nm_position := nm_position m + n\<rparr>)"
    and "nm_remaining (m\<lparr>nm_position := nm_position m + n\<rparr>) = drop n (nm_remaining m)"
    and "window (nm_position m) n (nm_buffer m) = take n (nm_remaining m)"
  using assms length_nm_remaining [OF assms(1)]
  by (auto simp: nm_reading_def nm_readable_def nm_wf_def canRead_def nm_remaining_def
      window_def drop_take add.commute)

interpretation nm_reader: byte_reader nm_get nm_remaining nm_reading
proof
  fix m :: netmsg and n
  assume "nm_reading m" "n \<le> length (nm_remaining m)"
  then show "\<exists>m'. nm_get n m = Some (take n (nm_remaining m), m')
      \<and> nm_remaining m' = drop n (nm_remaining m) \<and> nm_reading m'"
    using nm_reading_advance [of m n] by (auto simp: nm_get_def wrap16_id)
qed

lemma getByte_front:
  assumes "nm_reading m" "nm_remaining m = b # rest"
  shows "\<exists>m'. getByte m = (b, m') \<and> nm_remaining m' = rest \<and> nm_reading m'"
proof -
  have "Suc 0 \<le> length (nm_remaining m)" using assms(2) by simp
  note adv = nm_reading_advance [OF assms(1) this]
  have "nm_buffer m ! nm_position m = b"
    using adv(1,6) assms(2) window_1 [of "nm_position m" "nm_buffer m"] by simp
  with adv assms show ?thesis
    by (auto simp: getByte_def nm_reading_def wrap16_id)
qed

lemma getString_front:
  assumes "nm_reading m" "length l < 65536"
    and "nm_remaining m = le_bytes 2 (of_nat (length l) :: u16) @ l @ rest"
  shows "\<exists>m'. getString to_utf 0 m = Some (to_utf l, m') \<and> nm_remaining m' = rest \<and> nm_reading m'"
proof -
  obtain m1 where m1: "read_int nm_get 2 m = Some (of_nat (length l) :: u16, m1)"
      "nm_remaining m1 = l @ rest" "nm_reading m1"
    using nm_reader.read_int_append [OF assms(1,3)] by auto
  have "length l \<le> length (nm_remaining m1)" using m1(2) by simp
  note adv = nm_reading_advance [OF m1(3) this]
  have len: "unat (of_nat (length l) :: u16) = length l"
    using assms(2) by (simp add: unat_of_nat)
  have "length l \<le> NETWORKMESSAGE_MAXSIZE"
    using adv(1) m1(3) by (simp add: nm_reading_def nm_readable_def nm_wf_def)
  with adv m1 len show ?thesis by (auto simp: getString_def wrap16_id)
qed

lemma getPosition_front:
  assumes "nm_reading m"
    and "nm_remaining m = le_bytes 2 (pos_x p) @ le_bytes 2 (pos_y p) @ [pos_z p] @ rest"
  shows "\<exists>m'. getPosition m = Some (p, m') \<and> nm_remaining m' = rest \<and> nm_reading m'"
proof -
  obtain m1 where m1: "read_int nm_get 2 m = Some (pos_x p, m1)"
      "nm_remaining m1 = le_bytes 2 (pos_y p) @ [pos_z p] @ rest" "nm_reading m1"
    using nm_reader.read_int_append [OF assms] by auto
  obtain m2 where m2: "read_int nm_get 2 m1 = Some (pos_y p, m2)"
      "nm_remaining m2 = pos_z p # rest" "nm_reading m2"
    using nm_reader.read_int_append [OF m1(3,2)] by auto
  obtain m3 where "getByte m2 = (pos_z p, m3)" "nm_remaining m3 = rest" "nm_reading m3"
    using getByte_front [OF m2(3,2)] by blast
  with m1 m2 show ?thesis by (simp add: getPosition_def)
qed

definition field_ok :: "(u8 list \<Rightarrow> u8 list) \<Rightarrow> (u8 list \<Rightarrow> u8 list) \<Rightarrow> field \<Rightarrow> bool" where
  "field_ok to_utf from_utf f \<longleftrightarrow> (case f of
      F_String s \<Rightarrow> to_utf (if s = [] then [] else from_utf s) = s
    | _ \<Rightarrow> True)"

lemma read_field_front:
  assumes "nm_reading m" "nm_remaining m = field_bytes from_utf f @ rest"
    and "field_ok to_utf from_utf f" "length (field_bytes from_utf f) < 65536"
  shows "\<exists>m'. read_field to_utf f m = Some (f, m') \<and> nm_remaining m' = rest \<and> nm_reading m'"
proof (cases f)
  case (F_Byte b)
  with getByte_front [of m b rest] assms show ?thesis by auto
next
  case (F_U16 w)
  with nm_reader.read_int_append [of m 2 w rest] assms show ?thesis by auto
next
  case (F_U32 w)
  with nm_reader.read_int_append [of m 4 w rest] assms show ?thesis by auto
next
  case (F_U64 w)
  with nm_reader.read_int_append [of m 8 w rest] assms show ?thesis by auto
next
  case (F_String s)
  with getString_front [of m "if s = [] then [] else from_utf s" rest to_utf] assms show ?thesis
    by (auto simp: field_ok_def Let_def)
next
  case (F_Position p)
  with getPosition_front [of m p rest] assms show ?thesis by auto
qed

lemma read_fields_front:
  assumes "nm_reading m" "nm_remaining m = concat (map (field_bytes from_utf) fs) @ rest"
    and "\<forall>f \<in> set fs. field_ok to_utf from_utf f"
    and "length (concat (map (field_bytes from_utf) fs)) < 65536"
  shows "\<exists>m'. read_fields to_utf fs m = Some (fs, m') \<and> nm_remaining m' = rest"
  using assms
proof (induction fs arbitrary: m)
  case Nil
  then show ?case by simp
next
  case (Cons f fs)
  then obtain m1 where "read_field to_utf f m = Some (f, m1)"
      "nm_remaining m1 = concat (map (field_bytes from_utf) fs) @ rest" "nm_reading m1"
    using read_field_front [of m from_utf f "concat (map (field_bytes from_utf) fs) @ rest" to_utf]
    by auto
  with Cons.IH [of m1] Cons.prems show ?case by auto
qed

lemma add_field_put:
  assumes "nm_writing m" "nm_position m + length (field_bytes from_utf f) < MAX_BODY_LENGTH"
  shows "add_field from_utf f m = Some (nm_put (field_bytes from_utf f) m)"
proof (cases f)
  case (F_String s)
  show ?thesis
  proof (cases "s = []")
    case True
    with F_String assms show ?thesis by (simp add: addString_def nm_add_cases)
  next
    case False
    moreover have "length (from_utf s) \<le> NETWORKMESSAGE_MAXSIZE"
      using False F_String assms by (simp add: Let_def)
    ultimately show ?thesis
      using F_String assms addString_cases [OF assms(1) False, of from_utf] by (simp add: Let_def)
  qed
next
  case (F_Position p)
  have "nm_writing (nm_put (le_bytes 2 (pos_x p)) m)"
    and "nm_writing (nm_put (le_bytes 2 (pos_x p) @ le_bytes 2 (pos_y p)) m)"
    using F_Position assms by (auto intro!: nm_put_writing)
  with F_Position assms show ?thesis
    by (simp add: addPosition_def nm_add_cases addByte_cases nm_put_put)
qed (use assms in \<open>simp_all add: nm_add_cases addByte_cases\<close>)

lemma add_fields_put:
  assumes "nm_writing m"
    and "nm_position m + length (concat (map (field_bytes from_utf) fs)) < MAX_BODY_LENGTH"
  shows "add_fields from_utf fs m = Some (nm_put (concat (map (field_bytes from_utf) fs)) m)"
  using assms
proof (induction fs arbitrary: m)
  case Nil
  then show ?case by simp
next
  case (Cons f fs)
  let ?m = "nm_put (field_bytes from_utf f) m"
  have fit: "nm_position m + length (field_bytes from_utf f) < MAX_BODY_LENGTH"
    using Cons.prems(2) by simp
  have "nm_writing ?m" using Cons.prems(1) fit by (rule nm_put_writing)
  with Cons fit show ?case
    by (simp add: add_field_put nm_put_put add.assoc)
qed


section \<open>Properties\<close>

text \<open>
  C34. Memory safety of reading: on any message whose announced length leaves room for the
  seven initial bytes, every sequence of reads, in any order and with any sizes a client
  could ask for, is defined (no access leaves the 65500-byte buffer) and changes nothing
  but the cursor.
\<close>
theorem reads_stay_in_buffer:
  assumes "nm_readable m"
  shows "\<exists>m'. read_run to_utf ops m = Some m' \<and> nm_readable m'
    \<and> nm_buffer m' = nm_buffer m \<and> nm_length m' = nm_length m"
  using read_run_safe [OF assms, of to_utf ops] cursor_moved_readable [OF assms] cursor_moved_buffer
  by metis

theorem reads_stay_in_buffer_witness:
  "\<exists>m'. read_run id [Read_Int 4, Read_Skip (- 20), Read_String 0, Read_Previous] nm_new = Some m'
    \<and> nm_readable m' \<and> nm_buffer m' = nm_buffer nm_new \<and> nm_length m' = nm_length nm_new"
  by (rule reads_stay_in_buffer [OF nm_writing_readable [OF nm_new_writing]])

text \<open>
  C35. Memory safety of writing: starting from a fresh or reset message, any sequence of
  field writes is defined, keeps the cursor at the end of the body and below
  \<open>MAX_BODY_LENGTH\<close>, and keeps the buffer's size; a field that does not fit is dropped.
\<close>
theorem writes_stay_in_buffer:
  "\<exists>m'. add_fields from_utf fs (nm_reset m) = Some m'
    \<and> length (nm_buffer m') = NETWORKMESSAGE_MAXSIZE
    \<and> nm_position m' = nm_length m' + INITIAL_BUFFER_POSITION
    \<and> nm_position m' < MAX_BODY_LENGTH"
  using add_fields_writing [OF nm_reset_writing, of from_utf fs m] by (auto simp: nm_writing_def)

text \<open>
  C36. Round trip of the message codec: fields written to a reset message that fit its
  body are read back, in order and unchanged, by the mirrored reads from the initial
  position, provided the character-set conversions of Boost.Locale are inverse to each
  other on the strings involved.
\<close>
theorem fields_roundtrip:
  assumes "length (concat (map (field_bytes from_utf) fs)) + INITIAL_BUFFER_POSITION < MAX_BODY_LENGTH"
    and "\<forall>s. F_String s \<in> set fs \<longrightarrow> to_utf (if s = [] then [] else from_utf s) = s"
  shows "\<exists>m' m''. add_fields from_utf fs (nm_reset m) = Some m'
    \<and> read_fields to_utf fs (setBufferPosition INITIAL_BUFFER_POSITION m') = Some (fs, m'')"
proof -
  let ?bs = "concat (map (field_bytes from_utf) fs)" and ?m = "nm_reset m"
  let ?p = "nm_put ?bs ?m"
  have fit: "nm_position ?m + length ?bs < MAX_BODY_LENGTH"
    using assms(1) by (simp add: nm_reset_def)
  have written: "add_fields from_utf fs ?m = Some ?p"
    by (rule add_fields_put [OF nm_reset_writing fit])
  have writing: "nm_writing ?p"
    using fit by (intro nm_put_writing nm_reset_writing)
  have body: "nm_body ?p = ?bs"
    unfolding nm_put_body [OF nm_reset_writing fit] by (simp add: nm_body_def nm_reset_def)
  let ?r = "setBufferPosition INITIAL_BUFFER_POSITION ?p"
  have "nm_reading ?r"
    using writing by (auto simp: nm_reading_def nm_readable_def nm_wf_def nm_writing_def
        setBufferPosition_def wrap16_def)
  moreover have "nm_remaining ?r = ?bs @ []"
    using body by (simp add: nm_remaining_def nm_body_def setBufferPosition_def wrap16_def)
  moreover have "\<forall>f \<in> set fs. field_ok to_utf from_utf f"
    using assms(2) by (auto simp: field_ok_def split: field.splits)
  ultimately show ?thesis
    using read_fields_front [of ?r from_utf fs "[]" to_utf] assms(1) written by auto
qed

theorem fields_roundtrip_witness:
  "\<exists>m' m''. add_fields id [F_U16 513, F_String [72, 105], F_Position (Position 100 200 7)] (nm_reset nm_new) = Some m'
    \<and> read_fields id [F_U16 513, F_String [72, 105], F_Position (Position 100 200 7)]
        (setBufferPosition INITIAL_BUFFER_POSITION m')
      = Some ([F_U16 513, F_String [72, 105], F_Position (Position 100 200 7)], m'')"
  by (rule fields_roundtrip) simp_all

end
