(* ===== verification/Output_Message.thy ===== *)
theory Output_Message
  imports Network_Message
begin

text \<open>
  \<open>OutputMessage\<close> and \<open>OutputMessagePool\<close> (src/src/server/network/message/
  outputmessage.hpp and .cpp). An output message extends a network message with
  \<open>outputBufferStart\<close>, which moves back from the initial position as headers are put in
  front of the body; the bytes that go on the wire are \<open>wire_bytes\<close>. The pool keeps the
  protocols whose buffers are flushed together.
\<close>

record outmsg = netmsg +
  om_start :: nat

definition om_new :: outmsg where
  "om_new = \<lparr>nm_length = 0, nm_position = INITIAL_BUFFER_POSITION, nm_overrun = False,
     nm_buffer = replicate NETWORKMESSAGE_MAXSIZE 0, om_start = INITIAL_BUFFER_POSITION\<rparr>"

definition om_reset :: "outmsg \<Rightarrow> outmsg" where
  "om_reset m = (nm_reset m)\<lparr>om_start := INITIAL_BUFFER_POSITION\<rparr>"

text \<open>What \<open>getOutputBuffer\<close> and \<open>getLength\<close> hand to the socket.\<close>

definition wire_bytes :: "outmsg \<Rightarrow> u8 list" where
  "wire_bytes m = window (om_start m) (nm_length m) (nm_buffer m)"

text \<open>\<open>add_header<T>\<close> on the bytes of the header.\<close>

definition add_header :: "u8 list \<Rightarrow> outmsg \<Rightarrow> outmsg" where
  "add_header bs m =
     (if om_start m < length bs then m
      else let start = om_start m - length bs
           in m\<lparr>om_start := start, nm_buffer := store start bs (nm_buffer m),
                nm_length := wrap16 (nm_length m + length bs)\<rparr>)"

definition paddingAmount :: "nat \<Rightarrow> nat" where
  "paddingAmount len = (8 - len mod 8 - 1) mod 256"

definition writePaddingAmount :: "outmsg \<Rightarrow> outmsg option" where
  "writePaddingAmount m =
     (let padding = paddingAmount (nm_length m)
      in map_option (add_header [of_nat padding]) (addPaddingBytes padding m))"

text \<open>
  \<open>(info.length - 4) / 8\<close> is computed in \<open>int\<close> (truncating towards zero) and narrowed.
\<close>

definition messageLengthHeader :: "nat \<Rightarrow> u16" where
  "messageLengthHeader len =
     (if 4 \<le> len then of_nat ((len - 4) div 8) else - of_nat ((4 - len) div 8))"

definition writeMessageLength :: "outmsg \<Rightarrow> outmsg" where
  "writeMessageLength m = add_header (le_bytes 2 (messageLengthHeader (nm_length m))) m"

definition addCryptoHeader :: "bool \<Rightarrow> u32 \<Rightarrow> outmsg \<Rightarrow> outmsg" where
  "addCryptoHeader addChecksum checksum m =
     writeMessageLength (if addChecksum then add_header (le_bytes 4 checksum) m else m)"

text \<open>
  \<open>OutputMessage::append\<close> (both overloads) copies without asking \<open>canAdd\<close>.
\<close>

definition om_append :: "'a netmsg_scheme \<Rightarrow> outmsg \<Rightarrow> outmsg option" where
  "om_append msg m =
     (let msgLen = nm_length msg
      in if length (nm_buffer msg) < INITIAL_BUFFER_POSITION + msgLen
            \<or> length (nm_buffer m) < nm_position m + msgLen then None
         else Some (nm_put (window INITIAL_BUFFER_POSITION msgLen (nm_buffer msg)) m))"

section \<open>The pool of protocols with a buffered message\<close>

text \<open>
  \<open>'p\<close> stands for the protocol pointers and \<open>buffer\<close> maps a protocol to its current
  output buffer. \<open>scheduled\<close> counts the pending timer events of \<open>scheduleSendAll\<close>.
\<close>

record ('p, 'm) pool =
  bufferedProtocols :: "'p list"
  scheduled :: nat
  pool_buffer :: "'p \<Rightarrow> 'm option"
  pool_sent :: "('p \<times> 'm) list"

definition scheduleSendAll :: "('p, 'm) pool \<Rightarrow> ('p, 'm) pool" where
  "scheduleSendAll s = s\<lparr>scheduled := scheduled s + 1\<rparr>"

fun flush_protocols :: "'p list \<Rightarrow> ('p, 'm) pool \<Rightarrow> ('p, 'm) pool" where
  "flush_protocols [] s = s"
| "flush_protocols (p # ps) s = flush_protocols ps (case pool_buffer s p of
      None \<Rightarrow> s
    | Some m \<Rightarrow> s\<lparr>pool_buffer := (pool_buffer s)(p := None), pool_sent := pool_sent s @ [(p, m)]\<rparr>)"

text \<open>The timer event that runs \<open>sendAll\<close> is consumed by running it.\<close>

definition sendAll :: "('p, 'm) pool \<Rightarrow> ('p, 'm) pool" where
  "sendAll s =
     (let s' = flush_protocols (bufferedProtocols s) (s\<lparr>scheduled := scheduled s - 1\<rparr>)
      in if bufferedProtocols s' \<noteq> [] then scheduleSendAll s' else s')"

definition addProtocolToAutosend :: "'p \<Rightarrow> ('p, 'm) pool \<Rightarrow> ('p, 'm) pool" where
  "addProtocolToAutosend p s =
     (let s' = (if bufferedProtocols s = [] then scheduleSendAll s else s)
      in s'\<lparr>bufferedProtocols := bufferedProtocols s' @ [p]\<rparr>)"

definition removeProtocolFromAutosend :: "'p \<Rightarrow> ('p, 'm) pool \<Rightarrow> ('p, 'm) pool" where
  "removeProtocolFromAutosend p s =
     s\<lparr>bufferedProtocols := swap_remove p (bufferedProtocols s)\<rparr>"

section \<open>Headers in front of the body\<close>

text \<open>
  The shape the framing proofs rest on: the wire bytes end where the write cursor is, and
  the headers written so far end where the body begins.
\<close>

definition om_wf :: "outmsg \<Rightarrow> bool" where
  "om_wf m \<longleftrightarrow> length (nm_buffer m) = NETWORKMESSAGE_MAXSIZE
     \<and> om_start m \<le> INITIAL_BUFFER_POSITION \<and> nm_position m < MAX_BODY_LENGTH
     \<and> nm_position m = om_start m + nm_length m"

lemma om_new_wf [simp]: "om_wf om_new"
  by (simp add: om_wf_def om_new_def)

lemma om_reset_wf [simp]: "om_wf (om_reset m)"
  by (simp add: om_wf_def om_reset_def nm_reset_def)

lemma length_wire_bytes: "om_wf m \<Longrightarrow> length (wire_bytes m) = nm_length m"
  by (simp add: wire_bytes_def om_wf_def length_window)

lemma add_header_wf:
  "om_wf m \<Longrightarrow> length bs \<le> om_start m \<Longrightarrow> om_wf (add_header bs m)"
  by (auto simp: om_wf_def add_header_def Let_def length_store wrap16_id)

lemma add_header_fields:
  assumes "om_wf m" "length bs \<le> om_start m"
  shows "nm_length (add_header bs m) = nm_length m + length bs"
    and "om_start (add_header bs m) = om_start m - length bs"
    and "nm_position (add_header bs m) = nm_position m"
  using assms by (auto simp: om_wf_def add_header_def Let_def wrap16_id)

lemma wire_add_header:
  assumes "om_wf m" "length bs \<le> om_start m"
  shows "wire_bytes (add_header bs m) = bs @ wire_bytes m"
proof -
  let ?s = "om_start m - length bs"
  have "wire_bytes (add_header bs m)
      = window ?s (length bs + nm_length m) (store ?s bs (nm_buffer m))"
    using assms add_header_fields [OF assms]
    by (simp add: wire_bytes_def add.commute) (simp add: add_header_def Let_def)
  also have "\<dots> = window ?s (length bs) (store ?s bs (nm_buffer m))
      @ window (om_start m) (nm_length m) (store ?s bs (nm_buffer m))"
    using assms(2) unfolding window_split by simp
  also have "\<dots> = bs @ wire_bytes m"
    using assms by (simp add: wire_bytes_def om_wf_def window_store_same window_after_store)
  finally show ?thesis .
qed

lemma nm_put_om:
  assumes "om_wf m" "nm_position m + length bs < MAX_BODY_LENGTH"
  shows "om_wf (nm_put bs m)" "wire_bytes (nm_put bs m) = wire_bytes m @ bs"
    and "nm_length (nm_put bs m) = nm_length m + length bs" "om_start (nm_put bs m) = om_start m"
proof -
  have pos: "nm_position m = om_start m + nm_length m" using assms(1) by (simp add: om_wf_def)
  show "om_wf (nm_put bs m)" "nm_length (nm_put bs m) = nm_length m + length bs"
    and start: "om_start (nm_put bs m) = om_start m"
    using assms by (auto simp: om_wf_def nm_put_def length_store wrap16_id)
  then have "wire_bytes (nm_put bs m)
      = window (om_start m) (nm_length m + length bs) (store (nm_position m) bs (nm_buffer m))"
    by (simp add: wire_bytes_def) (simp add: nm_put_def)
  also have "\<dots> = window (om_start m) (nm_length m) (store (nm_position m) bs (nm_buffer m))
      @ window (nm_position m) (length bs) (store (nm_position m) bs (nm_buffer m))"
    unfolding window_split pos by simp
  also have "\<dots> = wire_bytes m @ bs"
    using assms by (simp add: wire_bytes_def om_wf_def window_before_store window_store_same)
  finally show "wire_bytes (nm_put bs m) = wire_bytes m @ bs" .
qed

lemma addPaddingBytes_om:
  assumes "om_wf m" "nm_position m + n < MAX_BODY_LENGTH"
  shows "addPaddingBytes n m = Some (nm_put (replicate n 0x33) m)"
  using assms by (auto simp: addPaddingBytes_def canAdd_def om_wf_def wrap64_id)

lemma paddingAmount_less: "paddingAmount len < 8"
  by (auto simp: paddingAmount_def intro: le_less_trans [OF mod_less_eq_dividend])

lemma paddingAmount_mod: "(len + paddingAmount len + 1) mod 8 = 0"
proof -
  have "paddingAmount len = 7 - len mod 8"
    by (simp add: paddingAmount_def)
  then show ?thesis by presburger
qed

text \<open>After \<open>writePaddingAmount\<close> the wire is a padding count, the body and the padding.\<close>

lemma writePaddingAmount_wire:
  assumes "om_wf m" "nm_position m + 8 \<le> MAX_BODY_LENGTH" "0 < om_start m"
  shows "\<exists>m'. writePaddingAmount m = Some m' \<and> om_wf m'
    \<and> wire_bytes m' = of_nat (paddingAmount (nm_length m)) # wire_bytes m
        @ replicate (paddingAmount (nm_length m)) 0x33
    \<and> om_start m' = om_start m - 1 \<and> nm_length m' mod 8 = 0
    \<and> nm_length m' = nm_length m + paddingAmount (nm_length m) + 1"
proof -
  let ?p = "paddingAmount (nm_length m)"
  let ?m1 = "nm_put (replicate ?p 0x33) m"
  have fit: "nm_position m + length (replicate ?p (0x33 :: u8)) < MAX_BODY_LENGTH"
    using assms(2) paddingAmount_less [of "nm_length m"] by simp
  note put = nm_put_om [OF assms(1) fit]
  have start: "length [of_nat ?p :: u8] \<le> om_start ?m1" using put(4) assms(3) by simp
  have "writePaddingAmount m = Some (add_header [of_nat ?p] ?m1)"
    using addPaddingBytes_om [OF assms(1), of ?p] fit by (simp add: writePaddingAmount_def Let_def)
  with put start wire_add_header [OF put(1) start] add_header_fields [OF put(1) start]
    add_header_wf [OF put(1) start] paddingAmount_mod [of "nm_length m"]
  show ?thesis by (simp add: add.commute)
qed

lemma writeMessageLength_wire:
  assumes "om_wf m" "2 \<le> om_start m" "4 \<le> nm_length m"
  shows "wire_bytes (writeMessageLength m)
      = le_bytes 2 (of_nat ((nm_length m - 4) div 8) :: u16) @ wire_bytes m"
  using wire_add_header [OF assms(1), of "le_bytes 2 (messageLengthHeader (nm_length m))"] assms
  by (simp add: writeMessageLength_def messageLengthHeader_def)

section \<open>The autosend pool\<close>

definition pool_wf :: "('p, 'm) pool \<Rightarrow> bool" where
  "pool_wf s \<longleftrightarrow> distinct (bufferedProtocols s) \<and> (bufferedProtocols s \<noteq> [] \<longrightarrow> 0 < scheduled s)"

lemma flush_protocols_frame:
  "bufferedProtocols (flush_protocols ps s) = bufferedProtocols s"
  "scheduled (flush_protocols ps s) = scheduled s"
  by (induction ps arbitrary: s) (auto split: option.splits)

lemma flush_protocols_cleared:
  "pool_buffer (flush_protocols ps s) p = (if p \<in> set ps then None else pool_buffer s p)"
  by (induction ps arbitrary: s) (auto split: option.splits)

lemma flush_protocols_sent:
  "distinct ps \<Longrightarrow> pool_sent (flush_protocols ps s)
    = pool_sent s @ concat (map (\<lambda>p. case pool_buffer s p of None \<Rightarrow> [] | Some m \<Rightarrow> [(p, m)]) ps)"
proof (induction ps arbitrary: s)
  case Nil
  then show ?case by simp
next
  case (Cons q ps)
  have other: "map (\<lambda>p. case ((pool_buffer s)(q := None)) p of None \<Rightarrow> [] | Some m \<Rightarrow> [(p, m)]) ps
      = map (\<lambda>p. case pool_buffer s p of None \<Rightarrow> [] | Some m \<Rightarrow> [(p, m)]) ps"
    using Cons.prems by (intro map_cong) auto
  show ?case
  proof (cases "pool_buffer s q")
    case None
    with Cons show ?thesis by simp
  next
    case (Some m)
    with Cons other show ?thesis by (simp cong: map_cong)
  qed
qed


lemma sendAll_pool:
  assumes "pool_wf s"
  shows "pool_wf (sendAll s)"
    and "bufferedProtocols (sendAll s) = bufferedProtocols s"
    and "p \<in> set (bufferedProtocols s) \<Longrightarrow> pool_buffer (sendAll s) p = None"
    and "pool_sent (sendAll s) = pool_sent s @ concat (map (\<lambda>p. case pool_buffer s p of
           None \<Rightarrow> [] | Some m \<Rightarrow> [(p, m)]) (bufferedProtocols s))"
  using assms
  by (auto simp: sendAll_def Let_def pool_wf_def scheduleSendAll_def flush_protocols_frame
      flush_protocols_cleared flush_protocols_sent split: option.splits)

lemma addProtocolToAutosend_wf:
  "pool_wf s \<Longrightarrow> p \<notin> set (bufferedProtocols s) \<Longrightarrow> pool_wf (addProtocolToAutosend p s)"
  by (auto simp: pool_wf_def addProtocolToAutosend_def scheduleSendAll_def Let_def)

lemma removeProtocolFromAutosend_wf:
  "pool_wf s \<Longrightarrow> pool_wf (removeProtocolFromAutosend p s)"
  by (auto simp: pool_wf_def removeProtocolFromAutosend_def distinct_swap_remove)

lemma removeProtocolFromAutosend_set:
  "pool_wf s \<Longrightarrow> set (bufferedProtocols (removeProtocolFromAutosend p s))
    = set (bufferedProtocols s) - {p}"
  by (simp add: pool_wf_def removeProtocolFromAutosend_def set_swap_remove)

text \<open>
  A protocol that leaves an otherwise empty pool and one that joins before the pending
  timer fires leave two timers pending, and each of them reschedules itself from then on.
\<close>

lemma autosend_timers_accumulate:
  assumes "bufferedProtocols s = []"
  shows "scheduled (addProtocolToAutosend q (removeProtocolFromAutosend p (addProtocolToAutosend p s)))
    = scheduled s + 2"
  using assms
  by (simp add: addProtocolToAutosend_def removeProtocolFromAutosend_def scheduleSendAll_def
      swap_remove_def Let_def)

section \<open>Properties\<close>

text \<open>
  The autosend pool: one run of \<open>sendAll\<close> sends the buffered message of each
  registered protocol exactly once, in registration order, empties those buffers, keeps
  the registrations, and leaves a timer pending whenever a protocol is still registered.
\<close>
theorem sendAll_flushes_every_protocol:
  assumes "pool_wf s"
  shows "pool_wf (sendAll s)
    \<and> bufferedProtocols (sendAll s) = bufferedProtocols s
    \<and> (\<forall>p \<in> set (bufferedProtocols s). pool_buffer (sendAll s) p = None)
    \<and> pool_sent (sendAll s) = pool_sent s @ concat (map (\<lambda>p. case pool_buffer s p of
         None \<Rightarrow> [] | Some m \<Rightarrow> [(p, m)]) (bufferedProtocols s))"
  using sendAll_pool [OF assms] by blast

theorem sendAll_flushes_every_protocol_witness:
  "pool_sent (sendAll \<lparr>bufferedProtocols = [1 :: nat, 2], scheduled = 1,
      pool_buffer = [1 \<mapsto> CHR ''x''], pool_sent = []\<rparr>) = [(1, CHR ''x'')]"
proof -
  let ?s = "\<lparr>bufferedProtocols = [1 :: nat, 2], scheduled = 1,
      pool_buffer = [1 \<mapsto> CHR ''x''], pool_sent = []\<rparr>"
  have "pool_wf ?s" by (simp add: pool_wf_def)
  from sendAll_flushes_every_protocol [OF this] show ?thesis by simp
qed

end
