(* ===== verification/Xtea.thy ===== *)
theory Xtea
  imports Prelude
begin

text \<open>
  \<open>Protocol::XTEA_transform\<close> (src/src/server/network/protocol/protocol.cpp): the 32-round
  block cipher of the game protocol with its table of precomputed control sums, applied in
  place to a region of a buffer. The locale \<open>block_cipher\<close> is the contract the framing
  layer relies on; it is interpreted on the transform itself.
\<close>

type_synonym xtea_key = "u32 list"
type_synonym block = "u32 \<times> u32"

section \<open>Control sums and rounds\<close>

definition xtea_delta :: u32 where
  "xtea_delta = 0x61C88647"

definition key_word :: "xtea_key \<Rightarrow> u32 \<Rightarrow> u32" where
  "key_word k i = k ! unat (i AND 3)"

text \<open>\<open>precachedControlSum\<close>, the two precomputation loops.\<close>

fun encrypt_sums :: "xtea_key \<Rightarrow> nat \<Rightarrow> u32 \<Rightarrow> (u32 \<times> u32) list" where
  "encrypt_sums k 0 s = []"
| "encrypt_sums k (Suc n) s =
     (let c0 = s + key_word k s; s' = s - xtea_delta;
          c1 = s' + key_word k (drop_bit 11 s')
      in (c0, c1) # encrypt_sums k n s')"

fun decrypt_sums :: "xtea_key \<Rightarrow> nat \<Rightarrow> u32 \<Rightarrow> (u32 \<times> u32) list" where
  "decrypt_sums k 0 s = []"
| "decrypt_sums k (Suc n) s =
     (let c0 = s + key_word k (drop_bit 11 s); s' = s + xtea_delta;
          c1 = s' + key_word k s'
      in (c0, c1) # decrypt_sums k n s')"

definition control_sums :: "xtea_key \<Rightarrow> bool \<Rightarrow> (u32 \<times> u32) list" where
  "control_sums k encrypt =
     (if encrypt then encrypt_sums k 32 0 else decrypt_sums k 32 0xC6EF3720)"

definition mix :: "u32 \<Rightarrow> u32" where
  "mix v = (push_bit 4 v XOR drop_bit 5 v) + v"

definition encrypt_round :: "u32 \<times> u32 \<Rightarrow> block \<Rightarrow> block" where
  "encrypt_round c v =
     (let v0 = fst v + (mix (snd v) XOR fst c); v1 = snd v + (mix v0 XOR snd c) in (v0, v1))"

definition decrypt_round :: "u32 \<times> u32 \<Rightarrow> block \<Rightarrow> block" where
  "decrypt_round c v =
     (let v1 = snd v - (mix (fst v) XOR fst c); v0 = fst v - (mix v1 XOR snd c) in (v0, v1))"

definition xtea_block :: "xtea_key \<Rightarrow> bool \<Rightarrow> block \<Rightarrow> block" where
  "xtea_block k encrypt v =
     fold (if encrypt then encrypt_round else decrypt_round) (control_sums k encrypt) v"

section \<open>The loop over the region\<close>

definition block_of_bytes :: "u8 list \<Rightarrow> block" where
  "block_of_bytes bs = (le_word (take 4 bs), le_word (drop 4 bs))"

definition bytes_of_block :: "block \<Rightarrow> u8 list" where
  "bytes_of_block v = le_bytes 4 (fst v) @ le_bytes 4 (snd v)"

text \<open>
  \<open>while (readPos < messageLength)\<close>: eight bytes at a time, written back in place. A
  region that does not hold a whole block at \<open>readPos\<close> is an access outside the buffer.
\<close>

function xtea_loop :: "xtea_key \<Rightarrow> bool \<Rightarrow> nat \<Rightarrow> nat \<Rightarrow> nat \<Rightarrow> u8 list \<Rightarrow> u8 list option" where
  "xtea_loop k encrypt base readPos messageLength buf =
     (if messageLength \<le> readPos then Some buf
      else if length buf < base + readPos + 8 then None
      else
        let v = xtea_block k encrypt (block_of_bytes (window (base + readPos) 8 buf))
        in xtea_loop k encrypt base (readPos + 8) messageLength
             (store (base + readPos) (bytes_of_block v) buf))"
  by pat_completeness auto
termination
  by (relation "measure (\<lambda>(k, e, base, readPos, len, buf). len - readPos)") auto

declare xtea_loop.simps [simp del]

definition XTEA_transform :: "xtea_key \<Rightarrow> bool \<Rightarrow> nat \<Rightarrow> nat \<Rightarrow> u8 list \<Rightarrow> u8 list option" where
  "XTEA_transform k encrypt base messageLength buf = xtea_loop k encrypt base 0 messageLength buf"

section \<open>Decryption undoes encryption, block by block\<close>

lemma decrypt_round_encrypt_round:
  "decrypt_round (prod.swap c) (encrypt_round c v) = v"
  by (cases c; cases v) (simp add: decrypt_round_def encrypt_round_def Let_def)

lemma encrypt_round_decrypt_round:
  "encrypt_round (prod.swap c) (decrypt_round c v) = v"
  by (cases c; cases v) (simp add: decrypt_round_def encrypt_round_def Let_def)

lemma fold_decrypt_encrypt:
  "fold decrypt_round (rev (map prod.swap cs)) (fold encrypt_round cs v) = v"
  by (induction cs arbitrary: v) (simp_all add: decrypt_round_encrypt_round)

lemma fold_encrypt_decrypt:
  "fold encrypt_round cs (fold decrypt_round (rev (map prod.swap cs)) v) = v"
proof (induction cs arbitrary: v rule: rev_induct)
  case Nil
  then show ?case by simp
next
  case (snoc c cs)
  have "encrypt_round c (decrypt_round (prod.swap c) u) = u" for u
    using encrypt_round_decrypt_round [of "prod.swap c" u] by simp
  with snoc show ?case by simp
qed

lemma encrypt_sums_Suc_snoc:
  "encrypt_sums k (Suc n) s = encrypt_sums k n s @
     (let s1 = s - of_nat n * xtea_delta; s2 = s1 - xtea_delta
      in [(s1 + key_word k s1, s2 + key_word k (drop_bit 11 s2))])"
proof (induction n arbitrary: s)
  case 0
  then show ?case by (simp add: Let_def)
next
  case (Suc n)
  let ?t = "\<lambda>m. let s1 = s - of_nat m * xtea_delta; s2 = s1 - xtea_delta
      in [(s1 + key_word k s1, s2 + key_word k (drop_bit 11 s2))]"
  let ?h = "(s + key_word k s, s - xtea_delta + key_word k (drop_bit 11 (s - xtea_delta)))"
  have unroll: "encrypt_sums k (Suc j) s = ?h # encrypt_sums k j (s - xtea_delta)" for j
    by (simp only: encrypt_sums.simps Let_def)
  have "encrypt_sums k (Suc (Suc n)) s = ?h # encrypt_sums k (Suc n) (s - xtea_delta)"
    by (rule unroll)
  also have "\<dots> = ?h # encrypt_sums k n (s - xtea_delta) @ ?t (Suc n)"
    unfolding Suc.IH [of "s - xtea_delta"] by (simp add: Let_def algebra_simps)
  also have "\<dots> = encrypt_sums k (Suc n) s @ ?t (Suc n)"
    unfolding unroll by simp
  finally show ?case .
qed

text \<open>The decryption table is the encryption table reversed, with its pairs swapped.\<close>

lemma decrypt_sums_rev:
  "decrypt_sums k n (s - of_nat n * xtea_delta) = rev (map prod.swap (encrypt_sums k n s))"
proof (induction n)
  case 0
  then show ?case by simp
next
  case (Suc n)
  have step: "s - of_nat (Suc n) * xtea_delta + xtea_delta = s - of_nat n * xtea_delta"
    by (simp add: algebra_simps)
  have "decrypt_sums k (Suc n) (s - of_nat (Suc n) * xtea_delta)
      = (s - of_nat (Suc n) * xtea_delta + key_word k (drop_bit 11 (s - of_nat (Suc n) * xtea_delta)),
         s - of_nat n * xtea_delta + key_word k (s - of_nat n * xtea_delta))
        # decrypt_sums k n (s - of_nat n * xtea_delta)"
    unfolding decrypt_sums.simps(2) Let_def step ..
  with Suc.IH show ?case
    unfolding encrypt_sums_Suc_snoc by (simp add: Let_def algebra_simps)
qed

lemma control_sums_decrypt:
  "control_sums k False = rev (map prod.swap (control_sums k True))"
proof -
  have "(0 :: u32) - of_nat 32 * xtea_delta = 0xC6EF3720"
    unfolding xtea_delta_def by code_simp
  then show ?thesis
    using decrypt_sums_rev [of k 32 0] by (simp only: control_sums_def if_True if_False)
qed

lemma xtea_block_inverse:
  "xtea_block k False (xtea_block k True v) = v"
  "xtea_block k True (xtea_block k False v) = v"
  by (simp_all add: xtea_block_def control_sums_decrypt fold_decrypt_encrypt fold_encrypt_decrypt)

lemma length_bytes_of_block [simp]: "length (bytes_of_block v) = 8"
  by (simp add: bytes_of_block_def)

lemma block_of_bytes_of_block [simp]: "block_of_bytes (bytes_of_block v) = v"
  by (simp add: block_of_bytes_def bytes_of_block_def)

lemma bytes_of_block_of_bytes: "length bs = 8 \<Longrightarrow> bytes_of_block (block_of_bytes bs) = bs"
  by (simp add: block_of_bytes_def bytes_of_block_def le_bytes_le_word_32)


section \<open>The region as a list of blocks\<close>

fun xtea_chunks :: "xtea_key \<Rightarrow> bool \<Rightarrow> nat \<Rightarrow> u8 list \<Rightarrow> u8 list" where
  "xtea_chunks k encrypt 0 bs = []"
| "xtea_chunks k encrypt (Suc n) bs =
     bytes_of_block (xtea_block k encrypt (block_of_bytes (take 8 bs)))
     @ xtea_chunks k encrypt n (drop 8 bs)"

definition xtea_bytes :: "xtea_key \<Rightarrow> bool \<Rightarrow> u8 list \<Rightarrow> u8 list" where
  "xtea_bytes k encrypt bs = xtea_chunks k encrypt (length bs div 8) bs"

lemma length_xtea_chunks [simp]: "length (xtea_chunks k e n bs) = 8 * n"
  by (induction n arbitrary: bs) auto

lemma xtea_chunks_inverse:
  "length bs = 8 * n \<Longrightarrow> xtea_chunks k (\<not> e) n (xtea_chunks k e n bs) = bs"
proof (induction n arbitrary: bs)
  case 0
  then show ?case by simp
next
  case (Suc n)
  have "bytes_of_block (xtea_block k (\<not> e) (xtea_block k e (block_of_bytes (take 8 bs)))) = take 8 bs"
    using Suc.prems by (cases e) (simp_all add: xtea_block_inverse bytes_of_block_of_bytes)
  with Suc show ?case by simp
qed

lemma xtea_loop_chunks:
  assumes "base + r + 8 * n \<le> length buf"
  shows "xtea_loop k e base r (r + 8 * n) buf
    = Some (store (base + r) (xtea_chunks k e n (window (base + r) (8 * n) buf)) buf)"
  using assms
proof (induction n arbitrary: r buf)
  case 0
  then show ?case by (simp add: xtea_loop.simps [of k e base r])
next
  case (Suc n)
  let ?w = "window (base + r) 8 buf"
  let ?b = "bytes_of_block (xtea_block k e (block_of_bytes ?w))"
  let ?buf = "store (base + r) ?b buf"
  have len: "length ?buf = length buf"
    using Suc.prems by (intro length_store) simp
  have "window (base + (r + 8)) (8 * n) ?buf = window (base + r + 8) (8 * n) buf"
    using Suc.prems by (subst window_after_store) (auto simp: add.assoc)
  moreover have "xtea_loop k e base (r + 8) (r + 8 + 8 * n) ?buf
      = Some (store (base + (r + 8)) (xtea_chunks k e n (window (base + (r + 8)) (8 * n) ?buf)) ?buf)"
    by (rule Suc.IH) (use Suc.prems len in simp)
  ultimately have "xtea_loop k e base r (r + 8 * Suc n) buf
      = Some (store (base + r + 8) (xtea_chunks k e n (window (base + r + 8) (8 * n) buf)) ?buf)"
    using Suc.prems by (subst xtea_loop.simps) (simp add: Let_def algebra_simps)
  also have "\<dots> = Some (store (base + r) (?b @ xtea_chunks k e n (window (base + r + 8) (8 * n) buf)) buf)"
    using Suc.prems store_store_adjacent [of "base + r" ?b _ buf] by simp
  also have "?b @ xtea_chunks k e n (window (base + r + 8) (8 * n) buf)
      = xtea_chunks k e (Suc n) (window (base + r) (8 * Suc n) buf)"
    by (simp add: take_window drop_window add.assoc)
  finally show ?case .
qed

lemma XTEA_transform_bytes:
  assumes "base + n \<le> length buf" "8 dvd n"
  shows "XTEA_transform k e base n buf = Some (store base (xtea_bytes k e (window base n buf)) buf)"
proof -
  from assms(2) obtain j where n: "n = 8 * j" by auto
  have "n div 8 = j" using n by simp
  then show ?thesis
    using xtea_loop_chunks [of base 0 j buf k e] assms
    by (simp add: XTEA_transform_def xtea_bytes_def length_window n)
qed

lemma length_xtea_bytes: "8 dvd length bs \<Longrightarrow> length (xtea_bytes k e bs) = length bs"
  by (simp add: xtea_bytes_def)

lemma xtea_bytes_inverse: "8 dvd length bs \<Longrightarrow> xtea_bytes k (\<not> e) (xtea_bytes k e bs) = bs"
  by (auto simp: xtea_bytes_def xtea_chunks_inverse)

section \<open>The contract of the body cipher\<close>

text \<open>
  What the framing relies on: a length-preserving transform of whole blocks and its
  inverse. A padded body (count, payload, that many padding bytes) survives the trip.
\<close>

locale body_cipher =
  fixes encrypt :: "u8 list \<Rightarrow> u8 list"
    and decrypt :: "u8 list \<Rightarrow> u8 list"
  assumes length_encrypt: "8 dvd length bs \<Longrightarrow> length (encrypt bs) = length bs"
    and decrypt_encrypt: "8 dvd length bs \<Longrightarrow> decrypt (encrypt bs) = bs"
begin

lemma padded_body:
  assumes "8 dvd Suc (length payload + pad)" "pad < 256"
  shows "unat (hd (decrypt (encrypt (of_nat pad # payload @ replicate pad x)))) = pad"
    and "window 1 (length payload) (decrypt (encrypt (of_nat pad # payload @ replicate pad x))) = payload"
  using assms by (simp_all add: decrypt_encrypt window_def unat_of_nat)

lemma encrypt_inj:
  "8 dvd length bs \<Longrightarrow> 8 dvd length cs \<Longrightarrow> encrypt bs = encrypt cs \<Longrightarrow> bs = cs"
  by (metis decrypt_encrypt)

end

interpretation xtea: body_cipher "xtea_bytes k True" "xtea_bytes k False" for k
proof
  fix bs :: "u8 list"
  assume "8 dvd length bs"
  then show "length (xtea_bytes k True bs) = length bs"
    and "xtea_bytes k False (xtea_bytes k True bs) = bs"
    using xtea_bytes_inverse [of bs k True] by (simp_all add: length_xtea_bytes)
qed

section \<open>Properties\<close>

text \<open>
  C37. XTEA round trip in place: for any key and any region of whole blocks inside the
  buffer, encrypting and then decrypting the region is defined and restores the buffer,
  and encryption leaves everything outside the region alone.
\<close>
theorem xtea_roundtrip:
  assumes "base + n \<le> length buf" "8 dvd n"
  shows "\<exists>buf'. XTEA_transform k True base n buf = Some buf'
    \<and> XTEA_transform k False base n buf' = Some buf
    \<and> length buf' = length buf \<and> take base buf' = take base buf
    \<and> drop (base + n) buf' = drop (base + n) buf"
proof -
  let ?w = "window base n buf" and ?e = "\<lambda>bs. xtea_bytes k True bs"
  have w: "length ?w = n" using assms(1) by (rule length_window)
  then have e: "length (?e ?w) = n" using assms(2) by (simp add: xtea.length_encrypt)
  let ?buf = "store base (?e ?w) buf"
  have len: "length ?buf = length buf" using assms e by (simp add: length_store)
  have reread: "window base n ?buf = ?e ?w"
    using window_store_same [of base "?e ?w" buf] assms e by simp
  have restore: "store base ?w ?buf = buf"
    using assms(1) e w
    by (simp add: store_def window_def) (metis append_take_drop_id drop_drop add.commute)
  have "XTEA_transform k False base n ?buf = Some buf"
    using XTEA_transform_bytes [of base n ?buf k False] assms len reread restore w
      xtea.decrypt_encrypt [of ?w k] by simp
  moreover have "take base ?buf = take base buf" "drop (base + n) ?buf = drop (base + n) buf"
    using assms(1) e by (simp_all add: store_def)
  ultimately show ?thesis
    using XTEA_transform_bytes [OF assms, of k True] len by blast
qed

theorem xtea_roundtrip_witness:
  "\<exists>buf'. XTEA_transform [1, 2, 3, 4] True 6 16 (replicate 24 7) = Some buf'
    \<and> XTEA_transform [1, 2, 3, 4] False 6 16 buf' = Some (replicate 24 7)
    \<and> length buf' = length (replicate 24 (7 :: u8)) \<and> take 6 buf' = take 6 (replicate 24 7)
    \<and> drop (6 + 16) buf' = drop (6 + 16) (replicate 24 7)"
  by (rule xtea_roundtrip) simp_all

end
