(* ===== verification/Adler.thy ===== *)
theory Adler
  imports Prelude
begin

text \<open>
  \<open>adlerChecksum\<close> (src/src/utils/tools.cpp): the Adler-32 checksum with the reduction
  modulo 65521 deferred to once per 5552 bytes. It is shown equal to the textbook
  checksum that reduces after every byte; the deferred sums never overflow 32 bits.
\<close>

text \<open>The inner \<open>do ... while (--tmp)\<close>, on the bytes of one chunk.\<close>

fun adler_inner :: "u8 list \<Rightarrow> u32 \<Rightarrow> u32 \<Rightarrow> u32 \<times> u32" where
  "adler_inner [] a b = (a, b)"
| "adler_inner (x # xs) a b = (let a' = a + ucast x in adler_inner xs a' (b + a'))"

function adler_loop :: "u8 list \<Rightarrow> u32 \<Rightarrow> u32 \<Rightarrow> u32 \<times> u32" where
  "adler_loop bs a b =
     (if length bs = 0 then (a, b)
      else
        let tmp = (if length bs > 5552 then 5552 else length bs);
            (a1, b1) = adler_inner (take tmp bs) a b
        in adler_loop (drop tmp bs) (a1 mod 65521) (b1 mod 65521))"
  by pat_completeness auto
termination
  by (relation "measure (\<lambda>(bs, a, b). length bs)") auto

declare adler_loop.simps [simp del]

definition adlerChecksum :: "u8 list \<Rightarrow> u32" where
  "adlerChecksum data =
     (if length data > 65500 then 0
      else let (a, b) = adler_loop data 1 0 in push_bit 16 b OR a)"

section \<open>The textbook checksum\<close>

fun adler_ref :: "u8 list \<Rightarrow> nat \<Rightarrow> nat \<Rightarrow> nat \<times> nat" where
  "adler_ref [] a b = (a, b)"
| "adler_ref (x # xs) a b =
     (let a' = (a + unat x) mod 65521 in adler_ref xs a' ((b + a') mod 65521))"

definition adler32_spec :: "u8 list \<Rightarrow> nat" where
  "adler32_spec bs = (let (a, b) = adler_ref bs 1 0 in 65536 * b + a)"

section \<open>The deferred sums, as natural numbers\<close>

fun adler_exact :: "u8 list \<Rightarrow> nat \<Rightarrow> nat \<Rightarrow> nat \<times> nat" where
  "adler_exact [] a b = (a, b)"
| "adler_exact (x # xs) a b = adler_exact xs (a + unat x) (b + (a + unat x))"

lemma unat_u8_le: "unat (x :: u8) \<le> 255"
  using unsigned_less [of x, where 'a = nat] by simp

lemma unat_ucast_u8: "unat (ucast (x :: u8) :: u32) = unat x"
  using unat_u8_le [of x] by (simp add: unsigned_ucast_eq take_bit_nat_eq_self)

lemma adler_exact_ge: "a \<le> fst (adler_exact xs a b) \<and> b \<le> snd (adler_exact xs a b)"
proof (induction xs arbitrary: a b)
  case Nil
  then show ?case by simp
next
  case (Cons x xs)
  from Cons.IH [of "a + unat x" "b + (a + unat x)"] show ?case by simp
qed

lemma adler_exact_le:
  "fst (adler_exact xs a b) \<le> a + 255 * length xs
   \<and> 2 * snd (adler_exact xs a b) \<le> 2 * b + 2 * length xs * a + 255 * (length xs * Suc (length xs))"
proof (induction xs arbitrary: a b)
  case Nil
  then show ?case by simp
next
  case (Cons x xs)
  let ?n = "length xs" and ?a = "a + unat x"
  have x: "unat x \<le> 255" by (rule unat_u8_le)
  have "2 * snd (adler_exact xs ?a (b + ?a))
      \<le> 2 * (b + ?a) + 2 * ?n * ?a + 255 * (?n * Suc ?n)"
    using Cons.IH [of ?a "b + ?a"] by blast
  then have "2 * snd (adler_exact (x # xs) a b)
      \<le> 2 * (b + ?a) + 2 * ?n * ?a + 255 * (?n * Suc ?n)"
    by simp
  also have "\<dots> \<le> 2 * (b + (a + 255)) + 2 * ?n * (a + 255) + 255 * (?n * Suc ?n)"
    using x by (intro add_mono mult_le_mono2 order_refl) simp_all
  also have "\<dots> = 2 * b + 2 * Suc ?n * a + 255 * (Suc ?n * Suc (Suc ?n))"
    by (simp add: algebra_simps)
  finally have "2 * snd (adler_exact (x # xs) a b)
      \<le> 2 * b + 2 * length (x # xs) * a + 255 * (length (x # xs) * Suc (length (x # xs)))"
    by simp
  moreover have "fst (adler_exact (x # xs) a b) \<le> a + 255 * length (x # xs)"
    using Cons.IH [of ?a "b + ?a"] x by simp
  ultimately show ?case by blast
qed

lemma adler_inner_exact:
  assumes "fst (adler_exact xs (unat a) (unat b)) < 2 ^ 32"
    and "snd (adler_exact xs (unat a) (unat b)) < 2 ^ 32"
  shows "map_prod unat unat (adler_inner xs a b) = adler_exact xs (unat a) (unat b)"
  using assms
proof (induction xs arbitrary: a b)
  case Nil
  then show ?case by simp
next
  case (Cons x xs)
  let ?a = "a + ucast x" and ?b = "b + (a + ucast x)"
  have ge: "unat a + unat x \<le> fst (adler_exact (x # xs) (unat a) (unat b))"
      "unat b + (unat a + unat x) \<le> snd (adler_exact (x # xs) (unat a) (unat b))"
    using adler_exact_ge [of "unat a + unat x" xs "unat b + (unat a + unat x)"] by simp_all
  have a: "unat ?a = unat a + unat x"
    using ge(1) Cons.prems(1) by (simp add: unat_word_ariths unat_ucast_u8)
  have b: "unat ?b = unat b + (unat a + unat x)"
    using ge(2) Cons.prems(2) a by (simp add: unat_word_ariths(1) [of b])
  from Cons.IH [of ?a ?b] Cons.prems a b show ?case by (simp add: Let_def)
qed

lemma adler_exact_mod:
  "map_prod (\<lambda>n. n mod 65521) (\<lambda>n. n mod 65521) (adler_exact xs a b)
    = adler_ref xs (a mod 65521) (b mod 65521)"
proof (induction xs arbitrary: a b)
  case Nil
  then show ?case by simp
next
  case (Cons x xs)
  let ?a = "a + unat x"
  have a: "((a mod 65521) + unat x) mod 65521 = ?a mod 65521"
    by (rule mod_add_left_eq)
  have b: "((b mod 65521) + ?a mod 65521) mod 65521 = (b + ?a) mod 65521"
    by (rule mod_add_eq)
  have "adler_ref (x # xs) (a mod 65521) (b mod 65521)
      = adler_ref xs (?a mod 65521) ((b + ?a) mod 65521)"
    by (simp only: adler_ref.simps Let_def a b)
  with Cons.IH [of ?a "b + ?a"] show ?case
    by (simp only: adler_exact.simps)
qed

lemma adler_ref_append:
  "adler_ref (xs @ ys) a b = (case adler_ref xs a b of (a', b') \<Rightarrow> adler_ref ys a' b')"
  by (induction xs arbitrary: a b) (auto simp: Let_def)

text \<open>One chunk of at most 5552 bytes from reduced sums cannot overflow 32 bits.\<close>

lemma adler_chunk:
  assumes "unat a < 65521" "unat b < 65521" "length xs \<le> 5552" "adler_inner xs a b = (a1, b1)"
  shows "(unat (a1 mod 65521), unat (b1 mod 65521)) = adler_ref xs (unat a) (unat b)"
proof -
  let ?e = "adler_exact xs (unat a) (unat b)"
  have "2 * length xs * unat a \<le> 2 * 5552 * 65520"
    using assms(1,3) by (intro mult_le_mono) auto
  moreover have "length xs * Suc (length xs) \<le> 5552 * 5553"
    using assms(3) by (intro mult_le_mono) auto
  ultimately have "2 * snd ?e < 2 * 2 ^ 32"
    using adler_exact_le [of xs "unat a" "unat b"] assms(2) by simp
  moreover have "fst ?e < 2 ^ 32"
    using adler_exact_le [of xs "unat a" "unat b"] assms(1,3) by simp
  ultimately have "(unat a1, unat b1) = ?e"
    using adler_inner_exact [of xs a b] assms(4) by simp
  then show ?thesis
    using adler_exact_mod [of xs "unat a" "unat b"] assms(1,2)
    by (cases ?e) (simp add: unat_mod)
qed


lemma adler_loop_ref:
  assumes "unat a < 65521" "unat b < 65521"
  shows "map_prod unat unat (adler_loop bs a b) = adler_ref bs (unat a) (unat b)"
  using assms
proof (induction bs a b rule: adler_loop.induct)
  case (1 bs a b)
  show ?case
  proof (cases "length bs = 0")
    case True
    then show ?thesis by (simp add: adler_loop.simps [of "[]" a b])
  next
    case False
    let ?t = "if length bs > 5552 then 5552 else length bs"
    obtain a1 b1 where inner: "adler_inner (take ?t bs) a b = (a1, b1)" by fastforce
    have chunk: "(unat (a1 mod 65521), unat (b1 mod 65521)) = adler_ref (take ?t bs) (unat a) (unat b)"
      using adler_chunk [OF "1.prems" _ inner] by simp
    have "unat (w mod 65521 :: u32) < 65521" for w
      by (simp add: unat_mod)
    then have "map_prod unat unat (adler_loop (drop ?t bs) (a1 mod 65521) (b1 mod 65521))
        = adler_ref (drop ?t bs) (unat (a1 mod 65521)) (unat (b1 mod 65521))"
      using "1.IH" [OF False refl] inner by simp
    moreover have "adler_loop bs a b = adler_loop (drop ?t bs) (a1 mod 65521) (b1 mod 65521)"
      using False inner by (subst adler_loop.simps) (simp add: Let_def)
    moreover have "adler_ref bs (unat a) (unat b)
        = adler_ref (drop ?t bs) (unat (a1 mod 65521)) (unat (b1 mod 65521))"
      unfolding adler_ref_append [of "take ?t bs" "drop ?t bs" "unat a" "unat b",
          unfolded append_take_drop_id] chunk [symmetric] by simp
    ultimately show ?thesis by simp
  qed
qed

lemma unat_push_bit_16: "unat (b :: u32) < 65536 \<Longrightarrow> unat (push_bit 16 b) = 65536 * unat b"
  by (simp add: push_bit_eq_mult unat_word_ariths)

lemma adler_ref_bound: "a < 65521 \<Longrightarrow> b < 65521 \<Longrightarrow>
    fst (adler_ref bs a b) < 65521 \<and> snd (adler_ref bs a b) < 65521"
  by (induction bs arbitrary: a b) (simp_all add: Let_def)

section \<open>Properties\<close>

text \<open>
  C38. The checksum with deferred reductions is Adler-32: for every message that fits the
  network buffer the result is exactly the checksum that reduces modulo 65521 after each
  byte, so the 5552-byte chunks never overflow the 32-bit accumulators.
\<close>
theorem adlerChecksum_is_adler32:
  assumes "length bs \<le> 65500"
  shows "unat (adlerChecksum bs) = adler32_spec bs"
proof -
  obtain a b where ab: "adler_loop bs 1 0 = (a, b)" by fastforce
  then have ref: "adler_ref bs 1 0 = (unat a, unat b)"
    using adler_loop_ref [of 1 0 bs] by simp
  then have small: "unat a < 65521" "unat b < 65521"
    using adler_ref_bound [of 1 0 bs] by simp_all
  have "push_bit 16 b AND a = 0"
  proof (rule bit_word_eqI)
    fix n assume "n < LENGTH(32)"
    show "bit (push_bit 16 b AND a) n = bit (0 :: u32) n"
    proof (cases "16 \<le> n")
      case True
      have "unat a < 2 ^ n"
        using small(1) power_increasing [OF True, of "2 :: nat"] by simp
      then have "\<not> bit (unat a) n" by (simp add: bit_iff_odd)
      then have "\<not> bit a n" by (simp add: bit_unsigned_iff)
      then show ?thesis by (simp add: bit_simps)
    next
      case False
      then show ?thesis by (simp add: bit_simps)
    qed
  qed
  then have "push_bit 16 b OR a = push_bit 16 b + a"
    using word_plus_and_or [of "push_bit 16 b" a] by simp
  moreover have "unat (push_bit 16 b) = 65536 * unat b"
    using small(2) by (intro unat_push_bit_16) simp
  ultimately have "unat (adlerChecksum bs) = 65536 * unat b + unat a"
    using assms ab small by (simp add: adlerChecksum_def unat_word_ariths)
  then show ?thesis using ref by (simp add: adler32_spec_def)
qed

theorem adlerChecksum_is_adler32_witness:
  "unat (adlerChecksum [87, 105, 107, 105]) = adler32_spec [87, 105, 107, 105]"
  by (rule adlerChecksum_is_adler32) simp

end
