(* ===== verification/Protocol.thy ===== *)
theory Protocol
  imports Output_Message Xtea Adler
begin

text \<open>
  \<open>Protocol\<close> (src/src/server/network/protocol/protocol.hpp and .cpp): what happens to a
  message between the game and the socket. Sending: optional compression, padding, XTEA,
  checksum or sequence number, length header. Receiving: checksum or sequence check, XTEA,
  padding removal. The frame theorem says that the receiver of this file recovers the
  payload the sender of this file framed. zlib is the parameter \<open>deflate\<close> (\<open>None\<close> when it
  fails) and \<open>stream\<close> (whether a stream was created), the RSA engine is \<open>rsa\<close>. The read cycle
  of a peer over the bytes of a whole session is \<open>receive_stream\<close>, with the limit on frames of
  \<open>parseHeader\<close> in \<open>read_frame\<close>.
\<close>

datatype checksum_method = CHECKSUM_METHOD_NONE | CHECKSUM_METHOD_ADLER32 | CHECKSUM_METHOD_SEQUENCE

record protocol =
  key :: xtea_key
  serverSequenceNumber :: u32
  clientSequenceNumber :: u32
  checksumMethod :: checksum_method
  encryptionEnabled :: bool
  rawMessages :: bool

definition new_protocol :: protocol where
  "new_protocol = \<lparr>key = replicate 4 0, serverSequenceNumber = 0, clientSequenceNumber = 0,
     checksumMethod = CHECKSUM_METHOD_NONE, encryptionEnabled = False, rawMessages = False\<rparr>"

definition enableXTEAEncryption :: "protocol \<Rightarrow> protocol" where
  "enableXTEAEncryption p = p\<lparr>encryptionEnabled := True\<rparr>"

definition setXTEAKey :: "u32 list \<Rightarrow> protocol \<Rightarrow> protocol" where
  "setXTEAKey newKey p = p\<lparr>key := take 4 newKey\<rparr>"

definition setChecksumMethod :: "checksum_method \<Rightarrow> protocol \<Rightarrow> protocol" where
  "setChecksumMethod method p = p\<lparr>checksumMethod := method\<rparr>"

definition setRawMessages :: "bool \<Rightarrow> protocol \<Rightarrow> protocol" where
  "setRawMessages v p = p\<lparr>rawMessages := v\<rparr>"

section \<open>Sending\<close>

definition compression ::
    "(u8 list \<Rightarrow> u8 list option) \<Rightarrow> bool \<Rightarrow> protocol \<Rightarrow> outmsg \<Rightarrow> (bool \<times> outmsg) option" where
  "compression deflate stream p m =
     (if checksumMethod p \<noteq> CHECKSUM_METHOD_SEQUENCE then Some (False, m)
      else if \<not> stream then Some (False, m)
      else if NETWORKMESSAGE_MAXSIZE < nm_length m then Some (False, m)
      else case deflate (wire_bytes m) of
          None \<Rightarrow> Some (False, m)
        | Some out \<Rightarrow>
            if length out = 0 then Some (False, m)
            else map_option (\<lambda>m'. (True, m')) (addBytes out (om_reset m)))"

definition XTEA_encrypt :: "protocol \<Rightarrow> outmsg \<Rightarrow> outmsg option" where
  "XTEA_encrypt p m =
     (let paddingBytes = nm_length m mod 8
      in case (if paddingBytes \<noteq> 0 then addPaddingBytes (8 - paddingBytes) m else Some m) of
          None \<Rightarrow> None
        | Some m1 \<Rightarrow> map_option (\<lambda>buf. m1\<lparr>nm_buffer := buf\<rparr>)
            (XTEA_transform (key p) True (om_start m1) (nm_length m1) (nm_buffer m1)))"

definition nextSequence :: "u32 \<Rightarrow> u32" where
  "nextSequence s = (if s + 1 \<ge> 0x7FFFFFFF then 0 else s + 1)"

definition onSendMessage ::
    "(u8 list \<Rightarrow> u8 list option) \<Rightarrow> bool \<Rightarrow> protocol \<Rightarrow> outmsg \<Rightarrow> (protocol \<times> outmsg) option" where
  "onSendMessage deflate stream p msg =
     (if rawMessages p then Some (p, msg)
      else case (if 128 \<le> nm_length msg then compression deflate stream p msg
                 else Some (False, msg)) of
          None \<Rightarrow> None
        | Some (compressed, m1) \<Rightarrow>
          let sendMessageChecksum = (if compressed then 0x80000000 else 0)
          in if \<not> encryptionEnabled p then Some (p, writeMessageLength m1)
             else case writePaddingAmount m1 of
                 None \<Rightarrow> None
               | Some m2 \<Rightarrow> (case XTEA_encrypt p m2 of
                   None \<Rightarrow> None
                 | Some m3 \<Rightarrow> Some (case checksumMethod p of
                     CHECKSUM_METHOD_NONE \<Rightarrow> (p, addCryptoHeader False 0 m3)
                   | CHECKSUM_METHOD_ADLER32 \<Rightarrow>
                       (p, addCryptoHeader True (adlerChecksum (wire_bytes m3)) m3)
                   | CHECKSUM_METHOD_SEQUENCE \<Rightarrow>
                       (p\<lparr>serverSequenceNumber := nextSequence (serverSequenceNumber p)\<rparr>,
                        addCryptoHeader True (sendMessageChecksum OR (serverSequenceNumber p + 1)) m3))))"

text \<open>
  \<open>getOutputBuffer\<close>: the buffer of pending output and the messages handed to \<open>send\<close>.
\<close>

definition getOutputBuffer :: "int \<Rightarrow> outmsg option \<Rightarrow> outmsg list \<Rightarrow> outmsg option \<times> outmsg list" where
  "getOutputBuffer needed outputBuffer sent =
     (case outputBuffer of
        None \<Rightarrow> (Some om_new, sent)
      | Some m \<Rightarrow>
          if int (nm_length m) + needed > int MAX_PROTOCOL_BODY_LENGTH
          then (Some om_new, sent @ [m])
          else (Some m, sent))"

section \<open>Receiving\<close>

definition XTEA_decrypt :: "protocol \<Rightarrow> netmsg \<Rightarrow> (bool \<times> netmsg) option" where
  "XTEA_decrypt p m =
     (let hdr = (if checksumMethod p = CHECKSUM_METHOD_NONE then 2 else 6);
          msgLength = nat ((int (nm_length m) - hdr) mod 65536)
      in if msgLength mod 8 \<noteq> 0 then Some (False, m)
         else case XTEA_transform (key p) False (nm_position m) msgLength (nm_buffer m) of
             None \<Rightarrow> None
           | Some buf \<Rightarrow>
             let (paddingSize, m2) = getByte (m\<lparr>nm_buffer := buf\<rparr>);
                 innerLength = nat ((int msgLength - int (unat paddingSize)) mod 65536)
             in if innerLength + unat paddingSize > msgLength then Some (False, m2)
                else Some (True, setLength (msgLength - unat paddingSize) m2))"

text \<open>
  \<open>sendRecvMessageCallback\<close>: on success \<open>parsePacket\<close> is dispatched on the message.
\<close>

definition sendRecvMessageCallback :: "protocol \<Rightarrow> netmsg \<Rightarrow> (bool \<times> netmsg) option" where
  "sendRecvMessageCallback p m =
     (if encryptionEnabled p then XTEA_decrypt p m else Some (True, m))"

definition received_adler :: "netmsg \<Rightarrow> u32 option" where
  "received_adler m =
     (let len = int (nm_length m) - int (nm_position m)
      in if len > 0 then
           if length (nm_buffer m) < nm_position m + nat len then None
           else Some (adlerChecksum (window (nm_position m) (nat len) (nm_buffer m)))
         else Some 0)"

definition onRecvMessage :: "protocol \<Rightarrow> netmsg \<Rightarrow> (bool \<times> protocol \<times> netmsg) option" where
  "onRecvMessage p msg =
     (let callback = (\<lambda>p m. map_option (\<lambda>(ok, m'). (ok, p, m')) (sendRecvMessageCallback p m))
      in case checksumMethod p of
          CHECKSUM_METHOD_NONE \<Rightarrow> callback p msg
        | CHECKSUM_METHOD_SEQUENCE \<Rightarrow> (case read_int nm_get 4 msg of
              None \<Rightarrow> None
            | Some (recvChecksum :: u32, m1) \<Rightarrow>
                if recvChecksum = 0 then Some (False, p, m1)
                else
                  let checksum = clientSequenceNumber p + 1;
                      p1 = p\<lparr>clientSequenceNumber := nextSequence (clientSequenceNumber p)\<rparr>
                  in if recvChecksum \<noteq> checksum then Some (False, p1, m1)
                     else callback p1 m1)
        | CHECKSUM_METHOD_ADLER32 \<Rightarrow> (case read_int nm_get 4 msg of
              None \<Rightarrow> None
            | Some (recvChecksum :: u32, m1) \<Rightarrow> (case received_adler m1 of
                  None \<Rightarrow> None
                | Some checksum \<Rightarrow>
                    if recvChecksum \<noteq> checksum then Some (False, p, m1)
                    else callback p m1)))"

definition RSA_decrypt :: "(u8 list \<Rightarrow> u8 list) \<Rightarrow> netmsg \<Rightarrow> (bool \<times> netmsg) option" where
  "RSA_decrypt rsa m =
     (if int (nm_length m) - int (nm_position m) < 128 then Some (False, m)
      else if length (nm_buffer m) < nm_position m + 128 then None
      else
        let blk = rsa (window (nm_position m) 128 (nm_buffer m));
            (b, m') = getByte (m\<lparr>nm_buffer := store (nm_position m) blk (nm_buffer m)\<rparr>)
        in Some (b = 0, m'))"

section \<open>The frame as the connection loads it\<close>

text \<open>
  \<open>Connection::parseHeader\<close> computes the size of the rest of the frame from the length
  header in blocks of eight plus the checksum, closes the connection when that is 0 or more
  than \<open>INPUTMESSAGE_MAXSIZE\<close>, and otherwise sets length and cursor and reads the rest behind
  the header. \<open>read_frame\<close> does so on the bytes that have arrived: the message it loads and
  the bytes left, \<open>None\<close> when it closes or the frame is not complete.
\<close>

definition frame_size :: "nat \<Rightarrow> nat" where
  "frame_size hdr = wrap16 (hdr * 8 + 4)"

definition load_frame :: "u8 list \<Rightarrow> u8 list \<Rightarrow> netmsg \<Rightarrow> netmsg" where
  "load_frame header body m =
     (snd (getBodyBuffer (setLength (length body + HEADER_LENGTH) m)))
       \<lparr>nm_buffer := store HEADER_LENGTH body (store 0 header (nm_buffer m))\<rparr>"

definition read_frame :: "netmsg \<Rightarrow> u8 list \<Rightarrow> (netmsg \<times> u8 list) option" where
  "read_frame buf bytes =
     (if length bytes < HEADER_LENGTH then None
      else
        let header = take HEADER_LENGTH bytes;
            size = frame_size (getLengthHeader (buf\<lparr>nm_buffer := store 0 header (nm_buffer buf)\<rparr>))
        in if size = 0 \<or> size > 4096 then None
           else if length bytes < HEADER_LENGTH + size then None
           else Some (load_frame header (take size (drop HEADER_LENGTH bytes)) buf,
                  drop (HEADER_LENGTH + size) bytes))"

text \<open>
  The read cycle of an established connection over a stream of bytes. What is accepted is
  handed to \<open>parsePacket\<close> (here: its body is a result) and reading resumes; a message that
  \<open>onRecvMessage\<close> refuses is skipped, the buffer reset and the next header read.
\<close>

function receive_stream :: "netmsg \<Rightarrow> protocol \<Rightarrow> u8 list \<Rightarrow> u8 list list" where
  "receive_stream buf q bytes =
     (case read_frame buf bytes of
        None \<Rightarrow> []
      | Some (m, rest) \<Rightarrow> (case onRecvMessage q m of
          None \<Rightarrow> []
        | Some (ok, q', r) \<Rightarrow>
            if ok then window (nm_position r) (nm_length r - 1) (nm_buffer r) # receive_stream r q' rest
            else receive_stream (nm_reset r) q' rest))"
  by pat_completeness auto
termination
  by (relation "measure (\<lambda>(buf, q, bytes). length bytes)")
    (auto simp: read_frame_def Let_def split: if_splits)

declare receive_stream.simps [simp del]

section \<open>What a frame looks like\<close>

definition padded :: "u8 list \<Rightarrow> u8 list" where
  "padded payload = of_nat (paddingAmount (length payload)) # payload
     @ replicate (paddingAmount (length payload)) 0x33"

definition frame_body :: "xtea_key \<Rightarrow> u32 \<Rightarrow> u8 list \<Rightarrow> u8 list" where
  "frame_body k checksum payload = le_bytes 4 checksum @ xtea_bytes k True (padded payload)"

definition checksum_for :: "protocol \<Rightarrow> u8 list \<Rightarrow> u32" where
  "checksum_for p payload = (if checksumMethod p = CHECKSUM_METHOD_SEQUENCE
     then serverSequenceNumber p + 1
     else adlerChecksum (xtea_bytes (key p) True (padded payload)))"

lemma length_padded: "length (padded payload) = length payload + paddingAmount (length payload) + 1"
  by (simp add: padded_def)

lemma padded_dvd: "8 dvd length (padded payload)"
  using paddingAmount_mod [of "length payload"] by (simp add: length_padded dvd_eq_mod_eq_0)

lemma length_padded_le: "length (padded payload) \<le> length payload + 8"
  using paddingAmount_less [of "length payload"] by (simp add: length_padded)

lemma length_frame_body: "length (frame_body k c payload) = 4 + length (padded payload)"
  by (simp add: frame_body_def xtea.length_encrypt padded_dvd)

lemma XTEA_encrypt_wire:
  assumes "om_wf m" "8 dvd nm_length m"
  shows "\<exists>m'. XTEA_encrypt p m = Some m' \<and> om_wf m' \<and> om_start m' = om_start m
    \<and> nm_length m' = nm_length m \<and> wire_bytes m' = xtea_bytes (key p) True (wire_bytes m)"
proof -
  let ?c = "xtea_bytes (key p) True (wire_bytes m)"
  have len: "length ?c = nm_length m"
    using assms by (simp add: xtea.length_encrypt length_wire_bytes)
  have fit: "om_start m + nm_length m \<le> length (nm_buffer m)"
    using assms(1) by (auto simp: om_wf_def)
  let ?m = "m\<lparr>nm_buffer := store (om_start m) ?c (nm_buffer m)\<rparr>"
  have "XTEA_encrypt p m = Some ?m"
    using XTEA_transform_bytes [OF fit assms(2), of "key p" True] assms(2)
    by (simp add: XTEA_encrypt_def Let_def wire_bytes_def dvd_eq_mod_eq_0)
  moreover have "om_wf ?m" using assms(1) len fit by (auto simp: om_wf_def length_store)
  moreover have "wire_bytes ?m = ?c"
    using len fit window_store_same [of "om_start m" ?c "nm_buffer m"] by (simp add: wire_bytes_def)
  ultimately show ?thesis by auto
qed

lemma addCryptoHeader_wire:
  assumes "om_wf m" "6 \<le> om_start m" "8 dvd nm_length m"
  shows "wire_bytes (addCryptoHeader True c m)
    = le_bytes 2 (of_nat (nm_length m div 8) :: u16) @ le_bytes 4 c @ wire_bytes m"
proof -
  have s: "length (le_bytes 4 c) \<le> om_start m" using assms(2) by simp
  note f = add_header_fields [OF assms(1) s] and w = wire_add_header [OF assms(1) s]
  have "wire_bytes (writeMessageLength (add_header (le_bytes 4 c) m))
      = le_bytes 2 (of_nat (nm_length m div 8) :: u16) @ wire_bytes (add_header (le_bytes 4 c) m)"
    using writeMessageLength_wire [OF add_header_wf [OF assms(1) s]] f assms(2) by simp
  with w show ?thesis by (simp add: addCryptoHeader_def)
qed

text \<open>Compression left the message alone: it is off, failed, or was not asked for.\<close>

definition uncompressed ::
    "(u8 list \<Rightarrow> u8 list option) \<Rightarrow> bool \<Rightarrow> protocol \<Rightarrow> outmsg \<Rightarrow> bool" where
  "uncompressed deflate stream p m \<longleftrightarrow>
     nm_length m < 128 \<or> compression deflate stream p m = Some (False, m)"

text \<open>
  What \<open>onSendMessage\<close> frames: the message as it is, or a message with the compressed bytes.
\<close>

definition packed ::
    "(u8 list \<Rightarrow> u8 list option) \<Rightarrow> bool \<Rightarrow> protocol \<Rightarrow> outmsg \<Rightarrow> (bool \<times> outmsg) option" where
  "packed deflate stream p m =
     (if 128 \<le> nm_length m then compression deflate stream p m else Some (False, m))"

definition packed_checksum :: "protocol \<Rightarrow> bool \<Rightarrow> u8 list \<Rightarrow> u32" where
  "packed_checksum p compressed payload = (if checksumMethod p = CHECKSUM_METHOD_SEQUENCE
     then (if compressed then 0x80000000 else 0) OR (serverSequenceNumber p + 1)
     else adlerChecksum (xtea_bytes (key p) True (padded payload)))"

definition after_send :: "protocol \<Rightarrow> protocol" where
  "after_send p = (if checksumMethod p = CHECKSUM_METHOD_SEQUENCE
     then p\<lparr>serverSequenceNumber := nextSequence (serverSequenceNumber p)\<rparr> else p)"

lemma onSendMessage_packed:
  assumes "packed deflate stream p m = Some (b, m1)" "writePaddingAmount m1 = Some m2"
    and "XTEA_encrypt p m2 = Some m3" "encryptionEnabled p" "\<not> rawMessages p"
    and "checksumMethod p \<noteq> CHECKSUM_METHOD_NONE"
  shows "\<exists>c. onSendMessage deflate stream p m = Some (after_send p, addCryptoHeader True c m3)
    \<and> (\<forall>w. wire_bytes m3 = xtea_bytes (key p) True (padded w) \<longrightarrow> c = packed_checksum p b w)"
  using assms
  by (cases "checksumMethod p"; cases b)
    (auto simp: onSendMessage_def packed_def after_send_def packed_checksum_def)

lemma onSendMessage_packed_wire:
  assumes "packed deflate stream p m = Some (b, m1)"
    and "om_wf m1" "om_start m1 = INITIAL_BUFFER_POSITION" "nm_position m1 + 8 \<le> MAX_BODY_LENGTH"
    and "encryptionEnabled p" "\<not> rawMessages p" "checksumMethod p \<noteq> CHECKSUM_METHOD_NONE"
  shows "\<exists>m'. onSendMessage deflate stream p m = Some (after_send p, m')
    \<and> wire_bytes m' = le_bytes 2 (of_nat (length (padded (wire_bytes m1)) div 8) :: u16)
        @ frame_body (key p) (packed_checksum p b (wire_bytes m1)) (wire_bytes m1)"
proof -
  let ?w = "wire_bytes m1"
  have len: "length ?w = nm_length m1" using assms(2) by (rule length_wire_bytes)
  obtain m2 where m2: "writePaddingAmount m1 = Some m2" "om_wf m2" "wire_bytes m2 = padded ?w"
      "om_start m2 = 6" "8 dvd nm_length m2"
    using writePaddingAmount_wire [OF assms(2,4)] assms(3) len
    by (auto simp: padded_def dvd_eq_mod_eq_0)
  obtain m3 where m3: "XTEA_encrypt p m2 = Some m3" "om_wf m3" "om_start m3 = 6"
      "nm_length m3 = nm_length m2" "wire_bytes m3 = xtea_bytes (key p) True (padded ?w)"
    using XTEA_encrypt_wire [OF m2(2,5), of p] m2(3,4) by auto
  have header: "wire_bytes (addCryptoHeader True c m3)
      = le_bytes 2 (of_nat (length (padded ?w) div 8) :: u16) @ frame_body (key p) c ?w" for c
    using addCryptoHeader_wire [OF m3(2), of c] m2(5) m3 m2(3) length_wire_bytes [OF m2(2)]
    by (simp add: frame_body_def)
  show ?thesis
    using onSendMessage_packed [OF assms(1) m2(1) m3(1) assms(5-7)] m3(5) header by auto
qed

lemma onSendMessage_wire:
  assumes "om_wf m" "om_start m = INITIAL_BUFFER_POSITION" "nm_position m + 8 \<le> MAX_BODY_LENGTH"
    and "uncompressed deflate stream p m" "encryptionEnabled p" "\<not> rawMessages p"
    and "checksumMethod p \<noteq> CHECKSUM_METHOD_NONE"
  shows "\<exists>p' m'. onSendMessage deflate stream p m = Some (p', m')
    \<and> wire_bytes m' = le_bytes 2 (of_nat (length (padded (wire_bytes m)) div 8) :: u16)
        @ frame_body (key p) (checksum_for p (wire_bytes m)) (wire_bytes m)
    \<and> p' = (if checksumMethod p = CHECKSUM_METHOD_SEQUENCE
            then p\<lparr>serverSequenceNumber := nextSequence (serverSequenceNumber p)\<rparr> else p)"
proof -
  have "packed deflate stream p m = Some (False, m)"
    using assms(4) by (auto simp: uncompressed_def packed_def)
  from onSendMessage_packed_wire [OF this assms(1-3,5-7)] show ?thesis
    by (auto simp: packed_checksum_def checksum_for_def after_send_def)
qed

section \<open>Loading and decrypting a frame\<close>

lemma getLengthHeader_store:
  assumes "2 \<le> length (nm_buffer m)" "length header = 2"
  shows "getLengthHeader (m\<lparr>nm_buffer := store 2 body (store 0 header (nm_buffer m))\<rparr>)
    = wrap16 (unat (header ! 0) + 256 * unat (header ! 1))"
  using assms by (simp add: getLengthHeader_def store_def nth_append)

lemma unat_le_bytes_2:
  "unat (le_bytes 2 (w :: u16) ! 0) + 256 * unat (le_bytes 2 w ! 1) = unat w"
proof -
  have lt: "unat w < 65536" using unsigned_less [of w, where 'a = nat] by simp
  have bytes: "le_bytes 2 w = [ucast w, ucast (drop_bit 8 w)]"
    by (simp add: le_bytes_def upt_rec)
  have lo: "unat (ucast w :: u8) = unat w mod 256"
    by (simp add: unsigned_ucast_eq take_bit_eq_mod)
  have "unat (drop_bit 8 w) = unat w div 256"
    unfolding unsigned_drop_bit_eq using lt by (simp add: drop_bit_eq_div take_bit_nat_eq_self)
  then have hi: "unat (ucast (drop_bit 8 w) :: u8) = unat w div 256"
    using lt by (simp add: unsigned_ucast_eq take_bit_eq_mod)
  have "unat w mod 256 + 256 * (unat w div 256) = unat w" by simp
  then show ?thesis unfolding bytes using lo hi by simp
qed

lemma load_frame_header:
  assumes "2 \<le> length (nm_buffer m)"
  shows "getLengthHeader (load_frame (le_bytes 2 (w :: u16)) body m) = unat w"
proof -
  have "getLengthHeader (load_frame (le_bytes 2 w) body m)
      = wrap16 (unat (le_bytes 2 w ! 0) + 256 * unat (le_bytes 2 w ! 1))"
    using getLengthHeader_store [OF assms, of "le_bytes 2 w" body]
    by (simp add: load_frame_def getLengthHeader_def)
  then show ?thesis
    using unsigned_less [of w, where 'a = nat] unfolding unat_le_bytes_2 by (simp add: wrap16_id)
qed

text \<open>A loaded frame: cursor behind the header, the body in place.\<close>

lemma load_frame_fields:
  assumes "length (nm_buffer m) = NETWORKMESSAGE_MAXSIZE" "length header = 2"
    and "length body + 2 \<le> NETWORKMESSAGE_MAXSIZE"
  shows "nm_position (load_frame header body m) = 2"
    and "nm_length (load_frame header body m) = length body + 2"
    and "length (nm_buffer (load_frame header body m)) = NETWORKMESSAGE_MAXSIZE"
    and "window 2 (length body) (nm_buffer (load_frame header body m)) = body"
  using assms
  by (simp_all add: load_frame_def getBodyBuffer_def setLength_def wrap16_id length_store
      window_store_same)

lemma read_int_nm_get_window:
  fixes w :: u32
  assumes "canRead 4 m" "window (nm_position m) 4 (nm_buffer m) = le_bytes 4 w"
    and "nm_position m + 4 \<le> length (nm_buffer m)" "nm_position m < 65000"
  shows "read_int nm_get 4 m = Some (w, m\<lparr>nm_position := nm_position m + 4\<rparr>)"
  using assms by (simp add: read_int_def nm_get_def wrap16_id)

lemma XTEA_decrypt_padded:
  assumes "nm_position m = 6" "nm_length m = length (padded payload) + 6"
    and "length (nm_buffer m) = NETWORKMESSAGE_MAXSIZE" "nm_length m \<le> NETWORKMESSAGE_MAXSIZE"
    and "checksumMethod p \<noteq> CHECKSUM_METHOD_NONE"
    and "window 6 (length (padded payload)) (nm_buffer m) = xtea_bytes (key p) True (padded payload)"
  shows "\<exists>m'. XTEA_decrypt p m = Some (True, m') \<and> nm_position m' = 7
    \<and> nm_length m' = length payload + 1
    \<and> window 7 (length payload) (nm_buffer m') = payload"
proof -
  let ?n = "length (padded payload)" and ?a = "paddingAmount (length payload)"
  let ?buf = "store 6 (padded payload) (nm_buffer m)"
  have fit: "6 + ?n \<le> length (nm_buffer m)" using assms(2-4) by simp
  have tr: "XTEA_transform (key p) False (nm_position m) ?n (nm_buffer m) = Some ?buf"
    using XTEA_transform_bytes [of 6 ?n "nm_buffer m" "key p" False] fit padded_dvd assms(1,6)
    by (simp add: xtea.decrypt_encrypt)
  have win: "window 6 ?n ?buf = padded payload"
    using window_store_same [of 6 "padded payload" "nm_buffer m"] fit by simp
  have pos: "6 < length (nm_buffer m)" using fit by (simp add: length_padded)
  have first: "?buf ! 6 = of_nat ?a"
    using fit by (simp add: store_def nth_append padded_def)
  have a: "unat (of_nat ?a :: u8) = ?a"
    using paddingAmount_less [of "length payload"] by (simp add: unat_of_nat)
  have body: "window 7 (length payload) ?buf = payload"
    using window_of_window [of 1 "length payload" ?n 6 ?buf] win
    by (simp add: length_padded window_def padded_def)
  have len: "nat ((int (nm_length m) - 6) mod 65536) = ?n"
    using assms(2,4) by simp
  have inner: "nat ((int ?n - int ?a) mod 65536) = ?n - ?a" "?a \<le> ?n"
    using assms(2,4) length_padded [of payload] by (simp_all add: of_nat_diff)
  have "length ?buf = length (nm_buffer m)" using fit by (simp add: length_store)
  then have "getByte (m\<lparr>nm_buffer := ?buf\<rparr>) = (of_nat ?a, m\<lparr>nm_buffer := ?buf, nm_position := 7\<rparr>)"
    using assms(1) fit first pos
    by (simp add: getByte_def canRead_def assms(2) wrap16_def Let_def del: length_padded)
  moreover have "(if checksumMethod p = CHECKSUM_METHOD_NONE then 2 else 6) = (6 :: int)"
    using assms(5) by simp
  moreover have "?n mod 8 = 0" using padded_dvd [of payload] by simp
  ultimately have "XTEA_decrypt p m
      = Some (True, setLength (?n - ?a) (m\<lparr>nm_buffer := ?buf, nm_position := 7\<rparr>))"
    by (simp only: XTEA_decrypt_def Let_def len tr a inner le_add_diff_inverse2 less_irrefl
        option.case prod.case simp_thms if_False if_True not_True_eq_False)
  with body assms(2,4) show ?thesis
    by (simp add: setLength_def length_padded wrap16_id)
qed

lemma load_frame_checksum:
  fixes c :: u32
  assumes "length (nm_buffer m) = NETWORKMESSAGE_MAXSIZE" "length header = 2"
    and "length (le_bytes 4 c @ rest) + 2 \<le> NETWORKMESSAGE_MAXSIZE"
  shows "read_int nm_get 4 (load_frame header (le_bytes 4 c @ rest) m)
    = Some (c, (load_frame header (le_bytes 4 c @ rest) m)\<lparr>nm_position := 6\<rparr>)"
proof -
  note lf = load_frame_fields [OF assms]
  have "window 2 4 (nm_buffer (load_frame header (le_bytes 4 c @ rest) m)) = le_bytes 4 c"
    using take_window [of 4 2 "length (le_bytes 4 c @ rest)" "nm_buffer (load_frame header (le_bytes 4 c @ rest) m)"]
    unfolding lf(4) by simp
  with lf assms(3) show ?thesis
    using read_int_nm_get_window [of "load_frame header (le_bytes 4 c @ rest) m" c] by (simp add: canRead_def)
qed

lemma onRecvMessage_frame:
  assumes "length (nm_buffer m) = NETWORKMESSAGE_MAXSIZE" "length header = 2"
    and "length payload + 14 \<le> NETWORKMESSAGE_MAXSIZE"
    and "encryptionEnabled p"
    and "(checksumMethod p = CHECKSUM_METHOD_ADLER32
            \<and> c = adlerChecksum (xtea_bytes (key p) True (padded payload)) \<and> p' = p)
       \<or> (checksumMethod p = CHECKSUM_METHOD_SEQUENCE
            \<and> c = clientSequenceNumber p + 1 \<and> c \<noteq> 0
            \<and> p' = p\<lparr>clientSequenceNumber := nextSequence (clientSequenceNumber p)\<rparr>)"
  shows "\<exists>m'. onRecvMessage p (load_frame header (frame_body (key p) c payload) m) = Some (True, p', m')
    \<and> nm_position m' = 7 \<and> nm_length m' = length payload + 1
    \<and> window 7 (length payload) (nm_buffer m') = payload"
proof -
  let ?b = "frame_body (key p) c payload" and ?n = "length (padded payload)"
  let ?m = "load_frame header (frame_body (key p) c payload) m"
  let ?c = "xtea_bytes (key p) True (padded payload)"
  have lb: "length ?b = 4 + ?n" by (rule length_frame_body)
  have fit: "length ?b + 2 \<le> NETWORKMESSAGE_MAXSIZE"
    using assms(3) lb length_padded_le [of payload] by simp
  note lf = load_frame_fields [OF assms(1,2) fit]
  have w: "window 2 4 (nm_buffer ?m) = le_bytes 4 c" "window 6 ?n (nm_buffer ?m) = ?c"
    using window_split [of 2 4 ?n "nm_buffer ?m"] lf(4) lb lf(3) fit
    by (simp_all add: frame_body_def append_eq_append_conv length_window)
  let ?m1 = "?m\<lparr>nm_position := 6\<rparr>"
  have get: "read_int nm_get 4 ?m = Some (c, ?m1)"
    using read_int_nm_get_window [of ?m c] w(1) lf fit lb by (simp add: canRead_def)
  have adler: "received_adler ?m1 = Some (adlerChecksum ?c)"
  proof -
    have "int (nm_length ?m1) - int (nm_position ?m1) = int ?n" using lf lb by simp
    moreover have "0 < ?n" by (simp add: length_padded)
    moreover have "6 + ?n \<le> length (nm_buffer ?m1)" using lf lb fit by simp
    ultimately show ?thesis
      unfolding received_adler_def Let_def using w(2) by (simp del: length_padded)
  qed
  have meth: "checksumMethod p \<noteq> CHECKSUM_METHOD_NONE" using assms(5) by auto
  have dec: "\<exists>m'. XTEA_decrypt q ?m1 = Some (True, m') \<and> nm_position m' = 7
      \<and> nm_length m' = length payload + 1 \<and> window 7 (length payload) (nm_buffer m') = payload"
    if "key q = key p" "checksumMethod q = checksumMethod p" for q
    by (rule XTEA_decrypt_padded) (use that w(2) lf lb fit meth in simp_all)
  show ?thesis
    using assms(5)
  proof
    assume *: "checksumMethod p = CHECKSUM_METHOD_ADLER32 \<and> c = adlerChecksum ?c \<and> p' = p"
    then show ?thesis using get adler dec [of p] assms(4)
      by (auto simp: onRecvMessage_def sendRecvMessageCallback_def Let_def)
  next
    assume *: "checksumMethod p = CHECKSUM_METHOD_SEQUENCE \<and> c = clientSequenceNumber p + 1 \<and> c \<noteq> 0
      \<and> p' = p\<lparr>clientSequenceNumber := nextSequence (clientSequenceNumber p)\<rparr>"
    then show ?thesis using get dec [of p'] assms(4)
      by (auto simp: onRecvMessage_def sendRecvMessageCallback_def Let_def)
  qed
qed

section \<open>Two endpoints in step\<close>

text \<open>The receiver \<open>q\<close> expects what the sender \<open>p\<close> sends next.\<close>

definition in_sync :: "protocol \<Rightarrow> protocol \<Rightarrow> bool" where
  "in_sync p q \<longleftrightarrow> key q = key p \<and> checksumMethod q = checksumMethod p
     \<and> checksumMethod p \<noteq> CHECKSUM_METHOD_NONE
     \<and> encryptionEnabled p \<and> encryptionEnabled q \<and> \<not> rawMessages p
     \<and> clientSequenceNumber q = serverSequenceNumber p \<and> serverSequenceNumber p < 0x7FFFFFFF"

text \<open>A body as the game writes it: from the initial position, with room for the padding.\<close>

definition sendable ::
    "(u8 list \<Rightarrow> u8 list option) \<Rightarrow> bool \<Rightarrow> protocol \<Rightarrow> outmsg \<Rightarrow> bool" where
  "sendable deflate stream p m \<longleftrightarrow> om_wf m \<and> om_start m = INITIAL_BUFFER_POSITION
     \<and> nm_position m + 8 \<le> MAX_BODY_LENGTH \<and> uncompressed deflate stream p m"

lemma nextSequence_less: "s < 0x7FFFFFFF \<Longrightarrow> nextSequence s < 0x7FFFFFFF"
  by (simp add: nextSequence_def not_le)

lemma Suc_seq_nonzero: "(s :: u32) < 0x7FFFFFFF \<Longrightarrow> s + 1 \<noteq> 0"
proof
  assume "s < 0x7FFFFFFF" "s + 1 = 0"
  then have "s = - 1" by (simp add: eq_neg_iff_add_eq_0)
  with \<open>s < 0x7FFFFFFF\<close> show False by simp
qed

text \<open>One message from \<open>p\<close> to \<open>q\<close>, over a receive buffer \<open>buf\<close>.\<close>

definition transmit :: "(u8 list \<Rightarrow> u8 list option) \<Rightarrow> bool \<Rightarrow> netmsg \<Rightarrow> outmsg
    \<Rightarrow> protocol \<times> protocol \<Rightarrow> (protocol \<times> protocol \<times> netmsg) option" where
  "transmit deflate stream buf m pq =
     (case onSendMessage deflate stream (fst pq) m of
        None \<Rightarrow> None
      | Some (p', m') \<Rightarrow>
        let wire = wire_bytes m'
        in (case onRecvMessage (snd pq) (load_frame (take 2 wire) (drop 2 wire) buf) of
            Some (True, q', r) \<Rightarrow> Some (p', q', r)
          | _ \<Rightarrow> None))"

lemma transmit_step:
  assumes "in_sync p q" "sendable deflate stream p m" "length (nm_buffer buf) = NETWORKMESSAGE_MAXSIZE"
  shows "\<exists>p' q' r. transmit deflate stream buf m (p, q) = Some (p', q', r) \<and> in_sync p' q'
    \<and> nm_position r = 7 \<and> nm_length r = nm_length m + 1
    \<and> window 7 (nm_length m) (nm_buffer r) = wire_bytes m"
proof -
  let ?w = "wire_bytes m" and ?seq = "checksumMethod p = CHECKSUM_METHOD_SEQUENCE"
  let ?h = "le_bytes 2 (of_nat (length (padded (wire_bytes m)) div 8) :: u16)"
  let ?p' = "if ?seq then p\<lparr>serverSequenceNumber := nextSequence (serverSequenceNumber p)\<rparr> else p"
  let ?q' = "if ?seq then q\<lparr>clientSequenceNumber := nextSequence (clientSequenceNumber q)\<rparr> else q"
  have wf: "om_wf m" using assms(2) by (simp add: sendable_def)
  have len: "length ?w = nm_length m" using wf by (rule length_wire_bytes)
  have small: "length ?w + 14 \<le> NETWORKMESSAGE_MAXSIZE"
    using assms(2) len by (simp add: sendable_def om_wf_def)
  obtain m' where sent: "onSendMessage deflate stream p m = Some (?p', m')"
      "wire_bytes m' = ?h @ frame_body (key p) (checksum_for p ?w) ?w"
    using onSendMessage_wire [of m deflate stream p] assms(1,2)
    unfolding in_sync_def sendable_def by blast
  have meth: "(checksumMethod q = CHECKSUM_METHOD_ADLER32
            \<and> checksum_for p ?w = adlerChecksum (xtea_bytes (key q) True (padded ?w)) \<and> ?q' = q)
       \<or> (checksumMethod q = CHECKSUM_METHOD_SEQUENCE
            \<and> checksum_for p ?w = clientSequenceNumber q + 1 \<and> checksum_for p ?w \<noteq> 0
            \<and> ?q' = q\<lparr>clientSequenceNumber := nextSequence (clientSequenceNumber q)\<rparr>)"
    using assms(1) Suc_seq_nonzero [of "serverSequenceNumber p"]
    by (cases "checksumMethod p") (auto simp: in_sync_def checksum_for_def)
  have "encryptionEnabled q" "key q = key p" using assms(1) by (auto simp: in_sync_def)
  then obtain r where r: "onRecvMessage q (load_frame ?h (frame_body (key p) (checksum_for p ?w) ?w) buf)
        = Some (True, ?q', r)"
      "nm_position r = 7" "nm_length r = length ?w + 1" "window 7 (length ?w) (nm_buffer r) = ?w"
    using onRecvMessage_frame [OF assms(3) length_le_bytes small _ meth, of
        "of_nat (length (padded (wire_bytes m)) div 8) :: u16"] by auto
  have "in_sync ?p' ?q'"
    using assms(1) by (auto simp: in_sync_def nextSequence_less)
  with sent r len show ?thesis by (auto simp: transmit_def)
qed

section \<open>Frame sizes, and where framing gives up\<close>

lemma frame_size_eq:
  assumes "8 dvd n" "n < 65532"
  shows "frame_size (unat (of_nat (n div 8) :: u16)) = n + 4"
proof -
  have "unat (of_nat (n div 8) :: u16) = n div 8"
    using assms(2) by (simp add: unat_of_nat)
  with assms show ?thesis by (simp add: frame_size_def wrap16_id)
qed

text \<open>Without a checksum the header counts the four bytes that are not there.\<close>

lemma header_without_checksum:
  assumes "om_wf m" "2 \<le> om_start m" "8 dvd nm_length m" "8 \<le> nm_length m"
  shows "\<exists>h. wire_bytes (addCryptoHeader False 0 m) = le_bytes 2 (h :: u16) @ wire_bytes m
    \<and> frame_size (unat h) + 4 = nm_length m"
proof -
  define j where "j = nm_length m div 8 - 1"
  have j: "nm_length m = 8 * j + 8" using assms(3,4) unfolding j_def by presburger
  then have "(nm_length m - 4) div 8 = j" by simp
  moreover have "frame_size (unat (of_nat (8 * j div 8) :: u16)) = 8 * j + 4"
    by (rule frame_size_eq) (use j assms(1) in \<open>simp_all add: om_wf_def\<close>)
  ultimately show ?thesis
    using writeMessageLength_wire [OF assms(1,2)] assms(4) j
    by (auto simp: addCryptoHeader_def)
qed

text \<open>
  A body that the writers still accept but that leaves no room for its padding: the
  padding is dropped, its count is not, and what \<open>XTEA_encrypt\<close> gets is not made of blocks.
\<close>

lemma padding_dropped:
  assumes "om_wf m" "om_start m = INITIAL_BUFFER_POSITION"
    and "MAX_BODY_LENGTH \<le> nm_position m + paddingAmount (nm_length m)"
    and "0 < paddingAmount (nm_length m)"
  shows "\<exists>m'. writePaddingAmount m = Some m'
    \<and> wire_bytes m' = of_nat (paddingAmount (nm_length m)) # wire_bytes m
    \<and> nm_length m' mod 8 \<noteq> 0"
proof -
  let ?p = "paddingAmount (nm_length m)"
  have "\<not> canAdd ?p m"
    using assms(1,3) paddingAmount_less [of "nm_length m"]
    by (simp add: canAdd_def om_wf_def wrap64_id)
  then have w: "writePaddingAmount m = Some (add_header [of_nat ?p] m)"
    by (simp add: writePaddingAmount_def Let_def addPaddingBytes_def)
  have "length [of_nat ?p :: u8] \<le> om_start m" using assms(2) by simp
  note f = wire_add_header [OF assms(1) this] add_header_fields [OF assms(1) this]
  have "(nm_length m + 1) mod 8 \<noteq> 0"
  proof -
    have "?p = 7 - nm_length m mod 8" by (simp add: paddingAmount_def)
    with assms(4) have "nm_length m mod 8 < 7" by simp
    then show ?thesis by presburger
  qed
  with w f show ?thesis by simp
qed

lemma onSendMessage_sequence:
  assumes "serverSequenceNumber p < 0x7FFFFFFF" "onSendMessage deflate stream p m = Some (p', m')"
  shows "serverSequenceNumber p' < 0x7FFFFFFF"
  using assms
  by (auto simp: onSendMessage_def Let_def nextSequence_less
      split: if_splits option.splits checksum_method.splits)

lemma onRecvMessage_sequence:
  assumes "clientSequenceNumber p < 0x7FFFFFFF" "onRecvMessage p m = Some (ok, p', m')"
  shows "clientSequenceNumber p' < 0x7FFFFFFF"
  using assms
  by (auto simp: onRecvMessage_def Let_def nextSequence_less
      split: if_splits option.splits checksum_method.splits)

text \<open>Receiving touches only the client's sequence number, which sending does not read.\<close>

lemma onRecvMessage_sending:
  assumes "onRecvMessage p m = Some (ok, p', m')"
  shows "\<exists>s. p' = p\<lparr>clientSequenceNumber := s\<rparr>"
proof -
  have "p' = p \<or> p' = p\<lparr>clientSequenceNumber := nextSequence (clientSequenceNumber p)\<rparr>"
    using assms unfolding onRecvMessage_def Let_def
    by (auto split: if_splits option.splits checksum_method.splits)
  moreover have "p = p\<lparr>clientSequenceNumber := clientSequenceNumber p\<rparr>" by simp
  ultimately show ?thesis by metis
qed

lemma onSendMessage_client:
  "onSendMessage deflate stream (p\<lparr>clientSequenceNumber := s\<rparr>) m
    = map_option (\<lambda>(q, m'). (q\<lparr>clientSequenceNumber := s\<rparr>, m')) (onSendMessage deflate stream p m)"
proof -
  let ?p = "p\<lparr>clientSequenceNumber := s\<rparr>"
  have "compression deflate stream ?p = compression deflate stream p" "XTEA_encrypt ?p = XTEA_encrypt p"
    by (simp_all add: compression_def XTEA_encrypt_def Let_def fun_eq_iff split: option.split)
  then show ?thesis
    by (cases "checksumMethod p")
      (simp_all add: onSendMessage_def Let_def split: option.split prod.split)
qed

text \<open>
  On a message whose announced length is that of its frame, receiving is defined: no
  access leaves the buffer.
\<close>

definition keeps_buffer :: "'a netmsg_scheme \<Rightarrow> 'b netmsg_scheme \<Rightarrow> bool" where
  "keeps_buffer m m' \<longleftrightarrow> length (nm_buffer m') = length (nm_buffer m) \<and> nm_position m' < 65536"

lemma getByte_keeps: "nm_position m < 65536 \<Longrightarrow> keeps_buffer m (snd (getByte m))"
  by (simp add: keeps_buffer_def getByte_def Let_def)

lemma XTEA_decrypt_defined:
  assumes "length (nm_buffer m) = NETWORKMESSAGE_MAXSIZE" "nm_position m \<le> 6"
    and "6 \<le> nm_length m" "nm_length m \<le> 4098"
  shows "\<exists>ok m'. XTEA_decrypt p m = Some (ok, m') \<and> keeps_buffer m m'"
proof -
  define n where "n = nat ((int (nm_length m) - (if checksumMethod p = CHECKSUM_METHOD_NONE then 2 else 6)) mod 65536)"
  have n: "n \<le> 4096" using assms(3,4) by (auto simp: n_def)
  show ?thesis
  proof (cases "8 dvd n")
    case False
    then show ?thesis
      using assms(2) unfolding XTEA_decrypt_def Let_def n_def [symmetric]
      by (intro exI [of _ False] exI [of _ m]) (simp add: keeps_buffer_def dvd_eq_mod_eq_0)
  next
    case True
    let ?buf = "store (nm_position m) (xtea_bytes (key p) False (window (nm_position m) n (nm_buffer m))) (nm_buffer m)"
    have fit: "nm_position m + n \<le> length (nm_buffer m)" using assms(1,2) n by simp
    have tr: "XTEA_transform (key p) False (nm_position m) n (nm_buffer m) = Some ?buf"
      by (rule XTEA_transform_bytes [OF fit True])
    have "length ?buf = length (nm_buffer m)"
      using fit True by (intro length_store) (simp add: length_xtea_bytes length_window)
    moreover have "keeps_buffer (m\<lparr>nm_buffer := ?buf\<rparr>) (snd (getByte (m\<lparr>nm_buffer := ?buf\<rparr>)))"
      using assms(2) by (intro getByte_keeps) simp
    ultimately show ?thesis
      using tr True unfolding XTEA_decrypt_def Let_def n_def [symmetric]
      by (cases "getByte (m\<lparr>nm_buffer := ?buf\<rparr>)")
        (auto simp: keeps_buffer_def dvd_eq_mod_eq_0 setLength_def)
  qed
qed

lemma onRecvMessage_defined:
  assumes "length (nm_buffer m) = NETWORKMESSAGE_MAXSIZE" "nm_position m = 2"
    and "6 \<le> nm_length m" "nm_length m \<le> 4098"
  shows "\<exists>ok p' m'. onRecvMessage p m = Some (ok, p', m') \<and> keeps_buffer m m'"
proof -
  have call: "\<exists>ok m'. sendRecvMessageCallback q r = Some (ok, m') \<and> keeps_buffer m m'"
    if "r = m \<or> r = m\<lparr>nm_position := 6\<rparr>" for q r
    using that XTEA_decrypt_defined [of r q] assms
    by (auto simp: sendRecvMessageCallback_def keeps_buffer_def)
  have get: "read_int nm_get 4 m = Some (le_word (window 2 4 (nm_buffer m)) :: u32, m\<lparr>nm_position := 6\<rparr>)"
    using assms by (simp add: read_int_def nm_get_def canRead_def wrap16_def)
  have adler: "\<exists>c. received_adler (m\<lparr>nm_position := 6\<rparr>) = Some c"
    using assms by (auto simp: received_adler_def Let_def)
  have keep: "keeps_buffer m (m\<lparr>nm_position := 6\<rparr>)" by (simp add: keeps_buffer_def)
  show ?thesis
  proof (cases "checksumMethod p")
    case CHECKSUM_METHOD_NONE
    with call [of m p] show ?thesis by (auto simp: onRecvMessage_def)
  next
    case CHECKSUM_METHOD_ADLER32
    with call [of "m\<lparr>nm_position := 6\<rparr>" p] adler keep show ?thesis
      by (auto simp: onRecvMessage_def get Let_def)
  next
    case CHECKSUM_METHOD_SEQUENCE
    with call [of "m\<lparr>nm_position := 6\<rparr>" "p\<lparr>clientSequenceNumber := nextSequence (clientSequenceNumber p)\<rparr>"] keep
    show ?thesis by (auto simp: onRecvMessage_def get Let_def)
  qed
qed

text \<open>
  Sending is defined for every message the writers can build, also where the padding does
  not fit any more: the cipher then works on up to seven bytes behind the message.
\<close>

lemma xtea_loop_defined:
  assumes "base + messageLength + 7 \<le> length buf"
  shows "\<exists>buf'. xtea_loop k e base readPos messageLength buf = Some buf' \<and> length buf' = length buf"
  using assms
proof (induction k e base readPos messageLength buf rule: xtea_loop.induct)
  case (1 k e base r n buf)
  show ?case
  proof (cases "n \<le> r")
    case True
    then show ?thesis by (simp add: xtea_loop.simps [of k e base r n buf])
  next
    case False
    let ?v = "xtea_block k e (block_of_bytes (window (base + r) 8 buf))"
    let ?buf = "store (base + r) (bytes_of_block ?v) buf"
    have fit: "\<not> length buf < base + r + 8" using False 1(2) by simp
    then have len: "length ?buf = length buf" by (intro length_store) simp
    have "\<exists>buf'. xtea_loop k e base (r + 8) n ?buf = Some buf' \<and> length buf' = length ?buf"
      by (rule 1(1) [OF False fit refl]) (use 1(2) len in simp)
    then show ?thesis
      using False fit len by (subst xtea_loop.simps) (simp add: Let_def)
  qed
qed

definition om_room :: "outmsg \<Rightarrow> bool" where
  "om_room m \<longleftrightarrow> length (nm_buffer m) = NETWORKMESSAGE_MAXSIZE
     \<and> om_start m + nm_length m + 7 \<le> NETWORKMESSAGE_MAXSIZE
     \<and> nm_position m < MAX_BODY_LENGTH"

lemma om_wf_room: "om_wf m \<Longrightarrow> om_room m"
  by (simp add: om_wf_def om_room_def)

lemma addPaddingBytes_wf:
  assumes "om_wf m" "n < 65536"
  shows "\<exists>m'. addPaddingBytes n m = Some m' \<and> om_wf m' \<and> om_start m' = om_start m
    \<and> nm_length m \<le> nm_length m'"
proof (cases "canAdd n m")
  case True
  then have "nm_position m + n < MAX_BODY_LENGTH"
    using assms by (simp add: canAdd_def om_wf_def wrap64_id)
  with nm_put_om [OF assms(1), of "replicate n 0x33"] addPaddingBytes_om [OF assms(1)]
  show ?thesis by simp
next
  case False
  with assms(1) show ?thesis by (simp add: addPaddingBytes_def)
qed

lemma add_header_wf_any: "om_wf m \<Longrightarrow> om_wf (add_header bs m)"
  by (cases "length bs \<le> om_start m") (simp_all add: add_header_wf, simp add: add_header_def)

lemma XTEA_encrypt_defined:
  assumes "om_wf m"
  shows "\<exists>m'. XTEA_encrypt p m = Some m' \<and> om_wf m' \<and> om_start m' = om_start m
    \<and> nm_length m \<le> nm_length m'"
proof -
  obtain m1 where m1: "(if nm_length m mod 8 \<noteq> 0 then addPaddingBytes (8 - nm_length m mod 8) m else Some m) = Some m1"
      "om_wf m1" "om_start m1 = om_start m" "nm_length m \<le> nm_length m1"
  proof (cases "nm_length m mod 8 = 0")
    case True
    with assms that show thesis by simp
  next
    case False
    have "8 - nm_length m mod 8 < 65536" by (rule le_less_trans [of _ 8]) simp_all
    from addPaddingBytes_wf [OF assms this] False that show thesis by auto
  qed
  from om_wf_room [OF m1(2)] have "om_start m1 + nm_length m1 + 7 \<le> length (nm_buffer m1)"
    by (simp add: om_room_def)
  from xtea_loop_defined [OF this] obtain buf where
    "xtea_loop (key p) True (om_start m1) 0 (nm_length m1) (nm_buffer m1) = Some buf"
    "length buf = length (nm_buffer m1)" by blast
  with m1 show ?thesis by (simp add: XTEA_encrypt_def XTEA_transform_def Let_def om_wf_def)
qed

lemma compression_defined:
  assumes "om_wf m"
  shows "\<exists>b m'. compression deflate stream p m = Some (b, m') \<and> om_wf m'
    \<and> (om_start m = INITIAL_BUFFER_POSITION \<longrightarrow> om_start m' = INITIAL_BUFFER_POSITION)
    \<and> (if b then checksumMethod p = CHECKSUM_METHOD_SEQUENCE else m' = m)"
proof -
  have new: "om_start (om_reset m) = INITIAL_BUFFER_POSITION" by (simp add: om_reset_def)
  have add: "\<exists>m'. addBytes out (om_reset m) = Some m' \<and> om_wf m' \<and> om_start m' = INITIAL_BUFFER_POSITION" for out
  proof (cases "canAdd (length out) (om_reset m) \<and> length out \<le> NETWORKMESSAGE_MAXSIZE")
    case True
    then have "nm_position (om_reset m) + length out < MAX_BODY_LENGTH"
      by (auto simp: canAdd_def om_reset_def nm_reset_def wrap64_id)
    with nm_put_om(1,4) [OF om_reset_wf this] True new show ?thesis
      by (auto simp: addBytes_def om_reset_def nm_reset_def)
  next
    case False
    then have "addBytes out (om_reset m) = Some (om_reset m)" by (auto simp: addBytes_def)
    with new show ?thesis by simp
  qed
  have "compression deflate stream p m = Some (False, m)
    \<or> (checksumMethod p = CHECKSUM_METHOD_SEQUENCE
        \<and> (\<exists>out. compression deflate stream p m = map_option (\<lambda>m'. (True, m')) (addBytes out (om_reset m))))"
    by (cases "deflate (wire_bytes m)") (auto simp: compression_def)
  then show ?thesis
  proof
    assume "compression deflate stream p m = Some (False, m)"
    with assms show ?thesis by (intro exI [of _ False] exI [of _ m]) simp
  next
    assume *: "checksumMethod p = CHECKSUM_METHOD_SEQUENCE
      \<and> (\<exists>out. compression deflate stream p m = map_option (\<lambda>m'. (True, m')) (addBytes out (om_reset m)))"
    then obtain out where out: "compression deflate stream p m = map_option (\<lambda>m'. (True, m')) (addBytes out (om_reset m))"
      by blast
    obtain m' where "addBytes out (om_reset m) = Some m'" "om_wf m'" "om_start m' = INITIAL_BUFFER_POSITION"
      using add by blast
    with out * show ?thesis by (intro exI [of _ True] exI [of _ m']) simp
  qed
qed

lemma onSendMessage_defined:
  assumes "om_wf m"
  shows "\<exists>p' m'. onSendMessage deflate stream p m = Some (p', m')"
proof -
  obtain b m1 where m1: "(if 128 \<le> nm_length m then compression deflate stream p m else Some (False, m)) = Some (b, m1)"
      "om_wf m1"
  proof (cases "128 \<le> nm_length m")
    case True
    with that compression_defined [OF assms, of deflate stream p] show thesis by fastforce
  next
    case False
    with that assms show thesis by simp
  qed
  obtain m2 where m2: "writePaddingAmount m1 = Some m2" "om_wf m2"
    using addPaddingBytes_wf [OF m1(2), of "paddingAmount (nm_length m1)"] paddingAmount_less [of "nm_length m1"]
    by (auto simp: writePaddingAmount_def Let_def add_header_wf_any)
  obtain m3 where "XTEA_encrypt p m2 = Some m3" using XTEA_encrypt_defined [OF m2(2)] by blast
  with m1 m2 show ?thesis
    by (cases "checksumMethod p") (auto simp: onSendMessage_def Let_def)
qed

lemma bit_31_small:
  assumes "s < (0x80000000 :: u32)"
  shows "\<not> bit s 31"
proof -
  have "unat s < 2 ^ 31" using assms by (simp add: word_less_nat_alt)
  then have "\<not> bit (unat s) 31" by (simp add: bit_iff_odd)
  then show ?thesis by (simp add: bit_unsigned_iff)
qed

section \<open>A stream of frames\<close>

text \<open>
  Which messages of a stream reach \<open>parsePacket\<close>: what is framed (the message, or the one
  with the compressed bytes) must be shorter than 4088 bytes, the most \<open>parseHeader\<close> lets in,
  and a compressed message, marked in bit 31 of its sequence number, is skipped.
\<close>

definition short_frame :: "(u8 list \<Rightarrow> u8 list option) \<Rightarrow> bool \<Rightarrow> protocol \<Rightarrow> outmsg \<Rightarrow> bool" where
  "short_frame deflate stream p m \<longleftrightarrow>
     (case packed deflate stream p m of None \<Rightarrow> False | Some (b, m1) \<Rightarrow> nm_length m1 < 4088)"

definition compressed :: "(u8 list \<Rightarrow> u8 list option) \<Rightarrow> bool \<Rightarrow> protocol \<Rightarrow> outmsg \<Rightarrow> bool" where
  "compressed deflate stream p m \<longleftrightarrow>
     (case packed deflate stream p m of None \<Rightarrow> False | Some (b, m1) \<Rightarrow> b)"

definition peer_bodies ::
    "(u8 list \<Rightarrow> u8 list option) \<Rightarrow> bool \<Rightarrow> protocol \<Rightarrow> outmsg list \<Rightarrow> u8 list list" where
  "peer_bodies deflate stream p ms =
     map wire_bytes (filter (\<lambda>m. \<not> compressed deflate stream p m) (takeWhile (short_frame deflate stream p) ms))"

definition from_start :: "outmsg \<Rightarrow> bool" where
  "from_start m \<longleftrightarrow> om_wf m \<and> om_start m = INITIAL_BUFFER_POSITION"

lemma packed_defined:
  assumes "from_start m"
  obtains b m1 where "packed deflate stream p m = Some (b, m1)" "om_wf m1"
    "om_start m1 = INITIAL_BUFFER_POSITION"
    "if b then checksumMethod p = CHECKSUM_METHOD_SEQUENCE else m1 = m"
proof (cases "128 \<le> nm_length m")
  case True
  obtain b m1 where "compression deflate stream p m = Some (b, m1)" "om_wf m1"
      "om_start m1 = INITIAL_BUFFER_POSITION"
      "if b then checksumMethod p = CHECKSUM_METHOD_SEQUENCE else m1 = m"
    using compression_defined [of m deflate stream p] assms unfolding from_start_def by blast
  with True show thesis by (intro that [of b m1]) (simp_all add: packed_def)
next
  case False
  with assms show thesis by (intro that [of False m]) (simp_all add: packed_def from_start_def)
qed

lemma packed_same_method:
  "checksumMethod p' = checksumMethod p \<Longrightarrow> packed deflate stream p' = packed deflate stream p"
  by (simp add: packed_def compression_def fun_eq_iff)

lemma read_header:
  assumes "length (nm_buffer buf) = NETWORKMESSAGE_MAXSIZE"
  shows "getLengthHeader (buf\<lparr>nm_buffer := store 0 (le_bytes 2 (h :: u16)) (nm_buffer buf)\<rparr>) = unat h"
proof -
  have "getLengthHeader (buf\<lparr>nm_buffer := store 0 (le_bytes 2 h) (nm_buffer buf)\<rparr>)
      = wrap16 (unat (le_bytes 2 h ! 0) + 256 * unat (le_bytes 2 h ! 1))"
    using getLengthHeader_store [of buf "le_bytes 2 h" "[]"] assms by simp
  then show ?thesis
    using unsigned_less [of h, where 'a = nat] unfolding unat_le_bytes_2 by (simp add: wrap16_id)
qed

lemma read_frame_complete:
  assumes "length (nm_buffer buf) = NETWORKMESSAGE_MAXSIZE"
    and "frame_size (unat h) = length body" "0 < length body" "length body \<le> 4096"
  shows "read_frame buf (le_bytes 2 (h :: u16) @ body @ rest) = Some (load_frame (le_bytes 2 h) body buf, rest)"
  using assms read_header [OF assms(1), of h] by (simp add: read_frame_def Let_def)

lemma read_frame_refused:
  assumes "length (nm_buffer buf) = NETWORKMESSAGE_MAXSIZE" "4096 < frame_size (unat (h :: u16))"
  shows "read_frame buf (le_bytes 2 h @ rest) = None"
  using assms(2) read_header [OF assms(1), of h] by (simp add: read_frame_def Let_def)

text \<open>A message too long for \<open>parseHeader\<close> is announced as such, also where its padding is dropped.\<close>

lemma long_frame_announced:
  assumes "om_wf m1" "om_start m1 = INITIAL_BUFFER_POSITION" "4088 \<le> nm_length m1"
  shows "\<exists>m2 m3. writePaddingAmount m1 = Some m2 \<and> XTEA_encrypt p m2 = Some m3
    \<and> (\<forall>c. \<exists>h rest. wire_bytes (addCryptoHeader True c m3) = le_bytes 2 (h :: u16) @ rest
        \<and> 4096 < frame_size (unat h))"
proof -
  let ?a = "paddingAmount (nm_length m1)"
  obtain ma where ma: "addPaddingBytes ?a m1 = Some ma" "om_wf ma" "om_start ma = 7" "nm_length m1 \<le> nm_length ma"
    using addPaddingBytes_wf [OF assms(1), of ?a] paddingAmount_less [of "nm_length m1"] assms(2) by auto
  let ?m2 = "add_header [of_nat ?a] ma"
  have m2: "writePaddingAmount m1 = Some ?m2" using ma(1) by (simp add: writePaddingAmount_def Let_def)
  have one: "length [of_nat ?a :: u8] \<le> om_start ma" using ma(3) by simp
  note f2 = add_header_fields [OF ma(2) one] add_header_wf [OF ma(2) one]
  obtain m3 where m3: "XTEA_encrypt p ?m2 = Some m3" "om_wf m3" "om_start m3 = 6" "nm_length ?m2 \<le> nm_length m3"
    using XTEA_encrypt_defined [OF f2(4), of p] f2(2) ma(3) by auto
  have large: "4096 \<le> nm_length m3"
  proof (cases "nm_position m1 + 8 \<le> MAX_BODY_LENGTH")
    case True
    then have "nm_length ?m2 mod 8 = 0"
      using writePaddingAmount_wire [OF assms(1)] assms(2) m2 by auto
    moreover have "4089 \<le> nm_length ?m2" using f2(1) ma(4) assms(3) by simp
    ultimately show ?thesis using m3(4) by presburger
  next
    case False
    then show ?thesis using assms(1,2) ma(4) m3(4) f2(1) by (simp add: om_wf_def)
  qed
  have "\<exists>h rest. wire_bytes (addCryptoHeader True c m3) = le_bytes 2 (h :: u16) @ rest
      \<and> 4096 < frame_size (unat h)" for c
  proof -
    have four: "length (le_bytes 4 c) \<le> om_start m3" using m3(3) by simp
    note f = add_header_fields [OF m3(2) four]
    let ?h = "of_nat (nm_length m3 div 8) :: u16"
    have "wire_bytes (addCryptoHeader True c m3) = le_bytes 2 ?h @ wire_bytes (add_header (le_bytes 4 c) m3)"
      using writeMessageLength_wire [OF add_header_wf [OF m3(2) four]] f m3(3)
      by (simp add: addCryptoHeader_def)
    moreover have len: "nm_length m3 < 65500" using m3(2) by (simp add: om_wf_def)
    moreover have "4096 < frame_size (unat ?h)"
    proof -
      have "unat ?h = nm_length m3 div 8" using len by (simp add: unat_of_nat)
      moreover have "512 \<le> nm_length m3 div 8" using large by simp
      moreover have "nm_length m3 div 8 * 8 + 4 < 65536" using len by presburger
      ultimately show ?thesis by (simp add: frame_size_def wrap16_id)
    qed
    ultimately show ?thesis by blast
  qed
  with m2 m3(1) show ?thesis by blast
qed

text \<open>A frame with the wrong sequence number is skipped; the counter has moved on all the same.\<close>

definition after_receive :: "protocol \<Rightarrow> protocol" where
  "after_receive q = (if checksumMethod q = CHECKSUM_METHOD_SEQUENCE
     then q\<lparr>clientSequenceNumber := nextSequence (clientSequenceNumber q)\<rparr> else q)"

lemma in_sync_after: "in_sync p q \<Longrightarrow> in_sync (after_send p) (after_receive q)"
  by (auto simp: in_sync_def after_send_def after_receive_def nextSequence_less)

lemma onRecvMessage_skips:
  fixes c :: u32
  assumes "length (nm_buffer m) = NETWORKMESSAGE_MAXSIZE" "length header = 2"
    and "length (le_bytes 4 c @ rest) + 2 \<le> NETWORKMESSAGE_MAXSIZE"
    and "checksumMethod q = CHECKSUM_METHOD_SEQUENCE" "c \<noteq> 0" "c \<noteq> clientSequenceNumber q + 1"
  shows "\<exists>r. onRecvMessage q (load_frame header (le_bytes 4 c @ rest) m) = Some (False, after_receive q, r)"
  using load_frame_checksum [OF assms(1-3)] assms(4-6)
  by (simp add: onRecvMessage_def Let_def after_receive_def)

lemma or_bit_31_bit: "bit ((0x80000000 OR s) :: u32) 31"
proof -
  have "(0x80000000 :: u32) = 2 ^ 31" by simp
  then show ?thesis unfolding bit_or_iff by (simp only: bit_exp_iff) simp
qed

lemma marked_sequence:
  assumes "s < (0x7FFFFFFF :: u32)"
  shows "(0x80000000 OR (s + 1)) \<noteq> 0" "(0x80000000 OR (s + 1)) \<noteq> s + 1"
proof -
  have "s + 1 < 0x80000000" using assms by (simp add: word_less_nat_alt unat_word_ariths)
  then have "\<not> bit (s + 1) 31" by (rule bit_31_small)
  with or_bit_31_bit [of "s + 1"] show "(0x80000000 OR (s + 1)) \<noteq> 0" "(0x80000000 OR (s + 1)) \<noteq> s + 1"
    by (metis bit_0_eq bot_apply bot_bool_def) (metis or_bit_31_bit \<open>\<not> bit (s + 1) 31\<close>)
qed

text \<open>One frame of the stream: what the peer makes of it, and that both ends stay in step.\<close>

lemma stream_step:
  assumes "in_sync p q" "from_start m" "length (nm_buffer buf) = NETWORKMESSAGE_MAXSIZE"
  obtains m' buf' where "onSendMessage deflate stream p m = Some (after_send p, m')"
    "length (nm_buffer buf') = NETWORKMESSAGE_MAXSIZE"
    "\<And>rest. receive_stream buf q (wire_bytes m' @ rest) =
       (if \<not> short_frame deflate stream p m then []
        else if compressed deflate stream p m then receive_stream buf' (after_receive q) rest
        else wire_bytes m # receive_stream buf' (after_receive q) rest)"
proof -
  obtain b m1 where m1: "packed deflate stream p m = Some (b, m1)" "om_wf m1"
      "om_start m1 = INITIAL_BUFFER_POSITION"
      "if b then checksumMethod p = CHECKSUM_METHOD_SEQUENCE else m1 = m"
    using packed_defined [OF assms(2)] by blast
  have p: "encryptionEnabled p" "\<not> rawMessages p" "checksumMethod p \<noteq> CHECKSUM_METHOD_NONE"
    and q: "key q = key p" "checksumMethod q = checksumMethod p" "encryptionEnabled q"
      "clientSequenceNumber q = serverSequenceNumber p" "serverSequenceNumber p < 0x7FFFFFFF"
    using assms(1) by (simp_all add: in_sync_def)
  have short: "short_frame deflate stream p m \<longleftrightarrow> nm_length m1 < 4088"
    and comp: "compressed deflate stream p m \<longleftrightarrow> b"
    using m1(1) by (simp_all add: short_frame_def compressed_def)
  show thesis
  proof (cases "nm_length m1 < 4088")
    case False
    then obtain m2 m3 where long: "writePaddingAmount m1 = Some m2" "XTEA_encrypt p m2 = Some m3"
        "\<And>c. \<exists>h rest. wire_bytes (addCryptoHeader True c m3) = le_bytes 2 (h :: u16) @ rest
          \<and> 4096 < frame_size (unat h)"
      using long_frame_announced [OF m1(2,3), of p] by auto
    obtain c where c: "onSendMessage deflate stream p m = Some (after_send p, addCryptoHeader True c m3)"
      using onSendMessage_packed [OF m1(1) long(1,2) p] by blast
    obtain h tail where h: "wire_bytes (addCryptoHeader True c m3) = le_bytes 2 (h :: u16) @ tail"
        "4096 < frame_size (unat h)"
      using long(3) by blast
    have "receive_stream buf q (wire_bytes (addCryptoHeader True c m3) @ rest) = []" for rest
      using read_frame_refused [OF assms(3) h(2), of "tail @ rest"] h(1)
      by (simp add: receive_stream.simps)
    with c assms(3) False short show thesis by (intro that) simp_all
  next
    case True
    define w where "w = wire_bytes m1"
    define c where "c = packed_checksum p b w"
    define h :: u16 where "h = of_nat (length (padded w) div 8)"
    define body where "body = frame_body (key p) c w"
    have lw: "length w = nm_length m1" using m1(2) by (simp add: w_def length_wire_bytes)
    have room: "nm_position m1 + 8 \<le> MAX_BODY_LENGTH" using m1(2,3) True by (simp add: om_wf_def)
    obtain m' where sent: "onSendMessage deflate stream p m = Some (after_send p, m')"
        "wire_bytes m' = le_bytes 2 h @ body"
      using onSendMessage_packed_wire [OF m1(1-3) room p]
      unfolding w_def [symmetric] c_def [symmetric] h_def [symmetric] body_def [symmetric] by blast
    have pad: "length (padded w) \<le> 4092" using length_padded_le [of w] padded_dvd [of w] lw True by presburger
    have lb: "length body = length (padded w) + 4" by (simp add: body_def length_frame_body)
    have fs: "frame_size (unat h) = length body"
      unfolding h_def lb by (rule frame_size_eq [OF padded_dvd]) (use pad in simp)
    have read: "read_frame buf (wire_bytes m' @ rest) = Some (load_frame (le_bytes 2 h) body buf, rest)" for rest
      using read_frame_complete [OF assms(3) fs, of rest] pad lb sent(2) by simp
    let ?f = "load_frame (le_bytes 2 h) body buf"
    have lh: "length (le_bytes 2 h) = 2" by simp
    have fit: "length body + 2 \<le> NETWORKMESSAGE_MAXSIZE" using lb pad by simp
    note lf = load_frame_fields [OF assms(3) lh fit]
    show thesis
    proof (cases b)
      case True
      have seq: "checksumMethod q = CHECKSUM_METHOD_SEQUENCE" using m1(4) True q(2) by simp
      have body: "body = le_bytes 4 c @ xtea_bytes (key p) True (padded w)" by (simp add: body_def frame_body_def)
      have c: "c = 0x80000000 OR (serverSequenceNumber p + 1)"
        using True m1(4) by (simp add: c_def packed_checksum_def)
      obtain r where r: "onRecvMessage q ?f = Some (False, after_receive q, r)"
        using onRecvMessage_skips [OF assms(3) lh _ seq, of c "xtea_bytes (key p) True (padded w)"]
          fit marked_sequence [OF q(5)] unfolding body c q(4) by blast
      have "length (nm_buffer (nm_reset r)) = NETWORKMESSAGE_MAXSIZE" by (simp add: nm_reset_def)
      moreover have "receive_stream buf q (wire_bytes m' @ rest) = receive_stream (nm_reset r) (after_receive q) rest" for rest
        using read [of rest] r by (simp add: receive_stream.simps [of buf])
      ultimately show thesis using that [OF sent(1)] short comp \<open>nm_length m1 < 4088\<close> True by simp
    next
      case False
      then have m: "m1 = m" using m1(4) by simp
      have meth: "(checksumMethod q = CHECKSUM_METHOD_ADLER32
            \<and> c = adlerChecksum (xtea_bytes (key q) True (padded w)) \<and> after_receive q = q)
       \<or> (checksumMethod q = CHECKSUM_METHOD_SEQUENCE
            \<and> c = clientSequenceNumber q + 1 \<and> c \<noteq> 0
            \<and> after_receive q = q\<lparr>clientSequenceNumber := nextSequence (clientSequenceNumber q)\<rparr>)"
        using p(3) q False Suc_seq_nonzero [OF q(5)]
        by (cases "checksumMethod p") (simp_all add: c_def packed_checksum_def after_receive_def)
      have small: "length w + 14 \<le> NETWORKMESSAGE_MAXSIZE" using lw \<open>nm_length m1 < 4088\<close> by simp
      obtain r where r: "onRecvMessage q ?f = Some (True, after_receive q, r)"
          "nm_position r = 7" "nm_length r = length w + 1" "window 7 (length w) (nm_buffer r) = w"
        using onRecvMessage_frame [OF assms(3) lh small q(3) meth] unfolding q(1) body_def by blast
      have "keeps_buffer ?f r"
        using onRecvMessage_defined [OF lf(3,1), of q] lf(2) lb pad r(1) by auto
      then have "length (nm_buffer r) = NETWORKMESSAGE_MAXSIZE" using lf(3) by (simp add: keeps_buffer_def)
      moreover have "receive_stream buf q (wire_bytes m' @ rest)
          = wire_bytes m # receive_stream r (after_receive q) rest" for rest
        using read [of rest] r m by (simp add: receive_stream.simps [of buf] w_def)
      ultimately show thesis using that [OF sent(1)] short comp \<open>nm_length m1 < 4088\<close> False by simp
    qed
  qed
qed

text \<open>A list of messages framed one after the other.\<close>

fun frame_session :: "(u8 list \<Rightarrow> u8 list option) \<Rightarrow> bool \<Rightarrow> protocol \<Rightarrow> outmsg list
    \<Rightarrow> (protocol \<times> u8 list list) option" where
  "frame_session deflate stream p [] = Some (p, [])"
| "frame_session deflate stream p (m # ms) = (case onSendMessage deflate stream p m of
      None \<Rightarrow> None
    | Some (p', m') \<Rightarrow> map_option (\<lambda>(p'', fs). (p'', wire_bytes m' # fs)) (frame_session deflate stream p' ms))"

lemma receive_stream_Nil: "receive_stream buf q [] = []"
  by (simp add: receive_stream.simps read_frame_def)

lemma peer_bodies_method:
  assumes "checksumMethod p' = checksumMethod p"
  shows "peer_bodies deflate stream p' = peer_bodies deflate stream p"
proof -
  have "short_frame deflate stream p' = short_frame deflate stream p"
    "compressed deflate stream p' = compressed deflate stream p"
    by (simp_all add: fun_eq_iff short_frame_def compressed_def packed_same_method [OF assms])
  then show ?thesis by (intro ext) (simp only: peer_bodies_def)
qed

lemma peer_bodies_Cons: "peer_bodies deflate stream p (m # ms) =
    (if \<not> short_frame deflate stream p m then []
     else if compressed deflate stream p m then peer_bodies deflate stream p ms
     else wire_bytes m # peer_bodies deflate stream p ms)"
  by (simp add: peer_bodies_def)

lemma frame_session_received:
  assumes "in_sync p q" "length (nm_buffer buf) = NETWORKMESSAGE_MAXSIZE"
    and "\<forall>m \<in> set ms. from_start m"
  shows "\<exists>p' frames. frame_session deflate stream p ms = Some (p', frames)
    \<and> length frames = length ms
    \<and> receive_stream buf q (concat frames) = peer_bodies deflate stream p ms"
  using assms
proof (induction ms arbitrary: p q buf)
  case Nil
  then show ?case by (simp add: receive_stream_Nil peer_bodies_def)
next
  case (Cons m ms)
  have "from_start m" using Cons.prems(3) by simp
  then obtain m' buf' where m': "onSendMessage deflate stream p m = Some (after_send p, m')"
    "length (nm_buffer buf') = NETWORKMESSAGE_MAXSIZE"
    "\<And>rest. receive_stream buf q (wire_bytes m' @ rest) =
       (if \<not> short_frame deflate stream p m then []
        else if compressed deflate stream p m then receive_stream buf' (after_receive q) rest
        else wire_bytes m # receive_stream buf' (after_receive q) rest)"
    using stream_step [OF Cons.prems(1) _ Cons.prems(2)] by blast
  obtain p' frames where fs: "frame_session deflate stream (after_send p) ms = Some (p', frames)"
    "length frames = length ms"
    "receive_stream buf' (after_receive q) (concat frames) = peer_bodies deflate stream (after_send p) ms"
    using Cons.IH [OF in_sync_after [OF Cons.prems(1)] m'(2)] Cons.prems(3) by auto
  have "peer_bodies deflate stream (after_send p) ms = peer_bodies deflate stream p ms"
    using peer_bodies_method [of "after_send p" p deflate stream] by (simp add: after_send_def)
  with m' fs show ?case by (simp add: peer_bodies_Cons)
qed

section \<open>Properties\<close>



text \<open>
  One frame in detail: the length header announces exactly the bytes that follow it
  (what \<open>Connection::parseHeader\<close> reads next), the receiver accepts the frame and
  keeps step with the sender, the cursor stands on the first byte of the body, and the
  length it is given is one more than the body's, so \<open>canRead\<close> still admits one byte of
  padding behind the body.
\<close>
theorem frame_roundtrip:
  assumes "in_sync p q" "sendable deflate stream p m" "length (nm_buffer buf) = NETWORKMESSAGE_MAXSIZE"
  shows "\<exists>p' m' q' r. onSendMessage deflate stream p m = Some (p', m')
    \<and> frame_size (getLengthHeader (load_frame (take 2 (wire_bytes m')) (drop 2 (wire_bytes m')) buf))
        = length (drop 2 (wire_bytes m'))
    \<and> onRecvMessage q (load_frame (take 2 (wire_bytes m')) (drop 2 (wire_bytes m')) buf) = Some (True, q', r)
    \<and> in_sync p' q' \<and> nm_position r = 7 \<and> nm_length r = nm_length m + 1
    \<and> window 7 (nm_length m) (nm_buffer r) = wire_bytes m
    \<and> canRead (int (nm_length m) + 1) r \<and> \<not> canRead (int (nm_length m) + 2) r"
proof -
  let ?n = "length (padded (wire_bytes m))"
  obtain p' q' r where tr: "transmit deflate stream buf m (p, q) = Some (p', q', r)" "in_sync p' q'"
      "nm_position r = 7" "nm_length r = nm_length m + 1"
      "window 7 (nm_length m) (nm_buffer r) = wire_bytes m"
    using transmit_step [OF assms] by blast
  obtain p'' m' where sent: "onSendMessage deflate stream p m = Some (p'', m')"
      "wire_bytes m' = le_bytes 2 (of_nat (?n div 8) :: u16)
         @ frame_body (key p) (checksum_for p (wire_bytes m)) (wire_bytes m)"
    using onSendMessage_wire [of m deflate stream p] assms(1,2)
    unfolding in_sync_def sendable_def by blast
  have "om_wf m" "nm_position m + 8 \<le> MAX_BODY_LENGTH" using assms(2) by (auto simp: sendable_def)
  then have "?n < 65532"
    using length_padded_le [of "wire_bytes m"] length_wire_bytes [of m] by (simp add: om_wf_def)
  then have "frame_size (unat (of_nat (?n div 8) :: u16)) = ?n + 4"
    by (intro frame_size_eq padded_dvd)
  then have "frame_size (getLengthHeader (load_frame (take 2 (wire_bytes m')) (drop 2 (wire_bytes m')) buf))
      = length (drop 2 (wire_bytes m'))"
    using load_frame_header [of buf "of_nat (?n div 8) :: u16"] sent(2) assms(3)
    by (simp add: length_frame_body)
  with tr sent show ?thesis
    by (auto simp: transmit_def Let_def canRead_def split: option.splits prod.splits bool.splits)
qed

theorem frame_roundtrip_witness:
  "\<exists>p' m' q' r. onSendMessage (\<lambda>_. None) False
      \<lparr>key = [1, 2, 3, 4], serverSequenceNumber = 8, clientSequenceNumber = 0,
         checksumMethod = CHECKSUM_METHOD_ADLER32, encryptionEnabled = True, rawMessages = False\<rparr>
      (nm_put [30] om_new) = Some (p', m')
    \<and> frame_size (getLengthHeader (load_frame (take 2 (wire_bytes m')) (drop 2 (wire_bytes m')) nm_new))
        = length (drop 2 (wire_bytes m'))
    \<and> onRecvMessage \<lparr>key = [1, 2, 3, 4], serverSequenceNumber = 0, clientSequenceNumber = 8,
         checksumMethod = CHECKSUM_METHOD_ADLER32, encryptionEnabled = True, rawMessages = True\<rparr>
        (load_frame (take 2 (wire_bytes m')) (drop 2 (wire_bytes m')) nm_new) = Some (True, q', r)
    \<and> in_sync p' q' \<and> nm_position r = 7 \<and> nm_length r = nm_length (nm_put [30] om_new) + 1
    \<and> window 7 (nm_length (nm_put [30] om_new)) (nm_buffer r) = wire_bytes (nm_put [30] om_new)
    \<and> canRead (int (nm_length (nm_put [30] om_new)) + 1) r
    \<and> \<not> canRead (int (nm_length (nm_put [30] om_new)) + 2) r"
proof (rule frame_roundtrip)
  have "nm_position om_new = 7" "nm_length om_new = 0" "om_start om_new = 7"
    by (simp_all add: om_new_def)
  then show "sendable (\<lambda>_. None) False
      \<lparr>key = [1, 2, 3, 4], serverSequenceNumber = 8, clientSequenceNumber = 0,
         checksumMethod = CHECKSUM_METHOD_ADLER32, encryptionEnabled = True, rawMessages = False\<rparr>
      (nm_put [30] om_new)"
    using nm_put_om [OF om_new_wf, of "[30]"] by (auto simp: sendable_def uncompressed_def om_wf_def)
qed (simp_all add: in_sync_def nm_new_def)

text \<open>
  Sequence numbers: sending and receiving keep both counters below \<open>0x7FFFFFFF\<close>, for
  every outcome of the call, so the number put in a frame never reaches bit 31, the bit
  that marks a compressed body, and is never 0, the number of the connection ping.
\<close>
theorem sequence_numbers_in_range:
  assumes "serverSequenceNumber p < 0x7FFFFFFF" "clientSequenceNumber p < 0x7FFFFFFF"
  shows "\<not> bit (serverSequenceNumber p + 1) 31 \<and> serverSequenceNumber p + 1 \<noteq> 0
    \<and> (case onSendMessage deflate stream p m of None \<Rightarrow> True
       | Some (p', _) \<Rightarrow> serverSequenceNumber p' < 0x7FFFFFFF)
    \<and> (case onRecvMessage p r of None \<Rightarrow> True
       | Some (_, p', _) \<Rightarrow> clientSequenceNumber p' < 0x7FFFFFFF)"
proof -
  have "serverSequenceNumber p + 1 < 0x80000000"
    using assms(1) by (simp add: word_less_nat_alt unat_word_ariths)
  then show ?thesis
    using bit_31_small Suc_seq_nonzero [OF assms(1)] onSendMessage_sequence [OF assms(1)]
      onRecvMessage_sequence [OF assms(2)]
    by (auto split: option.splits)
qed

theorem sequence_numbers_in_range_witness:
  "\<not> bit (0x7FFFFFFE + 1 :: u32) 31 \<and> (0x7FFFFFFE + 1 :: u32) \<noteq> 0"
  using sequence_numbers_in_range [of "\<lparr>key = [], serverSequenceNumber = 0x7FFFFFFE,
    clientSequenceNumber = 3, checksumMethod = CHECKSUM_METHOD_SEQUENCE, encryptionEnabled = True,
    rawMessages = False\<rparr>"]
  by simp

end
