(* ===== verification/Services.thy ===== *)
theory Services
  imports Network_Message
begin

text \<open>
  The services behind the listening ports (src/src/server/server.hpp and .cpp): which
  protocols may share a port (\<open>ServiceManager::add\<close>, \<open>ServicePort::add_service\<close>) and which
  one answers the first packet of a connection (\<open>ServicePort::make_protocol\<close>). Opening and
  accepting sockets is left to the operating system; a service is what its protocol type
  declares: \<open>SERVER_SENDS_FIRST\<close>, \<open>USE_CHECKSUM\<close>, \<open>PROTOCOL_IDENTIFIER\<close> and its name.
\<close>

record service =
  is_single_socket :: bool
  is_checksummed :: bool
  protocol_identifier :: u8
  protocol_name :: string

definition port_is_single_socket :: "service list \<Rightarrow> bool" where
  "port_is_single_socket services = (services \<noteq> [] \<and> is_single_socket (hd services))"

fun join_names :: "service list \<Rightarrow> string" where
  "join_names [] = []"
| "join_names (s # ss) = '', '' @ protocol_name s @ join_names ss"

definition get_protocol_names :: "service list \<Rightarrow> string" where
  "get_protocol_names services = (case services of
      [] \<Rightarrow> []
    | s # ss \<Rightarrow> protocol_name s @ join_names ss)"

definition add_service :: "service \<Rightarrow> service list \<Rightarrow> bool \<times> service list" where
  "add_service new_svc services =
     (if \<exists>s \<in> set services. is_single_socket s then (False, services)
      else (True, services @ [new_svc]))"

text \<open>The first service with the packet's identifier whose checksum demand is met.\<close>

fun find_service :: "bool \<Rightarrow> u8 \<Rightarrow> service list \<Rightarrow> service option" where
  "find_service checksummed protocolID [] = None"
| "find_service checksummed protocolID (s # ss) =
     (if protocolID \<noteq> protocol_identifier s then find_service checksummed protocolID ss
      else if (checksummed \<and> is_checksummed s) \<or> \<not> is_checksummed s then Some s
      else find_service checksummed protocolID ss)"

definition make_protocol ::
    "service list \<Rightarrow> bool \<Rightarrow> netmsg \<Rightarrow> service option \<times> netmsg" where
  "make_protocol services checksummed msg =
     (let (protocolID, msg') = getByte msg in (find_service checksummed protocolID services, msg'))"

text \<open>\<open>ServiceManager\<close>: the acceptors by port.\<close>

type_synonym acceptors = "u16 \<rightharpoonup> service list"

definition manager_add :: "u16 \<Rightarrow> service \<Rightarrow> acceptors \<Rightarrow> bool \<times> acceptors" where
  "manager_add port svc acc =
     (if port = 0 then (False, acc)
      else case acc port of
          None \<Rightarrow> (let (ok, ss) = add_service svc [] in (ok, acc(port \<mapsto> ss)))
        | Some services \<Rightarrow>
            if port_is_single_socket services \<or> is_single_socket svc then (False, acc)
            else (let (ok, ss) = add_service svc services in (ok, acc(port \<mapsto> ss))))"

definition is_running :: "acceptors \<Rightarrow> bool" where
  "is_running acc \<longleftrightarrow> acc \<noteq> Map.empty"

fun manager_adds :: "(u16 \<times> service) list \<Rightarrow> acceptors \<Rightarrow> acceptors" where
  "manager_adds [] acc = acc"
| "manager_adds ((port, svc) # ps) acc = manager_adds ps (snd (manager_add port svc acc))"

section \<open>Who shares a port\<close>

definition port_ok :: "service list \<Rightarrow> bool" where
  "port_ok services \<longleftrightarrow> services \<noteq> []
     \<and> ((\<exists>s. services = [s]) \<or> (\<forall>s \<in> set services. \<not> is_single_socket s))"

lemma manager_add_ok:
  assumes "\<forall>services \<in> ran acc. port_ok services"
  shows "\<forall>services \<in> ran (snd (manager_add port svc acc)). port_ok services"
  using assms
  by (cases "acc port")
    (auto simp: manager_add_def add_service_def Let_def ran_def port_ok_def
      port_is_single_socket_def split: if_splits)

lemma manager_adds_ok:
  "\<forall>services \<in> ran acc. port_ok services
    \<Longrightarrow> \<forall>services \<in> ran (manager_adds ps acc). port_ok services"
proof (induction ps acc rule: manager_adds.induct)
  case (1 acc)
  then show ?case by (simp only: manager_adds.simps)
next
  case (2 port svc ps acc)
  show ?case unfolding manager_adds.simps by (rule 2(1) [OF manager_add_ok [OF 2(2)]])
qed

lemma find_service_sound:
  "find_service c i ss = Some s \<Longrightarrow>
    s \<in> set ss \<and> protocol_identifier s = i \<and> (is_checksummed s \<longrightarrow> c)"
  by (induction ss) (auto split: if_splits)

lemma find_service_None:
  "find_service c i ss = None \<longleftrightarrow>
    (\<forall>s \<in> set ss. protocol_identifier s = i \<longrightarrow> is_checksummed s \<and> \<not> c)"
  by (induction ss) auto

section \<open>Properties\<close>

text \<open>
  A protocol in which the server speaks first never shares its port: whatever
  services are added on whatever ports, in any order, every open port either has exactly
  one service or only services that wait for the client; and no port has none.
\<close>
theorem single_socket_is_alone:
  "\<forall>services \<in> ran (manager_adds adds Map.empty). services \<noteq> []
    \<and> ((\<exists>s. services = [s]) \<or> (\<forall>s \<in> set services. \<not> is_single_socket s))"
  using manager_adds_ok [of Map.empty adds] by (simp add: port_ok_def)

theorem single_socket_is_alone_witness:
  "\<exists>services. manager_adds
      [(7171, \<lparr>is_single_socket = False, is_checksummed = True, protocol_identifier = 1, protocol_name = ''login''\<rparr>),
       (7171, \<lparr>is_single_socket = True, is_checksummed = True, protocol_identifier = 0, protocol_name = ''game''\<rparr>),
       (7171, \<lparr>is_single_socket = False, is_checksummed = False, protocol_identifier = 255, protocol_name = ''status''\<rparr>)]
      Map.empty 7171 = Some services
    \<and> length services = 2 \<and> (\<forall>s \<in> set services. \<not> is_single_socket s)"
proof -
  let ?adds = "[(7171 :: u16, \<lparr>is_single_socket = False, is_checksummed = True, protocol_identifier = 1, protocol_name = ''login''\<rparr>),
       (7171, \<lparr>is_single_socket = True, is_checksummed = True, protocol_identifier = 0, protocol_name = ''game''\<rparr>),
       (7171, \<lparr>is_single_socket = False, is_checksummed = False, protocol_identifier = 255, protocol_name = ''status''\<rparr>)]"
  obtain services where s: "manager_adds ?adds Map.empty 7171 = Some services" "length services = 2"
    by (simp add: manager_add_def add_service_def port_is_single_socket_def)
  from s(1) have "services \<in> ran (manager_adds ?adds Map.empty)" by (rule ranI)
  with single_socket_is_alone [of ?adds] s show ?thesis by (intro exI [of _ services]) auto
qed

end
