(* ===== verification/Connection.thy ===== *)
theory Connection
  imports Protocol Services
begin

text \<open>
  \<open>Connection\<close> (src/src/server/network/connection/connection.hpp and .cpp): one socket, the
  queue of outgoing messages, the read cycle (identification, header, body, packet) and
  closing. Every handler is one atomic step under \<open>connectionLock\<close>. Asio is modelled by
  what it has pending: posted workers, writes in flight, reads in flight, running timers.
  The flag \<open>thrown\<close> of a handler says that its asio call threw \<open>std::system_error\<close>.
  A handler returns \<open>None\<close> where the C++ would dereference a null protocol, pop an empty
  queue or leave a buffer; the invariants show when it cannot.
\<close>

datatype connection_state =
    CONNECTION_STATE_OPEN | CONNECTION_STATE_IDENTIFYING
  | CONNECTION_STATE_READINGS | CONNECTION_STATE_CLOSED

datatype read_request = Rq_Identification nat | Rq_Header | Rq_Body nat

record conn =
  cn_state :: connection_state
  cn_queue :: "outmsg list"
  cn_protocol :: "protocol option"
  cn_socket :: bool
  cn_msg :: netmsg
  cn_timeConnected :: int
  cn_packetsSent :: u32
  cn_ip :: u32
  cn_receivedFirst :: bool
  cn_readTimer :: bool
  cn_writeTimer :: bool
  cn_workers :: nat
  cn_writes :: "u8 list list"
  cn_written :: "u8 list list"
  cn_reads :: "read_request list"
  cn_dispatched :: nat
  cn_releases :: nat
  cn_challenges :: nat

text \<open>
  What the connection is configured with: zlib, the \<open>SERVER_NAME\<close> and
  \<open>MAX_PACKETS_PER_SECOND\<close> settings, the services of its port and the handler
  \<open>onRecvFirstMessage\<close> of the derived protocol.
\<close>

record conn_env =
  env_deflate :: "u8 list \<Rightarrow> u8 list option"
  env_stream :: bool
  env_serverName :: "u8 list"
  env_maxPps :: u32
  env_services :: "service list"
  env_first :: "protocol \<Rightarrow> netmsg \<Rightarrow> protocol \<times> netmsg"

definition conn_new :: "int \<Rightarrow> conn" where
  "conn_new now = \<lparr>cn_state = CONNECTION_STATE_OPEN, cn_queue = [], cn_protocol = None,
     cn_socket = True, cn_msg = nm_new, cn_timeConnected = now, cn_packetsSent = 0, cn_ip = 1,
     cn_receivedFirst = False, cn_readTimer = False, cn_writeTimer = False, cn_workers = 0,
     cn_writes = [], cn_written = [], cn_reads = [], cn_dispatched = 0, cn_releases = 0,
     cn_challenges = 0\<rparr>"

section \<open>Closing\<close>

definition closeSocket :: "conn \<Rightarrow> conn" where
  "closeSocket c =
     (if \<not> cn_socket c then c
      else c\<lparr>cn_readTimer := False, cn_writeTimer := False, cn_socket := False\<rparr>)"

definition conn_close :: "bool \<Rightarrow> conn \<Rightarrow> conn" where
  "conn_close force c0 =
     (let c = c0\<lparr>cn_ip := 0\<rparr>
      in if cn_state c = CONNECTION_STATE_CLOSED then c
         else
           let c1 = c\<lparr>cn_state := CONNECTION_STATE_CLOSED,
                 cn_releases := cn_releases c + (if cn_protocol c = None then 0 else 1)\<rparr>
           in if cn_queue c1 = [] \<or> force then closeSocket c1 else c1)"

text \<open>\<open>handleTimeout\<close> of a timer that was not cancelled.\<close>

definition handleTimeout :: "conn \<Rightarrow> conn" where
  "handleTimeout c = conn_close True c"

text \<open>\<open>getIP\<close>; \<open>endpoint\<close> is the peer's address, \<open>None\<close> when the socket reports an error.\<close>

definition conn_getIP :: "u32 option \<Rightarrow> conn \<Rightarrow> u32 \<times> conn" where
  "conn_getIP endpoint c =
     (let c' = (if cn_ip c = 1 then c\<lparr>cn_ip := (case endpoint of None \<Rightarrow> 0 | Some a \<Rightarrow> a)\<rparr> else c)
      in (cn_ip c', c'))"

section \<open>Writing\<close>

definition conn_send :: "bool \<Rightarrow> outmsg \<Rightarrow> conn \<Rightarrow> conn" where
  "conn_send thrown outputMessage c =
     (if cn_state c = CONNECTION_STATE_CLOSED then c
      else
        let noPendingWrite = (cn_queue c = []);
            c1 = c\<lparr>cn_queue := cn_queue c @ [outputMessage]\<rparr>
        in if noPendingWrite then
             if cn_socket c1 then
               if thrown then conn_close True c1 else c1\<lparr>cn_workers := cn_workers c1 + 1\<rparr>
             else conn_close True c1
           else c1)"

definition internalSend :: "bool \<Rightarrow> outmsg \<Rightarrow> conn \<Rightarrow> conn" where
  "internalSend thrown outputMessage c =
     (let c1 = c\<lparr>cn_writeTimer := True\<rparr>
      in if thrown then conn_close True c1
         else c1\<lparr>cn_writes := cn_writes c1 @ [wire_bytes outputMessage]\<rparr>)"

text \<open>
  \<open>onSendMessage\<close> frames the front message in place, and \<open>internalSend\<close> starts the write.
\<close>

definition send_front :: "conn_env \<Rightarrow> bool \<Rightarrow> conn \<Rightarrow> conn option" where
  "send_front env thrown c =
     (case cn_protocol c of
        None \<Rightarrow> None
      | Some p \<Rightarrow> (case onSendMessage (env_deflate env) (env_stream env) p (hd (cn_queue c)) of
          None \<Rightarrow> None
        | Some (p', m') \<Rightarrow>
            Some (internalSend thrown m'
              (c\<lparr>cn_queue := m' # tl (cn_queue c), cn_protocol := Some p'\<rparr>))))"

definition internalWorker :: "conn_env \<Rightarrow> bool \<Rightarrow> conn \<Rightarrow> conn option" where
  "internalWorker env thrown c =
     (if cn_queue c = [] then
        Some (if cn_state c = CONNECTION_STATE_CLOSED then closeSocket c else c)
      else send_front env thrown c)"

definition onWriteOperation :: "conn_env \<Rightarrow> bool \<Rightarrow> bool \<Rightarrow> conn \<Rightarrow> conn option" where
  "onWriteOperation env error thrown c0 =
     (let c = c0\<lparr>cn_writeTimer := False\<rparr>
      in if error then Some (conn_close True (c\<lparr>cn_queue := []\<rparr>))
         else if cn_queue c = [] then None
         else
           let c1 = c\<lparr>cn_queue := tl (cn_queue c)\<rparr>
           in if cn_queue c1 \<noteq> [] then send_front env thrown c1
              else Some (if cn_state c1 = CONNECTION_STATE_CLOSED then closeSocket c1 else c1))"

section \<open>Reading\<close>

definition start_read :: "bool \<Rightarrow> read_request \<Rightarrow> conn \<Rightarrow> conn" where
  "start_read thrown r c =
     (if thrown then conn_close True c else c\<lparr>cn_reads := cn_reads c @ [r]\<rparr>)"

definition acceptInternal :: "bool \<Rightarrow> bool \<Rightarrow> conn \<Rightarrow> conn" where
  "acceptInternal thrown toggleParseHeader c =
     start_read thrown (if toggleParseHeader then Rq_Header else Rq_Identification HEADER_LENGTH)
       (c\<lparr>cn_readTimer := True\<rparr>)"

definition conn_accept :: "bool \<Rightarrow> protocol \<Rightarrow> conn \<Rightarrow> conn" where
  "conn_accept thrown p c =
     acceptInternal thrown False
       (c\<lparr>cn_state := CONNECTION_STATE_IDENTIFYING, cn_protocol := Some p,
          cn_challenges := cn_challenges c + 1\<rparr>)"

definition resumeWork :: "bool \<Rightarrow> conn \<Rightarrow> conn" where
  "resumeWork thrown c = start_read thrown Rq_Header (c\<lparr>cn_readTimer := True\<rparr>)"

text \<open>\<open>timePassed\<close>, a \<open>uint32_t\<close> computed from \<open>time_t\<close> values.\<close>

definition timePassed :: "int \<Rightarrow> conn \<Rightarrow> u32" where
  "timePassed now c = max 1 (of_int (now - cn_timeConnected c + 1))"

definition parseHeader :: "conn_env \<Rightarrow> bool \<Rightarrow> bool \<Rightarrow> int \<Rightarrow> bool \<Rightarrow> conn \<Rightarrow> conn" where
  "parseHeader env thrown error now loading c0 =
     (let c = c0\<lparr>cn_readTimer := False\<rparr>
      in if error then conn_close True c
         else if cn_state c = CONNECTION_STATE_CLOSED then c
         else
           let passed = timePassed now c;
               maxPps = (if loading then env_maxPps env * 10 else env_maxPps env);
               c1 = c\<lparr>cn_packetsSent := cn_packetsSent c + 1\<rparr>
           in if cn_packetsSent c1 div passed > maxPps then conn_close False c1
              else
                let c2 = (if passed > 2 then c1\<lparr>cn_timeConnected := now, cn_packetsSent := 0\<rparr> else c1);
                    size0 = getLengthHeader (cn_msg c2);
                    size1 = (if cn_protocol c2 \<noteq> None then frame_size size0 else size0)
                in if size1 = 0 \<or> size1 > 4096 then conn_close True c2
                   else start_read thrown (Rq_Body size1)
                     (c2\<lparr>cn_readTimer := True,
                         cn_msg := snd (getBodyBuffer (setLength (size1 + HEADER_LENGTH) (cn_msg c2)))\<rparr>))"

text \<open>\<open>strncasecmp(a, b, n) == 0\<close> on NUL-terminated strings (the end of the list is a NUL).\<close>

definition to_lower :: "u8 \<Rightarrow> u8" where
  "to_lower b = (if 65 \<le> b \<and> b \<le> 90 then b + 32 else b)"

fun strncaseeq :: "nat \<Rightarrow> u8 list \<Rightarrow> u8 list \<Rightarrow> bool" where
  "strncaseeq 0 a b = True"
| "strncaseeq (Suc n) a b =
     (let x = (case a of [] \<Rightarrow> 0 | c # _ \<Rightarrow> c); y = (case b of [] \<Rightarrow> 0 | c # _ \<Rightarrow> c)
      in if to_lower x \<noteq> to_lower y then False
         else if x = 0 then True
         else strncaseeq n (tl a) (tl b))"

text \<open>The subtraction \<open>length() - 2\<close> is in \<open>size_t\<close>.\<close>

definition identification_rest :: "u8 list \<Rightarrow> nat" where
  "identification_rest serverName = nat ((int (length serverName) - 2) mod 18446744073709551616)"

definition parseProxyIdentification ::
    "conn_env \<Rightarrow> bool \<Rightarrow> bool \<Rightarrow> int \<Rightarrow> bool \<Rightarrow> conn \<Rightarrow> conn" where
  "parseProxyIdentification env thrown error now loading c0 =
     (let c = c0\<lparr>cn_readTimer := False\<rparr>
      in if error \<or> cn_state c = CONNECTION_STATE_CLOSED then conn_close True c
         else
           let serverName = env_serverName env @ [10]; buf = nm_buffer (cn_msg c);
               remainder = identification_rest serverName
           in case cn_state c of
               CONNECTION_STATE_IDENTIFYING \<Rightarrow>
                 if buf ! 1 = 0 \<or> \<not> strncaseeq 2 buf serverName then
                   parseHeader env thrown error now loading (c\<lparr>cn_state := CONNECTION_STATE_OPEN\<rparr>)
                 else if remainder > 0 then
                   start_read thrown (Rq_Identification remainder)
                     (c\<lparr>cn_state := CONNECTION_STATE_READINGS, cn_readTimer := True\<rparr>)
                 else acceptInternal thrown True (c\<lparr>cn_state := CONNECTION_STATE_OPEN\<rparr>)
             | CONNECTION_STATE_READINGS \<Rightarrow>
                 if strncaseeq remainder buf (drop 2 serverName)
                 then acceptInternal thrown True (c\<lparr>cn_state := CONNECTION_STATE_OPEN\<rparr>)
                 else conn_close True c
             | _ \<Rightarrow> acceptInternal thrown True c)"

text \<open>The checksum of what follows a checksum that has not been read yet.\<close>

definition first_checksum :: "netmsg \<Rightarrow> u32 option" where
  "first_checksum m =
     (let len = int (nm_length m) - int (nm_position m) - int CHECKSUM_LENGTH;
          start = nm_position m + CHECKSUM_LENGTH
      in if len > 0 then
           if length (nm_buffer m) < start + nat len then None
           else Some (adlerChecksum (window start (nat len) (nm_buffer m)))
         else Some 0)"

definition first_packet :: "conn_env \<Rightarrow> conn \<Rightarrow> conn option" where
  "first_packet env c =
     (case cn_protocol c of
        None \<Rightarrow> (case first_checksum (cn_msg c) of
            None \<Rightarrow> None
          | Some checksum \<Rightarrow> (case read_int nm_get 4 (cn_msg c) of
              None \<Rightarrow> None
            | Some (recvChecksum :: u32, m1) \<Rightarrow>
                let m2 = (if recvChecksum \<noteq> checksum then skipBytes (- int CHECKSUM_LENGTH) m1 else m1);
                    (svc, m3) = make_protocol (env_services env) (recvChecksum = checksum) m2
                in case svc of
                    None \<Rightarrow> Some (conn_close True (c\<lparr>cn_msg := m3, cn_receivedFirst := True\<rparr>))
                  | Some s \<Rightarrow>
                      let (p, m4) = env_first env new_protocol m3
                      in Some (c\<lparr>cn_msg := m4, cn_receivedFirst := True, cn_protocol := Some p\<rparr>)))
      | Some p0 \<Rightarrow> (case read_int nm_get 4 (cn_msg c) of
            None \<Rightarrow> None
          | Some (ignored :: u32, m1) \<Rightarrow>
              let (p, m2) = env_first env p0 (skipBytes 2 m1)
              in Some (c\<lparr>cn_msg := m2, cn_receivedFirst := True, cn_protocol := Some p\<rparr>)))"

definition next_read :: "bool \<Rightarrow> bool \<Rightarrow> conn \<Rightarrow> conn" where
  "next_read thrown skipReadingNextPacket c =
     (let c1 = c\<lparr>cn_readTimer := True\<rparr>
      in if skipReadingNextPacket then c1
         else start_read thrown Rq_Header (c1\<lparr>cn_msg := nm_reset (cn_msg c1)\<rparr>))"

definition conn_parsePacket :: "conn_env \<Rightarrow> bool \<Rightarrow> bool \<Rightarrow> conn \<Rightarrow> conn option" where
  "conn_parsePacket env thrown error c0 =
     (let c = c0\<lparr>cn_readTimer := False\<rparr>
      in if error \<or> cn_state c = CONNECTION_STATE_CLOSED then Some (conn_close True c)
         else if \<not> cn_receivedFirst c then
           (case first_packet env c of
              None \<Rightarrow> None
            | Some c1 \<Rightarrow> Some (if cn_protocol c1 = None then c1 else next_read thrown False c1))
         else
           (case cn_protocol c of
              None \<Rightarrow> None
            | Some p \<Rightarrow> (case onRecvMessage p (cn_msg c) of
                None \<Rightarrow> None
              | Some (skip, p', m') \<Rightarrow>
                  Some (next_read thrown skip
                    (c\<lparr>cn_protocol := Some p', cn_msg := m',
                       cn_dispatched := cn_dispatched c + (if skip then 1 else 0)\<rparr>)))))"

section \<open>Events\<close>

text \<open>
  What can happen to a connection: calls from the dispatcher (\<open>send\<close>, \<open>close\<close>), the
  completion of what asio has pending, the parse event a packet posted (\<open>alive\<close>: protocol
  and connection still exist; its reads only move the cursor, here to \<open>cursor\<close>), and timers.
\<close>

datatype conn_event =
    Ev_Send bool outmsg
  | Ev_Close bool
  | Ev_Worker bool
  | Ev_WriteDone bool bool
  | Ev_ReadDone bool bool "u8 list" int bool
  | Ev_Dispatch bool bool nat
  | Ev_ReadTimeout
  | Ev_WriteTimeout

fun read_size :: "read_request \<Rightarrow> nat" where
  "read_size (Rq_Identification n) = n"
| "read_size Rq_Header = HEADER_LENGTH"
| "read_size (Rq_Body n) = n"

text \<open>
  \<open>asio::async_read\<close> writes what it has read behind a pointer into the buffer of the message;
  \<open>None\<close> when that leaves the buffer.
\<close>

definition receive_bytes :: "read_request \<Rightarrow> u8 list \<Rightarrow> netmsg \<Rightarrow> netmsg option" where
  "receive_bytes r bytes m =
     (let start = (case r of Rq_Body n \<Rightarrow> HEADER_LENGTH | _ \<Rightarrow> 0)
      in if length (nm_buffer m) < start + length bytes then None
         else Some (m\<lparr>nm_buffer := store start bytes (nm_buffer m)\<rparr>))"

fun conn_enabled :: "conn_event \<Rightarrow> conn \<Rightarrow> bool" where
  "conn_enabled (Ev_Send thrown m) c \<longleftrightarrow> cn_protocol c \<noteq> None \<and> om_wf m"
| "conn_enabled (Ev_Close force) c \<longleftrightarrow> True"
| "conn_enabled (Ev_Worker thrown) c \<longleftrightarrow> 0 < cn_workers c"
| "conn_enabled (Ev_WriteDone error thrown) c \<longleftrightarrow> cn_writes c \<noteq> []"
| "conn_enabled (Ev_ReadDone thrown error bytes now loading) c \<longleftrightarrow>
     cn_reads c \<noteq> [] \<and> length bytes = read_size (hd (cn_reads c))"
| "conn_enabled (Ev_Dispatch alive thrown cursor) c \<longleftrightarrow> 0 < cn_dispatched c \<and> cursor < 65536"
| "conn_enabled Ev_ReadTimeout c \<longleftrightarrow> cn_readTimer c"
| "conn_enabled Ev_WriteTimeout c \<longleftrightarrow> cn_writeTimer c"

definition read_done ::
    "conn_env \<Rightarrow> bool \<Rightarrow> bool \<Rightarrow> u8 list \<Rightarrow> int \<Rightarrow> bool \<Rightarrow> conn \<Rightarrow> conn option" where
  "read_done env thrown error bytes now loading c0 =
     (let r = hd (cn_reads c0)
      in case (if error then Some (cn_msg c0) else receive_bytes r bytes (cn_msg c0)) of
          None \<Rightarrow> None
        | Some m \<Rightarrow>
          let c = c0\<lparr>cn_reads := tl (cn_reads c0), cn_msg := m\<rparr>
          in (case r of
              Rq_Identification n \<Rightarrow> Some (parseProxyIdentification env thrown error now loading c)
            | Rq_Header \<Rightarrow> Some (parseHeader env thrown error now loading c)
            | Rq_Body n \<Rightarrow> conn_parsePacket env thrown error c))"

fun conn_handle :: "conn_env \<Rightarrow> conn_event \<Rightarrow> conn \<Rightarrow> conn option" where
  "conn_handle env (Ev_Send thrown m) c = Some (conn_send thrown m c)"
| "conn_handle env (Ev_Close force) c = Some (conn_close force c)"
| "conn_handle env (Ev_Worker thrown) c =
     internalWorker env thrown (c\<lparr>cn_workers := cn_workers c - 1\<rparr>)"
| "conn_handle env (Ev_WriteDone error thrown) c =
     onWriteOperation env error thrown
       (c\<lparr>cn_writes := tl (cn_writes c),
          cn_written := cn_written c @ (if error then [] else [hd (cn_writes c)])\<rparr>)"
| "conn_handle env (Ev_ReadDone thrown error bytes now loading) c =
     read_done env thrown error bytes now loading c"
| "conn_handle env (Ev_Dispatch alive thrown cursor) c =
     (let c1 = c\<lparr>cn_dispatched := cn_dispatched c - 1\<rparr>
      in Some (if alive then resumeWork thrown (c1\<lparr>cn_msg := setBufferPosition cursor (cn_msg c1)\<rparr>)
               else c1))"
| "conn_handle env Ev_ReadTimeout c = Some (handleTimeout (c\<lparr>cn_readTimer := False\<rparr>))"
| "conn_handle env Ev_WriteTimeout c = Some (handleTimeout (c\<lparr>cn_writeTimer := False\<rparr>))"

text \<open>How \<open>ServicePort::onAccept\<close> starts a connection, and what it can reach from there.\<close>

definition conn_started :: "conn_env \<Rightarrow> bool \<Rightarrow> int \<Rightarrow> conn" where
  "conn_started env thrown now =
     (if port_is_single_socket (env_services env) then conn_accept thrown new_protocol (conn_new now)
      else acceptInternal thrown True (conn_new now))"

inductive conn_step :: "conn_env \<Rightarrow> conn \<Rightarrow> conn_event \<Rightarrow> conn \<Rightarrow> bool" for env where
  step: "conn_enabled ev c \<Longrightarrow> conn_handle env ev c = Some c' \<Longrightarrow> conn_step env c ev c'"

text \<open>A run with the log of the messages \<open>send\<close> accepted.\<close>

definition accepted :: "conn_event \<Rightarrow> conn \<Rightarrow> outmsg list" where
  "accepted ev c = (case ev of
     Ev_Send thrown m \<Rightarrow> if cn_state c = CONNECTION_STATE_CLOSED then [] else [m]
   | _ \<Rightarrow> [])"

inductive conn_run :: "conn_env \<Rightarrow> conn \<Rightarrow> conn_event list \<Rightarrow> outmsg list \<Rightarrow> conn \<Rightarrow> bool" for env where
  run_Nil: "conn_run env c [] [] c"
| run_snoc: "conn_run env c evs log c' \<Longrightarrow> conn_step env c' ev c''
    \<Longrightarrow> conn_run env c (evs @ [ev]) (log @ accepted ev c') c''"

inductive_cases conn_stepE: "conn_step env c ev c'"
inductive_simps conn_step_iff: "conn_step env c ev c'"

lemma conn_run_invariant:
  assumes "conn_run env c evs log c'" "I c"
    and "\<And>a ev b. I a \<Longrightarrow> conn_step env a ev b \<Longrightarrow> I b"
  shows "I c'"
  using assms(1,2) by (induction rule: conn_run.induct) (auto intro: assms(3))

section \<open>The writer: one write at a time\<close>

definition writer_inv :: "conn \<Rightarrow> bool" where
  "writer_inv c \<longleftrightarrow>
     cn_workers c + length (cn_writes c) \<le> 1
     \<and> (cn_workers c + length (cn_writes c) = 1 \<longrightarrow> cn_queue c \<noteq> [])
     \<and> (cn_queue c \<noteq> [] \<and> cn_state c \<noteq> CONNECTION_STATE_CLOSED
          \<longrightarrow> cn_workers c + length (cn_writes c) = 1)
     \<and> (\<not> cn_socket c \<longrightarrow> cn_state c = CONNECTION_STATE_CLOSED)
     \<and> (cn_queue c \<noteq> [] \<longrightarrow> cn_protocol c \<noteq> None)
     \<and> (cn_workers c + length (cn_writes c) = 1
          \<longrightarrow> (\<forall>m \<in> set (if cn_writes c = [] then cn_queue c else tl (cn_queue c)). om_wf m))"

text \<open>What closing changes: nothing the writer's work depends on, except the state.\<close>

lemma conn_close_frame [simp]:
  "cn_queue (conn_close force c) = cn_queue c"
  "cn_protocol (conn_close force c) = cn_protocol c"
  "cn_msg (conn_close force c) = cn_msg c"
  "cn_packetsSent (conn_close force c) = cn_packetsSent c"
  "cn_timeConnected (conn_close force c) = cn_timeConnected c"
  "cn_receivedFirst (conn_close force c) = cn_receivedFirst c"
  "cn_workers (conn_close force c) = cn_workers c"
  "cn_writes (conn_close force c) = cn_writes c"
  "cn_written (conn_close force c) = cn_written c"
  "cn_reads (conn_close force c) = cn_reads c"
  "cn_dispatched (conn_close force c) = cn_dispatched c"
  "cn_state (conn_close force c) = CONNECTION_STATE_CLOSED"
  by (simp_all add: conn_close_def closeSocket_def Let_def)

lemma closeSocket_frame [simp]:
  "cn_queue (closeSocket c) = cn_queue c"
  "cn_protocol (closeSocket c) = cn_protocol c"
  "cn_msg (closeSocket c) = cn_msg c"
  "cn_packetsSent (closeSocket c) = cn_packetsSent c"
  "cn_timeConnected (closeSocket c) = cn_timeConnected c"
  "cn_receivedFirst (closeSocket c) = cn_receivedFirst c"
  "cn_workers (closeSocket c) = cn_workers c"
  "cn_writes (closeSocket c) = cn_writes c"
  "cn_written (closeSocket c) = cn_written c"
  "cn_reads (closeSocket c) = cn_reads c"
  "cn_dispatched (closeSocket c) = cn_dispatched c"
  "cn_state (closeSocket c) = cn_state c"
  "cn_releases (closeSocket c) = cn_releases c"
  "\<not> cn_socket (closeSocket c)"
  by (simp_all add: closeSocket_def)

lemma start_read_frame [simp]:
  "cn_queue (start_read thrown r c) = cn_queue c"
  "cn_protocol (start_read thrown r c) = cn_protocol c"
  "cn_msg (start_read thrown r c) = cn_msg c"
  "cn_packetsSent (start_read thrown r c) = cn_packetsSent c"
  "cn_receivedFirst (start_read thrown r c) = cn_receivedFirst c"
  "cn_workers (start_read thrown r c) = cn_workers c"
  "cn_writes (start_read thrown r c) = cn_writes c"
  "cn_written (start_read thrown r c) = cn_written c"
  "cn_dispatched (start_read thrown r c) = cn_dispatched c"
  "cn_reads (start_read thrown r c) = cn_reads c @ (if thrown then [] else [r])"
  by (simp_all add: start_read_def)

lemma conn_close_writer: "writer_inv c \<Longrightarrow> writer_inv (conn_close force c)"
  by (simp add: writer_inv_def)

lemma conn_close_releases:
  "cn_releases (conn_close force c) = cn_releases c
    + (if cn_state c \<noteq> CONNECTION_STATE_CLOSED \<and> cn_protocol c \<noteq> None then 1 else 0)"
  by (simp add: conn_close_def Let_def)

text \<open>
  A forced close of a connection that is already closing gracefully returns early: the
  socket stays open, so a write timeout does not end a write that hangs.
\<close>

lemma forced_close_while_closing:
  "cn_state c = CONNECTION_STATE_CLOSED \<Longrightarrow> handleTimeout c = c\<lparr>cn_ip := 0\<rparr>"
  by (simp add: handleTimeout_def conn_close_def Let_def)

lemma conn_send_writer:
  "writer_inv c \<Longrightarrow> om_wf m \<Longrightarrow> cn_protocol c \<noteq> None \<Longrightarrow> writer_inv (conn_send thrown m c)"
  by (cases "cn_writes c"; cases "cn_queue c")
    (auto simp: writer_inv_def conn_send_def Let_def)

lemma send_front_writer:
  assumes "send_front env thrown c = Some c'" "cn_queue c \<noteq> []" "cn_workers c = 0" "cn_writes c = []"
    and "\<not> cn_socket c \<longrightarrow> cn_state c = CONNECTION_STATE_CLOSED"
    and "\<forall>m \<in> set (cn_queue c). om_wf m"
  shows "writer_inv c'"
proof (cases thrown)
  case True
  with assms show ?thesis
    by (auto simp: send_front_def internalSend_def writer_inv_def Let_def split: option.splits)
next
  case False
  with assms show ?thesis
    by (auto simp: send_front_def internalSend_def writer_inv_def Let_def
        split: option.splits dest: list.set_sel(2))
qed

lemma closeSocket_writer:
  "cn_state c = CONNECTION_STATE_CLOSED \<Longrightarrow> writer_inv c \<Longrightarrow> writer_inv (closeSocket c)"
  by (auto simp: writer_inv_def)

lemma writer_inv_worker:
  assumes "writer_inv c" "0 < cn_workers c"
  shows "cn_workers c = 1" "cn_writes c = []" "cn_queue c \<noteq> []" "\<forall>m \<in> set (cn_queue c). om_wf m"
    and "\<not> cn_socket c \<longrightarrow> cn_state c = CONNECTION_STATE_CLOSED" "cn_protocol c \<noteq> None"
proof -
  have le: "cn_workers c + length (cn_writes c) \<le> 1" using assms(1) by (simp add: writer_inv_def)
  then show w: "cn_workers c = 1" and e: "cn_writes c = []"
    using assms(2) by (cases "cn_writes c"; simp)+
  with assms(1) show "cn_queue c \<noteq> []" "\<forall>m \<in> set (cn_queue c). om_wf m"
      "\<not> cn_socket c \<longrightarrow> cn_state c = CONNECTION_STATE_CLOSED" "cn_protocol c \<noteq> None"
    by (simp_all add: writer_inv_def)
qed

lemma writer_inv_write:
  assumes "writer_inv c" "cn_writes c \<noteq> []"
  shows "cn_workers c = 0" "cn_writes c = [hd (cn_writes c)]" "tl (cn_writes c) = []"
    and "cn_queue c \<noteq> []" "\<forall>m \<in> set (tl (cn_queue c)). om_wf m"
    and "\<not> cn_socket c \<longrightarrow> cn_state c = CONNECTION_STATE_CLOSED" "cn_protocol c \<noteq> None"
proof -
  have le: "cn_workers c + length (cn_writes c) \<le> 1" using assms(1) by (simp add: writer_inv_def)
  with assms(2) show w: "cn_workers c = 0" by (cases "cn_writes c") auto
  from le assms(2) show one: "cn_writes c = [hd (cn_writes c)]" and "tl (cn_writes c) = []"
    by (cases "cn_writes c"; simp)+
  have "cn_workers c + length (cn_writes c) = 1"
    using one w by (metis One_nat_def add_0 length_Cons list.size(3))
  with assms show "cn_queue c \<noteq> []" "\<forall>m \<in> set (tl (cn_queue c)). om_wf m"
      "\<not> cn_socket c \<longrightarrow> cn_state c = CONNECTION_STATE_CLOSED" "cn_protocol c \<noteq> None"
    by (simp_all add: writer_inv_def)
qed

lemma internalWorker_writer:
  assumes "writer_inv c" "0 < cn_workers c"
    and "internalWorker env thrown (c\<lparr>cn_workers := cn_workers c - 1\<rparr>) = Some c'"
  shows "writer_inv c'"
  using writer_inv_worker [OF assms(1,2)] assms(3)
  by (intro send_front_writer [of env thrown "c\<lparr>cn_workers := cn_workers c - 1\<rparr>"])
    (simp_all add: internalWorker_def)

lemma onWriteOperation_writer:
  assumes "writer_inv c" "cn_writes c \<noteq> []"
    and "onWriteOperation env error thrown (c\<lparr>cn_writes := tl (cn_writes c), cn_written := w\<rparr>) = Some c'"
  shows "writer_inv c'"
proof -
  let ?c = "c\<lparr>cn_writes := tl (cn_writes c), cn_written := w, cn_writeTimer := False\<rparr>"
  note inv = writer_inv_write [OF assms(1,2)]
  consider "error" | "\<not> error" "tl (cn_queue c) = []" | "\<not> error" "tl (cn_queue c) \<noteq> []" by blast
  then show ?thesis
  proof cases
    case 1
    with assms(3) have "c' = conn_close True (?c\<lparr>cn_queue := []\<rparr>)"
      by (simp add: onWriteOperation_def)
    with inv show ?thesis by (simp add: writer_inv_def)
  next
    case 2
    let ?d = "?c\<lparr>cn_queue := []\<rparr>"
    from 2 assms(3) inv(4) have "c' = (if cn_state c = CONNECTION_STATE_CLOSED then closeSocket ?d else ?d)"
      by (simp add: onWriteOperation_def Let_def split: if_splits)
    with inv show ?thesis by (simp add: writer_inv_def)
  next
    case 3
    with assms(3) inv(4) have sf: "send_front env thrown (?c\<lparr>cn_queue := tl (cn_queue c)\<rparr>) = Some c'"
      by (simp add: onWriteOperation_def Let_def)
    show ?thesis by (rule send_front_writer [OF sf]) (use 3 inv in simp_all)
  qed
qed

text \<open>The read cycle leaves the writer alone.\<close>

definition same_writer :: "conn \<Rightarrow> conn \<Rightarrow> bool" where
  "same_writer c c' \<longleftrightarrow> cn_queue c' = cn_queue c \<and> cn_workers c' = cn_workers c
     \<and> cn_writes c' = cn_writes c \<and> cn_written c' = cn_written c
     \<and> (cn_protocol c \<noteq> None \<longrightarrow> cn_protocol c' \<noteq> None)
     \<and> (cn_state c = CONNECTION_STATE_CLOSED \<longrightarrow> cn_state c' = CONNECTION_STATE_CLOSED)
     \<and> (cn_socket c' = cn_socket c \<or> cn_state c' = CONNECTION_STATE_CLOSED)"

lemma same_writer_inv: "same_writer c c' \<Longrightarrow> writer_inv c \<Longrightarrow> writer_inv c'"
  by (auto simp: same_writer_def writer_inv_def)

lemma same_writer_trans: "same_writer a b \<Longrightarrow> same_writer b c \<Longrightarrow> same_writer a c"
  by (auto simp: same_writer_def)

lemma same_writer_refl [simp]: "same_writer c c"
  by (simp add: same_writer_def)

lemma same_writer_close: "same_writer c (conn_close force c)"
  by (simp add: same_writer_def)

lemma same_writer_start_read: "same_writer c (start_read thrown r c)"
  by (simp add: same_writer_def start_read_def)

text \<open>A closing or reading step on a connection that differs from \<open>c\<close> elsewhere only.\<close>

lemma same_writer_step:
  "same_writer c d \<Longrightarrow> same_writer c (conn_close force d)"
  "same_writer c d \<Longrightarrow> same_writer c (start_read thrown r d)"
  using same_writer_trans same_writer_close same_writer_start_read by blast+

lemma parseHeader_writer: "same_writer c (parseHeader env thrown error now loading c)"
  unfolding parseHeader_def Let_def
  by (simp only: if_distribR split: if_split)
    (intro conjI impI same_writer_step; simp add: same_writer_def)

lemma same_writer_update [simp]:
  "same_writer c (c\<lparr>cn_readTimer := b\<rparr>)" "same_writer c (c\<lparr>cn_msg := m\<rparr>)"
  "same_writer c (c\<lparr>cn_reads := rs\<rparr>)" "same_writer c (c\<lparr>cn_dispatched := n\<rparr>)"
  "same_writer c (c\<lparr>cn_writeTimer := b\<rparr>)"
  by (simp_all add: same_writer_def)

lemma parseProxyIdentification_writer:
  "same_writer c (parseProxyIdentification env thrown error now loading c)"
proof (cases "error \<or> cn_state c = CONNECTION_STATE_CLOSED")
  case True
  then show ?thesis by (simp add: parseProxyIdentification_def same_writer_step)
next
  case False
  let ?c = "c\<lparr>cn_readTimer := False\<rparr>"
  have state: "same_writer c (?c\<lparr>cn_state := s\<rparr>)" "same_writer c (?c\<lparr>cn_state := s, cn_readTimer := b\<rparr>)" for s b
    using False by (simp_all add: same_writer_def)
  have accept: "same_writer c (acceptInternal thrown True d)" if "same_writer c d" for d
    unfolding acceptInternal_def
    by (rule same_writer_step(2)) (rule same_writer_trans [OF that], simp)
  have header: "same_writer c (parseHeader env thrown e now loading d)" if "same_writer c d" for d e
    using same_writer_trans [OF that parseHeader_writer] .
  show ?thesis
    using False state
    by (cases "cn_state c")
      (auto simp: parseProxyIdentification_def Let_def intro!: accept header same_writer_step)
qed

lemma first_packet_writer: "first_packet env c = Some c' \<Longrightarrow> same_writer c c'"
  unfolding first_packet_def Let_def
  by (auto split: option.splits prod.splits if_splits) (auto simp: same_writer_def)

lemma next_read_writer: "same_writer c (next_read thrown skip c)"
  unfolding next_read_def Let_def
  by (simp only: split: if_split)
    (intro conjI impI same_writer_step; simp add: same_writer_def)

lemma conn_parsePacket_cases:
  assumes "conn_parsePacket env thrown error c = Some c'"
  obtains (closed) "error \<or> cn_state c = CONNECTION_STATE_CLOSED"
      "c' = conn_close True (c\<lparr>cn_readTimer := False\<rparr>)"
    | (first) d where "\<not> cn_receivedFirst c" "first_packet env (c\<lparr>cn_readTimer := False\<rparr>) = Some d"
        "c' = (if cn_protocol d = None then d else next_read thrown False d)"
    | (packet) p skip p' m where "cn_receivedFirst c" "cn_protocol c = Some p"
        "onRecvMessage p (cn_msg c) = Some (skip, p', m)"
        "c' = next_read thrown skip (c\<lparr>cn_readTimer := False, cn_protocol := Some p', cn_msg := m,
           cn_dispatched := cn_dispatched c + (if skip then 1 else 0)\<rparr>)"
proof (cases "error \<or> cn_state c = CONNECTION_STATE_CLOSED")
  case True
  with assms closed show thesis by (simp add: conn_parsePacket_def)
next
  case opened: False
  show thesis
  proof (cases "cn_receivedFirst c")
    case False
    with assms opened first show thesis
      by (simp add: conn_parsePacket_def Let_def split: option.splits)
  next
    case True
    with assms opened obtain p where p: "cn_protocol c = Some p"
      by (auto simp: conn_parsePacket_def Let_def split: option.splits)
    with assms opened True obtain skip p' m where r: "onRecvMessage p (cn_msg c) = Some (skip, p', m)"
      by (auto simp: conn_parsePacket_def Let_def split: option.splits)
    show thesis
      by (rule packet [OF True p r]) (use assms opened True p r in \<open>simp add: conn_parsePacket_def Let_def\<close>)
  qed
qed

lemma conn_parsePacket_writer:
  assumes "conn_parsePacket env thrown error c = Some c'"
  shows "same_writer c c'"
  using assms
proof (cases rule: conn_parsePacket_cases)
  case closed
  then show ?thesis by (simp add: same_writer_step)
next
  case (first d)
  from first_packet_writer [OF first(2)] have "same_writer c d" by (simp add: same_writer_def)
  with first(3) next_read_writer same_writer_trans show ?thesis by (auto split: if_splits)
next
  case (packet p skip p' m)
  have "same_writer c (c\<lparr>cn_readTimer := False, cn_protocol := Some p', cn_msg := m,
      cn_dispatched := cn_dispatched c + (if skip then 1 else 0)\<rparr>)"
    by (simp add: same_writer_def)
  with packet(4) next_read_writer same_writer_trans show ?thesis by blast
qed

lemma read_done_runs:
  assumes "read_done env thrown error bytes now loading c = Some c'"
  obtains m where "(case hd (cn_reads c) of
      Rq_Identification n \<Rightarrow> Some (parseProxyIdentification env thrown error now loading (c\<lparr>cn_reads := tl (cn_reads c), cn_msg := m\<rparr>))
    | Rq_Header \<Rightarrow> Some (parseHeader env thrown error now loading (c\<lparr>cn_reads := tl (cn_reads c), cn_msg := m\<rparr>))
    | Rq_Body n \<Rightarrow> conn_parsePacket env thrown error (c\<lparr>cn_reads := tl (cn_reads c), cn_msg := m\<rparr>)) = Some c'"
  using assms by (auto simp: read_done_def Let_def split: option.splits)

lemma read_done_writer:
  assumes "read_done env thrown error bytes now loading c = Some c'"
  shows "same_writer c c'"
  using assms
proof (rule read_done_runs)
  fix m
  let ?c = "c\<lparr>cn_reads := tl (cn_reads c), cn_msg := m\<rparr>"
  assume "(case hd (cn_reads c) of
      Rq_Identification n \<Rightarrow> Some (parseProxyIdentification env thrown error now loading ?c)
    | Rq_Header \<Rightarrow> Some (parseHeader env thrown error now loading ?c)
    | Rq_Body n \<Rightarrow> conn_parsePacket env thrown error ?c) = Some c'"
  then have "same_writer ?c c'"
    using parseHeader_writer parseProxyIdentification_writer conn_parsePacket_writer
    by (auto split: read_request.splits)
  then show ?thesis by (rule same_writer_trans [rotated]) (simp add: same_writer_def)
qed

lemma resumeWork_writer: "same_writer c (resumeWork thrown c)"
  unfolding resumeWork_def by (intro same_writer_step) simp

text \<open>Every event either belongs to the writer or leaves it alone.\<close>

definition writer_event :: "conn_event \<Rightarrow> bool" where
  "writer_event ev \<longleftrightarrow> (case ev of
     Ev_Send _ _ \<Rightarrow> True | Ev_Worker _ \<Rightarrow> True | Ev_WriteDone _ _ \<Rightarrow> True | _ \<Rightarrow> False)"

lemma conn_handle_same_writer:
  assumes "conn_handle env ev c = Some c'" "\<not> writer_event ev"
  shows "same_writer c c'"
  using assms
proof (cases ev)
  case (Ev_Dispatch alive thrown cursor)
  have "same_writer c (c\<lparr>cn_dispatched := cn_dispatched c - 1,
      cn_msg := setBufferPosition cursor (cn_msg c)\<rparr>)" by (simp add: same_writer_def)
  from same_writer_trans [OF this resumeWork_writer] Ev_Dispatch assms show ?thesis
    by (auto simp: Let_def split: if_splits)
qed (auto simp: writer_event_def read_done_writer same_writer_close handleTimeout_def
    intro!: same_writer_step(1))

lemma conn_step_writer:
  assumes "writer_inv c" "conn_step env c ev c'"
  shows "writer_inv c'"
proof (cases "writer_event ev")
  case False
  have "conn_handle env ev c = Some c'" using assms(2) by (simp add: conn_step_iff)
  from same_writer_inv [OF conn_handle_same_writer [OF this False] assms(1)] show ?thesis .
next
  case True
  with assms(2) show ?thesis
    using conn_send_writer [OF assms(1)] internalWorker_writer [OF assms(1)]
      onWriteOperation_writer [OF assms(1)]
    by (cases ev) (auto simp: conn_step_iff writer_event_def)
qed

lemma conn_started_writer: "writer_inv (conn_started env thrown now)"
proof -
  have "same_writer (conn_new now) (conn_started env thrown now)"
    unfolding conn_started_def conn_accept_def acceptInternal_def
    by (simp only: split: if_split)
      (intro conjI impI same_writer_step; simp add: same_writer_def conn_new_def)
  moreover have "writer_inv (conn_new now)" by (simp add: writer_inv_def conn_new_def)
  ultimately show ?thesis by (rule same_writer_inv)
qed

section \<open>Messages leave in the order they were sent\<close>

fun frame_all :: "conn_env \<Rightarrow> protocol \<Rightarrow> outmsg list \<Rightarrow> (protocol \<times> u8 list list) option" where
  "frame_all env p [] = Some (p, [])"
| "frame_all env p (m # ms) =
     (case onSendMessage (env_deflate env) (env_stream env) p m of
        None \<Rightarrow> None
      | Some (p', m') \<Rightarrow> map_option (\<lambda>(p'', fs). (p'', wire_bytes m' # fs)) (frame_all env p' ms))"

lemma frame_all_snoc:
  assumes "frame_all env p ms = Some (q, fs)"
    and "onSendMessage (env_deflate env) (env_stream env) q m = Some (q', m')"
  shows "frame_all env p (ms @ [m]) = Some (q', fs @ [wire_bytes m'])"
  using assms by (induction ms arbitrary: p fs) (auto split: option.splits)

definition fifo :: "conn_env \<Rightarrow> protocol \<Rightarrow> outmsg list \<Rightarrow> conn \<Rightarrow> bool" where
  "fifo env p0 log c \<longleftrightarrow> (\<exists>framed rest frames p s. log = framed @ rest
     \<and> frame_all env p0 framed = Some (p, frames)
     \<and> cn_protocol c = Some (p\<lparr>clientSequenceNumber := s\<rparr>) \<and> cn_receivedFirst c
     \<and> ((frames = cn_written c @ cn_writes c
            \<and> rest = (if cn_writes c = [] then cn_queue c else tl (cn_queue c)))
        \<or> (cn_state c = CONNECTION_STATE_CLOSED \<and> cn_workers c = 0 \<and> cn_writes c = []
            \<and> (\<exists>lost. frames = cn_written c @ lost))))"

lemma fifoI_live:
  assumes "frame_all env p0 framed = Some (p, cn_written c @ cn_writes c)"
    and "log = framed @ (if cn_writes c = [] then cn_queue c else tl (cn_queue c))"
    and "cn_protocol c = Some (p\<lparr>clientSequenceNumber := s\<rparr>)" "cn_receivedFirst c"
  shows "fifo env p0 log c"
  using assms unfolding fifo_def by blast

lemma fifoI_dead:
  assumes "frame_all env p0 framed = Some (p, cn_written c @ lost)" "log = framed @ rest"
    and "cn_protocol c = Some (p\<lparr>clientSequenceNumber := s\<rparr>)" "cn_receivedFirst c"
    and "cn_state c = CONNECTION_STATE_CLOSED" "cn_workers c = 0" "cn_writes c = []"
  shows "fifo env p0 log c"
  using assms unfolding fifo_def by blast

lemma fifoE:
  assumes "fifo env p0 log c"
  obtains (live) framed p s where "frame_all env p0 framed = Some (p, cn_written c @ cn_writes c)"
      "log = framed @ (if cn_writes c = [] then cn_queue c else tl (cn_queue c))"
      "cn_protocol c = Some (p\<lparr>clientSequenceNumber := s\<rparr>)" "cn_receivedFirst c"
    | (dead) framed rest p s lost where "frame_all env p0 framed = Some (p, cn_written c @ lost)"
      "log = framed @ rest" "cn_protocol c = Some (p\<lparr>clientSequenceNumber := s\<rparr>)" "cn_receivedFirst c"
      "cn_state c = CONNECTION_STATE_CLOSED" "cn_workers c = 0" "cn_writes c = []"
  using assms unfolding fifo_def by blast

lemma send_front_fifo:
  assumes "send_front env thrown c = Some c'" "cn_queue c \<noteq> []" "cn_writes c = []" "cn_workers c = 0"
    and "frame_all env p0 framed = Some (p, cn_written c)" "log = framed @ cn_queue c"
    and "cn_protocol c = Some (p\<lparr>clientSequenceNumber := s\<rparr>)" "cn_receivedFirst c"
  shows "fifo env p0 log c'"
proof -
  let ?m = "hd (cn_queue c)"
  obtain p' m' where sent: "onSendMessage (env_deflate env) (env_stream env) p ?m = Some (p', m')"
    using assms(1,7) by (auto simp: send_front_def onSendMessage_client split: option.splits)
  then have c': "c' = internalSend thrown m' (c\<lparr>cn_queue := m' # tl (cn_queue c),
      cn_protocol := Some (p'\<lparr>clientSequenceNumber := s\<rparr>)\<rparr>)"
    using assms(1,7) by (simp add: send_front_def onSendMessage_client)
  have frames: "frame_all env p0 (framed @ [?m]) = Some (p', cn_written c @ [wire_bytes m'])"
    using frame_all_snoc [OF assms(5) sent] .
  have log: "log = (framed @ [?m]) @ tl (cn_queue c)" using assms(2,6) by simp
  show ?thesis
  proof (cases thrown)
    case True
    then show ?thesis
      by (intro fifoI_dead [of env p0 "framed @ [?m]" p' c' "[wire_bytes m']" log "tl (cn_queue c)" s])
        (use assms(3,4,8) c' frames log in \<open>simp_all add: internalSend_def Let_def\<close>)
  next
    case False
    then show ?thesis
      by (intro fifoI_live [of env p0 "framed @ [?m]" p' c' log s])
        (use assms(3,4,8) c' frames log in \<open>simp_all add: internalSend_def Let_def\<close>)
  qed
qed

lemma conn_send_fifo:
  assumes "writer_inv c" "fifo env p0 log c"
  shows "fifo env p0 (log @ accepted (Ev_Send thrown m) c) (conn_send thrown m c)"
  using assms(2)
proof (cases rule: fifoE)
  case (live framed p s)
  have idle: "cn_queue c = [] \<Longrightarrow> cn_writes c = []"
    using assms(1) writer_inv_write(4) by blast
  show ?thesis
    by (rule fifoI_live [of env p0 framed p _ _ s])
      (use live idle in \<open>auto simp: conn_send_def accepted_def Let_def\<close>)
next
  case (dead framed rest p s lost)
  show ?thesis
    by (rule fifoI_dead [of env p0 framed p _ lost _ rest s])
      (use dead in \<open>auto simp: conn_send_def accepted_def\<close>)
qed

lemma internalWorker_fifo:
  assumes "writer_inv c" "fifo env p0 log c" "0 < cn_workers c"
    and "internalWorker env thrown (c\<lparr>cn_workers := cn_workers c - 1\<rparr>) = Some c'"
  shows "fifo env p0 log c'"
  using assms(2)
proof (cases rule: fifoE)
  case (live framed p s)
  note inv = writer_inv_worker [OF assms(1,3)]
  show ?thesis
    by (rule send_front_fifo [of env thrown "c\<lparr>cn_workers := cn_workers c - 1\<rparr>" _ p0 framed p _ s])
      (use assms(4) live inv in \<open>simp_all add: internalWorker_def\<close>)
next
  case (dead framed rest p s lost)
  with assms(3) show ?thesis by simp
qed

lemma onWriteOperation_fifo:
  assumes "writer_inv c" "fifo env p0 log c" "cn_writes c \<noteq> []"
    and "onWriteOperation env error thrown (c\<lparr>cn_writes := tl (cn_writes c),
           cn_written := cn_written c @ (if error then [] else [hd (cn_writes c)])\<rparr>) = Some c'"
  shows "fifo env p0 log c'"
  using assms(2)
proof (cases rule: fifoE)
  case (live framed p s)
  note inv = writer_inv_write [OF assms(1,3)]
  let ?w = "cn_written c @ [hd (cn_writes c)]"
  let ?c = "c\<lparr>cn_writes := tl (cn_writes c), cn_written := ?w, cn_writeTimer := False, cn_queue := tl (cn_queue c)\<rparr>"
  have framed: "frame_all env p0 framed = Some (p, ?w)" using live(1) inv(2) by simp
  have log: "log = framed @ tl (cn_queue c)" using live(2) assms(3) by simp
  consider "error" | "\<not> error" "tl (cn_queue c) = []" | "\<not> error" "tl (cn_queue c) \<noteq> []" by blast
  then show ?thesis
  proof cases
    case 1
    with assms(4) have "c' = conn_close True (c\<lparr>cn_writes := tl (cn_writes c), cn_written := cn_written c,
        cn_writeTimer := False, cn_queue := []\<rparr>)"
      by (simp add: onWriteOperation_def)
    then show ?thesis
      by (intro fifoI_dead [of env p0 framed p c' "[hd (cn_writes c)]" log "tl (cn_queue c)" s])
        (use live(3,4) inv(1,3) framed log in simp_all)
  next
    case 2
    show ?thesis
      by (rule fifoI_live [of env p0 framed p _ _ s])
        (use 2 assms(4) live(3,4) inv framed log in
          \<open>auto simp: onWriteOperation_def Let_def split: if_splits\<close>)
  next
    case 3
    then have "send_front env thrown ?c = Some c'"
      using assms(4) inv(4) by (simp add: onWriteOperation_def Let_def)
    then show ?thesis
      by (rule send_front_fifo [of env thrown ?c _ p0 framed p _ s])
        (use 3 live(3,4) inv framed log in simp_all)
  qed
next
  case (dead framed rest p s lost)
  with assms(3) show ?thesis by simp
qed

text \<open>Reading an established connection changes only the client's sequence number.\<close>

definition same_sending :: "conn \<Rightarrow> conn \<Rightarrow> bool" where
  "same_sending c c' \<longleftrightarrow> (cn_receivedFirst c \<longrightarrow> cn_receivedFirst c'
     \<and> (\<forall>p. cn_protocol c = Some p \<longrightarrow> (\<exists>s. cn_protocol c' = Some (p\<lparr>clientSequenceNumber := s\<rparr>))))"

lemma same_sendingI:
  "cn_receivedFirst c' = cn_receivedFirst c \<Longrightarrow> cn_protocol c' = cn_protocol c \<Longrightarrow> same_sending c c'"
  unfolding same_sending_def by (metis protocol.surjective protocol.update_convs(3))

lemma parseHeader_fields [simp]:
  "cn_receivedFirst (parseHeader env thrown error now loading c) = cn_receivedFirst c"
  "cn_protocol (parseHeader env thrown error now loading c) = cn_protocol c"
  "cn_dispatched (parseHeader env thrown error now loading c) = cn_dispatched c"
  by (simp_all add: parseHeader_def Let_def)

lemma parseProxyIdentification_fields [simp]:
  "cn_receivedFirst (parseProxyIdentification env thrown error now loading c) = cn_receivedFirst c"
  "cn_protocol (parseProxyIdentification env thrown error now loading c) = cn_protocol c"
  "cn_dispatched (parseProxyIdentification env thrown error now loading c) = cn_dispatched c"
  by (cases "cn_state c"; simp add: parseProxyIdentification_def acceptInternal_def Let_def)+

lemma next_read_fields [simp]:
  "cn_receivedFirst (next_read thrown skip c) = cn_receivedFirst c"
  "cn_protocol (next_read thrown skip c) = cn_protocol c"
  "cn_dispatched (next_read thrown skip c) = cn_dispatched c"
  by (simp_all add: next_read_def Let_def)

lemma conn_parsePacket_sending:
  assumes "conn_parsePacket env thrown error c = Some c'"
  shows "same_sending c c'"
  using assms
proof (cases rule: conn_parsePacket_cases)
  case closed
  then show ?thesis by (intro same_sendingI) simp_all
next
  case (first d)
  then show ?thesis by (simp add: same_sending_def)
next
  case (packet p skip p' m)
  with onRecvMessage_sending [OF packet(3)] show ?thesis by (auto simp: same_sending_def)
qed

lemma conn_handle_sending:
  assumes "conn_handle env ev c = Some c'" "\<not> writer_event ev"
  shows "same_sending c c'"
proof (cases ev)
  case (Ev_ReadDone thrown error bytes now loading)
  with assms(1) have "read_done env thrown error bytes now loading c = Some c'" by simp
  then obtain m where run: "(case hd (cn_reads c) of
      Rq_Identification n \<Rightarrow> Some (parseProxyIdentification env thrown error now loading (c\<lparr>cn_reads := tl (cn_reads c), cn_msg := m\<rparr>))
    | Rq_Header \<Rightarrow> Some (parseHeader env thrown error now loading (c\<lparr>cn_reads := tl (cn_reads c), cn_msg := m\<rparr>))
    | Rq_Body n \<Rightarrow> conn_parsePacket env thrown error (c\<lparr>cn_reads := tl (cn_reads c), cn_msg := m\<rparr>)) = Some c'"
    by (rule read_done_runs)
  have "same_sending (c\<lparr>cn_reads := tl (cn_reads c), cn_msg := m\<rparr>) c'"
  proof (cases "hd (cn_reads c)")
    case (Rq_Body n)
    with run show ?thesis by (intro conn_parsePacket_sending) simp
  qed (use run in \<open>auto intro!: same_sendingI\<close>)
  then show ?thesis by (simp add: same_sending_def)
qed (use assms in \<open>auto simp: writer_event_def handleTimeout_def resumeWork_def Let_def
      intro!: same_sendingI split: if_splits\<close>)

lemma conn_handle_reader_fifo:
  assumes "conn_handle env ev c = Some c'" "\<not> writer_event ev" "fifo env p0 log c"
  shows "fifo env p0 log c'"
proof -
  have w: "cn_queue c' = cn_queue c" "cn_writes c' = cn_writes c" "cn_written c' = cn_written c"
      "cn_workers c' = cn_workers c"
      "cn_state c = CONNECTION_STATE_CLOSED \<longrightarrow> cn_state c' = CONNECTION_STATE_CLOSED"
    using conn_handle_same_writer [OF assms(1,2)] by (simp_all add: same_writer_def)
  have s: "cn_receivedFirst c'" "\<exists>s'. cn_protocol c' = Some (p\<lparr>clientSequenceNumber := s'\<rparr>)"
    if "cn_receivedFirst c" "cn_protocol c = Some (p\<lparr>clientSequenceNumber := s\<rparr>)" for p s
    using conn_handle_sending [OF assms(1,2)] that by (auto simp: same_sending_def)
  show ?thesis
    using assms(3)
  proof (cases rule: fifoE)
    case (live framed p s)
    with s(2) [OF live(4,3)] s(1) [OF live(4,3)] w show ?thesis by (auto intro: fifoI_live)
  next
    case (dead framed rest p s lost)
    obtain s' where "cn_protocol c' = Some (p\<lparr>clientSequenceNumber := s'\<rparr>)"
      using s(2) [OF dead(4,3)] by blast
    with s(1) [OF dead(4,3)] w dead show ?thesis
      by (intro fifoI_dead [of env p0 framed p c' lost log rest s']) simp_all
  qed
qed

lemma conn_step_fifo:
  assumes "writer_inv c" "fifo env p0 log c" "conn_step env c ev c'"
  shows "fifo env p0 (log @ accepted ev c) c'"
proof (cases "writer_event ev")
  case False
  have "conn_handle env ev c = Some c'" using assms(3) by (simp add: conn_step_iff)
  from conn_handle_reader_fifo [OF this False assms(2)] False show ?thesis
    by (cases ev) (simp_all add: accepted_def writer_event_def)
next
  case True
  with assms(3) show ?thesis
    using conn_send_fifo [OF assms(1,2)] internalWorker_fifo [OF assms(1,2)]
      onWriteOperation_fifo [OF assms(1,2)]
    by (cases ev) (auto simp: conn_step_iff writer_event_def accepted_def)
qed

lemma conn_run_fifo:
  assumes "conn_run env c evs log c'" "writer_inv c" "fifo env p0 [] c"
  shows "writer_inv c' \<and> fifo env p0 log c'"
  using assms
proof (induction rule: conn_run.induct)
  case (run_Nil c)
  then show ?case by simp
next
  case (run_snoc c evs log c' ev c'')
  then show ?case using conn_step_writer conn_step_fifo by blast
qed

section \<open>The reader: one read or one packet being parsed\<close>

fun request_ok :: "bool \<Rightarrow> netmsg \<Rightarrow> read_request \<Rightarrow> bool" where
  "request_ok known m (Rq_Body n) \<longleftrightarrow> 0 < n \<and> n \<le> 4096 \<and> nm_position m = 2
     \<and> nm_length m = n + 2 \<and> (known \<longrightarrow> 4 \<le> n)"
| "request_ok known m (Rq_Identification n) \<longleftrightarrow> n \<le> NETWORKMESSAGE_MAXSIZE"
| "request_ok known m Rq_Header \<longleftrightarrow> True"

definition reader_inv :: "conn \<Rightarrow> bool" where
  "reader_inv c \<longleftrightarrow>
     length (cn_reads c) + cn_dispatched c \<le> 1
     \<and> length (nm_buffer (cn_msg c)) = NETWORKMESSAGE_MAXSIZE
     \<and> (\<forall>r \<in> set (cn_reads c). request_ok (cn_protocol c \<noteq> None) (cn_msg c) r)
     \<and> (cn_receivedFirst c \<longrightarrow> cn_protocol c \<noteq> None \<or> cn_state c = CONNECTION_STATE_CLOSED)"

text \<open>No read pending and no packet parsed: the moment a handler may start a read.\<close>

definition reader_idle :: "conn \<Rightarrow> bool" where
  "reader_idle c \<longleftrightarrow> cn_reads c = [] \<and> cn_dispatched c = 0
     \<and> length (nm_buffer (cn_msg c)) = NETWORKMESSAGE_MAXSIZE
     \<and> (cn_receivedFirst c \<longrightarrow> cn_protocol c \<noteq> None \<or> cn_state c = CONNECTION_STATE_CLOSED)"

lemma reader_idle_inv: "reader_idle c \<Longrightarrow> reader_inv c"
  by (simp add: reader_idle_def reader_inv_def)

lemma reader_idle_close: "reader_idle c \<Longrightarrow> reader_inv (conn_close force c)"
  by (simp add: reader_idle_def reader_inv_def)

lemma reader_inv_close: "reader_inv c \<Longrightarrow> reader_inv (conn_close force c)"
  by (simp add: reader_inv_def)

lemma reader_start_header:
  "reader_idle c \<Longrightarrow> reader_inv (start_read thrown Rq_Header c)"
  by (auto simp: reader_idle_def reader_inv_def start_read_def)

lemma reader_start_identification:
  "reader_idle c \<Longrightarrow> n \<le> NETWORKMESSAGE_MAXSIZE \<Longrightarrow> reader_inv (start_read thrown (Rq_Identification n) c)"
  by (auto simp: reader_idle_def reader_inv_def start_read_def)

lemma frame_size_ge:
  assumes "frame_size n \<noteq> 0"
  shows "4 \<le> frame_size n"
proof -
  have "4 dvd frame_size n" by (simp add: frame_size_def wrap16_def dvd_mod)
  with assms show ?thesis by (auto dest: dvd_imp_le)
qed

lemma parseHeader_reader:
  assumes "reader_idle c"
  shows "reader_inv (parseHeader env thrown error now loading c)"
proof -
  have start: "reader_inv (start_read thrown (Rq_Body n)
      (d\<lparr>cn_readTimer := True, cn_msg := snd (getBodyBuffer (setLength (n + HEADER_LENGTH) (cn_msg d)))\<rparr>))"
    if "reader_idle d" "0 < n" "n \<le> 4096" "cn_protocol d \<noteq> None \<longrightarrow> 4 \<le> n" for d n
    using that by (simp add: reader_idle_def reader_inv_def start_read_def getBodyBuffer_def
        setLength_def wrap16_id)
  have idle: "reader_idle (c\<lparr>cn_readTimer := False, cn_packetsSent := k\<rparr>)"
      "reader_idle (c\<lparr>cn_readTimer := False, cn_packetsSent := k, cn_timeConnected := t, cn_packetsSent := 0\<rparr>)"
      "reader_idle (c\<lparr>cn_readTimer := False\<rparr>)" for k t
    using assms by (simp_all add: reader_idle_def)
  show ?thesis
    unfolding parseHeader_def Let_def
    by (simp only: split: if_split)
      (intro conjI impI reader_idle_close start reader_idle_inv idle;
        simp add: frame_size_ge not_less)
qed

text \<open>The configured server name bounds what the identification reads into the buffer.\<close>

definition env_ok :: "conn_env \<Rightarrow> bool" where
  "env_ok env \<longleftrightarrow> 0 < length (env_serverName env) \<and> length (env_serverName env) < NETWORKMESSAGE_MAXSIZE"

lemma identification_rest_ok:
  "env_ok env \<Longrightarrow> identification_rest (env_serverName env @ [10]) \<le> NETWORKMESSAGE_MAXSIZE"
  by (cases "env_serverName env") (auto simp: env_ok_def identification_rest_def)

lemma parseProxyIdentification_reader:
  assumes "reader_idle c" "env_ok env"
  shows "reader_inv (parseProxyIdentification env thrown error now loading c)"
proof (cases "error \<or> cn_state c = CONNECTION_STATE_CLOSED")
  case True
  with assms(1) have "reader_inv (conn_close True (c\<lparr>cn_readTimer := False\<rparr>))"
    by (intro reader_idle_close) (simp add: reader_idle_def)
  with True show ?thesis by (simp add: parseProxyIdentification_def)
next
  case False
  let ?c = "c\<lparr>cn_readTimer := False\<rparr>"
  have idle: "reader_idle ?c" "reader_idle (?c\<lparr>cn_state := s\<rparr>)"
      "reader_idle (c\<lparr>cn_state := s, cn_readTimer := b\<rparr>)" for s b
    using assms(1) False by (auto simp: reader_idle_def)
  have accept: "reader_inv (acceptInternal thrown True d)" if "reader_idle d" for d
    unfolding acceptInternal_def
    by (simp del: One_nat_def, rule reader_start_header) (use that in \<open>simp add: reader_idle_def\<close>)
  show ?thesis
  proof (cases "cn_state c")
    case CONNECTION_STATE_IDENTIFYING
    with False show ?thesis
      unfolding parseProxyIdentification_def Let_def
      by (simp del: One_nat_def)
        (intro conjI impI accept parseHeader_reader reader_start_identification
          identification_rest_ok assms(2) idle)
  qed (use False idle in \<open>auto simp: parseProxyIdentification_def Let_def
        intro!: accept reader_idle_close\<close>)
qed

lemma next_read_reader:
  assumes "skip \<longrightarrow> length (nm_buffer (cn_msg c)) = NETWORKMESSAGE_MAXSIZE" "cn_protocol c \<noteq> None"
    and "cn_reads c = []" "cn_dispatched c = (if skip then 1 else 0)"
  shows "reader_inv (next_read thrown skip c)"
proof (cases skip)
  case True
  with assms show ?thesis by (simp add: next_read_def reader_inv_def)
next
  case False
  with assms show ?thesis
    by (simp add: next_read_def Let_def)
      (rule reader_start_header, simp add: reader_idle_def nm_reset_def)
qed

lemma make_protocol_keeps:
  assumes "nm_position m < 65536" "make_protocol svcs b m = (svc, m')"
  shows "length (nm_buffer m') = length (nm_buffer m)"
  using getByte_keeps [OF assms(1)] assms(2)
  by (auto simp: make_protocol_def keeps_buffer_def split: prod.splits)

lemma first_packet_defined:
  assumes "length (nm_buffer (cn_msg c)) = NETWORKMESSAGE_MAXSIZE" "nm_position (cn_msg c) = 2"
    and "nm_length (cn_msg c) \<le> 4098" "cn_reads c = []" "cn_dispatched c = 0"
  shows "\<exists>d. first_packet env c = Some d \<and> cn_reads d = [] \<and> cn_dispatched d = 0
    \<and> (cn_protocol d = None \<longrightarrow> reader_inv d)"
proof -
  let ?m = "cn_msg c"
  have readable: "nm_readable ?m" using assms by (simp add: nm_readable_def nm_wf_def)
  obtain w m1 where get: "read_int nm_get 4 ?m = Some (w :: u32, m1)" and mv: "cursor_moved ?m m1"
    using read_int_nm_get_safe [OF readable, of 4] by blast
  show ?thesis
  proof (cases "cn_protocol c")
    case (Some p)
    then show ?thesis using get assms(4,5)
      by (cases "env_first env p (skipBytes 2 m1)") (simp add: first_packet_def)
  next
    case None
    have "\<exists>k. first_checksum ?m = Some k"
      using assms(1-3) by (auto simp: first_checksum_def Let_def)
    then obtain k where k: "first_checksum ?m = Some k" by blast
    let ?m2 = "if w \<noteq> k then skipBytes (- int CHECKSUM_LENGTH) m1 else m1"
    have m2: "length (nm_buffer ?m2) = NETWORKMESSAGE_MAXSIZE" "nm_position ?m2 < 65536"
      using mv assms(1) by (auto simp: cursor_moved_def skipBytes_def nat_less_iff)
    obtain svc m3 where mk: "make_protocol (env_services env) (w = k) ?m2 = (svc, m3)" by fastforce
    have m3: "length (nm_buffer m3) = NETWORKMESSAGE_MAXSIZE"
      using make_protocol_keeps [OF m2(2) mk] m2(1) by simp
    show ?thesis
    proof (cases svc)
      case None
      let ?d = "conn_close True (c\<lparr>cn_msg := m3, cn_receivedFirst := True\<rparr>)"
      have d: "first_packet env c = Some ?d"
        unfolding first_packet_def \<open>cn_protocol c = None\<close> using k get mk None by (simp add: Let_def)
      have "reader_inv ?d" using assms(4,5) m3 by (simp add: reader_inv_def)
      with d assms(4,5) show ?thesis by simp
    next
      case (Some s)
      then show ?thesis
        unfolding first_packet_def \<open>cn_protocol c = None\<close> using k get mk assms(4,5)
        by (cases "env_first env new_protocol m3") (simp add: Let_def)
    qed
  qed
qed

lemma conn_parsePacket_reader:
  assumes "reader_idle c" "nm_position (cn_msg c) = 2" "nm_length (cn_msg c) \<le> 4098"
    and "cn_protocol c \<noteq> None \<longrightarrow> 6 \<le> nm_length (cn_msg c)"
  shows "\<exists>c'. conn_parsePacket env thrown error c = Some c' \<and> reader_inv c'"
proof (cases "error \<or> cn_state c = CONNECTION_STATE_CLOSED")
  case True
  have "reader_inv (conn_close True (c\<lparr>cn_readTimer := False\<rparr>))"
    using assms(1) by (intro reader_idle_close) (simp add: reader_idle_def)
  with True show ?thesis by (simp add: conn_parsePacket_def)
next
  case opened: False
  let ?c = "c\<lparr>cn_readTimer := False\<rparr>"
  note idle = assms(1) [unfolded reader_idle_def]
  show ?thesis
  proof (cases "cn_receivedFirst c")
    case False
    obtain d where d: "first_packet env ?c = Some d" "cn_reads d = []" "cn_dispatched d = 0"
        "cn_protocol d = None \<longrightarrow> reader_inv d"
      using first_packet_defined [of ?c env] idle assms(2,3) by auto
    have "reader_inv (next_read thrown False d)" if "cn_protocol d \<noteq> None"
      using that d by (intro next_read_reader) simp_all
    with d False opened show ?thesis by (simp add: conn_parsePacket_def Let_def)
  next
    case True
    with opened idle obtain p where p: "cn_protocol c = Some p" by auto
    obtain skip p' m where r: "onRecvMessage p (cn_msg c) = Some (skip, p', m)" "keeps_buffer (cn_msg c) m"
      using onRecvMessage_defined [of "cn_msg c" p] idle assms(2-4) p by auto
    have "reader_inv (next_read thrown skip (?c\<lparr>cn_protocol := Some p', cn_msg := m,
        cn_dispatched := cn_dispatched c + (if skip then 1 else 0)\<rparr>))"
      using idle r(2) by (intro next_read_reader) (simp_all add: keeps_buffer_def)
    with p r True opened show ?thesis by (simp add: conn_parsePacket_def Let_def)
  qed
qed

lemma receive_bytes_fits:
  assumes "length bytes = read_size r" "request_ok known m r" "length (nm_buffer m) = NETWORKMESSAGE_MAXSIZE"
  shows "\<exists>m1. receive_bytes r bytes m = Some m1 \<and> length (nm_buffer m1) = NETWORKMESSAGE_MAXSIZE
    \<and> nm_position m1 = nm_position m \<and> nm_length m1 = nm_length m"
  using assms by (cases r) (auto simp: receive_bytes_def Let_def length_store)

lemma read_done_reader:
  assumes "reader_inv c" "env_ok env" "cn_reads c \<noteq> []" "length bytes = read_size (hd (cn_reads c))"
  shows "\<exists>c'. read_done env thrown error bytes now loading c = Some c' \<and> reader_inv c'"
proof -
  let ?r = "hd (cn_reads c)"
  have ok: "request_ok (cn_protocol c \<noteq> None) (cn_msg c) ?r"
    and buf: "length (nm_buffer (cn_msg c)) = NETWORKMESSAGE_MAXSIZE"
    and first: "cn_receivedFirst c \<longrightarrow> cn_protocol c \<noteq> None \<or> cn_state c = CONNECTION_STATE_CLOSED"
    and one: "tl (cn_reads c) = []" "cn_dispatched c = 0"
    using assms(1,3) by (cases "cn_reads c"; auto simp: reader_inv_def)+
  obtain m where m: "(if error then Some (cn_msg c) else receive_bytes ?r bytes (cn_msg c)) = Some m"
      "length (nm_buffer m) = NETWORKMESSAGE_MAXSIZE" "nm_position m = nm_position (cn_msg c)" "nm_length m = nm_length (cn_msg c)"
    using receive_bytes_fits [OF assms(4) ok buf] buf by (cases error) auto
  define d where "d = c\<lparr>cn_reads := tl (cn_reads c), cn_msg := m\<rparr>"
  have idle: "reader_idle d"
    using one first m(2) by (auto simp: d_def reader_idle_def)
  have d: "cn_msg d = m" "cn_protocol d = cn_protocol c" by (simp_all add: d_def)
  have rd: "read_done env thrown error bytes now loading c = (case ?r of
      Rq_Identification n \<Rightarrow> Some (parseProxyIdentification env thrown error now loading d)
    | Rq_Header \<Rightarrow> Some (parseHeader env thrown error now loading d)
    | Rq_Body n \<Rightarrow> conn_parsePacket env thrown error d)"
    unfolding d_def read_done_def Let_def m(1) by simp
  show ?thesis
  proof (cases ?r)
    case (Rq_Identification n)
    with rd parseProxyIdentification_reader [OF idle assms(2)] show ?thesis by simp
  next
    case Rq_Header
    with rd parseHeader_reader [OF idle] show ?thesis by simp
  next
    case (Rq_Body n)
    with ok d m have "nm_position (cn_msg d) = 2" "nm_length (cn_msg d) = n + 2" "n \<le> 4096"
        "cn_protocol d \<noteq> None \<longrightarrow> 4 \<le> n"
      by auto
    with conn_parsePacket_reader [OF idle, of env thrown "error"] Rq_Body rd show ?thesis by auto
  qed
qed

text \<open>The writer's events leave the reader alone.\<close>

lemma send_front_reader:
  assumes "send_front env thrown c = Some c'" "reader_inv c"
  shows "reader_inv c'"
  using assms
  by (auto simp: send_front_def internalSend_def reader_inv_def Let_def split: option.splits if_splits)

lemma conn_send_reader: "reader_inv c \<Longrightarrow> reader_inv (conn_send thrown m c)"
  by (auto simp: conn_send_def reader_inv_def Let_def)

lemma internalWorker_reader:
  assumes "internalWorker env thrown c = Some c'" "reader_inv c"
  shows "reader_inv c'"
proof (cases "cn_queue c = []")
  case True
  then show ?thesis using assms by (auto simp: internalWorker_def reader_inv_def split: if_splits)
next
  case False
  then show ?thesis using assms send_front_reader by (simp add: internalWorker_def)
qed

lemma onWriteOperation_reader:
  assumes "onWriteOperation env error thrown c = Some c'" "reader_inv c"
  shows "reader_inv c'"
proof -
  have base: "reader_inv (c\<lparr>cn_writeTimer := False, cn_queue := q\<rparr>)" for q
    using assms(2) by (simp add: reader_inv_def)
  then have closed: "reader_inv (closeSocket (c\<lparr>cn_writeTimer := False, cn_queue := q\<rparr>))" for q
    by (simp add: reader_inv_def)
  show ?thesis
    using assms(1) base closed
    by (auto simp: onWriteOperation_def Let_def split: if_splits
        intro: send_front_reader reader_inv_close)
qed

lemma resumeWork_reader:
  assumes "reader_inv c" "0 < cn_dispatched c"
  shows "reader_inv (resumeWork thrown (c\<lparr>cn_dispatched := cn_dispatched c - 1,
    cn_msg := setBufferPosition cursor (cn_msg c)\<rparr>))"
proof -
  have "length (cn_reads c) + cn_dispatched c \<le> 1" using assms(1) by (simp add: reader_inv_def)
  then have "cn_reads c = []" "cn_dispatched c = 1" using assms(2) by (cases "cn_reads c"; simp)+
  with assms(1) show ?thesis
    unfolding resumeWork_def
    by (intro reader_start_header) (simp add: reader_inv_def reader_idle_def setBufferPosition_def)
qed

lemma conn_handle_reader:
  assumes "reader_inv c" "writer_inv c" "env_ok env" "conn_enabled ev c"
  shows "\<exists>c'. conn_handle env ev c = Some c' \<and> reader_inv c'"
proof -
  have front: "\<exists>c'. send_front env thrown d = Some c'"
    if known: "cn_protocol d \<noteq> None" and wf: "om_wf (hd (cn_queue d))" for d thrown
  proof -
    obtain p where p: "cn_protocol d = Some p" using known by auto
    obtain p' m' where "onSendMessage (env_deflate env) (env_stream env) p (hd (cn_queue d)) = Some (p', m')"
      using onSendMessage_defined [OF wf] by blast
    with p show ?thesis by (simp add: send_front_def)
  qed
  show ?thesis
  proof (cases ev)
    case (Ev_Send thrown m)
    then show ?thesis using conn_send_reader [OF assms(1)] by simp
  next
    case (Ev_Close force)
    then show ?thesis using reader_inv_close [OF assms(1)] by simp
  next
    case (Ev_Worker thrown)
    with assms(4) have w: "0 < cn_workers c" by simp
    note inv = writer_inv_worker [OF assms(2) w]
    let ?c = "c\<lparr>cn_workers := cn_workers c - 1\<rparr>"
    have "reader_inv ?c" using assms(1) by (simp add: reader_inv_def)
    moreover have "\<exists>c'. internalWorker env thrown ?c = Some c'"
      using front [of ?c thrown] inv by (simp add: internalWorker_def)
    ultimately show ?thesis using internalWorker_reader Ev_Worker by auto
  next
    case (Ev_WriteDone error thrown)
    with assms(4) have w: "cn_writes c \<noteq> []" by simp
    note inv = writer_inv_write [OF assms(2) w]
    let ?c = "c\<lparr>cn_writes := tl (cn_writes c),
        cn_written := cn_written c @ (if error then [] else [hd (cn_writes c)])\<rparr>"
    have "reader_inv ?c" using assms(1) by (simp add: reader_inv_def)
    moreover have "\<exists>c'. onWriteOperation env error thrown ?c = Some c'"
    proof (cases "error \<or> tl (cn_queue c) = []")
      case True
      with inv(4) show ?thesis by (auto simp: onWriteOperation_def Let_def)
    next
      case False
      have "om_wf (hd (tl (cn_queue c)))" using False inv(5) by simp
      with False inv(4,7) front [of "?c\<lparr>cn_writeTimer := False, cn_queue := tl (cn_queue c)\<rparr>" thrown]
      show ?thesis by (simp add: onWriteOperation_def Let_def)
    qed
    ultimately show ?thesis using onWriteOperation_reader Ev_WriteDone by auto
  next
    case (Ev_ReadDone thrown error bytes now loading)
    with assms(4) read_done_reader [OF assms(1,3)] show ?thesis by simp
  next
    case (Ev_Dispatch alive thrown cursor)
    with assms(1,4) resumeWork_reader [OF assms(1)] show ?thesis
      by (auto simp: Let_def reader_inv_def)
  next
    case Ev_ReadTimeout
    have "reader_inv (c\<lparr>cn_readTimer := False\<rparr>)" using assms(1) by (simp add: reader_inv_def)
    then show ?thesis using Ev_ReadTimeout reader_inv_close by (simp add: handleTimeout_def)
  next
    case Ev_WriteTimeout
    have "reader_inv (c\<lparr>cn_writeTimer := False\<rparr>)" using assms(1) by (simp add: reader_inv_def)
    then show ?thesis using Ev_WriteTimeout reader_inv_close by (simp add: handleTimeout_def)
  qed
qed

lemma conn_started_reader: "reader_inv (conn_started env thrown now)"
  unfolding conn_started_def conn_accept_def acceptInternal_def
  by (simp, intro conjI impI reader_start_header reader_start_identification)
    (simp_all add: reader_idle_def conn_new_def nm_new_def)

lemma conn_run_invs:
  assumes "conn_run env (conn_started env thrown now) evs log c" "env_ok env"
  shows "reader_inv c \<and> writer_inv c"
  using assms(1)
proof (induction "conn_started env thrown now" evs log c rule: conn_run.induct)
  case run_Nil
  then show ?case using conn_started_reader conn_started_writer by blast
next
  case (run_snoc evs log c' ev c'')
  then obtain "conn_enabled ev c'" "conn_handle env ev c' = Some c''" by (auto simp: conn_step_iff)
  with run_snoc conn_handle_reader [of c' env ev] assms(2) conn_step_writer show ?case by auto
qed

section \<open>The packet rate\<close>

text \<open>
  At most \<open>2 * limit + 1\<close> packets are counted before the counter restarts, with the
  limit ten times the configured one just after the map was loaded.
\<close>

definition rate_ok :: "conn_env \<Rightarrow> conn \<Rightarrow> bool" where
  "rate_ok env c \<longleftrightarrow> cn_state c = CONNECTION_STATE_CLOSED
     \<or> unat (cn_packetsSent c) \<le> 20 * unat (env_maxPps env) + 1"

lemma timePassed_pos: "0 < unat (timePassed now c)"
proof -
  have "1 \<le> timePassed now c" by (simp add: timePassed_def)
  then show ?thesis by (simp add: word_le_nat_alt)
qed

lemma parseHeader_rate:
  assumes "rate_ok env c" "40 * unat (env_maxPps env) + 4 < 2 ^ 32"
  shows "rate_ok env (parseHeader env thrown error now loading c)"
proof -
  let ?c = "c\<lparr>cn_readTimer := False\<rparr>"
  let ?k = "cn_packetsSent c + 1" and ?t = "timePassed now ?c"
  let ?M = "if loading then env_maxPps env * 10 else env_maxPps env"
  have M: "unat ?M \<le> 10 * unat (env_maxPps env)"
    using assms(2) by (auto simp: unat_word_ariths)
  have small: "unat ?k \<le> 20 * unat (env_maxPps env) + 1" if "\<not> ?k div ?t > ?M" "\<not> ?t > 2"
  proof -
    have t: "unat ?t \<le> 2" using that(2) by (simp add: word_le_nat_alt word_less_nat_alt)
    have "unat ?k div unat ?t \<le> unat ?M"
      using that(1) by (simp add: word_less_nat_alt unat_div not_less)
    then have "unat ?k div unat ?t \<le> 10 * unat (env_maxPps env)" using M by simp
    then have "unat ?k < Suc (10 * unat (env_maxPps env)) * unat ?t"
      using timePassed_pos [of now ?c] by (simp add: div_less_iff_less_mult less_Suc_eq_le [symmetric])
    also have "\<dots> \<le> Suc (10 * unat (env_maxPps env)) * 2" using t by (rule mult_le_mono2)
    finally show ?thesis by simp
  qed
  have reset: "rate_ok env (start_read thrown r d)" "rate_ok env (conn_close True d)"
    if "rate_ok env d" for r d
    using that by (simp_all add: rate_ok_def start_read_def)
  show ?thesis
  proof (cases "error \<or> cn_state c = CONNECTION_STATE_CLOSED \<or> ?k div ?t > ?M")
    case True
    then show ?thesis
      by (auto simp: parseHeader_def Let_def rate_ok_def)
  next
    case False
    define d where "d = (if ?t > 2 then ?c\<lparr>cn_packetsSent := ?k, cn_timeConnected := now, cn_packetsSent := 0\<rparr>
      else ?c\<lparr>cn_packetsSent := ?k\<rparr>)"
    have d: "rate_ok env d" using small False by (auto simp: d_def rate_ok_def)
    then have d': "rate_ok env (d\<lparr>cn_readTimer := True, cn_msg := m\<rparr>)" for m by (simp add: rate_ok_def)
    have "parseHeader env thrown error now loading c
        = (let size0 = getLengthHeader (cn_msg d);
               size1 = (if cn_protocol d \<noteq> None then frame_size size0 else size0)
           in if size1 = 0 \<or> size1 > 4096 then conn_close True d
              else start_read thrown (Rq_Body size1)
                (d\<lparr>cn_readTimer := True,
                   cn_msg := snd (getBodyBuffer (setLength (size1 + HEADER_LENGTH) (cn_msg d)))\<rparr>))"
      using False by (simp add: parseHeader_def Let_def d_def)
    then show ?thesis using reset [OF d] reset [OF d'] by (simp add: Let_def)
  qed
qed

lemma rate_ok_frame:
  "rate_ok env c \<Longrightarrow> cn_packetsSent c' = cn_packetsSent c
    \<Longrightarrow> (cn_state c = CONNECTION_STATE_CLOSED \<longrightarrow> cn_state c' = CONNECTION_STATE_CLOSED) \<Longrightarrow> rate_ok env c'"
  by (auto simp: rate_ok_def)

lemma parseProxyIdentification_rate:
  assumes "rate_ok env c" "40 * unat (env_maxPps env) + 4 < 2 ^ 32"
  shows "rate_ok env (parseProxyIdentification env thrown error now loading c)"
proof (cases "error \<or> cn_state c = CONNECTION_STATE_CLOSED")
  case True
  then show ?thesis by (simp add: parseProxyIdentification_def rate_ok_def)
next
  case False
  have r: "unat (cn_packetsSent c) \<le> 20 * unat (env_maxPps env) + 1"
    using assms(1) False by (auto simp: rate_ok_def)
  have header: "rate_ok env (parseHeader env thrown e now loading (c\<lparr>cn_readTimer := False, cn_state := s\<rparr>))" for e s
    by (rule parseHeader_rate [OF _ assms(2)]) (use r in \<open>simp add: rate_ok_def\<close>)
  show ?thesis
    using False r header
    by (cases "cn_state c")
      (auto simp: parseProxyIdentification_def Let_def acceptInternal_def rate_ok_def)
qed

lemma first_packet_rate:
  "first_packet env c = Some d \<Longrightarrow> cn_packetsSent d = cn_packetsSent c"
  unfolding first_packet_def Let_def by (auto split: option.splits prod.splits if_splits)

lemma next_read_packets: "cn_packetsSent (next_read thrown skip c) = cn_packetsSent c"
  by (simp add: next_read_def Let_def)

lemma conn_parsePacket_packets:
  assumes "conn_parsePacket env thrown error c = Some c'"
  shows "cn_packetsSent c' = cn_packetsSent c"
  using assms
  by (cases rule: conn_parsePacket_cases) (auto simp: next_read_packets dest: first_packet_rate)

lemma read_done_rate:
  assumes "read_done env thrown error bytes now loading c = Some c'" "rate_ok env c"
    and "40 * unat (env_maxPps env) + 4 < 2 ^ 32"
  shows "rate_ok env c'"
proof -
  obtain m where run: "(case hd (cn_reads c) of
      Rq_Identification n \<Rightarrow> Some (parseProxyIdentification env thrown error now loading (c\<lparr>cn_reads := tl (cn_reads c), cn_msg := m\<rparr>))
    | Rq_Header \<Rightarrow> Some (parseHeader env thrown error now loading (c\<lparr>cn_reads := tl (cn_reads c), cn_msg := m\<rparr>))
    | Rq_Body n \<Rightarrow> conn_parsePacket env thrown error (c\<lparr>cn_reads := tl (cn_reads c), cn_msg := m\<rparr>)) = Some c'"
    using assms(1) by (rule read_done_runs)
  define d where "d = c\<lparr>cn_reads := tl (cn_reads c), cn_msg := m\<rparr>"
  have d: "rate_ok env d" using assms(2) by (simp add: d_def rate_ok_def)
  note rd = run [folded d_def]
  show ?thesis
  proof (cases "hd (cn_reads c)")
    case (Rq_Body n)
    with rd have pp: "conn_parsePacket env thrown error d = Some c'" by simp
    have "cn_state d = CONNECTION_STATE_CLOSED \<longrightarrow> cn_state c' = CONNECTION_STATE_CLOSED"
      using conn_parsePacket_writer [OF pp] by (simp add: same_writer_def)
    with rate_ok_frame [OF d conn_parsePacket_packets [OF pp]] show ?thesis by blast
  qed (use rd assms(3) parseHeader_rate parseProxyIdentification_rate d in auto)
qed

lemma send_front_rate:
  assumes "send_front env thrown c = Some c'" "rate_ok env c"
  shows "rate_ok env c'"
  using assms
  by (auto simp: send_front_def internalSend_def rate_ok_def Let_def split: option.splits if_splits)

lemma conn_send_rate: "rate_ok env c \<Longrightarrow> rate_ok env (conn_send thrown m c)"
  by (cases "cn_queue c = []") (auto simp: conn_send_def rate_ok_def Let_def)

lemma conn_handle_rate:
  assumes "conn_handle env ev c = Some c'" "rate_ok env c" "40 * unat (env_maxPps env) + 4 < 2 ^ 32"
  shows "rate_ok env c'"
proof (cases ev)
  case (Ev_Send thrown m)
  with assms conn_send_rate show ?thesis by auto
next
  case (Ev_Worker thrown)
  have "rate_ok env (c\<lparr>cn_workers := cn_workers c - 1\<rparr>)" using assms(2) by (simp add: rate_ok_def)
  with assms(1) Ev_Worker send_front_rate show ?thesis
    by (auto simp: internalWorker_def rate_ok_def split: if_splits)
next
  case (Ev_WriteDone error thrown)
  let ?w = "cn_written c @ (if error then [] else [hd (cn_writes c)])"
  let ?c = "c\<lparr>cn_writes := tl (cn_writes c), cn_written := ?w, cn_writeTimer := False, cn_queue := tl (cn_queue c)\<rparr>"
  have "rate_ok env ?c" using assms(2) by (simp add: rate_ok_def)
  with assms(1,2) Ev_WriteDone send_front_rate [of env thrown ?c c'] show ?thesis
    by (auto simp: onWriteOperation_def Let_def rate_ok_def split: if_splits)
next
  case (Ev_ReadDone thrown error bytes now loading)
  with assms read_done_rate show ?thesis by auto
qed (use assms in \<open>auto simp: rate_ok_def handleTimeout_def resumeWork_def start_read_def Let_def
      split: if_splits\<close>)

section \<open>Properties\<close>

text \<open>A configuration and an established connection for the concrete runs below.\<close>

definition sample_env :: conn_env where
  "sample_env = \<lparr>env_deflate = \<lambda>_. None, env_stream = False, env_serverName = [67, 114],
     env_maxPps = 25, env_services = [], env_first = Pair\<rparr>"

definition established :: "protocol \<Rightarrow> conn" where
  "established p = (conn_new 5)\<lparr>cn_protocol := Some p, cn_receivedFirst := True\<rparr>"

text \<open>
  C3. Every connection, at every moment of every run from \<open>ServicePort::onAccept\<close> on
  (sends, closes, timeouts, completions and failures of reads and writes in any order,
  with any bytes from the peer): at most one write is posted or in flight and at most one
  read is pending or packet being parsed, so the message buffer is never overwritten while
  it is parsed; the body that is waited for is the one the header announced, of at most 4096
  bytes; and whatever happens next is defined: no handler dereferences a missing protocol or
  pops an empty queue, no read writes and no parser reads outside the message buffer. The
  configured server name is neither empty nor longer than the buffer.
\<close>
theorem connection_runs_safely:
  assumes "conn_run env (conn_started env thrown now) evs log c" "env_ok env"
  shows "cn_workers c + length (cn_writes c) \<le> 1
    \<and> length (cn_reads c) + cn_dispatched c \<le> 1
    \<and> (cn_queue c \<noteq> [] \<and> cn_state c \<noteq> CONNECTION_STATE_CLOSED
         \<longrightarrow> cn_workers c + length (cn_writes c) = 1)
    \<and> (\<forall>n. Rq_Body n \<in> set (cn_reads c) \<longrightarrow> n \<le> 4096 \<and> nm_length (cn_msg c) = n + HEADER_LENGTH)
    \<and> (\<forall>ev. conn_enabled ev c \<longrightarrow> conn_handle env ev c \<noteq> None)"
proof -
  have inv: "reader_inv c" "writer_inv c" using conn_run_invs [OF assms] by blast+
  have "conn_handle env ev c \<noteq> None" if "conn_enabled ev c" for ev
    using conn_handle_reader [OF inv assms(2) that] by auto
  moreover have "n \<le> 4096 \<and> nm_length (cn_msg c) = n + HEADER_LENGTH" if "Rq_Body n \<in> set (cn_reads c)" for n
    using inv(1) that by (auto simp: reader_inv_def)
  ultimately show ?thesis using inv by (simp add: reader_inv_def writer_inv_def)
qed

theorem connection_runs_safely_witness:
  "\<exists>c. conn_run sample_env
      (acceptInternal False True (conn_new 100)) [Ev_Close False] [] c
    \<and> cn_workers c + length (cn_writes c) \<le> 1 \<and> length (cn_reads c) + cn_dispatched c \<le> 1"
proof -
  let ?c0 = "acceptInternal False True (conn_new 100)"
  have start: "conn_started sample_env False 100 = ?c0"
    by (simp add: conn_started_def port_is_single_socket_def sample_env_def)
  have "conn_step sample_env ?c0 (Ev_Close False) (conn_close False ?c0)"
    by (simp add: conn_step_iff)
  from run_snoc [OF run_Nil this] have run: "conn_run sample_env ?c0 [Ev_Close False] [] (conn_close False ?c0)"
    by (simp add: accepted_def)
  have ok: "env_ok sample_env" by (simp add: env_ok_def sample_env_def)
  from connection_runs_safely [OF run [folded start] ok] run show ?thesis
    unfolding start by blast
qed

text \<open>
  C6. First in, first out: on an established connection, whatever else happens, the bytes
  written to the socket are the frames of a prefix of the messages \<open>send\<close> accepted, in the
  order they were accepted, each framed exactly once with the protocol state its
  predecessors left.
\<close>
theorem messages_leave_in_order:
  assumes "conn_run env c evs log c'" "writer_inv c"
    and "cn_protocol c = Some p" "cn_receivedFirst c" "cn_queue c = []" "cn_writes c = []" "cn_written c = []"
  shows "\<exists>framed rest q frames lost. log = framed @ rest \<and> frame_all env p framed = Some (q, frames)
    \<and> frames = cn_written c' @ lost
    \<and> (cn_state c' \<noteq> CONNECTION_STATE_CLOSED \<longrightarrow> lost = cn_writes c'
         \<and> rest = (if cn_writes c' = [] then cn_queue c' else tl (cn_queue c')))"
proof -
  have "p = p\<lparr>clientSequenceNumber := clientSequenceNumber p\<rparr>" by simp
  then have "fifo env p [] c"
    using assms(3-7) by (intro fifoI_live [of env p "[]" p c "[]" "clientSequenceNumber p"]) simp_all
  then have "fifo env p log c'" using conn_run_fifo [OF assms(1,2)] by blast
  then show ?thesis by (cases rule: fifoE) blast+
qed

theorem messages_leave_in_order_witness:
  "\<exists>c' framed rest q frames lost. conn_run sample_env (established (new_protocol\<lparr>rawMessages := True\<rparr>))
      [Ev_Send False (nm_put [1, 2] om_new), Ev_Worker False, Ev_WriteDone False False]
      [nm_put [1, 2] om_new] c'
    \<and> cn_written c' = [[1, 2]] \<and> [nm_put [1, 2] om_new] = framed @ rest
    \<and> frame_all sample_env (new_protocol\<lparr>rawMessages := True\<rparr>) framed = Some (q, frames)
    \<and> frames = cn_written c' @ lost"
proof -
  let ?p = "new_protocol\<lparr>rawMessages := True\<rparr>"
  define m where "m = nm_put [1, 2] om_new"
  define c where "c = established ?p"
  have c: "cn_state c = CONNECTION_STATE_OPEN" "cn_queue c = []" "cn_protocol c = Some ?p"
      "cn_socket c" "cn_workers c = 0" "cn_writes c = []" "cn_written c = []" "cn_receivedFirst c"
    by (simp_all add: c_def established_def conn_new_def)
  have new: "nm_position om_new = 7" "wire_bytes om_new = []" by (simp_all add: om_new_def wire_bytes_def)
  have m: "om_wf m" "wire_bytes m = [1, 2]"
    using nm_put_om(1,2) [OF om_new_wf, of "[1, 2]"] new by (simp_all add: m_def)
  define c1 where "c1 = c\<lparr>cn_queue := [m], cn_workers := 1\<rparr>"
  define c2 where "c2 = c1\<lparr>cn_workers := 0, cn_protocol := Some ?p, cn_writeTimer := True, cn_writes := [[1, 2]]\<rparr>"
  define c3 where "c3 = c2\<lparr>cn_writes := [], cn_written := [[1, 2]], cn_writeTimer := False, cn_queue := []\<rparr>"
  have s1: "conn_step sample_env c (Ev_Send False m) c1"
    using c m by (simp add: conn_step_iff c1_def conn_send_def)
  have s2: "conn_step sample_env c1 (Ev_Worker False) c2"
    using c m by (simp add: conn_step_iff c1_def c2_def internalWorker_def send_front_def
        internalSend_def onSendMessage_def)
  have s3: "conn_step sample_env c2 (Ev_WriteDone False False) c3"
    using c by (simp add: conn_step_iff c1_def c2_def c3_def onWriteOperation_def)
  have run: "conn_run sample_env c [Ev_Send False m, Ev_Worker False, Ev_WriteDone False False] [m] c3"
    using run_snoc [OF run_snoc [OF run_snoc [OF run_Nil s1] s2] s3] c by (simp add: accepted_def)
  have wi: "writer_inv c" using c by (simp add: writer_inv_def)
  have w: "cn_written c3 = [[1, 2]]" by (simp add: c3_def)
  obtain framed rest q frames lost where "[m] = framed @ rest"
      "frame_all sample_env ?p framed = Some (q, frames)" "frames = cn_written c3 @ lost"
    using messages_leave_in_order [OF run wi c(3,8,2,6,7)] by blast
  with run w show ?thesis unfolding m_def c_def by blast
qed

text \<open>
  The packet rate limit: on an open connection the counter of packets never exceeds
  twice the limit plus one, with the limit at most ten times \<open>MAX_PACKETS_PER_SECOND\<close>
  (for any setting small enough that the counter cannot wrap).
\<close>
theorem packet_rate_limited:
  assumes "conn_run env (conn_started env thrown now) evs log c"
    and "40 * unat (env_maxPps env) + 4 < 2 ^ 32"
    and "cn_state c \<noteq> CONNECTION_STATE_CLOSED"
  shows "unat (cn_packetsSent c) \<le> 20 * unat (env_maxPps env) + 1"
proof -
  have start: "rate_ok env (conn_started env thrown now)"
    by (simp add: rate_ok_def conn_started_def conn_accept_def acceptInternal_def conn_new_def)
  have "rate_ok env c"
  proof (rule conn_run_invariant [OF assms(1), of "rate_ok env"])
    fix a ev b
    assume "rate_ok env a" "conn_step env a ev b"
    then show "rate_ok env b" using conn_handle_rate [OF _ _ assms(2)] by (auto simp: conn_step_iff)
  qed (rule start)
  with assms(3) show ?thesis by (simp add: rate_ok_def)
qed

theorem packet_rate_limited_witness:
  "unat (cn_packetsSent (acceptInternal False True (conn_new 100))) \<le> 20 * unat (25 :: u32) + 1"
proof -
  let ?c0 = "acceptInternal False True (conn_new 100)"
  have start: "conn_started sample_env False 100 = ?c0"
    by (simp add: conn_started_def port_is_single_socket_def sample_env_def)
  have run: "conn_run sample_env (conn_started sample_env False 100) [] [] ?c0"
    unfolding start by (rule run_Nil)
  have opened: "cn_state ?c0 \<noteq> CONNECTION_STATE_CLOSED"
    by (simp add: acceptInternal_def start_read_def conn_new_def)
  from packet_rate_limited [OF run _ opened] show ?thesis by (simp add: sample_env_def)
qed

end
