(* ===== verification/Return_Value.thy ===== *)
theory Return_Value
  imports Main
begin

text \<open>
  The return values of the operations of the game (\<open>enum ReturnValue\<close> of
  src/src/items/items_definitions.hpp) that the modelled code names. The others can only
  come from code that is a parameter of the model; they are kept by their number. Return
  values are only compared, never computed with.
\<close>

datatype ReturnValue =
    RETURNVALUE_NOERROR | RETURNVALUE_NOTPOSSIBLE | RETURNVALUE_NOTMOVABLE
  | RETURNVALUE_CONTAINERNOTENOUGHROOM | RETURNVALUE_ONLYAMMOINQUIVER | RETURNVALUE_CANNOTPICKUP
  | RETURNVALUE_THISISIMPOSSIBLE | RETURNVALUE_CONTAINERISFULL
  | RETURNVALUE_PLAYERWITHTHISNAMEISNOTONLINE | RETURNVALUE_NAMEISTOOAMBIGUOUS
  | RETURNVALUE_ITEMISNOTYOURS | RETURNVALUE_NEEDEXCHANGE | RETURNVALUE_NOTENOUGHROOM
  | RETURNVALUE_OTHER nat

end
