(* ===== verification/Wildcard_Tree.thy ===== *)
theory Wildcard_Tree
  imports Prelude Return_Value
begin

text \<open>
  \<open>WildcardTreeNode\<close> (src/src/utils/wildcardtree.hpp and .cpp): the trie of the lower-case
  names of the players online, with which \<open>Game::getPlayerByNameWildcard\<close> completes a
  name. The nodes are owned by exactly one parent, so the shared pointers are a tree. The
  children of a node are kept as a list of pairs with distinct keys: the order of
  \<open>std::map\<close> is not observable, since \<open>findOne\<close> takes \<open>begin()\<close> of a singleton only. The
  locale \<open>name_directory\<close> is what the game relies on.
\<close>

datatype node = Node (children: "(char \<times> node) list") (breakpoint: bool)

definition getChild :: "char \<Rightarrow> node \<Rightarrow> node option" where
  "getChild ch n = map_of (children n) ch"

text \<open>\<open>children.emplace\<close> or an update of the child in place; \<open>children.erase\<close>.\<close>

fun put_child :: "char \<Rightarrow> node \<Rightarrow> (char \<times> node) list \<Rightarrow> (char \<times> node) list" where
  "put_child c n [] = [(c, n)]"
| "put_child c n ((d, m) # cs) = (if c = d then (c, n) # cs else (d, m) # put_child c n cs)"

definition erase_child :: "char \<Rightarrow> (char \<times> node) list \<Rightarrow> (char \<times> node) list" where
  "erase_child c cs = filter (\<lambda>(d, _). d \<noteq> c) cs"

text \<open>The child \<open>addChild\<close> returns, after a breakpoint that is set was set.\<close>

definition addChild :: "char \<Rightarrow> bool \<Rightarrow> node \<Rightarrow> node" where
  "addChild ch breakp n = (case getChild ch n of
      Some child \<Rightarrow> Node (children child) (breakpoint child \<or> breakp)
    | None \<Rightarrow> Node [] breakp)"

text \<open>
  \<open>str.length() - 1\<close> underflows for the empty string, and the loop then reads past its
  end: \<open>None\<close>.
\<close>

fun insert_name :: "string \<Rightarrow> node \<Rightarrow> node option" where
  "insert_name [] n = None"
| "insert_name [c] n = Some (Node (put_child c (addChild c True n) (children n)) (breakpoint n))"
| "insert_name (c # cs) n = (case insert_name cs (addChild c False n) of
      None \<Rightarrow> None
    | Some child \<Rightarrow> Some (Node (put_child c child (children n)) (breakpoint n)))"

text \<open>
  \<open>remove\<close>: \<open>None\<close> when the path breaks off (the method returns and changes nothing). On
  the way back up a node without children and breakpoint is erased from its parent.
\<close>

fun remove_path :: "string \<Rightarrow> node \<Rightarrow> node option" where
  "remove_path [] n = Some (Node (children n) False)"
| "remove_path (c # cs) n = (case getChild c n of
      None \<Rightarrow> None
    | Some child \<Rightarrow> (case remove_path cs child of
        None \<Rightarrow> None
      | Some child' \<Rightarrow>
          Some (Node (if children child' = [] \<and> \<not> breakpoint child'
                      then erase_child c (children n)
                      else put_child c child' (children n)) (breakpoint n))))"

definition remove_name :: "string \<Rightarrow> node \<Rightarrow> node" where
  "remove_name str n = (case remove_path str n of None \<Rightarrow> n | Some n' \<Rightarrow> n')"

fun walk :: "string \<Rightarrow> node \<Rightarrow> node option" where
  "walk [] n = Some n"
| "walk (c # cs) n = (case getChild c n of None \<Rightarrow> None | Some child \<Rightarrow> walk cs child)"

text \<open>The \<open>do ... while (true)\<close> of \<open>findOne\<close>; it descends, so it ends.\<close>

fun complete :: "node \<Rightarrow> string \<Rightarrow> ReturnValue \<times> string" where
  "complete (Node [] b) result = (RETURNVALUE_NOERROR, result)"
| "complete (Node [(c, child)] b) result =
     (if b then (RETURNVALUE_NAMEISTOOAMBIGUOUS, result) else complete child (result @ [c]))"
| "complete (Node (x # y # cs) b) result = (RETURNVALUE_NAMEISTOOAMBIGUOUS, result)"

definition findOne :: "string \<Rightarrow> string \<Rightarrow> node \<Rightarrow> ReturnValue \<times> string" where
  "findOne query result n = (case walk query n of
      None \<Rightarrow> (RETURNVALUE_PLAYERWITHTHISNAMEISNOTONLINE, result)
    | Some cur \<Rightarrow> complete cur query)"

definition root :: node where
  "root = Node [] False"

section \<open>The names in a tree\<close>

fun has_name :: "node \<Rightarrow> string \<Rightarrow> bool" where
  "has_name n [] = breakpoint n"
| "has_name n (c # cs) = (case getChild c n of None \<Rightarrow> False | Some child \<Rightarrow> has_name child cs)"

definition names :: "node \<Rightarrow> string set" where
  "names n = {s. has_name n s}"

definition live :: "node \<Rightarrow> bool" where
  "live n \<longleftrightarrow> children n \<noteq> [] \<or> breakpoint n"

text \<open>Distinct keys, and no dead branches below the root.\<close>

inductive wf_node :: "node \<Rightarrow> bool" where
  "distinct (map fst cs) \<Longrightarrow> (\<And>c child. (c, child) \<in> set cs \<Longrightarrow> wf_node child)
    \<Longrightarrow> (\<And>c child. (c, child) \<in> set cs \<Longrightarrow> live child) \<Longrightarrow> wf_node (Node cs b)"

inductive_cases wf_nodeE: "wf_node (Node cs b)"

lemma wf_node_child:
  assumes "wf_node n" "getChild c n = Some child"
  shows "wf_node child" "live child"
  using assms by (cases n; auto simp: getChild_def elim!: wf_nodeE dest: map_of_SomeD)+

lemma wf_node_breakpoint: "wf_node (Node cs b) \<Longrightarrow> wf_node (Node cs b')"
  by (auto elim!: wf_nodeE intro: wf_node.intros)

lemma wf_node_Nil [simp]: "wf_node (Node [] b)"
  by (rule wf_node.intros) simp_all

lemma put_child_keys: "fst ` set (put_child c n cs) = insert c (fst ` set cs)"
  by (induction c n cs rule: put_child.induct) (simp_all add: insert_commute)

lemma put_child_distinct: "distinct (map fst cs) \<Longrightarrow> distinct (map fst (put_child c n cs))"
proof (induction cs)
  case Nil
  then show ?case by simp
next
  case (Cons a cs)
  obtain d m where "a = (d, m)" by (cases a)
  with Cons show ?case using put_child_keys [of c n cs] by auto
qed

lemma put_child_set: "distinct (map fst cs) \<Longrightarrow>
    set (put_child c n cs) = insert (c, n) {p \<in> set cs. fst p \<noteq> c}"
  by (induction cs) (force simp: image_iff)+

lemma map_of_put_child [simp]: "map_of (put_child c n cs) d = (if d = c then Some n else map_of cs d)"
  by (induction cs) auto

lemma map_of_erase_child [simp]: "map_of (erase_child c cs) d = (if d = c then None else map_of cs d)"
  by (induction cs) (auto simp: erase_child_def)

lemma put_child_nonempty [simp]: "put_child c n cs \<noteq> []"
  by (cases cs) (auto split: if_splits)

lemma wf_put_child:
  assumes "wf_node n" "wf_node child" "live child"
  shows "wf_node (Node (put_child c child (children n)) b)"
proof (cases n)
  case (Node cs b')
  with assms(1) have d: "distinct (map fst cs)"
    and ok: "\<And>c ch. (c, ch) \<in> set cs \<Longrightarrow> wf_node ch \<and> live ch"
    by (auto elim: wf_nodeE)
  show ?thesis
    using Node assms(2,3) d ok put_child_distinct [OF d] put_child_set [OF d]
    by (auto intro!: wf_node.intros)
qed

lemma wf_erase_child: "wf_node n \<Longrightarrow> wf_node (Node (erase_child c (children n)) b)"
  by (cases n) (auto simp: erase_child_def distinct_map inj_on_def elim!: wf_nodeE intro!: wf_node.intros)

lemma wf_addChild: "wf_node n \<Longrightarrow> wf_node (addChild c b n)"
proof (cases "getChild c n")
  case None
  then show ?thesis by (simp add: addChild_def)
next
  case (Some child)
  assume "wf_node n"
  with Some have "wf_node child" by (auto dest: wf_node_child)
  with Some show ?thesis by (cases child) (simp add: addChild_def wf_node_breakpoint)
qed

lemma has_name_addChild:
  "has_name (addChild c b n) s \<longleftrightarrow> has_name n (c # s) \<or> (s = [] \<and> b)"
  by (cases s; cases "getChild c n") (auto simp: addChild_def getChild_def)

lemma insert_name_spec:
  assumes "wf_node n" "s \<noteq> []"
  shows "\<exists>n'. insert_name s n = Some n' \<and> wf_node n' \<and> live n' \<and> names n' = insert s (names n)"
  using assms
proof (induction s n rule: insert_name.induct)
  case (1 n)
  then show ?case by simp
next
  case (2 c n)
  let ?n = "Node (put_child c (addChild c True n) (children n)) (breakpoint n)"
  have "live (addChild c True n)" by (auto simp: addChild_def live_def split: option.split)
  then have "wf_node ?n" using 2 by (intro wf_put_child wf_addChild)
  moreover have "has_name ?n t \<longleftrightarrow> t = [c] \<or> has_name n t" for t
    using has_name_addChild [of c True n] by (cases t) (auto simp: getChild_def)
  ultimately show ?case by (auto simp: names_def live_def)
next
  case (3 c d cs n)
  obtain child where child: "insert_name (d # cs) (addChild c False n) = Some child"
      "wf_node child" "live child" "names child = insert (d # cs) (names (addChild c False n))"
    using 3 wf_addChild [of n c False] by auto
  let ?n = "Node (put_child c child (children n)) (breakpoint n)"
  have "wf_node ?n" using 3(2) child(2,3) by (rule wf_put_child)
  moreover have "has_name ?n t \<longleftrightarrow> t = c # d # cs \<or> has_name n t" for t
    using child(4) has_name_addChild [of c False n]
    by (cases t) (auto simp: names_def getChild_def set_eq_iff)
  ultimately show ?case using child(1) by (auto simp: names_def live_def)
qed

lemma remove_path_spec:
  assumes "wf_node n"
  shows "case remove_path s n of
      None \<Rightarrow> s \<notin> names n
    | Some n' \<Rightarrow> wf_node n' \<and> names n' = names n - {s}"
  using assms
proof (induction s n rule: remove_path.induct)
  case (1 n)
  have "has_name (Node (children n) False) t \<longleftrightarrow> has_name n t \<and> t \<noteq> []" for t
    by (cases t) (auto simp: getChild_def)
  moreover have "wf_node (Node (children n) False)"
    using 1 wf_node_breakpoint by (metis node.collapse)
  ultimately show ?case by (auto simp: names_def)
next
  case (2 c cs n)
  show ?case
  proof (cases "getChild c n")
    case None
    then show ?thesis by (simp add: names_def)
  next
    case (Some child)
    note ch = wf_node_child [OF 2(2) Some]
    note IH = 2(1) [OF Some ch(1)]
    show ?thesis
    proof (cases "remove_path cs child")
      case None
      with IH Some show ?thesis by (simp add: names_def)
    next
      case (Some child')
      with IH have child': "wf_node child'" "names child' = names child - {cs}" by auto
      have dead: "names child' = {}" if "\<not> live child'"
      proof -
        have "\<not> has_name child' t" for t
          using that by (cases t) (auto simp: live_def getChild_def)
        then show ?thesis by (simp add: names_def)
      qed
      show ?thesis
      proof (cases "live child'")
        case True
        let ?n = "Node (put_child c child' (children n)) (breakpoint n)"
        have "remove_path (c # cs) n = Some ?n"
          using True Some \<open>getChild c n = Some child\<close> by (auto simp: live_def)
        moreover have "wf_node ?n" using 2(2) child'(1) True by (rule wf_put_child)
        moreover have "has_name ?n t \<longleftrightarrow> has_name n t \<and> t \<noteq> c # cs" for t
          using child'(2) \<open>getChild c n = Some child\<close>
          by (cases t) (auto simp: names_def getChild_def set_eq_iff)
        ultimately show ?thesis by (auto simp: names_def)
      next
        case False
        let ?n = "Node (erase_child c (children n)) (breakpoint n)"
        have "remove_path (c # cs) n = Some ?n"
          using False Some \<open>getChild c n = Some child\<close> by (auto simp: live_def)
        moreover have "wf_node ?n" using 2(2) by (rule wf_erase_child)
        moreover have "has_name ?n t \<longleftrightarrow> has_name n t \<and> t \<noteq> c # cs" for t
          using child'(2) dead [OF False] \<open>getChild c n = Some child\<close>
          by (cases t) (auto simp: names_def getChild_def set_eq_iff)
        ultimately show ?thesis by (auto simp: names_def)
      qed
    qed
  qed
qed

lemma remove_name_spec:
  assumes "wf_node n"
  shows "wf_node (remove_name s n)" "names (remove_name s n) = names n - {s}"
  using remove_path_spec [OF assms, of s] assms
  by (auto simp: remove_name_def split: option.splits)

lemma wf_root: "wf_node root"
  by (simp add: root_def)

lemma names_root [simp]: "names root = {}"
proof -
  have "\<not> has_name root s" for s by (cases s) (simp_all add: root_def getChild_def)
  then show ?thesis by (simp add: names_def)
qed

section \<open>Completion\<close>

lemma wf_node_induct [consumes 1, case_names Node]:
  assumes "wf_node n"
    and "\<And>cs b. distinct (map fst cs) \<Longrightarrow> (\<And>c child. (c, child) \<in> set cs \<Longrightarrow> wf_node child \<and> live child \<and> P child)
      \<Longrightarrow> P (Node cs b)"
  shows "P n"
  using assms(1) by (induction rule: wf_node.induct) (blast intro: assms(2))

lemma names_nonempty: "wf_node n \<Longrightarrow> live n \<Longrightarrow> names n \<noteq> {}"
proof (induction n rule: wf_node_induct)
  case (Node cs b)
  show ?case
  proof (cases b)
    case True
    then have "[] \<in> names (Node cs b)" by (simp add: names_def)
    then show ?thesis by blast
  next
    case False
    with Node.prems obtain c child where "(c, child) \<in> set cs" by (cases cs) (auto simp: live_def)
    moreover from this Node.IH obtain s where "s \<in> names child" by blast
    ultimately have "c # s \<in> names (Node cs b)"
      using Node.hyps by (simp add: names_def getChild_def)
    then show ?thesis by blast
  qed
qed

lemma names_Cons: "getChild c n = Some child \<Longrightarrow> c # s \<in> names n \<longleftrightarrow> s \<in> names child"
  by (simp add: names_def)

lemma not_singleton: "x \<in> M \<Longrightarrow> y \<in> M \<Longrightarrow> x \<noteq> y \<Longrightarrow> M \<noteq> {t}"
  by blast

definition unique_completion :: "node \<Rightarrow> string \<Rightarrow> bool" where
  "unique_completion n acc \<longleftrightarrow>
     (\<forall>s. names n = {s} \<longrightarrow> complete n acc = (RETURNVALUE_NOERROR, acc @ s))
     \<and> ((\<nexists>s. names n = {s}) \<longrightarrow> fst (complete n acc) = RETURNVALUE_NAMEISTOOAMBIGUOUS)"

lemma complete_leaf: "unique_completion (Node [] True) acc"
proof -
  have "has_name (Node [] True) s \<longleftrightarrow> s = []" for s by (cases s) (auto simp: getChild_def)
  then have "names (Node [] True) = {[]}" by (auto simp: names_def)
  then show ?thesis by (simp add: unique_completion_def)
qed

lemma names_single:
  "names (Node [(c, child)] b) = (if b then {[]} else {}) \<union> (#) c ` names child"
proof -
  have "has_name (Node [(c, child)] b) s \<longleftrightarrow> (s = [] \<and> b) \<or> s \<in> (#) c ` names child" for s
    by (cases s) (auto simp: getChild_def names_def)
  then show ?thesis by (auto simp: names_def)
qed

lemma complete_single:
  assumes "wf_node child" "live child" "unique_completion child (acc @ [c])"
  shows "unique_completion (Node [(c, child)] b) acc"
proof -
  obtain s where s: "s \<in> names child" using names_nonempty [OF assms(1,2)] by blast
  show ?thesis
  proof (cases b)
    case True
    then have "[] \<in> names (Node [(c, child)] b)" "c # s \<in> names (Node [(c, child)] b)"
      using s by (simp_all add: names_single)
    from not_singleton [OF this] have "names (Node [(c, child)] b) \<noteq> {t}" for t by simp
    with True show ?thesis by (simp add: unique_completion_def)
  next
    case False
    then have img: "names (Node [(c, child)] b) = (#) c ` names child" by (simp add: names_single)
    have single: "names child = {s}" if t: "(#) c ` names child = {t}" for t
    proof -
      have "names child \<subseteq> {s}"
      proof
        fix x
        assume "x \<in> names child"
        then have "c # x \<in> (#) c ` names child" by (rule imageI)
        moreover have "c # s \<in> (#) c ` names child" using s by (rule imageI)
        ultimately show "x \<in> {s}" unfolding t by auto
      qed
      with s show ?thesis by auto
    qed
    show ?thesis
    proof (cases "\<exists>t. names child = {t}")
      case True
      then obtain t where t: "names child = {t}" by blast
      then show ?thesis using assms(3) False by (simp add: unique_completion_def names_single)
    next
      case many: False
      have none: "names (Node [(c, child)] b) \<noteq> {t}" for t
      proof
        assume "names (Node [(c, child)] b) = {t}"
        then have "names child = {s}" unfolding img by (rule single)
        with many show False by blast
      qed
      have "fst (complete child (acc @ [c])) = RETURNVALUE_NAMEISTOOAMBIGUOUS"
        using many assms(3) unfolding unique_completion_def by blast
      with none False show ?thesis by (simp add: unique_completion_def)
    qed
  qed
qed

lemma complete_many:
  assumes "wf_node n1" "live n1" "wf_node n2" "live n2" "c1 \<noteq> c2"
  shows "unique_completion (Node ((c1, n1) # (c2, n2) # ds) b) acc"
proof -
  let ?n = "Node ((c1, n1) # (c2, n2) # ds) b"
  obtain s1 s2 where "s1 \<in> names n1" "s2 \<in> names n2"
    using names_nonempty assms by blast
  then have "c1 # s1 \<in> names ?n" "c2 # s2 \<in> names ?n"
    using assms(5) by (simp_all add: names_def getChild_def)
  from not_singleton [OF this] have "names ?n \<noteq> {t}" for t using assms(5) by simp
  then show ?thesis by (simp add: unique_completion_def)
qed

lemma complete_spec: "wf_node n \<Longrightarrow> live n \<Longrightarrow> unique_completion n acc"
proof (induction n arbitrary: acc rule: wf_node_induct)
  case (Node cs b)
  show ?case
  proof (cases cs)
    case Nil
    with Node.prems show ?thesis by (simp add: live_def complete_leaf)
  next
    case (Cons p ds)
    obtain c child where p: "p = (c, child)" by (cases p)
    have "(c, child) \<in> set cs" using Cons p by simp
    from Node.IH [OF this] have ch: "wf_node child" "live child" "\<And>acc. unique_completion child acc"
      by blast+
    show ?thesis
    proof (cases ds)
      case Nil
      with Cons p complete_single [OF ch] show ?thesis by simp
    next
      case (Cons q es)
      obtain c2 n2 where q: "q = (c2, n2)" by (cases q)
      have "(c2, n2) \<in> set cs" using \<open>cs = p # ds\<close> Cons q by simp
      from Node.IH [OF this] have "wf_node n2" "live n2" by blast+
      moreover have "c \<noteq> c2" using Node.hyps \<open>cs = p # ds\<close> Cons p q by simp
      ultimately have "wf_node n2" "live n2" "c \<noteq> c2" by blast+
      with complete_many [OF ch(1,2)] \<open>cs = p # ds\<close> Cons p q show ?thesis by simp
    qed
  qed
qed

lemma has_name_walk:
  "has_name n (q @ s) \<longleftrightarrow> (case walk q n of None \<Rightarrow> False | Some cur \<Rightarrow> has_name cur s)"
  by (induction q n rule: walk.induct) (auto split: option.split)

lemma walk_wf:
  "wf_node n \<Longrightarrow> walk q n = Some cur \<Longrightarrow> wf_node cur \<and> (q \<noteq> [] \<longrightarrow> live cur)"
proof (induction q n rule: walk.induct)
  case (1 n)
  then show ?case by simp
next
  case (2 c cs n)
  then obtain child where child: "getChild c n = Some child" "walk cs child = Some cur"
    by (auto split: option.splits)
  note ch = wf_node_child [OF 2(2) child(1)]
  from 2(1) [OF child(1) ch(1) child(2)] ch(2) child(2) show ?case by (cases cs) auto
qed

text \<open>The completions of a query: what can follow it in a name of the tree.\<close>

definition completions :: "string \<Rightarrow> string set \<Rightarrow> string set" where
  "completions q M = {s. q @ s \<in> M}"

lemma findOne_spec:
  assumes "wf_node n" "q \<noteq> [] \<or> live n"
  shows "(completions q (names n) = {} \<longrightarrow>
        findOne q r n = (RETURNVALUE_PLAYERWITHTHISNAMEISNOTONLINE, r))
    \<and> (\<forall>s. completions q (names n) = {s} \<longrightarrow> findOne q r n = (RETURNVALUE_NOERROR, q @ s))
    \<and> (completions q (names n) \<noteq> {} \<and> (\<nexists>s. completions q (names n) = {s})
        \<longrightarrow> fst (findOne q r n) = RETURNVALUE_NAMEISTOOAMBIGUOUS)"
proof (cases "walk q n")
  case None
  then have "completions q (names n) = {}" by (simp add: completions_def names_def has_name_walk)
  with None show ?thesis by (simp add: findOne_def)
next
  case (Some cur)
  have eq: "completions q (names n) = names cur"
    using Some by (simp add: completions_def names_def has_name_walk)
  have cur: "wf_node cur" "live cur"
    using walk_wf [OF assms(1) Some] assms(2) Some by (cases q; auto)+
  have f: "findOne q r n = complete cur q" using Some by (simp add: findOne_def)
  show ?thesis
    using complete_spec [OF cur, of q] names_nonempty [OF cur]
    unfolding eq f unique_completion_def by blast
qed

section \<open>The directory of online names\<close>

text \<open>
  \<open>Game::addPlayer\<close> and \<open>Game::removePlayer\<close> keep the tree in step with the players
  online: a sequence of logins and logouts.
\<close>

datatype change = Login string | Logout string

fun online :: "change list \<Rightarrow> string set \<Rightarrow> string set" where
  "online [] M = M"
| "online (Login s # cs) M = online cs (insert s M)"
| "online (Logout s # cs) M = online cs (M - {s})"

fun named :: "change \<Rightarrow> bool" where
  "named (Login s) \<longleftrightarrow> s \<noteq> []"
| "named (Logout s) \<longleftrightarrow> True"

fun apply_changes ::
    "(string \<Rightarrow> 'd \<Rightarrow> 'd option) \<Rightarrow> (string \<Rightarrow> 'd \<Rightarrow> 'd) \<Rightarrow> change list \<Rightarrow> 'd \<Rightarrow> 'd option" where
  "apply_changes ins del [] d = Some d"
| "apply_changes ins del (Login s # cs) d = (case ins s d of
      None \<Rightarrow> None | Some d' \<Rightarrow> apply_changes ins del cs d')"
| "apply_changes ins del (Logout s # cs) d = apply_changes ins del cs (del s d)"

locale name_directory =
  fixes ins :: "string \<Rightarrow> 'd \<Rightarrow> 'd option"
    and del :: "string \<Rightarrow> 'd \<Rightarrow> 'd"
    and members :: "'d \<Rightarrow> string set"
    and invar :: "'d \<Rightarrow> bool"
  assumes ins_ok: "invar d \<Longrightarrow> s \<noteq> [] \<Longrightarrow>
      \<exists>d'. ins s d = Some d' \<and> invar d' \<and> members d' = insert s (members d)"
    and del_invar: "invar d \<Longrightarrow> invar (del s d)"
    and del_members: "invar d \<Longrightarrow> members (del s d) = members d - {s}"
begin

lemma apply_changes_ok:
  assumes "invar d" "\<forall>c \<in> set cs. named c"
  shows "\<exists>d'. apply_changes ins del cs d = Some d' \<and> invar d' \<and> members d' = online cs (members d)"
  using assms
proof (induction cs arbitrary: d)
  case Nil
  then show ?case by simp
next
  case (Cons c cs)
  show ?case
  proof (cases c)
    case (Login s)
    with Cons.prems obtain d' where d': "ins s d = Some d'" "invar d'" "members d' = insert s (members d)"
      using ins_ok [of d s] by auto
    with Cons.IH [OF d'(2)] Cons.prems(2) Login show ?thesis by simp
  next
    case (Logout s)
    with Cons.IH [OF del_invar [OF Cons.prems(1)]] Cons.prems del_members show ?thesis by simp
  qed
qed

end

interpretation tree: name_directory insert_name remove_name names wf_node
proof
  fix d :: node and s :: string
  assume "wf_node d" "s \<noteq> []"
  then show "\<exists>d'. insert_name s d = Some d' \<and> wf_node d' \<and> names d' = insert s (names d)"
    using insert_name_spec by blast
next
  fix d :: node and s :: string
  assume "wf_node d"
  then show "wf_node (remove_name s d)" "names (remove_name s d) = names d - {s}"
    by (rule remove_name_spec)+
qed

section \<open>Properties\<close>

text \<open>
  C7. Name completion is exact: after any sequence of logins and logouts of non-empty
  names on the initially empty tree, \<open>findOne\<close> reports for a non-empty query that nobody is
  online when no online name starts with it, returns that name when exactly one does, and
  reports ambiguity when several do.
\<close>
theorem findOne_is_exact:
  assumes "\<forall>c \<in> set cs. named c" "q \<noteq> []"
  shows "\<exists>n. apply_changes insert_name remove_name cs root = Some n
    \<and> (completions q (online cs {}) = {} \<longrightarrow>
        findOne q r n = (RETURNVALUE_PLAYERWITHTHISNAMEISNOTONLINE, r))
    \<and> (\<forall>s. completions q (online cs {}) = {s} \<longrightarrow> findOne q r n = (RETURNVALUE_NOERROR, q @ s))
    \<and> (completions q (online cs {}) \<noteq> {} \<and> (\<nexists>s. completions q (online cs {}) = {s})
        \<longrightarrow> fst (findOne q r n) = RETURNVALUE_NAMEISTOOAMBIGUOUS)"
proof -
  obtain n where n: "apply_changes insert_name remove_name cs root = Some n" "wf_node n"
      "names n = online cs {}"
    using tree.apply_changes_ok [OF wf_root assms(1)] by auto
  from findOne_spec [OF n(2), of q r] assms(2) n show ?thesis by simp
qed

theorem findOne_is_exact_witness:
  "\<exists>n. apply_changes insert_name remove_name
      [Login ''anna'', Login ''bob'', Login ''anton'', Logout ''anton''] root = Some n
    \<and> findOne ''an'' [] n = (RETURNVALUE_NOERROR, ''anna'')"
proof -
  let ?cs = "[Login ''anna'', Login ''bob'', Login ''anton'', Logout ''anton'']"
  have one: "completions ''an'' (online ?cs {}) = {''na''}"
    by (auto simp: completions_def)
  have ok: "\<forall>c \<in> set ?cs. named c" "''an'' \<noteq> []" by simp_all
  from findOne_is_exact [OF ok, of "[]"] obtain n where
    n: "apply_changes insert_name remove_name ?cs root = Some n"
    and f: "\<forall>s. completions ''an'' (online ?cs {}) = {s} \<longrightarrow> findOne ''an'' [] n = (RETURNVALUE_NOERROR, ''an'' @ s)"
    by blast
  from f one have "findOne ''an'' [] n = (RETURNVALUE_NOERROR, ''an'' @ ''na'')" by blast
  with n show ?thesis by auto
qed

end
