(* ===== verification/Std_Containers.thy ===== *)
theory Std_Containers
  imports Prelude
begin

text \<open>
  The two containers of src/src/utils: \<open>stdext::vector_set\<close> (vectorset.hpp), a vector that
  is sorted and freed of duplicates lazily, and \<open>stdext::arraylist\<close> (arraylist.hpp), two
  vectors that are merged lazily. Each operation is translated with its call of
  \<open>update()\<close>; \<open>None\<close> stands for undefined behaviour (an access to an empty or too short
  vector). The locale \<open>double_ended\<close> is the contract of \<open>arraylist\<close>.
\<close>

section \<open>vector\_set\<close>

record 'a vset =
  vs_container :: "'a list"
  vs_needUpdate :: bool

definition vs_new :: "'a vset" where
  "vs_new = \<lparr>vs_container = [], vs_needUpdate = False\<rparr>"

text \<open>\<open>std::ranges::sort\<close> and \<open>std::ranges::unique\<close>.\<close>

definition vs_update :: "'a::linorder vset \<Rightarrow> 'a vset" where
  "vs_update s =
     (if \<not> vs_needUpdate s then s
      else \<lparr>vs_container = remdups_adj (sort (vs_container s)), vs_needUpdate = False\<rparr>)"

text \<open>\<open>std::ranges::lower_bound\<close> on a sorted vector: the first position not less than \<open>v\<close>.\<close>

definition lower_bound :: "'a::linorder \<Rightarrow> 'a list \<Rightarrow> nat" where
  "lower_bound v xs = length (takeWhile (\<lambda>x. x < v) xs)"

definition vs_contains :: "'a::linorder \<Rightarrow> 'a vset \<Rightarrow> bool \<times> 'a vset" where
  "vs_contains v s =
     (let s' = vs_update s; i = lower_bound v (vs_container s')
      in (i < length (vs_container s') \<and> \<not> v < vs_container s' ! i, s'))"

definition vs_erase :: "'a::linorder \<Rightarrow> 'a vset \<Rightarrow> bool \<times> 'a vset" where
  "vs_erase v s =
     (let s' = vs_update s; i = lower_bound v (vs_container s')
      in if i = length (vs_container s') then (False, s')
         else (True, s'\<lparr>vs_container := take i (vs_container s') @ drop (i + 1) (vs_container s')\<rparr>))"

definition vs_erase_if :: "('a::linorder \<Rightarrow> bool) \<Rightarrow> 'a vset \<Rightarrow> bool \<times> 'a vset" where
  "vs_erase_if P s =
     (let s' = vs_update s; kept = filter (\<lambda>x. \<not> P x) (vs_container s')
      in (length (vs_container s') - length kept > 0, s'\<lparr>vs_container := kept\<rparr>))"

definition vs_insert :: "'a \<Rightarrow> 'a vset \<Rightarrow> 'a vset" where
  "vs_insert v s = s\<lparr>vs_needUpdate := True, vs_container := vs_container s @ [v]\<rparr>"

definition vs_insertAll :: "'a list \<Rightarrow> 'a vset \<Rightarrow> 'a vset" where
  "vs_insertAll xs s = s\<lparr>vs_needUpdate := True, vs_container := vs_container s @ xs\<rparr>"

definition vs_insert_at :: "nat \<Rightarrow> 'a \<Rightarrow> 'a vset \<Rightarrow> 'a vset option" where
  "vs_insert_at i v s =
     (if length (vs_container s) < i then None
      else Some (s\<lparr>vs_needUpdate := True,
             vs_container := take i (vs_container s) @ [v] @ drop i (vs_container s)\<rparr>))"

definition vs_empty :: "'a vset \<Rightarrow> bool" where
  "vs_empty s \<longleftrightarrow> vs_container s = []"

definition vs_size :: "'a::linorder vset \<Rightarrow> nat \<times> 'a vset" where
  "vs_size s = (let s' = vs_update s in (length (vs_container s'), s'))"

definition vs_data :: "'a::linorder vset \<Rightarrow> 'a list \<times> 'a vset" where
  "vs_data s = (let s' = vs_update s in (vs_container s', s'))"

definition vs_nth :: "nat \<Rightarrow> 'a::linorder vset \<Rightarrow> 'a option \<times> 'a vset" where
  "vs_nth i s = (let s' = vs_update s
     in (if i < length (vs_container s') then Some (vs_container s' ! i) else None, s'))"

definition vs_clear :: "'a vset \<Rightarrow> 'a vset" where
  "vs_clear s = s\<lparr>vs_container := []\<rparr>"

definition vs_wf :: "'a::linorder vset \<Rightarrow> bool" where
  "vs_wf s \<longleftrightarrow> (\<not> vs_needUpdate s \<longrightarrow> sorted (vs_container s) \<and> distinct (vs_container s))"

definition vs_set :: "'a vset \<Rightarrow> 'a set" where
  "vs_set s = set (vs_container s)"

lemma vs_update_ok:
  assumes "vs_wf s"
  shows "sorted (vs_container (vs_update s))" "distinct (vs_container (vs_update s))"
    and "vs_set (vs_update s) = vs_set s" "vs_wf (vs_update s)" "\<not> vs_needUpdate (vs_update s)"
proof -
  have sorted_remdups: "sorted (remdups_adj xs) \<and> distinct (remdups_adj xs)" if "sorted xs" for xs :: "'a list"
    using that by (induction xs rule: remdups_adj.induct) (auto simp: less_le)
  show "sorted (vs_container (vs_update s))" "distinct (vs_container (vs_update s))"
    and "vs_set (vs_update s) = vs_set s" "vs_wf (vs_update s)" "\<not> vs_needUpdate (vs_update s)"
    using assms sorted_remdups [OF sorted_sort] by (auto simp: vs_update_def vs_wf_def vs_set_def)
qed

lemma lower_bound_split:
  assumes "sorted xs" "lower_bound v xs < length xs"
  shows "v \<le> xs ! lower_bound v xs" "\<forall>x \<in> set (take (lower_bound v xs) xs). x < v"
    and "\<forall>x \<in> set (drop (lower_bound v xs) xs). v \<le> x"
proof -
  let ?i = "lower_bound v xs"
  show first: "v \<le> xs ! ?i"
    using nth_length_takeWhile [of "\<lambda>x. x < v" xs] assms(2) by (simp add: lower_bound_def not_less)
  have "take ?i xs = takeWhile (\<lambda>x. x < v) xs"
    by (simp add: lower_bound_def takeWhile_eq_take [symmetric])
  then show "\<forall>x \<in> set (take ?i xs). x < v" by (auto dest: set_takeWhileD)
  show "\<forall>x \<in> set (drop ?i xs). v \<le> x"
  proof
    fix x
    assume "x \<in> set (drop ?i xs)"
    then obtain j where "j < length xs - ?i" "x = xs ! (?i + j)"
      by (auto simp: in_set_conv_nth)
    then have "?i + j < length xs" by simp
    with sorted_nth_mono [OF assms(1), of ?i "?i + j"] first \<open>x = xs ! (?i + j)\<close> show "v \<le> x"
      by (metis le_add1 order_trans)
  qed
qed

lemma lower_bound_end: "lower_bound v xs = length xs \<Longrightarrow> \<forall>x \<in> set xs. x < v"
  unfolding lower_bound_def by (metis set_takeWhileD takeWhile_eq_take take_all order_refl)

lemma lower_bound_le: "lower_bound v xs \<le> length xs"
  by (simp add: lower_bound_def length_takeWhile_le)

lemma lower_bound_mem:
  assumes "sorted xs"
  shows "v \<in> set xs \<longleftrightarrow> lower_bound v xs < length xs \<and> xs ! lower_bound v xs = v"
proof (cases "lower_bound v xs < length xs")
  case True
  let ?i = "lower_bound v xs"
  note l = lower_bound_split [OF assms True]
  have "xs = take ?i xs @ xs ! ?i # drop (Suc ?i) xs" using True by (rule id_take_nth_drop)
  then have cases: "v \<in> set xs \<Longrightarrow> v \<in> set (take ?i xs) \<or> v = xs ! ?i \<or> v \<in> set (drop (Suc ?i) xs)"
    by (metis Un_iff set_append set_ConsD)
  have later: "xs ! ?i \<le> y" if y: "y \<in> set (drop (Suc ?i) xs)" for y
    using y assms True by (auto simp: in_set_conv_nth intro!: sorted_nth_mono)
  show ?thesis
    using cases l(1,2) later True by (metis less_irrefl nth_mem order_antisym)
next
  case False
  then have "lower_bound v xs = length xs" using lower_bound_le [of v xs] by simp
  with False lower_bound_end [of v xs] show ?thesis by auto
qed

lemma vs_contains_correct:
  assumes "vs_wf s"
  shows "fst (vs_contains v s) \<longleftrightarrow> v \<in> vs_set s"
    and "vs_wf (snd (vs_contains v s))" "vs_set (snd (vs_contains v s)) = vs_set s"
proof -
  note u = vs_update_ok [OF assms]
  let ?xs = "vs_container (vs_update s)"
  have "v \<in> vs_set s \<longleftrightarrow> lower_bound v ?xs < length ?xs \<and> ?xs ! lower_bound v ?xs = v"
    using lower_bound_mem [OF u(1), of v] u(3) by (simp add: vs_set_def)
  then show "fst (vs_contains v s) \<longleftrightarrow> v \<in> vs_set s"
    using lower_bound_split(1) [OF u(1), of v] by (auto simp: vs_contains_def Let_def)
  show "vs_wf (snd (vs_contains v s))" "vs_set (snd (vs_contains v s)) = vs_set s"
    using u by (simp_all add: vs_contains_def Let_def)
qed

lemma vs_insert_correct:
  "vs_wf (vs_insert v s)" "vs_set (vs_insert v s) = insert v (vs_set s)"
  "vs_wf (vs_insertAll xs s)" "vs_set (vs_insertAll xs s) = vs_set s \<union> set xs"
  by (auto simp: vs_wf_def vs_set_def vs_insert_def vs_insertAll_def)

lemma vs_erase_if_correct:
  assumes "vs_wf s"
  shows "vs_wf (snd (vs_erase_if P s))" "vs_set (snd (vs_erase_if P s)) = {x \<in> vs_set s. \<not> P x}"
    and "fst (vs_erase_if P s) \<longleftrightarrow> (\<exists>x \<in> vs_set s. P x)"
proof -
  note u = vs_update_ok [OF assms]
  show "vs_wf (snd (vs_erase_if P s))" "vs_set (snd (vs_erase_if P s)) = {x \<in> vs_set s. \<not> P x}"
    using u by (auto simp: vs_erase_if_def Let_def vs_wf_def vs_set_def sorted_wrt_filter)
  have "length (filter (\<lambda>x. \<not> P x) xs) < length xs \<longleftrightarrow> (\<exists>x \<in> set xs. P x)" for xs
    by (metis (mono_tags, lifting) filter_True length_filter_less less_irrefl)
  then show "fst (vs_erase_if P s) \<longleftrightarrow> (\<exists>x \<in> vs_set s. P x)"
    using u(3) by (simp add: vs_erase_if_def Let_def vs_set_def)
qed

text \<open>What \<open>erase\<close> removes: the least element not below its argument, present or not.\<close>

lemma vs_erase_correct:
  assumes "vs_wf s"
  shows "vs_wf (snd (vs_erase v s))"
    and "\<forall>x \<in> vs_set s. x < v \<Longrightarrow> vs_erase v s = (False, vs_update s)"
    and "w \<in> vs_set s \<Longrightarrow> v \<le> w \<Longrightarrow> \<forall>x \<in> vs_set s. v \<le> x \<longrightarrow> w \<le> x
      \<Longrightarrow> fst (vs_erase v s) \<and> vs_set (snd (vs_erase v s)) = vs_set s - {w}"
proof -
  note u = vs_update_ok [OF assms]
  let ?xs = "vs_container (vs_update s)" and ?i = "lower_bound v (vs_container (vs_update s))"
  have set: "set ?xs = vs_set s" using u(3) by (simp add: vs_set_def)
  have split: "?xs = take ?i ?xs @ ?xs ! ?i # drop (Suc ?i) ?xs" if "?i < length ?xs"
    using that by (rule id_take_nth_drop)
  have sub: "sorted (take ?i ?xs @ drop (Suc ?i) ?xs) \<and> distinct (take ?i ?xs @ drop (Suc ?i) ?xs)
      \<and> set (take ?i ?xs @ drop (Suc ?i) ?xs) = set ?xs - {?xs ! ?i}" if "?i < length ?xs"
  proof -
    have "\<And>ys y zs. sorted (ys @ y # zs) \<Longrightarrow> distinct (ys @ y # zs) \<Longrightarrow>
        sorted (ys @ zs) \<and> distinct (ys @ zs) \<and> set (ys @ zs) = set (ys @ y # zs) - {y}"
      by (auto simp: sorted_append)
    from this [of "take ?i ?xs" "?xs ! ?i" "drop (Suc ?i) ?xs"] show ?thesis
      using split [OF that] u(1,2) by metis
  qed
  show "vs_wf (snd (vs_erase v s))"
    using u sub lower_bound_le [of v ?xs] by (auto simp: vs_erase_def Let_def vs_wf_def)
  show "vs_erase v s = (False, vs_update s)" if "\<forall>x \<in> vs_set s. x < v"
  proof -
    have "takeWhile (\<lambda>x. x < v) ?xs = ?xs" using that set by (metis takeWhile_eq_all_conv)
    then have "lower_bound v ?xs = length ?xs" by (simp only: lower_bound_def)
    then show ?thesis by (simp add: vs_erase_def)
  qed
  show "fst (vs_erase v s) \<and> vs_set (snd (vs_erase v s)) = vs_set s - {w}"
    if w: "w \<in> vs_set s" "v \<le> w" "\<forall>x \<in> vs_set s. v \<le> x \<longrightarrow> w \<le> x"
  proof -
    have lt: "?i < length ?xs"
      using lower_bound_end [of v ?xs] lower_bound_le [of v ?xs] w(1,2) set
      by (metis le_neq_implies_less linorder_not_le)
    note l = lower_bound_split [OF u(1) lt]
    have at: "?xs ! ?i = w"
    proof (rule order_antisym)
      show "w \<le> ?xs ! ?i" using w(3) l(1) set lt by (metis nth_mem)
      have "w \<notin> set (take ?i ?xs)" using l(2) w(2) by (metis linorder_not_less)
      then have "w \<in> set (drop ?i ?xs)" using w(1) set by (metis Un_iff append_take_drop_id set_append)
      then show "?xs ! ?i \<le> w" using u(1) lt by (auto simp: in_set_conv_nth intro!: sorted_nth_mono)
    qed
    have "set (take ?i ?xs @ drop (Suc ?i) ?xs) = set ?xs - {w}" using sub [OF lt] at by simp
    with lt set show ?thesis by (simp add: vs_erase_def Let_def vs_set_def)
  qed
qed

section \<open>arraylist\<close>

record 'a arraylist =
  al_back :: "'a list"
  al_front :: "'a list"
  al_needUpdate :: bool

definition al_new :: "'a arraylist" where
  "al_new = \<lparr>al_back = [], al_front = [], al_needUpdate = False\<rparr>"

definition al_update :: "'a arraylist \<Rightarrow> 'a arraylist" where
  "al_update l =
     (if \<not> al_needUpdate l then l
      else \<lparr>al_back = rev (al_front l) @ al_back l, al_front = [], al_needUpdate = False\<rparr>)"

text \<open>The constructor, \<open>operator=\<close> and \<open>assign\<close> of an initializer list set the back vector only.\<close>

definition al_assign :: "'a list \<Rightarrow> 'a arraylist \<Rightarrow> 'a arraylist" where
  "al_assign xs l = l\<lparr>al_back := xs\<rparr>"

definition al_contains :: "'a \<Rightarrow> 'a arraylist \<Rightarrow> bool \<times> 'a arraylist" where
  "al_contains v l = (let l' = al_update l in (v \<in> set (al_back l'), l'))"

definition al_erase :: "'a \<Rightarrow> 'a arraylist \<Rightarrow> bool \<times> 'a arraylist" where
  "al_erase v l = (let l' = al_update l
     in if v \<in> set (al_back l') then (True, l'\<lparr>al_back := remove1 v (al_back l')\<rparr>) else (False, l'))"

definition al_size :: "'a arraylist \<Rightarrow> nat" where
  "al_size l = length (al_back l) + length (al_front l)"

definition al_erase_range :: "nat \<Rightarrow> nat \<Rightarrow> 'a arraylist \<Rightarrow> (bool \<times> 'a arraylist) option" where
  "al_erase_range start finish l = (let l' = al_update l
     in if start > al_size l' \<or> finish > al_size l' then Some (False, l')
        else if finish < start \<or> length (al_back l') < finish then None
        else Some (True, l'\<lparr>al_back := take start (al_back l') @ drop finish (al_back l')\<rparr>))"

definition al_erase_if :: "('a \<Rightarrow> bool) \<Rightarrow> 'a arraylist \<Rightarrow> bool \<times> 'a arraylist" where
  "al_erase_if P l = (let l' = al_update l; kept = filter (\<lambda>x. \<not> P x) (al_back l')
     in (length (al_back l') - length kept > 0, l'\<lparr>al_back := kept\<rparr>))"

definition al_front_elem :: "'a arraylist \<Rightarrow> 'a option \<times> 'a arraylist" where
  "al_front_elem l = (let l' = al_update l in (if al_back l' = [] then None else Some (hd (al_back l')), l'))"

definition al_back_elem :: "'a arraylist \<Rightarrow> 'a option \<times> 'a arraylist" where
  "al_back_elem l = (let l' = al_update l in (if al_back l' = [] then None else Some (last (al_back l')), l'))"

definition al_pop_back :: "'a arraylist \<Rightarrow> 'a arraylist option" where
  "al_pop_back l = (let l' = al_update l
     in if al_back l' = [] then None else Some (l'\<lparr>al_back := butlast (al_back l')\<rparr>))"

definition al_push_front :: "'a \<Rightarrow> 'a arraylist \<Rightarrow> 'a arraylist" where
  "al_push_front v l = l\<lparr>al_needUpdate := True, al_front := al_front l @ [v]\<rparr>"

definition al_push_back :: "'a \<Rightarrow> 'a arraylist \<Rightarrow> 'a arraylist" where
  "al_push_back v l = l\<lparr>al_back := al_back l @ [v]\<rparr>"

definition al_empty :: "'a arraylist \<Rightarrow> bool" where
  "al_empty l \<longleftrightarrow> al_back l = [] \<and> al_front l = []"

definition al_clear :: "'a arraylist \<Rightarrow> 'a arraylist" where
  "al_clear l = l\<lparr>al_front := [], al_back := []\<rparr>"

definition al_data :: "'a arraylist \<Rightarrow> 'a list \<times> 'a arraylist" where
  "al_data l = (let l' = al_update l in (al_back l', l'))"

definition al_nth :: "nat \<Rightarrow> 'a arraylist \<Rightarrow> 'a option \<times> 'a arraylist" where
  "al_nth i l = (let l' = al_update l in (if i < length (al_back l') then Some (al_back l' ! i) else None, l'))"

definition al_list :: "'a arraylist \<Rightarrow> 'a list" where
  "al_list l = rev (al_front l) @ al_back l"

definition al_wf :: "'a arraylist \<Rightarrow> bool" where
  "al_wf l \<longleftrightarrow> (\<not> al_needUpdate l \<longrightarrow> al_front l = [])"

lemma al_update_ok:
  assumes "al_wf l"
  shows "al_back (al_update l) = al_list l" "al_front (al_update l) = []" "al_wf (al_update l)"
    and "al_list (al_update l) = al_list l" "\<not> al_needUpdate (al_update l)"
  using assms by (auto simp: al_update_def al_wf_def al_list_def)

lemma al_new_ok: "al_wf al_new" "al_list al_new = []"
  by (simp_all add: al_new_def al_wf_def al_list_def)

lemma al_push_ok:
  assumes "al_wf l"
  shows "al_wf (al_push_front v l)" "al_list (al_push_front v l) = v # al_list l"
    and "al_wf (al_push_back v l)" "al_list (al_push_back v l) = al_list l @ [v]"
  using assms by (simp_all add: al_wf_def al_list_def al_push_front_def al_push_back_def)

lemma al_read_ok:
  assumes "al_wf l"
  shows "al_size l = length (al_list l)" "al_empty l \<longleftrightarrow> al_list l = []"
    and "fst (al_data l) = al_list l" "al_list (snd (al_data l)) = al_list l"
    and "fst (al_contains v l) \<longleftrightarrow> v \<in> set (al_list l)"
    and "fst (al_nth i l) = (if i < length (al_list l) then Some (al_list l ! i) else None)"
    and "fst (al_front_elem l) = (if al_list l = [] then None else Some (hd (al_list l)))"
    and "fst (al_back_elem l) = (if al_list l = [] then None else Some (last (al_list l)))"
  using al_update_ok [OF assms]
  by (auto simp: al_size_def al_empty_def al_data_def al_contains_def al_nth_def al_front_elem_def
      al_back_elem_def Let_def) (auto simp: al_list_def)

lemma al_delete_ok:
  assumes "al_wf l"
  shows "al_wf (snd (al_erase v l))" "al_list (snd (al_erase v l)) = remove1 v (al_list l)"
    and "al_pop_back l = None \<longleftrightarrow> al_list l = []"
    and "al_pop_back l = Some l' \<Longrightarrow> al_wf l' \<and> al_list l' = butlast (al_list l)"
    and "al_wf (snd (al_erase_if P l))" "al_list (snd (al_erase_if P l)) = filter (\<lambda>x. \<not> P x) (al_list l)"
    and "al_list (al_clear l) = []" "al_wf (al_clear l)"
  using al_update_ok [OF assms]
  by (auto simp: al_erase_def al_pop_back_def al_erase_if_def al_clear_def Let_def al_list_def al_wf_def
      remove1_idem split: if_splits)

text \<open>An assignment keeps what was pushed to the front before.\<close>

lemma al_assign_keeps_front: "al_list (al_assign xs l) = rev (al_front l) @ xs"
  by (simp add: al_assign_def al_list_def)

section \<open>The contract of a double-ended list\<close>

datatype 'a push = Front 'a | Back 'a

fun pushes :: "('a \<Rightarrow> 'l \<Rightarrow> 'l) \<Rightarrow> ('a \<Rightarrow> 'l \<Rightarrow> 'l) \<Rightarrow> 'a push list \<Rightarrow> 'l \<Rightarrow> 'l" where
  "pushes pf pb [] l = l"
| "pushes pf pb (Front v # ps) l = pushes pf pb ps (pf v l)"
| "pushes pf pb (Back v # ps) l = pushes pf pb ps (pb v l)"

fun fronts :: "'a push list \<Rightarrow> 'a list" where
  "fronts [] = []"
| "fronts (Front v # ps) = v # fronts ps"
| "fronts (Back v # ps) = fronts ps"

fun backs :: "'a push list \<Rightarrow> 'a list" where
  "backs [] = []"
| "backs (Front v # ps) = backs ps"
| "backs (Back v # ps) = v # backs ps"

locale double_ended =
  fixes push_front :: "'a \<Rightarrow> 'l \<Rightarrow> 'l"
    and push_back :: "'a \<Rightarrow> 'l \<Rightarrow> 'l"
    and contents :: "'l \<Rightarrow> 'a list"
    and invar :: "'l \<Rightarrow> bool"
  assumes front_invar: "invar l \<Longrightarrow> invar (push_front v l)"
    and front_contents: "invar l \<Longrightarrow> contents (push_front v l) = v # contents l"
    and back_invar: "invar l \<Longrightarrow> invar (push_back v l)"
    and back_contents: "invar l \<Longrightarrow> contents (push_back v l) = contents l @ [v]"
begin

lemma pushes_contents:
  assumes "invar l"
  shows "invar (pushes push_front push_back ps l)
    \<and> contents (pushes push_front push_back ps l) = rev (fronts ps) @ contents l @ backs ps"
  using assms
proof (induction ps arbitrary: l)
  case Nil
  then show ?case by simp
next
  case (Cons p ps)
  then show ?case
    by (cases p) (simp_all add: front_invar front_contents back_invar back_contents)
qed

end

interpretation al: double_ended al_push_front al_push_back al_list al_wf
  by unfold_locales (simp_all add: al_push_ok)

section \<open>Properties\<close>

text \<open>
  \<open>vector_set\<close> against sets: on a well-formed container (as every operation leaves it)
  \<open>contains\<close> decides membership although the vector is sorted only now, insertions add,
  \<open>data\<close> is the sorted list of the set, and \<open>erase\<close> removes the least element not below its
  argument: that is the argument when it is present, and another element when it is not.
\<close>
theorem vector_set_operations:
  assumes "vs_wf s"
  shows "(fst (vs_contains v s) \<longleftrightarrow> v \<in> vs_set s)
    \<and> vs_set (vs_insert v s) = insert v (vs_set s) \<and> vs_wf (vs_insert v s)
    \<and> fst (vs_data s) = sorted_list_of_set (vs_set s)
    \<and> (v \<in> vs_set s \<longrightarrow> vs_set (snd (vs_erase v s)) = vs_set s - {v})
    \<and> (\<forall>w \<in> vs_set s. v \<notin> vs_set s \<and> v \<le> w \<and> (\<forall>x \<in> vs_set s. v \<le> x \<longrightarrow> w \<le> x)
         \<longrightarrow> fst (vs_erase v s) \<and> vs_set (snd (vs_erase v s)) = vs_set s - {w})
    \<and> vs_wf (snd (vs_erase v s))"
proof -
  note u = vs_update_ok [OF assms]
  show ?thesis
  proof (intro conjI ballI impI)
    show "fst (vs_contains v s) \<longleftrightarrow> v \<in> vs_set s" by (rule vs_contains_correct(1) [OF assms])
    show "vs_set (vs_insert v s) = insert v (vs_set s)" "vs_wf (vs_insert v s)"
      by (rule vs_insert_correct)+
    show "fst (vs_data s) = sorted_list_of_set (vs_set s)"
      using sorted_list_of_set.idem_if_sorted_distinct [OF u(1,2)] u(3)
      by (simp add: vs_data_def Let_def vs_set_def)
    show "vs_set (snd (vs_erase v s)) = vs_set s - {v}" if "v \<in> vs_set s"
      using vs_erase_correct(3) [OF assms that, of v] by simp
    show "vs_wf (snd (vs_erase v s))" by (rule vs_erase_correct(1) [OF assms])
  next
    fix w
    assume "w \<in> vs_set s" and w: "v \<notin> vs_set s \<and> v \<le> w \<and> (\<forall>x \<in> vs_set s. v \<le> x \<longrightarrow> w \<le> x)"
    then have "fst (vs_erase v s) \<and> vs_set (snd (vs_erase v s)) = vs_set s - {w}"
      by (intro vs_erase_correct(3) [OF assms]) simp_all
    then show "fst (vs_erase v s)" "vs_set (snd (vs_erase v s)) = vs_set s - {w}" by simp_all
  qed
qed

theorem vector_set_operations_witness:
  "fst (vs_erase 2 \<lparr>vs_container = [3, 1, 3 :: nat], vs_needUpdate = True\<rparr>)
    \<and> vs_set (snd (vs_erase 2 \<lparr>vs_container = [3, 1, 3 :: nat], vs_needUpdate = True\<rparr>)) = {1}"
proof -
  let ?s = "\<lparr>vs_container = [3, 1, 3 :: nat], vs_needUpdate = True\<rparr>"
  have wf: "vs_wf ?s" by (simp add: vs_wf_def)
  have set: "vs_set ?s = {1, 3}" by (auto simp: vs_set_def)
  from vector_set_operations [OF wf, of 2] have
    "\<forall>w \<in> vs_set ?s. 2 \<notin> vs_set ?s \<and> 2 \<le> w \<and> (\<forall>x \<in> vs_set ?s. 2 \<le> x \<longrightarrow> w \<le> x)
         \<longrightarrow> fst (vs_erase 2 ?s) \<and> vs_set (snd (vs_erase 2 ?s)) = vs_set ?s - {w}"
    by (elim conjE)
  moreover have "3 \<in> vs_set ?s" "2 \<notin> vs_set ?s \<and> (2 :: nat) \<le> 3 \<and> (\<forall>x \<in> vs_set ?s. 2 \<le> x \<longrightarrow> 3 \<le> x)"
    unfolding set by simp_all
  ultimately have "fst (vs_erase 2 ?s) \<and> vs_set (snd (vs_erase 2 ?s)) = vs_set ?s - {3}" by blast
  moreover have "vs_set ?s - {3} = {1}" unfolding set by auto
  ultimately show ?thesis by simp
qed

text \<open>
  \<open>arraylist\<close> against lists: whatever sequence of pushes at either end an empty list
  receives, its contents are the front pushes reversed followed by the back pushes, and
  iteration, size, indexing, \<open>front\<close>, \<open>back\<close>, \<open>erase\<close> and \<open>pop_back\<close> agree with that list,
  whenever the lazy merge happens.
\<close>
theorem arraylist_refines_list:
  "let l = pushes al_push_front al_push_back ps al_new; xs = rev (fronts ps) @ backs ps
   in fst (al_data l) = xs \<and> al_size l = length xs
    \<and> fst (al_nth i l) = (if i < length xs then Some (xs ! i) else None)
    \<and> fst (al_front_elem l) = (if xs = [] then None else Some (hd xs))
    \<and> fst (al_back_elem l) = (if xs = [] then None else Some (last xs))
    \<and> al_list (snd (al_erase v l)) = remove1 v xs
    \<and> map_option al_list (al_pop_back l) = (if xs = [] then None else Some (butlast xs))"
proof -
  define l where "l = pushes al_push_front al_push_back ps (al_new :: 'a arraylist)"
  have wf: "al_wf l" and list: "al_list l = rev (fronts ps) @ backs ps"
    using al.pushes_contents [OF al_new_ok(1), of ps] al_new_ok(2) by (simp_all add: l_def)
  have "map_option al_list (al_pop_back l) = (if al_list l = [] then None else Some (butlast (al_list l)))"
    using al_delete_ok(3,4) [OF wf] by (cases "al_pop_back l") auto
  then show ?thesis
    unfolding Let_def l_def [symmetric] list [symmetric]
    using al_read_ok [OF wf] al_delete_ok(2) [OF wf] by simp
qed

end
