(* ===== verification/Money.thy ===== *)
theory Money
  imports Prelude
begin

text \<open>
  Coins (src/src/game/game.cpp: \<open>Game::addMoney\<close>, \<open>Game::removeMoney\<close>; src/src/items/item.cpp:
  \<open>Item::getWorth\<close>). The coins a cylinder holds are a list of stacks, in the order
  \<open>removeMoney\<close> gathers them from the inventory and its containers. Where a created stack is
  put (the managed loot pouch, the inventory or the ground) is the business of the
  inventory code and does not change its worth; here it joins the list.
\<close>

datatype coin = ITEM_GOLD_COIN | ITEM_PLATINUM_COIN | ITEM_CRYSTAL_COIN

type_synonym stack = "coin \<times> nat"

fun unit_worth :: "coin \<Rightarrow> nat" where
  "unit_worth ITEM_GOLD_COIN = 1"
| "unit_worth ITEM_PLATINUM_COIN = 100"
| "unit_worth ITEM_CRYSTAL_COIN = 10000"

text \<open>\<open>getWorth\<close>, a \<open>uint32_t\<close>; a stack counts at most 65535 coins, so it does not wrap.\<close>

definition worth :: "stack \<Rightarrow> nat" where
  "worth s = unit_worth (fst s) * snd s"

definition total_worth :: "stack list \<Rightarrow> nat" where
  "total_worth ss = sum_list (map worth ss)"

text \<open>\<open>addCoins\<close>: stacks of at most 100.\<close>

fun addCoins :: "coin \<Rightarrow> nat \<Rightarrow> stack list" where
  "addCoins c n = (if n = 0 then [] else (c, min 100 n) # addCoins c (n - min 100 n))"

declare addCoins.simps [simp del]

text \<open>The casts to \<open>uint32_t\<close> and \<open>uint16_t\<close> are those of the source.\<close>

definition addMoney :: "nat \<Rightarrow> stack list" where
  "addMoney money =
     (let crystalCoins = wrap32 (money div 10000);
          money1 = money - crystalCoins * 10000;
          platinumCoins = wrap32 (money1 div 100);
          money2 = money1 - platinumCoins * 100
      in addCoins ITEM_CRYSTAL_COIN crystalCoins
         @ addCoins ITEM_PLATINUM_COIN (wrap16 platinumCoins)
         @ addCoins ITEM_GOLD_COIN (wrap32 money2))"

text \<open>\<open>internalRemoveItem(item, count)\<close> on the first stack.\<close>

definition take_coins :: "nat \<Rightarrow> stack \<Rightarrow> stack list \<Rightarrow> stack list" where
  "take_coins k s ss = (if snd s \<le> k then ss else (fst s, snd s - k) # ss)"

fun removeMoney_loop :: "nat \<Rightarrow> stack list \<Rightarrow> stack list \<times> nat" where
  "removeMoney_loop money [] = ([], money)"
| "removeMoney_loop money (s # ss) =
     (if worth s < money then
        (let money' = money - worth s
         in if money' = 0 then (ss, 0) else removeMoney_loop money' ss)
      else if worth s > money then
        (let unitWorth = worth s div snd s;
             removeCount = (money + unitWorth - 1) div unitWorth
         in (take_coins removeCount s ss @ addMoney (unitWorth * removeCount - money), 0))
      else (ss, 0))"

text \<open>
  \<open>removeMoney\<close>: the wallet and, when \<open>useBalance\<close> is set for a player, the bank balance.
  The sort is descending by worth.
\<close>

definition removeMoney :: "nat \<Rightarrow> u64 option \<Rightarrow> stack list \<Rightarrow> bool \<times> u64 option \<times> stack list" where
  "removeMoney money bank wallet =
     (if money = 0 then (True, bank, wallet)
      else
        let moneyCount = wrap64 (total_worth wallet);
            available = wrap64 (moneyCount + (case bank of None \<Rightarrow> 0 | Some b \<Rightarrow> unat b))
        in if available < money then (False, bank, wallet)
           else
             let (wallet', rest) = removeMoney_loop money (rev (sort_key worth wallet))
             in (True, (case bank of
                    None \<Rightarrow> None
                  | Some b \<Rightarrow> if 0 < rest \<and> rest \<le> unat b then Some (b - of_nat rest) else Some b),
                 wallet'))"

section \<open>Nothing is lost\<close>

lemma total_worth_simps [simp]:
  "total_worth [] = 0" "total_worth (s # ss) = worth s + total_worth ss"
  "total_worth (ss @ ts) = total_worth ss + total_worth ts"
  by (simp_all add: total_worth_def)

lemma total_worth_mset: "mset ss = mset ts \<Longrightarrow> total_worth ss = total_worth ts"
  by (simp add: total_worth_def) (metis mset_map sum_mset_sum_list)

lemma total_addCoins [simp]: "total_worth (addCoins c n) = unit_worth c * n"
proof (induction n rule: less_induct)
  case (less n)
  show ?case
  proof (cases "n = 0")
    case True
    then show ?thesis by (simp add: addCoins.simps)
  next
    case False
    with less have "total_worth (addCoins c (n - min 100 n)) = unit_worth c * (n - min 100 n)" by simp
    with False show ?thesis
      by (subst addCoins.simps) (simp add: worth_def distrib_left [symmetric])
  qed
qed

lemma addMoney_total:
  assumes "money < 42949672960000"
  shows "total_worth (addMoney money) = money"
proof -
  let ?c = "money div 10000" and ?r = "money mod 10000"
  have c: "wrap32 ?c = ?c" using assms by (intro wrap32_id) (simp add: less_mult_imp_div_less)
  have r: "money - ?c * 10000 = ?r" by (simp add: minus_div_mult_eq_mod)
  have "?r < 10000" by simp
  then have small: "?r div 100 < 100" by (simp add: less_mult_imp_div_less)
  then have p: "wrap32 (?r div 100) = ?r div 100" "wrap16 (?r div 100) = ?r div 100"
    by (simp_all add: wrap32_def wrap16_def)
  have g: "?r - ?r div 100 * 100 = ?r mod 100" by (simp add: minus_div_mult_eq_mod)
  have w: "wrap32 (?r mod 100) = ?r mod 100"
    by (intro wrap32_id) (rule less_trans [of _ 100], simp_all)
  have "total_worth (addMoney money) = 10000 * ?c + (100 * (?r div 100) + ?r mod 100)"
    unfolding addMoney_def Let_def c r p g w by simp
  also have "100 * (?r div 100) + ?r mod 100 = ?r" by (rule mult_div_mod_eq)
  also have "10000 * ?c + ?r = money" by (rule mult_div_mod_eq)
  finally show ?thesis .
qed

lemma addMoney_total_le: "total_worth (addMoney money) \<le> money"
proof -
  have wrap: "wrap32 n \<le> n" "wrap16 n \<le> n" for n by (simp_all add: wrap32_def wrap16_def)
  define c where "c = wrap32 (money div 10000)"
  define q where "q = wrap32 ((money - c * 10000) div 100)"
  have "c * 10000 \<le> money" using wrap(1) [of "money div 10000"] unfolding c_def [symmetric] by linarith
  moreover have "q * 100 \<le> money - c * 10000"
    using wrap(1) [of "(money - c * 10000) div 100"] unfolding q_def [symmetric] by linarith
  moreover have "total_worth (addMoney money)
      = 10000 * c + (100 * wrap16 q + wrap32 (money - c * 10000 - q * 100))"
    unfolding addMoney_def Let_def c_def [symmetric] q_def [symmetric] by simp
  ultimately show ?thesis
    using wrap(2) [of q] wrap(1) [of "money - c * 10000 - q * 100"] by linarith
qed

lemma worth_pos: "0 < worth s \<longleftrightarrow> 0 < snd s"
  by (cases "fst s") (simp_all add: worth_def)

lemma unit_worth_pos: "0 < unit_worth c"
  by (cases c) simp_all

lemma worth_unit: "0 < snd s \<Longrightarrow> worth s div snd s = unit_worth (fst s)"
  by (simp add: worth_def)

text \<open>Taking coins worth at least \<open>money\<close> from a stack that is worth more, with change.\<close>

lemma take_coins_change:
  fixes money :: nat and s :: stack
  defines "u \<equiv> unit_worth (fst s)"
  defines "k \<equiv> (money + u - 1) div u"
  assumes "0 < money" "money < worth s"
  shows "k \<le> snd s" "money \<le> u * k" "u * k - money < u" "total_worth (take_coins k s ss) + u * k = worth s + total_worth ss"
proof -
  have u: "0 < u" by (simp add: u_def unit_worth_pos)
  have "u * k = (money + u - 1) - (money + u - 1) mod u"
    unfolding k_def by (simp add: minus_mod_eq_mult_div)
  moreover have "(money + u - 1) mod u < u" using u by simp
  ultimately show le: "money \<le> u * k" and lt: "u * k - money < u" using u by linarith+
  have "u * k < worth s + u" using lt le assms(4) by linarith
  then have "u * k < u * (snd s + 1)" by (simp add: worth_def u_def)
  then have "k < snd s + 1" by (metis nat_mult_less_cancel_disj)
  then show k: "k \<le> snd s" by simp
  show "total_worth (take_coins k s ss) + u * k = worth s + total_worth ss"
  proof (cases "snd s \<le> k")
    case True
    with k have "k = snd s" by simp
    then show ?thesis by (simp add: take_coins_def worth_def u_def)
  next
    case False
    then have "unit_worth (fst s) * (snd s - k) + unit_worth (fst s) * k = unit_worth (fst s) * snd s"
      by (simp add: distrib_left [symmetric])
    with False show ?thesis by (simp add: take_coins_def worth_def u_def)
  qed
qed

definition stacks_ok :: "stack list \<Rightarrow> bool" where
  "stacks_ok ss \<longleftrightarrow> (\<forall>s \<in> set ss. 0 < snd s)"

lemma stacks_ok_addCoins: "stacks_ok (addCoins c n)"
proof (induction n rule: less_induct)
  case (less n)
  show ?case
    using less [of "n - min 100 n"] by (subst addCoins.simps) (auto simp: stacks_ok_def)
qed

lemma stacks_ok_addMoney: "stacks_ok (addMoney n)"
  using stacks_ok_addCoins by (auto simp: addMoney_def Let_def stacks_ok_def)

lemma removeMoney_loop_exact:
  assumes "stacks_ok ss" "0 < money"
    and "removeMoney_loop money ss = (ss', rest)"
  shows "stacks_ok ss' \<and> total_worth ss' + money = total_worth ss + rest
    \<and> (money \<le> total_worth ss \<longrightarrow> rest = 0) \<and> (total_worth ss < money \<longrightarrow> ss' = [])"
  using assms
proof (induction money ss rule: removeMoney_loop.induct)
  case (1 money)
  then show ?case by simp
next
  case (2 money s ss)
  have s: "0 < snd s" "0 < worth s" and ok: "stacks_ok ss"
    using 2(2) by (auto simp: stacks_ok_def worth_pos)
  consider "worth s < money" | "worth s > money" | "worth s = money" by linarith
  then show ?case
  proof cases
    case 1
    then have "removeMoney_loop (money - worth s) ss = (ss', rest)" using 2(4) by simp
    with 2(1) [OF 1 refl _ ok] 1 have "stacks_ok ss' \<and> total_worth ss' + (money - worth s) = total_worth ss + rest
        \<and> (money - worth s \<le> total_worth ss \<longrightarrow> rest = 0) \<and> (total_worth ss < money - worth s \<longrightarrow> ss' = [])"
      by simp
    with 1 show ?thesis by auto
  next
    case more: 2
    define u where "u = unit_worth (fst s)"
    define k where "k = (money + u - 1) div u"
    note change = take_coins_change [OF 2(3) more, folded u_def, folded k_def]
    have eq: "ss' = take_coins k s ss @ addMoney (u * k - money)" "rest = 0"
      using 2(4) more worth_unit [OF s(1)] by (simp_all add: Let_def u_def k_def)
    have "u * k - money < 42949672960000"
      using change(3) by (cases "fst s") (simp_all add: u_def)
    then have "total_worth ss' = total_worth (take_coins k s ss) + (u * k - money)"
      using addMoney_total by (simp add: eq)
    moreover have "stacks_ok (take_coins k s ss)"
      using ok by (auto simp: take_coins_def stacks_ok_def)
    ultimately show ?thesis
      using change(2) change(4) [of ss] eq more stacks_ok_addMoney by (auto simp: stacks_ok_def)
  next
    case 3
    with 2(4) ok show ?thesis by simp
  qed
qed

lemma removeMoney_exact:
  assumes "stacks_ok wallet" "total_worth wallet + (case bank of None \<Rightarrow> 0 | Some b \<Rightarrow> unat b) < 2 ^ 64"
    and "removeMoney money bank wallet = (ok, bank', wallet')"
  shows "ok \<longleftrightarrow> money \<le> total_worth wallet + (case bank of None \<Rightarrow> 0 | Some b \<Rightarrow> unat b)"
    and "\<not> ok \<Longrightarrow> bank' = bank \<and> wallet' = wallet"
    and "ok \<Longrightarrow> total_worth wallet' + (case bank' of None \<Rightarrow> 0 | Some b \<Rightarrow> unat b) + money
      = total_worth wallet + (case bank of None \<Rightarrow> 0 | Some b \<Rightarrow> unat b)"
    and "ok \<Longrightarrow> money \<le> total_worth wallet \<Longrightarrow> bank' = bank" "stacks_ok wallet'"
proof -
  let ?b = "case bank of None \<Rightarrow> 0 | Some b \<Rightarrow> unat b"
  let ?sorted = "rev (sort_key worth wallet)"
  obtain w rest where loop: "removeMoney_loop money ?sorted = (w, rest)" by fastforce
  have m: "mset ?sorted = mset wallet" by simp
  have sorted: "total_worth ?sorted = total_worth wallet" by (rule total_worth_mset [OF m])
  have sok: "stacks_ok ?sorted" using assms(1) by (simp add: stacks_ok_def)
  have wraps: "wrap64 (wrap64 (total_worth wallet) + ?b) = total_worth wallet + ?b"
    using assms(2) by (simp add: wrap64_def)
  show "ok \<longleftrightarrow> money \<le> total_worth wallet + ?b"
    and "\<not> ok \<Longrightarrow> bank' = bank \<and> wallet' = wallet"
    using assms(3) wraps by (auto simp: removeMoney_def Let_def loop split: if_splits)
  show "ok \<Longrightarrow> total_worth wallet' + (case bank' of None \<Rightarrow> 0 | Some b \<Rightarrow> unat b) + money = total_worth wallet + ?b"
    and "ok \<Longrightarrow> money \<le> total_worth wallet \<Longrightarrow> bank' = bank" "stacks_ok wallet'"
  proof -
    show "stacks_ok wallet'"
      using removeMoney_loop_exact [OF sok _ loop] assms(1,3) wraps
      by (cases "money = 0") (auto simp: removeMoney_def Let_def loop split: if_splits)
    assume ok
    show "total_worth wallet' + (case bank' of None \<Rightarrow> 0 | Some b \<Rightarrow> unat b) + money = total_worth wallet + ?b"
      and "money \<le> total_worth wallet \<Longrightarrow> bank' = bank"
    proof -
      have "total_worth wallet' + (case bank' of None \<Rightarrow> 0 | Some b \<Rightarrow> unat b) + money = total_worth wallet + ?b
        \<and> (money \<le> total_worth wallet \<longrightarrow> bank' = bank)"
      proof (cases "money = 0")
        case True
        with assms(3) show ?thesis by (simp add: removeMoney_def)
      next
        case False
        then have pos: "0 < money" by simp
        note exact = removeMoney_loop_exact [OF sok pos loop, unfolded sorted]
        have enough: "\<not> total_worth wallet + ?b < money"
          using assms(3) \<open>ok\<close> False wraps by (auto simp: removeMoney_def Let_def split: if_splits)
        have res: "wallet' = w" "bank' = (case bank of None \<Rightarrow> None
            | Some b \<Rightarrow> if 0 < rest \<and> rest \<le> unat b then Some (b - of_nat rest) else Some b)"
          using assms(3) False enough wraps by (auto simp: removeMoney_def Let_def loop)
        show ?thesis
        proof (cases bank)
          case None
          with exact enough res show ?thesis by auto
        next
          case (Some b)
          have rest: "rest \<le> unat b" using exact enough Some by auto
          then have n: "unat (of_nat rest :: u64) = rest"
            using unsigned_less [of b, where 'a = nat] by (simp add: unat_of_nat)
          then have "of_nat rest \<le> b" using rest by (simp add: word_le_nat_alt)
          then have "unat (b - of_nat rest) = unat b - rest" using n by (simp add: unat_sub)
          with exact rest res Some show ?thesis by auto
        qed
      qed
      then show "total_worth wallet' + (case bank' of None \<Rightarrow> 0 | Some b \<Rightarrow> unat b) + money = total_worth wallet + ?b"
        and "money \<le> total_worth wallet \<Longrightarrow> bank' = bank" by blast+
    qed
  qed
qed

section \<open>Properties\<close>

text \<open>
  C32. Paying takes exactly the price: \<open>removeMoney\<close> succeeds exactly when the coins, together
  with the bank balance where it may be used, reach the price; on failure nothing changes;
  on success what is left is what was there minus the price, with change given out of a
  stack that is worth too much, and the bank is touched only when the coins do not reach.
\<close>
theorem removeMoney_takes_exactly:
  assumes "stacks_ok wallet" "total_worth wallet + (case bank of None \<Rightarrow> 0 | Some b \<Rightarrow> unat b) < 2 ^ 64"
  shows "case removeMoney money bank wallet of (ok, bank', wallet') \<Rightarrow>
    (ok \<longleftrightarrow> money \<le> total_worth wallet + (case bank of None \<Rightarrow> 0 | Some b \<Rightarrow> unat b))
    \<and> (\<not> ok \<longrightarrow> bank' = bank \<and> wallet' = wallet)
    \<and> (ok \<longrightarrow> total_worth wallet' + (case bank' of None \<Rightarrow> 0 | Some b \<Rightarrow> unat b) + money
          = total_worth wallet + (case bank of None \<Rightarrow> 0 | Some b \<Rightarrow> unat b))
    \<and> (ok \<and> money \<le> total_worth wallet \<longrightarrow> bank' = bank)"
proof -
  obtain ok bank' wallet' where r: "removeMoney money bank wallet = (ok, bank', wallet')"
    by (metis prod.exhaust)
  show ?thesis
    unfolding r prod.case using removeMoney_exact [OF assms r] by blast
qed

theorem removeMoney_takes_exactly_witness:
  "case removeMoney 250 (Some 1000) [(ITEM_GOLD_COIN, 30), (ITEM_PLATINUM_COIN, 1), (ITEM_CRYSTAL_COIN, 2)]
   of (ok, bank', wallet') \<Rightarrow> ok \<and> total_worth wallet' = 19880 \<and> bank' = Some 1000"
proof -
  let ?w = "[(ITEM_GOLD_COIN, 30), (ITEM_PLATINUM_COIN, 1), (ITEM_CRYSTAL_COIN, 2)] :: stack list"
  have pre: "stacks_ok ?w" "total_worth ?w + (case Some (1000 :: u64) of None \<Rightarrow> 0 | Some b \<Rightarrow> unat b) < 2 ^ 64"
    by (simp_all add: stacks_ok_def worth_def)
  show ?thesis
    using removeMoney_takes_exactly [OF pre, of 250]
    by (auto simp: worth_def split: prod.splits)
qed

end
