(* ===== verification/Bank.thy ===== *)
theory Bank
  imports Money
begin

text \<open>
  \<open>Bank\<close> and \<open>Bankable\<close> (src/src/game/bank/bank.hpp and .cpp): credit, debit, transfer,
  withdrawal and deposit over players and guilds. Bankables live in a store; a bank is the
  key of its bankable, or none (a null \<open>m_bankable\<close>). A player carries coins, a guild does
  not. Balances are \<open>uint64_t\<close>, so \<open>credit\<close> wraps. Logging, metrics and the saving in the
  destructor are left out.
\<close>

record holder =
  h_name :: string
  h_town :: int
  h_coins :: "stack list"

record bankable =
  bk_balance :: u64
  bk_player :: "holder option"

type_synonym 'k store = "'k \<rightharpoonup> bankable"
type_synonym 'k bank = "'k option"

definition getBankable :: "'k bank \<Rightarrow> 'k store \<Rightarrow> bankable option" where
  "getBankable b w = (case b of None \<Rightarrow> None | Some k \<Rightarrow> w k)"

definition balance_of :: "'k bank \<Rightarrow> 'k store \<Rightarrow> u64" where
  "balance_of b w = (case getBankable b w of None \<Rightarrow> 0 | Some r \<Rightarrow> bk_balance r)"

definition set_balance :: "u64 \<Rightarrow> 'k bank \<Rightarrow> 'k store \<Rightarrow> bool \<times> 'k store" where
  "set_balance amount b w = (case getBankable b w of
      None \<Rightarrow> (False, w)
    | Some r \<Rightarrow> (True, w(the b \<mapsto> r\<lparr>bk_balance := amount\<rparr>)))"

definition hasBalance :: "u64 \<Rightarrow> 'k bank \<Rightarrow> 'k store \<Rightarrow> bool" where
  "hasBalance amount b w \<longleftrightarrow> balance_of b w \<ge> amount"

definition credit :: "u64 \<Rightarrow> 'k bank \<Rightarrow> 'k store \<Rightarrow> bool \<times> 'k store" where
  "credit amount b w = set_balance (balance_of b w + amount) b w"

definition debit :: "u64 \<Rightarrow> 'k bank \<Rightarrow> 'k store \<Rightarrow> bool \<times> 'k store" where
  "debit amount b w =
     (if \<not> hasBalance amount b w then (False, w)
      else set_balance (balance_of b w - amount) b w)"

definition lower_char :: "char \<Rightarrow> char" where
  "lower_char c = (let n = of_char c :: nat in if 65 \<le> n \<and> n \<le> 90 then char_of (n + 32) else c)"

definition normal_name :: "string \<Rightarrow> string" where
  "normal_name s = filter (\<lambda>c. c \<noteq> CHR '' '') (map lower_char s)"

definition deniedNames :: "string list" where
  "deniedNames = [''accountmanager'', ''rooksample'', ''druidsample'', ''sorcerersample'',
     ''knightsample'', ''paladinsample'', ''monksample'']"

definition transfer_denied :: "int \<Rightarrow> holder \<Rightarrow> holder \<Rightarrow> bool" where
  "transfer_denied minTown destination source \<longleftrightarrow>
     normal_name (h_name destination) \<in> set deniedNames
     \<or> (h_town destination < minTown \<and> h_town source \<ge> minTown)
     \<or> (h_town source < minTown \<and> h_town destination \<ge> minTown)"

text \<open>The destination is a pointer to a bank: the outer \<open>None\<close> is \<open>nullptr\<close>.\<close>

definition transferTo ::
    "int \<Rightarrow> 'k bank \<Rightarrow> 'k bank option \<Rightarrow> u64 \<Rightarrow> 'k store \<Rightarrow> bool \<times> 'k store" where
  "transferTo minTown src destination amount w =
     (case destination of
        None \<Rightarrow> (False, w)
      | Some dst \<Rightarrow> (case (getBankable src w, getBankable dst w) of
          (Some s, Some d) \<Rightarrow>
            if (case (bk_player d, bk_player s) of
                  (Some dp, Some sp) \<Rightarrow> transfer_denied minTown dp sp
                | _ \<Rightarrow> False)
            then (False, w)
            else (case debit amount src w of
                (False, w1) \<Rightarrow> (False, w1)
              | (True, w1) \<Rightarrow> credit amount dst w1)
        | _ \<Rightarrow> (False, w)))"

definition give_coins :: "nat \<Rightarrow> 'k \<Rightarrow> 'k store \<Rightarrow> 'k store" where
  "give_coins amount k w = (case w k of
      Some r \<Rightarrow> (case bk_player r of
          Some h \<Rightarrow> w(k \<mapsto> r\<lparr>bk_player := Some (h\<lparr>h_coins := h_coins h @ addMoney amount\<rparr>)\<rparr>)
        | None \<Rightarrow> w)
    | None \<Rightarrow> w)"

definition withdraw :: "'k bank \<Rightarrow> 'k option \<Rightarrow> u64 \<Rightarrow> 'k store \<Rightarrow> bool \<times> 'k store" where
  "withdraw b player amount w =
     (case player of
        None \<Rightarrow> (False, w)
      | Some k \<Rightarrow> (case debit amount b w of
          (False, w1) \<Rightarrow> (False, w1)
        | (True, w1) \<Rightarrow> (True, give_coins (unat amount) k w1)))"

definition deposit_amount ::
    "'k bank \<Rightarrow> 'k bank option \<Rightarrow> u64 \<Rightarrow> 'k store \<Rightarrow> bool \<times> 'k store" where
  "deposit_amount b destination amount w =
     (case destination of
        None \<Rightarrow> (False, w)
      | Some dst \<Rightarrow> (case getBankable b w of
          None \<Rightarrow> (False, w)
        | Some r \<Rightarrow> (case bk_player r of
            None \<Rightarrow> (False, w)
          | Some h \<Rightarrow> (case removeMoney (unat amount) None (h_coins h) of
              (False, _) \<Rightarrow> (False, w)
            | (True, _, coins) \<Rightarrow>
                credit amount dst (w(the b \<mapsto> r\<lparr>bk_player := Some (h\<lparr>h_coins := coins\<rparr>)\<rparr>))))))"

text \<open>\<open>getMoney\<close> is a \<open>uint64_t\<close>.\<close>

definition deposit_all :: "'k bank \<Rightarrow> 'k bank option \<Rightarrow> 'k store \<Rightarrow> bool \<times> 'k store" where
  "deposit_all b destination w =
     (case getBankable b w of
        None \<Rightarrow> (False, w)
      | Some r \<Rightarrow> (case bk_player r of
          None \<Rightarrow> (False, w)
        | Some h \<Rightarrow> deposit_amount b destination (of_nat (total_worth (h_coins h))) w))"

section \<open>Balances\<close>

text \<open>The store as the bank uses it: a balance per key.\<close>

locale balance_store =
  fixes getb :: "'k \<Rightarrow> 's \<Rightarrow> u64 option"
    and setb :: "'k \<Rightarrow> u64 \<Rightarrow> 's \<Rightarrow> 's"
  assumes get_set: "getb k w \<noteq> None \<Longrightarrow> getb k (setb k x w) = Some x"
    and get_set_other: "j \<noteq> k \<Longrightarrow> getb j (setb k x w) = getb j w"
begin

lemma move:
  assumes "getb i w = Some x" "getb j w = Some y" "i \<noteq> j" "a \<le> x" "unat y + unat a < 2 ^ 64"
  shows "\<exists>x' y'. getb i (setb j (y + a) (setb i (x - a) w)) = Some x'
    \<and> getb j (setb j (y + a) (setb i (x - a) w)) = Some y'
    \<and> unat x' + unat a = unat x \<and> unat y' = unat y + unat a
    \<and> (\<forall>k. k \<noteq> i \<and> k \<noteq> j \<longrightarrow> getb k (setb j (y + a) (setb i (x - a) w)) = getb k w)"
proof -
  have "unat (x - a) + unat a = unat x" using assms(4) by (simp add: unat_sub word_le_nat_alt)
  moreover have "unat (y + a) = unat y + unat a" using assms(5) by (simp add: unat_word_ariths)
  ultimately show ?thesis using assms by (simp add: get_set get_set_other)
qed

end

definition store_balance :: "'k \<Rightarrow> 'k store \<Rightarrow> u64 option" where
  "store_balance k w = map_option bk_balance (w k)"

definition store_set :: "'k \<Rightarrow> u64 \<Rightarrow> 'k store \<Rightarrow> 'k store" where
  "store_set k x w = snd (set_balance x (Some k) w)"

interpretation balances: balance_store store_balance store_set
  by unfold_locales
    (auto simp: store_balance_def store_set_def set_balance_def getBankable_def split: option.splits)

section \<open>Wealth\<close>

definition holding :: "bankable \<Rightarrow> nat" where
  "holding r = unat (bk_balance r)
     + (case bk_player r of None \<Rightarrow> 0 | Some h \<Rightarrow> total_worth (h_coins h))"

definition wealth :: "'k store \<Rightarrow> nat" where
  "wealth w = (\<Sum>k \<in> dom w. holding (the (w k)))"

definition store_ok :: "'k store \<Rightarrow> bool" where
  "store_ok w \<longleftrightarrow> finite (dom w)
     \<and> (\<forall>r \<in> ran w. case bk_player r of None \<Rightarrow> True | Some h \<Rightarrow> stacks_ok (h_coins h))"

lemma wealth_split:
  assumes "finite (dom w)" "w k = Some r"
  shows "wealth w = holding r + (\<Sum>j \<in> dom w - {k}. holding (the (w j)))"
proof -
  have k: "k \<in> dom w" using assms(2) by (simp add: domI)
  show ?thesis
    unfolding wealth_def using sum.remove [OF assms(1) k, of "\<lambda>j. holding (the (w j))"] assms(2) by simp
qed

lemma wealth_update:
  assumes "finite (dom w)" "w k = Some r"
  shows "wealth (w(k \<mapsto> r')) + holding r = wealth w + holding r'"
proof -
  have "dom (w(k \<mapsto> r')) = dom w" using assms(2) by auto
  moreover have "(\<Sum>j \<in> dom w - {k}. holding (the ((w(k \<mapsto> r')) j))) = (\<Sum>j \<in> dom w - {k}. holding (the (w j)))"
    by (rule sum.cong) simp_all
  ultimately show ?thesis
    using wealth_split [OF assms] wealth_split [of "w(k \<mapsto> r')" k r'] assms(1) by simp
qed

lemma holding_le: "finite (dom w) \<Longrightarrow> w k = Some r \<Longrightarrow> holding r \<le> wealth w"
  using wealth_split by fastforce

lemma store_ok_update:
  "store_ok w \<Longrightarrow> (case bk_player r of None \<Rightarrow> True | Some h \<Rightarrow> stacks_ok (h_coins h)) \<Longrightarrow> store_ok (w(k \<mapsto> r))"
  by (auto simp: store_ok_def ran_def split: option.splits)

lemma store_ok_coins: "store_ok w \<Longrightarrow> w k = Some r \<Longrightarrow> bk_player r = Some h \<Longrightarrow> stacks_ok (h_coins h)"
  by (auto simp: store_ok_def ran_def)

lemma store_ok_finite: "store_ok w \<Longrightarrow> finite (dom w)"
  by (simp add: store_ok_def)

lemma set_balance_wealth:
  assumes "store_ok w" "w k = Some r"
  shows "store_ok (snd (set_balance x (Some k) w))"
    and "fst (set_balance x (Some k) w)"
    and "wealth (snd (set_balance x (Some k) w)) + unat (bk_balance r) = wealth w + unat x"
    and "dom (snd (set_balance x (Some k) w)) = dom w"
proof -
  have eq: "set_balance x (Some k) w = (True, w(k \<mapsto> r\<lparr>bk_balance := x\<rparr>))"
    using assms(2) by (simp add: set_balance_def getBankable_def)
  show "store_ok (snd (set_balance x (Some k) w))"
    unfolding eq snd_conv using store_ok_coins [OF assms]
    by (intro store_ok_update [OF assms(1)]) (auto split: option.split)
  show "fst (set_balance x (Some k) w)" by (simp add: eq)
  show "dom (snd (set_balance x (Some k) w)) = dom w" using assms(2) by (auto simp: eq)
  show "wealth (snd (set_balance x (Some k) w)) + unat (bk_balance r) = wealth w + unat x"
    using wealth_update [OF store_ok_finite [OF assms(1)] assms(2), of "r\<lparr>bk_balance := x\<rparr>"]
    by (simp add: eq holding_def)
qed

lemma credit_wealth:
  assumes "store_ok w" "k \<in> dom w" "wealth w + unat a < 2 ^ 64" "credit a (Some k) w = (ok, w')"
  shows "ok \<and> store_ok w' \<and> dom w' = dom w \<and> wealth w' = wealth w + unat a"
proof -
  obtain r where r: "w k = Some r" using assms(2) by blast
  have b: "balance_of (Some k) w = bk_balance r" using r by (simp add: balance_of_def getBankable_def)
  have "unat (bk_balance r) \<le> wealth w"
    using holding_le [OF store_ok_finite [OF assms(1)] r] by (simp add: holding_def)
  then have "unat (bk_balance r + a) = unat (bk_balance r) + unat a"
    using assms(3) by (simp add: unat_word_ariths)
  with set_balance_wealth [OF assms(1) r, of "bk_balance r + a"] assms(4) b show ?thesis
    by (auto simp: credit_def)
qed

lemma debit_wealth:
  assumes "store_ok w" "debit a b w = (True, w')"
  shows "store_ok w' \<and> dom w' = dom w \<and> wealth w' + unat a = wealth w"
proof -
  obtain r k where r: "b = Some k" "w k = Some r"
    using assms(2) by (auto simp: debit_def set_balance_def getBankable_def split: if_splits option.splits)
  have bal: "balance_of b w = bk_balance r" using r by (simp add: balance_of_def getBankable_def)
  have le: "a \<le> bk_balance r" using assms(2) bal by (auto simp: debit_def hasBalance_def split: if_splits)
  then have "unat (bk_balance r - a) + unat a = unat (bk_balance r)"
    by (simp add: unat_sub word_le_nat_alt)
  moreover have "w' = snd (set_balance (bk_balance r - a) (Some k) w)"
    using assms(2) bal r(1) by (auto simp: debit_def split: if_splits)
  ultimately show ?thesis using set_balance_wealth [OF assms(1) r(2), of "bk_balance r - a"] by auto
qed

lemma debit_fails: "debit a b w = (False, w') \<Longrightarrow> w' = w"
  by (auto simp: debit_def set_balance_def split: if_splits option.splits)

text \<open>What every operation below keeps, with the amount a withdrawal may hand out at once.\<close>

definition conserves :: "'k store \<Rightarrow> 'k store \<Rightarrow> bool" where
  "conserves w w' \<longleftrightarrow> store_ok w' \<and> dom w' = dom w \<and> wealth w' = wealth w"

lemma conserves_refl: "store_ok w \<Longrightarrow> conserves w w"
  by (simp add: conserves_def)

lemma transferTo_conserves:
  assumes "store_ok w" "wealth w < 2 ^ 64" "transferTo minTown src destination amount w = (ok, w')"
  shows "conserves w w'"
proof (cases "ok")
  case False
  show ?thesis
  proof (cases "\<exists>dst s d. destination = Some dst \<and> getBankable src w = Some s \<and> getBankable dst w = Some d
      \<and> fst (debit amount src w)")
    case True
    then obtain dst s d w1 where *: "destination = Some dst" "getBankable src w = Some s"
        "getBankable dst w = Some d" "debit amount src w = (True, w1)"
      by (cases "debit amount src w") auto
    note debited = debit_wealth [OF assms(1) *(4)]
    obtain k where k: "dst = Some k" "k \<in> dom w" using *(3) by (auto simp: getBankable_def split: option.splits)
    show ?thesis
    proof (cases "case (bk_player d, bk_player s) of (Some dp, Some sp) \<Rightarrow> transfer_denied minTown dp sp | _ \<Rightarrow> False")
      case True
      with assms(3) * show ?thesis using conserves_refl [OF assms(1)] by (simp add: transferTo_def)
    next
      case False
      with assms(3) * have "credit amount dst w1 = (ok, w')" by (simp add: transferTo_def)
      moreover have "ok" using credit_wealth [of w1 k amount "ok" w'] debited k calculation assms(2) by simp
      ultimately show ?thesis using \<open>\<not> ok\<close> by simp
    qed
  next
    case none: False
    have "w' = w"
      using assms(3) none debit_fails [of amount src w]
      by (auto simp: transferTo_def split: option.splits if_splits prod.splits bool.splits)
    with conserves_refl [OF assms(1)] show ?thesis by simp
  qed
next
  case True
  with assms(3) obtain dst s d w1 where *: "getBankable dst w = Some d"
      "debit amount src w = (True, w1)" "credit amount dst w1 = (True, w')"
    by (auto simp: transferTo_def split: option.splits if_splits prod.splits bool.splits)
  note debited = debit_wealth [OF assms(1) *(2)]
  obtain k where k: "dst = Some k" "k \<in> dom w" using *(1) by (auto simp: getBankable_def split: option.splits)
  show ?thesis
    using credit_wealth [of w1 k amount True w'] debited k *(3) assms(2) by (simp add: conserves_def)
qed

lemma give_coins_wealth:
  assumes "store_ok w" "w k = Some r" "bk_player r = Some h" "amount < 42949672960000"
  shows "store_ok (give_coins amount k w) \<and> dom (give_coins amount k w) = dom w
    \<and> wealth (give_coins amount k w) = wealth w + amount"
proof -
  let ?r = "r\<lparr>bk_player := Some (h\<lparr>h_coins := h_coins h @ addMoney amount\<rparr>)\<rparr>"
  have eq: "give_coins amount k w = w(k \<mapsto> ?r)" using assms(2,3) by (simp add: give_coins_def)
  have "stacks_ok (h_coins h @ addMoney amount)"
    using store_ok_coins [OF assms(1-3)] stacks_ok_addMoney by (auto simp: stacks_ok_def)
  then have "store_ok (w(k \<mapsto> ?r))" by (intro store_ok_update [OF assms(1)]) simp
  moreover have "holding ?r = holding r + amount"
    using assms(3) addMoney_total [OF assms(4)] by (simp add: holding_def)
  ultimately show ?thesis
    using wealth_update [OF store_ok_finite [OF assms(1)] assms(2), of ?r] assms(2) eq by auto
qed

lemma withdraw_conserves:
  assumes "store_ok w" "withdraw b player amount w = (ok, w')" "unat amount < 42949672960000"
    and "\<And>k. player = Some k \<Longrightarrow> \<exists>r. w k = Some r \<and> bk_player r \<noteq> None"
  shows "conserves w w'"
proof (cases player)
  case None
  with assms(1,2) show ?thesis by (simp add: withdraw_def conserves_refl)
next
  case (Some k)
  show ?thesis
  proof (cases "debit amount b w")
    case (Pair paid w1)
    show ?thesis
    proof (cases paid)
      case False
      with Pair debit_fails [of amount b w w1] assms(1,2) Some show ?thesis
        by (simp add: withdraw_def conserves_refl)
    next
      case True
      with Pair have "debit amount b w = (True, w1)" by simp
      note debited = debit_wealth [OF assms(1) this]
      obtain r h where r: "w k = Some r" "bk_player r = Some h" using assms(4) [OF Some] by auto
      have "\<exists>r1. w1 k = Some r1 \<and> bk_player r1 = Some h"
        using Pair True r
        by (cases "b = Some k")
          (auto simp: debit_def set_balance_def getBankable_def split: if_splits option.splits)
      then obtain r1 where r1: "w1 k = Some r1" "bk_player r1 = Some h" by blast
      have "w' = give_coins (unat amount) k w1" using assms(2) Some Pair True by (simp add: withdraw_def)
      with give_coins_wealth [of w1 k r1 h "unat amount"] r1 assms(3) debited show ?thesis
        by (simp add: conserves_def)
    qed
  qed
qed

text \<open>A deposit that gets as far as crediting has taken the amount in coins.\<close>

lemma deposit_amount_cases:
  assumes "store_ok w" "wealth w < 2 ^ 64" "deposit_amount b destination amount w = (ok, w')"
  obtains (refused) "w' = w"
    | (taken) dst w1 where "destination = Some dst" "store_ok w1" "wealth w1 + unat amount = wealth w"
        "dom w1 = dom w" "credit amount dst w1 = (ok, w')"
proof (cases "\<exists>dst r h coins bank. destination = Some dst \<and> getBankable b w = Some r \<and> bk_player r = Some h
    \<and> removeMoney (unat amount) None (h_coins h) = (True, bank, coins)")
  case False
  then have "w' = w"
    using assms(3) by (auto simp: deposit_amount_def split: option.splits prod.splits bool.splits)
  with refused show thesis .
next
  case True
  then obtain dst r h coins bank where *: "destination = Some dst" "getBankable b w = Some r"
      "bk_player r = Some h" "removeMoney (unat amount) None (h_coins h) = (True, bank, coins)" by blast
  obtain i where i: "b = Some i" "w i = Some r" using *(2) by (auto simp: getBankable_def split: option.splits)
  let ?r = "r\<lparr>bk_player := Some (h\<lparr>h_coins := coins\<rparr>)\<rparr>"
  let ?w = "w(i \<mapsto> ?r)"
  have le: "total_worth (h_coins h) \<le> wealth w"
    using holding_le [OF store_ok_finite [OF assms(1)] i(2)] *(3) by (simp add: holding_def)
  have pre: "total_worth (h_coins h) + (case (None :: u64 option) of None \<Rightarrow> 0 | Some b \<Rightarrow> unat b) < 2 ^ 64"
    using le assms(2) by simp
  note removed = removeMoney_exact [OF store_ok_coins [OF assms(1) i(2) *(3)] pre *(4)]
  have coins: "total_worth coins + unat amount = total_worth (h_coins h)" "stacks_ok coins"
    using removed(3,5) *(4) removed(4) by (auto simp: removeMoney_def Let_def split: if_splits prod.splits)
  have ok1: "store_ok ?w" using coins(2) by (intro store_ok_update [OF assms(1)]) simp
  have w1: "wealth ?w + unat amount = wealth w"
    using wealth_update [OF store_ok_finite [OF assms(1)] i(2), of ?r] coins(1) *(3)
    by (simp add: holding_def)
  have dom: "dom ?w = dom w" using i(2) by auto
  have "credit amount dst ?w = (ok, w')" using assms(3) * i by (simp add: deposit_amount_def)
  from taken [OF *(1) ok1 w1 dom this] show thesis .
qed

lemma deposit_amount_conserves:
  assumes "store_ok w" "wealth w < 2 ^ 64" "deposit_amount b destination amount w = (ok, w')"
    and "\<And>dst. destination = Some dst \<Longrightarrow> getBankable dst w \<noteq> None"
  shows "conserves w w'"
  using assms(1-3)
proof (cases rule: deposit_amount_cases)
  case refused
  with conserves_refl [OF assms(1)] show ?thesis by simp
next
  case (taken dst w1)
  obtain k where k: "dst = Some k" "k \<in> dom w"
    using assms(4) [OF taken(1)] by (auto simp: getBankable_def split: option.splits)
  with credit_wealth [of w1 k amount "ok" w'] taken assms(2) show ?thesis
    by (simp add: conserves_def)
qed

text \<open>Without a bankable to credit the coins are gone; nothing is ever created.\<close>

definition shrinks :: "'k store \<Rightarrow> 'k store \<Rightarrow> bool" where
  "shrinks w w' \<longleftrightarrow> store_ok w' \<and> dom w' = dom w \<and> wealth w' \<le> wealth w"

lemma conserves_shrinks: "conserves w w' \<Longrightarrow> shrinks w w'"
  by (simp add: conserves_def shrinks_def)

lemma deposit_amount_shrinks:
  assumes "store_ok w" "wealth w < 2 ^ 64" "deposit_amount b destination amount w = (ok, w')"
  shows "shrinks w w'"
  using assms
proof (cases rule: deposit_amount_cases)
  case refused
  with assms(1) show ?thesis by (simp add: shrinks_def)
next
  case (taken dst w1)
  show ?thesis
  proof (cases "getBankable dst w1")
    case None
    then have "w' = w1" using taken(5) by (simp add: credit_def set_balance_def)
    with taken show ?thesis by (simp add: shrinks_def)
  next
    case (Some r)
    then obtain k where k: "dst = Some k" "k \<in> dom w1" by (auto simp: getBankable_def split: option.splits)
    with credit_wealth [of w1 k amount "ok" w'] taken assms(2) show ?thesis
      by (simp add: shrinks_def)
  qed
qed

lemma deposit_lost_coins:
  assumes "store_ok w" "wealth w < 2 ^ 64" "deposit_amount b (Some dst) amount w = (ok, w')"
    and "getBankable dst w = None" "w' \<noteq> w"
  shows "\<not> ok \<and> wealth w' + unat amount = wealth w"
  using assms(1-3)
proof (cases rule: deposit_amount_cases)
  case refused
  with assms(5) show ?thesis by simp
next
  case (taken d w1)
  then have "w1 k = None \<longleftrightarrow> w k = None" for k by (metis domIff)
  then have "getBankable dst w1 = None" using assms(4) by (simp add: getBankable_def split: option.splits)
  with taken show ?thesis by (auto simp: credit_def set_balance_def)
qed

lemma deposit_all_shrinks:
  assumes "store_ok w" "wealth w < 2 ^ 64" "deposit_all b destination w = (ok, w')"
  shows "shrinks w w'"
proof -
  have "w' = w \<or> (\<exists>amount. deposit_amount b destination amount w = (ok, w'))"
    using assms(3) by (auto simp: deposit_all_def split: option.splits)
  then show ?thesis
  proof
    assume "w' = w"
    with assms(1) show ?thesis by (simp add: shrinks_def)
  next
    assume "\<exists>amount. deposit_amount b destination amount w = (ok, w')"
    with deposit_amount_shrinks [OF assms(1,2)] show ?thesis by blast
  qed
qed

lemma give_coins_shrinks:
  assumes "store_ok w"
  shows "store_ok (give_coins amount k w) \<and> dom (give_coins amount k w) = dom w
    \<and> wealth (give_coins amount k w) \<le> wealth w + amount"
proof (cases "\<exists>r h. w k = Some r \<and> bk_player r = Some h")
  case False
  then have "give_coins amount k w = w" by (auto simp: give_coins_def split: option.split)
  with assms show ?thesis by simp
next
  case True
  then obtain r h where r: "w k = Some r" "bk_player r = Some h" by blast
  let ?r = "r\<lparr>bk_player := Some (h\<lparr>h_coins := h_coins h @ addMoney amount\<rparr>)\<rparr>"
  have eq: "give_coins amount k w = w(k \<mapsto> ?r)" using r by (simp add: give_coins_def)
  have "stacks_ok (h_coins h @ addMoney amount)"
    using store_ok_coins [OF assms r] stacks_ok_addMoney by (auto simp: stacks_ok_def)
  then have "store_ok (w(k \<mapsto> ?r))" by (intro store_ok_update [OF assms]) simp
  moreover have "holding ?r \<le> holding r + amount"
    using r(2) addMoney_total_le [of amount] by (simp add: holding_def)
  ultimately show ?thesis
    using wealth_update [OF store_ok_finite [OF assms] r(1), of ?r] r(1) eq by auto
qed

lemma withdraw_shrinks:
  assumes "store_ok w" "withdraw b player amount w = (ok, w')"
  shows "shrinks w w'"
proof (cases "\<exists>k w1. player = Some k \<and> debit amount b w = (True, w1)")
  case True
  then obtain k w1 where *: "player = Some k" "debit amount b w = (True, w1)" by blast
  then have "w' = give_coins (unat amount) k w1" using assms(2) by (simp add: withdraw_def)
  with give_coins_shrinks [of w1 "unat amount" k] debit_wealth [OF assms(1) *(2)] show ?thesis
    by (simp add: shrinks_def)
next
  case False
  then have "w' = w"
    using assms(2) debit_fails [of amount b w]
    by (auto simp: withdraw_def split: option.splits prod.splits bool.splits)
  with assms(1) show ?thesis by (simp add: shrinks_def)
qed

lemma deposit_all_conserves:
  assumes "store_ok w" "wealth w < 2 ^ 64" "deposit_all b destination w = (ok, w')"
    and "\<And>dst. destination = Some dst \<Longrightarrow> getBankable dst w \<noteq> None"
  shows "conserves w w'"
proof (cases "getBankable b w")
  case None
  with assms(1,3) show ?thesis by (simp add: deposit_all_def conserves_refl)
next
  case (Some r)
  show ?thesis
  proof (cases "bk_player r")
    case None
    with Some assms(1,3) show ?thesis by (simp add: deposit_all_def conserves_refl)
  next
    case (Some h)
    with \<open>getBankable b w = Some r\<close> assms(3)
    have "deposit_amount b destination (of_nat (total_worth (h_coins h))) w = (ok, w')"
      by (simp add: deposit_all_def)
    from deposit_amount_conserves [OF assms(1,2) this assms(4)] show ?thesis .
  qed
qed

section \<open>Runs\<close>

datatype 'k bank_op =
    Op_Transfer int "'k bank" "'k bank option" u64
  | Op_Withdraw "'k bank" "'k option" u64
  | Op_Deposit "'k bank" "'k bank option" u64
  | Op_DepositAll "'k bank" "'k bank option"

fun bank_step :: "'k bank_op \<Rightarrow> 'k store \<Rightarrow> bool \<times> 'k store" where
  "bank_step (Op_Transfer minTown src dst amount) w = transferTo minTown src dst amount w"
| "bank_step (Op_Withdraw b player amount) w = withdraw b player amount w"
| "bank_step (Op_Deposit b dst amount) w = deposit_amount b dst amount w"
| "bank_step (Op_DepositAll b dst) w = deposit_all b dst w"

fun bank_run :: "'k bank_op list \<Rightarrow> 'k store \<Rightarrow> 'k store" where
  "bank_run [] w = w"
| "bank_run (op # ops) w = bank_run ops (snd (bank_step op w))"

text \<open>
  A withdrawal goes to a player that exists, in amounts \<open>addMoney\<close> can count; a deposit goes
  to a bank that exists (otherwise the coins are taken and credited to nobody).
\<close>

fun op_ok :: "'k store \<Rightarrow> 'k bank_op \<Rightarrow> bool" where
  "op_ok w (Op_Transfer minTown src dst amount) \<longleftrightarrow> True"
| "op_ok w (Op_Withdraw b player amount) \<longleftrightarrow> unat amount < 42949672960000
     \<and> (case player of None \<Rightarrow> True
        | Some k \<Rightarrow> (case w k of None \<Rightarrow> False | Some r \<Rightarrow> bk_player r \<noteq> None))"
| "op_ok w (Op_Deposit b dst amount) \<longleftrightarrow> (case dst of None \<Rightarrow> True | Some d \<Rightarrow> getBankable d w \<noteq> None)"
| "op_ok w (Op_DepositAll b dst) \<longleftrightarrow> (case dst of None \<Rightarrow> True | Some d \<Rightarrow> getBankable d w \<noteq> None)"

lemma bank_step_conserves:
  assumes "store_ok w" "wealth w < 2 ^ 64" "op_ok w op"
  shows "conserves w (snd (bank_step op w))"
proof (cases op)
  case (Op_Transfer minTown src dst amount)
  then show ?thesis using transferTo_conserves [OF assms(1,2) surjective_pairing] by simp
next
  case (Op_Withdraw b player amount)
  then show ?thesis
    using assms(3) withdraw_conserves [OF assms(1) surjective_pairing, of amount player b]
    by (auto split: option.splits)
next
  case (Op_Deposit b dst amount)
  have "getBankable d w \<noteq> None" if "dst = Some d" for d using assms(3) Op_Deposit that by simp
  from deposit_amount_conserves [OF assms(1,2) surjective_pairing this] Op_Deposit show ?thesis by simp
next
  case (Op_DepositAll b dst)
  have "getBankable d w \<noteq> None" if "dst = Some d" for d using assms(3) Op_DepositAll that by simp
  from deposit_all_conserves [OF assms(1,2) surjective_pairing this] Op_DepositAll show ?thesis by simp
qed

lemma bank_step_shrinks:
  assumes "store_ok w" "wealth w < 2 ^ 64"
  shows "shrinks w (snd (bank_step op w))"
proof (cases op)
  case (Op_Transfer minTown src dst amount)
  then show ?thesis
    using conserves_shrinks [OF transferTo_conserves [OF assms surjective_pairing]] by simp
next
  case (Op_Withdraw b player amount)
  then show ?thesis using withdraw_shrinks [OF assms(1) surjective_pairing] by simp
next
  case (Op_Deposit b dst amount)
  then show ?thesis using deposit_amount_shrinks [OF assms surjective_pairing] by simp
next
  case (Op_DepositAll b dst)
  then show ?thesis using deposit_all_shrinks [OF assms surjective_pairing] by simp
qed

lemma bank_run_shrinks:
  assumes "store_ok w" "wealth w < 2 ^ 64"
  shows "shrinks w (bank_run ops w)"
  using assms
proof (induction ops arbitrary: w)
  case Nil
  then show ?case by (simp add: shrinks_def)
next
  case (Cons op ops)
  have step: "shrinks w (snd (bank_step op w))" using Cons.prems by (rule bank_step_shrinks)
  with Cons.IH [of "snd (bank_step op w)"] Cons.prems show ?case by (simp add: shrinks_def)
qed

text \<open>Who is a player and who exists does not change, so neither does what may be asked.\<close>

definition same_people :: "'k store \<Rightarrow> 'k store \<Rightarrow> bool" where
  "same_people w w' \<longleftrightarrow> (\<forall>k. map_option (\<lambda>r. bk_player r = None) (w' k)
      = map_option (\<lambda>r. bk_player r = None) (w k))"

lemma same_people_refl: "same_people w w"
  by (simp add: same_people_def)

lemma same_people_trans: "same_people a b \<Longrightarrow> same_people b c \<Longrightarrow> same_people a c"
  by (simp add: same_people_def)

lemma same_people_set: "same_people w (snd (set_balance x b w))"
  by (auto simp: same_people_def set_balance_def getBankable_def split: option.splits)

lemma same_people_debit: "same_people w (snd (debit a b w))"
  by (simp add: debit_def same_people_set same_people_refl)

lemma same_people_credit: "same_people w (snd (credit a b w))"
  by (simp add: credit_def same_people_set)

lemma same_people_give: "same_people w (give_coins a k w)"
  by (auto simp: same_people_def give_coins_def split: option.splits)

lemma same_people_transfer: "same_people w (snd (transferTo minTown src dst amount w))"
  using same_people_debit [of w amount src] same_people_refl [of w]
    same_people_trans [OF _ same_people_credit]
  by (auto simp: transferTo_def split: option.splits prod.splits bool.splits)

lemma same_people_withdraw: "same_people w (snd (withdraw b player amount w))"
  using same_people_debit [of w amount b] same_people_refl [of w] same_people_trans [OF _ same_people_give]
  by (auto simp: withdraw_def split: option.splits prod.splits bool.splits)

lemma same_people_deposit: "same_people w (snd (deposit_amount b dst amount w))"
proof (cases "snd (deposit_amount b dst amount w) = w")
  case True
  then show ?thesis by (simp add: same_people_refl)
next
  case False
  then obtain d i r h coins bank where *: "dst = Some d" "b = Some i" "w i = Some r" "bk_player r = Some h"
      "removeMoney (unat amount) None (h_coins h) = (True, bank, coins)"
    by (auto simp: deposit_amount_def getBankable_def split: option.splits prod.splits bool.splits)
  let ?w = "w(i \<mapsto> r\<lparr>bk_player := Some (h\<lparr>h_coins := coins\<rparr>)\<rparr>)"
  have "same_people w ?w" using *(3,4) by (auto simp: same_people_def)
  moreover have "snd (deposit_amount b dst amount w) = snd (credit amount d ?w)"
    using * by (simp add: deposit_amount_def getBankable_def)
  ultimately show ?thesis using same_people_trans same_people_credit by metis
qed

lemma bank_step_people: "same_people w (snd (bank_step op w))"
  by (cases op)
    (auto simp: same_people_transfer same_people_withdraw same_people_deposit same_people_refl
      deposit_all_def split: option.splits)

lemma same_people_getBankable:
  assumes "same_people w w'"
  shows "getBankable d w' = None \<longleftrightarrow> getBankable d w = None"
proof (cases d)
  case (Some k)
  have "map_option (\<lambda>r. bk_player r = None) (w' k) = map_option (\<lambda>r. bk_player r = None) (w k)"
    using assms by (simp add: same_people_def)
  then have "w' k = None \<longleftrightarrow> w k = None" by (metis option.map_disc_iff)
  with Some show ?thesis by (simp add: getBankable_def)
qed (simp add: getBankable_def)

lemma op_ok_people:
  assumes "same_people w w'" "op_ok w op"
  shows "op_ok w' op"
proof (cases op)
  case (Op_Withdraw b player amount)
  show ?thesis
  proof (cases player)
    case (Some k)
    with assms(2) Op_Withdraw obtain r where r: "w k = Some r" "bk_player r \<noteq> None"
      by (auto split: option.splits)
    have "map_option (\<lambda>r. bk_player r = None) (w' k) = Some (bk_player r = None)"
      using assms(1) r(1) unfolding same_people_def by simp
    with r(2) assms(2) Op_Withdraw Some show ?thesis by auto
  qed (use assms(2) Op_Withdraw in simp)
next
  case (Op_Deposit b dst amount)
  with assms(2) same_people_getBankable [OF assms(1)] show ?thesis by (cases dst) simp_all
next
  case (Op_DepositAll b dst)
  with assms(2) same_people_getBankable [OF assms(1)] show ?thesis by (cases dst) simp_all
qed simp

lemma bank_run_conserves:
  assumes "store_ok w" "wealth w < 2 ^ 64" "\<forall>op \<in> set ops. op_ok w op"
  shows "conserves w (bank_run ops w)"
  using assms
proof (induction ops arbitrary: w)
  case Nil
  then show ?case by (simp add: conserves_refl)
next
  case (Cons op ops)
  let ?w = "snd (bank_step op w)"
  have step: "conserves w ?w" using Cons.prems by (intro bank_step_conserves) simp_all
  then have w: "store_ok ?w" "wealth ?w < 2 ^ 64" using Cons.prems(2) by (simp_all add: conserves_def)
  have "\<forall>op \<in> set ops. op_ok ?w op" using Cons.prems(3) op_ok_people [OF bank_step_people] by auto
  from Cons.IH [OF w this] step show ?case by (simp add: conserves_def)
qed

section \<open>Properties\<close>

text \<open>
  C5. The bank never creates money, and says when it conserves it. In a world whose total
  wealth (balances and coins of all players and guilds) is below \<open>2 ^ 64\<close>, any sequence of
  transfers, withdrawals and deposits, successful or refused, between any parties leaves who
  exists as it was and the total wealth not larger; and the total is exactly what it was when
  every withdrawal is for a player and below 42949672960000 gold (what the \<open>uint32_t\<close> counts of
  \<open>addMoney\<close> reach) and every deposit goes to a bank that has a bankable (without one, \<open>deposit\<close>
  takes the coins and credits nobody).
\<close>
theorem bank_conserves_wealth:
  assumes "store_ok w" "wealth w < 2 ^ 64"
  shows "wealth (bank_run ops w) \<le> wealth w \<and> dom (bank_run ops w) = dom w
    \<and> ((\<forall>op \<in> set ops. op_ok w op) \<longrightarrow> wealth (bank_run ops w) = wealth w)"
  using bank_run_shrinks [OF assms] bank_run_conserves [OF assms] by (simp add: shrinks_def conserves_def)

theorem bank_conserves_wealth_witness:
  "wealth (bank_run [Op_Transfer 5 (Some False) (Some (Some True)) 400, Op_DepositAll (Some False) (Some (Some True)),
        Op_Withdraw (Some True) (Some False) 250]
      [False \<mapsto> \<lparr>bk_balance = 1000, bk_player = Some \<lparr>h_name = ''Ann'', h_town = 7,
           h_coins = [(ITEM_GOLD_COIN, 5)]\<rparr>\<rparr>,
       True \<mapsto> \<lparr>bk_balance = 10, bk_player = None\<rparr>]) = 1015"
proof -
  let ?w = "[False \<mapsto> \<lparr>bk_balance = 1000, bk_player = Some \<lparr>h_name = ''Ann'', h_town = 7,
           h_coins = [(ITEM_GOLD_COIN, 5)]\<rparr>\<rparr>,
       True \<mapsto> \<lparr>bk_balance = 10, bk_player = None\<rparr>]"
  let ?ops = "[Op_Transfer 5 (Some False) (Some (Some True)) 400, Op_DepositAll (Some False) (Some (Some True)),
        Op_Withdraw (Some True) (Some False) 250]"
  have ok: "store_ok ?w" by (auto simp: store_ok_def stacks_ok_def ran_def split: if_splits)
  have w: "wealth ?w = 1015" by (simp add: wealth_def holding_def worth_def)
  have ops: "\<forall>op \<in> set ?ops. op_ok ?w op" by (simp add: getBankable_def)
  show ?thesis using bank_conserves_wealth [OF ok, of ?ops] ops w by simp
qed

text \<open>
  A transfer in detail: it succeeds exactly when both parties exist, the rules on denied
  names and on main and other towns let it pass and the balance reaches; then exactly the
  amount moves from one balance to the other (unless the destination would overflow), and
  every other account is untouched.
\<close>
theorem transfer_moves_amount:
  assumes "src \<noteq> dst" "w src = Some s" "w dst = Some d"
    and "unat (bk_balance d) + unat amount < 2 ^ 64"
  shows "case transferTo minTown (Some src) (Some (Some dst)) amount w of (ok, w') \<Rightarrow>
    (ok \<longleftrightarrow> amount \<le> bk_balance s
       \<and> \<not> (case (bk_player d, bk_player s) of (Some dp, Some sp) \<Rightarrow> transfer_denied minTown dp sp | _ \<Rightarrow> False))
    \<and> (\<not> ok \<longrightarrow> w' = w)
    \<and> (ok \<longrightarrow> (\<exists>x y. store_balance src w' = Some x \<and> store_balance dst w' = Some y
         \<and> unat x + unat amount = unat (bk_balance s) \<and> unat y = unat (bk_balance d) + unat amount
         \<and> (\<forall>k. k \<noteq> src \<and> k \<noteq> dst \<longrightarrow> store_balance k w' = store_balance k w)))"
proof -
  let ?denied = "case (bk_player d, bk_player s) of (Some dp, Some sp) \<Rightarrow> transfer_denied minTown dp sp | _ \<Rightarrow> False"
  show ?thesis
  proof (cases "amount \<le> bk_balance s \<and> \<not> ?denied")
    case False
    then have "transferTo minTown (Some src) (Some (Some dst)) amount w = (False, w)"
      using assms(2,3)
      by (auto simp: transferTo_def getBankable_def debit_def hasBalance_def balance_of_def)
    with False show ?thesis by auto
  next
    case True
    let ?w1 = "store_set src (bk_balance s - amount) w"
    have w1: "getBankable (Some dst) ?w1 = Some d"
      using assms(1,2,3) by (simp add: store_set_def set_balance_def getBankable_def)
    have "debit amount (Some src) w = (True, ?w1)"
      using True assms(2) by (simp add: debit_def hasBalance_def balance_of_def getBankable_def store_set_def set_balance_def)
    moreover have "credit amount (Some dst) ?w1 = (True, store_set dst (bk_balance d + amount) ?w1)"
      using w1 by (simp add: credit_def balance_of_def store_set_def set_balance_def)
    ultimately have tr: "transferTo minTown (Some src) (Some (Some dst)) amount w
        = (True, store_set dst (bk_balance d + amount) ?w1)"
      using True assms(2,3) by (simp add: transferTo_def getBankable_def)
    have "store_balance src w = Some (bk_balance s)" "store_balance dst w = Some (bk_balance d)"
      using assms(2,3) by (simp_all add: store_balance_def)
    from balances.move [OF this assms(1) _ assms(4)] True tr show ?thesis by simp
  qed
qed

theorem transfer_moves_amount_witness:
  "\<exists>w'. transferTo 5 (Some False) (Some (Some True)) 400
      [False \<mapsto> \<lparr>bk_balance = 1000, bk_player = None\<rparr>, True \<mapsto> \<lparr>bk_balance = 10, bk_player = None\<rparr>] = (True, w')
    \<and> (\<exists>y. store_balance True w' = Some y \<and> unat y = 410)"
proof -
  let ?w = "[False \<mapsto> \<lparr>bk_balance = 1000, bk_player = None\<rparr>, True \<mapsto> \<lparr>bk_balance = 10, bk_player = None\<rparr>]"
  obtain ok w' where t: "transferTo 5 (Some False) (Some (Some True)) 400 ?w = (ok, w')" by fastforce
  have "False \<noteq> True" "?w False = Some \<lparr>bk_balance = 1000, bk_player = None\<rparr>"
      "?w True = Some \<lparr>bk_balance = 10, bk_player = None\<rparr>"
      "unat (bk_balance \<lparr>bk_balance = 10, bk_player = None\<rparr>) + unat (400 :: u64) < 2 ^ 64"
    by simp_all
  from transfer_moves_amount [OF this, of 5] show ?thesis unfolding t by auto
qed

end
