(* ===== verification/Party.thy ===== *)
theory Party
  imports Map_Position
begin

text \<open>
  \<open>Party\<close> (src/src/creatures/players/grouping/party.hpp and .cpp) with the requests of
  src/src/game/game.cpp that drive it (\<open>playerInviteToParty\<close>, \<open>playerJoinParty\<close>,
  \<open>playerRevokePartyInvitation\<close>, \<open>playerPassPartyLeadership\<close>, \<open>playerLeaveParty\<close>) and the
  invitation list of \<open>Player\<close>. Parties are objects in a store, named by numbers that are
  never reused; a player points to a party and a party to its players. The messages and
  icons sent on the way do not change this state and are left out, as is the combat
  analyzer (theory \<open>Party_Analyzer\<close>).
\<close>

datatype SharedExpStatus =
    SHAREDEXP_OK | SHAREDEXP_TOOFARAWAY | SHAREDEXP_LEVELDIFFTOOLARGE
  | SHAREDEXP_MEMBERINACTIVE | SHAREDEXP_EMPTYPARTY

record 'p party =
  m_leader :: "'p option"
  memberList :: "'p list"
  inviteList :: "'p list"
  sharedExpActive :: bool
  sharedExpEnabled :: bool
  ticksMap :: "'p \<rightharpoonup> int"

record 'p world =
  w_party :: "'p \<Rightarrow> nat option"
  w_invited :: "'p \<Rightarrow> nat list"
  w_parties :: "nat \<Rightarrow> 'p party"
  w_next :: nat

text \<open>
  What the party reads: levels, positions and flags of the players, the clock, the
  settings, the floating-point rounding of \<open>getMinLevel\<close> as a function of the highest
  level, and the answers of the Lua hooks.
\<close>

record 'p party_env =
  pe_level :: "'p \<Rightarrow> nat"
  pe_pos :: "'p \<Rightarrow> position"
  pe_notGainInFight :: "'p \<Rightarrow> bool"
  pe_now :: int
  pe_activity :: int
  pe_minLevel :: "nat \<Rightarrow> nat"
  pe_autoShare :: bool
  pe_onDisband :: bool
  pe_onLeave :: bool
  pe_onLeaveCallback :: bool
  pe_onJoin :: bool

definition new_party :: "'p party" where
  "new_party = \<lparr>m_leader = None, memberList = [], inviteList = [], sharedExpActive = False,
     sharedExpEnabled = False, ticksMap = Map.empty\<rparr>"

definition on_party :: "nat \<Rightarrow> ('p party \<Rightarrow> 'p party) \<Rightarrow> 'p world \<Rightarrow> 'p world" where
  "on_party g f w = w\<lparr>w_parties := (w_parties w)(g := f (w_parties w g))\<rparr>"

definition setParty :: "'p \<Rightarrow> nat option \<Rightarrow> 'p world \<Rightarrow> 'p world" where
  "setParty p g w = w\<lparr>w_party := (w_party w)(p := g)\<rparr>"

text \<open>\<open>std::erase\<close> removes every occurrence; the lists of the party erase the one found first.\<close>

definition removePartyInvitation :: "'p \<Rightarrow> nat \<Rightarrow> 'p world \<Rightarrow> 'p world" where
  "removePartyInvitation p g w = w\<lparr>w_invited := (w_invited w)(p := removeAll g (w_invited w p))\<rparr>"

definition addPartyInvitation :: "'p \<Rightarrow> nat \<Rightarrow> 'p world \<Rightarrow> 'p world" where
  "addPartyInvitation p g w =
     (if g \<in> set (w_invited w p) then w
      else w\<lparr>w_invited := (w_invited w)(p := w_invited w p @ [g])\<rparr>)"

section \<open>Shared experience\<close>

definition getHighestLevel :: "'p party_env \<Rightarrow> 'p party \<Rightarrow> nat" where
  "getHighestLevel e g = (case m_leader g of
      None \<Rightarrow> 0
    | Some l \<Rightarrow> fold (\<lambda>p h. if pe_level e p > h then pe_level e p else h) (memberList g) (pe_level e l))"

definition getLowestLevel :: "'p party_env \<Rightarrow> 'p party \<Rightarrow> nat" where
  "getLowestLevel e g = (case m_leader g of
      None \<Rightarrow> 0
    | Some l \<Rightarrow> fold (\<lambda>p h. if pe_level e p < h then pe_level e p else h) (memberList g) (pe_level e l))"

definition isPlayerActive :: "'p party_env \<Rightarrow> 'p party \<Rightarrow> 'p \<Rightarrow> bool" where
  "isPlayerActive e g p = (case ticksMap g p of
      None \<Rightarrow> False
    | Some t \<Rightarrow> (of_int (pe_now e - t) :: u64) \<le> of_int (pe_activity e))"

definition getMemberSharedExperienceStatus :: "'p party_env \<Rightarrow> 'p party \<Rightarrow> 'p \<Rightarrow> SharedExpStatus" where
  "getMemberSharedExperienceStatus e g p = (case m_leader g of
      None \<Rightarrow> SHAREDEXP_EMPTYPARTY
    | Some l \<Rightarrow>
        if memberList g = [] then SHAREDEXP_EMPTYPARTY
        else if pe_level e p < pe_minLevel e (getHighestLevel e g) then SHAREDEXP_LEVELDIFFTOOLARGE
        else if \<not> areInRange3 30 30 1 (pe_pos e l) (pe_pos e p) then SHAREDEXP_TOOFARAWAY
        else if \<not> pe_notGainInFight e p \<and> \<not> isPlayerActive e g p then SHAREDEXP_MEMBERINACTIVE
        else SHAREDEXP_OK)"

fun first_status :: "'p party_env \<Rightarrow> 'p party \<Rightarrow> 'p list \<Rightarrow> SharedExpStatus" where
  "first_status e g [] = SHAREDEXP_OK"
| "first_status e g (p # ps) =
     (let s = getMemberSharedExperienceStatus e g p
      in if s \<noteq> SHAREDEXP_OK then s else first_status e g ps)"

definition getSharedExperienceStatus :: "'p party_env \<Rightarrow> 'p party \<Rightarrow> SharedExpStatus" where
  "getSharedExperienceStatus e g = (case m_leader g of
      None \<Rightarrow> SHAREDEXP_EMPTYPARTY
    | Some l \<Rightarrow> first_status e g (l # memberList g))"

definition updateSharedExperience :: "'p party_env \<Rightarrow> 'p party \<Rightarrow> 'p party" where
  "updateSharedExperience e g =
     (if sharedExpActive g
      then g\<lparr>sharedExpEnabled := (getSharedExperienceStatus e g = SHAREDEXP_OK)\<rparr>
      else g)"

definition setSharedExperience ::
    "'p party_env \<Rightarrow> 'p \<Rightarrow> bool \<Rightarrow> 'p party \<Rightarrow> bool \<times> 'p party" where
  "setSharedExperience e p newActive g =
     (if m_leader g \<noteq> Some p then (False, g)
      else if sharedExpActive g = newActive then (True, g)
      else
        let g' = g\<lparr>sharedExpActive := newActive\<rparr>
        in (True, if newActive
            then g'\<lparr>sharedExpEnabled := (getSharedExperienceStatus e g' = SHAREDEXP_OK)\<rparr>
            else g'))"

definition updatePlayerTicks :: "'p party_env \<Rightarrow> 'p \<Rightarrow> nat \<Rightarrow> 'p party \<Rightarrow> 'p party" where
  "updatePlayerTicks e p points g =
     (if points \<noteq> 0 \<and> \<not> pe_notGainInFight e p
      then updateSharedExperience e (g\<lparr>ticksMap := (ticksMap g)(p \<mapsto> pe_now e)\<rparr>)
      else g)"

definition clearPlayerPoints :: "'p party_env \<Rightarrow> 'p \<Rightarrow> 'p party \<Rightarrow> 'p party" where
  "clearPlayerPoints e p g =
     (if ticksMap g p \<noteq> None
      then updateSharedExperience e (g\<lparr>ticksMap := (ticksMap g)(p := None)\<rparr>)
      else g)"

text \<open>\<open>shareExperience\<close>: who gains the amount the hooks leave.\<close>

definition shareExperience :: "(u64 \<Rightarrow> u64) \<Rightarrow> u64 \<Rightarrow> 'p party \<Rightarrow> ('p \<times> u64) list" where
  "shareExperience hook experience g = (case m_leader g of
      None \<Rightarrow> []
    | Some l \<Rightarrow> map (\<lambda>p. (p, hook experience)) (memberList g @ [l]))"

section \<open>Membership\<close>

definition party_empty :: "'p party \<Rightarrow> bool" where
  "party_empty g \<longleftrightarrow> memberList g = [] \<and> inviteList g = []"

definition isPlayerInvited :: "'p \<Rightarrow> 'p party \<Rightarrow> bool" where
  "isPlayerInvited p g \<longleftrightarrow> p \<in> set (inviteList g)"

definition getPlayers :: "'p party \<Rightarrow> 'p option list" where
  "getPlayers g = map Some (memberList g) @ [m_leader g]"

definition create :: "'p party_env \<Rightarrow> 'p \<Rightarrow> 'p world \<Rightarrow> nat \<times> 'p world" where
  "create e l w =
     (let g = w_next w;
          party = new_party\<lparr>m_leader := Some l\<rparr>;
          w1 = setParty l (Some g) (w\<lparr>w_next := g + 1, w_parties := (w_parties w)(g := party)\<rparr>)
      in (g, if pe_autoShare e then on_party g (\<lambda>x. snd (setSharedExperience e l True x)) w1 else w1))"

definition disband :: "'p party_env \<Rightarrow> nat \<Rightarrow> 'p world \<Rightarrow> 'p world" where
  "disband e g w =
     (if \<not> pe_onDisband e then w
      else case m_leader (w_parties w g) of
          None \<Rightarrow> w
        | Some currentLeader \<Rightarrow>
          let w1 = setParty currentLeader None (on_party g (\<lambda>x. x\<lparr>m_leader := None\<rparr>) w);
              w2 = fold (\<lambda>p. removePartyInvitation p g) (inviteList (w_parties w1 g)) w1;
              w3 = on_party g (\<lambda>x. x\<lparr>inviteList := []\<rparr>) w2;
              w4 = fold (\<lambda>p. setParty p None) (memberList (w_parties w3 g)) w3
          in on_party g (\<lambda>x. x\<lparr>memberList := []\<rparr>) w4)"

definition passPartyLeadership :: "'p party_env \<Rightarrow> 'p \<Rightarrow> nat \<Rightarrow> 'p world \<Rightarrow> bool \<times> 'p world" where
  "passPartyLeadership e p g w = (case m_leader (w_parties w g) of
      None \<Rightarrow> (False, w)
    | Some oldLeader \<Rightarrow>
        if oldLeader = p \<or> w_party w p \<noteq> Some g then (False, w)
        else (True, on_party g (\<lambda>x. updateSharedExperience e
               (x\<lparr>memberList := oldLeader # remove1 p (memberList x), m_leader := Some p\<rparr>)) w))"

text \<open>
  \<open>leaveParty\<close>. The member list never holds null pointers, so the loop that skips them
  takes its first element.
\<close>

definition leaveParty :: "'p party_env \<Rightarrow> 'p \<Rightarrow> bool \<Rightarrow> nat \<Rightarrow> 'p world \<Rightarrow> bool \<times> 'p world" where
  "leaveParty e p forceRemove g w = (case m_leader (w_parties w g) of
      None \<Rightarrow> (False, w)
    | Some leader \<Rightarrow>
        if w_party w p \<noteq> Some g \<and> leader \<noteq> p then (False, w)
        else if \<not> forceRemove \<and> \<not> pe_onLeave e then (False, w)
        else if \<not> pe_onLeaveCallback e then (False, w)
        else
          let x = w_parties w g;
              alone = (memberList x = [] \<or> (length (memberList x) = 1 \<and> inviteList x = []));
              missingLeader = (leader = p \<and> alone);
              w1 = (if leader = p \<and> \<not> alone
                    then snd (passPartyLeadership e (hd (memberList x)) g w) else w);
              w2 = on_party g (\<lambda>x. x\<lparr>memberList := remove1 p (memberList x)\<rparr>) w1;
              w3 = setParty p None w2;
              w4 = on_party g (\<lambda>x. clearPlayerPoints e p (updateSharedExperience e x)) w3
          in (True, if missingLeader \<or> party_empty (w_parties w4 g) then disband e g w4 else w4))"

definition joinParty :: "'p party_env \<Rightarrow> 'p \<Rightarrow> nat \<Rightarrow> 'p world \<Rightarrow> bool \<times> 'p world" where
  "joinParty e p g w = (case m_leader (w_parties w g) of
      None \<Rightarrow> (False, w)
    | Some leader \<Rightarrow>
        if \<not> pe_onJoin e then (False, w)
        else if p \<notin> set (inviteList (w_parties w g)) then (False, w)
        else
          let w1 = on_party g (\<lambda>x. x\<lparr>inviteList := remove1 p (inviteList x)\<rparr>) w;
              w2 = setParty p (Some g) w1;
              w3 = on_party g (\<lambda>x. x\<lparr>memberList := memberList x @ [p]\<rparr>) w2;
              w4 = removePartyInvitation p g w3
          in (True, on_party g (updateSharedExperience e) w4))"

definition removeInvite :: "'p party_env \<Rightarrow> 'p \<Rightarrow> bool \<Rightarrow> nat \<Rightarrow> 'p world \<Rightarrow> bool \<times> 'p world" where
  "removeInvite e p removeFromPlayer g w = (case m_leader (w_parties w g) of
      None \<Rightarrow> (False, w)
    | Some leader \<Rightarrow>
        if p \<notin> set (inviteList (w_parties w g)) then (False, w)
        else
          let w1 = on_party g (\<lambda>x. x\<lparr>inviteList := remove1 p (inviteList x)\<rparr>) w;
              w2 = (if removeFromPlayer then removePartyInvitation p g w1 else w1)
          in (True, if party_empty (w_parties w2 g) then disband e g w2 else w2))"

definition revokeInvitation :: "'p party_env \<Rightarrow> 'p \<Rightarrow> nat \<Rightarrow> 'p world \<Rightarrow> 'p world" where
  "revokeInvitation e p g w = (if m_leader (w_parties w g) = None then w else snd (removeInvite e p True g w))"

definition invitePlayer :: "'p \<Rightarrow> nat \<Rightarrow> 'p world \<Rightarrow> bool \<times> 'p world" where
  "invitePlayer p g w =
     (if m_leader (w_parties w g) = None then (False, w)
      else if isPlayerInvited p (w_parties w g) then (False, w)
      else (True, addPartyInvitation p g (on_party g (\<lambda>x. x\<lparr>inviteList := inviteList x @ [p]\<rparr>) w)))"

definition clearPartyInvitations :: "'p party_env \<Rightarrow> 'p \<Rightarrow> 'p world \<Rightarrow> 'p world" where
  "clearPartyInvitations e p w =
     (let w' = fold (\<lambda>g v. snd (removeInvite e p False g v)) (w_invited w p) w
      in w'\<lparr>w_invited := (w_invited w')(p := [])\<rparr>)"

definition canOpenCorpse :: "'p \<Rightarrow> bool \<Rightarrow> nat \<Rightarrow> 'p world \<Rightarrow> bool" where
  "canOpenCorpse owner ownerOnline g w = (case m_leader (w_parties w g) of
      None \<Rightarrow> False
    | Some l \<Rightarrow> ownerOnline \<and> (l = owner \<or> w_party w owner = Some g))"

section \<open>The requests of the game\<close>

definition isInviting :: "'p world \<Rightarrow> 'p \<Rightarrow> 'p \<Rightarrow> bool" where
  "isInviting w p q = (case w_party w p of
      None \<Rightarrow> False
    | Some g \<Rightarrow> m_leader (w_parties w g) = Some p \<and> isPlayerInvited q (w_parties w g))"

definition isPartner :: "'p world \<Rightarrow> 'p \<Rightarrow> 'p \<Rightarrow> bool" where
  "isPartner w p q \<longleftrightarrow> w_party w p \<noteq> None \<and> q \<noteq> p \<and> w_party w p = w_party w q"

definition playerInviteToParty :: "'p party_env \<Rightarrow> 'p \<Rightarrow> 'p \<Rightarrow> 'p world \<Rightarrow> 'p world" where
  "playerInviteToParty e p invited w =
     (if p = invited then w
      else if isInviting w invited p then w
      else if w_party w invited \<noteq> None then w
      else (case w_party w p of
          None \<Rightarrow> (let (g, w') = create e p w in snd (invitePlayer invited g w'))
        | Some g \<Rightarrow> if m_leader (w_parties w g) \<noteq> Some p then w else snd (invitePlayer invited g w)))"

definition playerJoinParty :: "'p party_env \<Rightarrow> 'p \<Rightarrow> 'p \<Rightarrow> 'p world \<Rightarrow> 'p world" where
  "playerJoinParty e p leader w =
     (if \<not> isInviting w leader p then w
      else (case w_party w leader of
          None \<Rightarrow> w
        | Some g \<Rightarrow>
            if m_leader (w_parties w g) \<noteq> Some leader then w
            else if w_party w p \<noteq> None then w
            else snd (joinParty e p g w)))"

definition playerRevokePartyInvitation :: "'p party_env \<Rightarrow> 'p \<Rightarrow> 'p \<Rightarrow> 'p world \<Rightarrow> 'p world" where
  "playerRevokePartyInvitation e p invited w = (case w_party w p of
      None \<Rightarrow> w
    | Some g \<Rightarrow>
        if m_leader (w_parties w g) \<noteq> Some p then w
        else if \<not> isInviting w p invited then w
        else revokeInvitation e invited g w)"

definition playerPassPartyLeadership :: "'p party_env \<Rightarrow> 'p \<Rightarrow> 'p \<Rightarrow> 'p world \<Rightarrow> 'p world" where
  "playerPassPartyLeadership e p newLeader w = (case w_party w p of
      None \<Rightarrow> w
    | Some g \<Rightarrow>
        if m_leader (w_parties w g) \<noteq> Some p then w
        else if \<not> isPartner w p newLeader then w
        else snd (passPartyLeadership e newLeader g w))"

text \<open>\<open>fighting\<close>: the player is in a fight and \<open>!getZoneType() == ZONE_PROTECTION\<close> holds.\<close>

definition playerLeaveParty :: "'p party_env \<Rightarrow> bool \<Rightarrow> 'p \<Rightarrow> 'p world \<Rightarrow> 'p world" where
  "playerLeaveParty e fighting p w = (case w_party w p of
      None \<Rightarrow> w
    | Some g \<Rightarrow> if fighting then w else snd (leaveParty e p False g w))"

definition playerEnableSharedPartyExperience ::
    "'p party_env \<Rightarrow> bool \<Rightarrow> 'p \<Rightarrow> bool \<Rightarrow> 'p world \<Rightarrow> 'p world" where
  "playerEnableSharedPartyExperience e fighting p active w = (case w_party w p of
      None \<Rightarrow> w
    | Some g \<Rightarrow> if fighting then w else on_party g (\<lambda>x. snd (setSharedExperience e p active x)) w)"

text \<open>The logout of a player: \<open>Player::onRemoveCreature\<close>.\<close>

definition playerLogout :: "'p party_env \<Rightarrow> 'p \<Rightarrow> 'p world \<Rightarrow> 'p world" where
  "playerLogout e p w =
     clearPartyInvitations e p (case w_party w p of
        None \<Rightarrow> w
      | Some g \<Rightarrow> snd (leaveParty e p True g w))"

section \<open>Consistency\<close>

text \<open>
  Players and parties agree: who points to a party leads it or is in its list, no one is
  listed twice or both leads and follows, invitations are known on both sides and never go
  to someone in the party, and a party without leader is empty.
\<close>

definition party_ok :: "'p party \<Rightarrow> bool" where
  "party_ok x \<longleftrightarrow> distinct (memberList x) \<and> distinct (inviteList x)
     \<and> (case m_leader x of
          None \<Rightarrow> memberList x = [] \<and> inviteList x = []
        | Some l \<Rightarrow> l \<notin> set (memberList x) \<and> l \<notin> set (inviteList x)
            \<and> set (memberList x) \<inter> set (inviteList x) = {})"

definition consistent :: "'p world \<Rightarrow> bool" where
  "consistent w \<longleftrightarrow>
     (\<forall>p g. w_party w p = Some g \<longleftrightarrow>
        m_leader (w_parties w g) = Some p \<or> p \<in> set (memberList (w_parties w g)))
     \<and> (\<forall>g. party_ok (w_parties w g))
     \<and> (\<forall>p g. g \<in> set (w_invited w p) \<longleftrightarrow> p \<in> set (inviteList (w_parties w g)))
     \<and> (\<forall>p. distinct (w_invited w p))
     \<and> (\<forall>g \<ge> w_next w. m_leader (w_parties w g) = None)"

text \<open>Nobody leads an empty party.\<close>

definition lively :: "'p world \<Rightarrow> bool" where
  "lively w \<longleftrightarrow> (\<forall>g. m_leader (w_parties w g) \<noteq> None \<longrightarrow> \<not> party_empty (w_parties w g))"

lemma shared_fields [simp]:
  "m_leader (updateSharedExperience e x) = m_leader x"
  "memberList (updateSharedExperience e x) = memberList x"
  "inviteList (updateSharedExperience e x) = inviteList x"
  "m_leader (clearPlayerPoints e p x) = m_leader x"
  "memberList (clearPlayerPoints e p x) = memberList x"
  "inviteList (clearPlayerPoints e p x) = inviteList x"
  "m_leader (snd (setSharedExperience e p b x)) = m_leader x"
  "memberList (snd (setSharedExperience e p b x)) = memberList x"
  "inviteList (snd (setSharedExperience e p b x)) = inviteList x"
  by (simp_all add: updateSharedExperience_def clearPlayerPoints_def setSharedExperience_def Let_def)

lemma on_party_fields [simp]:
  "w_party (on_party g f w) = w_party w" "w_invited (on_party g f w) = w_invited w"
  "w_next (on_party g f w) = w_next w"
  "w_parties (on_party g f w) h = (if h = g then f (w_parties w g) else w_parties w h)"
  by (simp_all add: on_party_def)

lemma setParty_fields [simp]:
  "w_party (setParty p g w) = (w_party w)(p := g)" "w_invited (setParty p g w) = w_invited w"
  "w_next (setParty p g w) = w_next w" "w_parties (setParty p g w) = w_parties w"
  by (simp_all add: setParty_def)

lemma invitation_fields [simp]:
  "w_party (removePartyInvitation p g w) = w_party w"
  "w_invited (removePartyInvitation p g w) = (w_invited w)(p := removeAll g (w_invited w p))"
  "w_next (removePartyInvitation p g w) = w_next w"
  "w_parties (removePartyInvitation p g w) = w_parties w"
  "w_party (addPartyInvitation p g w) = w_party w"
  "set (w_invited (addPartyInvitation p g w) q) = set (w_invited w q) \<union> (if q = p then {g} else {})"
  "w_next (addPartyInvitation p g w) = w_next w"
  "w_parties (addPartyInvitation p g w) = w_parties w"
  by (auto simp: removePartyInvitation_def addPartyInvitation_def)

lemma fold_setParty [simp]:
  "w_party (fold (\<lambda>p. setParty p None) ps w) q = (if q \<in> set ps then None else w_party w q)"
  "w_invited (fold (\<lambda>p. setParty p None) ps w) = w_invited w"
  "w_next (fold (\<lambda>p. setParty p None) ps w) = w_next w"
  "w_parties (fold (\<lambda>p. setParty p None) ps w) = w_parties w"
  by (induction ps arbitrary: w) auto

lemma fold_removePartyInvitation [simp]:
  "w_party (fold (\<lambda>p. removePartyInvitation p g) ps w) = w_party w"
  "set (w_invited (fold (\<lambda>p. removePartyInvitation p g) ps w) q)
     = (if q \<in> set ps then set (w_invited w q) - {g} else set (w_invited w q))"
  "distinct (w_invited w q) \<Longrightarrow> distinct (w_invited (fold (\<lambda>p. removePartyInvitation p g) ps w) q)"
  "w_next (fold (\<lambda>p. removePartyInvitation p g) ps w) = w_next w"
  "w_parties (fold (\<lambda>p. removePartyInvitation p g) ps w) = w_parties w"
proof (induction ps arbitrary: w)
  case (Cons a ps)
  {
    case 1
    show ?case using Cons(1) by simp
  next
    case 2
    show ?case using Cons(2) [of "removePartyInvitation a g w"] by auto
  next
    case 3
    have "distinct (w_invited (removePartyInvitation a g w) q)"
      using 3 by (cases "q = a") (simp_all add: distinct_removeAll)
    then show ?case using Cons(3) by simp
  next
    case 4
    show ?case using Cons(4) by simp
  next
    case 5
    show ?case using Cons(5) by simp
  }
qed simp_all

lemma distinct_addPartyInvitation [simp]:
  "distinct (w_invited w q) \<Longrightarrow> distinct (w_invited (addPartyInvitation p g w) q)"
  by (cases "q = p") (auto simp: addPartyInvitation_def)

lemma consistentD:
  assumes "consistent w"
  shows "w_party w p = Some g \<longleftrightarrow>
      m_leader (w_parties w g) = Some p \<or> p \<in> set (memberList (w_parties w g))"
    and "party_ok (w_parties w g)"
    and "g \<in> set (w_invited w p) \<longleftrightarrow> p \<in> set (inviteList (w_parties w g))"
    and "distinct (w_invited w p)"
    and "w_next w \<le> g \<Longrightarrow> m_leader (w_parties w g) = None"
  using assms by (auto simp: consistent_def)

lemma consistentI:
  assumes "\<And>p g. w_party w p = Some g \<longleftrightarrow>
      m_leader (w_parties w g) = Some p \<or> p \<in> set (memberList (w_parties w g))"
    and "\<And>g. party_ok (w_parties w g)"
    and "\<And>p g. g \<in> set (w_invited w p) \<longleftrightarrow> p \<in> set (inviteList (w_parties w g))"
    and "\<And>p. distinct (w_invited w p)"
    and "\<And>g. w_next w \<le> g \<Longrightarrow> m_leader (w_parties w g) = None"
  shows "consistent w"
  using assms unfolding consistent_def by blast

lemma party_okD:
  assumes "party_ok x"
  shows "distinct (memberList x)" "distinct (inviteList x)"
    and "m_leader x = None \<Longrightarrow> memberList x = [] \<and> inviteList x = []"
    and "m_leader x = Some l \<Longrightarrow> l \<notin> set (memberList x) \<and> l \<notin> set (inviteList x)
      \<and> set (memberList x) \<inter> set (inviteList x) = {}"
  using assms by (auto simp: party_ok_def)

lemma party_ok_fields:
  "m_leader x = m_leader y \<Longrightarrow> memberList x = memberList y \<Longrightarrow> inviteList x = inviteList y \<Longrightarrow>
   party_ok x = party_ok y"
  by (simp add: party_ok_def split: option.splits)

text \<open>Disbanding, also after the leader has already been detached.\<close>

lemma disband_fields:
  assumes "pe_onDisband e" "m_leader (w_parties w g) = Some l"
  shows "w_party (disband e g w) q = (if q = l \<or> q \<in> set (memberList (w_parties w g)) then None else w_party w q)"
    and "set (w_invited (disband e g w) q)
      = (if q \<in> set (inviteList (w_parties w g)) then set (w_invited w q) - {g} else set (w_invited w q))"
    and "distinct (w_invited w q) \<Longrightarrow> distinct (w_invited (disband e g w) q)"
    and "w_next (disband e g w) = w_next w"
    and "m_leader (w_parties (disband e g w) h) = (if h = g then None else m_leader (w_parties w h))"
    and "memberList (w_parties (disband e g w) h) = (if h = g then [] else memberList (w_parties w h))"
    and "inviteList (w_parties (disband e g w) h) = (if h = g then [] else inviteList (w_parties w h))"
  using assms by (auto simp: disband_def Let_def)

lemma disband_detached:
  assumes "consistent w" "pe_onDisband e" "m_leader (w_parties w g) = Some l"
    and "\<And>q. q \<noteq> l \<Longrightarrow> w_party v q = w_party w q"
    and "w_invited v = w_invited w" "w_next v = w_next w" "m_leader (w_parties v g) = Some l"
    and "\<And>h. h \<noteq> g \<Longrightarrow> w_parties v h = w_parties w h"
    and "memberList (w_parties v g) = memberList (w_parties w g)"
    and "inviteList (w_parties v g) = inviteList (w_parties w g)"
  shows "consistent (disband e g v)"
proof -
  note D = disband_fields [OF assms(2,7)] and C = consistentD [OF assms(1)]
  show ?thesis
  proof (rule consistentI)
    fix p h
    show "(w_party (disband e g v) p = Some h) \<longleftrightarrow>
        m_leader (w_parties (disband e g v) h) = Some p \<or> p \<in> set (memberList (w_parties (disband e g v) h))"
    proof (cases "p = l \<or> p \<in> set (memberList (w_parties w g))")
      case True
      then have "w_party w p = Some g" using C(1) [of p g] assms(3) by auto
      then have "h \<noteq> g \<Longrightarrow> \<not> (m_leader (w_parties w h) = Some p \<or> p \<in> set (memberList (w_parties w h)))"
        using C(1) [of p h] by simp
      with True show ?thesis unfolding D by (simp add: assms(8,9))
    next
      case False
      then have "w_party w p \<noteq> Some g" using C(1) [of p g] assms(3) by auto
      with False C(1) [of p h] assms(4) [of p] show ?thesis unfolding D by (auto simp: assms(8,9))
    qed
    show "(h \<in> set (w_invited (disband e g v) p)) \<longleftrightarrow> p \<in> set (inviteList (w_parties (disband e g v) h))"
      unfolding D using C(3) [of h p] by (auto simp: assms(5,8,10))
    show "distinct (w_invited (disband e g v) p)" by (rule D(3)) (simp add: assms(5) C(4))
    show "party_ok (w_parties (disband e g v) h)"
      using C(2) [of h] by (cases "h = g") (auto simp: party_ok_def D assms(8) split: option.splits)
    show "m_leader (w_parties (disband e g v) h) = None" if "w_next (disband e g v) \<le> h"
      using that C(5) [of h] unfolding D by (simp add: assms(6,8))
  qed
qed

lemma disband_consistent:
  assumes "consistent w" "pe_onDisband e"
  shows "consistent (disband e g w)"
  using assms disband_detached [OF assms, of g _ w]
  by (cases "m_leader (w_parties w g)") (auto simp: disband_def)

definition lively_but :: "nat \<Rightarrow> 'p world \<Rightarrow> bool" where
  "lively_but g w \<longleftrightarrow> (\<forall>h. h \<noteq> g \<longrightarrow> m_leader (w_parties w h) \<noteq> None \<longrightarrow> \<not> party_empty (w_parties w h))"

lemma disband_lively:
  assumes "pe_onDisband e" "m_leader (w_parties w g) = Some l" "lively_but g w"
  shows "lively (disband e g w)"
  using assms(3) unfolding lively_def lively_but_def party_empty_def disband_fields [OF assms(1,2)] by auto

lemma lively_but_iff:
  "lively w \<longleftrightarrow> lively_but g w \<and> (m_leader (w_parties w g) \<noteq> None \<longrightarrow> \<not> party_empty (w_parties w g))"
  by (auto simp: lively_def lively_but_def)

lemma lively_but_cong:
  "lively_but g w \<Longrightarrow> (\<And>h. h \<noteq> g \<Longrightarrow> w_parties v h = w_parties w h) \<Longrightarrow> lively_but g v"
  by (simp add: lively_but_def)

section \<open>Every request keeps the players and the parties in agreement\<close>

text \<open>The party disappears when nobody is left in it or invited to it.\<close>

lemma disband_if_empty:
  assumes "consistent w" "lively_but g w" "pe_onDisband e" "m_leader (w_parties w g) \<noteq> None"
  defines "v \<equiv> if party_empty (w_parties w g) then disband e g w else w"
  shows "consistent v \<and> lively v"
  using assms(1-4) disband_consistent [OF assms(1,3), of g] disband_lively [OF assms(3) _ assms(2)]
    lively_but_iff [of w g] by (auto simp: v_def)

lemma create_consistent:
  assumes "consistent w" "w_party w l = None"
  shows "consistent (snd (create e l w))"
proof -
  let ?g = "w_next w" and ?v = "snd (create e l w)"
  note C = consistentD [OF assms(1)]
  have new: "memberList (w_parties w ?g) = []" "inviteList (w_parties w ?g) = []" "m_leader (w_parties w ?g) = None"
    using C(2) [of ?g] C(5) [of ?g] by (auto simp: party_ok_def)
  have V: "w_party ?v q = (if q = l then Some ?g else w_party w q)" "w_invited ?v = w_invited w"
    "w_next ?v = ?g + 1"
    "m_leader (w_parties ?v h) = (if h = ?g then Some l else m_leader (w_parties w h))"
    "memberList (w_parties ?v h) = memberList (w_parties w h)"
    "inviteList (w_parties ?v h) = inviteList (w_parties w h)" for q h
    by (auto simp: create_def Let_def new_party_def new)
  show ?thesis
  proof (rule consistentI)
    fix p h
    show "(w_party ?v p = Some h) \<longleftrightarrow> m_leader (w_parties ?v h) = Some p \<or> p \<in> set (memberList (w_parties ?v h))"
      using C(1) [of p h] assms(2) new unfolding V by auto
    show "party_ok (w_parties ?v h)"
      using C(2) [of h] new by (cases "h = ?g") (auto simp: party_ok_def V split: option.splits)
    show "(h \<in> set (w_invited ?v p)) \<longleftrightarrow> p \<in> set (inviteList (w_parties ?v h))"
      unfolding V by (rule C(3))
    show "distinct (w_invited ?v p)" unfolding V by (rule C(4))
    show "m_leader (w_parties ?v h) = None" if "w_next ?v \<le> h"
      using that C(5) [of h] unfolding V by simp
  qed
qed

lemma invite_consistent:
  assumes "consistent w" "m_leader (w_parties w g) \<noteq> None" "w_party w p \<noteq> Some g"
    and "p \<notin> set (inviteList (w_parties w g))"
  shows "consistent (snd (invitePlayer p g w))"
proof -
  let ?v = "snd (invitePlayer p g w)"
  note C = consistentD [OF assms(1)]
  have V: "w_party ?v = w_party w" "w_next ?v = w_next w"
    "m_leader (w_parties ?v h) = m_leader (w_parties w h)"
    "memberList (w_parties ?v h) = memberList (w_parties w h)"
    "inviteList (w_parties ?v h) = (if h = g then inviteList (w_parties w g) @ [p] else inviteList (w_parties w h))"
    "set (w_invited ?v q) = set (w_invited w q) \<union> (if q = p then {g} else {})"
    "distinct (w_invited ?v q)" for h q
    using assms(2,4) by (auto simp: invitePlayer_def isPlayerInvited_def C(4))
  show ?thesis
  proof (rule consistentI)
    fix q h
    show "(w_party ?v q = Some h) \<longleftrightarrow> m_leader (w_parties ?v h) = Some q \<or> q \<in> set (memberList (w_parties ?v h))"
      unfolding V by (rule C(1))
    show "party_ok (w_parties ?v h)"
      using C(2) [of h] assms(2-4) C(1) [of p g]
      by (cases "h = g") (auto simp: party_ok_def V split: option.splits)
    show "(h \<in> set (w_invited ?v q)) \<longleftrightarrow> q \<in> set (inviteList (w_parties ?v h))"
      using C(3) [of h q] unfolding V by auto
    show "distinct (w_invited ?v q)" by (rule V)
    show "m_leader (w_parties ?v h) = None" if "w_next ?v \<le> h"
      using that C(5) [of h] unfolding V by simp
  qed
qed

lemma join_consistent:
  assumes "consistent w" "w_party w p = None"
  shows "consistent (snd (joinParty e p g w))"
proof (cases "m_leader (w_parties w g) \<noteq> None \<and> pe_onJoin e \<and> p \<in> set (inviteList (w_parties w g))")
  case False
  then show ?thesis using assms(1) by (auto simp: joinParty_def split: option.split)
next
  case True
  let ?v = "snd (joinParty e p g w)"
  note C = consistentD [OF assms(1)]
  have free: "m_leader (w_parties w h) \<noteq> Some p" "p \<notin> set (memberList (w_parties w h))" for h
    using C(1) [of p h] assms(2) by auto
  have V: "w_party ?v q = (if q = p then Some g else w_party w q)" "w_next ?v = w_next w"
    "m_leader (w_parties ?v h) = m_leader (w_parties w h)"
    "memberList (w_parties ?v h) = (if h = g then memberList (w_parties w g) @ [p] else memberList (w_parties w h))"
    "inviteList (w_parties ?v h) = (if h = g then remove1 p (inviteList (w_parties w g)) else inviteList (w_parties w h))"
    "w_invited ?v q = (if q = p then removeAll g (w_invited w p) else w_invited w q)" for h q
    using True by (auto simp: joinParty_def Let_def)
  show ?thesis
  proof (rule consistentI)
    fix q h
    show "(w_party ?v q = Some h) \<longleftrightarrow> m_leader (w_parties ?v h) = Some q \<or> q \<in> set (memberList (w_parties ?v h))"
      using C(1) [of q h] free unfolding V by auto
    show "party_ok (w_parties ?v h)"
      using C(2) [of h] True free
      by (cases "h = g") (auto simp: party_ok_def V split: option.splits)
    show "(h \<in> set (w_invited ?v q)) \<longleftrightarrow> q \<in> set (inviteList (w_parties ?v h))"
      using C(3) [of h q] party_okD(2) [OF C(2) [of g]] unfolding V by auto
    show "distinct (w_invited ?v q)" using C(4) unfolding V by (simp add: distinct_removeAll)
    show "m_leader (w_parties ?v h) = None" if "w_next ?v \<le> h"
      using that C(5) [of h] unfolding V by simp
  qed
qed

lemma pass_consistent:
  assumes "consistent w"
  shows "consistent (snd (passPartyLeadership e p g w))"
proof (cases "\<exists>l. m_leader (w_parties w g) = Some l \<and> l \<noteq> p \<and> w_party w p = Some g")
  case False
  then show ?thesis using assms by (auto simp: passPartyLeadership_def split: option.split)
next
  case True
  then obtain l where l: "m_leader (w_parties w g) = Some l" "l \<noteq> p" "w_party w p = Some g" by blast
  let ?v = "snd (passPartyLeadership e p g w)"
  note C = consistentD [OF assms]
  have V: "w_party ?v = w_party w" "w_next ?v = w_next w" "w_invited ?v = w_invited w"
    "m_leader (w_parties ?v h) = (if h = g then Some p else m_leader (w_parties w h))"
    "memberList (w_parties ?v h) = (if h = g then l # remove1 p (memberList (w_parties w g)) else memberList (w_parties w h))"
    "inviteList (w_parties ?v h) = inviteList (w_parties w h)" for h
    using l by (auto simp: passPartyLeadership_def)
  have mem: "p \<in> set (memberList (w_parties w g))" using C(1) [of p g] l by auto
  show ?thesis
  proof (rule consistentI)
    fix q h
    show "(w_party ?v q = Some h) \<longleftrightarrow> m_leader (w_parties ?v h) = Some q \<or> q \<in> set (memberList (w_parties ?v h))"
      using C(1) [of q h] l mem party_okD(1) [OF C(2) [of g]] unfolding V by auto
    show "party_ok (w_parties ?v h)"
      using C(2) [of h] l mem by (cases "h = g") (auto simp: party_ok_def V split: option.splits)
    show "(h \<in> set (w_invited ?v q)) \<longleftrightarrow> q \<in> set (inviteList (w_parties ?v h))"
      unfolding V by (rule C(3))
    show "distinct (w_invited ?v q)" unfolding V by (rule C(4))
    show "m_leader (w_parties ?v h) = None" if "w_next ?v \<le> h"
      using that C(5) [of h] C(5) [of g] l unfolding V by auto
  qed
qed

text \<open>A member is taken off the list and detached.\<close>

definition detach :: "'p party_env \<Rightarrow> 'p \<Rightarrow> nat \<Rightarrow> 'p world \<Rightarrow> 'p world" where
  "detach e p g w = on_party g (\<lambda>x. clearPlayerPoints e p (updateSharedExperience e x))
     (setParty p None (on_party g (\<lambda>x. x\<lparr>memberList := remove1 p (memberList x)\<rparr>) w))"

lemma detach_fields [simp]:
  "w_party (detach e p g w) = (w_party w)(p := None)" "w_invited (detach e p g w) = w_invited w"
  "w_next (detach e p g w) = w_next w"
  "m_leader (w_parties (detach e p g w) h) = m_leader (w_parties w h)"
  "memberList (w_parties (detach e p g w) h)
     = (if h = g then remove1 p (memberList (w_parties w g)) else memberList (w_parties w h))"
  "inviteList (w_parties (detach e p g w) h) = inviteList (w_parties w h)"
  "h \<noteq> g \<Longrightarrow> w_parties (detach e p g w) h = w_parties w h"
  by (auto simp: detach_def)

lemma detach_consistent:
  assumes "consistent w" "p \<in> set (memberList (w_parties w g))"
  shows "consistent (detach e p g w)"
proof (rule consistentI)
  note C = consistentD [OF assms(1)]
  have p: "w_party w p = Some g" using C(1) [of p g] assms(2) by simp
  fix q h
  have "m_leader (w_parties w g) \<noteq> Some p" using party_okD(4) [OF C(2) [of g], of p] assms(2) by auto
  then show "(w_party (detach e p g w) q = Some h) \<longleftrightarrow> m_leader (w_parties (detach e p g w) h) = Some q
      \<or> q \<in> set (memberList (w_parties (detach e p g w) h))"
    using C(1) [of q h] p party_okD(1) [OF C(2) [of g]] by auto
  show "party_ok (w_parties (detach e p g w) h)"
    using C(2) [of h] by (cases "h = g") (auto simp: party_ok_def split: option.splits)
  show "(h \<in> set (w_invited (detach e p g w) q)) \<longleftrightarrow> q \<in> set (inviteList (w_parties (detach e p g w) h))"
    using C(3) [of h q] by simp
  show "distinct (w_invited (detach e p g w) q)" using C(4) by simp
  show "m_leader (w_parties (detach e p g w) h) = None" if "w_next (detach e p g w) \<le> h"
    using that C(5) [of h] by simp
qed

lemma leaveParty_cases:
  obtains (denied) "leaveParty e p f g w = (False, w)"
  | (member) l where "m_leader (w_parties w g) = Some l" "l \<noteq> p" "w_party w p = Some g"
      "leaveParty e p f g w = (True, if party_empty (w_parties (detach e p g w) g)
         then disband e g (detach e p g w) else detach e p g w)"
  | (passes) "m_leader (w_parties w g) = Some p" "memberList (w_parties w g) \<noteq> []"
      "leaveParty e p f g w = (let w1 = snd (passPartyLeadership e (hd (memberList (w_parties w g))) g w)
         in (True, if party_empty (w_parties (detach e p g w1) g)
             then disband e g (detach e p g w1) else detach e p g w1))"
  | (last) "m_leader (w_parties w g) = Some p" "leaveParty e p f g w = (True, disband e g (detach e p g w))"
proof -
  consider "\<exists>b. leaveParty e p f g w = (False, b)" | "\<exists>b. leaveParty e p f g w = (True, b)" by (metis surj_pair)
  then show thesis
  proof cases
    case 1
    then show thesis using denied
      by (auto simp: leaveParty_def Let_def split: option.splits if_splits)
  next
    case 2
    then obtain l where l: "m_leader (w_parties w g) = Some l"
      and g: "\<not> (w_party w p \<noteq> Some g \<and> l \<noteq> p)" "\<not> (\<not> f \<and> \<not> pe_onLeave e)" "pe_onLeaveCallback e"
      by (auto simp: leaveParty_def split: option.splits if_splits)
    define alone where "alone \<longleftrightarrow> memberList (w_parties w g) = []
      \<or> (length (memberList (w_parties w g)) = 1 \<and> inviteList (w_parties w g) = [])"
    have eq: "leaveParty e p f g w = (let
        w1 = (if l = p \<and> \<not> alone then snd (passPartyLeadership e (hd (memberList (w_parties w g))) g w) else w)
      in (True, if (l = p \<and> alone) \<or> party_empty (w_parties (detach e p g w1) g)
          then disband e g (detach e p g w1) else detach e p g w1))"
      using g unfolding leaveParty_def l option.case detach_def Let_def alone_def by simp
    consider "l \<noteq> p" | "l = p" "alone" | "l = p" "\<not> alone" by blast
    then show thesis
    proof cases
      case 1
      then show thesis using member [of l] l g(1) eq by (simp add: Let_def)
    next
      case 2
      then show thesis using last l eq by (simp add: Let_def)
    next
      case 3
      then have "memberList (w_parties w g) \<noteq> []" by (auto simp: alone_def)
      with 3 show thesis using passes l eq by (simp add: Let_def)
    qed
  qed
qed

text \<open>Leaving.\<close>

lemma detach_then_disband:
  assumes "consistent w" "lively_but g w" "pe_onDisband e" "p \<in> set (memberList (w_parties w g))"
    and "m_leader (w_parties w g) \<noteq> None"
  shows "consistent (if party_empty (w_parties (detach e p g w) g)
      then disband e g (detach e p g w) else detach e p g w)
    \<and> lively (if party_empty (w_parties (detach e p g w) g)
      then disband e g (detach e p g w) else detach e p g w)"
  by (rule disband_if_empty [OF detach_consistent [OF assms(1,4)] _ assms(3)])
    (simp_all add: lively_but_cong [OF assms(2)] assms(5) [simplified])

lemma leave_consistent:
  assumes "consistent w" "lively w" "pe_onDisband e"
  shows "consistent (snd (leaveParty e p f g w)) \<and> lively (snd (leaveParty e p f g w))"
proof (cases rule: leaveParty_cases [of e p f g w])
  case denied
  then show ?thesis using assms by simp
next
  case (member l)
  have "p \<in> set (memberList (w_parties w g))"
    using consistentD(1) [OF assms(1), of p g] member(1-3) by auto
  from detach_then_disband [OF assms(1) _ assms(3) this] show ?thesis
    unfolding member(4) snd_conv using member(1) assms(2) lively_but_iff by blast
next
  case passes
  note C = consistentD [OF assms(1)]
  let ?h = "hd (memberList (w_parties w g))" and ?w1 = "snd (passPartyLeadership e (hd (memberList (w_parties w g))) g w)"
  have h: "?h \<in> set (memberList (w_parties w g))" using passes(2) by simp
  then have "?h \<noteq> p" "w_party w ?h = Some g"
    using party_okD(4) [OF C(2) passes(1)] C(1) [of ?h g] by auto
  then have w1: "p \<in> set (memberList (w_parties ?w1 g))" "m_leader (w_parties ?w1 g) \<noteq> None"
    "\<And>k. k \<noteq> g \<Longrightarrow> w_parties ?w1 k = w_parties w k"
    using passes(1) by (auto simp: passPartyLeadership_def)
  have "lively_but g ?w1" using assms(2) lively_but_iff [of w g] lively_but_cong [OF _ w1(3)] by blast
  from detach_then_disband [OF pass_consistent [OF assms(1)] this assms(3) w1(1,2)]
  show ?thesis unfolding passes(3) Let_def snd_conv .
next
  case last
  note C = consistentD [OF assms(1)]
  have "p \<notin> set (memberList (w_parties w g))" using party_okD(4) [OF C(2) last(1)] by simp
  then have "consistent (disband e g (detach e p g w))"
    by (intro disband_detached [OF assms(1,3) last(1)]) (simp_all add: remove1_idem last(1))
  moreover have "lively (disband e g (detach e p g w))"
  proof (rule disband_lively [OF assms(3)])
    show "m_leader (w_parties (detach e p g w) g) = Some p" by (simp add: last(1))
    show "lively_but g (detach e p g w)"
      using assms(2) lively_but_iff [of w g] lively_but_cong by (metis detach_fields(7))
  qed
  ultimately show ?thesis unfolding last(2) by simp
qed

text \<open>Taking an invitation back.\<close>

lemma removeInvite_consistent:
  assumes "consistent w" "lively w" "pe_onDisband e"
  shows "consistent (snd (removeInvite e p True g w)) \<and> lively (snd (removeInvite e p True g w))"
proof (cases "m_leader (w_parties w g) \<noteq> None \<and> p \<in> set (inviteList (w_parties w g))")
  case False
  then show ?thesis using assms by (auto simp: removeInvite_def split: option.split)
next
  case True
  let ?v = "removePartyInvitation p g (on_party g (\<lambda>x. x\<lparr>inviteList := remove1 p (inviteList x)\<rparr>) w)"
  note C = consistentD [OF assms(1)]
  have "consistent ?v"
  proof (rule consistentI)
    fix q h
    show "(w_party ?v q = Some h) \<longleftrightarrow> m_leader (w_parties ?v h) = Some q \<or> q \<in> set (memberList (w_parties ?v h))"
      using C(1) [of q h] by auto
    show "party_ok (w_parties ?v h)"
      using C(2) [of h] True by (cases "h = g") (auto simp: party_ok_def split: option.splits)
    show "(h \<in> set (w_invited ?v q)) \<longleftrightarrow> q \<in> set (inviteList (w_parties ?v h))"
      using C(3) [of h q] party_okD(2) [OF C(2) [of g]] by auto
    show "distinct (w_invited ?v q)" using C(4) by (simp add: distinct_removeAll)
    show "m_leader (w_parties ?v h) = None" if "w_next ?v \<le> h" using that C(5) [of h] by auto
  qed
  moreover have "lively_but g ?v" using assms(2) lively_but_iff [of w g] lively_but_cong [of g w ?v] by simp
  moreover have "snd (removeInvite e p True g w) = (if party_empty (w_parties ?v g) then disband e g ?v else ?v)"
    using True by (auto simp: removeInvite_def Let_def)
  ultimately show ?thesis using disband_if_empty [of ?v g e] assms(3) True by simp
qed

text \<open>
  At the logout the player's own list is cleared at the end only: each removal acts as if
  the invitation were also taken off that list.
\<close>

definition with_invites :: "'p \<Rightarrow> nat list \<Rightarrow> 'p world \<Rightarrow> 'p world" where
  "with_invites p gs w = w\<lparr>w_invited := (w_invited w)(p := gs)\<rparr>"

lemma with_invites_fields [simp]:
  "w_parties (with_invites p gs w) = w_parties w" "w_party (with_invites p gs w) = w_party w"
  "w_next (with_invites p gs w) = w_next w" "w_invited (with_invites p gs w) = (w_invited w)(p := gs)"
  by (simp_all add: with_invites_def)

lemma with_invites_commute:
  "on_party g f (with_invites p gs w) = with_invites p gs (on_party g f w)"
  "setParty q h (with_invites p gs w) = with_invites p gs (setParty q h w)"
  "q \<noteq> p \<Longrightarrow> removePartyInvitation q g (with_invites p gs w) = with_invites p gs (removePartyInvitation q g w)"
  by (simp_all add: with_invites_def on_party_def setParty_def removePartyInvitation_def fun_upd_twist)

lemma with_invites_folds:
  "fold (\<lambda>q. setParty q None) qs (with_invites p gs w) = with_invites p gs (fold (\<lambda>q. setParty q None) qs w)"
  "p \<notin> set qs \<Longrightarrow> fold (\<lambda>q. removePartyInvitation q g) qs (with_invites p gs w)
     = with_invites p gs (fold (\<lambda>q. removePartyInvitation q g) qs w)"
  by (induction qs arbitrary: w) (auto simp: with_invites_commute)

lemma disband_with_invites:
  "p \<notin> set (inviteList (w_parties w g)) \<Longrightarrow>
   disband e g (with_invites p gs w) = with_invites p gs (disband e g w)"
  by (auto simp: disband_def Let_def with_invites_commute with_invites_folds split: option.split)

lemma with_invites_remove:
  "g \<notin> set gs \<Longrightarrow> removePartyInvitation p g (with_invites p (g # gs) w) = with_invites p gs w"
  by (simp add: with_invites_def removePartyInvitation_def)

lemma removeInvite_with_invites:
  assumes "consistent (with_invites p (g # gs) w)"
  shows "with_invites p gs (snd (removeInvite e p False g w))
    = snd (removeInvite e p True g (with_invites p (g # gs) w))"
proof -
  note C = consistentD [OF assms]
  have g: "g \<notin> set gs" using C(4) [of p] by simp
  have inv: "p \<in> set (inviteList (w_parties w g))" using C(3) [of g p] by simp
  obtain l where l: "m_leader (w_parties w g) = Some l"
    using party_okD(3) [OF C(2) [of g]] inv by (cases "m_leader (w_parties w g)") auto
  let ?w1 = "on_party g (\<lambda>x. x\<lparr>inviteList := remove1 p (inviteList x)\<rparr>) w"
  have p: "p \<notin> set (inviteList (w_parties ?w1 g))" using party_okD(2) [OF C(2) [of g]] by simp
  show ?thesis
    unfolding removeInvite_def with_invites_fields l option.case Let_def with_invites_commute(1)
      with_invites_remove [OF g]
    using inv by (auto simp: disband_with_invites [OF p])
qed

lemma clear_invites:
  assumes "pe_onDisband e"
  shows "consistent (with_invites p gs w) \<Longrightarrow> lively w \<Longrightarrow>
    consistent (with_invites p [] (fold (\<lambda>g v. snd (removeInvite e p False g v)) gs w))
    \<and> lively (fold (\<lambda>g v. snd (removeInvite e p False g v)) gs w)"
proof (induction gs arbitrary: w)
  case (Cons g gs)
  let ?v = "snd (removeInvite e p False g w)"
  have live: "lively (with_invites p ks x) = lively x" for ks x by (simp add: lively_def)
  have "consistent (with_invites p gs ?v) \<and> lively (with_invites p gs ?v)"
    unfolding removeInvite_with_invites [OF Cons.prems(1)]
    by (rule removeInvite_consistent [OF Cons.prems(1) _ assms]) (simp add: live Cons.prems(2))
  then show ?case using Cons.IH [of ?v] by (simp add: live)
qed simp

lemma clearPartyInvitations_consistent:
  assumes "consistent w" "lively w" "pe_onDisband e"
  shows "consistent (clearPartyInvitations e p w) \<and> lively (clearPartyInvitations e p w)"
proof -
  have "with_invites p (w_invited w p) w = w" by (simp add: with_invites_def)
  then have "consistent (with_invites p (w_invited w p) w)" using assms(1) by (rule ssubst)
  from clear_invites [OF assms(3) this assms(2)] show ?thesis
    by (simp add: clearPartyInvitations_def Let_def with_invites_def lively_def)
qed

section \<open>Sequences of requests\<close>

datatype 'p party_request =
    Invite 'p 'p | Join 'p 'p | Revoke 'p 'p | Pass 'p 'p | Leave bool 'p | Logout 'p
  | Share bool 'p bool

fun party_handle :: "'p party_env \<Rightarrow> 'p party_request \<Rightarrow> 'p world \<Rightarrow> 'p world" where
  "party_handle e (Invite p q) w = playerInviteToParty e p q w"
| "party_handle e (Join p l) w = playerJoinParty e p l w"
| "party_handle e (Revoke p q) w = playerRevokePartyInvitation e p q w"
| "party_handle e (Pass p q) w = playerPassPartyLeadership e p q w"
| "party_handle e (Leave fighting p) w = playerLeaveParty e fighting p w"
| "party_handle e (Logout p) w = playerLogout e p w"
| "party_handle e (Share fighting p active) w = playerEnableSharedPartyExperience e fighting p active w"

definition no_parties :: "'p world" where
  "no_parties = \<lparr>w_party = \<lambda>_. None, w_invited = \<lambda>_. [], w_parties = \<lambda>_. new_party, w_next = 0\<rparr>"

text \<open>
  The hooks may answer anything, but no veto of a disband takes effect: each request leads
  where it would lead had the disband been allowed (so wherever no party is disbanded the
  answer is free). Where one does take effect, \<open>disband_veto_leaves_ghost\<close> below applies.
\<close>

definition veto_without_effect :: "'p party_env \<Rightarrow> 'p party_request \<Rightarrow> 'p world \<Rightarrow> bool" where
  "veto_without_effect e r w \<longleftrightarrow>
     pe_onDisband e \<or> party_handle e r w = party_handle (e\<lparr>pe_onDisband := True\<rparr>) r w"

inductive party_reachable :: "'p world \<Rightarrow> bool" where
  nobody: "party_reachable no_parties"
| request: "party_reachable w \<Longrightarrow> veto_without_effect e r w \<Longrightarrow> party_reachable (party_handle e r w)"

lemma invite_request:
  assumes "consistent w" "lively w"
  shows "consistent (playerInviteToParty e p q w) \<and> lively (playerInviteToParty e p q w)"
proof (cases "p = q \<or> isInviting w q p \<or> w_party w q \<noteq> None")
  case True
  then have "playerInviteToParty e p q w = w" by (auto simp: playerInviteToParty_def)
  then show ?thesis using assms by simp
next
  case False
  note C = consistentD [OF assms(1)]
  show ?thesis
  proof (cases "w_party w p")
    case None
    let ?g = "w_next w" and ?c = "snd (create e p w)"
    have new: "m_leader (w_parties w ?g) = None" "inviteList (w_parties w ?g) = []"
      using C(5) [of ?g] party_okD(3) [OF C(2) [of ?g]] by auto
    have c: "fst (create e p w) = ?g" "m_leader (w_parties ?c ?g) = Some p" "inviteList (w_parties ?c ?g) = []"
      "w_party ?c = (w_party w)(p := Some ?g)" "\<And>h. h \<noteq> ?g \<Longrightarrow> w_parties ?c h = w_parties w h"
      by (auto simp: create_def Let_def new_party_def)
    have eq: "playerInviteToParty e p q w = snd (invitePlayer q ?g ?c)"
      using False None c(1) by (simp add: playerInviteToParty_def split_beta)
    have "consistent (snd (invitePlayer q ?g ?c))"
      using False by (intro invite_consistent [OF create_consistent [OF assms(1) None]]) (auto simp: c)
    moreover have "lively (snd (invitePlayer q ?g ?c))"
      using assms(2) c(3,5) by (auto simp: lively_def invitePlayer_def isPlayerInvited_def party_empty_def c(2))
    ultimately show ?thesis unfolding eq by simp
  next
    case (Some g)
    have "consistent (snd (invitePlayer q g w))"
    proof (cases "m_leader (w_parties w g) = None \<or> isPlayerInvited q (w_parties w g)")
      case True
      then show ?thesis using assms(1) by (auto simp: invitePlayer_def)
    next
      case nf: False
      then show ?thesis using False
        by (intro invite_consistent [OF assms(1)]) (auto simp: isPlayerInvited_def)
    qed
    moreover have "lively (snd (invitePlayer q g w))"
      using assms(2) by (auto simp: lively_def invitePlayer_def party_empty_def)
    ultimately show ?thesis using False Some assms by (simp add: playerInviteToParty_def)
  qed
qed

lemma join_request:
  assumes "consistent w" "lively w"
  shows "consistent (playerJoinParty e p l w) \<and> lively (playerJoinParty e p l w)"
proof -
  have "lively (snd (joinParty e p g w))" for g
    using assms(2) by (auto simp: joinParty_def Let_def lively_def party_empty_def split: option.split)
  then show ?thesis using assms join_consistent [OF assms(1)]
    by (auto simp: playerJoinParty_def split: option.split)
qed

lemma pass_request:
  assumes "consistent w" "lively w"
  shows "consistent (playerPassPartyLeadership e p q w) \<and> lively (playerPassPartyLeadership e p q w)"
proof -
  have "lively (snd (passPartyLeadership e q g w))" for g
    using assms(2) by (auto simp: passPartyLeadership_def lively_def party_empty_def split: option.split)
  then show ?thesis using assms pass_consistent [OF assms(1)]
    by (auto simp: playerPassPartyLeadership_def split: option.split)
qed

text \<open>What does not touch the membership.\<close>

lemma on_party_consistent:
  assumes "consistent w" "lively w" "m_leader (f (w_parties w g)) = m_leader (w_parties w g)"
    and "memberList (f (w_parties w g)) = memberList (w_parties w g)"
    and "inviteList (f (w_parties w g)) = inviteList (w_parties w g)"
  shows "consistent (on_party g f w) \<and> lively (on_party g f w)"
proof
  note C = consistentD [OF assms(1)]
  show "consistent (on_party g f w)"
  proof (rule consistentI)
    fix h
    have "party_ok (w_parties (on_party g f w) h) = party_ok (w_parties w h)"
      by (rule party_ok_fields) (simp_all add: assms)
    then show "party_ok (w_parties (on_party g f w) h)" using C(2) by simp
  qed (auto simp: assms C)
  show "lively (on_party g f w)" using assms(2) by (auto simp: lively_def party_empty_def assms)
qed

lemma request_consistent:
  assumes "consistent w" "lively w" "pe_onDisband e"
  shows "consistent (party_handle e r w) \<and> lively (party_handle e r w)"
proof (cases r)
  case (Revoke p q)
  then show ?thesis using assms removeInvite_consistent [OF assms]
    by (auto simp: playerRevokePartyInvitation_def revokeInvitation_def split: option.split)
next
  case (Leave f p)
  then show ?thesis using assms leave_consistent [OF assms] by (auto simp: playerLeaveParty_def split: option.split)
next
  case (Logout p)
  have "consistent (case w_party w p of None \<Rightarrow> w | Some g \<Rightarrow> snd (leaveParty e p True g w))
    \<and> lively (case w_party w p of None \<Rightarrow> w | Some g \<Rightarrow> snd (leaveParty e p True g w))"
    using assms leave_consistent [OF assms] by (auto split: option.split)
  then show ?thesis using clearPartyInvitations_consistent [OF _ _ assms(3)]
    unfolding Logout party_handle.simps playerLogout_def by blast
next
  case (Invite p q)
  then show ?thesis using invite_request [OF assms(1,2)] by simp
next
  case (Join p q)
  then show ?thesis using join_request [OF assms(1,2)] by simp
next
  case (Pass p q)
  then show ?thesis using pass_request [OF assms(1,2)] by simp
next
  case (Share f p a)
  then show ?thesis using assms on_party_consistent [OF assms(1,2)]
    by (auto simp: playerEnableSharedPartyExperience_def split: option.split)
qed

lemma reachable_consistent: "party_reachable w \<Longrightarrow> consistent w \<and> lively w"
proof (induction rule: party_reachable.induct)
  case nobody
  show ?case by (simp add: consistent_def lively_def no_parties_def new_party_def party_ok_def)
next
  case (request w e r)
  then have "\<exists>e'. pe_onDisband e' \<and> party_handle e r w = party_handle e' r w"
    by (auto simp: veto_without_effect_def intro: exI [of _ e] exI [of _ "e\<lparr>pe_onDisband := True\<rparr>"])
  with request.IH show ?case using request_consistent by metis
qed

definition sample_party_env :: "nat party_env" where
  "sample_party_env = \<lparr>pe_level = (\<lambda>p. 100 + p), pe_pos = (\<lambda>_. Position 100 100 7),
     pe_notGainInFight = (\<lambda>_. False), pe_now = 1000, pe_activity = 120000,
     pe_minLevel = (\<lambda>h. (2 * h + 2) div 3), pe_autoShare = True, pe_onDisband = True,
     pe_onLeave = True, pe_onLeaveCallback = True, pe_onJoin = True\<rparr>"

definition sample_world :: "nat world" where
  "sample_world = fold (party_handle sample_party_env)
     [Invite 1 2, Join 2 1, Invite 1 3, Join 3 1, Invite 1 4] no_parties"

lemma party_reachable_fold:
  "party_reachable w \<Longrightarrow> pe_onDisband e \<Longrightarrow> party_reachable (fold (party_handle e) rs w)"
proof (induction rs arbitrary: w)
  case (Cons r rs)
  then have "veto_without_effect e r w" by (simp add: veto_without_effect_def)
  with Cons party_reachable.request [of w e r] show ?case by simp
qed simp

lemma sample_reachable: "party_reachable sample_world"
  unfolding sample_world_def
  by (rule party_reachable_fold [OF party_reachable.nobody]) (simp add: sample_party_env_def)

lemma sample_fields:
  "w_party sample_world 1 = Some 0" "m_leader (w_parties sample_world 0) = Some 1"
  "memberList (w_parties sample_world 0) = [2, 3]" "inviteList (w_parties sample_world 0) = [4]"
  by code_simp+

text \<open>C4. Whatever requests the players make, in whatever order and with whatever answers of
  the hooks, as long as no hook has vetoed a disband that was due (such a veto leaves a
  party whose leader points nowhere, see \<open>disband_veto_leaves_ghost\<close>): a player points to a party exactly when he leads it or
  is listed in it, nobody is listed twice, invitations are known on both sides and go to
  outsiders only, and a party nobody is in and nobody is invited to does not survive.\<close>

theorem parties_agree_with_players:
  assumes "party_reachable w"
  shows "(w_party w p = Some g \<longleftrightarrow> m_leader (w_parties w g) = Some p \<or> p \<in> set (memberList (w_parties w g)))
    \<and> (g \<in> set (w_invited w p) \<longleftrightarrow> p \<in> set (inviteList (w_parties w g)))
    \<and> distinct (memberList (w_parties w g)) \<and> distinct (inviteList (w_parties w g))
    \<and> (m_leader (w_parties w g) = Some p \<longrightarrow>
         p \<notin> set (memberList (w_parties w g)) \<and> \<not> party_empty (w_parties w g))
    \<and> (p \<in> set (inviteList (w_parties w g)) \<longrightarrow> w_party w p \<noteq> Some g)
    \<and> (m_leader (w_parties w g) = None \<longrightarrow> party_empty (w_parties w g))"
proof -
  from reachable_consistent [OF assms] have c: "consistent w" "lively w" by auto
  note C = consistentD [OF c(1)] and G = party_okD [OF C(2) [of g]]
  have "p \<notin> set (inviteList (w_parties w g))" if "w_party w p = Some g"
    using that C(1) [of p g] G(3) G(4) by (cases "m_leader (w_parties w g)") auto
  then show ?thesis
    using C(1) [of p g] C(3) [of g p] G(1,2,3) G(4) [of p] c(2) unfolding lively_def party_empty_def by auto
qed

theorem parties_agree_with_players_witness:
  "w_party sample_world 1 = Some 0 \<longleftrightarrow> m_leader (w_parties sample_world 0) = Some 1
     \<or> 1 \<in> set (memberList (w_parties sample_world 0))"
  using parties_agree_with_players [OF sample_reachable] by blast

lemma party_empty_after_detach:
  "party_empty (w_parties (detach e p g w) g) \<longleftrightarrow>
     remove1 p (memberList (w_parties w g)) = [] \<and> inviteList (w_parties w g) = []"
  by (simp add: party_empty_def)

text \<open>Leaving a party that the hooks let the player leave: he is out; the first member
  succeeds a leader who leaves somebody behind; the others stay as they were; and when
  only one person would be left with nobody invited, the party is dissolved, so that
  nobody points to it any more.\<close>

theorem leaving_a_party:
  assumes "party_reachable w" "w_party w p = Some g"
    and "pe_onDisband e" "pe_onLeave e" "pe_onLeaveCallback e"
    and "ms = memberList (w_parties w g)" "invs = inviteList (w_parties w g)"
  shows "let v = playerLeaveParty e False p w in
     w_party v p = None
     \<and> (if m_leader (w_parties w g) = Some p
        then if ms = [] \<or> (length ms = 1 \<and> invs = [])
          then m_leader (w_parties v g) = None \<and> (\<forall>q. w_party v q \<noteq> Some g)
          else m_leader (w_parties v g) = Some (hd ms) \<and> memberList (w_parties v g) = tl ms
        else if ms = [p] \<and> invs = []
          then m_leader (w_parties v g) = None \<and> (\<forall>q. w_party v q \<noteq> Some g)
          else m_leader (w_parties v g) = m_leader (w_parties w g)
            \<and> memberList (w_parties v g) = remove1 p ms)"
proof -
  from reachable_consistent [OF assms(1)] have c: "consistent w" "lively w" by auto
  note C = consistentD [OF c(1)] and G = party_okD [OF C(2) [of g]]
  let ?v = "snd (leaveParty e p False g w)"
  have v: "playerLeaveParty e False p w = ?v" using assms(2) by (simp add: playerLeaveParty_def)
  have cv: "consistent ?v" using leave_consistent [OF c assms(3)] by blast
  have gone: "\<forall>q. w_party ?v q \<noteq> Some g" if "m_leader (w_parties ?v g) = None"
    using consistentD(1) [OF cv, of _ g] party_okD(3) [OF consistentD(2) [OF cv] that] that by auto
  obtain l where l: "m_leader (w_parties w g) = Some l"
    using C(1) [of p g] assms(2) G(3) by (cases "m_leader (w_parties w g)") auto
  have D: "m_leader (w_parties (disband e g (detach e p g x)) g) = None"
    "w_party (disband e g (detach e p g x)) p = None"
    if "m_leader (w_parties x g) \<noteq> None" for x
    using that by (auto simp: disband_fields [OF assms(3)] simp del: not_None_eq)
  show ?thesis
  proof (cases "l = p")
    case True
    show ?thesis
    proof (cases "ms = [] \<or> (length ms = 1 \<and> invs = [])")
      case alone: True
      have eq: "?v = disband e g (detach e p g w)"
        using alone l True assms(2,4,5) unfolding assms(6,7)
        by (auto simp: leaveParty_def detach_def Let_def)
      have "m_leader (w_parties ?v g) = None" "w_party ?v p = None" using D [of w] l unfolding eq by auto
      then show ?thesis using gone alone True l unfolding v Let_def by simp
    next
      case False
      let ?w1 = "snd (passPartyLeadership e (hd ms) g w)"
      have ne: "ms \<noteq> []" using False by blast
      then have h: "hd ms \<in> set ms" by simp
      then have hd: "hd ms \<noteq> p" "w_party w (hd ms) = Some g"
        using G(4) [OF l] C(1) [of "hd ms" g] True unfolding assms(6) by auto
      have w1: "memberList (w_parties ?w1 g) = p # tl ms" "m_leader (w_parties ?w1 g) = Some (hd ms)"
        "inviteList (w_parties ?w1 g) = invs"
        using hd l True ne unfolding assms(6,7)
        by (auto simp: passPartyLeadership_def neq_Nil_conv)
      have "\<not> party_empty (w_parties (detach e p g ?w1) g)"
        using False ne unfolding party_empty_after_detach w1 by (auto simp: neq_Nil_conv)
      then have eq: "?v = detach e p g ?w1"
        using False l True assms(2,4,5) unfolding assms(6,7)
        by (auto simp: leaveParty_def detach_def Let_def)
      show ?thesis using False True l w1 unfolding v Let_def eq by simp
    qed
  next
    case False
    have eq: "?v = (if party_empty (w_parties (detach e p g w) g)
        then disband e g (detach e p g w) else detach e p g w)"
      using l False assms(2,4,5) by (simp add: leaveParty_def detach_def Let_def)
    have p: "p \<in> set ms" using C(1) [of p g] assms(2) l False unfolding assms(6) by simp
    have iff: "remove1 p ms = [] \<longleftrightarrow> ms = [p]" using p by (cases ms) auto
    show ?thesis
    proof (cases "ms = [p] \<and> invs = []")
      case True
      then have "party_empty (w_parties (detach e p g w) g)"
        unfolding party_empty_after_detach assms(6) [symmetric] assms(7) [symmetric] by simp
      then have eq': "?v = disband e g (detach e p g w)" unfolding eq by simp
      have "m_leader (w_parties ?v g) = None" "w_party ?v p = None" using D [of w] l unfolding eq' by auto
      then show ?thesis using gone True False l unfolding v Let_def by simp
    next
      case stays: False
      then have "\<not> party_empty (w_parties (detach e p g w) g)"
        unfolding party_empty_after_detach assms(6) [symmetric] assms(7) [symmetric] iff .
      then have eq': "?v = detach e p g w" unfolding eq by simp
      show ?thesis using stays False l assms(6) unfolding v Let_def eq' by simp
    qed
  qed
qed

theorem leaving_a_party_witness:
  "w_party (playerLeaveParty sample_party_env False 1 sample_world) 1 = None
   \<and> m_leader (w_parties (playerLeaveParty sample_party_env False 1 sample_world) 0) = Some 2
   \<and> memberList (w_parties (playerLeaveParty sample_party_env False 1 sample_world) 0) = [3]"
  using leaving_a_party [OF sample_reachable sample_fields(1) _ _ _ refl refl, of sample_party_env]
  unfolding sample_fields Let_def by (simp add: sample_party_env_def)

section \<open>When experience is shared\<close>

lemma fold_max_level:
  "fold (\<lambda>p h. if f p > h then f p else h) ps (a::nat) = Max (insert a (f ` set ps))"
proof (induction ps arbitrary: a)
  case (Cons p ps)
  have "(if f p > a then f p else a) = max a (f p)" by auto
  moreover have "Max (insert (max a (f p)) (f ` set ps)) = Max (insert a (insert (f p) (f ` set ps)))"
    by (cases "ps = []") (auto simp: max.assoc)
  ultimately show ?case using Cons by simp
qed simp

lemma highest_level:
  "m_leader g = Some l \<Longrightarrow> getHighestLevel e g = Max (pe_level e ` set (l # memberList g))"
  by (simp add: getHighestLevel_def fold_max_level)

lemma first_status_ok:
  "first_status e g ps = SHAREDEXP_OK \<longleftrightarrow> (\<forall>p\<in>set ps. getMemberSharedExperienceStatus e g p = SHAREDEXP_OK)"
  by (induction ps) (auto simp: Let_def)

lemma first_status_is_first:
  "first_status e g ps = s \<Longrightarrow> s \<noteq> SHAREDEXP_OK \<Longrightarrow>
   \<exists>as p bs. ps = as @ p # bs \<and> getMemberSharedExperienceStatus e g p = s
     \<and> (\<forall>q\<in>set as. getMemberSharedExperienceStatus e g q = SHAREDEXP_OK)"
proof (induction ps)
  case (Cons p ps)
  show ?case
  proof (cases "getMemberSharedExperienceStatus e g p = SHAREDEXP_OK")
    case True
    with Cons obtain as q bs where "ps = as @ q # bs" "getMemberSharedExperienceStatus e g q = s"
      "\<forall>r\<in>set as. getMemberSharedExperienceStatus e g r = SHAREDEXP_OK" by auto
    with True show ?thesis by (intro exI [of _ "p # as"] exI [of _ q] exI [of _ bs]) simp
  next
    case False
    with Cons.prems show ?thesis by (intro exI [of _ "[]"] exI [of _ p] exI [of _ ps]) simp
  qed
qed simp

text \<open>The party shares experience exactly when it has a leader and a member, and everybody
  in it reaches the minimum level set by the highest of them, stands within 30 squares and
  one floor of the leader, and is out of a fight or has been active recently.\<close>

theorem sharing_conditions:
  "getSharedExperienceStatus e g = SHAREDEXP_OK \<longleftrightarrow>
     (\<exists>l. m_leader g = Some l \<and> memberList g \<noteq> [] \<and> set (l # memberList g) \<subseteq>
       {p. pe_minLevel e (Max (pe_level e ` set (l # memberList g))) \<le> pe_level e p
           \<and> areInRange3 30 30 1 (pe_pos e l) (pe_pos e p)
           \<and> (pe_notGainInFight e p \<or> isPlayerActive e g p)})"
proof (cases "m_leader g")
  case None
  then show ?thesis by (simp add: getSharedExperienceStatus_def)
next
  case (Some l)
  have m: "getMemberSharedExperienceStatus e g p = SHAREDEXP_OK \<longleftrightarrow> memberList g \<noteq> []
      \<and> \<not> pe_level e p < pe_minLevel e (Max (pe_level e ` set (l # memberList g)))
      \<and> areInRange3 30 30 1 (pe_pos e l) (pe_pos e p)
      \<and> (pe_notGainInFight e p \<or> isPlayerActive e g p)" for p
    unfolding getMemberSharedExperienceStatus_def Some option.case highest_level [OF Some] by simp
  have "getSharedExperienceStatus e g = SHAREDEXP_OK \<longleftrightarrow>
      (\<forall>p\<in>set (l # memberList g). getMemberSharedExperienceStatus e g p = SHAREDEXP_OK)"
    unfolding getSharedExperienceStatus_def Some option.case by (rule first_status_ok)
  then show ?thesis unfolding m Some by (auto simp: not_less)
qed

text \<open>What the share is switched on to, and who is paid.\<close>

lemma enabled_when_active:
  "sharedExpActive g \<Longrightarrow>
   sharedExpEnabled (updateSharedExperience e g) \<longleftrightarrow> getSharedExperienceStatus e g = SHAREDEXP_OK"
  by (simp add: updateSharedExperience_def)

lemma share_pays_everyone:
  "m_leader g = Some l \<Longrightarrow>
   set (shareExperience hook x g) = {(p, hook x) | p. p \<in> set (l # memberList g)}"
  by (auto simp: shareExperience_def)

lemma only_leader_switches:
  "fst (setSharedExperience e p b g) \<longleftrightarrow> m_leader g = Some p"
  "m_leader g \<noteq> Some p \<Longrightarrow> snd (setSharedExperience e p b g) = g"
  "m_leader g = Some p \<Longrightarrow> sharedExpActive (snd (setSharedExperience e p b g)) = b"
  by (auto simp: setSharedExperience_def Let_def)

text \<open>
  A hook that vetoes the disband after the last leader has left leaves a party led by
  somebody who points to no party.
\<close>

lemma disband_veto_leaves_ghost:
  assumes "w = fold (party_handle sample_party_env) [Invite 1 2, Join 2 1] no_parties"
    and "v = playerLeaveParty (sample_party_env\<lparr>pe_onDisband := False\<rparr>) False 1 w"
  shows "w_party v 1 = None \<and> m_leader (w_parties v 0) = Some 1
    \<and> w_party v 2 = Some 0 \<and> memberList (w_parties v 0) = [2]"
  unfolding assms by code_simp

end
