(* ===== verification/Party_Analyzer.thy ===== *)
theory Party_Analyzer
  imports Party
begin

text \<open>
  The combat analyzer of a party (src/src/creatures/players/grouping/party.cpp, the part
  from \<open>addPlayerLoot\<close> on) with the prices it asks for (\<open>Game::getItemMarketPrice\<close>,
  \<open>Player::getItemCustomPrice\<close>), and the rule which of its members a player sees in the
  party list. A \<open>std::map\<close> is the list of its entries in key order. The messages that
  carry the figures to the clients are left out.
\<close>

datatype PartyAnalyzer_t = MARKET_PRICE | LEADER_PRICE

type_synonym amounts = "(u16 \<times> u64) list"

record analyzer =
  an_id :: u32
  an_damage :: u64
  an_healing :: u64
  an_lootPrice :: u64
  an_supplyPrice :: u64
  an_lootMap :: amounts
  an_supplyMap :: amounts

record tracker =
  trackerTime :: int
  priceType :: PartyAnalyzer_t
  membersData :: "analyzer list"

text \<open>What items cost: the leader's own prices, the market by tier, and the item types.\<close>

record prices =
  pr_custom :: "u16 \<rightharpoonup> u64"
  pr_market :: "u16 \<rightharpoonup> (u8 \<times> u64) list"
  pr_buy :: "u16 \<Rightarrow> u64"
  pr_sell :: "u16 \<Rightarrow> u64"

section \<open>Prices\<close>

definition market_entry :: "prices \<Rightarrow> bool \<Rightarrow> u16 \<times> u64 \<Rightarrow> u64 \<Rightarrow> u64" where
  "market_entry ps buyPrice entry tot = (case entry of (itemId, itemCount) \<Rightarrow>
     if itemId = 3031 then tot + itemCount
     else if itemId = 3035 then tot + 100 * itemCount
     else if itemId = 3043 then tot + 10000 * itemCount
     else (case pr_market ps itemId of
         Some tiers \<Rightarrow> fold (\<lambda>(tier, price) t. t + price * itemCount) tiers tot
       | None \<Rightarrow> tot + (if buyPrice then pr_buy ps itemId else pr_sell ps itemId) * itemCount))"

definition getItemMarketPrice :: "prices \<Rightarrow> amounts \<Rightarrow> bool \<Rightarrow> u64" where
  "getItemMarketPrice ps itemMap buyPrice = fold (market_entry ps buyPrice) itemMap 0"

definition getItemCustomPrice :: "prices \<Rightarrow> u16 \<Rightarrow> bool \<Rightarrow> u64" where
  "getItemCustomPrice ps itemId buyPrice = (case pr_custom ps itemId of
      Some price \<Rightarrow> price
    | None \<Rightarrow> getItemMarketPrice ps [(itemId, 1)] buyPrice)"

section \<open>The analyzer\<close>

definition new_analyzer :: "u32 \<Rightarrow> analyzer" where
  "new_analyzer i = \<lparr>an_id = i, an_damage = 0, an_healing = 0, an_lootPrice = 0, an_supplyPrice = 0,
     an_lootMap = [], an_supplyMap = []\<rparr>"

definition new_tracker :: "int \<Rightarrow> tracker" where
  "new_tracker now = \<lparr>trackerTime = now, priceType = MARKET_PRICE, membersData = []\<rparr>"

definition getPlayerPartyAnalyzerStruct :: "u32 \<Rightarrow> tracker \<Rightarrow> analyzer option" where
  "getPlayerPartyAnalyzerStruct playerId t = find (\<lambda>a. an_id a = playerId) (membersData t)"

definition ensure_analyzer :: "u32 \<Rightarrow> tracker \<Rightarrow> tracker" where
  "ensure_analyzer playerId t = (case getPlayerPartyAnalyzerStruct playerId t of
      Some _ \<Rightarrow> t
    | None \<Rightarrow> t\<lparr>membersData := membersData t @ [new_analyzer playerId]\<rparr>)"

text \<open>The update goes through the shared pointer to the first entry with the identifier.\<close>

fun change_first :: "u32 \<Rightarrow> (analyzer \<Rightarrow> analyzer) \<Rightarrow> analyzer list \<Rightarrow> analyzer list" where
  "change_first i f [] = []"
| "change_first i f (a # as) = (if an_id a = i then f a # as else a # change_first i f as)"

definition on_analyzer :: "u32 \<Rightarrow> (analyzer \<Rightarrow> analyzer) \<Rightarrow> tracker \<Rightarrow> tracker" where
  "on_analyzer playerId f t =
     (let t' = ensure_analyzer playerId t
      in t'\<lparr>membersData := change_first playerId f (membersData t')\<rparr>)"

fun add_amount :: "u16 \<Rightarrow> u64 \<Rightarrow> amounts \<Rightarrow> amounts" where
  "add_amount k n [] = [(k, n)]"
| "add_amount k n ((k', n') # m) =
     (if k = k' then (k', n' + n) # m
      else if k < k' then (k, n) # (k', n') # m
      else (k', n') # add_amount k n m)"

definition addPlayerLoot :: "prices \<Rightarrow> bool \<Rightarrow> u32 \<Rightarrow> u16 \<Rightarrow> u16 \<Rightarrow> tracker \<Rightarrow> tracker" where
  "addPlayerLoot ps hasLeader playerId itemId itemCount t =
     (if \<not> hasLeader then t
      else let count = max 1 (ucast itemCount) :: u32
        in on_analyzer playerId (\<lambda>a. a\<lparr>
             an_lootMap := add_amount itemId (ucast count) (an_lootMap a),
             an_lootPrice := an_lootPrice a +
               (if priceType t = LEADER_PRICE then getItemCustomPrice ps itemId False * ucast count
                else getItemMarketPrice ps [(itemId, ucast count)] False)\<rparr>) t)"

definition addPlayerSupply :: "prices \<Rightarrow> bool \<Rightarrow> u32 \<Rightarrow> u16 \<Rightarrow> tracker \<Rightarrow> tracker" where
  "addPlayerSupply ps hasLeader playerId itemId t =
     (if \<not> hasLeader then t
      else on_analyzer playerId (\<lambda>a. a\<lparr>
             an_supplyMap := add_amount itemId 1 (an_supplyMap a),
             an_supplyPrice := an_supplyPrice a +
               (if priceType t = LEADER_PRICE then getItemCustomPrice ps itemId True
                else getItemMarketPrice ps [(itemId, 1)] True)\<rparr>) t)"

definition addPlayerDamage :: "u32 \<Rightarrow> u64 \<Rightarrow> tracker \<Rightarrow> tracker" where
  "addPlayerDamage playerId amount = on_analyzer playerId (\<lambda>a. a\<lparr>an_damage := an_damage a + amount\<rparr>)"

definition addPlayerHealing :: "u32 \<Rightarrow> u64 \<Rightarrow> tracker \<Rightarrow> tracker" where
  "addPlayerHealing playerId amount = on_analyzer playerId (\<lambda>a. a\<lparr>an_healing := an_healing a + amount\<rparr>)"

definition leader_total :: "prices \<Rightarrow> bool \<Rightarrow> amounts \<Rightarrow> u64" where
  "leader_total ps buyPrice m = fold (\<lambda>(itemId, n) tot. tot + getItemCustomPrice ps itemId buyPrice * n) m 0"

definition reload_analyzer :: "prices \<Rightarrow> PartyAnalyzer_t \<Rightarrow> analyzer \<Rightarrow> analyzer" where
  "reload_analyzer ps pt a =
     (if pt = MARKET_PRICE
      then a\<lparr>an_lootPrice := getItemMarketPrice ps (an_lootMap a) False,
             an_supplyPrice := getItemMarketPrice ps (an_supplyMap a) True\<rparr>
      else a\<lparr>an_lootPrice := leader_total ps False (an_lootMap a),
             an_supplyPrice := leader_total ps True (an_supplyMap a)\<rparr>)"

definition reloadPrices :: "prices \<Rightarrow> bool \<Rightarrow> tracker \<Rightarrow> tracker" where
  "reloadPrices ps hasLeader t =
     (if \<not> hasLeader then t
      else t\<lparr>membersData := map (reload_analyzer ps (priceType t)) (membersData t)\<rparr>)"

definition switchAnalyzerPriceType :: "prices \<Rightarrow> bool \<Rightarrow> tracker \<Rightarrow> tracker" where
  "switchAnalyzerPriceType ps hasLeader t =
     (if \<not> hasLeader then t
      else reloadPrices ps hasLeader
        (t\<lparr>priceType := (if priceType t = LEADER_PRICE then MARKET_PRICE else LEADER_PRICE)\<rparr>))"

definition resetAnalyzer :: "int \<Rightarrow> tracker \<Rightarrow> tracker" where
  "resetAnalyzer now t = t\<lparr>trackerTime := now, membersData := []\<rparr>"

definition getAnalyzerTimeNow :: "int \<Rightarrow> tracker \<Rightarrow> u32" where
  "getAnalyzerTimeNow now t = of_int (now - trackerTime t)"

section \<open>Who is shown in the party list\<close>

text \<open>
  \<open>near\<close> is the distance test every status update uses; \<open>status_after_move\<close> is what the
  update for a step sends for one member (nothing, or the new state of the row).
\<close>

definition near :: "int \<Rightarrow> position \<Rightarrow> position \<Rightarrow> bool" where
  "near maxDistance p q \<longleftrightarrow> getDistanceX p q \<le> maxDistance \<and> getDistanceY p q \<le> maxDistance"

definition shown :: "int \<Rightarrow> position \<Rightarrow> position \<Rightarrow> bool" where
  "shown maxDistance p q \<longleftrightarrow> maxDistance = 0 \<or> near maxDistance p q"

definition updatePlayerStatus :: "int \<Rightarrow> ('p \<Rightarrow> position) \<Rightarrow> 'p \<Rightarrow> 'p party \<Rightarrow> ('p \<times> bool) list" where
  "updatePlayerStatus maxDistance pos p g = (case m_leader g of
      None \<Rightarrow> []
    | Some l \<Rightarrow> map (\<lambda>m. (m, shown maxDistance (pos p) (pos m))) (memberList g @ [l]))"

definition status_after_move :: "int \<Rightarrow> position \<Rightarrow> position \<Rightarrow> position \<Rightarrow> bool option" where
  "status_after_move maxDistance oldPos newPos q =
     (let condition1 = near maxDistance oldPos q; condition2 = near maxDistance newPos q
      in if condition1 \<and> \<not> condition2 then Some False
         else if \<not> condition1 \<and> condition2 then Some True
         else None)"

definition updatePlayerStatus_move ::
    "int \<Rightarrow> ('p \<Rightarrow> position) \<Rightarrow> position \<Rightarrow> position \<Rightarrow> 'p party \<Rightarrow> ('p \<times> bool) list" where
  "updatePlayerStatus_move maxDistance pos oldPos newPos g = (case m_leader g of
      None \<Rightarrow> []
    | Some l \<Rightarrow>
        if maxDistance = 0 then []
        else concat (map (\<lambda>m. case status_after_move maxDistance oldPos newPos (pos m) of
            None \<Rightarrow> [] | Some b \<Rightarrow> [(m, b)]) (memberList g @ [l])))"

text \<open>
  Health, mana and vocation updates go to the members near enough, the leader last.
\<close>

definition update_receivers :: "int \<Rightarrow> ('p \<Rightarrow> position) \<Rightarrow> 'p \<Rightarrow> 'p party \<Rightarrow> 'p list" where
  "update_receivers maxDistance pos p g = (case m_leader g of
      None \<Rightarrow> []
    | Some l \<Rightarrow> filter (\<lambda>m. shown maxDistance (pos p) (pos m)) (memberList g @ [l]))"

section \<open>Prices are linear in the amounts\<close>

definition unit_price :: "prices \<Rightarrow> bool \<Rightarrow> u16 \<Rightarrow> u64" where
  "unit_price ps buyPrice itemId = getItemMarketPrice ps [(itemId, 1)] buyPrice"

fun value_of :: "(u16 \<Rightarrow> u64) \<Rightarrow> amounts \<Rightarrow> u64" where
  "value_of f [] = 0"
| "value_of f ((k, n) # m) = f k * n + value_of f m"

lemma value_of_add: "value_of f (add_amount k n m) = value_of f m + f k * n"
  by (induction k n m rule: add_amount.induct) (auto simp: algebra_simps)

lemma fold_tiers: "fold (\<lambda>(tier, price) t. t + price * n) ts (a::u64) = a + sum_list (map snd ts) * n"
  by (induction ts arbitrary: a) (auto simp: algebra_simps)

lemma market_entry_linear:
  "market_entry ps b (k, n) tot = tot + unit_price ps b k * n"
proof (cases "k = 3031 \<or> k = 3035 \<or> k = 3043")
  case True
  then show ?thesis by (auto simp: market_entry_def unit_price_def getItemMarketPrice_def)
next
  case False
  show ?thesis
  proof (cases "pr_market ps k")
    case None
    with False show ?thesis by (simp add: market_entry_def unit_price_def getItemMarketPrice_def)
  next
    case (Some tiers)
    with False fold_tiers [of 1 tiers 0] show ?thesis
      by (simp add: market_entry_def unit_price_def getItemMarketPrice_def fold_tiers)
  qed
qed

lemma market_value: "getItemMarketPrice ps m b = value_of (unit_price ps b) m"
proof -
  have "fold (market_entry ps b) m tot = tot + value_of (unit_price ps b) m" for tot
    by (induction m arbitrary: tot) (auto simp: market_entry_linear add.assoc)
  from this [of 0] show ?thesis by (simp add: getItemMarketPrice_def)
qed

lemma leader_value: "leader_total ps b m = value_of (\<lambda>k. getItemCustomPrice ps k b) m"
proof -
  have "fold (\<lambda>(k, n) tot. tot + getItemCustomPrice ps k b * n) m tot
      = tot + value_of (\<lambda>k. getItemCustomPrice ps k b) m" for tot
    by (induction m arbitrary: tot) (auto simp: add.assoc)
  from this [of 0] show ?thesis by (simp add: leader_total_def)
qed

definition price_of :: "prices \<Rightarrow> PartyAnalyzer_t \<Rightarrow> bool \<Rightarrow> u16 \<Rightarrow> u64" where
  "price_of ps pt b k = (if pt = LEADER_PRICE then getItemCustomPrice ps k b else unit_price ps b k)"

definition priced :: "prices \<Rightarrow> PartyAnalyzer_t \<Rightarrow> analyzer \<Rightarrow> bool" where
  "priced ps pt a \<longleftrightarrow> an_lootPrice a = value_of (price_of ps pt False) (an_lootMap a)
     \<and> an_supplyPrice a = value_of (price_of ps pt True) (an_supplyMap a)"

lemma price_of_unfold:
  "price_of ps MARKET_PRICE b = unit_price ps b"
  "price_of ps LEADER_PRICE b = (\<lambda>k. getItemCustomPrice ps k b)"
  by (auto simp: price_of_def)

lemma reload_priced: "priced ps pt (reload_analyzer ps pt a)"
  by (cases pt) (simp_all add: reload_analyzer_def priced_def market_value leader_value price_of_unfold)

lemma priced_reload: "priced ps pt a \<Longrightarrow> reload_analyzer ps pt a = a"
  by (cases pt) (simp_all add: reload_analyzer_def priced_def market_value leader_value price_of_unfold)

section \<open>Histories of the analyzer\<close>

datatype tracker_op =
    Loot bool u32 u16 u16 | Supply bool u32 u16 | Damage u32 u64 | Healing u32 u64
  | SwitchPrices bool | Reload bool | Reset int

fun tracker_step :: "prices \<Rightarrow> tracker_op \<Rightarrow> tracker \<Rightarrow> tracker" where
  "tracker_step ps (Loot l p i n) t = addPlayerLoot ps l p i n t"
| "tracker_step ps (Supply l p i) t = addPlayerSupply ps l p i t"
| "tracker_step ps (Damage p n) t = addPlayerDamage p n t"
| "tracker_step ps (Healing p n) t = addPlayerHealing p n t"
| "tracker_step ps (SwitchPrices l) t = switchAnalyzerPriceType ps l t"
| "tracker_step ps (Reload l) t = reloadPrices ps l t"
| "tracker_step ps (Reset now) t = resetAnalyzer now t"

definition tracker_run :: "prices \<Rightarrow> int \<Rightarrow> tracker_op list \<Rightarrow> tracker" where
  "tracker_run ps now ops = fold (tracker_step ps) ops (new_tracker now)"

lemma tracker_run_snoc: "tracker_run ps now (ops @ [x]) = tracker_step ps x (tracker_run ps now ops)"
  by (simp add: tracker_run_def)

lemma priceType_on_analyzer [simp]:
  "priceType (on_analyzer i f t) = priceType t" "priceType (ensure_analyzer i t) = priceType t"
  by (auto simp: on_analyzer_def ensure_analyzer_def Let_def split: option.split)

lemma set_change_first: "a \<in> set (change_first i f as) \<Longrightarrow> a \<in> set as \<or> (\<exists>b\<in>set as. a = f b)"
  by (induction as) (auto split: if_splits)

definition all_priced :: "prices \<Rightarrow> tracker \<Rightarrow> bool" where
  "all_priced ps t \<longleftrightarrow> (\<forall>a\<in>set (membersData t). priced ps (priceType t) a)"

lemma priced_new: "priced ps pt (new_analyzer i)"
  by (simp add: priced_def new_analyzer_def)

lemma on_analyzer_priced:
  assumes "all_priced ps t" "\<And>a. priced ps (priceType t) a \<Longrightarrow> priced ps (priceType t) (f a)"
  shows "all_priced ps (on_analyzer i f t)"
proof -
  have "all_priced ps (ensure_analyzer i t)"
    using assms(1) by (auto simp: all_priced_def ensure_analyzer_def priced_new split: option.split)
  then show ?thesis using assms(2)
    by (auto simp: all_priced_def on_analyzer_def Let_def dest!: set_change_first)
qed

lemma loot_price:
  "(if pt = LEADER_PRICE then getItemCustomPrice ps k b * n else getItemMarketPrice ps [(k, n)] b)
   = price_of ps pt b k * n"
  by (simp add: price_of_def market_value)

lemma step_priced: "all_priced ps t \<Longrightarrow> all_priced ps (tracker_step ps x t)"
proof (cases x)
  case (Loot l p i n)
  assume t: "all_priced ps t"
  show ?thesis unfolding Loot tracker_step.simps addPlayerLoot_def Let_def loot_price
    by (auto intro!: on_analyzer_priced [OF t] simp: t priced_def value_of_add)
next
  case (Supply l p i)
  assume t: "all_priced ps t"
  have one: "(if pt = LEADER_PRICE then getItemCustomPrice ps i True else getItemMarketPrice ps [(i, 1)] True)
      = price_of ps pt True i * 1" for pt by (simp add: price_of_def market_value)
  show ?thesis unfolding Supply tracker_step.simps addPlayerSupply_def one
    by (auto intro!: on_analyzer_priced [OF t] simp: t priced_def value_of_add)
next
  case (Damage p n)
  assume t: "all_priced ps t"
  show ?thesis unfolding Damage tracker_step.simps addPlayerDamage_def
    by (rule on_analyzer_priced [OF t]) (simp add: priced_def)
next
  case (Healing p n)
  assume t: "all_priced ps t"
  show ?thesis unfolding Healing tracker_step.simps addPlayerHealing_def
    by (rule on_analyzer_priced [OF t]) (simp add: priced_def)
qed (auto simp: resetAnalyzer_def switchAnalyzerPriceType_def reloadPrices_def all_priced_def reload_priced)

lemma run_priced: "all_priced ps (tracker_run ps now ops)"
proof (induction ops rule: rev_induct)
  case Nil
  show ?case by (simp add: tracker_run_def all_priced_def new_tracker_def)
next
  case (snoc x ops)
  then show ?case unfolding tracker_run_snoc by (rule step_priced)
qed

text \<open>Whatever is looted, used up, dealt, healed, switched and reset, the running prices
  of every player are what a recomputation from the recorded amounts gives (all of it
  modulo 2 to the 64): reloading the prices changes nothing.\<close>

theorem running_prices_are_exact:
  "reloadPrices ps hasLeader (tracker_run ps now ops) = tracker_run ps now ops"
proof -
  have "map (reload_analyzer ps (priceType (tracker_run ps now ops))) (membersData (tracker_run ps now ops))
      = membersData (tracker_run ps now ops)"
    using run_priced [of ps now ops] by (auto intro!: map_idI priced_reload simp: all_priced_def)
  then show ?thesis by (simp add: reloadPrices_def)
qed

section \<open>Damage and healing\<close>

fun is_reset :: "tracker_op \<Rightarrow> bool" where
  "is_reset (Reset now) = True"
| "is_reset _ = False"

definition since_reset :: "tracker_op list \<Rightarrow> tracker_op list" where
  "since_reset ops = rev (takeWhile (\<lambda>x. \<not> is_reset x) (rev ops))"

fun damage_dealt :: "u32 \<Rightarrow> tracker_op \<Rightarrow> u64" where
  "damage_dealt i (Damage p n) = (if p = i then n else 0)"
| "damage_dealt i _ = 0"

fun healing_done :: "u32 \<Rightarrow> tracker_op \<Rightarrow> u64" where
  "healing_done i (Healing p n) = (if p = i then n else 0)"
| "healing_done i _ = 0"

definition figure :: "(analyzer \<Rightarrow> u64) \<Rightarrow> u32 \<Rightarrow> tracker \<Rightarrow> u64" where
  "figure f i t = (case getPlayerPartyAnalyzerStruct i t of None \<Rightarrow> 0 | Some a \<Rightarrow> f a)"

lemma find_change_first:
  assumes "\<And>a. an_id (f a) = an_id a"
  shows "find (\<lambda>a. an_id a = j) (change_first i f as)
    = (if i = j then map_option f (find (\<lambda>a. an_id a = j) as) else find (\<lambda>a. an_id a = j) as)"
  by (induction as) (auto simp: assms)

lemma ids_change_first: "(\<And>a. an_id (f a) = an_id a) \<Longrightarrow> map an_id (change_first i f as) = map an_id as"
  by (induction as) auto

lemma find_snoc: "find P (xs @ [x]) = (case find P xs of Some y \<Rightarrow> Some y | None \<Rightarrow> if P x then Some x else None)"
  by (induction xs) auto

lemma figure_on_analyzer:
  assumes "\<And>a. an_id (f a) = an_id a" "g (new_analyzer i) = 0"
  shows "figure g j (on_analyzer i f t)
    = (if i = j then g (f (case getPlayerPartyAnalyzerStruct j t of None \<Rightarrow> new_analyzer i | Some a \<Rightarrow> a))
       else figure g j t)"
proof -
  have id: "an_id (new_analyzer k) = k" for k by (simp add: new_analyzer_def)
  show ?thesis
    by (auto simp: figure_def on_analyzer_def ensure_analyzer_def getPlayerPartyAnalyzerStruct_def Let_def
        find_change_first [OF assms(1)] find_snoc id assms(2) split: option.splits)
qed

lemma ids_on_analyzer:
  assumes "\<And>a. an_id (f a) = an_id a" "distinct (map an_id (membersData t))"
  shows "distinct (map an_id (membersData (on_analyzer i f t)))"
  using assms(2)
  by (auto simp: on_analyzer_def ensure_analyzer_def getPlayerPartyAnalyzerStruct_def Let_def
      ids_change_first [OF assms(1)] find_None_iff new_analyzer_def split: option.split)

lemma figure_add:
  assumes "\<And>a. an_id (f a) = an_id a" "\<And>a. g (f a) = g a + d" "\<And>k. g (new_analyzer k) = 0"
  shows "figure g j (on_analyzer i f t) = figure g j t + (if i = j then d else 0)"
  using figure_on_analyzer [where f = f and g = g and i = i and j = j and t = t, OF assms(1)]
  by (simp add: figure_def assms(2,3) split: option.split)

lemma figure_map:
  assumes "\<And>a. an_id (f a) = an_id a" "\<And>a. g (f a) = g a" "membersData t' = map f (membersData t)"
  shows "figure g i t' = figure g i t"
proof -
  have "find (\<lambda>a. an_id a = i) (map f as) = map_option f (find (\<lambda>a. an_id a = i) as)" for as
    by (induction as) (auto simp: assms(1))
  then show ?thesis
    by (auto simp: figure_def getPlayerPartyAnalyzerStruct_def assms(2,3) split: option.split)
qed

lemma reload_keeps [simp]:
  "an_id (reload_analyzer ps pt a) = an_id a" "an_damage (reload_analyzer ps pt a) = an_damage a"
  "an_healing (reload_analyzer ps pt a) = an_healing a"
  by (simp_all add: reload_analyzer_def)

lemma figure_step:
  assumes "\<And>pt a. g (reload_analyzer ps pt a) = g a" "\<And>k. g (new_analyzer k) = 0"
    and "\<And>m p a. g (a\<lparr>an_lootMap := m, an_lootPrice := p\<rparr>) = g a"
    and "\<And>m p a. g (a\<lparr>an_supplyMap := m, an_supplyPrice := p\<rparr>) = g a"
    and "\<And>n a. g (a\<lparr>an_damage := an_damage a + n\<rparr>) = g a + dmg n"
    and "\<And>n a. g (a\<lparr>an_healing := an_healing a + n\<rparr>) = g a + heal n"
  shows "figure g i (tracker_step ps x t) = (if is_reset x then 0 else figure g i t
    + (case x of Damage p n \<Rightarrow> if p = i then dmg n else 0 | Healing p n \<Rightarrow> if p = i then heal n else 0 | _ \<Rightarrow> 0))"
proof (cases x)
  case (Loot l p k n)
  show ?thesis unfolding Loot tracker_step.simps addPlayerLoot_def Let_def
    by (simp add: figure_add [where d = 0] assms(2,3))
next
  case (Supply l p k)
  show ?thesis unfolding Supply tracker_step.simps addPlayerSupply_def
    by (simp add: figure_add [where d = 0] assms(2,4))
next
  case (Damage p n)
  show ?thesis unfolding Damage tracker_step.simps addPlayerDamage_def
    by (simp add: figure_add [where d = "dmg n"] assms(2,5))
next
  case (Healing p n)
  show ?thesis unfolding Healing tracker_step.simps addPlayerHealing_def
    by (simp add: figure_add [where d = "heal n"] assms(2,6))
next
  case (SwitchPrices l)
  have "l \<Longrightarrow> figure g i (switchAnalyzerPriceType ps l t) = figure g i t"
    by (rule figure_map [where f = "reload_analyzer ps (if priceType t = LEADER_PRICE then MARKET_PRICE else LEADER_PRICE)"])
      (simp_all add: assms(1) switchAnalyzerPriceType_def reloadPrices_def)
  then show ?thesis by (cases l) (simp_all add: SwitchPrices switchAnalyzerPriceType_def)
next
  case (Reload l)
  have "l \<Longrightarrow> figure g i (reloadPrices ps l t) = figure g i t"
    by (rule figure_map [where f = "reload_analyzer ps (priceType t)"]) (simp_all add: assms(1) reloadPrices_def)
  then show ?thesis by (cases l) (simp_all add: Reload reloadPrices_def)
next
  case (Reset now)
  then show ?thesis by (simp add: resetAnalyzer_def figure_def getPlayerPartyAnalyzerStruct_def)
qed

lemma damage_step:
  "figure an_damage i (tracker_step ps x t) = (if is_reset x then 0 else figure an_damage i t + damage_dealt i x)"
proof -
  have "figure an_damage i (tracker_step ps x t) = (if is_reset x then 0 else figure an_damage i t
      + (case x of Damage p n \<Rightarrow> if p = i then n else 0 | Healing p n \<Rightarrow> if p = i then 0 else 0 | _ \<Rightarrow> 0))"
    by (rule figure_step) (simp_all add: new_analyzer_def)
  then show ?thesis by (cases x) simp_all
qed

lemma healing_step:
  "figure an_healing i (tracker_step ps x t) = (if is_reset x then 0 else figure an_healing i t + healing_done i x)"
proof -
  have "figure an_healing i (tracker_step ps x t) = (if is_reset x then 0 else figure an_healing i t
      + (case x of Damage p n \<Rightarrow> if p = i then 0 else 0 | Healing p n \<Rightarrow> if p = i then n else 0 | _ \<Rightarrow> 0))"
    by (rule figure_step) (simp_all add: new_analyzer_def)
  then show ?thesis by (cases x) simp_all
qed

lemma ids_step:
  assumes "distinct (map an_id (membersData t))"
  shows "distinct (map an_id (membersData (tracker_step ps x t)))"
proof -
  have map_id: "map (an_id \<circ> reload_analyzer ps pt) as = map an_id as" for pt as by simp
  show ?thesis using assms
    by (cases x) (auto simp: addPlayerLoot_def addPlayerSupply_def addPlayerDamage_def
        addPlayerHealing_def switchAnalyzerPriceType_def reloadPrices_def resetAnalyzer_def Let_def
        map_id intro!: ids_on_analyzer)
qed

lemma since_reset_snoc:
  "since_reset (ops @ [x]) = (if is_reset x then [] else since_reset ops @ [x])"
  by (simp add: since_reset_def)

text \<open>A player's damage and healing are the sums (modulo 2 to the 64) of what was reported
  for him since the last reset, whatever else happened in between; and no player has two
  entries.\<close>

theorem damage_and_healing_add_up:
  "figure an_damage i (tracker_run ps now ops) = sum_list (map (damage_dealt i) (since_reset ops))
   \<and> figure an_healing i (tracker_run ps now ops) = sum_list (map (healing_done i) (since_reset ops))
   \<and> distinct (map an_id (membersData (tracker_run ps now ops)))"
proof (induction ops rule: rev_induct)
  case Nil
  show ?case
    by (simp add: tracker_run_def figure_def getPlayerPartyAnalyzerStruct_def new_tracker_def since_reset_def)
next
  case (snoc x ops)
  then show ?case
    using ids_step [of "tracker_run ps now ops" ps x]
    by (simp add: tracker_run_snoc damage_step healing_step since_reset_snoc)
qed

section \<open>The rows of the party list\<close>

definition row_after :: "('p \<times> bool) list \<Rightarrow> ('p \<Rightarrow> bool) \<Rightarrow> 'p \<Rightarrow> bool" where
  "row_after msgs row = fold (\<lambda>(m, b) r. r(m := b)) msgs row"

lemma row_after_agree:
  "(\<And>b. (m, b) \<in> set msgs \<Longrightarrow> b = v) \<Longrightarrow> row_after msgs row m = (if m \<in> fst ` set msgs then v else row m)"
proof (induction msgs arbitrary: row)
  case Nil
  show ?case by (simp add: row_after_def)
next
  case (Cons x msgs)
  obtain k b where x: "x = (k, b)" by (cases x)
  have "row_after (x # msgs) row m = row_after msgs (row(k := b)) m" by (simp add: row_after_def x)
  also have "\<dots> = (if m \<in> fst ` set msgs then v else (row(k := b)) m)" using Cons by auto
  finally show ?case using Cons.prems by (auto simp: x)
qed

lemma status_after_move_iff:
  assumes "d \<noteq> 0"
  shows "status_after_move d p p' q = (if shown d p q = shown d p' q then None else Some (shown d p' q))"
  using assms by (auto simp: status_after_move_def shown_def Let_def)

lemma set_move:
  assumes "d \<noteq> 0" "m_leader g = Some l"
  shows "(m, b) \<in> set (updatePlayerStatus_move d pos p p' g) \<longleftrightarrow>
    m \<in> set (memberList g @ [l]) \<and> status_after_move d p p' (pos m) = Some b"
  using assms by (auto simp: updatePlayerStatus_move_def split: option.splits)

text \<open>Sending only the changes is enough: a member's row that shows whether he was near
  before a step shows, after the messages for the step, whether he is near now.\<close>

theorem steps_keep_the_party_list_right:
  assumes "m_leader g = Some l" "m \<in> set (l # memberList g)" "row m = shown d oldPos (pos m)"
  shows "row_after (updatePlayerStatus_move d pos oldPos newPos g) row m = shown d newPos (pos m)"
proof (cases "d = 0")
  case True
  then show ?thesis using assms(3) by (simp add: updatePlayerStatus_move_def row_after_def shown_def assms(1))
next
  case False
  let ?msgs = "updatePlayerStatus_move d pos oldPos newPos g"
  have m: "m \<in> set (memberList g @ [l])" using assms(2) by auto
  have msg: "(m, b) \<in> set ?msgs \<longleftrightarrow> shown d oldPos (pos m) \<noteq> shown d newPos (pos m) \<and> b = shown d newPos (pos m)" for b
    using m unfolding set_move [OF False assms(1)] status_after_move_iff [OF False] by auto
  have "m \<in> fst ` M \<longleftrightarrow> (\<exists>b. (m, b) \<in> M)" for M :: "('a \<times> bool) set" by force
  then have in_msgs: "m \<in> fst ` set ?msgs \<longleftrightarrow> shown d oldPos (pos m) \<noteq> shown d newPos (pos m)"
    by (simp only: msg) blast
  have "row_after ?msgs row m = (if m \<in> fst ` set ?msgs then shown d newPos (pos m) else row m)"
    by (rule row_after_agree) (simp only: msg)
  with assms(3) show ?thesis unfolding in_msgs by (cases "shown d oldPos (pos m) = shown d newPos (pos m)") simp_all
qed

theorem steps_keep_the_party_list_right_witness:
  "row_after (updatePlayerStatus_move 30 (\<lambda>_. Position 100 100 7) (Position 100 100 7) (Position 200 100 7)
      (w_parties sample_world 0)) (\<lambda>_. True) 2 = shown 30 (Position 200 100 7) (Position 100 100 7)"
proof -
  have two: "2 \<in> set (1 # memberList (w_parties sample_world 0))" unfolding sample_fields(3) by simp
  have here: "True = shown 30 (Position 100 100 7) (Position 100 100 7)" by code_simp
  show ?thesis
    by (rule steps_keep_the_party_list_right [where g = "w_parties sample_world 0" and l = 1 and m = 2
          and row = "\<lambda>_. True" and d = 30 and oldPos = "Position 100 100 7" and pos = "\<lambda>_. Position 100 100 7"
          and newPos = "Position 200 100 7", OF sample_fields(2) two here])
qed

text \<open>
  The market price of an item is the sum of its prices over all its tiers, also when only
  one tier was looted.
\<close>

lemma market_price_adds_tiers:
  assumes "k \<notin> {3031, 3035, 3043}" "pr_market ps k = Some tiers"
  shows "getItemMarketPrice ps [(k, n)] b = sum_list (map snd tiers) * n"
  using assms fold_tiers [of n tiers 0] by (simp add: getItemMarketPrice_def market_entry_def)

end
