(* ===== verification/KV_Value.thy ===== *)
theory KV_Value
  imports Prelude "HOL-Library.AList"
begin

text \<open>
  \<open>ValueWrapper\<close> (src/src/kv/value_wrapper.hpp and .cpp) and its conversion to and from the
  protobuf message that is stored (src/src/kv/value_wrapper_proto.cpp, message type in
  src/src/protobuf/kv.proto). A \<open>flat_hash_map\<close> is the list of its entries, in some order;
  its shared pointers are never null where the code builds them, so they are left out. A
  double is its 64 bits, an \<open>int\<close> its 32 bits.
\<close>

datatype variant =
    StringType string
  | BooleanType bool
  | IntType "32 word"
  | DoubleType u64
  | ArrayType "wrapper list"
  | MapType "(string \<times> wrapper) list"
and wrapper = Wrapper (data: variant) (getTimestamp: u64) (isDeleted: bool)

text \<open>The message: \<open>Unset\<close> is a \<open>oneof\<close> with no field set.\<close>

datatype proto =
    StrValue string
  | BoolValue bool
  | IntValue "32 word"
  | DoubleValue u64
  | ArrayValue "proto list"
  | MapValue "(string \<times> proto) list"
  | Unset

definition wrap :: "u64 \<Rightarrow> variant \<Rightarrow> u64 \<Rightarrow> wrapper" where
  "wrap now v timestamp = Wrapper v (if timestamp = 0 then now else timestamp) False"

text \<open>The value of \<open>deleted()\<close>, with the time at which the static object was built.\<close>

definition deleted :: "u64 \<Rightarrow> wrapper" where
  "deleted now = Wrapper (StringType []) now True"

fun get_key :: "string \<Rightarrow> wrapper \<Rightarrow> wrapper option" where
  "get_key k (Wrapper (MapType m) t d) = map_of m k"
| "get_key k _ = None"

fun get_index :: "nat \<Rightarrow> wrapper \<Rightarrow> wrapper option" where
  "get_index i (Wrapper (ArrayType ws) t d) = (if i < length ws then Some (ws ! i) else None)"
| "get_index i _ = None"

fun toProto :: "wrapper \<Rightarrow> proto" where
  "toProto (Wrapper (StringType s) t d) = StrValue s"
| "toProto (Wrapper (BooleanType b) t d) = BoolValue b"
| "toProto (Wrapper (IntType i) t d) = IntValue i"
| "toProto (Wrapper (DoubleType x) t d) = DoubleValue x"
| "toProto (Wrapper (ArrayType ws) t d) = ArrayValue (map toProto ws)"
| "toProto (Wrapper (MapType m) t d) = MapValue (map (\<lambda>(k, w). (k, toProto w)) m)"

text \<open>Assigning to \<open>map[key]\<close>.\<close>

definition assign_all :: "(string \<times> 'v) list \<Rightarrow> (string \<times> 'v) list" where
  "assign_all items = fold (\<lambda>(k, v). AList.update k v) items []"

fun fromProto :: "u64 \<Rightarrow> u64 \<Rightarrow> proto \<Rightarrow> wrapper" where
  "fromProto now timestamp (StrValue s) = wrap now (StringType s) timestamp"
| "fromProto now timestamp (BoolValue b) = wrap now (BooleanType b) timestamp"
| "fromProto now timestamp (IntValue i) = wrap now (IntType i) timestamp"
| "fromProto now timestamp (DoubleValue x) = wrap now (DoubleType x) timestamp"
| "fromProto now timestamp (ArrayValue ps) =
     wrap now (ArrayType (map (fromProto now timestamp) ps)) timestamp"
| "fromProto now timestamp (MapValue items) =
     wrap now (MapType (assign_all (map (\<lambda>(k, p). (k, fromProto now timestamp p)) items))) timestamp"
| "fromProto now timestamp Unset = wrap now (StringType []) timestamp"

section \<open>Round trip\<close>

text \<open>Nested maps have distinct keys, as every \<open>flat_hash_map\<close> has.\<close>

fun wf_wrapper :: "wrapper \<Rightarrow> bool" where
  "wf_wrapper (Wrapper (ArrayType ws) t d) \<longleftrightarrow> (\<forall>w \<in> set ws. wf_wrapper w)"
| "wf_wrapper (Wrapper (MapType m) t d) \<longleftrightarrow>
     distinct (map fst m) \<and> (\<forall>x \<in> set m. wf_wrapper (snd x))"
| "wf_wrapper _ \<longleftrightarrow> True"

text \<open>What the round trip forgets: all timestamps become one, and nothing is marked deleted.\<close>

fun restamp :: "u64 \<Rightarrow> wrapper \<Rightarrow> wrapper" where
  "restamp t (Wrapper (ArrayType ws) t' d) = Wrapper (ArrayType (map (restamp t) ws)) t False"
| "restamp t (Wrapper (MapType m) t' d) = Wrapper (MapType (map (\<lambda>(k, w). (k, restamp t w)) m)) t False"
| "restamp t (Wrapper v t' d) = Wrapper v t False"

fun wf_proto :: "proto \<Rightarrow> bool" where
  "wf_proto (ArrayValue ps) \<longleftrightarrow> (\<forall>p \<in> set ps. wf_proto p)"
| "wf_proto (MapValue m) \<longleftrightarrow> distinct (map fst m) \<and> (\<forall>x \<in> set m. wf_proto (snd x))"
| "wf_proto Unset \<longleftrightarrow> False"
| "wf_proto _ \<longleftrightarrow> True"

lemma update_new: "k \<notin> fst ` set m \<Longrightarrow> AList.update k v m = m @ [(k, v)]"
  by (induction m) auto

lemma assign_all_id:
  assumes "distinct (map fst m)"
  shows "assign_all m = m"
proof -
  have "fold (\<lambda>(k, v). AList.update k v) m acc = acc @ m"
    if "distinct (map fst (acc @ m))" for acc
    using that by (induction m arbitrary: acc) (auto simp: update_new)
  from this [of "[]"] assms show ?thesis by (simp add: assign_all_def)
qed

lemma pairs_comp [simp]:
  "fst \<circ> (\<lambda>(k, v). (k, f v)) = fst"
  "(\<lambda>(k, v). (k, f v)) \<circ> (\<lambda>(k, v). (k, g v)) = (\<lambda>(k, v). (k, f (g v)))"
  by (auto simp: fun_eq_iff)

lemma pairs_cong: "(\<And>k v. (k, v) \<in> set m \<Longrightarrow> f v = g v) \<Longrightarrow>
  map (\<lambda>(k, v). (k, f v)) m = map (\<lambda>(k, v). (k, g v)) m"
  by auto

lemma assign_all_pairs: "distinct (map fst m) \<Longrightarrow>
  assign_all (map (\<lambda>(k, v). (k, f v)) m) = map (\<lambda>(k, v). (k, f v)) m"
  by (rule assign_all_id) simp

lemma fromProto_toProto:
  "wf_wrapper w \<Longrightarrow> fromProto now timestamp (toProto w) = restamp (if timestamp = 0 then now else timestamp) w"
proof (induction w rule: toProto.induct)
  case (5 ws t d)
  then show ?case by (simp add: wrap_def)
next
  case (6 m t d)
  let ?s = "if timestamp = 0 then now else timestamp"
  have "map (\<lambda>(k, w). (k, fromProto now timestamp (toProto w))) m = map (\<lambda>(k, w). (k, restamp ?s w)) m"
    using 6 by (intro pairs_cong) fastforce
  with 6(2) show ?case by (simp add: wrap_def assign_all_pairs)
qed (simp_all add: wrap_def)

lemma toProto_restamp [simp]: "toProto (restamp t w) = toProto w"
  by (induction w rule: toProto.induct) auto

lemma wf_restamp [simp]: "wf_wrapper (restamp t w) = wf_wrapper w"
proof (induction w rule: wf_wrapper.induct)
  case (2 m t d)
  then show ?case by (force simp: Ball_def)
qed auto

lemma wf_toProto: "wf_wrapper w \<Longrightarrow> wf_proto (toProto w)"
proof (induction w rule: toProto.induct)
  case (6 m t d)
  then have "wf_proto (toProto v)" if "(k, v) \<in> set m" for k v
    using that by (metis snd_conv wf_wrapper.simps(2))
  with 6(2) show ?case by auto
qed auto

lemma toProto_fromProto: "wf_proto p \<Longrightarrow> toProto (fromProto now timestamp p) = p"
proof (induction p rule: wf_proto.induct)
  case (1 ps)
  then show ?case by (simp add: wrap_def map_idI)
next
  case (2 m)
  have "map (\<lambda>(k, p). (k, toProto (fromProto now timestamp p))) m = m"
    using 2 by (intro map_idI) fastforce
  with 2(2) show ?case by (simp add: wrap_def assign_all_pairs)
qed (simp_all add: wrap_def)

lemma wf_fromProto: "wf_proto p \<Longrightarrow> wf_wrapper (fromProto now timestamp p)"
proof (induction p rule: wf_proto.induct)
  case (2 m)
  then have "wf_wrapper (fromProto now timestamp v)" if "(k, v) \<in> set m" for k v
    using that by (metis snd_conv wf_proto.simps(2))
  with 2(2) show ?case by (auto simp: wrap_def assign_all_pairs)
qed (auto simp: wrap_def)

lemma fromProto_meta [simp]:
  "isDeleted (fromProto now timestamp p) = False"
  "getTimestamp (fromProto now timestamp p) = (if timestamp = 0 then now else timestamp)"
  by (cases p; simp add: wrap_def)+

text \<open>
  A stored value survives the trip through the database message: what comes back from a
  wrapper with well-formed maps is the same tree of strings, numbers, arrays and maps, with
  every time stamp in it replaced by the row's; and saving what was loaded writes the same
  message again.
\<close>
theorem value_survives_storage:
  assumes "wf_wrapper w" "timestamp \<noteq> 0"
  shows "fromProto now timestamp (toProto w) = restamp timestamp w
    \<and> toProto (fromProto now timestamp (toProto w)) = toProto w"
  using fromProto_toProto [OF assms(1), of now timestamp] toProto_fromProto [OF wf_toProto [OF assms(1)]] assms(2)
  by simp

theorem value_survives_storage_witness:
  "fromProto 7 5 (toProto (Wrapper (MapType [(''a'', Wrapper (IntType 3) 1 False),
      (''b'', Wrapper (ArrayType [Wrapper (BooleanType True) 2 False]) 4 False)]) 9 False))
   = Wrapper (MapType [(''a'', Wrapper (IntType 3) 5 False),
      (''b'', Wrapper (ArrayType [Wrapper (BooleanType True) 5 False]) 5 False)]) 5 False"
  using value_survives_storage [of "Wrapper (MapType [(''a'', Wrapper (IntType 3) 1 False),
      (''b'', Wrapper (ArrayType [Wrapper (BooleanType True) 2 False]) 4 False)]) 9 False" 5 7] by simp

end
