(* ===== verification/KV_Codec.thy ===== *)
theory KV_Codec
  imports KV_Value
begin

text \<open>
  A serialisation of messages that satisfies the hypothesis of the key-value store: a tag
  byte, counts in unary, strings and integers as bytes. It stands in for protobuf's in the
  examples; the library's theorems hold for any that can be undone.
\<close>

definition enc_count :: "nat \<Rightarrow> u8 list" where
  "enc_count n = replicate n 1 @ [0]"

definition enc_string :: "string \<Rightarrow> u8 list" where
  "enc_string s = enc_count (length s) @ map (\<lambda>c. of_nat (of_char c :: nat)) s"

fun enc :: "proto \<Rightarrow> u8 list" where
  "enc (StrValue s) = 0 # enc_string s"
| "enc (BoolValue b) = [1, if b then 1 else 0]"
| "enc (IntValue i) = 2 # le_bytes 4 i"
| "enc (DoubleValue x) = 3 # le_bytes 8 x"
| "enc (ArrayValue ps) = 4 # enc_count (length ps) @ concat (map enc ps)"
| "enc (MapValue m) = 5 # enc_count (length m) @ concat (map (\<lambda>(k, p). enc_string k @ enc p) m)"
| "enc Unset = [6]"

fun dec_count :: "u8 list \<Rightarrow> (nat \<times> u8 list) option" where
  "dec_count [] = None"
| "dec_count (b # bs) =
     (if b = 0 then Some (0, bs) else map_option (\<lambda>(n, r). (Suc n, r)) (dec_count bs))"

definition dec_string :: "u8 list \<Rightarrow> (string \<times> u8 list) option" where
  "dec_string bs = (case dec_count bs of
      None \<Rightarrow> None
    | Some (n, r) \<Rightarrow> if length r < n then None else Some (map (\<lambda>b. char_of (unat b)) (take n r), drop n r))"

fun dec_list :: "(u8 list \<Rightarrow> ('a \<times> u8 list) option) \<Rightarrow> nat \<Rightarrow> u8 list \<Rightarrow> ('a list \<times> u8 list) option" where
  "dec_list f 0 bs = Some ([], bs)"
| "dec_list f (Suc n) bs = (case f bs of
      None \<Rightarrow> None
    | Some (x, r) \<Rightarrow> map_option (\<lambda>(xs, r'). (x # xs, r')) (dec_list f n r))"

definition dec_pair :: "(u8 list \<Rightarrow> ('a \<times> u8 list) option) \<Rightarrow> u8 list \<Rightarrow> ((string \<times> 'a) \<times> u8 list) option" where
  "dec_pair f bs = (case dec_string bs of
      None \<Rightarrow> None
    | Some (k, r) \<Rightarrow> map_option (\<lambda>(p, r'). ((k, p), r')) (f r))"

fun dec :: "nat \<Rightarrow> u8 list \<Rightarrow> (proto \<times> u8 list) option" where
  "dec 0 bs = None"
| "dec (Suc fuel) [] = None"
| "dec (Suc fuel) (t # bs) =
     (if t = 0 then map_option (\<lambda>(s, r). (StrValue s, r)) (dec_string bs)
      else if t = 1 then (case bs of [] \<Rightarrow> None | b # r \<Rightarrow> Some (BoolValue (b = 1), r))
      else if t = 2 then Some (IntValue (le_word (take 4 bs)), drop 4 bs)
      else if t = 3 then Some (DoubleValue (le_word (take 8 bs)), drop 8 bs)
      else if t = 4 then (case dec_count bs of
          None \<Rightarrow> None
        | Some (n, r) \<Rightarrow> map_option (\<lambda>(ps, r'). (ArrayValue ps, r')) (dec_list (dec fuel) n r))
      else if t = 5 then (case dec_count bs of
          None \<Rightarrow> None
        | Some (n, r) \<Rightarrow> map_option (\<lambda>(m, r'). (MapValue m, r')) (dec_list (dec_pair (dec fuel)) n r))
      else Some (Unset, bs))"

lemma dec_enc_count [simp]: "dec_count (enc_count n @ r) = Some (n, r)"
  by (induction n) (auto simp: enc_count_def)

lemma dec_enc_string [simp]: "dec_string (enc_string s @ r) = Some (s, r)"
proof -
  have "char_of (unat (of_nat (of_char c :: nat) :: u8)) = c" for c :: char
  proof -
    have "(of_char c :: nat) < 256" by simp
    then have "unat (of_nat (of_char c :: nat) :: u8) = of_char c" by (simp add: unat_of_nat)
    then show ?thesis by simp
  qed
  then have "map ((\<lambda>b. char_of (unat b)) \<circ> (\<lambda>c. of_nat (of_char c :: nat) :: u8)) s = s"
    by (induction s) simp_all
  then show ?thesis by (simp add: dec_string_def enc_string_def)
qed

lemma dec_list_enc:
  "(\<And>x r. x \<in> set xs \<Longrightarrow> f (e x @ r) = Some (x, r)) \<Longrightarrow>
   dec_list f (length xs) (concat (map e xs) @ r) = Some (xs, r)"
  by (induction xs) auto

lemma dec_enc: "length (enc p) \<le> fuel \<Longrightarrow> dec fuel (enc p @ r) = Some (p, r)"
proof (induction p arbitrary: fuel r)
  case (ArrayValue ps)
  then obtain n where n: "fuel = Suc n" by (cases fuel) auto
  have "dec n (enc p @ r') = Some (p, r')" if "p \<in> set ps" for p r'
  proof (rule ArrayValue.IH [OF that])
    have "length (enc p) \<le> sum_list (map (length \<circ> enc) ps)" using that by (intro member_le_sum_list) auto
    then show "length (enc p) \<le> n" using ArrayValue.prems n by (simp add: length_concat comp_def)
  qed
  then show ?case using n by (simp add: dec_list_enc)
next
  case (MapValue m)
  then obtain n where n: "fuel = Suc n" by (cases fuel) auto
  have "dec_pair (dec n) ((case x of (k, p) \<Rightarrow> enc_string k @ enc p) @ r') = Some (x, r')" if "x \<in> set m" for x r'
  proof -
    obtain k p where x: "x = (k, p)" by (cases x)
    have "length (enc_string k @ enc p) \<le> sum_list (map (\<lambda>y. length (case y of (k, p) \<Rightarrow> enc_string k @ enc p)) m)"
      using that x by (intro member_le_sum_list) (force, simp)
    then have "length (enc p) \<le> n" using MapValue.prems n by (simp add: length_concat comp_def)
    then show ?thesis using MapValue.IH [of x p n r'] that x by (simp add: dec_pair_def)
  qed
  then show ?case using n by (simp add: dec_list_enc)
next
  case (IntValue i)
  then show ?case by (cases fuel) simp_all
next
  case (DoubleValue x)
  then show ?case by (cases fuel) simp_all
qed (auto simp: Suc_le_length_iff dest!: Suc_le_D)

lemma dec_whole: "dec (length (enc p)) (enc p) = Some (p, [])"
  using dec_enc [of p "length (enc p)" "[]"] by simp

end
