(* ===== verification/KV_Store.thy ===== *)
theory KV_Store
  imports KV_Codec "HOL-Library.Sublist"
begin

text \<open>
  \<open>KVStore\<close>, \<open>KVSQL\<close> and \<open>ScopedKV\<close> (src/src/kv/kv.hpp, kv.cpp, kv_sql.cpp): a write-back
  cache with least-recently-used eviction over the table \<open>kv_store\<close>. The hash map is an
  association list; the list of keys is a \<open>std::list\<close> whose iterators the map holds, so its
  nodes carry identities. Serialisation of messages, the clock, whether the database executes
  statements and which keys its column \<open>key_name\<close> takes for the same (\<open>kv_norm\<close> maps those to
  one string; the column of schema.sql ignores case) are parameters; so is \<open>MAX_SIZE\<close> (\<open>cap\<close>,
  a million in the code).
  Locking and logging are left out. \<open>None\<close> is undefined behaviour (stepping back from the
  end of an empty list).
\<close>

type_synonym row = "u64 \<times> u8 list"

record kvs =
  kv_map :: "(string \<times> (wrapper \<times> nat)) list"
  lruQueue :: "(nat \<times> string) list"
  next_node :: nat
  db_rows :: "(string \<times> row) list"

record kv_env =
  kv_ser :: "proto \<Rightarrow> u8 list option"
  kv_par :: "u8 list \<Rightarrow> proto option"
  kv_now :: u64
  kv_db_ok :: bool
  kv_commit_ok :: bool
  kv_norm :: "string \<Rightarrow> string"

section \<open>The table\<close>

text \<open>The statements SELECT, DELETE and INSERT with ON DUPLICATE KEY UPDATE of all columns.\<close>

definition column :: "kv_env \<Rightarrow> (string \<times> row) list \<Rightarrow> (string \<times> row) list" where
  "column env db = map (\<lambda>(k, r). (kv_norm env k, r)) db"

definition select_row :: "kv_env \<Rightarrow> (string \<times> row) list \<Rightarrow> string \<Rightarrow> row option" where
  "select_row env db key = map_of (column env db) (kv_norm env key)"

definition delete_row :: "kv_env \<Rightarrow> string \<Rightarrow> (string \<times> row) list \<Rightarrow> (string \<times> row) list" where
  "delete_row env key db = filter (\<lambda>(k, r). kv_norm env k \<noteq> kv_norm env key) db"

fun upsert_row :: "kv_env \<Rightarrow> string \<times> row \<Rightarrow> (string \<times> row) list \<Rightarrow> (string \<times> row) list" where
  "upsert_row env kr [] = [kr]"
| "upsert_row env kr ((k, r) # db) =
     (if kv_norm env k = kv_norm env (fst kr) then kr # db else (k, r) # upsert_row env kr db)"

definition kv_load :: "kv_env \<Rightarrow> string \<Rightarrow> kvs \<Rightarrow> wrapper option" where
  "kv_load env key s =
     (if \<not> kv_db_ok env then None
      else case select_row env (db_rows s) key of
          None \<Rightarrow> None
        | Some (timestamp, bytes) \<Rightarrow>
            map_option (fromProto (kv_now env) timestamp) (kv_par env bytes))"

text \<open>\<open>prepareSave\<close> deletes at once and collects the rows to insert.\<close>

definition prepareSave ::
    "kv_env \<Rightarrow> string \<Rightarrow> wrapper \<Rightarrow> (string \<times> row) list \<times> (string \<times> row) list
      \<Rightarrow> bool \<times> (string \<times> row) list \<times> (string \<times> row) list" where
  "prepareSave env key w = (\<lambda>(rows, db). case kv_ser env (toProto w) of
      None \<Rightarrow> (False, rows, db)
    | Some bytes \<Rightarrow>
        if isDeleted w
        then (if kv_db_ok env then (True, rows, delete_row env key db) else (False, rows, db))
        else (True, rows @ [(key, getTimestamp w, bytes)], db))"

definition insert_execute ::
    "kv_env \<Rightarrow> (string \<times> row) list \<Rightarrow> (string \<times> row) list \<Rightarrow> bool \<times> (string \<times> row) list" where
  "insert_execute env rows db =
     (if rows = [] then (True, db)
      else if kv_db_ok env then (True, fold (upsert_row env) rows db)
      else (False, db))"

definition kv_save :: "kv_env \<Rightarrow> string \<Rightarrow> wrapper \<Rightarrow> (string \<times> row) list \<Rightarrow> bool \<times> (string \<times> row) list" where
  "kv_save env key w db = (case prepareSave env key w ([], db) of
      (_, rows, db') \<Rightarrow> insert_execute env rows db')"

fun prepare_all ::
    "kv_env \<Rightarrow> (string \<times> (wrapper \<times> nat)) list \<Rightarrow> (string \<times> row) list \<times> (string \<times> row) list
      \<Rightarrow> bool \<times> (string \<times> row) list \<times> (string \<times> row) list" where
  "prepare_all env [] acc = (True, acc)"
| "prepare_all env ((key, (w, n)) # entries) acc = (case prepareSave env key w acc of
      (False, acc') \<Rightarrow> (False, acc')
    | (True, acc') \<Rightarrow> prepare_all env entries acc')"

text \<open>
  \<open>saveAll\<close>. \<open>DBTransaction::executeWithinTransaction\<close> runs the body before it begins the
  transaction, and answers true when the body reports failure.
\<close>

definition saveAll :: "kv_env \<Rightarrow> kvs \<Rightarrow> bool \<times> kvs" where
  "saveAll env s = (case prepare_all env (kv_map s) ([], db_rows s) of
      (False, _, db) \<Rightarrow> (True, s\<lparr>db_rows := db\<rparr>)
    | (True, rows, db) \<Rightarrow> (case insert_execute env rows db of
        (ok, db') \<Rightarrow> (if ok then kv_commit_ok env else True, s\<lparr>db_rows := db'\<rparr>)))"

section \<open>The cache\<close>

definition splice_front :: "nat \<Rightarrow> (nat \<times> string) list \<Rightarrow> (nat \<times> string) list" where
  "splice_front n q = filter (\<lambda>x. fst x = n) q @ filter (\<lambda>x. fst x \<noteq> n) q"

definition splice_back :: "nat \<Rightarrow> (nat \<times> string) list \<Rightarrow> (nat \<times> string) list" where
  "splice_back n q = filter (\<lambda>x. fst x \<noteq> n) q @ filter (\<lambda>x. fst x = n) q"

text \<open>
  Eviction: \<open>store_[*last]\<close> on a key that is not in the map creates an entry with a
  default value, which is then saved.
\<close>

definition evict :: "kv_env \<Rightarrow> kvs \<Rightarrow> kvs option" where
  "evict env s =
     (if lruQueue s = [] then None
      else
        let key = snd (last (lruQueue s));
            w = (case map_of (kv_map s) key of
                Some (w, n) \<Rightarrow> w
              | None \<Rightarrow> wrap (kv_now env) (StringType []) 0)
        in Some (s\<lparr>db_rows := snd (kv_save env key w (db_rows s)),
             kv_map := AList.delete key (kv_map s), lruQueue := butlast (lruQueue s)\<rparr>))"

definition setLocked :: "nat \<Rightarrow> kv_env \<Rightarrow> string \<Rightarrow> wrapper \<Rightarrow> kvs \<Rightarrow> kvs option" where
  "setLocked cap env key value s = (case map_of (kv_map s) key of
      Some (w, n) \<Rightarrow>
        Some (s\<lparr>kv_map := AList.update key (value, n) (kv_map s), lruQueue := splice_front n (lruQueue s)\<rparr>)
    | None \<Rightarrow>
        (case if length (kv_map s) \<ge> cap then evict env s else Some s of
          None \<Rightarrow> None
        | Some s1 \<Rightarrow> Some (s1\<lparr>lruQueue := (next_node s1, key) # lruQueue s1,
              kv_map := AList.update key (value, next_node s1) (kv_map s1),
              next_node := Suc (next_node s1)\<rparr>)))"

definition kv_get :: "nat \<Rightarrow> kv_env \<Rightarrow> bool \<Rightarrow> string \<Rightarrow> kvs \<Rightarrow> (wrapper option \<times> kvs) option" where
  "kv_get cap env forceLoad key s =
     (case (if forceLoad then None else map_of (kv_map s) key) of
        None \<Rightarrow> (case kv_load env key s of
            None \<Rightarrow> Some (None, s)
          | Some value \<Rightarrow> map_option (\<lambda>s'. (Some value, s')) (setLocked cap env key value s))
      | Some (w, n) \<Rightarrow>
          if isDeleted w then Some (None, s\<lparr>lruQueue := splice_back n (lruQueue s)\<rparr>)
          else Some (Some w, s\<lparr>lruQueue := splice_front n (lruQueue s)\<rparr>))"

definition kv_remove :: "nat \<Rightarrow> kv_env \<Rightarrow> u64 \<Rightarrow> string \<Rightarrow> kvs \<Rightarrow> kvs option" where
  "kv_remove cap env built key = setLocked cap env key (deleted built)"

definition kv_flush :: "kv_env \<Rightarrow> kvs \<Rightarrow> kvs" where
  "kv_flush env s = (snd (saveAll env s))\<lparr>kv_map := []\<rparr>"

definition buildKey :: "string \<Rightarrow> string \<Rightarrow> string" where
  "buildKey pre key = pre @ ''.'' @ key"

section \<open>Listing keys\<close>

fun find_from :: "string \<Rightarrow> nat \<Rightarrow> string \<Rightarrow> nat option" where
  "find_from sought i [] = (if i = 0 \<and> sought = [] then Some 0 else None)"
| "find_from sought (Suc i) (c # str) = map_option Suc (find_from sought i str)"
| "find_from sought 0 (c # str) =
     (if prefix sought (c # str) then Some 0 else map_option Suc (find_from sought 0 str))"

text \<open>
  \<open>replaceString\<close> of src/src/utils/tools.cpp; \<open>None\<close> is a loop that does not end.
\<close>

partial_function (option) replace_loop :: "string \<Rightarrow> string \<Rightarrow> nat \<Rightarrow> string \<Rightarrow> string option" where
  "replace_loop sought replacement startPos str = (case find_from sought startPos str of
      None \<Rightarrow> Some str
    | Some p \<Rightarrow> replace_loop sought replacement (p + length replacement)
        (take p str @ replacement @ drop (p + length sought) str))"

definition replaceString :: "string \<Rightarrow> string \<Rightarrow> string \<Rightarrow> string option" where
  "replaceString str sought replacement =
     (if str = [] then Some str else replace_loop sought replacement 0 str)"

text \<open>\<open>like\<close> is the database's comparison of a key with a pattern.\<close>

definition loadPrefix ::
    "(string \<Rightarrow> string \<Rightarrow> bool) \<Rightarrow> kv_env \<Rightarrow> string \<Rightarrow> kvs \<Rightarrow> string list option" where
  "loadPrefix like env pre s =
     (if \<not> kv_db_ok env then Some []
      else those (map (\<lambda>(k, r). replaceString k pre []) (filter (\<lambda>(k, r). like k (pre @ ''%'')) (db_rows s))))"

definition kv_keys ::
    "(string \<Rightarrow> string \<Rightarrow> bool) \<Rightarrow> kv_env \<Rightarrow> string \<Rightarrow> kvs \<Rightarrow> string set option" where
  "kv_keys like env pre s =
     map_option (\<lambda>loaded. {drop (length pre) k | k. k \<in> fst ` set (kv_map s) \<and> prefix pre k} \<union> set loaded)
       (loadPrefix like env pre s)"

section \<open>The cache is transparent\<close>

definition env_ok :: "kv_env \<Rightarrow> bool" where
  "env_ok env \<longleftrightarrow> kv_db_ok env
     \<and> (\<forall>p. wf_proto p \<longrightarrow> (\<exists>bytes. kv_ser env p = Some bytes \<and> kv_par env bytes = Some p))"

definition stored :: "wrapper \<Rightarrow> proto option" where
  "stored w = (if isDeleted w then None else Some (toProto w))"

definition row_view :: "kv_env \<Rightarrow> (string \<times> row) list \<Rightarrow> string \<Rightarrow> proto option" where
  "row_view env db k = (case select_row env db k of None \<Rightarrow> None | Some (timestamp, bytes) \<Rightarrow> kv_par env bytes)"

definition view :: "kv_env \<Rightarrow> kvs \<Rightarrow> string \<Rightarrow> proto option" where
  "view env s k = (case map_of (kv_map s) k of
      Some (w, n) \<Rightarrow> stored w
    | None \<Rightarrow> row_view env (db_rows s) k)"

text \<open>The same for the keys of a set \<open>K\<close> that the column tells apart.\<close>

definition row_in :: "kv_env \<Rightarrow> string set \<Rightarrow> (string \<times> row) list \<Rightarrow> string \<Rightarrow> proto option" where
  "row_in env K db = row_view env db |` K"

definition view_in :: "kv_env \<Rightarrow> string set \<Rightarrow> kvs \<Rightarrow> string \<Rightarrow> proto option" where
  "view_in env K s k = (case map_of (kv_map s) k of
      Some (w, n) \<Rightarrow> stored w
    | None \<Rightarrow> row_in env K (db_rows s) k)"

definition rows_ok :: "kv_env \<Rightarrow> (string \<times> row) list \<Rightarrow> bool" where
  "rows_ok env db \<longleftrightarrow> (\<forall>k timestamp bytes. map_of (column env db) k = Some (timestamp, bytes) \<longrightarrow>
     (\<exists>p. kv_par env bytes = Some p \<and> wf_proto p))"

definition kv_inv :: "nat \<Rightarrow> kv_env \<Rightarrow> string set \<Rightarrow> kvs \<Rightarrow> bool" where
  "kv_inv cap env K s \<longleftrightarrow>
     distinct (map fst (kv_map s)) \<and> distinct (map fst (lruQueue s))
     \<and> (\<forall>n k. (n, k) \<in> set (lruQueue s) \<longleftrightarrow> (\<exists>w. map_of (kv_map s) k = Some (w, n)))
     \<and> (\<forall>x \<in> set (lruQueue s). fst x < next_node s)
     \<and> (\<forall>k w n. map_of (kv_map s) k = Some (w, n) \<longrightarrow> wf_wrapper w)
     \<and> rows_ok env (db_rows s) \<and> length (kv_map s) \<le> cap
     \<and> inj_on (kv_norm env) K \<and> fst ` set (kv_map s) \<subseteq> K"

lemma kv_invD:
  assumes "kv_inv cap env K s"
  shows "distinct (map fst (kv_map s))" "distinct (map fst (lruQueue s))"
    and "(n, k) \<in> set (lruQueue s) \<longleftrightarrow> (\<exists>w. map_of (kv_map s) k = Some (w, n))"
    and "(n, k) \<in> set (lruQueue s) \<Longrightarrow> n < next_node s"
    and "map_of (kv_map s) k = Some (w, n) \<Longrightarrow> wf_wrapper w"
    and "rows_ok env (db_rows s)" "length (kv_map s) \<le> cap"
    and "inj_on (kv_norm env) K" "fst ` set (kv_map s) \<subseteq> K"
proof -
  note inv = assms [unfolded kv_inv_def]
  show "distinct (map fst (kv_map s))" using inv by (elim conjE)
  show "distinct (map fst (lruQueue s))" using inv by (elim conjE)
  show "rows_ok env (db_rows s)" using inv by (elim conjE)
  show "length (kv_map s) \<le> cap" using inv by (elim conjE)
  show "inj_on (kv_norm env) K" using inv by (elim conjE)
  show "fst ` set (kv_map s) \<subseteq> K" using inv by (elim conjE)
  show "(n, k) \<in> set (lruQueue s) \<longleftrightarrow> (\<exists>w. map_of (kv_map s) k = Some (w, n))"
    using inv by (elim conjE) (erule allE, erule allE, assumption)
  show "n < next_node s" if "(n, k) \<in> set (lruQueue s)"
    using inv that by (elim conjE) (drule (1) bspec, simp)
  show "wf_wrapper w" if "map_of (kv_map s) k = Some (w, n)" using inv that by (elim conjE) blast
qed

lemma kv_invI:
  assumes "distinct (map fst (kv_map s))" "distinct (map fst (lruQueue s))"
    and "\<And>n k. (n, k) \<in> set (lruQueue s) \<longleftrightarrow> (\<exists>w. map_of (kv_map s) k = Some (w, n))"
    and "\<And>n k. (n, k) \<in> set (lruQueue s) \<Longrightarrow> n < next_node s"
    and "\<And>k w n. map_of (kv_map s) k = Some (w, n) \<Longrightarrow> wf_wrapper w"
    and "rows_ok env (db_rows s)" "length (kv_map s) \<le> cap"
    and "inj_on (kv_norm env) K" "fst ` set (kv_map s) \<subseteq> K"
  shows "kv_inv cap env K s"
  unfolding kv_inv_def by (intro conjI allI ballI impI assms(1-3,6-9)) (use assms(4,5) in \<open>auto simp: prod_eq_iff\<close>)

lemma length_update_old: "k \<in> fst ` set m \<Longrightarrow> length (AList.update k v m) = length m"
  by (induction m) auto

lemma length_delete: "distinct (map fst m) \<Longrightarrow> k \<in> fst ` set m \<Longrightarrow> Suc (length (AList.delete k m)) = length m"
proof (induction m)
  case (Cons x m)
  have "AList.delete k m = m" if "k \<notin> fst ` set m"
    using that by (simp add: delete_id)
  with Cons show ?case by (cases x) (auto simp: AList.delete_eq)
qed simp

lemma column_update: "map_of (column env (upsert_row env (k, r) db)) = (map_of (column env db))(kv_norm env k \<mapsto> r)"
  by (induction env "(k, r)" db rule: upsert_row.induct) (auto simp: column_def)

lemma column_delete: "map_of (column env (delete_row env k db)) = (map_of (column env db))(kv_norm env k := None)"
  by (induction db) (auto simp: column_def delete_row_def fun_eq_iff)

lemma row_in_column:
  assumes "inj_on (kv_norm env) K" "k \<in> K"
    and "map_of (column env db') = (map_of (column env db))(kv_norm env k := r)"
  shows "row_in env K db' = (row_in env K db)(k := (case r of None \<Rightarrow> None | Some (t, b) \<Rightarrow> kv_par env b))"
proof
  fix j
  have "j \<in> K \<Longrightarrow> j \<noteq> k \<Longrightarrow> kv_norm env j \<noteq> kv_norm env k" using assms(1,2) by (auto simp: inj_on_def)
  then show "row_in env K db' j = ((row_in env K db)(k := (case r of None \<Rightarrow> None | Some (t, b) \<Rightarrow> kv_par env b))) j"
    using assms(2) by (cases "j \<in> K") (auto simp: row_in_def row_view_def select_row_def assms(3) restrict_map_def)
qed

lemma kv_save_ok:
  assumes "env_ok env" "wf_wrapper w" "inj_on (kv_norm env) K" "k \<in> K"
  shows "row_in env K (snd (kv_save env k w db)) = (row_in env K db)(k := stored w)"
    and "rows_ok env db \<Longrightarrow> rows_ok env (snd (kv_save env k w db))"
proof -
  obtain bytes where b: "kv_ser env (toProto w) = Some bytes" "kv_par env bytes = Some (toProto w)"
    using assms wf_toProto unfolding env_ok_def by blast
  have ok: "kv_db_ok env" using assms(1) by (simp add: env_ok_def)
  have db: "snd (kv_save env k w db) =
      (if isDeleted w then delete_row env k db else upsert_row env (k, getTimestamp w, bytes) db)"
    by (simp add: kv_save_def prepareSave_def insert_execute_def b ok)
  show "row_in env K (snd (kv_save env k w db)) = (row_in env K db)(k := stored w)"
    unfolding db using row_in_column [OF assms(3,4) column_delete] row_in_column [OF assms(3,4) column_update]
    by (simp add: stored_def b)
  show "rows_ok env (snd (kv_save env k w db))" if "rows_ok env db"
    using that b(2) wf_toProto [OF assms(2)]
    unfolding db by (auto simp: rows_ok_def column_update column_delete)
qed

lemma evict_ok:
  assumes "env_ok env" "kv_inv cap env K s" "kv_map s \<noteq> []"
  shows "\<exists>s'. evict env s = Some s' \<and> kv_inv cap env K s' \<and> view_in env K s' = view_in env K s
    \<and> length (kv_map s') < length (kv_map s) \<and> next_node s' = next_node s"
proof -
  note I = kv_invD [OF assms(2)]
  obtain k0 w0 n0 where "(k0, (w0, n0)) \<in> set (kv_map s)" using assms(3) by (cases "kv_map s") auto
  then have "(n0, k0) \<in> set (lruQueue s)" using I(1,3) by auto
  then have ne: "lruQueue s \<noteq> []" by auto
  obtain n k where l: "last (lruQueue s) = (n, k)" by (cases "last (lruQueue s)")
  have q: "lruQueue s = butlast (lruQueue s) @ [(n, k)]" using ne l by (metis append_butlast_last_id)
  have nk: "(n, k) \<in> set (lruQueue s)" using ne l last_in_set by metis
  then obtain w where w: "map_of (kv_map s) k = Some (w, n)" using I(3) by blast
  have in_K: "k \<in> K" using I(9) w by (force dest: map_of_SomeD)
  define s' where "s' = s\<lparr>db_rows := snd (kv_save env k w (db_rows s)),
    kv_map := AList.delete k (kv_map s), lruQueue := butlast (lruQueue s)\<rparr>"
  have ev: "evict env s = Some s'" using ne l w by (simp add: evict_def Let_def s'_def)
  have qs: "(m, j) \<in> set (butlast (lruQueue s)) \<longleftrightarrow> (m, j) \<in> set (lruQueue s) \<and> m \<noteq> n" for m j
  proof -
    have "distinct (map fst (butlast (lruQueue s) @ [(n, k)]))" using I(2) q by simp
    then have "n \<notin> fst ` set (butlast (lruQueue s))" by simp
    moreover have "set (lruQueue s) = insert (n, k) (set (butlast (lruQueue s)))" by (subst q) simp
    ultimately show ?thesis by force
  qed
  have "kv_inv cap env K s'"
  proof (rule kv_invI)
    show "distinct (map fst (kv_map s'))" using I(1) by (simp add: s'_def distinct_delete)
    show "distinct (map fst (lruQueue s'))" using I(2) by (simp add: s'_def map_butlast distinct_butlast)
    fix m j
    have "map_of (kv_map s') j = (if j = k then None else map_of (kv_map s) j)"
      by (simp add: s'_def delete_conv')
    moreover have "m = n \<Longrightarrow> (m, j) \<in> set (lruQueue s) \<Longrightarrow> j = k"
      using I(2) nk by (metis eq_key_imp_eq_value)
    ultimately show "((m, j) \<in> set (lruQueue s')) \<longleftrightarrow> (\<exists>w. map_of (kv_map s') j = Some (w, m))"
      using I(3) [of m j] w by (auto simp: s'_def qs)
    show "m < next_node s'" if "(m, j) \<in> set (lruQueue s')" using that I(4) [of m j] by (simp add: s'_def qs)
    show "wf_wrapper v" if "map_of (kv_map s') j = Some (v, m)" for v
      using that I(5) by (auto simp: s'_def delete_conv' split: if_splits)
    show "rows_ok env (db_rows s')" using kv_save_ok(2) [OF assms(1) I(5) [OF w] I(8) in_K I(6)] by (simp add: s'_def)
    show "length (kv_map s') \<le> cap" using I(7) length_delete_le [of k "kv_map s"] by (simp add: s'_def)
    show "fst ` set (kv_map s') \<subseteq> K" using I(9) by (auto simp: s'_def AList.delete_eq)
  qed (rule I(8))
  moreover have "view_in env K s' = view_in env K s"
    using w by (auto simp: view_in_def s'_def delete_conv' kv_save_ok(1) [OF assms(1) I(5) [OF w] I(8) in_K] fun_eq_iff
        split: option.split)
  moreover have "k \<in> fst ` set (kv_map s)" using w by (metis domI dom_map_of_conv_image_fst)
  then have "length (kv_map s') < length (kv_map s)"
    using length_delete [OF I(1)] by (simp add: s'_def flip: Suc_le_eq)
  ultimately show ?thesis using ev by (simp add: s'_def)
qed

lemma set_splice [simp]: "set (splice_front n q) = set q" "set (splice_back n q) = set q"
  by (auto simp: splice_front_def splice_back_def)

lemma distinct_splice:
  assumes "distinct (map fst q)"
  shows "distinct (map fst (splice_front n q))" "distinct (map fst (splice_back n q))"
proof -
  have f: "distinct (map fst (filter P q))" for P using assms by (induction q) auto
  show "distinct (map fst (splice_front n q))" "distinct (map fst (splice_back n q))"
    using f [of "\<lambda>x. fst x = n"] f [of "\<lambda>x. fst x \<noteq> n"]
    by (auto simp: splice_front_def splice_back_def)
qed

lemma splice_inv:
  assumes "kv_inv cap env K s" "set q = set (lruQueue s)" "distinct (map fst q)"
  shows "kv_inv cap env K (s\<lparr>lruQueue := q\<rparr>)" "view_in env K (s\<lparr>lruQueue := q\<rparr>) = view_in env K s"
  using assms by (auto simp: kv_inv_def view_in_def fun_eq_iff split: option.split)

lemma setLocked_ok:
  assumes "env_ok env" "kv_inv cap env K s" "0 < cap" "wf_wrapper v" "k \<in> K"
  shows "\<exists>s'. setLocked cap env k v s = Some s' \<and> kv_inv cap env K s'
    \<and> view_in env K s' = (view_in env K s)(k := stored v)"
proof (cases "map_of (kv_map s) k")
  case (Some x)
  obtain w n where x: "x = (w, n)" by (cases x)
  note I = kv_invD [OF assms(2)]
  define s' where "s' = s\<lparr>kv_map := AList.update k (v, n) (kv_map s), lruQueue := splice_front n (lruQueue s)\<rparr>"
  have set: "setLocked cap env k v s = Some s'" using Some x by (simp add: setLocked_def s'_def)
  have k: "k \<in> fst ` set (kv_map s)" using Some by (metis domI dom_map_of_conv_image_fst)
  have "kv_inv cap env K s'"
  proof (rule kv_invI)
    show "distinct (map fst (kv_map s'))" using I(1) by (simp add: s'_def distinct_update)
    show "distinct (map fst (lruQueue s'))" using I(2) by (simp add: s'_def distinct_splice)
    fix m j
    show "((m, j) \<in> set (lruQueue s')) \<longleftrightarrow> (\<exists>w. map_of (kv_map s') j = Some (w, m))"
      using I(3) [of m j] Some x by (auto simp: s'_def update_conv')
    show "m < next_node s'" if "(m, j) \<in> set (lruQueue s')" using that I(4) [of m j] by (simp add: s'_def)
    show "wf_wrapper u" if "map_of (kv_map s') j = Some (u, m)" for u
      using that I(5) assms(4) by (auto simp: s'_def update_conv' split: if_splits)
    show "rows_ok env (db_rows s')" using I(6) by (simp add: s'_def)
    show "length (kv_map s') \<le> cap" using I(7) k by (simp add: s'_def length_update_old)
    show "fst ` set (kv_map s') \<subseteq> K" using I(9) assms(5) by (simp add: s'_def dom_update)
  qed (rule I(8))
  moreover have "view_in env K s' = (view_in env K s)(k := stored v)"
    by (auto simp: view_in_def s'_def update_conv' fun_eq_iff split: option.split)
  ultimately show ?thesis using set by blast
next
  case None
  have "\<exists>s1. (if length (kv_map s) \<ge> cap then evict env s else Some s) = Some s1 \<and> kv_inv cap env K s1
      \<and> view_in env K s1 = view_in env K s \<and> length (kv_map s1) < cap \<and> map_of (kv_map s1) k = None"
  proof (cases "length (kv_map s) \<ge> cap")
    case True
    then have "kv_map s \<noteq> []" using assms(3) by auto
    then obtain s1 where s1: "evict env s = Some s1" "kv_inv cap env K s1" "view_in env K s1 = view_in env K s"
      "length (kv_map s1) < length (kv_map s)" using evict_ok [OF assms(1,2)] by blast
    have "map_of (kv_map s1) k = None" using s1(1) None
      by (auto simp: evict_def Let_def delete_conv' split: if_splits)
    with s1 True kv_invD(7) [OF assms(2)] show ?thesis by auto
  next
    case False
    with assms(2) None show ?thesis by auto
  qed
  then obtain s1 where s1: "(if length (kv_map s) \<ge> cap then evict env s else Some s) = Some s1"
    "kv_inv cap env K s1" "view_in env K s1 = view_in env K s" "length (kv_map s1) < cap" "map_of (kv_map s1) k = None" by blast
  note I = kv_invD [OF s1(2)]
  define s' where "s' = s1\<lparr>lruQueue := (next_node s1, k) # lruQueue s1,
      kv_map := AList.update k (v, next_node s1) (kv_map s1), next_node := Suc (next_node s1)\<rparr>"
  have set: "setLocked cap env k v s = Some s'"
    using None s1(1) by (simp add: setLocked_def s'_def)
  have k: "k \<notin> fst ` set (kv_map s1)" using s1(5) by (simp add: map_of_eq_None_iff)
  have "kv_inv cap env K s'"
  proof (rule kv_invI)
    show "distinct (map fst (kv_map s'))" using I(1) by (simp add: s'_def distinct_update)
    show "distinct (map fst (lruQueue s'))" using I(2) I(4) by (fastforce simp: s'_def)
    fix m j
    show "((m, j) \<in> set (lruQueue s')) \<longleftrightarrow> (\<exists>w. map_of (kv_map s') j = Some (w, m))"
      using I(3) [of m j] s1(5) by (auto simp: s'_def update_conv')
    show "m < next_node s'" if "(m, j) \<in> set (lruQueue s')" using that I(4) [of m j] by (auto simp: s'_def)
    show "wf_wrapper u" if "map_of (kv_map s') j = Some (u, m)" for u
      using that I(5) assms(4) by (auto simp: s'_def update_conv' split: if_splits)
    show "rows_ok env (db_rows s')" using I(6) by (simp add: s'_def)
    show "length (kv_map s') \<le> cap" using s1(4) k by (simp add: s'_def update_new)
    show "fst ` set (kv_map s') \<subseteq> K" using I(9) assms(5) by (simp add: s'_def dom_update)
  qed (rule I(8))
  moreover have "view_in env K s' = (view_in env K s)(k := stored v)"
    unfolding s1(3) [symmetric] by (auto simp: view_in_def s'_def update_conv' fun_eq_iff split: option.split)
  ultimately show ?thesis using set by blast
qed

lemma kv_get_ok:
  assumes "env_ok env" "kv_inv cap env K s" "0 < cap" "k \<in> K"
  shows "\<exists>r s'. kv_get cap env False k s = Some (r, s') \<and> kv_inv cap env K s'
    \<and> view_in env K s' = view_in env K s \<and> map_option toProto r = view_in env K s k"
proof (cases "map_of (kv_map s) k")
  case (Some x)
  obtain w n where x: "x = (w, n)" by (cases x)
  have "kv_get cap env False k s = Some (if isDeleted w then (None, s\<lparr>lruQueue := splice_back n (lruQueue s)\<rparr>)
      else (Some w, s\<lparr>lruQueue := splice_front n (lruQueue s)\<rparr>))"
    using Some x by (simp add: kv_get_def)
  moreover have "view_in env K s k = stored w" using Some x by (simp add: view_in_def)
  ultimately show ?thesis
    using splice_inv [OF assms(2)] distinct_splice [OF kv_invD(2) [OF assms(2)]] by (simp add: stored_def)
next
  case None
  show ?thesis
  proof (cases "select_row env (db_rows s) k")
    case None': None
    then show ?thesis using None assms
      by (simp add: kv_get_def kv_load_def env_ok_def view_in_def row_in_def row_view_def assms(4))
  next
    case (Some r)
    obtain ts bytes where r: "r = (ts, bytes)" by (cases r)
    with Some obtain p where p: "kv_par env bytes = Some p" "wf_proto p"
      using kv_invD(6) [OF assms(2)] unfolding rows_ok_def select_row_def by blast
    let ?w = "fromProto (kv_now env) ts p"
    obtain s' where s': "setLocked cap env k ?w s = Some s'" "kv_inv cap env K s'"
      "view_in env K s' = (view_in env K s)(k := stored ?w)"
      using setLocked_ok [OF assms(1-3) wf_fromProto [OF p(2)] assms(4)] by blast
    have v: "view_in env K s k = Some p" using None Some r p by (simp add: view_in_def row_in_def row_view_def assms(4))
    moreover have "stored ?w = Some p" using toProto_fromProto [OF p(2)] by (simp add: stored_def)
    ultimately have "view_in env K s' = view_in env K s" using s'(3) by auto
    moreover have "kv_get cap env False k s = Some (Some ?w, s')"
      using None Some r p s'(1) assms(1) by (simp add: kv_get_def kv_load_def env_ok_def)
    ultimately show ?thesis using s'(2) v toProto_fromProto [OF p(2)] by simp
  qed
qed

text \<open>Saving everything.\<close>

lemma column_insert_rows:
  "map_of (column env (fold (upsert_row env) rows db)) = map_of (column env db) ++ map_of (rev (column env rows))"
proof (induction rows arbitrary: db)
  case (Cons x rows)
  obtain k r where x: "x = (k, r)" by (cases x)
  have "column env (x # rows) = (kv_norm env k, r) # column env rows" by (simp add: column_def x)
  then show ?case using Cons by (simp add: x column_update map_add_upd_left map_add_def fun_eq_iff split: option.split)
qed (simp add: column_def)

definition pending :: "kv_env \<Rightarrow> (string \<times> row) list \<times> (string \<times> row) list \<Rightarrow> (string \<times> row) list" where
  "pending env acc = fold (upsert_row env) (fst acc) (snd acc)"

lemma prepareSave_pending:
  assumes "env_ok env" "wf_wrapper w" "k \<notin> fst ` set (fst acc)"
    and K: "inj_on (kv_norm env) K" "k \<in> K" "fst ` set (fst acc) \<subseteq> K"
  shows "\<exists>acc'. prepareSave env k w acc = (True, acc')
    \<and> row_in env K (pending env acc') = (row_in env K (pending env acc))(k := stored w)
    \<and> (rows_ok env (pending env acc) \<longrightarrow> rows_ok env (pending env acc'))
    \<and> fst ` set (fst acc') \<subseteq> insert k (fst ` set (fst acc))"
proof -
  obtain bytes where b: "kv_ser env (toProto w) = Some bytes" "kv_par env bytes = Some (toProto w)"
    using assms wf_toProto unfolding env_ok_def by blast
  obtain rows db where acc: "acc = (rows, db)" by (cases acc)
  have none: "map_of (rev (column env rows)) (kv_norm env k) = None"
  proof -
    have "kv_norm env j \<noteq> kv_norm env k" if "j \<in> fst ` set rows" for j
    proof -
      have "j \<in> K" "j \<noteq> k" using that K(3) assms(3) acc by auto
      then show ?thesis using K(1,2) by (auto simp: inj_on_def)
    qed
    then have "kv_norm env k \<notin> fst ` set (rev (column env rows))" by (force simp: column_def)
    then show ?thesis by (simp add: map_of_eq_None_iff del: set_rev)
  qed
  show ?thesis
  proof (cases "isDeleted w")
    case True
    have m: "map_of (column env (pending env (rows, delete_row env k db))) = (map_of (column env (pending env (rows, db))))(kv_norm env k := None)"
      using none by (auto simp: pending_def column_insert_rows column_delete map_add_def fun_eq_iff split: option.split)
    then have "row_in env K (pending env (rows, delete_row env k db)) = (row_in env K (pending env (rows, db)))(k := None)"
      using row_in_column [OF K(1,2) m] by simp
    moreover have "rows_ok env (pending env (rows, db)) \<longrightarrow> rows_ok env (pending env (rows, delete_row env k db))"
      by (auto simp: rows_ok_def m)
    moreover have "prepareSave env k w acc = (True, rows, delete_row env k db)"
      using assms(1) True b acc by (simp add: prepareSave_def env_ok_def)
    ultimately show ?thesis using True acc by (auto simp: stored_def)
  next
    case False
    have m: "map_of (column env (pending env (rows @ [(k, getTimestamp w, bytes)], db)))
        = (map_of (column env (pending env (rows, db))))(kv_norm env k \<mapsto> (getTimestamp w, bytes))"
      by (simp add: pending_def column_update)
    then have "row_in env K (pending env (rows @ [(k, getTimestamp w, bytes)], db))
        = (row_in env K (pending env (rows, db)))(k \<mapsto> toProto w)"
      using row_in_column [OF K(1,2) m] b by simp
    moreover have "rows_ok env (pending env (rows, db)) \<longrightarrow>
        rows_ok env (pending env (rows @ [(k, getTimestamp w, bytes)], db))"
      using b wf_toProto [OF assms(2)] by (auto simp: rows_ok_def m)
    moreover have "prepareSave env k w acc = (True, rows @ [(k, getTimestamp w, bytes)], db)"
      using False b acc by (simp add: prepareSave_def)
    ultimately show ?thesis using False acc by (simp add: stored_def)
  qed
qed

lemma prepare_all_pending:
  assumes "env_ok env" "inj_on (kv_norm env) K"
  shows "distinct (map fst es) \<Longrightarrow> \<forall>k w n. map_of es k = Some (w, n) \<longrightarrow> wf_wrapper w \<Longrightarrow>
    fst ` set es \<inter> fst ` set (fst acc) = {} \<Longrightarrow> fst ` set es \<subseteq> K \<Longrightarrow> fst ` set (fst acc) \<subseteq> K \<Longrightarrow>
    \<exists>acc'. prepare_all env es acc = (True, acc')
      \<and> (rows_ok env (pending env acc) \<longrightarrow> rows_ok env (pending env acc'))
      \<and> row_in env K (pending env acc') = (\<lambda>k. case map_of es k of
          Some (w, n) \<Rightarrow> stored w | None \<Rightarrow> row_in env K (pending env acc) k)"
proof (induction es arbitrary: acc)
  case (Cons x es)
  obtain k w n where x: "x = (k, (w, n))" by (cases x) auto
  have w: "wf_wrapper w" using Cons.prems(2) [rule_format, of k w n] x by simp
  have k: "k \<notin> fst ` set (fst acc)" "k \<notin> fst ` set es" using Cons.prems(1,3) x by auto
  obtain acc1 where a: "prepareSave env k w acc = (True, acc1)"
    "row_in env K (pending env acc1) = (row_in env K (pending env acc))(k := stored w)"
    "rows_ok env (pending env acc) \<longrightarrow> rows_ok env (pending env acc1)"
    "fst ` set (fst acc1) \<subseteq> insert k (fst ` set (fst acc))"
    using prepareSave_pending [OF assms(1) w k(1) assms(2) _ Cons.prems(5)] Cons.prems(4) x by auto
  have wf: "\<forall>j v m. map_of es j = Some (v, m) \<longrightarrow> wf_wrapper v"
  proof (intro allI impI)
    fix j v m assume j: "map_of es j = Some (v, m)"
    then have "j \<noteq> k" using k(2) by (metis domI dom_map_of_conv_image_fst)
    with j Cons.prems(2) x show "wf_wrapper v" by (metis map_of_Cons_code(2))
  qed
  have "fst ` set es \<inter> insert k (fst ` set (fst acc)) = {}" using k(2) Cons.prems(3) x by auto
  with a(4) have disj: "fst ` set es \<inter> fst ` set (fst acc1) = {}" by blast
  have sub: "fst ` set es \<subseteq> K" "fst ` set (fst acc1) \<subseteq> K"
    using Cons.prems(4) subset_trans [OF a(4), of K] Cons.prems(5) x by auto
  obtain acc' where b: "prepare_all env es acc1 = (True, acc')"
    "rows_ok env (pending env acc1) \<longrightarrow> rows_ok env (pending env acc')"
    "row_in env K (pending env acc') = (\<lambda>k. case map_of es k of
        Some (w, n) \<Rightarrow> stored w | None \<Rightarrow> row_in env K (pending env acc1) k)"
    using Cons.IH [OF _ wf disj sub] Cons.prems(1) by auto
  have "map_of es k = None" using k(2) by (simp add: map_of_eq_None_iff)
  then have "row_in env K (pending env acc') = (\<lambda>k. case map_of (x # es) k of
        Some (w, n) \<Rightarrow> stored w | None \<Rightarrow> row_in env K (pending env acc) k)"
    unfolding b(3) a(2) x by (auto simp: fun_eq_iff split: option.split)
  with a b show ?case by (simp add: x)
qed simp

lemma saveAll_ok:
  assumes "env_ok env" "kv_inv cap env K s"
  shows "kv_inv cap env K (snd (saveAll env s))" "view_in env K (snd (saveAll env s)) = view_in env K s"
    and "row_in env K (db_rows (snd (saveAll env s))) = view_in env K s"
proof -
  note I = kv_invD [OF assms(2)]
  have wf: "\<forall>k w n. map_of (kv_map s) k = Some (w, n) \<longrightarrow> wf_wrapper w" using I(5) by blast
  obtain acc where a: "prepare_all env (kv_map s) ([], db_rows s) = (True, acc)"
    "rows_ok env (pending env ([], db_rows s)) \<longrightarrow> rows_ok env (pending env acc)"
    "row_in env K (pending env acc) = (\<lambda>k. case map_of (kv_map s) k of
        Some (w, n) \<Rightarrow> stored w | None \<Rightarrow> row_in env K (pending env ([], db_rows s)) k)"
    using prepare_all_pending [OF assms(1) I(8,1) wf, of "([], db_rows s)"] I(9) by auto
  obtain rows db where acc: "acc = (rows, db)" by (cases acc)
  have ex: "snd (insert_execute env rows db) = pending env acc"
    using assms(1) acc by (simp add: insert_execute_def pending_def env_ok_def)
  have s: "snd (saveAll env s) = s\<lparr>db_rows := pending env acc\<rparr>"
    using a(1) acc ex by (simp add: saveAll_def split_beta)
  have p: "pending env ([], db_rows s) = db_rows s" by (simp add: pending_def)
  have v: "row_in env K (pending env acc) = view_in env K s"
    unfolding a(3) p by (rule ext) (simp add: view_in_def)
  show "row_in env K (db_rows (snd (saveAll env s))) = view_in env K s" by (simp add: s v)
  show "kv_inv cap env K (snd (saveAll env s))"
    using assms(2) a(2) I(6) by (simp add: s kv_inv_def pending_def)
  show "view_in env K (snd (saveAll env s)) = view_in env K s"
    using v unfolding s by (auto simp: view_in_def fun_eq_iff split: option.split)
qed

section \<open>Histories\<close>

datatype kv_op = KSet string wrapper | KRemove u64 string | KGet string | KSave

fun kv_step :: "nat \<Rightarrow> kv_env \<Rightarrow> kv_op \<Rightarrow> kvs \<Rightarrow> (wrapper option \<times> kvs) option" where
  "kv_step cap env (KSet k v) s = map_option (Pair None) (setLocked cap env k v s)"
| "kv_step cap env (KRemove t k) s = map_option (Pair None) (kv_remove cap env t k s)"
| "kv_step cap env (KGet k) s = kv_get cap env False k s"
| "kv_step cap env KSave s = Some (None, snd (saveAll env s))"

text \<open>The clock may show anything at each step.\<close>

fun kv_run :: "nat \<Rightarrow> kv_env \<Rightarrow> (u64 \<times> kv_op) list \<Rightarrow> kvs \<Rightarrow> (wrapper option list \<times> kvs) option" where
  "kv_run cap env [] s = Some ([], s)"
| "kv_run cap env ((now, op) # ops) s = (case kv_step cap (env\<lparr>kv_now := now\<rparr>) op s of
      None \<Rightarrow> None
    | Some (r, s1) \<Rightarrow> map_option (\<lambda>(rs, s2). (r # rs, s2)) (kv_run cap env ops s1))"

text \<open>A plain map with the same operations.\<close>

fun map_step :: "kv_op \<Rightarrow> (string \<Rightarrow> proto option) \<Rightarrow> proto option \<times> (string \<Rightarrow> proto option)" where
  "map_step (KSet k v) m = (None, m(k := stored v))"
| "map_step (KRemove t k) m = (None, m(k := None))"
| "map_step (KGet k) m = (m k, m)"
| "map_step KSave m = (None, m)"

fun map_run :: "kv_op list \<Rightarrow> (string \<Rightarrow> proto option) \<Rightarrow> proto option list \<times> (string \<Rightarrow> proto option)" where
  "map_run [] m = ([], m)"
| "map_run (op # ops) m = (let (r, m1) = map_step op m; (rs, m2) = map_run ops m1 in (r # rs, m2))"

fun kv_op_ok :: "string set \<Rightarrow> kv_op \<Rightarrow> bool" where
  "kv_op_ok K (KSet k v) = (wf_wrapper v \<and> k \<in> K)"
| "kv_op_ok K (KRemove t k) = (k \<in> K)"
| "kv_op_ok K (KGet k) = (k \<in> K)"
| "kv_op_ok K KSave = True"

definition kv_fresh :: "(string \<times> row) list \<Rightarrow> kvs" where
  "kv_fresh db = \<lparr>kv_map = [], lruQueue = [], next_node = 0, db_rows = db\<rparr>"

lemma env_at [simp]:
  "row_view (env\<lparr>kv_now := t\<rparr>) = row_view env" "row_in (env\<lparr>kv_now := t\<rparr>) = row_in env"
  "env_ok (env\<lparr>kv_now := t\<rparr>) = env_ok env" "view_in (env\<lparr>kv_now := t\<rparr>) = view_in env"
  "kv_inv cap (env\<lparr>kv_now := t\<rparr>) = kv_inv cap env"
proof -
  show r: "row_view (env\<lparr>kv_now := t\<rparr>) = row_view env"
    by (auto simp: row_view_def select_row_def column_def fun_eq_iff split: option.split)
  then show i: "row_in (env\<lparr>kv_now := t\<rparr>) = row_in env" by (intro ext) (simp add: row_in_def)
  show "view_in (env\<lparr>kv_now := t\<rparr>) = view_in env" by (intro ext) (simp only: view_in_def i)
  show "kv_inv cap (env\<lparr>kv_now := t\<rparr>) = kv_inv cap env" by (intro ext) (simp add: kv_inv_def rows_ok_def column_def)
qed (simp add: env_ok_def)

lemma view_in_view: "kv_inv cap env K s \<Longrightarrow> view_in env K s = view env s |` K"
proof
  fix k assume "kv_inv cap env K s"
  then have "k \<in> K" if "map_of (kv_map s) k = Some x" for x using that kv_invD(9) by (force dest: map_of_SomeD)
  then show "view_in env K s k = (view env s |` K) k"
    by (auto simp: view_in_def view_def row_in_def restrict_map_def split: option.split)
qed

lemma kv_step_ok:
  assumes "env_ok env" "kv_inv cap env K s" "0 < cap" "kv_op_ok K op"
  shows "\<exists>r s'. kv_step cap (env\<lparr>kv_now := t\<rparr>) op s = Some (r, s') \<and> kv_inv cap env K s'
    \<and> map_step op (view_in env K s) = (map_option toProto r, view_in env K s')"
proof (cases op)
  case (KSet k v)
  then show ?thesis
    using setLocked_ok [of "env\<lparr>kv_now := t\<rparr>" cap K s v k] assms by fastforce
next
  case (KRemove u k)
  have "wf_wrapper (deleted u)" "stored (deleted u) = None" by (simp_all add: deleted_def stored_def)
  then show ?thesis
    using KRemove setLocked_ok [of "env\<lparr>kv_now := t\<rparr>" cap K s "deleted u" k] assms by (fastforce simp: kv_remove_def)
next
  case (KGet k)
  then show ?thesis using kv_get_ok [of "env\<lparr>kv_now := t\<rparr>" cap K s k] assms by fastforce
next
  case KSave
  then show ?thesis using saveAll_ok [of "env\<lparr>kv_now := t\<rparr>" cap K s] assms by simp
qed

lemma kv_run_ok:
  assumes "env_ok env" "0 < cap"
  shows "kv_inv cap env K s \<Longrightarrow> \<forall>x \<in> set ops. kv_op_ok K (snd x) \<Longrightarrow>
    \<exists>rs s'. kv_run cap env ops s = Some (rs, s') \<and> kv_inv cap env K s'
      \<and> map_run (map snd ops) (view_in env K s) = (map (map_option toProto) rs, view_in env K s')"
proof (induction ops arbitrary: s)
  case (Cons x ops)
  obtain t op where x: "x = (t, op)" by (cases x)
  obtain r s1 where s1: "kv_step cap (env\<lparr>kv_now := t\<rparr>) op s = Some (r, s1)" "kv_inv cap env K s1"
    "map_step op (view_in env K s) = (map_option toProto r, view_in env K s1)"
    using kv_step_ok [OF assms(1) Cons.prems(1) assms(2), of op t] Cons.prems(2) x by auto
  obtain rs s2 where "kv_run cap env ops s1 = Some (rs, s2)" "kv_inv cap env K s2"
    "map_run (map snd ops) (view_in env K s1) = (map (map_option toProto) rs, view_in env K s2)"
    using Cons.IH [OF s1(2)] Cons.prems(2) by auto
  with s1 show ?case by (simp add: x)
qed simp

lemma kv_fresh_inv: "rows_ok env db \<Longrightarrow> inj_on (kv_norm env) K \<Longrightarrow> kv_inv cap env K (kv_fresh db)"
  by (simp add: kv_inv_def kv_fresh_def)

lemma view_fresh: "view_in env K (kv_fresh db) = row_in env K db"
  by (rule ext) (simp add: view_in_def kv_fresh_def)

text \<open>A column that ignores the case of letters, and messages as bytes.\<close>

definition fold_case :: "char \<Rightarrow> char" where
  "fold_case c = (if 65 \<le> (of_char c :: nat) \<and> (of_char c :: nat) \<le> 90 then char_of (of_char c + 32 :: nat) else c)"

definition example_env :: kv_env where
  "example_env = \<lparr>kv_ser = \<lambda>p. Some (enc p), kv_par = \<lambda>bs. map_option fst (dec (length bs) bs),
     kv_now = 1, kv_db_ok = True, kv_commit_ok = True, kv_norm = map fold_case\<rparr>"

lemma example_env_ok: "env_ok example_env"
  by (simp add: env_ok_def example_env_def dec_whole)

definition example_rows :: "(string \<times> row) list" where
  "example_rows = [(''a'', 5, enc (StrValue ''x''))]"

definition example_ops :: "(u64 \<times> kv_op) list" where
  "example_ops = [(1, KGet ''a''), (2, KSet ''b'' (Wrapper (IntType 7) 2 False)), (3, KRemove 3 ''a''),
     (4, KGet ''a''), (5, KGet ''b'')]"

lemma example_rows_ok: "rows_ok example_env example_rows"
  by (auto simp: rows_ok_def example_rows_def example_env_def column_def dec_whole simp del: enc.simps split: if_splits)

lemma example_keys: "inj_on (kv_norm example_env) {''a'', ''b''}"
  by (simp add: inj_on_def example_env_def fold_case_def)

text \<open>
  C31. The cache is transparent: whatever is set, removed, read and saved, in whatever order
  and however often entries are evicted, every read answers what a plain map would answer
  that started with the contents of the table, the cache never holds more than its capacity,
  and saving brings the table to the contents of that map. This holds as long as the database
  executes its statements (an eviction whose statement fails loses the value,
  \<open>evict_ignores_failure\<close>), messages survive serialisation, and the key column tells the keys
  in use apart (it ignores case, and keys that differ in case only share a row,
  \<open>keys_share_a_row\<close>).
\<close>
theorem cache_is_transparent:
  assumes "env_ok env" "0 < cap" "rows_ok env db"
    and "inj_on (kv_norm env) K" "\<forall>x \<in> set ops. kv_op_ok K (snd x)"
  shows "\<exists>rs s. kv_run cap env ops (kv_fresh db) = Some (rs, s)
    \<and> map_run (map snd ops) (row_view env db |` K) = (map (map_option toProto) rs, view env s |` K)
    \<and> length (kv_map s) \<le> cap \<and> row_view env (db_rows (snd (saveAll env s))) |` K = view env s |` K"
proof -
  obtain rs s where "kv_run cap env ops (kv_fresh db) = Some (rs, s)" "kv_inv cap env K s"
    "map_run (map snd ops) (row_in env K db) = (map (map_option toProto) rs, view_in env K s)"
    using kv_run_ok [OF assms(1,2) kv_fresh_inv [OF assms(3,4)] assms(5)] unfolding view_fresh by blast
  then show ?thesis
    using saveAll_ok(3) [OF assms(1)] kv_invD(7) view_in_view unfolding row_in_def by metis
qed

theorem cache_is_transparent_witness:
  "\<exists>rs s. kv_run 1 example_env example_ops (kv_fresh example_rows) = Some (rs, s)
    \<and> map_run (map snd example_ops) (row_view example_env example_rows |` {''a'', ''b''})
        = (map (map_option toProto) rs, view example_env s |` {''a'', ''b''})
    \<and> length (kv_map s) \<le> 1
    \<and> row_view example_env (db_rows (snd (saveAll example_env s))) |` {''a'', ''b''} = view example_env s |` {''a'', ''b''}"
  by (rule cache_is_transparent [OF example_env_ok _ example_rows_ok example_keys]) (simp_all add: example_ops_def)

section \<open>Where the cache is not transparent\<close>

text \<open>
  \<open>flush\<close> clears the map but keeps the list of keys. The next eviction takes a key from that
  list, finds no value for it and saves an empty string over its row.
\<close>

lemma flush_makes_eviction_overwrite:
  "(case kv_get 1 example_env False ''a'' (kv_fresh example_rows) of
      None \<Rightarrow> False
    | Some (r, s) \<Rightarrow> (case setLocked 1 example_env ''b'' (Wrapper (IntType 1) 1 False) (kv_flush example_env s) of
        None \<Rightarrow> False
      | Some s1 \<Rightarrow> (case setLocked 1 example_env ''c'' (Wrapper (IntType 2) 1 False) s1 of
          None \<Rightarrow> False
        | Some s2 \<Rightarrow> view example_env s ''a'' = Some (StrValue ''x'')
            \<and> view example_env s2 ''a'' = Some (StrValue []))))"
  by code_simp

text \<open>
  The cache tells keys apart that the column does not: here 'a' is saved over 'A', whose value
  is gone when it is evicted and read again.
\<close>

lemma keys_share_a_row:
  "(case kv_run 2 example_env [(1, KSet ''A'' (Wrapper (IntType 1) 1 False)), (2, KSet ''a'' (Wrapper (IntType 2) 1 False)),
       (3, KSet ''b'' (Wrapper (IntType 3) 1 False)), (4, KSet ''c'' (Wrapper (IntType 4) 1 False)), (5, KGet ''A'')] (kv_fresh []) of
      None \<Rightarrow> False
    | Some (rs, s) \<Rightarrow> map_option toProto (last rs) = Some (IntValue 2))"
  by code_simp

text \<open>\<open>saveAll\<close> reports success when nothing could be written, as long as the empty transaction commits.\<close>

lemma saveAll_reports_success: "kv_commit_ok env \<Longrightarrow> fst (saveAll env s)"
  by (auto simp: saveAll_def split: prod.split bool.split)

text \<open>An eviction drops the value also when saving it failed.\<close>

lemma evict_ignores_failure:
  assumes "kv_map s = [(k, (w, 0))]" "lruQueue s = [(0, k)]" "\<not> kv_db_ok env"
  shows "\<exists>s'. evict env s = Some s' \<and> map_of (kv_map s') k = None \<and> db_rows s' = db_rows s"
  using assms by (auto simp: evict_def Let_def kv_save_def prepareSave_def insert_execute_def split: option.split)

text \<open>A removed key is still listed while it is in the cache.\<close>

lemma keys_lists_removed:
  assumes "map_of (kv_map s) k = Some (w, n)" "isDeleted w" "kv_keys like env [] s = Some ks"
  shows "k \<in> ks"
  using assms by (force simp: kv_keys_def dest: map_of_SomeD)

text \<open>Scopes nest by concatenation.\<close>

lemma buildKey_nested: "buildKey (buildKey p q) k = buildKey p (buildKey q k)"
  by (simp add: buildKey_def)

section \<open>Replacing in strings\<close>

lemma find_from_Some:
  assumes "find_from sought i str = Some p"
  shows "i \<le> p \<and> p + length sought \<le> length str"
  using assms
proof (induction sought i str arbitrary: p rule: find_from.induct)
  case (3 sought c str)
  then show ?case by (fastforce dest: prefix_length_le split: if_splits)
qed (auto split: if_splits)

lemma find_from_Nil: "i \<le> length str \<Longrightarrow> find_from [] i str = Some i"
  by (induction "[] :: string" i str rule: find_from.induct) auto

lemma replace_loop_ends: "sought \<noteq> [] \<Longrightarrow> \<exists>res. replace_loop sought r i str = Some res"
proof (induction "length str - i" arbitrary: i str rule: less_induct)
  case less
  show ?case
  proof (cases "find_from sought i str")
    case None
    then show ?thesis by (simp add: replace_loop.simps)
  next
    case (Some p)
    then have p: "i \<le> p" "p + length sought \<le> length str" using find_from_Some by auto
    have "length (take p str @ r @ drop (p + length sought) str) - (p + length r) < length str - i"
      using p less(2) by (cases sought) auto
    from less(1) [OF this less(2)] show ?thesis by (subst replace_loop.simps) (simp add: Some)
  qed
qed

lemma replace_loop_diverges:
  assumes "replace_loop sought r i str = Some res"
  shows "sought = [] \<longrightarrow> i \<le> length str \<longrightarrow> False"
proof (rule replace_loop.raw_induct
    [where P = "\<lambda>sought r i str res. sought = [] \<longrightarrow> i \<le> length str \<longrightarrow> False", OF _ assms])
  fix f sought r i and str res :: string
  assume IH: "\<And>a b c d y. f a b c d = Some y \<Longrightarrow> a = [] \<longrightarrow> c \<le> length d \<longrightarrow> False"
    and eq: "(case find_from sought i str of None \<Rightarrow> Some str
      | Some p \<Rightarrow> f sought r (p + length r) (take p str @ r @ drop (p + length sought) str)) = Some res"
  show "sought = [] \<longrightarrow> i \<le> length str \<longrightarrow> False"
  proof (intro impI)
    assume *: "sought = []" "i \<le> length str"
    with eq have "f [] r (i + length r) (take i str @ r @ drop i str) = Some res" by (simp add: find_from_Nil)
    from IH [OF this] *(2) show False by simp
  qed
qed

text \<open>
  \<open>replaceString\<close> returns exactly when there is something to look for or nothing to look
  in: with an empty text to replace in a non-empty string its loop never ends. That is what
  \<open>KVStore::keys\<close> asks for when it is called without a prefix and the table has a row.
\<close>
theorem replaceString_returns_iff:
  "replaceString str sought replacement = None \<longleftrightarrow> sought = [] \<and> str \<noteq> []"
proof (cases "str = []")
  case True
  then show ?thesis by (simp add: replaceString_def)
next
  case False
  then show ?thesis
    using replace_loop_ends [of sought replacement 0 str] replace_loop_diverges [of sought replacement 0 str]
    by (cases "replace_loop sought replacement 0 str") (auto simp: replaceString_def)
qed

lemma keys_without_prefix_hang:
  assumes "kv_db_ok env" "(k, r) \<in> set (db_rows s)" "k \<noteq> []" "like k ''%''"
  shows "kv_keys like env [] s = None"
proof -
  have none: "replaceString k [] [] = None"
    using assms(3) replace_loop_diverges [of "[]" "[]" 0 k] by (cases "replace_loop [] [] 0 k") (auto simp: replaceString_def)
  have "those xs = None" if "None \<in> set xs" for xs :: "string option list"
    using that by (induction xs) (auto split: option.split)
  moreover have "None \<in> set (map (\<lambda>(k, r). replaceString k [] []) (filter (\<lambda>(k, r). like k ([] @ ''%'')) (db_rows s)))"
    using assms(2,4) none by force
  ultimately show ?thesis using assms(1) unfolding kv_keys_def loadPrefix_def by simp
qed

end
