(* ===== verification/Prop_Stream.thy ===== *)
theory Prop_Stream
  imports Byte_Reader
begin

text \<open>
  The streams items and maps are loaded from and saved to (src/src/io/fileloader.hpp:
  \<open>PropStream\<close>, \<open>PropWriteStream\<close>). A read stream is what is left between its two
  pointers, a write stream the bytes written. A value is read by copying its bytes, so the
  stream interprets the locale \<open>byte_reader\<close>.
\<close>

section \<open>Reading\<close>

type_synonym stream = "u8 list"

text \<open>\<open>read<T>\<close>: \<open>None\<close> is the result \<open>false\<close>, which leaves the stream as it was.\<close>

definition ps_read :: "stream reader" where
  "ps_read n s = (if length s < n then None else Some (take n s, drop n s))"

definition skip :: "nat \<Rightarrow> stream \<Rightarrow> stream option" where
  "skip n s = (if length s < n then None else Some (drop n s))"

text \<open>\<open>readString\<close>: a missing body is noticed only after the length has been consumed.\<close>

definition readString :: "stream \<Rightarrow> u8 list option \<times> stream" where
  "readString s = (case read_int ps_read 2 s of
      None \<Rightarrow> (None, s)
    | Some (strLen :: u16, s1) \<Rightarrow>
        if length s1 < unat strLen then (None, s1)
        else (Some (take (unat strLen) s1), drop (unat strLen) s1))"

section \<open>Writing\<close>

definition ps_write :: "nat \<Rightarrow> 'a::len word \<Rightarrow> u8 list" where
  "ps_write n v = le_bytes n v"

definition writeString :: "u8 list \<Rightarrow> u8 list" where
  "writeString str = (if length str > 65535 then ps_write 2 (0 :: u16)
     else ps_write 2 (of_nat (length str) :: u16) @ str)"

section \<open>What is written is read back\<close>

interpretation prop_stream: byte_reader ps_read "\<lambda>s. s" "\<lambda>s. True"
  by unfold_locales (auto simp: ps_read_def)

named_theorems stream_simps

lemma read_int_write [stream_simps]:
  "LENGTH('a) \<le> 8 * n \<Longrightarrow> read_int ps_read n (ps_write n (w :: 'a::len word) @ rest) = Some (w, rest)"
  using prop_stream.read_int_append [of "ps_write n w @ rest" n w rest] by (auto simp: ps_write_def)

lemma readString_write [stream_simps]:
  "readString (writeString str @ rest) = (Some (if length str \<le> 65535 then str else []), rest)"
proof (cases "length str \<le> 65535")
  case True
  then have "unat (of_nat (length str) :: u16) = length str" by (simp add: unsigned_of_nat take_bit_nat_eq_self)
  with True show ?thesis by (simp add: readString_def writeString_def read_int_write)
next
  case False
  then show ?thesis by (simp add: readString_def writeString_def read_int_write)
qed

lemma read_int_short [stream_simps]: "length s < n \<Longrightarrow> read_int ps_read n s = None"
  by (simp add: read_int_def ps_read_def)

lemma read_byte_Cons [stream_simps]: "read_int ps_read 1 (b # s) = Some (b :: u8, s)"
  using read_int_write [of 1 b s] by (simp add: ps_write_def le_bytes_def)

lemma read_int_shrinks: "read_int ps_read n s = Some (w, s') \<Longrightarrow> length s = n + length s'"
  by (auto simp: read_int_def ps_read_def split: if_splits)

lemma readString_shrinks: "length (snd (readString s)) \<le> length s"
  by (auto simp: readString_def split: option.split dest: read_int_shrinks)

section \<open>Operations on bytes of text\<close>

definition ascii :: "string \<Rightarrow> u8 list" where
  "ascii s = map (\<lambda>c. of_nat (of_char c)) s"

text \<open>\<open>asLowerCaseString\<close> (src/src/utils/tools.cpp), \<open>tolower\<close> in the C locale.\<close>

definition tolower :: "u8 \<Rightarrow> u8" where
  "tolower b = (if 65 \<le> b \<and> b \<le> 90 then b + 32 else b)"

definition asLowerCaseString :: "u8 list \<Rightarrow> u8 list" where
  "asLowerCaseString s = map tolower s"

lemma tolower_idem [simp]: "tolower (tolower b) = tolower b"
proof -
  have "\<forall>b\<in>set (map of_nat [0..<256]). tolower (tolower b) = tolower b" by code_simp
  moreover have "b \<in> set (map of_nat [0..<256])"
    using unsigned_less [of b, where 'a = nat] by (auto intro!: image_eqI [of _ _ "unat b"])
  ultimately show ?thesis by blast
qed

lemma asLowerCaseString_idem [simp]: "asLowerCaseString (asLowerCaseString s) = asLowerCaseString s"
  by (simp add: asLowerCaseString_def)

end
