(* ===== verification/Otb.thy ===== *)
theory Otb
  imports Prop_Stream "HOL-Library.Sublist"
begin

text \<open>
  The loader of the OTB file format (src/src/io/fileloader.hpp, src/src/io/fileloader.cpp):
  a file is an identifier followed by a tree of nodes, each a type byte, escaped
  properties, its children and an end mark. \<open>parseTree\<close> walks the bytes once with a stack
  of open nodes; an exception \<open>InvalidOTBFormat\<close> is the result \<open>None\<close>. The format is stated
  on its own as \<open>encode\<close>, and the loader is shown to be its inverse.
\<close>

section \<open>The loader\<close>

definition ESCAPE :: u8 where "ESCAPE = 0xFD"
definition START :: u8 where "START = 0xFE"
definition END :: u8 where "END = 0xFF"

lemmas node_chars = ESCAPE_def START_def END_def

text \<open>The two iterators of a node are offsets into the file.\<close>

datatype otb_node = OTB_Node (node_type: u8) (propsBegin: nat) (propsEnd: nat)
  (node_children: "otb_node list")

text \<open>
  An open node on \<open>parseStack\<close>: its type, where its properties begin and end, and its
  closed children. The source links a child to its parent when it is opened; here that
  happens when it is closed, which is when the parent is looked at again.
\<close>

type_synonym open_node = "u8 \<times> nat \<times> nat \<times> otb_node list"

definition loader_accepts :: "u8 list \<Rightarrow> u8 list \<Rightarrow> bool" where
  "loader_accepts acceptedIdentifier file \<longleftrightarrow>
     \<not> length file \<le> 7 \<and> (take 4 file = acceptedIdentifier \<or> take 4 file = [0, 0, 0, 0])"

function parse_loop ::
    "u8 list \<Rightarrow> nat \<Rightarrow> open_node list \<Rightarrow> otb_node option \<Rightarrow> otb_node option" where
  "parse_loop file i stack root =
     (if length file \<le> i then (if stack = [] then root else None)
      else if file ! i = START then
        (case stack of
           [] \<Rightarrow> None
         | (t, pb, pe, cs) # fs \<Rightarrow>
             if i + 1 = length file then None
             else parse_loop file (i + 2)
               ((file ! (i + 1), i + 2, 0, []) # (t, pb, if cs = [] then i else pe, cs) # fs) root)
      else if file ! i = END then
        (case stack of
           [] \<Rightarrow> None
         | (t, pb, pe, cs) # fs \<Rightarrow>
             let n = OTB_Node t pb (if cs = [] then i else pe) cs
             in (case fs of
                  [] \<Rightarrow> parse_loop file (i + 1) [] (Some n)
                | (t', pb', pe', cs') # gs \<Rightarrow>
                    parse_loop file (i + 1) ((t', pb', pe', cs' @ [n]) # gs) root))
      else if file ! i = ESCAPE then
        (if i + 1 = length file then None else parse_loop file (i + 2) stack root)
      else parse_loop file (i + 1) stack root)"
  by auto
termination by (relation "measure (\<lambda>(file, i, stack, root). length file - i)") auto

declare parse_loop.simps [simp del]

definition parseTree :: "u8 list \<Rightarrow> otb_node option" where
  "parseTree file =
     (if file ! 4 \<noteq> START then None else parse_loop file 6 [(file ! 5, 6, 0, [])] None)"

text \<open>The constructor of \<open>Loader\<close> followed by \<open>parseTree\<close>.\<close>

definition load_tree :: "u8 list \<Rightarrow> u8 list \<Rightarrow> otb_node option" where
  "load_tree acceptedIdentifier file =
     (if loader_accepts acceptedIdentifier file then parseTree file else None)"

text \<open>The stateful predicate of \<open>std::copy_if\<close> drops the escape bytes.\<close>

fun unescape :: "bool \<Rightarrow> u8 list \<Rightarrow> u8 list" where
  "unescape lastEscaped [] = []"
| "unescape lastEscaped (b # bs) =
     (let lastEscaped' = (b = ESCAPE \<and> \<not> lastEscaped)
      in if lastEscaped' then unescape lastEscaped' bs else b # unescape lastEscaped' bs)"

definition getProps :: "u8 list \<Rightarrow> otb_node \<Rightarrow> stream option" where
  "getProps file n =
     (let size = propsEnd n - propsBegin n
      in if size = 0 then None else Some (unescape False (window (propsBegin n) size file)))"

section \<open>The format\<close>

datatype tree = Tree (tree_type: u8) (tree_props: "u8 list") (tree_children: "tree list")

fun escape :: "u8 list \<Rightarrow> u8 list" where
  "escape [] = []"
| "escape (b # bs) = (if b \<in> {ESCAPE, START, END} then ESCAPE # b # escape bs else b # escape bs)"

fun encode_all :: "tree list \<Rightarrow> u8 list" where
  "encode_all [] = []"
| "encode_all (Tree t ps cs # ts) = START # t # escape ps @ encode_all cs @ END # encode_all ts"

definition encode :: "tree \<Rightarrow> u8 list" where
  "encode t = encode_all [t]"

text \<open>A parsed node represents a tree when its type, its properties and its children do.\<close>

fun represents :: "u8 list \<Rightarrow> otb_node \<Rightarrow> tree \<Rightarrow> bool" where
  "represents file (OTB_Node t pb pe ns) (Tree t' ps cs) \<longleftrightarrow>
     t = t' \<and> getProps file (OTB_Node t pb pe ns) = (if ps = [] then None else Some ps)
     \<and> list_all2 (represents file) ns cs"

section \<open>The loader inverts the format\<close>

lemma unescape_escape: "unescape False (escape ps) = ps"
  by (induction ps) (auto simp: node_chars)

lemma escape_Nil_iff [simp]: "escape ps = [] \<longleftrightarrow> ps = []"
  by (cases ps) auto

lemma nth_at: "file = pre @ x # post \<Longrightarrow> file ! length pre = x"
  by simp

lemma parse_loop_props:
  assumes "file = pre @ escape ps @ post"
  shows "parse_loop file (length pre) st root = parse_loop file (length pre + length (escape ps)) st root"
  using assms
proof (induction ps arbitrary: pre)
  case Nil
  then show ?case by simp
next
  case (Cons b ps)
  show ?case
  proof (cases "b \<in> {ESCAPE, START, END}")
    case True
    with Cons.prems have "file = (pre @ [ESCAPE, b]) @ escape ps @ post" by simp
    from Cons.IH [OF this] have "parse_loop file (length pre + 2) st root
        = parse_loop file (length pre + length (escape (b # ps))) st root"
      using True by (simp add: add.assoc)
    moreover have "parse_loop file (length pre) st root = parse_loop file (length pre + 2) st root"
      by (subst parse_loop.simps) (use True Cons.prems in \<open>simp add: node_chars nth_append\<close>)
    ultimately show ?thesis by simp
  next
    case False
    with Cons.prems have "file = (pre @ [b]) @ escape ps @ post" by simp
    from Cons.IH [OF this] have "parse_loop file (length pre + 1) st root
        = parse_loop file (length pre + length (escape (b # ps))) st root"
      using False by (simp add: add.assoc)
    moreover have "parse_loop file (length pre) st root = parse_loop file (length pre + 1) st root"
      by (subst parse_loop.simps) (use False Cons.prems in \<open>simp add: node_chars nth_append\<close>)
    ultimately show ?thesis by simp
  qed
qed

lemma parse_loop_START:
  assumes "file = pre @ START # t' # post"
  shows "parse_loop file (length pre) ((t, pb, pe, cs) # fs) root
    = parse_loop file (length pre + 2) ((t', length pre + 2, 0, [])
        # (t, pb, if cs = [] then length pre else pe, cs) # fs) root"
  by (subst parse_loop.simps) (use assms in \<open>simp add: nth_append\<close>)

lemma parse_loop_END:
  assumes "file = pre @ END # post"
  shows "parse_loop file (length pre) ((t, pb, pe, cs) # (t', pb', pe', cs') # fs) root
    = parse_loop file (length pre + 1)
        ((t', pb', pe', cs' @ [OTB_Node t pb (if cs = [] then length pre else pe) cs]) # fs) root"
  by (subst parse_loop.simps) (use assms in \<open>simp add: nth_append node_chars\<close>)

lemma represents_node:
  assumes "file = pre @ escape ps @ post" "list_all2 (represents file) ns cs"
  shows "represents file (OTB_Node t (length pre) (length pre + length (escape ps)) ns) (Tree t ps cs)"
proof -
  have "window (length pre) (length (escape ps)) file = escape ps"
    using assms(1) by (simp add: window_def)
  then show ?thesis using assms(2) by (auto simp: getProps_def Let_def unescape_escape)
qed

lemma parse_loop_encode_all:
  assumes "file = pre @ encode_all ts @ post"
  shows "\<exists>ns. list_all2 (represents file) ns ts
    \<and> parse_loop file (length pre) ((t, pb, pe, cs) # fs) root
      = parse_loop file (length pre + length (encode_all ts))
          ((t, pb, if cs = [] \<and> ts \<noteq> [] then length pre else pe, cs @ ns) # fs) root"
  using assms
proof (induction ts arbitrary: pre post t pb pe cs fs rule: encode_all.induct)
  case 1
  then show ?case by simp
next
  case (2 t' ps cs' ts)
  let ?e = "length (escape ps)" and ?c = "length (encode_all cs')"
  let ?pe = "if cs = [] then length pre else pe"
  let ?k = "length pre + 2"
  define pre1 where "pre1 = pre @ [START, t']"
  define pre2 where "pre2 = pre1 @ escape ps"
  define pre3 where "pre3 = pre2 @ encode_all cs'"
  define pre4 where "pre4 = pre3 @ [END]"
  have len: "length pre1 = ?k" "length pre2 = ?k + ?e" "length pre3 = ?k + ?e + ?c" "length pre4 = ?k + ?e + ?c + 1"
    by (simp_all add: pre1_def pre2_def pre3_def pre4_def)
  have f: "file = pre @ START # t' # escape ps @ encode_all cs' @ END # encode_all ts @ post"
    using "2.prems" by simp
  then have f1: "file = pre1 @ escape ps @ (encode_all cs' @ END # encode_all ts @ post)"
    and f2: "file = pre2 @ encode_all cs' @ (END # encode_all ts @ post)"
    and f3: "file = pre3 @ END # encode_all ts @ post"
    and f4: "file = pre4 @ encode_all ts @ post"
    by (simp_all add: pre1_def pre2_def pre3_def pre4_def)
  obtain ms where ms: "list_all2 (represents file) ms cs'"
    and inner: "\<And>fs. \<exists>ms. True"
    and step2: "parse_loop file (length pre2) ((t', ?k, 0, []) # (t, pb, ?pe, cs) # fs) root
      = parse_loop file (length pre2 + ?c)
          ((t', ?k, if cs' \<noteq> [] then length pre2 else 0, ms) # (t, pb, ?pe, cs) # fs) root"
    using "2.IH"(1) [OF f2, of t' ?k 0 "[]" "(t, pb, ?pe, cs) # fs"] by auto
  define n where "n = OTB_Node t' ?k (?k + ?e) ms"
  have n: "represents file n (Tree t' ps cs')"
    unfolding n_def using represents_node [OF f1 ms] by (simp add: len)
  have ms_Nil: "ms = [] \<longleftrightarrow> cs' = []" using ms by (metis list_all2_Nil list_all2_Nil2)
  have "parse_loop file (length pre) ((t, pb, pe, cs) # fs) root
      = parse_loop file (length pre1) ((t', ?k, 0, []) # (t, pb, ?pe, cs) # fs) root"
    using parse_loop_START [OF f] by (simp add: len)
  also have "\<dots> = parse_loop file (length pre2) ((t', ?k, 0, []) # (t, pb, ?pe, cs) # fs) root"
    using parse_loop_props [OF f1] by (simp add: len)
  also have "\<dots> = parse_loop file (length pre3)
          ((t', ?k, if cs' \<noteq> [] then length pre2 else 0, ms) # (t, pb, ?pe, cs) # fs) root"
    using step2 by (simp add: len)
  also have "\<dots> = parse_loop file (length pre4) ((t, pb, ?pe, cs @ [n]) # fs) root"
    using parse_loop_END [OF f3] ms_Nil by (auto simp: len n_def)
  finally have until: "parse_loop file (length pre) ((t, pb, pe, cs) # fs) root
      = parse_loop file (length pre4) ((t, pb, ?pe, cs @ [n]) # fs) root" .
  obtain ns where ns: "list_all2 (represents file) ns ts"
    and step5: "parse_loop file (length pre4) ((t, pb, ?pe, cs @ [n]) # fs) root
      = parse_loop file (length pre4 + length (encode_all ts)) ((t, pb, ?pe, cs @ n # ns) # fs) root"
    using "2.IH"(2) [OF f4, of t pb ?pe "cs @ [n]" fs] by auto
  have "list_all2 (represents file) (n # ns) (Tree t' ps cs' # ts)" using n ns by simp
  then show ?case using until step5 by (intro exI [of _ "n # ns"]) (simp add: len add.assoc)
qed

lemma parseTree_encode:
  assumes "length ident = 4"
  shows "\<exists>n. parseTree (ident @ encode t) = Some n \<and> represents (ident @ encode t) n t"
proof -
  obtain tt ps cs where t: "t = Tree tt ps cs" by (cases t)
  define dat where "dat = ident @ encode t"
  define pre1 where "pre1 = ident @ [START, tt]"
  define pre2 where "pre2 = pre1 @ escape ps"
  define pre3 where "pre3 = pre2 @ encode_all cs"
  have f1: "dat = pre1 @ escape ps @ (encode_all cs @ [END])"
    and f2: "dat = pre2 @ encode_all cs @ [END]"
    and f3: "dat = pre3 @ [END]"
    by (simp_all add: dat_def pre1_def pre2_def pre3_def t encode_def)
  have len: "length pre1 = 6" "length pre2 = 6 + length (escape ps)"
      "length pre3 = length pre2 + length (encode_all cs)"
    using assms by (simp_all add: pre1_def pre2_def pre3_def)
  obtain ns where ns: "list_all2 (represents dat) ns cs"
    and step: "parse_loop dat (length pre2) [(tt, 6, 0, [])] None
      = parse_loop dat (length pre3) [(tt, 6, if cs \<noteq> [] then length pre2 else 0, ns)] None"
    using parse_loop_encode_all [OF f2, of tt 6 0 "[]" "[]" None] by (auto simp: len)
  have ns_Nil: "ns = [] \<longleftrightarrow> cs = []" using ns by (metis list_all2_Nil list_all2_Nil2)
  define n where "n = OTB_Node tt 6 (6 + length (escape ps)) ns"
  have "parse_loop dat (length pre3) [(tt, 6, if cs \<noteq> [] then length pre2 else 0, ns)] None
      = parse_loop dat (length pre3 + 1) [] (Some n)"
    by (subst parse_loop.simps) (use f3 ns_Nil in \<open>auto simp: nth_append node_chars n_def len\<close>)
  also have "\<dots> = Some n"
    by (subst parse_loop.simps) (simp add: f3)
  finally have "parse_loop dat 6 [(tt, 6, 0, [])] None = Some n"
    using parse_loop_props [OF f1, of "[(tt, 6, 0, [])]" None] step by (simp add: len)
  moreover have "dat ! 4 = START" "dat ! 5 = tt"
    using assms by (simp_all add: dat_def t encode_def nth_append)
  moreover have "represents dat n t"
    unfolding n_def t using represents_node [OF f1 ns] by (simp add: len)
  ultimately show ?thesis by (auto simp: parseTree_def dat_def)
qed

subsection \<open>A truncated file is rejected\<close>

lemma parse_loop_end_open: "parse_loop file (length file) (f # fs) root = None"
  by (subst parse_loop.simps) simp

lemma parse_loop_cut_props:
  assumes "file = pre @ q" "prefix q (escape ps)"
  shows "parse_loop file (length pre) (f # fs) root = None"
  using assms
proof (induction ps arbitrary: pre q)
  case Nil
  then show ?case using parse_loop_end_open [of "file"] by simp
next
  case (Cons b ps)
  show ?case
  proof (cases "b \<in> {ESCAPE, START, END}")
    case True
    with Cons.prems(2) consider "q = []" | "q = [ESCAPE]" | r where "q = [ESCAPE, b] @ r" "prefix r (escape ps)"
      by (auto simp: prefix_Cons)
    then show ?thesis
    proof cases
      case 1
      then show ?thesis using Cons.prems(1) parse_loop_end_open [of "file"] by simp
    next
      case 2
      then show ?thesis using Cons.prems(1)
        by (subst parse_loop.simps) (simp add: node_chars nth_append)
    next
      case 3
      then have "file = (pre @ [ESCAPE, b]) @ r" using Cons.prems(1) by simp
      from Cons.IH [OF this 3(2)] have "parse_loop file (length pre + 2) (f # fs) root = None" by simp
      then show ?thesis using 3 Cons.prems(1)
        by (subst parse_loop.simps) (simp add: node_chars nth_append)
    qed
  next
    case False
    with Cons.prems(2) consider "q = []" | r where "q = b # r" "prefix r (escape ps)"
      by (auto simp: prefix_Cons)
    then show ?thesis
    proof cases
      case 1
      then show ?thesis using Cons.prems(1) parse_loop_end_open [of "file"] by simp
    next
      case 2
      then have "file = (pre @ [b]) @ r" using Cons.prems(1) by simp
      from Cons.IH [OF this 2(2)] have "parse_loop file (length pre + 1) (f # fs) root = None" by simp
      then show ?thesis using 2 False Cons.prems(1)
        by (subst parse_loop.simps) (simp add: node_chars nth_append)
    qed
  qed
qed

lemma prefix_of_append:
  assumes "prefix q (xs @ ys)"
  obtains "prefix q xs" | r where "q = xs @ r" "prefix r ys"
  using assms by (auto simp: prefix_append)

lemma parse_loop_cut:
  assumes "file = pre @ q" "prefix q (encode_all ts)"
  shows "parse_loop file (length pre) (f # fs) root = None"
  using assms
proof (induction ts arbitrary: pre q f fs rule: encode_all.induct)
  case 1
  then show ?case using parse_loop_end_open [of "file"] by simp
next
  case (2 t' ps cs' ts)
  obtain t pb pe cs where f: "f = (t, pb, pe, cs)" by (cases f)
  from "2.prems"(2) consider "q = []" | "q = [START]"
      | r where "q = [START, t'] @ r" "prefix r (escape ps @ encode_all cs' @ END # encode_all ts)"
    by (auto simp: prefix_Cons)
  then show ?case
  proof cases
    case 1
    then show ?thesis using "2.prems"(1) parse_loop_end_open [of "file"] by simp
  next
    case 2
    then show ?thesis using "2.prems"(1) f by (subst parse_loop.simps) (simp add: nth_append)
  next
    case 3
    define pre1 where "pre1 = pre @ [START, t']"
    define g where "g = (t', length pre1, 0 :: nat, [] :: otb_node list)"
    define h where "h = (t, pb, if cs = [] then length pre else pe, cs)"
    have f1: "file = pre1 @ r" using "2.prems"(1) 3(1) by (simp add: pre1_def)
    have start: "parse_loop file (length pre) (f # fs) root = parse_loop file (length pre1) (g # h # fs) root"
      using parse_loop_START [of "file" pre t' r t pb pe cs fs root] f f1
      by (simp add: pre1_def g_def h_def)
    from 3(2) show ?thesis
    proof (cases rule: prefix_of_append)
      case 1
      then show ?thesis using start parse_loop_cut_props [OF f1] by simp
    next
      case (2 r2)
      define pre2 where "pre2 = pre1 @ escape ps"
      have f2: "file = pre2 @ r2" using f1 2(1) by (simp add: pre2_def)
      have props: "parse_loop file (length pre1) (g # h # fs) root = parse_loop file (length pre2) (g # h # fs) root"
        using parse_loop_props [of "file" pre1 ps r2] f1 2(1) by (simp add: pre2_def)
      from 2(2) show ?thesis
      proof (cases rule: prefix_of_append)
        case 1
        then show ?thesis using start props "2.IH"(1) [OF f2] by simp
      next
        case (2 r3)
        define pre3 where "pre3 = pre2 @ encode_all cs'"
        have f3: "file = pre3 @ r3" using f2 2(1) by (simp add: pre3_def)
        have "file = pre2 @ encode_all cs' @ r3" using f2 2(1) by simp
        from parse_loop_encode_all [OF this] obtain g' where
          kids: "parse_loop file (length pre2) (g # h # fs) root = parse_loop file (length pre3) (g' # h # fs) root"
          unfolding g_def pre3_def by (metis length_append)
        from 2(2) consider "r3 = []" | r4 where "r3 = END # r4" "prefix r4 (encode_all ts)"
          by (auto simp: prefix_Cons)
        then show ?thesis
        proof cases
          case 1
          then show ?thesis using start props kids f3 parse_loop_end_open [of "file" g' "h # fs" root] by simp
        next
          case 2
          have f4: "file = (pre3 @ [END]) @ r4" using f3 2(1) by simp
          obtain u ub ue us where g': "g' = (u, ub, ue, us)" by (cases g')
          have "file = pre3 @ END # r4" using f3 2(1) by simp
          from parse_loop_END [OF this, of u ub ue us] obtain h' where
            "parse_loop file (length pre3) (g' # h # fs) root
              = parse_loop file (length (pre3 @ [END])) (h' # fs) root"
            unfolding g' h_def by (metis length_append_singleton Suc_eq_plus1)
          then show ?thesis using start props kids "2.IH"(2) [OF f4 2(2), of h' fs] by simp
        qed
      qed
    qed
  qed
qed

lemma parseTree_cut:
  assumes "length ident = 4" "q \<noteq> encode t" "prefix q (encode t)" "2 \<le> length q"
  shows "parseTree (ident @ q) = None"
proof -
  obtain tt ps cs where t: "t = Tree tt ps cs" by (cases t)
  from assms(2-4) obtain r where q: "q = START # tt # r" and r: "prefix r (escape ps @ encode_all cs @ [END])"
    and ne: "r \<noteq> escape ps @ encode_all cs @ [END]"
    by (auto simp: t encode_def prefix_Cons)
  define pre where "pre = ident @ [START, tt]"
  have at: "(ident @ q) ! 4 = START" "(ident @ q) ! 5 = tt"
    using assms(1) by (simp_all add: q nth_append)
  have f: "ident @ q = pre @ r" and len: "length pre = 6"
    using assms(1) by (simp_all add: pre_def q)
  have r': "prefix r (escape ps @ encode_all cs)"
    using r ne prefix_snoc [of r "escape ps @ encode_all cs" END] by simp
  have "parse_loop (ident @ q) 6 [(tt, 6, 0, [])] None = None"
    using r'
  proof (cases rule: prefix_of_append)
    case 1
    then show ?thesis using parse_loop_cut_props [OF f] by (simp add: len)
  next
    case (2 r2)
    then have "ident @ q = (pre @ escape ps) @ r2" using f by simp
    from parse_loop_cut [OF this 2(2)] have
      "parse_loop (ident @ q) (6 + length (escape ps)) [(tt, 6, 0, [])] None = None"
      by (simp add: len)
    moreover have "ident @ q = pre @ escape ps @ r2" using f 2(1) by simp
    ultimately show ?thesis using parse_loop_props [of "ident @ q" pre ps r2] by (simp add: len)
  qed
  then show ?thesis using at by (simp add: parseTree_def)
qed

section \<open>Properties\<close>

text \<open>
  C30. The loader recovers every tree from its file: types, properties and children of every
  node, whatever bytes the properties hold. Only a root without properties and children is
  refused, because the constructor takes seven bytes to be too few.
\<close>

theorem otb_tree_is_recovered:
  "case load_tree [a, b, c, d] ([a, b, c, d] @ encode t) of
     None \<Rightarrow> tree_props t = [] \<and> tree_children t = []
   | Some n \<Rightarrow> represents ([a, b, c, d] @ encode t) n t \<and> (tree_props t, tree_children t) \<noteq> ([], [])"
proof -
  obtain tt ps cs where t: "t = Tree tt ps cs" by (cases t)
  have len: "length (encode t) \<le> 3 \<longleftrightarrow> ps = [] \<and> cs = []"
  proof -
    have "length (encode_all cs) \<ge> 3" if "cs \<noteq> []"
      using that by (cases cs rule: encode_all.cases) auto
    then show ?thesis by (cases "cs = []"; cases "escape ps") (auto simp: t encode_def)
  qed
  obtain n where "parseTree ([a, b, c, d] @ encode t) = Some n" "represents ([a, b, c, d] @ encode t) n t"
    using parseTree_encode [of "[a, b, c, d]" t] by auto
  with len t show ?thesis by (auto simp: load_tree_def loader_accepts_def)
qed

text \<open>
  C40. A file cut off anywhere before its end is rejected by the loader.
\<close>

theorem truncated_otb_is_rejected:
  "{k. load_tree [a, b, c, d] (take k ([a, b, c, d] @ encode t)) \<noteq> None} \<subseteq> {4 + length (encode t)..}"
proof
  fix k
  assume "k \<in> {k. load_tree [a, b, c, d] (take k ([a, b, c, d] @ encode t)) \<noteq> None}"
  then have some: "load_tree [a, b, c, d] (take k ([a, b, c, d] @ encode t)) \<noteq> None" by simp
  let ?q = "take (k - 4) (encode t)"
  have k: "8 \<le> k"
    using some by (auto simp: load_tree_def loader_accepts_def split: if_splits)
  have "take k ([a, b, c, d] @ encode t) = take k [a, b, c, d] @ take (k - length [a, b, c, d]) (encode t)"
    by (rule take_append)
  also have "\<dots> = [a, b, c, d] @ ?q" using k by (simp add: numeral_eq_Suc)
  finally have eq: "take k ([a, b, c, d] @ encode t) = [a, b, c, d] @ ?q" .
  have "8 \<le> length (take k ([a, b, c, d] @ encode t))"
    using some by (auto simp: load_tree_def loader_accepts_def split: if_splits)
  then have "2 \<le> length ?q" unfolding eq by simp
  moreover have "parseTree ([a, b, c, d] @ ?q) \<noteq> None"
    using some unfolding eq by (auto simp: load_tree_def split: if_splits)
  ultimately have "?q = encode t"
    using parseTree_cut [of "[a, b, c, d]" ?q t, OF _ _ take_is_prefix] by force
  then have "length (encode t) \<le> k - 4" by (metis length_take min.cobounded2 min.commute)
  then show "k \<in> {4 + length (encode t)..}" using k by simp
qed

end
