(* ===== verification/Item_Attributes.thy ===== *)
theory Item_Attributes
  imports Prelude
begin

text \<open>
  Attributes of an item (src/src/items/functions/item/attribute.hpp and attribute.cpp,
  src/src/enums/item_attribute.hpp, and \<open>ItemProperties\<close> in src/src/items/item.hpp): a vector
  of typed attributes, searched linearly, removed by moving the last one into the gap.
  An absent \<open>attributePtr\<close> and an empty vector behave alike here, so both are the empty
  list. The vector is shown to refine a finite map.
\<close>

section \<open>The types\<close>

datatype item_attr =
    NONE | ACTIONID | UNIQUEID | DESCRIPTION | TEXT | DATE | WRITER | NAME | ARTICLE
  | PLURALNAME | WEIGHT | ATTACK | DEFENSE | EXTRADEFENSE | ARMOR | HITCHANCE | SHOOTRANGE
  | OWNER | DURATION | DECAYSTATE | CORPSEOWNER | CHARGES | FLUIDTYPE | DOORID | SPECIAL
  | IMBUEMENT_SLOT | OPENCONTAINER | QUICKLOOTCONTAINER | DURATION_TIMESTAMP | AMOUNT | TIER
  | STORE | CUSTOM | LOOTMESSAGE_SUFFIX | STORE_INBOX_CATEGORY | OBTAINCONTAINER | AUGMENTS

definition isAttributeInteger :: "item_attr \<Rightarrow> bool" where
  "isAttributeInteger t \<longleftrightarrow> t \<in> set
     [STORE, ACTIONID, UNIQUEID, DATE, WEIGHT, ATTACK, DEFENSE, EXTRADEFENSE, ARMOR, HITCHANCE,
      SHOOTRANGE, OWNER, DURATION, DECAYSTATE, CORPSEOWNER, CHARGES, FLUIDTYPE, DOORID,
      IMBUEMENT_SLOT, OPENCONTAINER, QUICKLOOTCONTAINER, OBTAINCONTAINER, DURATION_TIMESTAMP,
      TIER, AMOUNT]"

definition isAttributeString :: "item_attr \<Rightarrow> bool" where
  "isAttributeString t \<longleftrightarrow> t \<in> set
     [DESCRIPTION, TEXT, WRITER, NAME, ARTICLE, PLURALNAME, SPECIAL, LOOTMESSAGE_SUFFIX,
      STORE_INBOX_CATEGORY]"

text \<open>\<open>std::variant<int64_t, std::string>\<close>; a string is its bytes.\<close>

datatype attr_value = AInt u64 | AStr "u8 list"

type_synonym attrs = "(item_attr \<times> attr_value) list"

definition getDefaultValueForType :: "item_attr \<Rightarrow> attr_value" where
  "getDefaultValueForType t = (if isAttributeInteger t then AInt 0
     else if isAttributeString t then AStr [] else AInt 0)"

text \<open>\<open>Attributes::setValue\<close> keeps the alternative the variant holds.\<close>

fun setValue :: "attr_value \<Rightarrow> attr_value \<Rightarrow> attr_value" where
  "setValue (AInt v) (AInt u) = AInt v"
| "setValue (AStr s) (AStr r) = AStr s"
| "setValue v u = u"

fun getInteger :: "attr_value \<Rightarrow> u64" where
  "getInteger (AInt v) = v"
| "getInteger (AStr s) = 0"

fun getString :: "attr_value \<Rightarrow> u8 list" where
  "getString (AStr s) = s"
| "getString (AInt v) = []"

section \<open>The vector\<close>

fun getAttribute :: "item_attr \<Rightarrow> attrs \<Rightarrow> attr_value option" where
  "getAttribute t [] = None"
| "getAttribute t ((t', v) # xs) = (if t' = t then Some v else getAttribute t xs)"

text \<open>
  \<open>getAttributesByType(type).setValue(value)\<close>: the first attribute of the type, or a new one
  with the default value at the end, gets the value.
\<close>

fun set_by_type :: "item_attr \<Rightarrow> attr_value \<Rightarrow> attrs \<Rightarrow> attrs" where
  "set_by_type t v [] = [(t, setValue v (getDefaultValueForType t))]"
| "set_by_type t v ((t', u) # xs) =
     (if t' = t then (t', setValue v u) # xs else (t', u) # set_by_type t v xs)"

definition setAttribute_int :: "item_attr \<Rightarrow> u64 \<Rightarrow> attrs \<Rightarrow> attrs" where
  "setAttribute_int t v xs = (if \<not> isAttributeInteger t then xs else set_by_type t (AInt v) xs)"

definition setAttribute_str :: "item_attr \<Rightarrow> u8 list \<Rightarrow> attrs \<Rightarrow> attrs" where
  "setAttribute_str t s xs =
     (if \<not> isAttributeString t then xs else if s = [] then xs else set_by_type t (AStr s) xs)"

fun index_of_type :: "item_attr \<Rightarrow> attrs \<Rightarrow> nat option" where
  "index_of_type t [] = None"
| "index_of_type t ((t', v) # xs) = (if t' = t then Some 0 else map_option Suc (index_of_type t xs))"

definition removeAttribute :: "item_attr \<Rightarrow> attrs \<Rightarrow> bool \<times> attrs" where
  "removeAttribute t xs = (case index_of_type t xs of
      None \<Rightarrow> (False, xs)
    | Some i \<Rightarrow> (True, butlast (xs[i := last xs])))"

definition hasAttribute :: "item_attr \<Rightarrow> attrs \<Rightarrow> bool" where
  "hasAttribute t xs = list_ex (\<lambda>(t', v). t' = t) xs"

definition getAttributeValue :: "item_attr \<Rightarrow> attrs \<Rightarrow> u64" where
  "getAttributeValue t xs = (if \<not> isAttributeInteger t then 0
     else case getAttribute t xs of None \<Rightarrow> 0 | Some v \<Rightarrow> getInteger v)"

definition getAttributeString :: "item_attr \<Rightarrow> attrs \<Rightarrow> u8 list" where
  "getAttributeString t xs = (if \<not> isAttributeString t then []
     else case getAttribute t xs of None \<Rightarrow> [] | Some v \<Rightarrow> getString v)"

text \<open>
  \<open>ItemProperties::getAttribute<T>\<close> for an unsigned \<open>T\<close>: the value is cast to \<open>T\<close> first and
  clamped to the range of \<open>T\<close> afterwards, so the clamp never changes it.
\<close>

definition getAttribute_as :: "item_attr \<Rightarrow> attrs \<Rightarrow> 'a::len word" where
  "getAttribute_as t xs = (let x = ucast (getAttributeValue t xs) :: 'a word
     in min (max x 0) (- 1))"

lemma getAttribute_as_truncates: "getAttribute_as t xs = (ucast (getAttributeValue t xs) :: 'a::len word)"
  by (simp add: getAttribute_as_def Let_def max_absorb1 min_absorb1)

text \<open>
  The same for a signed \<open>T\<close>, whose values are words read with \<open>sint\<close>; again the bounds of the
  clamp are those of \<open>T\<close> and the cast has already been made.
\<close>

definition getAttribute_signed :: "item_attr \<Rightarrow> attrs \<Rightarrow> 'a::len word" where
  "getAttribute_signed t xs = ucast (getAttributeValue t xs)"

text \<open>A value too large for the type asked for is therefore not clamped but wraps.\<close>

lemma oversized_value_wraps:
  "(getAttribute_as ATTACK (setAttribute_int ATTACK 256 []) :: u8) = 0"
  unfolding getAttribute_as_truncates by code_simp

section \<open>Refinement of a finite map\<close>

fun typed :: "item_attr \<Rightarrow> attr_value \<Rightarrow> bool" where
  "typed t (AInt v) = isAttributeInteger t"
| "typed t (AStr s) = (isAttributeString t \<and> s \<noteq> [])"

definition attrs_ok :: "attrs \<Rightarrow> bool" where
  "attrs_ok xs \<longleftrightarrow> distinct (map fst xs) \<and> list_all (\<lambda>(t, v). typed t v) xs"

named_theorems attr_simps

lemma integer_not_string: "isAttributeInteger t \<Longrightarrow> \<not> isAttributeString t"
  by (cases t) (simp_all add: isAttributeInteger_def isAttributeString_def)

lemma getAttribute_eq_map_of [attr_simps]: "getAttribute t xs = map_of xs t"
  by (induction xs) auto

lemma hasAttribute_iff [attr_simps]: "hasAttribute t xs \<longleftrightarrow> map_of xs t \<noteq> None"
  by (induction xs) (auto simp: hasAttribute_def)

lemma dom_set_by_type: "fst ` set (set_by_type t v xs) = insert t (fst ` set xs)"
  by (induction t v xs rule: set_by_type.induct) (simp_all add: insert_commute)

lemma typed_setValue: "typed t u \<Longrightarrow> typed t v \<Longrightarrow> setValue v u = v"
  by (cases u; cases v) (auto dest: integer_not_string)

lemma typed_default: "typed t v \<Longrightarrow> setValue v (getDefaultValueForType t) = v"
  by (cases v) (auto simp: getDefaultValueForType_def dest: integer_not_string)

lemma set_by_type_ok:
  assumes "attrs_ok xs" "typed t v"
  shows "attrs_ok (set_by_type t v xs)" and "map_of (set_by_type t v xs) = (map_of xs)(t \<mapsto> v)"
proof -
  have "attrs_ok (set_by_type t v xs) \<and> map_of (set_by_type t v xs) = (map_of xs)(t \<mapsto> v)"
    using assms(1)
  proof (induction xs)
    case Nil
    then show ?case using assms(2) by (simp add: attrs_ok_def typed_default)
  next
    case (Cons p xs)
    obtain t' u where p: "p = (t', u)" by (cases p)
    show ?case
    proof (cases "t' = t")
      case True
      with Cons.prems p have "setValue v u = v" using assms(2) typed_setValue [of t u v] by (simp add: attrs_ok_def)
      with True Cons.prems p assms(2) show ?thesis by (auto simp: attrs_ok_def)
    next
      case False
      moreover have "attrs_ok xs" using Cons.prems by (simp add: attrs_ok_def)
      ultimately show ?thesis using Cons p by (auto simp: attrs_ok_def dom_set_by_type)
    qed
  qed
  then show "attrs_ok (set_by_type t v xs)" and "map_of (set_by_type t v xs) = (map_of xs)(t \<mapsto> v)"
    by auto
qed

lemma setAttribute_int_ok:
  assumes "attrs_ok xs"
  shows "attrs_ok (setAttribute_int t v xs)"
    and "map_of (setAttribute_int t v xs) = (if isAttributeInteger t then (map_of xs)(t \<mapsto> AInt v) else map_of xs)"
  using assms set_by_type_ok [of xs t "AInt v"] by (simp_all add: setAttribute_int_def)

lemma setAttribute_str_ok:
  assumes "attrs_ok xs"
  shows "attrs_ok (setAttribute_str t s xs)"
    and "map_of (setAttribute_str t s xs)
      = (if isAttributeString t \<and> s \<noteq> [] then (map_of xs)(t \<mapsto> AStr s) else map_of xs)"
  using assms set_by_type_ok [of xs t "AStr s"] by (simp_all add: setAttribute_str_def)

lemma index_of_type_None: "index_of_type t xs = None \<longleftrightarrow> t \<notin> fst ` set xs"
  by (induction t xs rule: index_of_type.induct) simp_all

lemma index_of_type_Some: "index_of_type t xs = Some i \<Longrightarrow> i < length xs \<and> fst (xs ! i) = t"
  by (induction xs arbitrary: i) (auto split: if_splits)

lemma mset_removeAttribute:
  assumes "attrs_ok xs"
  shows "mset (snd (removeAttribute t xs)) = filter_mset (\<lambda>p. fst p \<noteq> t) (mset xs)"
proof (cases "index_of_type t xs")
  case None
  then have "filter (\<lambda>p. fst p \<noteq> t) xs = xs"
    unfolding index_of_type_None by (intro filter_True) auto
  then have "filter_mset (\<lambda>p. fst p \<noteq> t) (mset xs) = mset xs" by (metis mset_filter)
  with None show ?thesis by (simp add: removeAttribute_def)
next
  case (Some i)
  then have i: "i < length xs" "fst (xs ! i) = t" by (auto dest: index_of_type_Some)
  then have ne: "xs[i := last xs] \<noteq> []" by auto
  have "last (xs[i := last xs]) = last xs" using ne by (simp add: last_list_update)
  with Some i mset_butlast [OF ne] have eq: "mset (snd (removeAttribute t xs)) = mset xs - {#xs ! i#}"
    by (simp add: removeAttribute_def mset_update)
  obtain ys zs where xs: "xs = ys @ xs ! i # zs" using i(1) by (metis id_take_nth_drop)
  have "distinct (map fst ys @ t # map fst zs)"
    using assms i(2) arg_cong [OF xs, of "map fst"] by (simp add: attrs_ok_def)
  then have "filter (\<lambda>p. fst p \<noteq> t) ys = ys" "filter (\<lambda>p. fst p \<noteq> t) zs = zs"
    by (force intro!: filter_True)+
  then have "filter (\<lambda>p. fst p \<noteq> t) xs = ys @ zs" using xs i(2)
    by (metis (mono_tags, lifting) filter.simps(2) filter_append)
  then have "filter_mset (\<lambda>p. fst p \<noteq> t) (mset xs) = mset (ys @ zs)" by (metis mset_filter)
  moreover have "mset xs - {#xs ! i#} = mset (ys @ zs)" using arg_cong [OF xs, of mset] by simp
  ultimately show ?thesis using eq by simp
qed

lemma map_of_by_set:
  assumes "distinct (map fst xs)" "distinct (map fst ys)" "set xs = set ys"
  shows "map_of xs = map_of ys"
  using assms by (intro map_of_eqI) auto

lemma removeAttribute_ok:
  assumes "attrs_ok xs"
  shows "attrs_ok (snd (removeAttribute t xs))"
    and "map_of (snd (removeAttribute t xs)) = (map_of xs)(t := None)"
proof -
  let ?ys = "filter (\<lambda>p. fst p \<noteq> t) xs"
  have m: "mset (snd (removeAttribute t xs)) = mset ?ys" using mset_removeAttribute [OF assms, of t] by simp
  have d: "distinct (map fst ?ys)" using assms by (simp add: attrs_ok_def distinct_map_filter)
  have d2: "distinct (map fst (snd (removeAttribute t xs)))"
    using d m by (metis mset_eq_imp_distinct_iff mset_map)
  show "attrs_ok (snd (removeAttribute t xs))"
    using assms d2 mset_eq_setD [OF m] by (auto simp: attrs_ok_def list_all_iff)
  have "map_of (snd (removeAttribute t xs)) = map_of ?ys"
    using mset_eq_setD [OF m] by (rule map_of_by_set [OF d2 d])
  also have "\<dots> = (map_of xs)(t := None)"
    by (induction xs) auto
  finally show "map_of (snd (removeAttribute t xs)) = (map_of xs)(t := None)" .
qed

lemma attrs_ok_Nil [simp]: "attrs_ok []"
  by (simp add: attrs_ok_def)

lemma attrs_ok_typed:
  assumes "attrs_ok xs" "map_of xs t = Some v"
  shows "typed t v"
proof -
  have "(t, v) \<in> set xs" using assms(2) by (rule map_of_SomeD)
  moreover have "\<forall>p\<in>set xs. case p of (t, v) \<Rightarrow> typed t v"
    using assms(1) by (simp add: attrs_ok_def list_all_iff)
  ultimately show ?thesis by blast
qed

lemma card_of_attrs: "attrs_ok xs \<Longrightarrow> length xs = card (dom (map_of xs))"
  using distinct_card [of "map fst xs"] by (simp add: attrs_ok_def dom_map_of_conv_image_fst)

lemma getAttributeValue_map:
  assumes "attrs_ok xs"
  shows "getAttributeValue t xs = (case map_of xs t of Some (AInt v) \<Rightarrow> v | _ \<Rightarrow> 0)"
proof (cases "map_of xs t")
  case None
  then show ?thesis by (simp add: getAttributeValue_def attr_simps)
next
  case (Some v)
  with attrs_ok_typed [OF assms Some] show ?thesis
    by (cases v) (auto simp: getAttributeValue_def attr_simps dest: integer_not_string)
qed

lemma getAttributeString_map:
  assumes "attrs_ok xs"
  shows "getAttributeString t xs = (case map_of xs t of Some (AStr s) \<Rightarrow> s | _ \<Rightarrow> [])"
proof (cases "map_of xs t")
  case None
  then show ?thesis by (simp add: getAttributeString_def attr_simps)
next
  case (Some v)
  with attrs_ok_typed [OF assms Some] show ?thesis
    by (cases v) (auto simp: getAttributeString_def attr_simps dest: integer_not_string)
qed

subsection \<open>Sequences of updates\<close>

datatype attr_op = SetInt item_attr u64 | SetStr item_attr "u8 list" | Remove item_attr

fun attr_step :: "attr_op \<Rightarrow> attrs \<Rightarrow> attrs" where
  "attr_step (SetInt t v) xs = setAttribute_int t v xs"
| "attr_step (SetStr t s) xs = setAttribute_str t s xs"
| "attr_step (Remove t) xs = snd (removeAttribute t xs)"

fun map_step :: "attr_op \<Rightarrow> (item_attr \<rightharpoonup> attr_value) \<Rightarrow> (item_attr \<rightharpoonup> attr_value)" where
  "map_step (SetInt t v) m = (if isAttributeInteger t then m(t \<mapsto> AInt v) else m)"
| "map_step (SetStr t s) m = (if isAttributeString t \<and> s \<noteq> [] then m(t \<mapsto> AStr s) else m)"
| "map_step (Remove t) m = m(t := None)"

lemma attr_step_ok:
  assumes "attrs_ok xs"
  shows "attrs_ok (attr_step op xs)" and "map_of (attr_step op xs) = map_step op (map_of xs)"
  using assms setAttribute_int_ok setAttribute_str_ok removeAttribute_ok by (cases op; simp)+

lemma attr_steps_ok:
  "attrs_ok xs \<Longrightarrow> attrs_ok (fold attr_step ops xs) \<and> map_of (fold attr_step ops xs) = fold map_step ops (map_of xs)"
  by (induction ops arbitrary: xs) (auto simp: attr_step_ok)

text \<open>
  C39. The attribute vector of an item behaves as a finite map: after any sequence of sets
  and removals, looking up an attribute, as an integer, as a string or only for presence,
  answers what the map built by the same updates answers, and no type occurs twice.
\<close>

theorem attributes_refine_a_map:
  "distinct (map fst (fold attr_step ops []))
    \<and> length (fold attr_step ops []) = card (dom (fold map_step ops Map.empty))
    \<and> hasAttribute t (fold attr_step ops []) = (fold map_step ops Map.empty t \<noteq> None)
    \<and> getAttributeValue t (fold attr_step ops [])
        = (case fold map_step ops Map.empty t of Some (AInt v) \<Rightarrow> v | _ \<Rightarrow> 0)
    \<and> getAttributeString t (fold attr_step ops [])
        = (case fold map_step ops Map.empty t of Some (AStr s) \<Rightarrow> s | _ \<Rightarrow> [])"
proof -
  define xs where "xs = fold attr_step ops []"
  define m where "m = fold map_step ops Map.empty"
  have ok: "attrs_ok xs" and m: "map_of xs = m"
    using attr_steps_ok [of "[]" ops] by (simp_all add: xs_def m_def)
  show ?thesis
    using ok card_of_attrs [OF ok] getAttributeValue_map [OF ok] getAttributeString_map [OF ok]
    unfolding xs_def [symmetric] m_def [symmetric] m by (simp add: attrs_ok_def attr_simps m)
qed

end
