(* ===== verification/Custom_Attributes.thy ===== *)
theory Custom_Attributes
  imports Prop_Stream
begin

text \<open>
  Custom attributes of an item (src/src/items/functions/item/custom_attribute.hpp and
  custom_attribute.cpp, and the custom attribute map of
  src/src/items/functions/item/attribute.cpp): values of four types in a map ordered by key,
  and how they are written to and read from a stream. A \<open>double\<close> is kept as its 64 bits,
  which is all that is done with it here; the key stored inside a value is never read by
  the code modelled.
\<close>

datatype custom_value = CInt u64 | CStr "u8 list" | CDouble u64 | CBool bool

fun custom_getInteger :: "custom_value \<Rightarrow> u64" where
  "custom_getInteger (CInt v) = v"
| "custom_getInteger _ = 0"

fun custom_getString :: "custom_value \<Rightarrow> u8 list" where
  "custom_getString (CStr s) = s"
| "custom_getString _ = []"

fun serialize :: "custom_value \<Rightarrow> u8 list" where
  "serialize (CStr s) = ps_write 1 (1 :: u8) @ writeString s"
| "serialize (CInt v) = ps_write 1 (2 :: u8) @ ps_write 8 v"
| "serialize (CDouble d) = ps_write 1 (3 :: u8) @ ps_write 8 d"
| "serialize (CBool b) = ps_write 1 (4 :: u8) @ ps_write 1 (if b then 1 else 0 :: u8)"

definition unserialize :: "stream \<Rightarrow> custom_value option \<times> stream" where
  "unserialize s = (case read_int ps_read 1 s of
      None \<Rightarrow> (None, s)
    | Some (type :: u8, s1) \<Rightarrow>
        if type = 1 then
          (case readString s1 of
             (None, s2) \<Rightarrow> (None, s2)
           | (Some str, s2) \<Rightarrow> (Some (CStr str), s2))
        else if type = 2 then
          (case read_int ps_read 8 s1 of None \<Rightarrow> (None, s1) | Some (v, s2) \<Rightarrow> (Some (CInt v), s2))
        else if type = 3 then
          (case read_int ps_read 8 s1 of None \<Rightarrow> (None, s1) | Some (d, s2) \<Rightarrow> (Some (CDouble d), s2))
        else if type = 4 then
          (case read_int ps_read 1 s1 of
             None \<Rightarrow> (None, s1)
           | Some (b :: u8, s2) \<Rightarrow> (Some (CBool (b \<noteq> 0)), s2))
        else (None, s1))"

text \<open>A string too long for its 16-bit length is written as the empty string.\<close>

fun as_saved :: "custom_value \<Rightarrow> custom_value" where
  "as_saved (CStr s) = CStr (if length s \<le> 65535 then s else [])"
| "as_saved v = v"

lemma unserialize_serialize [stream_simps]:
  "unserialize (serialize v @ rest) = (Some (as_saved v), rest)"
  by (cases v) (simp_all add: unserialize_def stream_simps)

section \<open>The map of custom attributes\<close>

text \<open>\<open>std::map<std::string, CustomAttribute>\<close>: ordered by key, byte by byte.\<close>

type_synonym custom_map = "(u8 list \<times> custom_value) list"

fun key_less :: "u8 list \<Rightarrow> u8 list \<Rightarrow> bool" where
  "key_less xs [] = False"
| "key_less [] (y # ys) = True"
| "key_less (x # xs) (y # ys) = (x < y \<or> (x = y \<and> key_less xs ys))"

fun map_put :: "u8 list \<Rightarrow> custom_value \<Rightarrow> custom_map \<Rightarrow> custom_map" where
  "map_put k v [] = [(k, v)]"
| "map_put k v ((k', v') # m) =
     (if k = k' then (k, v) # m
      else if key_less k k' then (k, v) # (k', v') # m
      else (k', v') # map_put k v m)"

definition addCustomAttribute :: "u8 list \<Rightarrow> custom_value \<Rightarrow> custom_map \<Rightarrow> custom_map" where
  "addCustomAttribute key v m = map_put (asLowerCaseString key) v m"

definition getCustomAttribute :: "u8 list \<Rightarrow> custom_map \<Rightarrow> custom_value option" where
  "getCustomAttribute name m = map_of m (asLowerCaseString name)"

definition removeCustomAttribute :: "u8 list \<Rightarrow> custom_map \<Rightarrow> bool \<times> custom_map" where
  "removeCustomAttribute name m =
     (let key = asLowerCaseString name
      in if map_of m key = None then (False, m) else (True, filter (\<lambda>(k, v). k \<noteq> key) m))"

text \<open>The loop that writes the map, and the one that reads it, one attribute at a time.\<close>

definition serialize_customs :: "custom_map \<Rightarrow> u8 list" where
  "serialize_customs m = ps_write 8 (of_nat (length m) :: u64)
     @ concat (map (\<lambda>(k, v). writeString k @ serialize v) m)"

fun unserialize_customs ::
    "(u8 list \<Rightarrow> custom_value \<Rightarrow> 'i \<Rightarrow> 'i) \<Rightarrow> nat \<Rightarrow> 'i \<Rightarrow> stream \<Rightarrow> bool \<times> 'i \<times> stream" where
  "unserialize_customs add 0 it s = (True, it, s)"
| "unserialize_customs add (Suc n) it s = (case readString s of
      (None, s1) \<Rightarrow> (False, it, s1)
    | (Some key, s1) \<Rightarrow> (case unserialize s1 of
        (None, s2) \<Rightarrow> (False, it, s2)
      | (Some v, s2) \<Rightarrow> unserialize_customs add n (add key v it) s2))"

lemma key_less_irrefl: "\<not> key_less k k"
  by (induction k) auto

lemma key_less_trans: "key_less a b \<Longrightarrow> key_less b c \<Longrightarrow> key_less a c"
proof (induction a b arbitrary: c rule: key_less.induct)
  case (2 y ys)
  then show ?case by (cases c) auto
next
  case (3 x xs y ys)
  then show ?case by (cases c) auto
qed simp

definition map_ok :: "custom_map \<Rightarrow> bool" where
  "map_ok m \<longleftrightarrow> sorted_wrt key_less (map fst m)
     \<and> list_all (\<lambda>(k, v). asLowerCaseString k = k \<and> length k \<le> 65535) m \<and> length m < 2 ^ 64"

lemma map_put_last: "list_all (\<lambda>(k', v'). key_less k' k) m \<Longrightarrow> map_put k v m = m @ [(k, v)]"
proof (induction m)
  case (Cons p m)
  obtain k' v' where p: "p = (k', v')" by (cases p)
  have "key_less k' k" using Cons.prems p by simp
  then have "k \<noteq> k'" "\<not> key_less k k'" using key_less_irrefl key_less_trans by blast+
  then show ?case using Cons p by simp
qed simp

lemma map_of_map_put: "map_of (map_put k v m) = (map_of m)(k \<mapsto> v)"
  by (induction m) auto

lemma list_all_map_put:
  "list_all P (map_put k v m) \<Longrightarrow> P (k, v)" "list_all P m \<Longrightarrow> P (k, v) \<Longrightarrow> list_all P (map_put k v m)"
  by (induction m) (auto split: if_splits)

lemma key_less_linear: "key_less a b \<or> a = b \<or> key_less b a"
  by (induction a b rule: key_less.induct) (auto, metis neq_Nil_conv key_less.simps(2))

lemma map_put_sorted:
  "sorted_wrt key_less (map fst m) \<Longrightarrow> sorted_wrt key_less (map fst (map_put k v m))"
proof (induction m)
  case (Cons p m)
  obtain k' v' where p: "p = (k', v')" by (cases p)
  consider "k = k'" | "key_less k k'" "k \<noteq> k'" | "key_less k' k" "k \<noteq> k'" "\<not> key_less k k'"
    using key_less_linear key_less_irrefl key_less_trans by blast
  then show ?case
  proof cases
    case 3
    have "\<forall>x\<in>set (map fst (map_put k v m)). key_less k' x"
    proof -
      have "list_all (\<lambda>q. key_less k' (fst q)) (map_put k v m)"
        using Cons.prems p 3 by (intro list_all_map_put(2)) (auto simp: list_all_iff)
      then show ?thesis by (simp add: list_all_iff)
    qed
    with 3 Cons p show ?thesis by simp
  qed (use Cons p in \<open>auto intro: key_less_trans\<close>)
qed simp

lemma unserialize_customs_fold:
  assumes "list_all (\<lambda>(k, v). length k \<le> 65535) m"
  shows "unserialize_customs add (length m) it (concat (map (\<lambda>(k, v). writeString k @ serialize v) m) @ rest)
    = (True, fold (\<lambda>(k, v). add k (as_saved v)) m it, rest)"
  using assms
proof (induction m arbitrary: it)
  case (Cons p m)
  then show ?case by (cases p) (simp add: stream_simps)
qed simp

text \<open>Attributes that come in the order of their keys are appended.\<close>

lemma fold_addCustomAttribute:
  assumes "sorted_wrt key_less (map fst (acc @ m))" "list_all (\<lambda>(k, v). asLowerCaseString k = k) m"
  shows "fold (\<lambda>(k, v). addCustomAttribute k (as_saved v)) m acc = acc @ map (\<lambda>(k, v). (k, as_saved v)) m"
  using assms
proof (induction m arbitrary: acc)
  case (Cons p m)
  obtain k v where p: "p = (k, v)" by (cases p)
  have "list_all (\<lambda>(k', v'). key_less k' k) acc"
    using Cons.prems(1) p by (auto simp: sorted_wrt_append list_all_iff)
  then have "addCustomAttribute k (as_saved v) acc = acc @ [(k, as_saved v)]"
    using Cons.prems(2) p by (simp add: addCustomAttribute_def map_put_last)
  moreover have "sorted_wrt key_less (map fst ((acc @ [(k, as_saved v)]) @ m))" using Cons.prems(1) p by simp
  ultimately show ?case using Cons.IH [of "acc @ [(k, as_saved v)]"] Cons.prems(2) p by simp
qed simp

end
