(* ===== verification/Items.thy ===== *)
theory Items
  imports Item_Attributes Custom_Attributes
begin

text \<open>
  A single item (src/src/items/item.hpp, src/src/items/item.cpp): its type, count,
  attributes and custom attributes, how it is created, its subtype, weight and worth as a
  stack, when two items may be stacked, and how a change of type affects its decay.
  The table of item types (\<open>Item::items\<close>, loaded from items.xml) is an argument.
\<close>

section \<open>Item types and items\<close>

record itemtype =
  ty_stackable :: bool
  ty_fluidContainer :: bool
  ty_splash :: bool
  ty_movable :: bool
  ty_pickupable :: bool
  ty_corpse :: bool
  ty_quiver :: bool
  ty_ammo :: bool
  ty_charges :: u32
  ty_stackSize :: u8
  ty_weight :: u32
  ty_decayTime :: u32
  ty_decayTo :: int
  ty_stopTime :: bool

type_synonym items = "u16 \<Rightarrow> itemtype"

record item =
  it_id :: u16
  it_count :: u8
  it_attrs :: attrs
  it_custom :: custom_map

abbreviation set_int :: "item_attr \<Rightarrow> u64 \<Rightarrow> item \<Rightarrow> item" where
  "set_int t v it \<equiv> it\<lparr>it_attrs := setAttribute_int t v (it_attrs it)\<rparr>"

abbreviation set_str :: "item_attr \<Rightarrow> u8 list \<Rightarrow> item \<Rightarrow> item" where
  "set_str t s it \<equiv> it\<lparr>it_attrs := setAttribute_str t s (it_attrs it)\<rparr>"

abbreviation drop_attr :: "item_attr \<Rightarrow> item \<Rightarrow> item" where
  "drop_attr t it \<equiv> it\<lparr>it_attrs := snd (removeAttribute t (it_attrs it))\<rparr>"

abbreviation has :: "item_attr \<Rightarrow> item \<Rightarrow> bool" where
  "has t it \<equiv> hasAttribute t (it_attrs it)"

section \<open>Decay state, duration\<close>

definition DECAYING_FALSE :: u8 where "DECAYING_FALSE = 0"
definition DECAYING_TRUE :: u8 where "DECAYING_TRUE = 1"
definition DECAYING_PENDING :: u8 where "DECAYING_PENDING = 2"
definition DECAYING_STOPPING :: u8 where "DECAYING_STOPPING = 3"

lemmas decay_states = DECAYING_FALSE_def DECAYING_TRUE_def DECAYING_PENDING_def DECAYING_STOPPING_def

text \<open>\<open>std::max<int32_t>(0, x)\<close>, the word read as a signed number.\<close>

definition max0 :: "u32 \<Rightarrow> u32" where
  "max0 x = (if sint x < 0 then 0 else x)"

definition setDuration :: "u32 \<Rightarrow> item \<Rightarrow> item" where
  "setDuration time it = set_int DURATION (scast (max0 time)) it"

definition setDecaying :: "u8 \<Rightarrow> item \<Rightarrow> item" where
  "setDecaying state it =
     (let it1 = set_int DECAYSTATE (ucast state) it
      in if state = DECAYING_FALSE then drop_attr DURATION_TIMESTAMP it1 else it1)"

definition getDecaying :: "item \<Rightarrow> u8" where
  "getDecaying it = ucast (getAttributeValue DECAYSTATE (it_attrs it))"

text \<open>\<open>getDuration\<close>; \<open>now\<close> is \<open>OTSYS_TIME()\<close> in milliseconds.\<close>

definition getDuration :: "u64 \<Rightarrow> item \<Rightarrow> u32" where
  "getDuration now it =
     (let decayState = getDecaying it
      in if decayState = DECAYING_TRUE \<or> decayState = DECAYING_STOPPING
         then max0 (getAttribute_signed DURATION_TIMESTAMP (it_attrs it) - ucast now)
         else getAttribute_signed DURATION (it_attrs it))"

definition getDefaultDuration :: "items \<Rightarrow> item \<Rightarrow> u32" where
  "getDefaultDuration T it = ty_decayTime (T (it_id it)) * 1000"

definition setDefaultDuration :: "items \<Rightarrow> item \<Rightarrow> item" where
  "setDefaultDuration T it =
     (let duration = getDefaultDuration T it in if duration \<noteq> 0 then setDuration duration it else it)"

section \<open>Creation and subtype\<close>

definition is_fluid :: "items \<Rightarrow> item \<Rightarrow> bool" where
  "is_fluid T it \<longleftrightarrow> ty_fluidContainer (T (it_id it)) \<or> ty_splash (T (it_id it))"

definition setItemCount :: "u8 \<Rightarrow> item \<Rightarrow> item" where
  "setItemCount n it = it\<lparr>it_count := n\<rparr>"

text \<open>The constructor \<open>Item(itemId, itemCount)\<close>.\<close>

definition new_item :: "items \<Rightarrow> u16 \<Rightarrow> u16 \<Rightarrow> item" where
  "new_item T itemId itemCount =
     (let it0 = \<lparr>it_id = itemId, it_count = 1, it_attrs = [], it_custom = []\<rparr>;
          ty = T itemId
      in setDefaultDuration T
          (if ty_fluidContainer ty \<or> ty_splash ty then
             set_int FLUIDTYPE (ucast (min (max itemCount 1) 18)) it0
           else if ty_stackable ty then
             (if itemCount \<noteq> 0 then setItemCount (ucast itemCount) it0
              else if ty_charges ty \<noteq> 0 then setItemCount (ucast (ty_charges ty)) it0
              else it0)
           else if ty_charges ty \<noteq> 0 then
             set_int CHARGES (if itemCount \<noteq> 0 then ucast itemCount else ucast (ty_charges ty)) it0
           else it0))"

definition getSubType :: "items \<Rightarrow> item \<Rightarrow> u16" where
  "getSubType T it =
     (if is_fluid T it then getAttribute_as FLUIDTYPE (it_attrs it)
      else if ty_stackable (T (it_id it)) then ucast (it_count it)
      else if ty_charges (T (it_id it)) \<noteq> 0 then getAttribute_as CHARGES (it_attrs it)
      else ucast (it_count it))"

definition setSubType :: "items \<Rightarrow> u16 \<Rightarrow> item \<Rightarrow> item" where
  "setSubType T n it =
     (if is_fluid T it then set_int FLUIDTYPE (ucast n) it
      else if ty_stackable (T (it_id it)) then setItemCount (ucast n) it
      else if ty_charges (T (it_id it)) \<noteq> 0 then set_int CHARGES (ucast n) it
      else setItemCount (ucast n) it)"

definition countByType :: "items \<Rightarrow> item \<Rightarrow> int \<Rightarrow> u32" where
  "countByType T it subType =
     (if subType = -1 \<or> subType = uint (getSubType T it) then ucast (it_count it) else 0)"

section \<open>Weight, owner, equality\<close>

definition getBaseWeight :: "items \<Rightarrow> item \<Rightarrow> u32" where
  "getBaseWeight T it =
     (if has WEIGHT it then getAttribute_as WEIGHT (it_attrs it) else ty_weight (T (it_id it)))"

definition getWeight :: "items \<Rightarrow> item \<Rightarrow> u32" where
  "getWeight T it =
     (if ty_stackable (T (it_id it)) then getBaseWeight T it * max 1 (ucast (it_count it))
      else getBaseWeight T it)"

definition getStackSize :: "items \<Rightarrow> item \<Rightarrow> u8" where
  "getStackSize T it = (if ty_stackable (T (it_id it)) then ty_stackSize (T (it_id it)) else 1)"

definition getOwnerId :: "item \<Rightarrow> u32" where
  "getOwnerId it = (if has OWNER it then getAttribute_as OWNER (it_attrs it) else 0)"

definition isStoreItem :: "item \<Rightarrow> bool" where
  "isStoreItem it \<longleftrightarrow> 0 < sint (getAttributeValue STORE (it_attrs it))"

definition isRewardCorpse :: "item \<Rightarrow> bool" where
  "isRewardCorpse it \<longleftrightarrow> (getAttribute_as CORPSEOWNER (it_attrs it) :: u32) = 0x7FFFFFFF"

text \<open>
  \<open>Item::equals\<close>, with the owner identifiers as arguments because \<open>getOwnerId\<close> is virtual.
  Attributes only one of the two items has do not matter.
\<close>

definition attr_agrees :: "item_attr \<times> attr_value \<Rightarrow> item_attr \<times> attr_value \<Rightarrow> bool" where
  "attr_agrees = (\<lambda>(t, v) (t', u). t \<noteq> t'
     \<or> \<not> (isAttributeInteger t \<and> getInteger v \<noteq> getInteger u)
       \<and> \<not> (isAttributeString t \<and> getString v \<noteq> getString u))"

definition equals_owned :: "u32 \<Rightarrow> u32 \<Rightarrow> item \<Rightarrow> item \<Rightarrow> bool" where
  "equals_owned owner compareOwner it compareItem \<longleftrightarrow>
     it_id it = it_id compareItem
     \<and> isStoreItem it = isStoreItem compareItem
     \<and> owner = compareOwner
     \<and> list_all (\<lambda>a. fst a = STORE \<or> list_all (attr_agrees a) (it_attrs compareItem)) (it_attrs it)"

definition equals :: "item \<Rightarrow> item \<Rightarrow> bool" where
  "equals it compareItem = equals_owned (getOwnerId it) (getOwnerId compareItem) it compareItem"

section \<open>Change of type\<close>

definition setID :: "items \<Rightarrow> u16 \<Rightarrow> item \<Rightarrow> item" where
  "setID T newid it0 =
     (let prevIt = T (it_id it0);
          it1 = it0\<lparr>it_id := newid\<rparr>;
          ty = T newid;
          newDuration = ty_decayTime ty * 1000;
          it2 = (if newDuration = 0 \<and> \<not> ty_stopTime ty \<and> ty_decayTo ty < 0
                 then drop_attr DURATION
                   (if has DECAYSTATE it1 then setDecaying DECAYING_STOPPING it1 else it1)
                 else it1);
          it3 = (if \<not> isRewardCorpse it2 then drop_attr CORPSEOWNER it2 else it2)
      in if 0 < newDuration \<and> (\<not> ty_stopTime prevIt \<or> \<not> has DURATION it3)
         then setDuration newDuration (setDecaying DECAYING_PENDING it3)
         else it3)"

text \<open>\<open>setDefaultSubtype\<close>.\<close>

definition setDefaultSubtype :: "items \<Rightarrow> item \<Rightarrow> item" where
  "setDefaultSubtype T it =
     (let ty = T (it_id it); it1 = setItemCount 1 it
      in if ty_charges ty \<noteq> 0 then
           (if ty_stackable ty then setItemCount (ucast (ty_charges ty)) it1
            else set_int CHARGES (ucast (ty_charges ty)) it1)
         else it1)"

section \<open>Attributes of an item stay well formed\<close>

definition item_ok :: "item \<Rightarrow> bool" where
  "item_ok it \<longleftrightarrow> attrs_ok (it_attrs it)"

named_theorems item_simps

lemma integer_attrs [item_simps]:
  "isAttributeInteger FLUIDTYPE" "isAttributeInteger CHARGES" "isAttributeInteger DURATION"
  "isAttributeInteger DECAYSTATE" "isAttributeInteger DURATION_TIMESTAMP" "isAttributeInteger WEIGHT"
  "isAttributeInteger OWNER" "isAttributeInteger STORE" "isAttributeInteger CORPSEOWNER"
  by (simp_all add: isAttributeInteger_def)

lemma getAttributeValue_ok [item_simps]:
  "attrs_ok xs \<Longrightarrow> isAttributeInteger t \<Longrightarrow>
     getAttributeValue t' (setAttribute_int t v xs) = (if t' = t then v else getAttributeValue t' xs)"
  by (simp add: getAttributeValue_map setAttribute_int_ok)

lemma hasAttribute_ok [item_simps]:
  "attrs_ok xs \<Longrightarrow> isAttributeInteger t \<Longrightarrow>
     hasAttribute t' (setAttribute_int t v xs) = (t' = t \<or> hasAttribute t' xs)"
  by (simp add: attr_simps setAttribute_int_ok)

lemma getAttributeValue_remove [item_simps]:
  "attrs_ok xs \<Longrightarrow>
     getAttributeValue t' (snd (removeAttribute t xs)) = (if t' = t then 0 else getAttributeValue t' xs)"
  by (simp add: getAttributeValue_map removeAttribute_ok)

lemma hasAttribute_remove [item_simps]:
  "attrs_ok xs \<Longrightarrow> hasAttribute t' (snd (removeAttribute t xs)) = (t' \<noteq> t \<and> hasAttribute t' xs)"
  by (simp add: attr_simps removeAttribute_ok)

lemma item_ok_updates [item_simps]:
  "item_ok it \<Longrightarrow> item_ok (set_int t v it)"
  "item_ok it \<Longrightarrow> item_ok (set_str t s it)"
  "item_ok it \<Longrightarrow> item_ok (drop_attr t it)"
  "item_ok it \<Longrightarrow> item_ok (setItemCount n it)"
  "item_ok it \<Longrightarrow> item_ok (it\<lparr>it_id := i\<rparr>)"
  "item_ok it \<Longrightarrow> item_ok (it\<lparr>it_custom := m\<rparr>)"
  by (simp_all add: item_ok_def setAttribute_int_ok setAttribute_str_ok removeAttribute_ok setItemCount_def)

lemma item_ok_operations:
  assumes "item_ok it"
  shows "item_ok (setDuration d it)" "item_ok (setDecaying st it)" "item_ok (setSubType T n it)"
    "item_ok (setID T i it)" "item_ok (setDefaultSubtype T it)" "item_ok (setDefaultDuration T it)"
  using assms
  by (simp_all add: item_ok_def setDuration_def setDecaying_def setSubType_def setID_def
      setDefaultSubtype_def setDefaultDuration_def setItemCount_def Let_def setAttribute_int_ok removeAttribute_ok)

lemma item_ok_new: "item_ok (new_item T i n)"
  unfolding new_item_def Let_def
  by (rule item_ok_operations(6)) (simp add: item_ok_def setItemCount_def setAttribute_int_ok)

section \<open>Stacking\<close>

lemma attr_agrees_sym: "attr_agrees a b = attr_agrees b a"
  by (cases a; cases b) (auto simp: attr_agrees_def)

lemma equals_iff:
  "equals a b \<longleftrightarrow> it_id a = it_id b \<and> isStoreItem a = isStoreItem b \<and> getOwnerId a = getOwnerId b
    \<and> (\<forall>p\<in>set (it_attrs a). fst p \<noteq> STORE \<longrightarrow> (\<forall>q\<in>set (it_attrs b). attr_agrees p q))"
  by (auto simp: equals_def equals_owned_def list_all_iff)

lemma equals_sym1:
  assumes "equals a b"
  shows "equals b a"
proof -
  have "attr_agrees q p" if "q \<in> set (it_attrs b)" "fst q \<noteq> STORE" "p \<in> set (it_attrs a)" for p q
  proof (cases "fst p = fst q")
    case True
    then show ?thesis using assms that by (auto simp: equals_iff attr_agrees_sym [of q p])
  next
    case False
    then show ?thesis by (auto simp: attr_agrees_def split: prod.split)
  qed
  then show ?thesis using assms by (auto simp: equals_iff)
qed

lemma equals_refl:
  assumes "item_ok it"
  shows "equals it it"
proof -
  have "p = q" if "p \<in> set (it_attrs it)" "q \<in> set (it_attrs it)" "fst p = fst q" for p q
    using assms that by (auto simp: item_ok_def attrs_ok_def distinct_map inj_on_def)
  moreover have "attr_agrees p q" if "fst p \<noteq> fst q" for p q
    using that by (auto simp: attr_agrees_def split: prod.split)
  moreover have "attr_agrees p p" for p by (auto simp: attr_agrees_def split: prod.split)
  ultimately show ?thesis unfolding equals_iff by metis
qed

text \<open>
  Two items with different charges both equal one without the attribute, so a stack may
  swallow an item whose attributes it does not have.
\<close>

definition plain :: "u16 \<Rightarrow> attrs \<Rightarrow> item" where
  "plain i xs = \<lparr>it_id = i, it_count = 1, it_attrs = xs, it_custom = []\<rparr>"

lemma equals_not_transitive:
  "equals (plain 1 [(CHARGES, AInt 1)]) (plain 1 []) \<and> equals (plain 1 []) (plain 1 [(CHARGES, AInt 2)])
    \<and> \<not> equals (plain 1 [(CHARGES, AInt 1)]) (plain 1 [(CHARGES, AInt 2)])"
  by code_simp

lemma ucast_low_byte: "ucast (ucast (n :: u16) :: u8) = n AND 255"
proof -
  have *: "(255 :: u16) = mask 8" by (simp add: mask_eq_exp_minus_1)
  show ?thesis unfolding * by (intro bit_word_eqI) (auto simp: bit_simps)
qed

section \<open>Properties\<close>

text \<open>
  A subtype set is the subtype read, for fluids, stacks and charged items alike, except
  that a count is kept in eight bits, so a larger one is truncated.
\<close>

theorem subtype_is_kept:
  "{it. item_ok it \<and> getSubType T (setSubType T n it)
      \<noteq> (if is_fluid T it \<or> \<not> ty_stackable (T (it_id it)) \<and> ty_charges (T (it_id it)) \<noteq> 0
          then n else n AND 255)} = {}"
proof -
  have "ucast (ucast n :: u64) = n" by (intro bit_word_eqI) (simp add: bit_simps)
  moreover have "ucast (ucast n :: u8) = n AND 255"
    by (rule ucast_low_byte)
  ultimately show ?thesis
    by (auto simp: getSubType_def setSubType_def is_fluid_def setItemCount_def getAttribute_as_truncates
        item_simps item_ok_def)
qed

end
