(* ===== verification/Item_Serialize.thy ===== *)
theory Item_Serialize
  imports Items
begin

text \<open>
  How an item is saved and loaded (src/src/items/item.cpp: \<open>Item::serializeAttr\<close>,
  \<open>Item::readAttr\<close>, \<open>Item::unserializeAttr\<close>): a sequence of attribute codes, each followed by
  its value, up to a zero byte or the end of the stream. The state that is loaded is the
  item and the unique identifiers the game has registered.
\<close>

section \<open>Attribute codes\<close>

datatype AttrTypes_t =
    ATTR_STORE | ATTR_TILE_FLAGS | ATTR_ACTION_ID | ATTR_UNIQUE_ID | ATTR_TEXT | ATTR_DESC
  | ATTR_TELE_DEST | ATTR_ITEM | ATTR_DEPOT_ID | ATTR_RUNE_CHARGES | ATTR_HOUSEDOORID | ATTR_COUNT
  | ATTR_DURATION | ATTR_DECAYING_STATE | ATTR_WRITTENDATE | ATTR_WRITTENBY | ATTR_SLEEPERGUID
  | ATTR_SLEEPSTART | ATTR_CHARGES | ATTR_CONTAINER_ITEMS | ATTR_NAME | ATTR_ARTICLE
  | ATTR_PLURALNAME | ATTR_WEIGHT | ATTR_ATTACK | ATTR_DEFENSE | ATTR_EXTRADEFENSE | ATTR_ARMOR
  | ATTR_HITCHANCE | ATTR_SHOOTRANGE | ATTR_SPECIAL | ATTR_IMBUEMENT_SLOT | ATTR_OPENCONTAINER
  | ATTR_CUSTOM_ATTRIBUTES | ATTR_QUICKLOOTCONTAINER | ATTR_AMOUNT | ATTR_TIER | ATTR_CUSTOM
  | ATTR_STORE_INBOX_CATEGORY | ATTR_OWNER | ATTR_OBTAINCONTAINER

fun attr_code :: "AttrTypes_t \<Rightarrow> u8" where
  "attr_code ATTR_STORE = 1" | "attr_code ATTR_TILE_FLAGS = 3" | "attr_code ATTR_ACTION_ID = 4"
| "attr_code ATTR_UNIQUE_ID = 5" | "attr_code ATTR_TEXT = 6" | "attr_code ATTR_DESC = 7"
| "attr_code ATTR_TELE_DEST = 8" | "attr_code ATTR_ITEM = 9" | "attr_code ATTR_DEPOT_ID = 10"
| "attr_code ATTR_RUNE_CHARGES = 12" | "attr_code ATTR_HOUSEDOORID = 14" | "attr_code ATTR_COUNT = 15"
| "attr_code ATTR_DURATION = 16" | "attr_code ATTR_DECAYING_STATE = 17"
| "attr_code ATTR_WRITTENDATE = 18" | "attr_code ATTR_WRITTENBY = 19"
| "attr_code ATTR_SLEEPERGUID = 20" | "attr_code ATTR_SLEEPSTART = 21" | "attr_code ATTR_CHARGES = 22"
| "attr_code ATTR_CONTAINER_ITEMS = 23" | "attr_code ATTR_NAME = 24" | "attr_code ATTR_ARTICLE = 25"
| "attr_code ATTR_PLURALNAME = 26" | "attr_code ATTR_WEIGHT = 27" | "attr_code ATTR_ATTACK = 28"
| "attr_code ATTR_DEFENSE = 29" | "attr_code ATTR_EXTRADEFENSE = 30" | "attr_code ATTR_ARMOR = 31"
| "attr_code ATTR_HITCHANCE = 32" | "attr_code ATTR_SHOOTRANGE = 33" | "attr_code ATTR_SPECIAL = 34"
| "attr_code ATTR_IMBUEMENT_SLOT = 35" | "attr_code ATTR_OPENCONTAINER = 36"
| "attr_code ATTR_CUSTOM_ATTRIBUTES = 37" | "attr_code ATTR_QUICKLOOTCONTAINER = 38"
| "attr_code ATTR_AMOUNT = 39" | "attr_code ATTR_TIER = 40" | "attr_code ATTR_CUSTOM = 41"
| "attr_code ATTR_STORE_INBOX_CATEGORY = 42" | "attr_code ATTR_OWNER = 43"
| "attr_code ATTR_OBTAINCONTAINER = 44"

definition all_attr_types :: "AttrTypes_t list" where
  "all_attr_types =
     [ATTR_STORE, ATTR_TILE_FLAGS, ATTR_ACTION_ID, ATTR_UNIQUE_ID, ATTR_TEXT, ATTR_DESC,
      ATTR_TELE_DEST, ATTR_ITEM, ATTR_DEPOT_ID, ATTR_RUNE_CHARGES, ATTR_HOUSEDOORID, ATTR_COUNT,
      ATTR_DURATION, ATTR_DECAYING_STATE, ATTR_WRITTENDATE, ATTR_WRITTENBY, ATTR_SLEEPERGUID,
      ATTR_SLEEPSTART, ATTR_CHARGES, ATTR_CONTAINER_ITEMS, ATTR_NAME, ATTR_ARTICLE,
      ATTR_PLURALNAME, ATTR_WEIGHT, ATTR_ATTACK, ATTR_DEFENSE, ATTR_EXTRADEFENSE, ATTR_ARMOR,
      ATTR_HITCHANCE, ATTR_SHOOTRANGE, ATTR_SPECIAL, ATTR_IMBUEMENT_SLOT, ATTR_OPENCONTAINER,
      ATTR_CUSTOM_ATTRIBUTES, ATTR_QUICKLOOTCONTAINER, ATTR_AMOUNT, ATTR_TIER, ATTR_CUSTOM,
      ATTR_STORE_INBOX_CATEGORY, ATTR_OWNER, ATTR_OBTAINCONTAINER]"

text \<open>\<open>static_cast<AttrTypes_t>(attr_type)\<close>; \<open>None\<close> stands for a number without a name.\<close>

definition attr_of :: "u8 \<Rightarrow> AttrTypes_t option" where
  "attr_of b = map_of (map (\<lambda>a. (attr_code a, a)) all_attr_types) b"

lemma attr_of_code [simp]: "attr_of (attr_code a) = Some a"
  by (cases a) (simp_all add: attr_of_def all_attr_types_def)

lemma attr_code_nonzero [simp]: "attr_code a \<noteq> 0"
  by (cases a) simp_all

section \<open>Reading one attribute\<close>

datatype Attr_ReadValue = ATTR_READ_CONTINUE | ATTR_READ_ERROR | ATTR_READ_END

type_synonym load_state = "item \<times> u16 list"

abbreviation on_item :: "(item \<Rightarrow> item) \<Rightarrow> load_state \<Rightarrow> load_state" where
  "on_item f st \<equiv> (f (fst st), snd st)"

definition read_into ::
    "nat \<Rightarrow> ('a::len word \<Rightarrow> load_state \<Rightarrow> load_state) \<Rightarrow> load_state \<Rightarrow> stream
      \<Rightarrow> Attr_ReadValue \<times> load_state \<times> stream" where
  "read_into n f st s = (case read_int ps_read n s of
      None \<Rightarrow> (ATTR_READ_ERROR, st, s)
    | Some (v, s1) \<Rightarrow> (ATTR_READ_CONTINUE, f v st, s1))"

definition read_string_into ::
    "(u8 list \<Rightarrow> load_state \<Rightarrow> load_state) \<Rightarrow> load_state \<Rightarrow> stream
      \<Rightarrow> Attr_ReadValue \<times> load_state \<times> stream" where
  "read_string_into f st s = (case readString s of
      (None, s1) \<Rightarrow> (ATTR_READ_ERROR, st, s1)
    | (Some v, s1) \<Rightarrow> (ATTR_READ_CONTINUE, f v st, s1))"

definition skip_over :: "nat \<Rightarrow> load_state \<Rightarrow> stream \<Rightarrow> Attr_ReadValue \<times> load_state \<times> stream" where
  "skip_over n st s = (case skip n s of
      None \<Rightarrow> (ATTR_READ_ERROR, st, s)
    | Some s1 \<Rightarrow> (ATTR_READ_CONTINUE, st, s1))"

text \<open>\<open>Item::addUniqueId\<close> with \<open>Game::addUniqueItem\<close>, which refuses a registered identifier.\<close>

definition addUniqueId :: "u16 \<Rightarrow> load_state \<Rightarrow> load_state" where
  "addUniqueId uniqueId st =
     (if has UNIQUEID (fst st) then st
      else if uniqueId \<in> set (snd st) then st
      else (set_int UNIQUEID (ucast uniqueId) (fst st), uniqueId # snd st))"

text \<open>\<open>std::atoi\<close>.\<close>

fun digits :: "int \<Rightarrow> u8 list \<Rightarrow> int" where
  "digits acc [] = acc"
| "digits acc (b # bs) = (if 48 \<le> b \<and> b \<le> 57 then digits (acc * 10 + (uint b - 48)) bs else acc)"

definition atoi :: "u8 list \<Rightarrow> int" where
  "atoi str =
     (let s = dropWhile (\<lambda>b. b = 32 \<or> (9 \<le> b \<and> b \<le> 13)) str
      in case s of [] \<Rightarrow> 0
         | b # bs \<Rightarrow> if b = 45 then - digits 0 bs else if b = 43 then digits 0 bs else digits 0 s)"

definition HIRELING_LAMP :: u16 where "HIRELING_LAMP = 29432"

definition add_custom :: "u8 list \<Rightarrow> custom_value \<Rightarrow> item \<Rightarrow> item" where
  "add_custom k v it = it\<lparr>it_custom := addCustomAttribute k v (it_custom it)\<rparr>"

text \<open>The case \<open>ATTR_SPECIAL\<close>, which migrates hireling lamps.\<close>

definition set_special :: "u8 list \<Rightarrow> item \<Rightarrow> item" where
  "set_special special it =
     (let it1 = set_str SPECIAL special it
      in if it_id it1 = HIRELING_LAMP
         then add_custom (ascii ''Hireling'') (CInt (word_of_int (atoi special))) (drop_attr SPECIAL it1)
         else it1)"

text \<open>One round of the loop of the deprecated \<open>ATTR_CUSTOM_ATTRIBUTES\<close>; \<open>now\<close> is \<open>getTimeNow()\<close>.\<close>

definition add_deprecated :: "u64 \<Rightarrow> u8 list \<Rightarrow> custom_value \<Rightarrow> load_state \<Rightarrow> load_state" where
  "add_deprecated now key v = on_item (\<lambda>it.
     let it1 = drop_attr CUSTOM (add_custom key v it)
     in if getCustomAttribute (ascii ''unWrapId'') (it_custom it1) \<noteq> None
           \<and> getAttributeValue STORE (it_attrs it1) = 0
        then set_int STORE now it1 else it1)"

definition read_customs ::
    "(u8 list \<Rightarrow> custom_value \<Rightarrow> load_state \<Rightarrow> load_state) \<Rightarrow> load_state \<Rightarrow> stream
      \<Rightarrow> Attr_ReadValue \<times> load_state \<times> stream" where
  "read_customs add st s = (case read_int ps_read 8 s of
      None \<Rightarrow> (ATTR_READ_ERROR, st, s)
    | Some (sz :: u64, s1) \<Rightarrow> (case unserialize_customs add (unat sz) st s1 of
        (ok, st', s2) \<Rightarrow> (if ok then ATTR_READ_CONTINUE else ATTR_READ_ERROR, st', s2)))"

text \<open>
  \<open>readAttr\<close>, in three parts for its length. A value read as a signed integer is extended
  with its sign, an unsigned one with zeros.
\<close>

definition readAttr_last ::
    "u64 \<Rightarrow> AttrTypes_t \<Rightarrow> load_state \<Rightarrow> stream \<Rightarrow> Attr_ReadValue \<times> load_state \<times> stream" where
  "readAttr_last now attr st s = (case attr of
      ATTR_DEPOT_ID \<Rightarrow> skip_over 2 st s
    | ATTR_HOUSEDOORID \<Rightarrow> skip_over 1 st s
    | ATTR_SLEEPERGUID \<Rightarrow> skip_over 4 st s
    | ATTR_SLEEPSTART \<Rightarrow> skip_over 4 st s
    | ATTR_TELE_DEST \<Rightarrow> skip_over 5 st s
    | ATTR_CONTAINER_ITEMS \<Rightarrow> (ATTR_READ_ERROR, st, s)
    | ATTR_CUSTOM_ATTRIBUTES \<Rightarrow> read_customs (add_deprecated now) st s
    | ATTR_TIER \<Rightarrow> read_into 1 (\<lambda>v :: u8. on_item (set_int TIER (ucast v))) st s
    | ATTR_AMOUNT \<Rightarrow> read_into 2 (\<lambda>v :: u16. on_item (set_int AMOUNT (ucast v))) st s
    | ATTR_CUSTOM \<Rightarrow> read_customs (\<lambda>k v. on_item (add_custom k v)) st s
    | ATTR_STORE_INBOX_CATEGORY \<Rightarrow> read_string_into (\<lambda>v. on_item (set_str STORE_INBOX_CATEGORY v)) st s
    | ATTR_OWNER \<Rightarrow> read_into 4 (\<lambda>v :: u32. on_item (set_int OWNER (ucast v))) st s
    | ATTR_OBTAINCONTAINER \<Rightarrow> read_into 4 (\<lambda>v :: u32. on_item (set_int OBTAINCONTAINER (ucast v))) st s
    | _ \<Rightarrow> (ATTR_READ_ERROR, st, s))"

definition readAttr_values ::
    "u64 \<Rightarrow> AttrTypes_t \<Rightarrow> load_state \<Rightarrow> stream \<Rightarrow> Attr_ReadValue \<times> load_state \<times> stream" where
  "readAttr_values now attr st s = (case attr of
      ATTR_WEIGHT \<Rightarrow> read_into 4 (\<lambda>v :: u32. on_item (set_int WEIGHT (ucast v))) st s
    | ATTR_ATTACK \<Rightarrow> read_into 4 (\<lambda>v :: u32. on_item (set_int ATTACK (scast v))) st s
    | ATTR_DEFENSE \<Rightarrow> read_into 4 (\<lambda>v :: u32. on_item (set_int DEFENSE (scast v))) st s
    | ATTR_EXTRADEFENSE \<Rightarrow> read_into 4 (\<lambda>v :: u32. on_item (set_int EXTRADEFENSE (scast v))) st s
    | ATTR_IMBUEMENT_SLOT \<Rightarrow> read_into 4 (\<lambda>v :: u32. on_item (set_int IMBUEMENT_SLOT (scast v))) st s
    | ATTR_OPENCONTAINER \<Rightarrow> read_into 1 (\<lambda>v :: u8. on_item (set_int OPENCONTAINER (ucast v))) st s
    | ATTR_ARMOR \<Rightarrow> read_into 4 (\<lambda>v :: u32. on_item (set_int ARMOR (scast v))) st s
    | ATTR_HITCHANCE \<Rightarrow> read_into 1 (\<lambda>v :: u8. on_item (set_int HITCHANCE (scast v))) st s
    | ATTR_SHOOTRANGE \<Rightarrow> read_into 1 (\<lambda>v :: u8. on_item (set_int SHOOTRANGE (ucast v))) st s
    | ATTR_SPECIAL \<Rightarrow> read_string_into (\<lambda>v. on_item (set_special v)) st s
    | ATTR_QUICKLOOTCONTAINER \<Rightarrow> read_into 4 (\<lambda>v :: u32. on_item (set_int QUICKLOOTCONTAINER (ucast v))) st s
    | _ \<Rightarrow> readAttr_last now attr st s)"

definition readAttr ::
    "items \<Rightarrow> u64 \<Rightarrow> AttrTypes_t \<Rightarrow> load_state \<Rightarrow> stream \<Rightarrow> Attr_ReadValue \<times> load_state \<times> stream" where
  "readAttr T now attr st s = (case attr of
      ATTR_STORE \<Rightarrow> read_into 8 (\<lambda>v :: u64. on_item (set_int STORE v)) st s
    | ATTR_COUNT \<Rightarrow> read_into 1 (\<lambda>v :: u8. on_item (setSubType T (ucast v))) st s
    | ATTR_RUNE_CHARGES \<Rightarrow> read_into 1 (\<lambda>v :: u8. on_item (setSubType T (ucast v))) st s
    | ATTR_ACTION_ID \<Rightarrow> read_into 2 (\<lambda>v :: u16. on_item (set_int ACTIONID (ucast v))) st s
    | ATTR_UNIQUE_ID \<Rightarrow> read_into 2 addUniqueId st s
    | ATTR_TEXT \<Rightarrow> read_string_into (\<lambda>v. on_item (set_str TEXT v)) st s
    | ATTR_WRITTENDATE \<Rightarrow> read_into 8 (\<lambda>v :: u64. on_item (set_int DATE v)) st s
    | ATTR_WRITTENBY \<Rightarrow> read_string_into (\<lambda>v. on_item (set_str WRITER v)) st s
    | ATTR_DESC \<Rightarrow> read_string_into (\<lambda>v. on_item (set_str DESCRIPTION v)) st s
    | ATTR_CHARGES \<Rightarrow> read_into 2 (\<lambda>v :: u16. on_item (setSubType T v)) st s
    | ATTR_DURATION \<Rightarrow> read_into 4 (\<lambda>v :: u32. on_item (setDuration v)) st s
    | ATTR_DECAYING_STATE \<Rightarrow> read_into 1 (\<lambda>v :: u8.
        if v \<noteq> DECAYING_FALSE then on_item (setDecaying DECAYING_PENDING) else (\<lambda>st. st)) st s
    | ATTR_NAME \<Rightarrow> read_string_into (\<lambda>v. on_item (set_str NAME v)) st s
    | ATTR_ARTICLE \<Rightarrow> read_string_into (\<lambda>v. on_item (set_str ARTICLE v)) st s
    | ATTR_PLURALNAME \<Rightarrow> read_string_into (\<lambda>v. on_item (set_str PLURALNAME v)) st s
    | _ \<Rightarrow> readAttr_values now attr st s)"

lemmas readAttr_defs = readAttr_def readAttr_values_def readAttr_last_def

section \<open>Reading all attributes\<close>

lemma unserialize_shrinks: "length (snd (unserialize s)) \<le> length s"
proof (cases "read_int ps_read 1 s :: (u8 \<times> stream) option")
  case None
  then show ?thesis by (simp add: unserialize_def)
next
  case (Some p)
  obtain b s1 where p: "p = (b, s1)" by (cases p)
  have "length s1 \<le> length s" using Some p by (auto dest: read_int_shrinks)
  moreover have "length (snd (unserialize s)) \<le> length s1"
    using Some p readString_shrinks [of s1]
    by (auto simp: unserialize_def split: option.split prod.split dest!: read_int_shrinks)
  ultimately show ?thesis by simp
qed

lemma unserialize_customs_shrinks: "unserialize_customs add n it s = (ok, it', s') \<Longrightarrow> length s' \<le> length s"
proof (induction n arbitrary: it s)
  case (Suc n)
  obtain k s1 where k: "readString s = (k, s1)" by (cases "readString s")
  obtain v s2 where v: "unserialize s1 = (v, s2)" by (cases "unserialize s1")
  have "length s1 \<le> length s" "length s2 \<le> length s1"
    using readString_shrinks [of s] unserialize_shrinks [of s1] k v by simp_all
  with Suc k v show ?case by (fastforce split: option.splits)
qed simp

lemma read_into_shrinks: "read_into n f st s = (r, st', s') \<Longrightarrow> length s' \<le> length s"
  by (auto simp: read_into_def split: option.splits dest: read_int_shrinks)

lemma read_string_into_shrinks: "read_string_into f st s = (r, st', s') \<Longrightarrow> length s' \<le> length s"
  using readString_shrinks [of s] by (auto simp: read_string_into_def split: prod.splits option.splits)

lemma skip_over_shrinks: "skip_over n st s = (r, st', s') \<Longrightarrow> length s' \<le> length s"
  by (auto simp: skip_over_def skip_def split: option.splits if_splits)

lemma read_customs_shrinks: "read_customs add st s = (r, st', s') \<Longrightarrow> length s' \<le> length s"
  by (auto simp: read_customs_def split: option.splits prod.splits
      dest!: read_int_shrinks unserialize_customs_shrinks)

lemma readAttr_shrinks:
  assumes "readAttr T now attr st s = (r, st', s')"
  shows "length s' \<le> length s"
  using assms unfolding readAttr_defs
  by (cases attr) (auto dest: read_into_shrinks read_string_into_shrinks skip_over_shrinks read_customs_shrinks)

function unserializeAttr :: "items \<Rightarrow> u64 \<Rightarrow> load_state \<Rightarrow> stream \<Rightarrow> bool \<times> load_state \<times> stream" where
  "unserializeAttr T now st [] = (True, st, [])"
| "unserializeAttr T now st (attr_type # s) =
     (if attr_type = 0 then (True, st, s)
      else case attr_of attr_type of
          None \<Rightarrow> (False, st, s)
        | Some attr \<Rightarrow> (case readAttr T now attr st s of
            (ATTR_READ_ERROR, st', s') \<Rightarrow> (False, st', s')
          | (ATTR_READ_END, st', s') \<Rightarrow> (True, st', s')
          | (ATTR_READ_CONTINUE, st', s') \<Rightarrow> unserializeAttr T now st' s'))"
  by pat_completeness auto
termination
  by (relation "measure (\<lambda>(T, now, st, s). length s)") (auto dest: readAttr_shrinks [OF sym])

section \<open>Writing\<close>

text \<open>One conditional write, and the code that announces a value.\<close>

definition write_if :: "bool \<Rightarrow> AttrTypes_t \<Rightarrow> u8 list \<Rightarrow> u8 list" where
  "write_if c attr value = (if c then ps_write 1 (attr_code attr) @ value else [])"

abbreviation value_of :: "item \<Rightarrow> item_attr \<Rightarrow> 'a::len word" where
  "value_of it t \<equiv> getAttribute_as t (it_attrs it)"

abbreviation text_of :: "item \<Rightarrow> item_attr \<Rightarrow> u8 list" where
  "text_of it t \<equiv> getAttributeString t (it_attrs it)"

text \<open>\<open>getTier\<close>; \<open>maxTier\<close> is the configured \<open>FORGE_MAX_ITEM_TIER\<close>.\<close>

definition getTier :: "int \<Rightarrow> item \<Rightarrow> u8" where
  "getTier maxTier it =
     (if \<not> has TIER it then 0
      else let tier = value_of it TIER in if uint tier > maxTier then 0 else tier)"

text \<open>\<open>serializeAttr\<close>, in two parts for its length; \<open>ms\<close> is \<open>OTSYS_TIME()\<close>.\<close>

definition serialize_first :: "items \<Rightarrow> u64 \<Rightarrow> item \<Rightarrow> u8 list" where
  "serialize_first T ms it =
     (let ty = T (it_id it); timeStamp = getAttributeValue STORE (it_attrs it);
          charges = value_of it CHARGES :: u16; actionId = value_of it ACTIONID :: u16;
          writtenDate = getAttributeValue DATE (it_attrs it); decayState = getDecaying it
      in write_if (timeStamp \<noteq> 0) ATTR_STORE (ps_write 8 timeStamp)
       @ write_if (ty_stackable ty \<or> ty_fluidContainer ty \<or> ty_splash ty) ATTR_COUNT
           (ps_write 1 (ucast (getSubType T it) :: u8))
       @ write_if (charges \<noteq> 0) ATTR_CHARGES (ps_write 2 charges)
       @ write_if (ty_movable ty \<and> actionId \<noteq> 0) ATTR_ACTION_ID (ps_write 2 actionId)
       @ write_if (text_of it TEXT \<noteq> []) ATTR_TEXT (writeString (text_of it TEXT))
       @ write_if (writtenDate \<noteq> 0) ATTR_WRITTENDATE (ps_write 8 writtenDate)
       @ write_if (text_of it WRITER \<noteq> []) ATTR_WRITTENBY (writeString (text_of it WRITER))
       @ write_if (text_of it DESCRIPTION \<noteq> []) ATTR_DESC (writeString (text_of it DESCRIPTION))
       @ write_if (has DURATION it) ATTR_DURATION (ps_write 4 (getDuration ms it))
       @ write_if (decayState = DECAYING_TRUE \<or> decayState = DECAYING_PENDING) ATTR_DECAYING_STATE
           (ps_write 1 decayState)
       @ write_if (has NAME it) ATTR_NAME (writeString (text_of it NAME))
       @ write_if (has ARTICLE it) ATTR_ARTICLE (writeString (text_of it ARTICLE))
       @ write_if (has PLURALNAME it) ATTR_PLURALNAME (writeString (text_of it PLURALNAME)))"

definition serialize_second :: "int \<Rightarrow> item \<Rightarrow> u8 list" where
  "serialize_second maxTier it =
     write_if (has WEIGHT it) ATTR_WEIGHT (ps_write 4 (value_of it WEIGHT :: u32))
   @ write_if (has ATTACK it) ATTR_ATTACK (ps_write 4 (value_of it ATTACK :: u32))
   @ write_if (has DEFENSE it) ATTR_DEFENSE (ps_write 4 (value_of it DEFENSE :: u32))
   @ write_if (has EXTRADEFENSE it) ATTR_EXTRADEFENSE (ps_write 4 (value_of it EXTRADEFENSE :: u32))
   @ write_if (has IMBUEMENT_SLOT it) ATTR_IMBUEMENT_SLOT (ps_write 4 (value_of it IMBUEMENT_SLOT :: u32))
   @ write_if (has OPENCONTAINER it) ATTR_OPENCONTAINER (ps_write 1 (value_of it OPENCONTAINER :: u8))
   @ write_if (has ARMOR it) ATTR_ARMOR (ps_write 4 (value_of it ARMOR :: u32))
   @ write_if (has HITCHANCE it) ATTR_HITCHANCE (ps_write 1 (value_of it HITCHANCE :: u8))
   @ write_if (has SHOOTRANGE it) ATTR_SHOOTRANGE (ps_write 1 (value_of it SHOOTRANGE :: u8))
   @ write_if (has SPECIAL it) ATTR_SPECIAL (writeString (text_of it SPECIAL))
   @ write_if (has QUICKLOOTCONTAINER it) ATTR_QUICKLOOTCONTAINER (ps_write 4 (value_of it QUICKLOOTCONTAINER :: u32))
   @ write_if (has TIER it) ATTR_TIER (ps_write 1 (getTier maxTier it))
   @ write_if (has AMOUNT it) ATTR_AMOUNT (ps_write 2 (value_of it AMOUNT :: u16))
   @ write_if (has STORE_INBOX_CATEGORY it) ATTR_STORE_INBOX_CATEGORY (writeString (text_of it STORE_INBOX_CATEGORY))
   @ write_if (has OWNER it) ATTR_OWNER (ps_write 4 (value_of it OWNER :: u32))
   @ write_if (it_custom it \<noteq> []) ATTR_CUSTOM (serialize_customs (it_custom it))
   @ write_if (has OBTAINCONTAINER it) ATTR_OBTAINCONTAINER (ps_write 4 (value_of it OBTAINCONTAINER :: u32))"

definition serializeAttr :: "items \<Rightarrow> u64 \<Rightarrow> int \<Rightarrow> item \<Rightarrow> u8 list" where
  "serializeAttr T ms maxTier it = serialize_first T ms it @ serialize_second maxTier it"

end
