(* ===== verification/Item_Roundtrip.thy ===== *)
theory Item_Roundtrip
  imports Item_Serialize
begin

text \<open>
  Saving an item and loading it again. Each conditional write of \<open>serializeAttr\<close> is paired
  with what reading it does to the item (\<open>pieces\<close>); reading all of them is then a fold, and
  what is left of every attribute is stated attribute by attribute (\<open>saved_attr\<close>).
\<close>

section \<open>What each write does when it is read\<close>

datatype effect = EAttr attr_op | ECount u8 | ECustom custom_map

fun apply_effect :: "effect \<Rightarrow> item \<Rightarrow> item" where
  "apply_effect (EAttr op) it = it\<lparr>it_attrs := attr_step op (it_attrs it)\<rparr>"
| "apply_effect (ECount n) it = setItemCount n it"
| "apply_effect (ECustom m) it = fold (\<lambda>(k, v). add_custom k (as_saved v)) m it"

type_synonym piece = "bool \<times> AttrTypes_t \<times> u8 list \<times> effect"

definition text_piece :: "item \<Rightarrow> bool \<Rightarrow> AttrTypes_t \<Rightarrow> item_attr \<Rightarrow> piece" where
  "text_piece it c attr t = (c, attr, writeString (text_of it t),
     EAttr (SetStr t (if length (text_of it t) \<le> 65535 then text_of it t else [])))"

definition first_pieces :: "items \<Rightarrow> u64 \<Rightarrow> item \<Rightarrow> piece list" where
  "first_pieces T ms it =
     (let ty = T (it_id it); timeStamp = getAttributeValue STORE (it_attrs it);
          charges = value_of it CHARGES :: u16; actionId = value_of it ACTIONID :: u16;
          writtenDate = getAttributeValue DATE (it_attrs it); decayState = getDecaying it;
          subType = ucast (getSubType T it) :: u8
      in [(timeStamp \<noteq> 0, ATTR_STORE, ps_write 8 timeStamp, EAttr (SetInt STORE timeStamp)),
          (ty_stackable ty \<or> ty_fluidContainer ty \<or> ty_splash ty, ATTR_COUNT, ps_write 1 subType,
             if is_fluid T it then EAttr (SetInt FLUIDTYPE (ucast subType)) else ECount (it_count it)),
          (charges \<noteq> 0, ATTR_CHARGES, ps_write 2 charges, EAttr (SetInt CHARGES (ucast charges))),
          (ty_movable ty \<and> actionId \<noteq> 0, ATTR_ACTION_ID, ps_write 2 actionId,
             EAttr (SetInt ACTIONID (ucast actionId))),
          text_piece it (text_of it TEXT \<noteq> []) ATTR_TEXT TEXT,
          (writtenDate \<noteq> 0, ATTR_WRITTENDATE, ps_write 8 writtenDate, EAttr (SetInt DATE writtenDate)),
          text_piece it (text_of it WRITER \<noteq> []) ATTR_WRITTENBY WRITER,
          text_piece it (text_of it DESCRIPTION \<noteq> []) ATTR_DESC DESCRIPTION,
          (has DURATION it, ATTR_DURATION, ps_write 4 (getDuration ms it),
             EAttr (SetInt DURATION (scast (max0 (getDuration ms it))))),
          (decayState = DECAYING_TRUE \<or> decayState = DECAYING_PENDING, ATTR_DECAYING_STATE,
             ps_write 1 decayState, EAttr (SetInt DECAYSTATE (ucast DECAYING_PENDING))),
          text_piece it (has NAME it) ATTR_NAME NAME,
          text_piece it (has ARTICLE it) ATTR_ARTICLE ARTICLE,
          text_piece it (has PLURALNAME it) ATTR_PLURALNAME PLURALNAME])"

definition u32_piece :: "item \<Rightarrow> AttrTypes_t \<Rightarrow> item_attr \<Rightarrow> piece" where
  "u32_piece it attr t = (has t it, attr, ps_write 4 (value_of it t :: u32),
     EAttr (SetInt t (ucast (value_of it t :: u32))))"

definition s32_piece :: "item \<Rightarrow> AttrTypes_t \<Rightarrow> item_attr \<Rightarrow> piece" where
  "s32_piece it attr t = (has t it, attr, ps_write 4 (value_of it t :: u32),
     EAttr (SetInt t (scast (value_of it t :: u32))))"

definition u8_piece :: "item \<Rightarrow> AttrTypes_t \<Rightarrow> item_attr \<Rightarrow> piece" where
  "u8_piece it attr t = (has t it, attr, ps_write 1 (value_of it t :: u8),
     EAttr (SetInt t (ucast (value_of it t :: u8))))"

definition second_pieces :: "int \<Rightarrow> item \<Rightarrow> piece list" where
  "second_pieces maxTier it =
     [u32_piece it ATTR_WEIGHT WEIGHT, s32_piece it ATTR_ATTACK ATTACK,
      s32_piece it ATTR_DEFENSE DEFENSE, s32_piece it ATTR_EXTRADEFENSE EXTRADEFENSE,
      s32_piece it ATTR_IMBUEMENT_SLOT IMBUEMENT_SLOT, u8_piece it ATTR_OPENCONTAINER OPENCONTAINER,
      s32_piece it ATTR_ARMOR ARMOR,
      (has HITCHANCE it, ATTR_HITCHANCE, ps_write 1 (value_of it HITCHANCE :: u8),
         EAttr (SetInt HITCHANCE (scast (value_of it HITCHANCE :: u8)))),
      u8_piece it ATTR_SHOOTRANGE SHOOTRANGE,
      text_piece it (has SPECIAL it) ATTR_SPECIAL SPECIAL,
      u32_piece it ATTR_QUICKLOOTCONTAINER QUICKLOOTCONTAINER,
      (has TIER it, ATTR_TIER, ps_write 1 (getTier maxTier it), EAttr (SetInt TIER (ucast (getTier maxTier it)))),
      (has AMOUNT it, ATTR_AMOUNT, ps_write 2 (value_of it AMOUNT :: u16),
         EAttr (SetInt AMOUNT (ucast (value_of it AMOUNT :: u16)))),
      text_piece it (has STORE_INBOX_CATEGORY it) ATTR_STORE_INBOX_CATEGORY STORE_INBOX_CATEGORY,
      u32_piece it ATTR_OWNER OWNER,
      (it_custom it \<noteq> [], ATTR_CUSTOM, serialize_customs (it_custom it), ECustom (it_custom it)),
      u32_piece it ATTR_OBTAINCONTAINER OBTAINCONTAINER]"

lemmas piece_defs = text_piece_def u32_piece_def s32_piece_def u8_piece_def

definition bytes_of :: "piece list \<Rightarrow> u8 list" where
  "bytes_of ps = concat (map (\<lambda>(c, attr, bs, e). write_if c attr bs) ps)"

lemma serialize_pieces:
  "serializeAttr T ms maxTier it = bytes_of (first_pieces T ms it @ second_pieces maxTier it)"
  by (simp add: serializeAttr_def serialize_first_def serialize_second_def bytes_of_def
      first_pieces_def second_pieces_def piece_defs Let_def)

text \<open>
  Charges are read back as a subtype, so they survive only on a type whose subtype they are.
\<close>

definition charges_ok :: "items \<Rightarrow> item \<Rightarrow> bool" where
  "charges_ok T it \<longleftrightarrow> (value_of it CHARGES :: u16) = 0
     \<or> \<not> is_fluid T it \<and> \<not> ty_stackable (T (it_id it)) \<and> ty_charges (T (it_id it)) \<noteq> 0"

definition savable :: "items \<Rightarrow> item \<Rightarrow> bool" where
  "savable T it \<longleftrightarrow> charges_ok T it \<and> map_ok (it_custom it) \<and> it_id it \<noteq> HIRELING_LAMP"

definition piece_ok :: "items \<Rightarrow> u64 \<Rightarrow> item \<Rightarrow> piece \<Rightarrow> bool" where
  "piece_ok T now it = (\<lambda>(c, attr, bs, e). c \<longrightarrow> (\<forall>st rest. it_id (fst st) = it_id it \<longrightarrow>
     readAttr T now attr st (bs @ rest) = (ATTR_READ_CONTINUE, on_item (apply_effect e) st, rest)))"

lemma read_into_write:
  "LENGTH('a) \<le> 8 * n \<Longrightarrow>
     read_into n f st (ps_write n (v :: 'a::len word) @ rest) = (ATTR_READ_CONTINUE, f v st, rest)"
  by (simp add: read_into_def stream_simps)

lemma read_string_into_write:
  "read_string_into f st (writeString s @ rest)
    = (ATTR_READ_CONTINUE, f (if length s \<le> 65535 then s else []) st, rest)"
  by (simp add: read_string_into_def stream_simps)

lemmas read_pieces = piece_ok_def piece_defs readAttr_defs read_into_write read_string_into_write

lemma fold_on_item: "fold (\<lambda>(k, v). on_item (f k v)) xs st = on_item (fold (\<lambda>(k, v). f k v) xs) st"
  by (induction xs arbitrary: st) auto

lemma read_customs_write:
  assumes "map_ok m"
  shows "read_customs (\<lambda>k v. on_item (add_custom k v)) st (serialize_customs m @ rest)
    = (ATTR_READ_CONTINUE, on_item (apply_effect (ECustom m)) st, rest)"
proof -
  have "list_all (\<lambda>(k, v). length k \<le> 65535) m" "length m < 2 ^ 64"
    using assms by (auto simp: map_ok_def list_all_iff)
  moreover from this(2) have "unat (of_nat (length m) :: u64) = length m"
    by (simp add: unsigned_of_nat take_bit_nat_eq_self)
  ultimately show ?thesis
    by (simp add: read_customs_def serialize_customs_def stream_simps unserialize_customs_fold
        fold_on_item [of "\<lambda>k v. add_custom k (as_saved v)"])
qed

lemma second_pieces_ok:
  assumes "savable T it"
  shows "list_all (piece_ok T now it) (second_pieces maxTier it)"
proof -
  have "map_ok (it_custom it)" "it_id it \<noteq> HIRELING_LAMP" using assms by (simp_all add: savable_def)
  then show ?thesis
    by (simp add: second_pieces_def read_pieces read_customs_write set_special_def del: apply_effect.simps(3))
qed

lemma ucast_up_down [simp]:
  "ucast (ucast (x :: u8) :: u16) = x" "ucast (ucast (x :: u8) :: u16) = (ucast x :: u64)"
  by (intro bit_word_eqI; auto simp: bit_simps dest: bit_imp_le_length)+

lemma first_pieces_ok:
  assumes "savable T it"
  shows "list_all (piece_ok T now it) (first_pieces T ms it)"
proof -
  have "charges_ok T it" using assms by (simp add: savable_def)
  moreover have "DECAYING_TRUE \<noteq> DECAYING_FALSE" "DECAYING_PENDING \<noteq> DECAYING_FALSE"
    by (simp_all add: decay_states)
  moreover have "getSubType T it = ucast (it_count it)" if "\<not> is_fluid T it" "ty_stackable (T (it_id it))"
    using that by (simp add: getSubType_def)
  ultimately show ?thesis
    by (auto simp: first_pieces_def Let_def read_pieces setSubType_def is_fluid_def charges_ok_def
        setDuration_def setDecaying_def)
qed

section \<open>Reading all of them\<close>

lemma unserializeAttr_write:
  assumes "readAttr T now attr st s = (ATTR_READ_CONTINUE, st', s')"
  shows "unserializeAttr T now st (ps_write 1 (attr_code attr) @ s) = unserializeAttr T now st' s'"
  using assms by (simp add: ps_write_def le_bytes_def)

definition effects_of :: "piece list \<Rightarrow> effect list" where
  "effects_of ps = concat (map (\<lambda>(c, attr, bs, e). if c then [e] else []) ps)"

lemma fold_add_custom:
  "fold (\<lambda>(k, v). add_custom k (as_saved v)) m it
    = it\<lparr>it_custom := fold (\<lambda>(k, v). addCustomAttribute k (as_saved v)) m (it_custom it)\<rparr>"
  by (induction m arbitrary: it) (auto simp: add_custom_def)

lemma apply_effect_id [simp]: "it_id (apply_effect e it) = it_id it"
  by (cases e) (simp_all add: setItemCount_def fold_add_custom)

lemma unserializeAttr_pieces:
  assumes "list_all (piece_ok T now it) ps" "it_id (fst st) = it_id it"
  shows "unserializeAttr T now st (bytes_of ps @ tail)
    = unserializeAttr T now (on_item (fold apply_effect (effects_of ps)) st) tail"
  using assms
proof (induction ps arbitrary: st)
  case Nil
  then show ?case by (simp add: bytes_of_def effects_of_def)
next
  case (Cons p ps)
  obtain c attr bs e where p: "p = (c, attr, bs, e)" by (cases p)
  show ?case
  proof (cases c)
    case False
    then show ?thesis using Cons p by (simp add: bytes_of_def effects_of_def write_if_def)
  next
    case True
    have "readAttr T now attr st (bs @ bytes_of ps @ tail)
        = (ATTR_READ_CONTINUE, on_item (apply_effect e) st, bytes_of ps @ tail)"
      using Cons.prems True p by (cases st) (simp add: piece_ok_def)
    from unserializeAttr_write [OF this]
    have "unserializeAttr T now st (bytes_of (p # ps) @ tail)
        = unserializeAttr T now (on_item (apply_effect e) st) (bytes_of ps @ tail)"
      using True p by (simp add: bytes_of_def write_if_def)
    then show ?thesis using Cons.IH [of "on_item (apply_effect e) st"] Cons.prems True p
      by (simp add: effects_of_def)
  qed
qed

section \<open>What is left of every attribute\<close>

definition saved_text :: "item \<Rightarrow> item_attr \<Rightarrow> attr_value option" where
  "saved_text it t = (let s = text_of it t in if s \<noteq> [] \<and> length s \<le> 65535 then Some (AStr s) else None)"

definition keep :: "bool \<Rightarrow> u64 \<Rightarrow> attr_value option" where
  "keep c v = (if c then Some (AInt v) else None)"

text \<open>
  The lookup in the loaded item, where saving writes the attribute: numbers are cut to the
  width they are written with, a running decay is saved with the time it has left and
  starts again as pending, texts longer than 65535 bytes are lost.
\<close>

definition saved_attr :: "items \<Rightarrow> u64 \<Rightarrow> int \<Rightarrow> item \<Rightarrow> item_attr \<Rightarrow> attr_value option" where
  "saved_attr T ms maxTier it t = (case t of
      STORE \<Rightarrow> keep (getAttributeValue STORE (it_attrs it) \<noteq> 0) (getAttributeValue STORE (it_attrs it))
    | DATE \<Rightarrow> keep (getAttributeValue DATE (it_attrs it) \<noteq> 0) (getAttributeValue DATE (it_attrs it))
    | FLUIDTYPE \<Rightarrow> keep (is_fluid T it) (ucast (ucast (getSubType T it) :: u8))
    | CHARGES \<Rightarrow> keep ((value_of it CHARGES :: u16) \<noteq> 0) (ucast (value_of it CHARGES :: u16))
    | ACTIONID \<Rightarrow> keep (ty_movable (T (it_id it)) \<and> (value_of it ACTIONID :: u16) \<noteq> 0)
        (ucast (value_of it ACTIONID :: u16))
    | DURATION \<Rightarrow> keep (has DURATION it) (scast (max0 (getDuration ms it)))
    | DECAYSTATE \<Rightarrow> keep (getDecaying it = DECAYING_TRUE \<or> getDecaying it = DECAYING_PENDING)
        (ucast DECAYING_PENDING)
    | TIER \<Rightarrow> keep (has TIER it) (ucast (getTier maxTier it))
    | AMOUNT \<Rightarrow> keep (has AMOUNT it) (ucast (value_of it AMOUNT :: u16))
    | HITCHANCE \<Rightarrow> keep (has HITCHANCE it) (scast (value_of it HITCHANCE :: u8))
    | ATTACK \<Rightarrow> keep (has ATTACK it) (scast (value_of it ATTACK :: u32))
    | DEFENSE \<Rightarrow> keep (has DEFENSE it) (scast (value_of it DEFENSE :: u32))
    | EXTRADEFENSE \<Rightarrow> keep (has EXTRADEFENSE it) (scast (value_of it EXTRADEFENSE :: u32))
    | ARMOR \<Rightarrow> keep (has ARMOR it) (scast (value_of it ARMOR :: u32))
    | IMBUEMENT_SLOT \<Rightarrow> keep (has IMBUEMENT_SLOT it) (scast (value_of it IMBUEMENT_SLOT :: u32))
    | OPENCONTAINER \<Rightarrow> keep (has OPENCONTAINER it) (ucast (value_of it OPENCONTAINER :: u8))
    | SHOOTRANGE \<Rightarrow> keep (has SHOOTRANGE it) (ucast (value_of it SHOOTRANGE :: u8))
    | WEIGHT \<Rightarrow> keep (has WEIGHT it) (ucast (value_of it WEIGHT :: u32))
    | QUICKLOOTCONTAINER \<Rightarrow> keep (has QUICKLOOTCONTAINER it) (ucast (value_of it QUICKLOOTCONTAINER :: u32))
    | OBTAINCONTAINER \<Rightarrow> keep (has OBTAINCONTAINER it) (ucast (value_of it OBTAINCONTAINER :: u32))
    | OWNER \<Rightarrow> keep (has OWNER it) (ucast (value_of it OWNER :: u32))
    | TEXT \<Rightarrow> saved_text it TEXT | WRITER \<Rightarrow> saved_text it WRITER
    | DESCRIPTION \<Rightarrow> saved_text it DESCRIPTION | NAME \<Rightarrow> saved_text it NAME
    | ARTICLE \<Rightarrow> saved_text it ARTICLE | PLURALNAME \<Rightarrow> saved_text it PLURALNAME
    | SPECIAL \<Rightarrow> saved_text it SPECIAL | STORE_INBOX_CATEGORY \<Rightarrow> saved_text it STORE_INBOX_CATEGORY
    | _ \<Rightarrow> None)"

text \<open>The effects on the lookups, one conditional update after the other.\<close>

fun map_effect :: "effect \<Rightarrow> (item_attr \<rightharpoonup> attr_value) \<Rightarrow> (item_attr \<rightharpoonup> attr_value)" where
  "map_effect (EAttr op) m = map_step op m"
| "map_effect (ECount n) m = m"
| "map_effect (ECustom c) m = m"

lemma apply_effects_attrs:
  "item_ok it \<Longrightarrow> item_ok (fold apply_effect es it)
    \<and> map_of (it_attrs (fold apply_effect es it)) = fold map_effect es (map_of (it_attrs it))"
proof (induction es arbitrary: it)
  case (Cons e es)
  have "item_ok (apply_effect e it) \<and> map_of (it_attrs (apply_effect e it)) = map_effect e (map_of (it_attrs it))"
    using Cons.prems by (cases e) (simp_all add: item_ok_def attr_step_ok setItemCount_def fold_add_custom)
  then show ?case using Cons.IH by simp
qed simp

definition step_if :: "bool \<Rightarrow> effect \<Rightarrow> (item_attr \<rightharpoonup> attr_value) \<Rightarrow> (item_attr \<rightharpoonup> attr_value)" where
  "step_if c e m = (if c then map_effect e m else m)"

lemma fold_effects_of:
  "fold map_effect (effects_of ps) m = fold (\<lambda>(c, attr, bs, e). step_if c e) ps m"
  by (induction ps arbitrary: m) (auto simp: effects_of_def step_if_def)

lemma step_if_at:
  "step_if c (EAttr (SetInt k v)) m t = (if t = k \<and> c \<and> isAttributeInteger k then Some (AInt v) else m t)"
  "step_if c (EAttr (SetStr k s)) m t = (if t = k \<and> c \<and> isAttributeString k \<and> s \<noteq> [] then Some (AStr s) else m t)"
  "step_if c (ECount n) m t = m t"
  "step_if c (ECustom x) m t = m t"
  by (simp_all add: step_if_def)

lemma text_of_absent: "\<not> has t it \<Longrightarrow> text_of it t = []"
  by (simp add: getAttributeString_def attr_simps)

lemma second_pieces_attrs:
  "fold (\<lambda>(c, attr, bs, e). step_if c e) (second_pieces maxTier it) m t
    = (if t \<in> {WEIGHT, ATTACK, DEFENSE, EXTRADEFENSE, IMBUEMENT_SLOT, OPENCONTAINER, ARMOR, HITCHANCE,
        SHOOTRANGE, SPECIAL, QUICKLOOTCONTAINER, TIER, AMOUNT, STORE_INBOX_CATEGORY, OWNER, OBTAINCONTAINER}
       then (case saved_attr T ms maxTier it t of None \<Rightarrow> m t | Some v \<Rightarrow> Some v) else m t)"
  by (cases t) (auto simp: second_pieces_def piece_defs step_if_at saved_attr_def keep_def saved_text_def
      isAttributeInteger_def isAttributeString_def Let_def dest: text_of_absent)

lemma first_pieces_attrs:
  "fold (\<lambda>(c, attr, bs, e). step_if c e) (first_pieces T ms it) m t
    = (if t \<in> {STORE, DATE, FLUIDTYPE, CHARGES, ACTIONID, TEXT, WRITER, DESCRIPTION, DURATION, DECAYSTATE,
        NAME, ARTICLE, PLURALNAME}
       then (case saved_attr T ms maxTier it t of None \<Rightarrow> m t | Some v \<Rightarrow> Some v) else m t)"
  by (cases t) (auto simp: first_pieces_def piece_defs step_if_at saved_attr_def keep_def saved_text_def
      isAttributeInteger_def isAttributeString_def Let_def is_fluid_def dest: text_of_absent)

section \<open>The rest of the item\<close>

lemma apply_effects_id: "it_id (fold apply_effect es it) = it_id it"
  by (induction es arbitrary: it) auto

fun count_effect :: "effect \<Rightarrow> u8 \<Rightarrow> u8" where
  "count_effect (ECount n) k = n"
| "count_effect _ k = k"

lemma apply_effects_count:
  "it_count (fold apply_effect es it) = fold count_effect es (it_count it)"
proof -
  have "it_count (apply_effect e it) = count_effect e (it_count it)" for e it
    by (cases e) (simp_all add: setItemCount_def fold_add_custom)
  then show ?thesis by (induction es arbitrary: it) auto
qed

fun custom_effect :: "effect \<Rightarrow> custom_map \<Rightarrow> custom_map" where
  "custom_effect (ECustom c) m = fold (\<lambda>(k, v). addCustomAttribute k (as_saved v)) c m"
| "custom_effect _ m = m"

lemma apply_effects_custom:
  "it_custom (fold apply_effect es it) = fold custom_effect es (it_custom it)"
proof -
  have "it_custom (apply_effect e it) = custom_effect e (it_custom it)" for e it
    by (cases e) (simp_all add: setItemCount_def fold_add_custom)
  then show ?thesis by (induction es arbitrary: it) auto
qed

lemma effects_count:
  "fold count_effect (effects_of (first_pieces T ms it @ second_pieces maxTier it)) k
    = (if ty_stackable (T (it_id it)) \<and> \<not> is_fluid T it then it_count it else k)"
  by (auto simp: effects_of_def first_pieces_def second_pieces_def piece_defs Let_def is_fluid_def)

lemma effects_custom:
  assumes "map_ok (it_custom it)"
  shows "fold custom_effect (effects_of (first_pieces T ms it @ second_pieces maxTier it)) []
    = map (\<lambda>(k, v). (k, as_saved v)) (it_custom it)"
proof -
  have "fold (\<lambda>(k, v). addCustomAttribute k (as_saved v)) (it_custom it) []
      = map (\<lambda>(k, v). (k, as_saved v)) (it_custom it)"
    using assms fold_addCustomAttribute [of "[]" "it_custom it"] by (auto simp: map_ok_def list_all_iff)
  then show ?thesis
    by (auto simp: effects_of_def first_pieces_def second_pieces_def piece_defs Let_def)
qed

section \<open>Properties\<close>

text \<open>
  C28. Take an item that is savable: it is not a hireling lamp, it has charges only if its type
  has them as subtype (otherwise they come back as its count, \<open>charges_become_count\<close>), and its
  custom attributes are a map with keys in lower case of at most 65535 bytes. Saved, and loaded
  into a fresh item of its type where the record ends or a zero byte follows, it keeps its
  count if it stacks (otherwise the count is the one of the fresh item) and its custom
  attributes, and its attributes are those of the fresh item with the ones that \<open>saved_attr\<close>
  lists, at the width they are saved with, put over them; reading stops behind what was
  written, and no unique identifier is taken.
\<close>

theorem item_survives_saving:
  assumes "savable T it" "item_ok fresh" "it_id fresh = it_id it" "it_custom fresh = []"
    and "tail = [] \<or> hd tail = 0"
  shows "\<exists>r. unserializeAttr T now (fresh, uniq) (serializeAttr T ms maxTier it @ tail) = (True, (r, uniq), tl tail)
    \<and> it_id r = it_id it
    \<and> it_count r = (if ty_stackable (T (it_id it)) \<and> \<not> is_fluid T it then it_count it else it_count fresh)
    \<and> map_of (it_attrs r) = map_of (it_attrs fresh) ++ saved_attr T ms maxTier it
    \<and> it_custom r = map (\<lambda>(k, v). (k, as_saved v)) (it_custom it)"
proof -
  let ?ps = "first_pieces T ms it @ second_pieces maxTier it"
  define r where "r = fold apply_effect (effects_of ?ps) fresh"
  have "unserializeAttr T now (fresh, uniq) (bytes_of ?ps @ tail) = unserializeAttr T now (r, uniq) tail"
    using unserializeAttr_pieces [of T now it ?ps "(fresh, uniq)" tail] assms(1,3)
    by (simp add: first_pieces_ok second_pieces_ok r_def)
  moreover have "unserializeAttr T now (r, uniq) tail = (True, (r, uniq), tl tail)"
    using assms(5) by (cases tail) auto
  moreover have "map_of (it_attrs r) = map_of (it_attrs fresh) ++ saved_attr T ms maxTier it"
  proof
    fix t
    have "map_of (it_attrs r) t = fold (\<lambda>(c, attr, bs, e). step_if c e) (second_pieces maxTier it)
        (fold (\<lambda>(c, attr, bs, e). step_if c e) (first_pieces T ms it) (map_of (it_attrs fresh))) t"
      using apply_effects_attrs [OF assms(2), of "effects_of ?ps"]
      by (simp add: r_def fold_effects_of del: fold_append) (simp add: fold_append)
    then show "map_of (it_attrs r) t = (map_of (it_attrs fresh) ++ saved_attr T ms maxTier it) t"
      unfolding second_pieces_attrs [where T = T and ms = ms] first_pieces_attrs [where maxTier = maxTier]
      by (cases t) (auto simp: map_add_def saved_attr_def keep_def)
  qed
  moreover have "it_custom r = map (\<lambda>(k, v). (k, as_saved v)) (it_custom it)"
    using assms(1,4) by (simp add: r_def apply_effects_custom effects_custom savable_def)
  ultimately show ?thesis
    unfolding serialize_pieces using assms(3)
    by (intro exI [of _ r]) (simp add: r_def apply_effects_id apply_effects_count effects_count)
qed

definition sample_type :: itemtype where
  "sample_type = \<lparr>ty_stackable = False, ty_fluidContainer = False, ty_splash = False, ty_movable = True,
     ty_pickupable = True, ty_corpse = False, ty_quiver = False, ty_ammo = False, ty_charges = 10,
     ty_stackSize = 1, ty_weight = 500, ty_decayTime = 0, ty_decayTo = -1, ty_stopTime = False\<rparr>"

definition sample_item :: item where
  "sample_item = \<lparr>it_id = 7, it_count = 1,
     it_attrs = [(CHARGES, AInt 5), (TEXT, AStr [72, 105]), (ATTACK, AInt (- 3))],
     it_custom = [([97], CBool True)]\<rparr>"

lemma item_survives_saving_witness:
  "\<exists>r. unserializeAttr (\<lambda>i. sample_type) 0 (new_item (\<lambda>i. sample_type) 7 0, [])
      (serializeAttr (\<lambda>i. sample_type) 0 10 sample_item @ [0, 42]) = (True, (r, []), [42])
    \<and> it_count r = 1 \<and> map_of (it_attrs r) TEXT = Some (AStr [72, 105])
    \<and> map_of (it_attrs r) ATTACK = Some (AInt (- 3)) \<and> it_custom r = [([97], CBool True)]"
proof -
  let ?T = "\<lambda>i :: u16. sample_type" and ?fresh = "new_item (\<lambda>i. sample_type) 7 0"
  have fresh: "?fresh = \<lparr>it_id = 7, it_count = 1, it_attrs = [(CHARGES, AInt 10)], it_custom = []\<rparr>"
    by (simp add: new_item_def sample_type_def setDefaultDuration_def getDefaultDuration_def
        setAttribute_int_def isAttributeInteger_def getDefaultValueForType_def)
  have low: "asLowerCaseString [97] = [97]" by (simp add: asLowerCaseString_def tolower_def)
  have "it_id ?fresh = it_id sample_item" "it_custom ?fresh = []"
    by (simp_all add: fresh sample_item_def)
  moreover have "savable ?T sample_item"
    by (simp add: low savable_def charges_ok_def is_fluid_def sample_type_def sample_item_def
        map_ok_def HIRELING_LAMP_def)
  moreover have "it_count ?fresh = 1"
    by (simp add: fresh)
  moreover have "saved_attr ?T 0 10 sample_item TEXT = Some (AStr [72, 105])"
    "saved_attr ?T 0 10 sample_item ATTACK = Some (AInt (- 3))"
    "\<not> (ty_stackable (?T (it_id sample_item)) \<and> \<not> is_fluid ?T sample_item)"
    "map (\<lambda>(k, v). (k, as_saved v)) (it_custom sample_item) = [([97], CBool True)]"
    by (simp_all add: saved_attr_def saved_text_def keep_def sample_item_def sample_type_def
        getAttributeString_def isAttributeString_def attr_simps getAttribute_as_truncates
        getAttributeValue_def isAttributeInteger_def)
  ultimately show ?thesis
    using item_survives_saving [of ?T sample_item ?fresh "[0, 42]" 0 "[]" 0 10] item_ok_new
    by (auto simp: map_add_Some_iff)
qed

section \<open>Charges on a type without charges\<close>

text \<open>They come back as the count of the item.\<close>

lemma charges_become_count:
  assumes "\<not> is_fluid T fresh" "\<not> ty_stackable (T (it_id fresh))" "ty_charges (T (it_id fresh)) = 0"
  shows "unserializeAttr T now (fresh, uniq) (write_if True ATTR_CHARGES (ps_write 2 (charges :: u16)))
    = (True, (setItemCount (ucast charges) fresh, uniq), [])"
proof -
  have "readAttr T now ATTR_CHARGES (fresh, uniq) (ps_write 2 charges)
      = (ATTR_READ_CONTINUE, (setItemCount (ucast charges) fresh, uniq), [])"
    using assms read_into_write [where rest = "[]" and n = 2 and v = charges] by (simp add: readAttr_def setSubType_def)
  from unserializeAttr_write [OF this] show ?thesis by (simp add: write_if_def)
qed

end
