(* ===== verification/Container_Heap.thy ===== *)
theory Container_Heap
  imports Items
begin

text \<open>
  Containers (src/src/items/containers/container.hpp, container.cpp) as objects of a heap:
  every thing has an address and a parent pointer, a container also the list of the items
  in it and the weight it holds. The operations that put items into a container, take them
  out or change them there are modelled with the weight updates along the chain of parent
  containers; the theory shows that the containers stay a forest and that every weight is
  the sum of what the container holds.
\<close>

section \<open>The heap\<close>

text \<open>
  A cylinder is anything with contents: containers, creatures, tiles, and a few items such
  as mailboxes and teleports. \<open>shared_ptr\<close>s are addresses, a null pointer is \<open>None\<close>.
\<close>

datatype kind = K_Item | K_CylinderItem | K_Container | K_Creature bool | K_Tile bool

record thing =
  th_kind :: kind
  th_parent :: "nat option"
  th_item :: item
  itemlist :: "nat list"
  totalWeight :: u32
  maxSize :: u32
  m_maxItems :: u32
  c_unlocked :: bool
  c_pagination :: bool
  c_inbox :: bool
  m_lootHighlightActive :: bool

type_synonym heap = "nat \<Rightarrow> thing"

definition is_container :: "heap \<Rightarrow> nat \<Rightarrow> bool" where
  "is_container h a \<longleftrightarrow> th_kind (h a) = K_Container"

text \<open>\<open>getItem() != nullptr\<close>.\<close>

definition is_item :: "heap \<Rightarrow> nat \<Rightarrow> bool" where
  "is_item h a \<longleftrightarrow> th_kind (h a) \<in> {K_Item, K_CylinderItem, K_Container}"

definition setParent :: "nat option \<Rightarrow> nat \<Rightarrow> heap \<Rightarrow> heap" where
  "setParent p a h = h(a := (h a)\<lparr>th_parent := p\<rparr>)"

definition set_itemlist :: "nat list \<Rightarrow> nat \<Rightarrow> heap \<Rightarrow> heap" where
  "set_itemlist xs c h = h(c := (h c)\<lparr>itemlist := xs\<rparr>)"

definition set_item :: "item \<Rightarrow> nat \<Rightarrow> heap \<Rightarrow> heap" where
  "set_item it a h = h(a := (h a)\<lparr>th_item := it\<rparr>)"

definition add_weight :: "u32 \<Rightarrow> nat \<Rightarrow> heap \<Rightarrow> heap" where
  "add_weight diff c h = h(c := (h c)\<lparr>totalWeight := totalWeight (h c) + diff\<rparr>)"

lemmas heap_updates = setParent_def set_itemlist_def set_item_def add_weight_def

text \<open>The virtual \<open>getWeight\<close>: \<open>Container::getWeight\<close> adds what the container holds.\<close>

definition thing_weight :: "items \<Rightarrow> heap \<Rightarrow> nat \<Rightarrow> u32" where
  "thing_weight T h a =
     (if is_container h a then getWeight T (th_item (h a)) + totalWeight (h a)
      else getWeight T (th_item (h a)))"

definition getParentContainer :: "heap \<Rightarrow> nat \<Rightarrow> nat option" where
  "getParentContainer h c = (case th_parent (h c) of
      None \<Rightarrow> None
    | Some p \<Rightarrow> if is_container h p then Some p else None)"

text \<open>\<open>updateItemWeight\<close>; \<open>None\<close> would be a loop that does not end.\<close>

partial_function (option) weigh_parents :: "u32 \<Rightarrow> nat \<Rightarrow> heap \<Rightarrow> heap option" where
  "weigh_parents diff c h = (case getParentContainer h c of
      None \<Rightarrow> Some h
    | Some p \<Rightarrow> weigh_parents diff p (add_weight diff p h))"

definition updateItemWeight :: "u32 \<Rightarrow> nat \<Rightarrow> heap \<Rightarrow> heap option" where
  "updateItemWeight diff c h = weigh_parents diff c (add_weight diff c h)"

fun thing_index :: "nat \<Rightarrow> nat list \<Rightarrow> int \<Rightarrow> int" where
  "thing_index t [] i = -1"
| "thing_index t (x # xs) i = (if x = t then i else thing_index t xs (i + 1))"

definition getThingIndex :: "heap \<Rightarrow> nat \<Rightarrow> nat \<Rightarrow> int" where
  "getThingIndex h c t = thing_index t (itemlist (h c)) 0"

definition getItemByIndex :: "heap \<Rightarrow> nat \<Rightarrow> nat \<Rightarrow> nat option" where
  "getItemByIndex h c index =
     (if length (itemlist (h c)) \<le> index then None else Some (itemlist (h c) ! index))"

section \<open>Operations\<close>

definition addThing :: "items \<Rightarrow> nat \<Rightarrow> int \<Rightarrow> nat option \<Rightarrow> heap \<Rightarrow> heap option" where
  "addThing T c index th h = (case th of
      None \<Rightarrow> Some h
    | Some item \<Rightarrow>
        if index \<ge> sint (maxSize (h c)) then Some h
        else if \<not> is_item h item then Some h
        else
          let h1 = setParent (Some c) item h;
              h2 = set_itemlist (item # itemlist (h1 c)) c h1
          in updateItemWeight (thing_weight T h2 item) c h2)"

text \<open>\<open>internalAddThing\<close> does the same without the test of the index.\<close>

definition internalAddThing :: "items \<Rightarrow> nat \<Rightarrow> nat option \<Rightarrow> heap \<Rightarrow> heap option" where
  "internalAddThing T c th h = (case th of
      None \<Rightarrow> Some h
    | Some item \<Rightarrow>
        if \<not> is_item h item then Some h
        else
          let h1 = setParent (Some c) item h;
              h2 = set_itemlist (item # itemlist (h1 c)) c h1
          in updateItemWeight (thing_weight T h2 item) c h2)"

definition addItem :: "nat \<Rightarrow> nat \<Rightarrow> heap \<Rightarrow> heap" where
  "addItem c item h = setParent (Some c) item (set_itemlist (itemlist (h c) @ [item]) c h)"

definition addItemBack :: "items \<Rightarrow> nat \<Rightarrow> nat \<Rightarrow> heap \<Rightarrow> heap option" where
  "addItemBack T c item h =
     (let h1 = addItem c item h in updateItemWeight (thing_weight T h1 item) c h1)"

definition updateThing :: "items \<Rightarrow> nat \<Rightarrow> nat \<Rightarrow> u16 \<Rightarrow> u32 \<Rightarrow> heap \<Rightarrow> heap option" where
  "updateThing T c th itemId cnt h =
     (if getThingIndex h c th = -1 then Some h
      else if \<not> is_item h th then Some h
      else
        let oldWeight = thing_weight T h th;
            h1 = set_item (setSubType T (ucast cnt) (setID T itemId (th_item (h th)))) th h
        in updateItemWeight (- oldWeight + thing_weight T h1 th) c h1)"

definition replaceThing :: "items \<Rightarrow> nat \<Rightarrow> nat \<Rightarrow> nat option \<Rightarrow> heap \<Rightarrow> heap option" where
  "replaceThing T c index th h = (case th of
      None \<Rightarrow> Some h
    | Some item \<Rightarrow>
        if \<not> is_item h item then Some h
        else if index \<ge> length (itemlist (h c)) then Some h
        else (case getItemByIndex h c index of
            None \<Rightarrow> Some h
          | Some replacedItem \<Rightarrow>
              let h1 = set_itemlist ((itemlist (h c))[index := item]) c h;
                  h2 = setParent (Some c) item h1
              in map_option (setParent None replacedItem)
                   (updateItemWeight (- thing_weight T h2 replacedItem + thing_weight T h2 item) c h2)))"

text \<open>An emptied corpse loses its highlight.\<close>

definition clearLootHighlight :: "items \<Rightarrow> nat \<Rightarrow> heap \<Rightarrow> heap" where
  "clearLootHighlight T c h =
     (if ty_corpse (T (it_id (th_item (h c)))) \<and> itemlist (h c) = []
      then h(c := (h c)\<lparr>m_lootHighlightActive := False\<rparr>) else h)"

definition remove_nth :: "nat \<Rightarrow> nat list \<Rightarrow> nat list" where
  "remove_nth i xs = take i xs @ drop (Suc i) xs"

definition removeThing :: "items \<Rightarrow> nat \<Rightarrow> nat \<Rightarrow> u32 \<Rightarrow> heap \<Rightarrow> heap option" where
  "removeThing T c item cnt h =
     (if \<not> is_item h item then Some h
      else
        let index = getThingIndex h c item; it = th_item (h item)
        in if index = -1 then Some h
           else if ty_stackable (T (it_id it)) \<and> cnt \<noteq> ucast (it_count it) then
             let rest = ucast (it_count it) - cnt;
                 newCount = ucast (max0 rest) :: u8;
                 oldWeight = thing_weight T h item;
                 h1 = set_item (setItemCount newCount it) item h
             in updateItemWeight (- oldWeight + thing_weight T h1 item) c h1
           else map_option
             (\<lambda>h1. let h2 = setParent None item h1
               in clearLootHighlight T c
                    (set_itemlist (remove_nth (nat index) (itemlist (h2 c))) c h2))
             (updateItemWeight (- thing_weight T h item) c h))"

text \<open>\<open>removeItem\<close> takes the item out without touching the weights.\<close>

definition removeItem :: "items \<Rightarrow> nat \<Rightarrow> nat option \<Rightarrow> heap \<Rightarrow> heap" where
  "removeItem T c th h = (case th of
      None \<Rightarrow> h
    | Some item \<Rightarrow>
        if \<not> is_item h item then h
        else if item \<notin> set (itemlist (h c)) then h
        else clearLootHighlight T c
          (setParent None item (set_itemlist (remove1 item (itemlist (h c))) c h)))"

section \<open>The forest invariant\<close>

text \<open>Every chain of parents ends.\<close>

inductive rooted :: "heap \<Rightarrow> nat \<Rightarrow> bool" for h where
  top: "th_parent (h a) = None \<Longrightarrow> rooted h a"
| up: "th_parent (h a) = Some p \<Longrightarrow> rooted h p \<Longrightarrow> rooted h a"

inductive above :: "heap \<Rightarrow> nat \<Rightarrow> nat \<Rightarrow> bool" for h where
  parent: "th_parent (h a) = Some p \<Longrightarrow> above h a p"
| further: "th_parent (h a) = Some p \<Longrightarrow> above h p q \<Longrightarrow> above h a q"

definition forest :: "heap \<Rightarrow> bool" where
  "forest h \<longleftrightarrow>
     (\<forall>c. is_container h c \<longrightarrow> distinct (itemlist (h c)))
     \<and> (\<forall>c x. is_container h c \<and> th_parent (h x) = Some c \<longrightarrow> is_item h x)
     \<and> (\<forall>c x. is_container h c \<longrightarrow> (x \<in> set (itemlist (h c)) \<longleftrightarrow> th_parent (h x) = Some c))
     \<and> (\<forall>a. rooted h a)"

text \<open>The weight container \<open>c\<close> holds is off by \<open>d\<close>, every other is the sum of its contents.\<close>

definition contents_weight :: "items \<Rightarrow> heap \<Rightarrow> nat \<Rightarrow> u32" where
  "contents_weight T h c = sum_list (map (thing_weight T h) (itemlist (h c)))"

definition weights_off :: "items \<Rightarrow> heap \<Rightarrow> nat \<Rightarrow> u32 \<Rightarrow> bool" where
  "weights_off T h c d \<longleftrightarrow> (\<forall>k. is_container h k \<longrightarrow>
     totalWeight (h k) + (if k = c then d else 0) = contents_weight T h k)"

definition weights_ok :: "items \<Rightarrow> heap \<Rightarrow> bool" where
  "weights_ok T h \<longleftrightarrow> (\<forall>k. is_container h k \<longrightarrow> totalWeight (h k) = contents_weight T h k)"

lemma weights_off_0: "weights_off T h c 0 = weights_ok T h"
  by (simp add: weights_off_def weights_ok_def)

section \<open>Weights along the parents\<close>

lemma above_extend: "above h a q \<Longrightarrow> th_parent (h q) = Some r \<Longrightarrow> above h a r"
  by (induction rule: above.induct) (auto intro: above.intros)

lemma above_parent:
  assumes "th_parent (h a) = Some p" "above h a a"
  shows "above h p p"
  using assms(2)
proof (cases rule: above.cases)
  case parent
  then show ?thesis using assms by simp
next
  case (further p')
  then show ?thesis using assms(1) above_extend [of h p a p] by simp
qed

lemma not_above_self:
  assumes "rooted h a"
  shows "\<not> above h a a"
  using assms
proof (induction rule: rooted.induct)
  case (top a)
  then show ?case by (auto elim: above.cases)
next
  case (up a p)
  then show ?case using above_parent by blast
qed

definition same_shape :: "heap \<Rightarrow> heap \<Rightarrow> bool" where
  "same_shape h h' \<longleftrightarrow> (\<forall>a. h' a = (h a)\<lparr>totalWeight := totalWeight (h' a)\<rparr>)"

lemma same_shape_refl [simp]: "same_shape h h"
  by (simp add: same_shape_def)

lemma same_shape_trans:
  assumes "same_shape h h'" "same_shape h' h''"
  shows "same_shape h h''"
  unfolding same_shape_def
proof
  fix a
  have "h' a = (h a)\<lparr>totalWeight := totalWeight (h' a)\<rparr>" "h'' a = (h' a)\<lparr>totalWeight := totalWeight (h'' a)\<rparr>"
    using assms by (simp_all only: same_shape_def)
  then show "h'' a = (h a)\<lparr>totalWeight := totalWeight (h'' a)\<rparr>"
    by (cases "h a"; cases "h' a"; cases "h'' a") simp
qed

lemma same_shape_add_weight [simp]: "same_shape h (add_weight d c h)"
  by (simp add: same_shape_def add_weight_def)

lemma same_shape_fields:
  assumes "same_shape h h'"
  shows "th_kind (h' a) = th_kind (h a)" "th_parent (h' a) = th_parent (h a)" "th_item (h' a) = th_item (h a)"
    "itemlist (h' a) = itemlist (h a)" "maxSize (h' a) = maxSize (h a)"
proof -
  have *: "h' a = (h a)\<lparr>totalWeight := totalWeight (h' a)\<rparr>" using assms by (simp only: same_shape_def)
  show "th_kind (h' a) = th_kind (h a)" using arg_cong [OF *, of th_kind] by simp
  show "th_parent (h' a) = th_parent (h a)" using arg_cong [OF *, of th_parent] by simp
  show "th_item (h' a) = th_item (h a)" using arg_cong [OF *, of th_item] by simp
  show "itemlist (h' a) = itemlist (h a)" using arg_cong [OF *, of itemlist] by simp
  show "maxSize (h' a) = maxSize (h a)" using arg_cong [OF *, of maxSize] by simp
qed

lemma is_container_same [simp]: "same_shape h h' \<Longrightarrow> is_container h' a = is_container h a"
  by (simp add: is_container_def same_shape_fields)

lemma is_item_same [simp]: "same_shape h h' \<Longrightarrow> is_item h' a = is_item h a"
  by (simp add: is_item_def same_shape_fields)

lemma rooted_same:
  assumes "rooted h a" "\<And>a. th_parent (h' a) = th_parent (h a)"
  shows "rooted h' a"
  using assms(1) by (induction rule: rooted.induct) (auto intro: rooted.intros simp: assms(2))

lemma forest_same:
  assumes "same_shape h h'" "forest h"
  shows "forest h'"
proof -
  have "rooted h' a" for a
    using assms(2) rooted_same [of h a h'] same_shape_fields(2) [OF assms(1)] by (simp add: forest_def)
  moreover have "is_container h' = is_container h" "is_item h' = is_item h"
    using assms(1) by (auto simp: fun_eq_iff)
  ultimately show ?thesis
    using assms(2) by (auto simp: forest_def same_shape_fields [OF assms(1)])
qed

section \<open>The effect of \<open>updateItemWeight\<close>\<close>

lemma getParentContainer_Some:
  "getParentContainer h c = Some p \<longleftrightarrow> th_parent (h c) = Some p \<and> is_container h p"
  by (auto simp: getParentContainer_def split: option.splits)

lemma thing_weight_add:
  "thing_weight T (add_weight d c h) a = thing_weight T h a + (if a = c \<and> is_container h c then d else 0)"
  by (simp add: thing_weight_def add_weight_def is_container_def)

lemma contents_weight_add:
  assumes "forest h" "is_container h c" "is_container h k"
  shows "contents_weight T (add_weight d c h) k
    = contents_weight T h k + (if th_parent (h c) = Some k then d else 0)"
proof -
  have list: "itemlist (add_weight d c h k) = itemlist (h k)" by (simp add: add_weight_def)
  have eq: "sum_list (map (thing_weight T (add_weight d c h)) xs)
      = sum_list (map (thing_weight T h) xs) + (if c \<in> set xs then d else 0)" if "distinct xs" for xs
    using that by (induction xs) (auto simp: thing_weight_add assms(2))
  have "distinct (itemlist (h k))" "c \<in> set (itemlist (h k)) \<longleftrightarrow> th_parent (h c) = Some k"
    using assms(1,3) by (auto simp: forest_def)
  then show ?thesis by (simp add: contents_weight_def list eq)
qed

text \<open>Adding a weight to one container moves the error to its parent.\<close>

lemma weights_off_step:
  assumes "forest h" "is_container h c" "is_container h p" "th_parent (h c) = Some p"
    and off: "\<forall>k. is_container h k \<longrightarrow> totalWeight (h k) + (if k = c then d else 0) + e k = contents_weight T h k"
  shows "\<forall>k. is_container h k \<longrightarrow>
    totalWeight (add_weight d c h k) + (if k = p then d else 0) + e k = contents_weight T (add_weight d c h) k"
proof (intro allI impI)
  fix k
  assume k: "is_container h k"
  have "totalWeight (h k) + (if k = c then d else 0) + e k = contents_weight T h k" using off k by blast
  then show "totalWeight (add_weight d c h k) + (if k = p then d else 0) + e k = contents_weight T (add_weight d c h) k"
    using contents_weight_add [OF assms(1,2) k] assms(4) by (auto simp: add_weight_def)
qed

lemma weights_off_top:
  assumes "forest h" "is_container h c" "getParentContainer h c = None"
    and off: "\<forall>k. is_container h k \<longrightarrow> totalWeight (h k) + (if k = c then d else 0) + e k = contents_weight T h k"
  shows "\<forall>k. is_container h k \<longrightarrow> totalWeight (add_weight d c h k) + e k = contents_weight T (add_weight d c h) k"
proof (intro allI impI)
  fix k
  assume k: "is_container h k"
  have "th_parent (h c) \<noteq> Some k" using assms(3) k getParentContainer_Some [of h c k] by auto
  moreover have "totalWeight (h k) + (if k = c then d else 0) + e k = contents_weight T h k" using off k by blast
  ultimately show "totalWeight (add_weight d c h k) + e k = contents_weight T (add_weight d c h) k"
    using contents_weight_add [OF assms(1,2) k] by (auto simp: add_weight_def)
qed

lemma getParentContainer_add [simp]: "getParentContainer (add_weight d k h) c = getParentContainer h c"
  by (simp add: getParentContainer_def add_weight_def is_container_def split: option.split)

lemma is_container_add [simp]: "is_container (add_weight d c h) a = is_container h a"
  by (simp add: is_container_def add_weight_def)

lemma add_weight_other [simp]: "a \<noteq> c \<Longrightarrow> add_weight d c h a = h a"
  by (simp add: add_weight_def)

lemma updateItemWeight_unfold:
  "updateItemWeight d c h = (case getParentContainer h c of
      None \<Rightarrow> Some (add_weight d c h)
    | Some p \<Rightarrow> updateItemWeight d p (add_weight d c h))"
  unfolding updateItemWeight_def by (subst weigh_parents.simps) (simp split: option.split)

lemma updateItemWeight_off_aux:
  assumes "rooted h0 c" "same_shape h0 h" "forest h" "is_container h c"
    and "\<forall>k. is_container h k \<longrightarrow> totalWeight (h k) + (if k = c then d else 0) + e k = contents_weight T h k"
  shows "\<exists>h'. updateItemWeight d c h = Some h' \<and> same_shape h h'
    \<and> (\<forall>k. is_container h k \<longrightarrow> totalWeight (h' k) + e k = contents_weight T h' k)
    \<and> (\<forall>a. a \<noteq> c \<longrightarrow> \<not> above h0 c a \<longrightarrow> h' a = h a)"
  using assms
proof (induction arbitrary: h rule: rooted.induct)
  case (top c)
  have "th_parent (h c) = None" using top.hyps same_shape_fields(2) [OF top.prems(1)] by simp
  then have none: "getParentContainer h c = None" by (simp add: getParentContainer_def)
  show ?case
    using weights_off_top [OF top.prems(2,3) none top.prems(4)]
    by (auto simp: updateItemWeight_unfold [of d c h] none)
next
  case (up c p)
  have par: "th_parent (h c) = Some p" using up.hyps same_shape_fields(2) [OF up.prems(1)] by simp
  let ?h1 = "add_weight d c h"
  show ?case
  proof (cases "is_container h p")
    case False
    with par have none: "getParentContainer h c = None" by (simp add: getParentContainer_def)
    show ?thesis
      using weights_off_top [OF up.prems(2,3) none up.prems(4)]
      by (auto simp: updateItemWeight_unfold [of d c h] none)
  next
    case True
    then have pc: "getParentContainer h c = Some p" using par by (simp add: getParentContainer_def)
    have sh: "same_shape h ?h1" by simp
    have "same_shape h0 ?h1" using up.prems(1) sh by (rule same_shape_trans)
    moreover have "forest ?h1" using sh up.prems(2) by (rule forest_same)
    moreover have "is_container ?h1 p" using True by simp
    moreover have "\<forall>k. is_container ?h1 k \<longrightarrow>
        totalWeight (?h1 k) + (if k = p then d else 0) + e k = contents_weight T ?h1 k"
      using weights_off_step [OF up.prems(2,3) True par up.prems(4)] by simp
    ultimately obtain h' where h': "updateItemWeight d p ?h1 = Some h'" "same_shape ?h1 h'"
      "\<forall>k. is_container ?h1 k \<longrightarrow> totalWeight (h' k) + e k = contents_weight T h' k"
      "\<forall>a. a \<noteq> p \<longrightarrow> \<not> above h0 p a \<longrightarrow> h' a = ?h1 a"
      using up.IH [of ?h1] by blast
    have "same_shape h h'" using sh h'(2) by (rule same_shape_trans)
    moreover have "h' a = h a" if "a \<noteq> c" "\<not> above h0 c a" for a
    proof -
      have "a \<noteq> p" "\<not> above h0 p a" using that(2) up.hyps by (auto intro: above.intros)
      with h'(4) that(1) show ?thesis by simp
    qed
    ultimately show ?thesis
      using h'(1,3) by (auto simp: updateItemWeight_unfold [of d c h] pc)
  qed
qed

text \<open>
  \<open>updateItemWeight d c\<close> always ends, repairs the error \<open>d\<close> of the container \<open>c\<close> (leaving any
  other error \<open>e\<close> as it is) and touches nothing but weights of \<open>c\<close> and what is above it.
\<close>

lemma updateItemWeight_off:
  assumes "forest h" "is_container h c"
    and "\<forall>k. is_container h k \<longrightarrow> totalWeight (h k) + (if k = c then d else 0) + e k = contents_weight T h k"
  obtains h' where "updateItemWeight d c h = Some h'" "same_shape h h'"
    "\<And>k. is_container h k \<Longrightarrow> totalWeight (h' k) + e k = contents_weight T h' k"
    "\<And>a. a \<noteq> c \<Longrightarrow> \<not> above h c a \<Longrightarrow> h' a = h a"
proof -
  have "rooted h c" using assms(1) by (simp add: forest_def)
  from updateItemWeight_off_aux [OF this same_shape_refl assms] show ?thesis using that by blast
qed

end
