(* ===== verification/Container_Ops.thy ===== *)
theory Container_Ops
  imports Container_Heap
begin

text \<open>
  The operations of a container keep the containers a forest with exact weights. Putting an
  item in, taking it out and changing it are three changes of the heap; each is shown once
  and the operations of the source are put together from them.
\<close>

definition wf_heap :: "items \<Rightarrow> heap \<Rightarrow> bool" where
  "wf_heap T h \<longleftrightarrow> forest h \<and> weights_ok T h"

text \<open>An item that may be put into \<open>c\<close>: it lies in no container and is not around \<open>c\<close>.\<close>

definition detached :: "heap \<Rightarrow> nat \<Rightarrow> bool" where
  "detached h x \<longleftrightarrow> getParentContainer h x = None"

definition may_hold :: "heap \<Rightarrow> nat \<Rightarrow> nat \<Rightarrow> bool" where
  "may_hold h c x \<longleftrightarrow> is_container h c \<and> is_item h x \<and> x \<noteq> c \<and> \<not> above h c x"

section \<open>Reading the heap after a change\<close>

lemma is_container_updates [simp]:
  "is_container (setParent p a h) k = is_container h k"
  "is_container (set_itemlist xs a h) k = is_container h k"
  "is_container (set_item it a h) k = is_container h k"
  by (simp_all add: is_container_def heap_updates)

lemma is_item_updates [simp]:
  "is_item (setParent p a h) k = is_item h k"
  "is_item (set_itemlist xs a h) k = is_item h k"
  "is_item (set_item it a h) k = is_item h k"
  by (simp_all add: is_item_def heap_updates)

lemma thing_weight_updates [simp]:
  "thing_weight T (setParent p a h) = thing_weight T h"
  "thing_weight T (set_itemlist xs a h) = thing_weight T h"
  by (simp_all add: fun_eq_iff thing_weight_def is_container_def heap_updates)

lemma totalWeight_updates [simp]:
  "totalWeight (setParent p a h k) = totalWeight (h k)"
  "totalWeight (set_itemlist xs a h k) = totalWeight (h k)"
  "totalWeight (set_item it a h k) = totalWeight (h k)"
  by (simp_all add: heap_updates)

lemma itemlist_updates [simp]:
  "itemlist (setParent p a h k) = itemlist (h k)"
  "itemlist (set_itemlist xs a h k) = (if k = a then xs else itemlist (h k))"
  "itemlist (set_item it a h k) = itemlist (h k)"
  by (simp_all add: heap_updates)

lemma th_parent_updates [simp]:
  "th_parent (setParent p a h k) = (if k = a then p else th_parent (h k))"
  "th_parent (set_itemlist xs a h k) = th_parent (h k)"
  "th_parent (set_item it a h k) = th_parent (h k)"
  by (simp_all add: heap_updates)

lemma forest_distinct: "forest h \<Longrightarrow> is_container h c \<Longrightarrow> distinct (itemlist (h c))"
  by (simp add: forest_def)

lemma forest_contents:
  "forest h \<Longrightarrow> is_container h c \<Longrightarrow> x \<in> set (itemlist (h c)) \<longleftrightarrow> th_parent (h x) = Some c"
  by (simp add: forest_def)

lemma forest_rooted: "forest h \<Longrightarrow> rooted h a"
  by (simp add: forest_def)

lemma contents_weight_sum:
  "distinct (itemlist (h c)) \<Longrightarrow> contents_weight T h c = (\<Sum>x\<in>set (itemlist (h c)). thing_weight T h x)"
  by (simp add: contents_weight_def sum_list_distinct_conv_sum_set)

section \<open>Putting an item in\<close>

definition put :: "nat list \<Rightarrow> nat \<Rightarrow> nat \<Rightarrow> heap \<Rightarrow> heap" where
  "put xs x c h = set_itemlist xs c (setParent (Some c) x h)"

lemma rooted_put_below:
  assumes "rooted h a" "a \<noteq> x" "\<not> above h a x"
  shows "rooted (put xs x c h) a"
  using assms
proof (induction rule: rooted.induct)
  case (top a)
  then show ?case by (intro rooted.top) (simp add: put_def)
next
  case (up a p)
  then have "p \<noteq> x" "\<not> above h p x" by (auto intro: above.intros)
  with up show ?case by (intro rooted.up [of _ a p]) (simp_all add: put_def)
qed

lemma rooted_put:
  assumes "forest h" "x \<noteq> c" "\<not> above h c x"
  shows "rooted (put xs x c h) a"
proof -
  have c: "rooted (put xs x c h) c"
    using assms rooted_put_below [of h c x] by (simp add: forest_rooted)
  then have x: "rooted (put xs x c h) x"
    by (intro rooted.up [of _ x c]) (simp_all add: put_def)
  have "rooted h a" using assms(1) by (rule forest_rooted)
  then show ?thesis
  proof (induction rule: rooted.induct)
    case (top a)
    then show ?case using x by (cases "a = x") (auto intro!: rooted.top simp: put_def)
  next
    case (up a p)
    then show ?case using x by (cases "a = x") (auto intro!: rooted.up [of _ a p] simp: put_def)
  qed
qed

lemma put_forest:
  assumes "forest h" "may_hold h c x" "detached h x"
    and "distinct xs" "set xs = insert x (set (itemlist (h c)))"
  shows "forest (put xs x c h)"
proof -
  have c: "is_container h c" "is_item h x" "x \<noteq> c" using assms(2) by (simp_all add: may_hold_def)
  have nowhere: "th_parent (h x) \<noteq> Some k" if "is_container h k" for k
    using assms(3) that getParentContainer_Some [of h x k] by (auto simp: detached_def)
  have "rooted (put xs x c h) a" for a
    using assms(1,2) by (intro rooted_put) (simp_all add: may_hold_def)
  then show ?thesis
    using assms(1,4,5) c nowhere unfolding forest_def by (auto simp: put_def)
qed

lemma put_weights:
  assumes "wf_heap T h" "may_hold h c x" "detached h x"
    and "distinct xs" "set xs = insert x (set (itemlist (h c)))" "is_container h k"
  shows "totalWeight (put xs x c h k) + (if k = c then thing_weight T (put xs x c h) x else 0)
    = contents_weight T (put xs x c h) k"
proof -
  have f: "forest h" and w: "totalWeight (h k) = contents_weight T h k"
    using assms(1,6) by (simp_all add: wf_heap_def weights_ok_def)
  show ?thesis
  proof (cases "k = c")
    case False
    then show ?thesis using w by (simp add: put_def contents_weight_def)
  next
    case True
    have "x \<notin> set (itemlist (h c))"
      using assms(3,6) True forest_contents [OF f] getParentContainer_Some [of h x c] by (auto simp: detached_def)
    moreover have "contents_weight T (put xs x c h) c = (\<Sum>y\<in>set xs. thing_weight T h y)"
      using assms(4) contents_weight_sum [of "put xs x c h" c T] by (simp add: put_def)
    moreover have "contents_weight T h c = (\<Sum>y\<in>set (itemlist (h c)). thing_weight T h y)"
      using contents_weight_sum forest_distinct f assms(6) True by blast
    ultimately show ?thesis using w True assms(5) by (simp add: put_def add.commute)
  qed
qed

lemma wf_after_update:
  assumes "forest h" "is_container h c"
    and "\<And>k. is_container h k \<Longrightarrow> totalWeight (h k) + (if k = c then d else 0) = contents_weight T h k"
  obtains h' where "updateItemWeight d c h = Some h'" "same_shape h h'" "wf_heap T h'"
proof -
  obtain h' where "updateItemWeight d c h = Some h'" "same_shape h h'"
    "\<And>k. is_container h k \<Longrightarrow> totalWeight (h' k) + 0 = contents_weight T h' k"
    by (rule updateItemWeight_off [OF assms(1,2), where e = "\<lambda>k. 0" and d = d and T = T])
      (use assms(3) in simp_all)
  moreover from this(2) have "forest h'" using assms(1) by (rule forest_same)
  ultimately show ?thesis using that by (simp add: wf_heap_def weights_ok_def)
qed

lemma put_ends:
  assumes "wf_heap T h" "may_hold h c x" "detached h x"
    and "distinct xs" "set xs = insert x (set (itemlist (h c)))"
  obtains h' where "updateItemWeight (thing_weight T (put xs x c h) x) c (put xs x c h) = Some h'"
    "same_shape (put xs x c h) h'" "wf_heap T h'"
proof -
  have "forest (put xs x c h)" using put_forest assms by (simp add: wf_heap_def)
  moreover have "is_container (put xs x c h) c" using assms(2) by (simp add: may_hold_def put_def)
  moreover have "is_container (put xs x c h) k = is_container h k" for k by (simp add: put_def)
  ultimately show ?thesis
    using put_weights [OF assms]
    by (intro wf_after_update [where h = "put xs x c h" and c = c and T = T
          and d = "thing_weight T (put xs x c h) x", OF _ _ _ that]) simp_all
qed

lemma detached_not_in:
  assumes "forest h" "is_container h c" "detached h x"
  shows "x \<notin> set (itemlist (h c))"
  using assms forest_contents [OF assms(1,2), of x] getParentContainer_Some [of h x c] by (auto simp: detached_def)

lemma internalAddThing_wf:
  assumes "wf_heap T h" "may_hold h c x" "detached h x"
  obtains h' where "internalAddThing T c (Some x) h = Some h'" "wf_heap T h'"
    "same_shape (put (x # itemlist (h c)) x c h) h'"
proof -
  have c: "is_container h c" "is_item h x" using assms(2) by (simp_all add: may_hold_def)
  have f: "forest h" using assms(1) by (simp add: wf_heap_def)
  have "distinct (x # itemlist (h c))"
    using forest_distinct [OF f c(1)] detached_not_in [OF f c(1) assms(3)] by simp
  from put_ends [OF assms this] obtain h' where
    "updateItemWeight (thing_weight T (put (x # itemlist (h c)) x c h) x) c (put (x # itemlist (h c)) x c h) = Some h'"
    "same_shape (put (x # itemlist (h c)) x c h) h'" "wf_heap T h'"
    by auto
  with c that show ?thesis by (simp add: internalAddThing_def Let_def put_def)
qed

lemma addThing_internal:
  "addThing T c index th h = (if index \<ge> sint (maxSize (h c)) then Some h else internalAddThing T c th h)"
  by (auto simp: addThing_def internalAddThing_def split: option.split)

lemma addItemBack_wf:
  assumes "wf_heap T h" "may_hold h c x" "detached h x"
  obtains h' where "addItemBack T c x h = Some h'" "wf_heap T h'"
    "same_shape (put (itemlist (h c) @ [x]) x c h) h'"
proof -
  have c: "is_container h c" "x \<noteq> c" using assms(2) by (simp_all add: may_hold_def)
  have f: "forest h" using assms(1) by (simp add: wf_heap_def)
  have "distinct (itemlist (h c) @ [x])"
    using forest_distinct [OF f c(1)] detached_not_in [OF f c(1) assms(3)] by simp
  moreover have "addItem c x h = put (itemlist (h c) @ [x]) x c h"
    using c(2) by (auto simp: addItem_def put_def heap_updates fun_eq_iff)
  moreover from put_ends [OF assms calculation(1)] obtain h' where
    "updateItemWeight (thing_weight T (put (itemlist (h c) @ [x]) x c h) x) c (put (itemlist (h c) @ [x]) x c h) = Some h'"
    "same_shape (put (itemlist (h c) @ [x]) x c h) h'" "wf_heap T h'"
    by auto
  ultimately show ?thesis using that by (simp add: addItemBack_def Let_def)
qed

section \<open>Taking an item out\<close>

definition take_out :: "nat list \<Rightarrow> nat \<Rightarrow> nat \<Rightarrow> heap \<Rightarrow> heap" where
  "take_out xs x c h = set_itemlist xs c (setParent None x h)"

lemma rooted_take_out: "rooted h a \<Longrightarrow> rooted (take_out xs x c h) a"
proof (induction rule: rooted.induct)
  case (top a)
  then show ?case by (intro rooted.top) (simp add: take_out_def)
next
  case (up a p)
  show ?case
  proof (cases "a = x")
    case True
    then show ?thesis by (intro rooted.top) (simp add: take_out_def)
  next
    case False
    with up show ?thesis by (intro rooted.up [of _ a p]) (simp_all add: take_out_def)
  qed
qed

lemma take_out_forest:
  assumes "forest h" "is_container h c" "x \<in> set (itemlist (h c))"
    and "distinct xs" "set xs = set (itemlist (h c)) - {x}"
  shows "forest (take_out xs x c h)"
proof -
  have "th_parent (h x) = Some c" using assms(1-3) forest_contents by blast
  moreover have "rooted (take_out xs x c h) a" for a
    using assms(1) by (intro rooted_take_out forest_rooted)
  ultimately show ?thesis
    using assms unfolding forest_def by (auto simp: take_out_def)
qed

lemma take_out_weights:
  assumes "forest h" "is_container h c" "x \<in> set (itemlist (h c))"
    and "distinct xs" "set xs = set (itemlist (h c)) - {x}"
    and off: "\<And>k. is_container h k \<Longrightarrow>
      totalWeight (h k) + (if k = c then thing_weight T h x else 0) = contents_weight T h k"
  shows "weights_ok T (take_out xs x c h)"
  unfolding weights_ok_def
proof (intro allI impI)
  fix k
  assume "is_container (take_out xs x c h) k"
  then have k: "is_container h k" by (simp add: take_out_def)
  show "totalWeight (take_out xs x c h k) = contents_weight T (take_out xs x c h) k"
  proof (cases "k = c")
    case False
    then show ?thesis using off [OF k] by (simp add: take_out_def contents_weight_def)
  next
    case True
    have "contents_weight T h c = (\<Sum>y\<in>set (itemlist (h c)). thing_weight T h y)"
      using contents_weight_sum forest_distinct assms(1,2) by blast
    also have "\<dots> = thing_weight T h x + (\<Sum>y\<in>set xs. thing_weight T h y)"
      using assms(3,5) sum.remove [of "set (itemlist (h c))" x "thing_weight T h"] by simp
    finally have "totalWeight (h c) = (\<Sum>y\<in>set xs. thing_weight T h y)"
      using off [OF assms(2)] by (simp add: add.commute)
    moreover have "contents_weight T (take_out xs x c h) c = (\<Sum>y\<in>set xs. thing_weight T h y)"
      using assms(4) contents_weight_sum [of "take_out xs x c h" c T] by (simp add: take_out_def)
    ultimately show ?thesis using True by (simp add: take_out_def)
  qed
qed

lemma thing_index_cases:
  "thing_index t xs i = (case index_of t xs of None \<Rightarrow> -1 | Some n \<Rightarrow> i + int n)"
  by (induction xs arbitrary: i) (auto split: option.split)

lemma getThingIndex_absent: "getThingIndex h c t = -1 \<longleftrightarrow> t \<notin> set (itemlist (h c))"
  using index_of_None [of t "itemlist (h c)"]
  by (auto simp: getThingIndex_def thing_index_cases split: option.split)

lemma remove_index:
  assumes "distinct (itemlist (h c))" "t \<in> set (itemlist (h c))"
  defines "xs \<equiv> remove_nth (nat (getThingIndex h c t)) (itemlist (h c))"
  shows "distinct xs" "set xs = set (itemlist (h c)) - {t}"
proof -
  obtain i where i: "index_of t (itemlist (h c)) = Some i"
    using assms(2) index_of_None [of t "itemlist (h c)"] by (cases "index_of t (itemlist (h c))") auto
  then have "i < length (itemlist (h c))" "itemlist (h c) ! i = t"
    using index_of_Some [OF i] by auto
  then have split: "itemlist (h c) = take i (itemlist (h c)) @ t # drop (Suc i) (itemlist (h c))"
    by (metis id_take_nth_drop)
  have xs: "xs = take i (itemlist (h c)) @ drop (Suc i) (itemlist (h c))"
    using i by (simp add: xs_def remove_nth_def getThingIndex_def thing_index_cases)
  have d: "distinct (take i (itemlist (h c)) @ t # drop (Suc i) (itemlist (h c)))"
    using assms(1) split by simp
  then show "distinct xs" unfolding xs by simp
  have "set (itemlist (h c)) = set (take i (itemlist (h c)) @ t # drop (Suc i) (itemlist (h c)))"
    using split by simp
  then show "set xs = set (itemlist (h c)) - {t}" unfolding xs using d by auto
qed

lemma wf_clearLootHighlight [simp]: "wf_heap T (clearLootHighlight T c h) = wf_heap T h"
proof -
  let ?h = "h(c := (h c)\<lparr>m_lootHighlightActive := False\<rparr>)"
  have eqs: "is_container ?h = is_container h" "is_item ?h = is_item h" "thing_weight T ?h = thing_weight T h"
    "\<And>a. th_parent (?h a) = th_parent (h a)" "\<And>a. itemlist (?h a) = itemlist (h a)"
    "\<And>a. totalWeight (?h a) = totalWeight (h a)"
    by (auto simp: fun_eq_iff is_container_def is_item_def thing_weight_def)
  have "rooted ?h a \<longleftrightarrow> rooted h a" for a
    using rooted_same [of h a ?h] rooted_same [of ?h a h] by auto
  then have "wf_heap T ?h = wf_heap T h"
    by (simp add: wf_heap_def forest_def weights_ok_def contents_weight_def eqs del: fun_upd_apply)
  then show ?thesis by (simp add: clearLootHighlight_def)
qed

lemma contained_not_above:
  assumes "forest h" "is_container h c" "x \<in> set (itemlist (h c))"
  shows "x \<noteq> c" "\<not> above h c x"
proof -
  have x: "th_parent (h x) = Some c" using assms forest_contents by blast
  show "\<not> above h c x"
  proof
    assume "above h c x"
    then have "above h x x" using x by (rule above.further [rotated])
    then show False using not_above_self forest_rooted assms(1) by blast
  qed
  show "x \<noteq> c"
  proof
    assume "x = c"
    then have "above h c c" using x by (auto intro: above.parent)
    then show False using not_above_self forest_rooted assms(1) by blast
  qed
qed

text \<open>Resetting the parent of an item and weighing the containers around another do not interfere.\<close>

lemma updateItemWeight_setParent:
  assumes "rooted h0 c" "\<And>a. th_parent (h a) = th_parent (h0 a)" "x \<noteq> c" "\<not> above h0 c x"
  shows "updateItemWeight d c (setParent p x h) = map_option (setParent p x) (updateItemWeight d c h)"
  using assms
proof (induction arbitrary: h rule: rooted.induct)
  case (top c)
  have comm: "add_weight d c (setParent p x h) = setParent p x (add_weight d c h)"
    using top.prems(2) by (auto simp: heap_updates fun_eq_iff)
  have "getParentContainer h c = None" "getParentContainer (setParent p x h) c = None"
    using top by (simp_all add: getParentContainer_def)
  then show ?case using comm by (simp add: updateItemWeight_unfold [of d c])
next
  case (up c q)
  have comm: "add_weight d c (setParent p x h) = setParent p x (add_weight d c h)"
    using up.prems(2) by (auto simp: heap_updates fun_eq_iff)
  have same: "getParentContainer (setParent p x h) c = getParentContainer h c"
    using up.prems(2) by (simp add: getParentContainer_def split: option.split)
  have q: "x \<noteq> q" "\<not> above h0 q x" using up.hyps(1) up.prems(3) by (auto intro: above.intros)
  show ?case
  proof (cases "getParentContainer h c")
    case None
    then show ?thesis using comm same by (simp add: updateItemWeight_unfold [of d c])
  next
    case (Some q')
    then have "q' = q" using up.hyps(1) up.prems(1) by (simp add: getParentContainer_Some)
    moreover have "updateItemWeight d q (setParent p x (add_weight d c h))
        = map_option (setParent p x) (updateItemWeight d q (add_weight d c h))"
      using q up.prems(1) by (intro up.IH) (simp_all add: add_weight_def)
    ultimately show ?thesis using Some comm same by (simp add: updateItemWeight_unfold [of d c])
  qed
qed

lemma wf_removed:
  assumes "wf_heap T h" "is_container h c" "x \<in> set (itemlist (h c))"
  obtains h' where "updateItemWeight (- thing_weight T h x) c h = Some h'" "same_shape h h'"
    "\<And>xs. distinct xs \<Longrightarrow> set xs = set (itemlist (h c)) - {x} \<Longrightarrow> wf_heap T (take_out xs x c h')"
proof -
  have f: "forest h" and w: "weights_ok T h" using assms(1) by (simp_all add: wf_heap_def)
  let ?w = "thing_weight T h x"
  obtain h' where h': "updateItemWeight (- ?w) c h = Some h'" "same_shape h h'"
    "\<And>k. is_container h k \<Longrightarrow> totalWeight (h' k) + (if k = c then ?w else 0) = contents_weight T h' k"
    "\<And>a. a \<noteq> c \<Longrightarrow> \<not> above h c a \<Longrightarrow> h' a = h a"
    by (rule updateItemWeight_off [OF f assms(2), where e = "\<lambda>k. if k = c then ?w else 0" and d = "- ?w" and T = T])
      (use w in \<open>simp_all add: weights_ok_def\<close>)
  have "h' x = h x" using contained_not_above [OF f assms(2,3)] h'(4) by simp
  then have same_w: "thing_weight T h' x = ?w" by (simp add: thing_weight_def is_container_def)
  have f': "forest h'" using h'(2) f by (rule forest_same)
  have "wf_heap T (take_out xs x c h')" if "distinct xs" "set xs = set (itemlist (h c)) - {x}" for xs
  proof -
    have c: "is_container h' c" "itemlist (h' c) = itemlist (h c)"
      using h'(2) assms(2) by (simp_all add: same_shape_fields)
    have "totalWeight (h' k) + (if k = c then thing_weight T h' x else 0) = contents_weight T h' k"
      if "is_container h' k" for k
      using h'(3) [of k] that is_container_same [OF h'(2)] unfolding same_w by blast
    then show ?thesis
      using take_out_forest [OF f' c(1), of x xs] take_out_weights [OF f' c(1), of x xs T] that assms(3)
      by (simp add: wf_heap_def c(2))
  qed
  with h'(1,2) that show ?thesis by blast
qed

section \<open>Changing an item in its place\<close>

lemma forest_set_item: "forest h \<Longrightarrow> forest (set_item it a h)"
proof -
  assume f: "forest h"
  have "rooted (set_item it a h) k" for k
    using rooted_same [of h k "set_item it a h"] forest_rooted [OF f] by simp
  then show ?thesis using f by (auto simp: forest_def)
qed

lemma thing_weight_set_item:
  "b \<noteq> a \<Longrightarrow> thing_weight T (set_item it a h) b = thing_weight T h b"
  by (simp add: thing_weight_def is_container_def set_item_def)

lemma set_item_weights:
  assumes "wf_heap T h" "is_container h c" "a \<in> set (itemlist (h c))" "is_container h k"
  shows "totalWeight (set_item it a h k)
      + (if k = c then - thing_weight T h a + thing_weight T (set_item it a h) a else 0)
    = contents_weight T (set_item it a h) k"
proof -
  let ?h = "set_item it a h"
  have f: "forest h" and w: "totalWeight (h k) = contents_weight T h k"
    using assms(1,4) by (simp_all add: wf_heap_def weights_ok_def)
  have d: "distinct (itemlist (h k))" using forest_distinct f assms(4) by blast
  have sums: "contents_weight T ?h k = (\<Sum>y\<in>set (itemlist (h k)). thing_weight T ?h y)"
    "contents_weight T h k = (\<Sum>y\<in>set (itemlist (h k)). thing_weight T h y)"
    using d by (simp_all add: contents_weight_sum)
  have other: "(\<Sum>y\<in>A - {a}. thing_weight T ?h y) = (\<Sum>y\<in>A - {a}. thing_weight T h y)" for A
    by (rule sum.cong) (auto simp: thing_weight_set_item)
  have "a \<in> set (itemlist (h k)) \<longleftrightarrow> k = c"
    using forest_contents [OF f assms(4)] forest_contents [OF f assms(2)] assms(3) by auto
  then show ?thesis
    using sums w other [of "set (itemlist (h k))"] assms(3)
      sum.remove [of "set (itemlist (h k))" a "thing_weight T ?h"]
      sum.remove [of "set (itemlist (h k))" a "thing_weight T h"]
    by (cases "k = c") (simp_all add: Diff_triv)
qed

lemma set_item_wf:
  assumes "wf_heap T h" "is_container h c" "a \<in> set (itemlist (h c))"
  obtains h' where "updateItemWeight (- thing_weight T h a + thing_weight T (set_item it a h) a) c (set_item it a h)
      = Some h'" "wf_heap T h'" "same_shape (set_item it a h) h'"
proof -
  have "forest (set_item it a h)" using assms(1) by (simp add: wf_heap_def forest_set_item)
  then show ?thesis
    using set_item_weights [OF assms] assms(2)
    by (intro wf_after_update [where h = "set_item it a h" and c = c and T = T
          and d = "- thing_weight T h a + thing_weight T (set_item it a h) a", OF _ _ _ that]) simp_all
qed

section \<open>The operations\<close>

lemma updateThing_wf:
  assumes "wf_heap T h" "is_container h c"
  shows "\<exists>h'. updateThing T c th itemId cnt h = Some h' \<and> wf_heap T h'"
proof (cases "getThingIndex h c th = -1 \<or> \<not> is_item h th")
  case True
  then show ?thesis using assms by (auto simp: updateThing_def)
next
  case False
  then have "th \<in> set (itemlist (h c))" by (simp add: getThingIndex_absent)
  from set_item_wf [OF assms this] obtain h' where
    "updateItemWeight (- thing_weight T h th + thing_weight T (set_item
        (setSubType T (ucast cnt) (setID T itemId (th_item (h th)))) th h) th) c
      (set_item (setSubType T (ucast cnt) (setID T itemId (th_item (h th)))) th h) = Some h'" "wf_heap T h'"
    by blast
  with False show ?thesis by (simp add: updateThing_def Let_def)
qed

lemma removeThing_wf:
  assumes "wf_heap T h" "is_container h c"
  shows "\<exists>h'. removeThing T c x cnt h = Some h' \<and> wf_heap T h'"
proof -
  let ?it = "th_item (h x)"
  have f: "forest h" using assms(1) by (simp add: wf_heap_def)
  consider "\<not> is_item h x \<or> getThingIndex h c x = -1"
    | "is_item h x" "getThingIndex h c x \<noteq> -1" "ty_stackable (T (it_id ?it)) \<and> cnt \<noteq> ucast (it_count ?it)"
    | "is_item h x" "getThingIndex h c x \<noteq> -1" "\<not> (ty_stackable (T (it_id ?it)) \<and> cnt \<noteq> ucast (it_count ?it))"
    by blast
  then show ?thesis
  proof cases
    case 1
    then show ?thesis using assms by (auto simp: removeThing_def)
  next
    case 2
    then have "x \<in> set (itemlist (h c))" by (simp add: getThingIndex_absent)
    from set_item_wf [OF assms this] obtain h' where
      "updateItemWeight (- thing_weight T h x + thing_weight T
          (set_item (setItemCount (ucast (max0 (ucast (it_count ?it) - cnt))) ?it) x h) x) c
        (set_item (setItemCount (ucast (max0 (ucast (it_count ?it) - cnt))) ?it) x h) = Some h'" "wf_heap T h'"
      by blast
    with 2 show ?thesis by (simp add: removeThing_def Let_def)
  next
    case 3
    then have x: "x \<in> set (itemlist (h c))" by (simp add: getThingIndex_absent)
    obtain h' where h': "updateItemWeight (- thing_weight T h x) c h = Some h'" "same_shape h h'"
      "\<And>xs. distinct xs \<Longrightarrow> set xs = set (itemlist (h c)) - {x} \<Longrightarrow> wf_heap T (take_out xs x c h')"
      using wf_removed [OF assms x] by blast
    let ?xs = "remove_nth (nat (getThingIndex h c x)) (itemlist (h c))"
    have "wf_heap T (take_out ?xs x c h')"
      using h'(3) remove_index [of h c x] forest_distinct [OF f assms(2)] x by blast
    with 3 h'(1) show ?thesis
      by (auto simp: removeThing_def Let_def take_out_def same_shape_fields [OF h'(2)])
  qed
qed

lemma addThing_wf:
  assumes "wf_heap T h" "may_hold h c x" "detached h x"
  shows "\<exists>h'. addThing T c i (Some x) h = Some h' \<and> wf_heap T h'"
  using internalAddThing_wf [OF assms] assms(1) by (metis addThing_internal)

section \<open>Replacing an item\<close>

lemma above_put:
  assumes "above (put xs x c h) a b" "a \<noteq> x" "\<not> above h a x"
  shows "above h a b"
  using assms
proof (induction rule: above.induct)
  case (parent a p)
  then show ?case by (intro above.parent) (simp add: put_def)
next
  case (further a p q)
  then have p: "th_parent (h a) = Some p" by (simp add: put_def)
  then have "p \<noteq> x" "\<not> above h p x" using further.prems by (auto intro: above.intros)
  with p further.IH show ?case by (auto intro: above.further)
qed

lemma list_update_distinct:
  assumes "distinct xs" "i < length xs" "x \<notin> set xs"
  shows "distinct (xs[i := x])" "set (xs[i := x]) = insert x (set xs - {xs ! i})"
proof -
  have eq: "xs[i := x] = take i xs @ x # drop (Suc i) xs" using assms(2) by (rule upd_conv_take_nth_drop)
  have split: "xs = take i xs @ xs ! i # drop (Suc i) xs" using assms(2) by (rule id_take_nth_drop)
  have d: "distinct (take i xs @ xs ! i # drop (Suc i) xs)" using assms(1) split by simp
  have s: "set xs = set (take i xs @ xs ! i # drop (Suc i) xs)" using split by simp
  show "distinct (xs[i := x])" using assms(1,3) by (metis distinct_list_update Diff_iff)
  show "set (xs[i := x]) = insert x (set xs - {xs ! i})"
    unfolding eq s using d by auto
qed

lemma replaced_weights:
  assumes "wf_heap T h" "is_container h c" "y \<in> set (itemlist (h c))" "x \<notin> set (itemlist (h c))"
    and "distinct zs" "set zs = insert x (set (itemlist (h c)) - {y})" "is_container h k"
  shows "totalWeight (set_itemlist zs c h k) + (if k = c then - thing_weight T h y + thing_weight T h x else 0)
    = contents_weight T (set_itemlist zs c h) k"
proof (cases "k = c")
  case False
  then show ?thesis using assms(1,7) by (simp add: contents_weight_def wf_heap_def weights_ok_def)
next
  case True
  have "contents_weight T (set_itemlist zs c h) c = (\<Sum>z\<in>set zs. thing_weight T h z)"
    using assms(5) contents_weight_sum [of "set_itemlist zs c h" c T] by simp
  also have "\<dots> = thing_weight T h x + (\<Sum>z\<in>set (itemlist (h c)) - {y}. thing_weight T h z)"
    using assms(4,6) by simp
  finally have new: "contents_weight T (set_itemlist zs c h) c
      = thing_weight T h x + (\<Sum>z\<in>set (itemlist (h c)) - {y}. thing_weight T h z)" .
  have "totalWeight (h c) = (\<Sum>z\<in>set (itemlist (h c)). thing_weight T h z)"
    using assms(1,2) contents_weight_sum forest_distinct by (simp add: wf_heap_def weights_ok_def)
  also have "\<dots> = thing_weight T h y + (\<Sum>z\<in>set (itemlist (h c)) - {y}. thing_weight T h z)"
    using assms(3) by (intro sum.remove) simp_all
  finally show ?thesis using new True by simp
qed

lemma contents_weight_setParent [simp]:
  "contents_weight T (setParent p a h) k = contents_weight T h k"
  by (simp add: contents_weight_def)

text \<open>
  The heap \<open>replaced zs x y c h\<close> is the one after \<open>replaceThing\<close> but for the weights: \<open>y\<close> taken
  out and \<open>x\<close> put in. The source resets the parent of \<open>y\<close> last, which makes no difference.
\<close>

definition replaced :: "nat list \<Rightarrow> nat \<Rightarrow> nat \<Rightarrow> nat \<Rightarrow> heap \<Rightarrow> heap" where
  "replaced zs x y c h = put zs x c (take_out (remove1 y (itemlist (h c))) y c h)"

lemma replaceThing_replaced:
  assumes "forest h" "may_hold h c x" "detached h x" "i < length (itemlist (h c))"
    and "y = itemlist (h c) ! i" "zs = (itemlist (h c))[i := x]"
  shows "replaceThing T c i (Some x) h
    = updateItemWeight (- thing_weight T h y + thing_weight T h x) c (replaced zs x y c h)"
proof -
  have c: "is_container h c" "is_item h x" "x \<noteq> c" "\<not> above h c x"
    using assms(2) by (simp_all add: may_hold_def)
  have y: "y \<in> set (itemlist (h c))" using assms(4,5) by simp
  have y_c: "y \<noteq> c" "\<not> above h c y" and xy: "x \<noteq> y"
    using contained_not_above [OF assms(1) c(1) y] detached_not_in [OF assms(1) c(1) assms(3)] y by auto
  have put: "setParent (Some c) x (set_itemlist zs c h) = put zs x c h"
    using c(3) by (auto simp: put_def heap_updates fun_eq_iff)
  have "getItemByIndex h c i = Some y" using assms(4,5) by (simp add: getItemByIndex_def)
  then have "replaceThing T c i (Some x) h = map_option (setParent None y)
      (updateItemWeight (- thing_weight T h y + thing_weight T h x) c (put zs x c h))"
    using assms(4) c(2) by (simp add: replaceThing_def Let_def assms(6) [symmetric] put [symmetric])
  also have "\<dots> = updateItemWeight (- thing_weight T h y + thing_weight T h x) c
      (setParent None y (put zs x c h))"
  proof (rule updateItemWeight_setParent [symmetric])
    show "rooted (put zs x c h) c" using assms(1) c(3,4) by (rule rooted_put)
    show "\<not> above (put zs x c h) c y" using above_put [of zs x c h c y] y_c(2) c(3,4) by auto
  qed (use y_c in simp_all)
  also have "setParent None y (put zs x c h) = replaced zs x y c h"
    using xy c(3) y_c(1) by (auto simp: replaced_def put_def take_out_def heap_updates fun_eq_iff)
  finally show ?thesis .
qed

lemma replaced_forest:
  assumes "forest h" "may_hold h c x" "detached h x" "y \<in> set (itemlist (h c))"
    and "distinct zs" "set zs = insert x (set (itemlist (h c)) - {y})"
  shows "forest (replaced zs x y c h)"
proof -
  let ?h0 = "take_out (remove1 y (itemlist (h c))) y c h"
  have c: "is_container h c" using assms(2) by (simp add: may_hold_def)
  have d: "distinct (itemlist (h c))" using forest_distinct assms(1) c .
  have "forest ?h0" using d by (intro take_out_forest [OF assms(1) c assms(4)]) simp_all
  moreover have "above ?h0 a b \<Longrightarrow> above h a b" for a b
    by (induction rule: above.induct) (auto simp: take_out_def intro: above.intros split: if_splits)
  then have "may_hold ?h0 c x" using assms(2) by (auto simp: may_hold_def take_out_def)
  moreover have "x \<noteq> y" using detached_not_in [OF assms(1) c assms(3)] assms(4) by auto
  then have "detached ?h0 x"
    using assms(3) by (auto simp: detached_def getParentContainer_def take_out_def split: option.splits if_splits)
  moreover have "set zs = insert x (set (itemlist (?h0 c)))" using assms(6) d by (simp add: take_out_def)
  ultimately show ?thesis unfolding replaced_def using assms(5) by (intro put_forest) simp_all
qed

lemma replaceThing_wf:
  assumes "wf_heap T h" "may_hold h c x" "detached h x"
  shows "\<exists>h'. replaceThing T c i (Some x) h = Some h' \<and> wf_heap T h'"
proof (cases "i < length (itemlist (h c))")
  case False
  then show ?thesis using assms by (simp add: replaceThing_def may_hold_def)
next
  case True
  define y where "y = itemlist (h c) ! i"
  define zs where "zs = (itemlist (h c))[i := x]"
  define d where "d = - thing_weight T h y + thing_weight T h x"
  let ?h = "replaced zs x y c h"
  have f: "forest h" and c: "is_container h c" using assms(1,2) by (simp_all add: wf_heap_def may_hold_def)
  have x: "x \<notin> set (itemlist (h c))" using detached_not_in [OF f c assms(3)] .
  have y: "y \<in> set (itemlist (h c))" using True by (simp add: y_def)
  have zs: "distinct zs" "set zs = insert x (set (itemlist (h c)) - {y})"
    using list_update_distinct [OF forest_distinct [OF f c] True x] by (simp_all add: zs_def y_def)
  have f': "forest ?h" by (rule replaced_forest [OF f assms(2,3) y zs])
  have off: "totalWeight (?h k) + (if k = c then d else 0) = contents_weight T ?h k" if "is_container ?h k" for k
  proof -
    have "is_container h k" using that by (simp add: replaced_def put_def take_out_def)
    moreover have "contents_weight T ?h k = contents_weight T (set_itemlist zs c h) k"
      by (simp add: replaced_def put_def take_out_def contents_weight_def)
    ultimately show ?thesis
      using replaced_weights [OF assms(1) c y x zs, of k]
      by (cases "k = c") (simp_all add: d_def replaced_def put_def take_out_def)
  qed
  have "is_container ?h c" using c by (simp add: replaced_def put_def take_out_def)
  from wf_after_update [OF f' this off] obtain h' where "updateItemWeight d c ?h = Some h'" "wf_heap T h'"
    by blast
  then show ?thesis
    using replaceThing_replaced [OF f assms(2,3) True y_def zs_def, of T] by (simp add: d_def)
qed

section \<open>Sequences of operations\<close>

datatype container_op =
    Op_add nat int nat | Op_internalAdd nat nat | Op_addBack nat nat
  | Op_update nat nat u16 u32 | Op_replace nat nat nat | Op_remove nat nat u32

fun container_exec :: "items \<Rightarrow> container_op \<Rightarrow> heap \<Rightarrow> heap option" where
  "container_exec T (Op_add c i x) h = addThing T c i (Some x) h"
| "container_exec T (Op_internalAdd c x) h = internalAddThing T c (Some x) h"
| "container_exec T (Op_addBack c x) h = addItemBack T c x h"
| "container_exec T (Op_update c x i n) h = updateThing T c x i n h"
| "container_exec T (Op_replace c i x) h = replaceThing T c i (Some x) h"
| "container_exec T (Op_remove c x n) h = removeThing T c x n h"

fun container_allowed :: "heap \<Rightarrow> container_op \<Rightarrow> bool" where
  "container_allowed h (Op_add c i x) = (may_hold h c x \<and> detached h x)"
| "container_allowed h (Op_internalAdd c x) = (may_hold h c x \<and> detached h x)"
| "container_allowed h (Op_addBack c x) = (may_hold h c x \<and> detached h x)"
| "container_allowed h (Op_update c x i n) = is_container h c"
| "container_allowed h (Op_replace c i x) = (may_hold h c x \<and> detached h x)"
| "container_allowed h (Op_remove c x n) = is_container h c"

inductive container_run :: "items \<Rightarrow> heap \<Rightarrow> heap \<Rightarrow> bool" for T where
  start: "container_run T h h"
| op: "container_run T h h1 \<Longrightarrow> container_allowed h1 x \<Longrightarrow> container_exec T x h1 = Some h2 \<Longrightarrow> container_run T h h2"

lemma container_exec_wf:
  assumes "wf_heap T h" "container_allowed h x"
  shows "\<exists>h'. container_exec T x h = Some h' \<and> wf_heap T h'"
proof (cases x)
  case (Op_add c i y)
  then show ?thesis using addThing_wf assms by simp
next
  case (Op_internalAdd c y)
  then show ?thesis using internalAddThing_wf [OF assms(1), of c y] assms(2) by auto
next
  case (Op_addBack c y)
  then show ?thesis using addItemBack_wf [OF assms(1), of c y] assms(2) by auto
next
  case (Op_update c y i n)
  then show ?thesis using updateThing_wf assms by simp
next
  case (Op_replace c i y)
  then show ?thesis using replaceThing_wf assms by simp
next
  case (Op_remove c y n)
  then show ?thesis using removeThing_wf assms by simp
qed

lemma container_run_wf: "container_run T h h' \<Longrightarrow> wf_heap T h \<Longrightarrow> wf_heap T h'"
  by (induction rule: container_run.induct) (auto dest: container_exec_wf)

section \<open>Properties\<close>

text \<open>
  Whatever is put into containers, taken out, replaced or changed, in any order, as long as
  nothing is put into itself or into what lies in it: the weight every container reports for
  its contents is exact (modulo 2^32), and no update of the weights along the parents fails
  to end. That \<open>queryAdd\<close> sees to the condition is shown in \<open>Container_Safety\<close>.
\<close>

theorem container_weights_exact:
  assumes "wf_heap T start" "container_run T start h"
  shows "{c. is_container h c \<and> totalWeight (h c) \<noteq> contents_weight T h c} = {}
    \<and> {c. above h c c} = {} \<and> {x. container_allowed h x \<and> container_exec T x h = None} = {}"
proof -
  have wf: "wf_heap T h" using assms container_run_wf by blast
  then have "\<not> above h c c" for c using not_above_self forest_rooted by (auto simp: wf_heap_def)
  moreover have "container_exec T x h \<noteq> None" if "container_allowed h x" for x
    using container_exec_wf [OF wf that] by auto
  ultimately show ?thesis using wf by (auto simp: wf_heap_def weights_ok_def)
qed

text \<open>A heap whose things all lie apart.\<close>

lemma wf_heap_apart:
  assumes "\<And>a. th_parent (h a) = None \<and> itemlist (h a) = [] \<and> totalWeight (h a) = 0"
  shows "wf_heap T h"
  using assms by (simp add: wf_heap_def forest_def weights_ok_def contents_weight_def rooted.top)

definition apart :: heap where
  "apart a = \<lparr>th_kind = (if a < 2 then K_Container else K_Item), th_parent = None,
     th_item = plain (of_nat a) [], itemlist = [], totalWeight = 0, maxSize = 20, m_maxItems = 100,
     c_unlocked = True, c_pagination = False, c_inbox = False, m_lootHighlightActive = True\<rparr>"

definition brick :: itemtype where
  "brick = \<lparr>ty_stackable = False, ty_fluidContainer = False, ty_splash = False, ty_movable = True,
     ty_pickupable = True, ty_corpse = False, ty_quiver = False, ty_ammo = False, ty_charges = 0,
     ty_stackSize = 1, ty_weight = 50, ty_decayTime = 0, ty_decayTo = -1, ty_stopTime = False\<rparr>"

lemma container_weights_exact_witness:
  "\<exists>h. container_run (\<lambda>i. brick) apart h \<and> itemlist (h 1) = [2] \<and> totalWeight (h 1) = contents_weight (\<lambda>i. brick) h 1"
proof -
  have wf: "wf_heap (\<lambda>i. brick) apart" by (rule wf_heap_apart) (simp add: apart_def)
  have hold: "may_hold apart 1 2" "detached apart 2"
    by (auto simp: may_hold_def detached_def getParentContainer_def is_container_def is_item_def apart_def
        elim: above.cases)
  from internalAddThing_wf [OF wf this] obtain h where
    h: "internalAddThing (\<lambda>i. brick) 1 (Some 2) apart = Some h" "same_shape (put (2 # itemlist (apart 1)) 2 1 apart) h"
    by blast
  have run: "container_run (\<lambda>i. brick) apart h"
    using container_run.op [OF container_run.start, of apart "Op_internalAdd 1 2"] hold h(1) by simp
  have "itemlist (h 1) = [2]" "is_container h 1"
    using is_container_same [OF h(2)] same_shape_fields(4) [OF h(2), of 1]
    by (simp_all add: put_def) (simp_all add: apart_def is_container_def)
  with run container_weights_exact [OF wf run] show ?thesis by blast
qed

end
