(* ===== verification/Container_Iterator.thy ===== *)
theory Container_Iterator
  imports Container_Ops
begin

text \<open>
  \<open>ContainerIterator\<close> (src/src/items/containers/container.cpp): a depth-first walk over a
  container and what lies inside it, with a stack of positions, a limit on the depth and a
  set of visited containers against cycles. It is shown to end on every heap with finitely
  many containers, cyclic or not, and to list a forest in preorder down to the limit.
\<close>

section \<open>The iterator\<close>

text \<open>A state of the stack: container, index, depth; the last state comes first.\<close>

record iter =
  states :: "(nat \<times> nat \<times> nat) list"
  visitedContainers :: "nat list"
  maxTraversalDepth :: nat
  m_maxDepthReached :: bool
  m_cycleDetected :: bool

definition iter_begin :: "nat \<Rightarrow> nat \<Rightarrow> iter" where
  "iter_begin maxDepth c =
     \<lparr>states = [(c, 0, 1)], visitedContainers = [c], maxTraversalDepth = maxDepth,
      m_maxDepthReached = False, m_cycleDetected = False\<rparr>"

fun pop_finished :: "heap \<Rightarrow> (nat \<times> nat \<times> nat) list \<Rightarrow> (nat \<times> nat \<times> nat) list" where
  "pop_finished h [] = []"
| "pop_finished h ((c, i, d) # ss) =
     (if i < length (itemlist (h c)) then (c, i, d) # ss else pop_finished h ss)"

definition hasNext :: "heap \<Rightarrow> iter \<Rightarrow> bool \<times> iter" where
  "hasNext h it = (let ss = pop_finished h (states it) in (ss \<noteq> [], it\<lparr>states := ss\<rparr>))"

text \<open>\<open>operator*\<close>.\<close>

definition iter_item :: "heap \<Rightarrow> iter \<Rightarrow> nat option" where
  "iter_item h it = (case states it of
      [] \<Rightarrow> None
    | (c, i, d) # ss \<Rightarrow> if i < length (itemlist (h c)) then Some (itemlist (h c) ! i) else None)"

definition advance :: "heap \<Rightarrow> iter \<Rightarrow> iter" where
  "advance h it = (case states it of
      [] \<Rightarrow> it
    | (c, i, d) # ss \<Rightarrow>
        if i \<ge> length (itemlist (h c)) then it\<lparr>states := ss\<rparr>
        else
          let currentItem = itemlist (h c) ! i;
              it' = it\<lparr>states := (c, i + 1, d) # ss\<rparr>
          in if is_container h currentItem \<and> itemlist (h currentItem) \<noteq> [] then
               (if d + 1 \<le> maxTraversalDepth it then
                  (if currentItem \<notin> set (visitedContainers it)
                   then it'\<lparr>states := (currentItem, 0, d + 1) # states it',
                            visitedContainers := currentItem # visitedContainers it\<rparr>
                   else it'\<lparr>m_cycleDetected := True\<rparr>)
                else it'\<lparr>m_maxDepthReached := True\<rparr>)
             else it')"

text \<open>The items a loop \<open>for (it = iterator(); it.hasNext(); it.advance())\<close> sees.\<close>

partial_function (option) iterate :: "heap \<Rightarrow> iter \<Rightarrow> nat option list option" where
  "iterate h it = (case hasNext h it of (found, it1) \<Rightarrow>
     if \<not> found then Some []
     else Option.bind (iterate h (advance h it1)) (\<lambda>xs. Some (iter_item h it1 # xs)))"

definition getItemHoldingCount :: "nat \<Rightarrow> heap \<Rightarrow> nat \<Rightarrow> u32 option" where
  "getItemHoldingCount maxDepth h c = map_option (\<lambda>xs. of_nat (length xs)) (iterate h (iter_begin maxDepth c))"

definition getContainerHoldingCount :: "nat \<Rightarrow> heap \<Rightarrow> nat \<Rightarrow> u32 option" where
  "getContainerHoldingCount maxDepth h c = map_option
     (\<lambda>xs. of_nat (length (filter (\<lambda>x. case x of None \<Rightarrow> False | Some i \<Rightarrow> is_container h i) xs)))
     (iterate h (iter_begin maxDepth c))"

definition isHoldingItem :: "nat \<Rightarrow> heap \<Rightarrow> nat \<Rightarrow> nat option \<Rightarrow> bool option" where
  "isHoldingItem maxDepth h c item = map_option
     (\<lambda>xs. list_ex (\<lambda>x. x \<noteq> None \<and> item \<noteq> None \<and> x = item) xs)
     (iterate h (iter_begin maxDepth c))"

definition isHoldingItemWithId :: "nat \<Rightarrow> heap \<Rightarrow> nat \<Rightarrow> u16 \<Rightarrow> bool option" where
  "isHoldingItemWithId maxDepth h c i = map_option
     (\<lambda>xs. list_ex (\<lambda>x. case x of None \<Rightarrow> False | Some a \<Rightarrow> it_id (th_item (h a)) = i) xs)
     (iterate h (iter_begin maxDepth c))"

section \<open>The walk as a recursion on the depth\<close>

text \<open>\<open>below h d c\<close>: the items of \<open>c\<close>, each followed by what is inside it, down to \<open>d\<close> levels.\<close>

fun below :: "heap \<Rightarrow> nat \<Rightarrow> nat \<Rightarrow> nat list" where
  "below h 0 c = []"
| "below h (Suc d) c =
     concat (map (\<lambda>i. i # (if is_container h i then below h d i else [])) (itemlist (h c)))"

definition inside :: "heap \<Rightarrow> nat \<Rightarrow> nat \<Rightarrow> nat list" where
  "inside h d i = (if is_container h i then below h d i else [])"

lemma below_Suc: "below h (Suc d) c = concat (map (\<lambda>i. i # inside h d i) (itemlist (h c)))"
  by (simp add: inside_def)

declare below.simps(2) [simp del]

text \<open>What is left to list from a position of the stack.\<close>

definition left_of :: "heap \<Rightarrow> nat \<Rightarrow> nat \<times> nat \<times> nat \<Rightarrow> nat list" where
  "left_of h m = (\<lambda>(c, i, d). concat (map (\<lambda>j. j # inside h (m - d) j) (drop i (itemlist (h c)))))"

definition left_over :: "heap \<Rightarrow> nat \<Rightarrow> (nat \<times> nat \<times> nat) list \<Rightarrow> nat list" where
  "left_over h m ss = concat (map (left_of h m) ss)"

lemma left_over_pop: "left_over h m (pop_finished h ss) = left_over h m ss"
  by (induction h ss rule: pop_finished.induct) (auto simp: left_over_def left_of_def)

lemma pop_finished_cases:
  "pop_finished h ss = [] \<or> (\<exists>c i d ss'. pop_finished h ss = (c, i, d) # ss' \<and> i < length (itemlist (h c)))"
  by (induction h ss rule: pop_finished.induct) auto

lemma left_of_step:
  assumes "i < length (itemlist (h c))"
  shows "left_of h m (c, i, d) = itemlist (h c) ! i # inside h (m - d) (itemlist (h c) ! i) @ left_of h m (c, i + 1, d)"
  using assms by (simp add: left_of_def Cons_nth_drop_Suc [symmetric])

lemma inside_start:
  assumes "is_container h x" "d + 1 \<le> m"
  shows "inside h (m - d) x = left_of h m (x, 0, d + 1)"
proof -
  have "m - d = Suc (m - Suc d)" using assms(2) by simp
  with assms(1) show ?thesis by (simp add: left_of_def inside_def below_Suc del: diff_Suc_Suc)
qed

lemma inside_Nil:
  "\<not> is_container h x \<or> itemlist (h x) = [] \<Longrightarrow> inside h k x = []"
  by (cases k) (auto simp: inside_def below_Suc)

lemma iterate_lists:
  assumes "distinct (left_over h (maxTraversalDepth it) (states it))"
    and "set (left_over h (maxTraversalDepth it) (states it)) \<inter> set (visitedContainers it) = {}"
  shows "iterate h it = Some (map Some (left_over h (maxTraversalDepth it) (states it)))"
  using assms
proof (induction "length (left_over h (maxTraversalDepth it) (states it))" arbitrary: it rule: less_induct)
  case less
  let ?m = "maxTraversalDepth it"
  show ?case
  proof (cases "pop_finished h (states it) = []")
    case True
    then have "left_over h ?m (states it) = []"
      using left_over_pop [of h ?m "states it"] by (simp add: left_over_def)
    with True show ?thesis by (subst iterate.simps) (simp add: hasNext_def)
  next
    case False
    then obtain c i d ss where pop: "pop_finished h (states it) = (c, i, d) # ss" "i < length (itemlist (h c))"
      using pop_finished_cases by blast
    let ?x = "itemlist (h c) ! i" and ?it1 = "it\<lparr>states := (c, i, d) # ss\<rparr>"
    have R: "left_over h ?m (states it) = ?x # inside h (?m - d) ?x @ left_of h ?m (c, i + 1, d) @ left_over h ?m ss"
      using left_over_pop [of h ?m "states it"] left_of_step [of i h c ?m d] pop by (simp add: left_over_def)
    have item: "iter_item h ?it1 = Some ?x" using pop(2) by (simp add: iter_item_def)
    have R': "left_over h ?m (states (advance h ?it1)) = inside h (?m - d) ?x @ left_of h ?m (c, i + 1, d) @ left_over h ?m ss"
    proof -
      have "?x \<notin> set (visitedContainers it)" using less.prems(2) R by auto
      then show ?thesis
        using pop(2) inside_start [of h ?x d ?m] inside_Nil [of h ?x]
        by (auto simp: advance_def Let_def left_over_def inside_def)
    qed
    have max: "maxTraversalDepth (advance h ?it1) = ?m" by (auto simp: advance_def Let_def split: list.split)
    have vis: "set (visitedContainers (advance h ?it1)) \<subseteq> insert ?x (set (visitedContainers it))"
      using pop(2) by (auto simp: advance_def Let_def)
    have "iterate h (advance h ?it1)
        = Some (map Some (left_over h (maxTraversalDepth (advance h ?it1)) (states (advance h ?it1))))"
      using less.prems vis R R' max by (intro less.hyps) auto
    then show ?thesis
      using pop R R' max item by (subst iterate.simps) (simp add: hasNext_def)
  qed
qed

section \<open>Forests\<close>

lemma below_above:
  assumes "forest h" "is_container h c" "x \<in> set (below h d c)"
  shows "above h x c"
  using assms(2,3)
proof (induction d arbitrary: c)
  case 0
  then show ?case by simp
next
  case (Suc d)
  from Suc.prems(2) obtain i where i: "i \<in> set (itemlist (h c))" "x = i \<or> x \<in> set (inside h d i)"
    by (auto simp: below_Suc)
  have par: "th_parent (h i) = Some c" using forest_contents [OF assms(1) Suc.prems(1)] i(1) by simp
  from i(2) show ?case
  proof
    assume "x = i"
    then show ?thesis using par by (auto intro: above.parent)
  next
    assume "x \<in> set (inside h d i)"
    then have "above h x i" using Suc.IH [of i] by (auto simp: inside_def split: if_splits)
    then show ?thesis using par by (rule above_extend)
  qed
qed

lemma above_linear:
  assumes "above h x a" "above h x b"
  shows "a = b \<or> above h a b \<or> above h b a"
  using assms
proof (induction rule: above.induct)
  case (parent x a)
  then show ?case by (auto elim: above.cases)
next
  case (further x p q)
  from further.prems show ?case
    by (cases rule: above.cases) (use further in \<open>auto\<close>)
qed

lemma siblings_apart:
  assumes "forest h" "th_parent (h i) = Some c" "th_parent (h j) = Some c" "i \<noteq> j"
  shows "\<not> (above h x i \<and> above h x j)" "\<not> above h i j"
proof -
  have no: "\<not> above h i j" if "th_parent (h i) = Some c" "th_parent (h j) = Some c" for i j
  proof
    assume "above h i j"
    then have "above h c c"
    proof (cases rule: above.cases)
      case parent
      then show ?thesis using that by (auto intro: above.parent)
    next
      case (further p)
      then show ?thesis using that above_extend [of h c j c] by simp
    qed
    then show False using not_above_self forest_rooted assms(1) by blast
  qed
  show "\<not> above h i j" using no assms by blast
  show "\<not> (above h x i \<and> above h x j)" using above_linear [of h x i j] no assms by blast
qed

lemma distinct_concat_map:
  assumes "distinct xs" "\<And>i. i \<in> set xs \<Longrightarrow> distinct (f i)"
    and "\<And>i j. i \<in> set xs \<Longrightarrow> j \<in> set xs \<Longrightarrow> i \<noteq> j \<Longrightarrow> set (f i) \<inter> set (f j) = {}"
  shows "distinct (concat (map f xs))"
  using assms by (induction xs) fastforce+

lemma distinct_below:
  assumes "forest h" "is_container h c"
  shows "distinct (below h d c)"
  using assms(2)
proof (induction d arbitrary: c)
  case 0
  then show ?case by simp
next
  case (Suc d)
  have par: "th_parent (h i) = Some c" if "i \<in> set (itemlist (h c))" for i
    using forest_contents [OF assms(1) Suc.prems] that by simp
  have up: "above h x i" if "x \<in> set (inside h d i)" for x i
    using that below_above [OF assms(1)] by (auto simp: inside_def split: if_splits)
  have "distinct (i # inside h d i)" if "i \<in> set (itemlist (h c))" for i
    using Suc.IH up [of i i] not_above_self forest_rooted assms(1) by (auto simp: inside_def)
  moreover have "set (i # inside h d i) \<inter> set (j # inside h d j) = {}"
    if "i \<in> set (itemlist (h c))" "j \<in> set (itemlist (h c))" "i \<noteq> j" for i j
    using siblings_apart [OF assms(1) par par, of i j] siblings_apart [OF assms(1) par par, of j i] that up by fastforce
  ultimately show ?case
    unfolding below_Suc by (intro distinct_concat_map forest_distinct [OF assms(1) Suc.prems])
qed

lemma iterate_forest:
  assumes "forest h" "is_container h c"
  shows "iterate h (iter_begin maxDepth c) = Some (map Some (below h (Suc (maxDepth - 1)) c))"
proof -
  let ?it = "iter_begin maxDepth c"
  have eq: "left_over h (maxTraversalDepth ?it) (states ?it) = below h (Suc (maxDepth - 1)) c"
    by (simp add: iter_begin_def left_over_def left_of_def below_Suc)
  have "c \<notin> set (below h (Suc (maxDepth - 1)) c)"
    using below_above [OF assms] not_above_self forest_rooted assms(1) by blast
  then have "iterate h ?it = Some (map Some (left_over h (maxTraversalDepth ?it) (states ?it)))"
    using distinct_below [OF assms] by (intro iterate_lists) (simp_all only: eq, auto simp: iter_begin_def)
  then show ?thesis by (simp only: eq)
qed

section \<open>The walk ends\<close>

definition positions_left :: "heap \<Rightarrow> (nat \<times> nat \<times> nat) list \<Rightarrow> nat" where
  "positions_left h ss = sum_list (map (\<lambda>(c, i, d). length (itemlist (h c)) - i) ss)"

lemma positions_left_pop: "positions_left h (pop_finished h ss) \<le> positions_left h ss"
  by (induction h ss rule: pop_finished.induct) (auto simp: positions_left_def)

text \<open>
  Every round either enters a container not visited before or moves on in one of those it
  has entered, whatever shape the heap has.
\<close>

lemma iterate_ends:
  assumes "finite {a. is_container h a}"
  shows "iterate h it \<noteq> None"
proof (induction it rule: wf_induct_rule [OF wf_measures [of
      "[\<lambda>it. card ({a. is_container h a} - set (visitedContainers it)), \<lambda>it. positions_left h (states it)]"]])
  case (1 it)
  show ?case
  proof (cases "pop_finished h (states it) = []")
    case True
    then show ?thesis by (subst iterate.simps) (simp add: hasNext_def)
  next
    case False
    then obtain c i d ss where pop: "pop_finished h (states it) = (c, i, d) # ss" "i < length (itemlist (h c))"
      using pop_finished_cases by blast
    let ?x = "itemlist (h c) ! i" and ?it1 = "it\<lparr>states := (c, i, d) # ss\<rparr>"
    let ?C = "{a. is_container h a}"
    have less: "positions_left h ((c, i + 1, d) # ss) < positions_left h (states it)"
      using positions_left_pop [of h "states it"] pop by (simp add: positions_left_def)
    have "(advance h ?it1, it) \<in> measures
        [\<lambda>it. card (?C - set (visitedContainers it)), \<lambda>it. positions_left h (states it)]"
    proof (cases "is_container h ?x \<and> itemlist (h ?x) \<noteq> [] \<and> d + 1 \<le> maxTraversalDepth it
        \<and> ?x \<notin> set (visitedContainers it)")
      case True
      then have "?C - set (visitedContainers (advance h ?it1)) \<subset> ?C - set (visitedContainers it)"
        using pop(2) by (auto simp: advance_def Let_def)
      then have "card (?C - set (visitedContainers (advance h ?it1))) < card (?C - set (visitedContainers it))"
        using assms by (intro psubset_card_mono) auto
      then show ?thesis by simp
    next
      case False
      then have "visitedContainers (advance h ?it1) = visitedContainers it"
        "states (advance h ?it1) = (c, i + 1, d) # ss"
        using pop(2) by (auto simp: advance_def Let_def)
      with less show ?thesis by simp
    qed
    from 1 [OF this] show ?thesis using pop by (subst iterate.simps) (auto simp: hasNext_def)
  qed
qed

section \<open>Properties\<close>

text \<open>
  The iterator ends on every heap with finitely many containers, even if they contain
  each other, so the counts and searches built on it return.
\<close>

theorem container_walk_ends:
  assumes "finite {a. is_container h a}"
  shows "iterate h (iter_begin maxDepth c) \<noteq> None \<and> getItemHoldingCount maxDepth h c \<noteq> None
    \<and> getContainerHoldingCount maxDepth h c \<noteq> None \<and> isHoldingItem maxDepth h c item \<noteq> None
    \<and> isHoldingItemWithId maxDepth h c i \<noteq> None"
  using iterate_ends [OF assms, of "iter_begin maxDepth c"]
  by (simp add: getItemHoldingCount_def getContainerHoldingCount_def isHoldingItem_def isHoldingItemWithId_def)

definition two_cycle :: heap where
  "two_cycle a = (apart a)\<lparr>itemlist := (if a = 0 then [1] else if a = 1 then [0] else []),
     th_parent := (if a = 0 then Some 1 else if a = 1 then Some 0 else None)\<rparr>"

lemma container_walk_ends_witness: "isHoldingItem 10 two_cycle 0 (Some 1) \<noteq> None"
proof -
  have "{a. is_container two_cycle a} = {0, 1}" by (auto simp: is_container_def two_cycle_def apart_def)
  then show ?thesis using container_walk_ends [of two_cycle 10 0 "Some 1"] by simp
qed

text \<open>
  C33. In a forest of containers the iterator lists a container in preorder, every item once,
  down to the depth limit, and holding an item is being found in that list.
\<close>

theorem container_walk_is_preorder:
  assumes "forest h" "is_container h c"
  shows "iterate h (iter_begin maxDepth c) = Some (map Some (below h (Suc (maxDepth - 1)) c))
    \<and> distinct (below h (Suc (maxDepth - 1)) c)
    \<and> getItemHoldingCount maxDepth h c = Some (of_nat (length (below h (Suc (maxDepth - 1)) c)))
    \<and> isHoldingItem maxDepth h c (Some x) = Some (x \<in> set (below h (Suc (maxDepth - 1)) c))"
  using iterate_forest [OF assms] distinct_below [OF assms]
  by (auto simp: getItemHoldingCount_def isHoldingItem_def list_ex_iff)

lemma container_walk_is_preorder_witness:
  "iterate apart (iter_begin 5 1) = Some [] \<and> isHoldingItem 5 apart 1 (Some 7) = Some False"
proof -
  have "forest apart" using wf_heap_apart [of apart] by (simp add: wf_heap_def apart_def)
  moreover have "is_container apart 1" by (simp add: is_container_def apart_def)
  moreover have "below apart (Suc (5 - 1)) 1 = []" unfolding below_Suc by (simp add: apart_def)
  ultimately show ?thesis using container_walk_is_preorder [of apart 1 5 7] by simp
qed

end
