(* ===== verification/Container_Query.thy ===== *)
theory Container_Query
  imports Container_Iterator Return_Value
begin

text \<open>
  What a container answers before something is done to it
  (src/src/items/containers/container.cpp: \<open>queryAdd\<close>, \<open>queryMaxCount\<close>, \<open>queryRemove\<close>,
  \<open>queryDestination\<close> and the walks over parents they use; src/src/items/item.cpp:
  \<open>getTopParent\<close>). Containers are plain containers: the overrides of depot chests, inboxes
  and rewards are not modelled. The answer of a creature or a tile is an argument. A result
  \<open>None\<close> would be a loop over parents that does not end.
\<close>

definition FLAG_NOLIMIT :: u32 where "FLAG_NOLIMIT = 1"
definition FLAG_CHILDISOWNER :: u32 where "FLAG_CHILDISOWNER = 8"
definition FLAG_IGNORENOTMOVABLE :: u32 where "FLAG_IGNORENOTMOVABLE = 64"
definition FLAG_IGNOREAUTOSTACK :: u32 where "FLAG_IGNOREAUTOSTACK = 128"

definition hasBitSet :: "u32 \<Rightarrow> u32 \<Rightarrow> bool" where
  "hasBitSet flag flags \<longleftrightarrow> flags AND flag \<noteq> 0"

definition INDEX_WHEREEVER :: int where "INDEX_WHEREEVER = -1"

text \<open>
  The surroundings: item types, configured limits, whether a player owns an item with a
  given owner, and what cylinders that are not plain containers answer.
\<close>

record surroundings =
  sr_items :: items
  sr_maxDepth :: nat
  sr_maxContainer :: u32
  sr_isOwner :: "u32 \<Rightarrow> nat \<Rightarrow> bool"
  sr_queryAdd :: "heap \<Rightarrow> nat \<Rightarrow> nat \<Rightarrow> u32 \<Rightarrow> u32 \<Rightarrow> ReturnValue"
  sr_houseRemove :: "nat \<Rightarrow> nat \<Rightarrow> u32 \<Rightarrow> u32 \<Rightarrow> ReturnValue"

section \<open>Walks over the parents\<close>

definition is_cylinder :: "heap \<Rightarrow> nat \<Rightarrow> bool" where
  "is_cylinder h a \<longleftrightarrow> th_kind (h a) \<noteq> K_Item"

partial_function (option) top_parent_loop :: "heap \<Rightarrow> nat option \<Rightarrow> nat \<Rightarrow> nat option option" where
  "top_parent_loop h prevaux aux = (case th_parent (h aux) of
      None \<Rightarrow> Some (if prevaux \<noteq> None then prevaux else Some aux)
    | Some p \<Rightarrow> top_parent_loop h (Some aux) p)"

definition getTopParent :: "heap \<Rightarrow> nat \<Rightarrow> nat option option" where
  "getTopParent h a =
     (let prevaux = (if is_cylinder h a then Some a else None)
      in case th_parent (h a) of
          None \<Rightarrow> Some prevaux
        | Some aux \<Rightarrow> top_parent_loop h prevaux aux)"

partial_function (option) top_container_loop :: "heap \<Rightarrow> nat \<Rightarrow> nat \<Rightarrow> nat option" where
  "top_container_loop h prevThing thing = (case th_parent (h thing) of
      None \<Rightarrow> Some prevThing
    | Some p \<Rightarrow> if is_container h p then top_container_loop h thing p else Some prevThing)"

text \<open>The result is \<open>prevThing->getContainer()\<close>, null when it is no container.\<close>

definition getTopParentContainer :: "heap \<Rightarrow> nat \<Rightarrow> nat option option" where
  "getTopParentContainer h c = (case th_parent (h c) of
      None \<Rightarrow> Some (if is_container h c then Some c else None)
    | Some thing \<Rightarrow> map_option (\<lambda>prev. if is_container h prev then Some prev else None)
        (top_container_loop h c thing))"

partial_function (option) inside_id_loop :: "heap \<Rightarrow> u16 \<Rightarrow> nat option \<Rightarrow> bool option" where
  "inside_id_loop h i nextParent = (case nextParent of
      None \<Rightarrow> Some False
    | Some p \<Rightarrow> if \<not> is_container h p then Some False
        else if it_id (th_item (h p)) = i then Some True
        else inside_id_loop h i (th_parent (h p)))"

definition isInsideContainerWithId :: "heap \<Rightarrow> nat \<Rightarrow> u16 \<Rightarrow> bool option" where
  "isInsideContainerWithId h c i = inside_id_loop h i (th_parent (h c))"

text \<open>
  The virtual \<open>getOwnerId\<close>: a container answers with its own owner, or else with the first
  owner among its items, which may be containers again. The recursion over nested
  containers is written with the list of things still to be asked.
\<close>

partial_function (option) first_owner :: "heap \<Rightarrow> nat list \<Rightarrow> u32 option" where
  "first_owner h xs = (case xs of
      [] \<Rightarrow> Some 0
    | x # rest \<Rightarrow>
        if getOwnerId (th_item (h x)) > 0 then Some (getOwnerId (th_item (h x)))
        else if is_container h x then first_owner h (itemlist (h x) @ rest)
        else first_owner h rest)"

definition thing_owner :: "heap \<Rightarrow> nat \<Rightarrow> u32 option" where
  "thing_owner h a = first_owner h [a]"

text \<open>
  Free slots of a container and the containers in it: \<open>max<uint16_t>(0, x)\<close> first makes a
  \<open>uint16_t\<close> of \<open>x\<close>, so it never cuts anything off. The recursion is written as above.
\<close>

definition own_free_slots :: "heap \<Rightarrow> nat \<Rightarrow> u16" where
  "own_free_slots h c = max 0 (ucast (maxSize (h c) - of_nat (length (itemlist (h c)))))"

partial_function (option) sum_free_slots :: "heap \<Rightarrow> nat list \<Rightarrow> u16 \<Rightarrow> u16 option" where
  "sum_free_slots h xs n = (case xs of
      [] \<Rightarrow> Some n
    | x # rest \<Rightarrow>
        if is_container h x then sum_free_slots h (itemlist (h x) @ rest) (n + own_free_slots h x)
        else sum_free_slots h rest n)"

definition getFreeSlots :: "heap \<Rightarrow> nat \<Rightarrow> u16 option" where
  "getFreeSlots h c = sum_free_slots h (itemlist (h c)) (own_free_slots h c)"

section \<open>\<open>queryAdd\<close>\<close>

text \<open>The loop over the cylinders around the container.\<close>

definition around_stops :: "heap \<Rightarrow> bool \<Rightarrow> nat \<Rightarrow> nat \<Rightarrow> ReturnValue option" where
  "around_stops h noLimit added cy =
     (if cy = added then Some RETURNVALUE_THISISIMPOSSIBLE
      else if \<not> noLimit \<and> is_container h cy \<and> c_inbox (h cy) then Some RETURNVALUE_CONTAINERNOTENOUGHROOM
      else if th_parent (h cy) = Some cy then Some RETURNVALUE_NOTPOSSIBLE
      else None)"

partial_function (option) around_loop ::
    "heap \<Rightarrow> (nat \<Rightarrow> ReturnValue option) \<Rightarrow> nat option \<Rightarrow> ReturnValue option" where
  "around_loop h stops cylinder = (case cylinder of
      None \<Rightarrow> Some RETURNVALUE_NOERROR
    | Some cy \<Rightarrow> (case stops cy of
        Some r \<Rightarrow> Some r
      | None \<Rightarrow> around_loop h stops (th_parent (h cy))))"

definition getPlayer :: "heap \<Rightarrow> nat option \<Rightarrow> nat option" where
  "getPlayer h a = (case a of None \<Rightarrow> None | Some p \<Rightarrow> if th_kind (h p) = K_Creature True then Some p else None)"

text \<open>The test of the owner; a null top parent would be dereferenced, hence \<open>None\<close>.\<close>

definition owner_refuses :: "surroundings \<Rightarrow> heap \<Rightarrow> nat \<Rightarrow> nat \<Rightarrow> bool option" where
  "owner_refuses sr h c item = (case thing_owner h item of
      None \<Rightarrow> None
    | Some owner \<Rightarrow>
        if owner = 0 then Some False
        else (case getTopParent h c of
            Some (Some topmost) \<Rightarrow>
              (case getPlayer h (Some topmost) of
                 Some player \<Rightarrow>
                   if \<not> sr_isOwner sr owner player then Some True
                   else map_option (\<lambda>own. own \<noteq> 0 \<and> own \<noteq> owner) (thing_owner h c)
               | None \<Rightarrow> map_option (\<lambda>own. own \<noteq> 0 \<and> own \<noteq> owner) (thing_owner h c))
          | _ \<Rightarrow> None))"

text \<open>The limits on the containers and items held in all.\<close>

definition limits_refuse :: "surroundings \<Rightarrow> heap \<Rightarrow> nat \<Rightarrow> nat \<Rightarrow> bool option" where
  "limits_refuse sr h c item = (case getTopParentContainer h c of
      None \<Rightarrow> None
    | Some None \<Rightarrow> Some False
    | Some (Some topmost) \<Rightarrow>
        if is_container h item then
          (case (getContainerHoldingCount (sr_maxDepth sr) h item, getContainerHoldingCount (sr_maxDepth sr) h topmost,
                 getItemHoldingCount (sr_maxDepth sr) h item, getItemHoldingCount (sr_maxDepth sr) h topmost) of
             (Some addContainers, Some containers, Some addItems, Some items) \<Rightarrow>
               Some (addContainers + 1 + containers > sr_maxContainer sr
                     \<or> addItems + 1 + items > m_maxItems (h c))
           | _ \<Rightarrow> None)
        else map_option (\<lambda>items. items + 1 > m_maxItems (h c)) (getItemHoldingCount (sr_maxDepth sr) h topmost))"

definition queryAdd :: "surroundings \<Rightarrow> heap \<Rightarrow> nat \<Rightarrow> int \<Rightarrow> nat \<Rightarrow> u32 \<Rightarrow> u32 \<Rightarrow> ReturnValue option" where
  "queryAdd sr h c addIndex item addCount flags =
     (if hasBitSet FLAG_CHILDISOWNER flags then Some RETURNVALUE_NOERROR
      else if \<not> c_unlocked (h c) then Some RETURNVALUE_NOTPOSSIBLE
      else if \<not> is_item h item then Some RETURNVALUE_NOTPOSSIBLE
      else if \<not> ty_pickupable (sr_items sr (it_id (th_item (h item)))) then Some RETURNVALUE_CANNOTPICKUP
      else if item = c then Some RETURNVALUE_THISISIMPOSSIBLE
      else (case owner_refuses sr h c item of
          None \<Rightarrow> None
        | Some True \<Rightarrow> Some RETURNVALUE_ITEMISNOTYOURS
        | Some False \<Rightarrow>
          (let noLimit = hasBitSet FLAG_NOLIMIT flags
           in case around_loop h (around_stops h noLimit item) (th_parent (h c)) of
              None \<Rightarrow> None
            | Some r \<Rightarrow>
                if r \<noteq> RETURNVALUE_NOERROR then Some r
                else if \<not> noLimit \<and> addIndex = INDEX_WHEREEVER
                    \<and> length (itemlist (h c)) \<ge> unat (maxSize (h c)) \<and> \<not> c_pagination (h c)
                then Some RETURNVALUE_CONTAINERNOTENOUGHROOM
                else (case limits_refuse sr h c item of
                    None \<Rightarrow> None
                  | Some True \<Rightarrow> Some RETURNVALUE_CONTAINERISFULL
                  | Some False \<Rightarrow>
                      if ty_quiver (sr_items sr (it_id (th_item (h c))))
                         \<and> \<not> ty_ammo (sr_items sr (it_id (th_item (h item))))
                      then Some RETURNVALUE_ONLYAMMOINQUIVER
                      else (case getTopParent h c of
                          Some (Some topmost) \<Rightarrow>
                            if topmost = c then Some RETURNVALUE_NOERROR
                            else if is_container h topmost then Some RETURNVALUE_NOERROR
                            else Some (sr_queryAdd sr h topmost item addCount (flags OR FLAG_CHILDISOWNER))
                        | _ \<Rightarrow> None)))))"

section \<open>\<open>queryMaxCount\<close>, \<open>queryRemove\<close>, \<open>queryDestination\<close>\<close>

definition same_stack :: "heap \<Rightarrow> nat \<Rightarrow> nat \<Rightarrow> bool option" where
  "same_stack h a b = (case (thing_owner h a, thing_owner h b) of
      (Some oa, Some ob) \<Rightarrow> Some (equals_owned oa ob (th_item (h a)) (th_item (h b)))
    | _ \<Rightarrow> None)"

definition stack_room :: "surroundings \<Rightarrow> heap \<Rightarrow> nat \<Rightarrow> u8" where
  "stack_room sr h a = getStackSize (sr_items sr) (th_item (h a)) - it_count (th_item (h a))"

definition stack_not_full :: "surroundings \<Rightarrow> heap \<Rightarrow> nat \<Rightarrow> bool" where
  "stack_not_full sr h a \<longleftrightarrow> it_count (th_item (h a)) < getStackSize (sr_items sr) (th_item (h a))"

text \<open>The loop over the items; \<open>slotIndex\<close> counts only the stacks it could join.\<close>

fun stack_slots :: "surroundings \<Rightarrow> heap \<Rightarrow> nat \<Rightarrow> nat \<Rightarrow> u32 \<Rightarrow> nat list \<Rightarrow> nat \<Rightarrow> u32 \<Rightarrow> u32 option" where
  "stack_slots sr h c item flags [] slotIndex n = Some n"
| "stack_slots sr h c item flags (x # xs) slotIndex n =
     (case (if x \<noteq> item then same_stack h x item else Some False) of
        None \<Rightarrow> None
      | Some same \<Rightarrow>
          if same \<and> stack_not_full sr h x then
            let remainder = ucast (stack_room sr h x) :: u32
            in (case queryAdd sr h c (int slotIndex) item remainder flags of
                 None \<Rightarrow> None
               | Some r \<Rightarrow> stack_slots sr h c item flags xs (slotIndex + 1)
                   (if r = RETURNVALUE_NOERROR then n + remainder else n))
          else stack_slots sr h c item flags xs slotIndex n)"

definition free_slots :: "heap \<Rightarrow> nat \<Rightarrow> u32" where
  "free_slots h c = max0 (maxSize (h c) - of_nat (length (itemlist (h c))))"

definition queryMaxCount ::
    "surroundings \<Rightarrow> heap \<Rightarrow> nat \<Rightarrow> int \<Rightarrow> nat \<Rightarrow> u32 \<Rightarrow> u32 \<Rightarrow> (ReturnValue \<times> u32) option" where
  "queryMaxCount sr h c index item cnt flags =
     (if \<not> is_item h item then Some (RETURNVALUE_NOTPOSSIBLE, 0)
      else if hasBitSet FLAG_NOLIMIT flags \<or> c_pagination (h c) then Some (RETURNVALUE_NOERROR, max 1 cnt)
      else
        let freeSlots = free_slots h c; it = th_item (h item)
        in if ty_stackable (sr_items sr (it_id it)) then
             (case (if index = INDEX_WHEREEVER then stack_slots sr h c item flags (itemlist (h c)) 0 0
                    else if index < 0 then Some 0
                    else (case getItemByIndex h c (nat index) of
                        None \<Rightarrow> Some 0
                      | Some destItem \<Rightarrow> map_option
                          (\<lambda>same. if same \<and> stack_not_full sr h destItem
                                  then ucast (stack_room sr h destItem) else 0)
                          (same_stack h item destItem))) of
                None \<Rightarrow> None
              | Some n \<Rightarrow>
                  let maxQueryCount = freeSlots * ucast (getStackSize (sr_items sr) it) + n
                  in Some (if maxQueryCount < cnt then RETURNVALUE_CONTAINERNOTENOUGHROOM
                           else RETURNVALUE_NOERROR, maxQueryCount))
           else Some (if freeSlots = 0 then RETURNVALUE_CONTAINERNOTENOUGHROOM else RETURNVALUE_NOERROR, freeSlots))"

definition queryRemove :: "surroundings \<Rightarrow> heap \<Rightarrow> nat \<Rightarrow> nat \<Rightarrow> u32 \<Rightarrow> u32 \<Rightarrow> ReturnValue option" where
  "queryRemove sr h c item cnt flags =
     (let it = th_item (h item)
      in if getThingIndex h c item = -1 then Some RETURNVALUE_NOTPOSSIBLE
         else if \<not> is_item h item then Some RETURNVALUE_NOTPOSSIBLE
         else if cnt = 0 \<or> (ty_stackable (sr_items sr (it_id it)) \<and> cnt > ucast (it_count it))
           then Some RETURNVALUE_NOTPOSSIBLE
         else if \<not> ty_movable (sr_items sr (it_id it)) \<and> \<not> hasBitSet FLAG_IGNORENOTMOVABLE flags
           then Some RETURNVALUE_NOTMOVABLE
         else (case getTopParent h c of
             None \<Rightarrow> None
           | Some (Some topmost) \<Rightarrow>
               if th_kind (h topmost) = K_Tile True then Some (sr_houseRemove sr topmost item cnt flags)
               else Some RETURNVALUE_NOERROR
           | Some None \<Rightarrow> Some RETURNVALUE_NOERROR))"

text \<open>The first stack of the list the item could join, with its index.\<close>

fun find_stack :: "surroundings \<Rightarrow> heap \<Rightarrow> nat \<Rightarrow> nat list \<Rightarrow> nat \<Rightarrow> (nat \<times> nat) option option" where
  "find_stack sr h item [] n = Some None"
| "find_stack sr h item (x # xs) n =
     (case (if x \<noteq> item then same_stack h x item else Some False) of
        None \<Rightarrow> None
      | Some same \<Rightarrow> if same \<and> stack_not_full sr h x then Some (Some (x, n))
          else find_stack sr h item xs (n + 1))"

definition auto_stack ::
    "surroundings \<Rightarrow> heap \<Rightarrow> nat \<Rightarrow> int \<Rightarrow> nat \<Rightarrow> nat option \<Rightarrow> u32 \<Rightarrow> (nat \<times> int \<times> nat option) option" where
  "auto_stack sr h c index item destItem flags =
     (if \<not> hasBitSet FLAG_IGNOREAUTOSTACK flags \<and> ty_stackable (sr_items sr (it_id (th_item (h item))))
         \<and> th_parent (h item) \<noteq> Some c
      then (case (case destItem of
                None \<Rightarrow> Some False
              | Some d \<Rightarrow> map_option (\<lambda>same. same \<and> stack_not_full sr h d) (same_stack h d item)) of
            None \<Rightarrow> None
          | Some True \<Rightarrow> Some (c, index, destItem)
          | Some False \<Rightarrow> (case find_stack sr h item (itemlist (h c)) 0 of
              None \<Rightarrow> None
            | Some (Some (x, n)) \<Rightarrow> Some (c, int n, Some x)
            | Some None \<Rightarrow> Some (c, index, destItem)))
      else Some (c, index, destItem))"

text \<open>The result: the cylinder, the new index, the new \<open>destItem\<close>.\<close>

definition queryDestination ::
    "surroundings \<Rightarrow> heap \<Rightarrow> nat \<Rightarrow> int \<Rightarrow> nat \<Rightarrow> nat option \<Rightarrow> u32 \<Rightarrow> (nat \<times> int \<times> nat option) option" where
  "queryDestination sr h c index0 item destItem0 flags =
     (if \<not> c_unlocked (h c) then Some (c, index0, None)
      else if index0 = 254 then
        Some (case getParentContainer h c of
            Some p \<Rightarrow> (p, INDEX_WHEREEVER, None)
          | None \<Rightarrow> (c, INDEX_WHEREEVER, None))
      else
        let (index, destItem) =
          (if index0 = 255 then (INDEX_WHEREEVER, None)
           else if index0 \<ge> sint (maxSize (h c)) \<and> \<not> c_pagination (h c) then (INDEX_WHEREEVER, None)
           else (index0, destItem0))
        in if \<not> is_item h item then Some (c, index, destItem)
           else
             let destItem1 = (if index \<noteq> INDEX_WHEREEVER \<and> 0 \<le> index \<and> getItemByIndex h c (nat index) \<noteq> None
                              then getItemByIndex h c (nat index) else destItem)
             in (case (if index \<noteq> INDEX_WHEREEVER then destItem1 else None) of
                  Some d \<Rightarrow>
                    if is_cylinder h d then Some (d, INDEX_WHEREEVER, None)
                    else auto_stack sr h c index item destItem1 flags
                | None \<Rightarrow> auto_stack sr h c index item destItem1 flags))"

end
