(* ===== verification/Item_Moves.thy ===== *)
theory Item_Moves
  imports Container_Query
begin

text \<open>
  Moving, adding and removing items (src/src/game/game.cpp: \<open>Game::internalMoveItem\<close>,
  \<open>Game::internalAddItem\<close>, \<open>Game::internalRemoveItem\<close>) between plain containers. The heap is
  that of \<open>Container_Heap\<close>; a new item made by \<open>Item::clone\<close> takes the address \<open>fresh\<close>.
  Notifications (to clients, scripts and players), sounds and the start and stop of decay
  are left out. A result \<open>None\<close> is a case outside the model: a loop that does not end, a null
  pointer followed, a destination that is no plain container, a stack that is one.
\<close>

section \<open>Where an item goes\<close>

definition MAP_MAX_LAYERS :: nat where "MAP_MAX_LAYERS = 16"

text \<open>The loop around \<open>queryDestination\<close>: cylinder, index, item to join, flags.\<close>

fun settle ::
    "surroundings \<Rightarrow> heap \<Rightarrow> nat \<Rightarrow> nat \<Rightarrow> nat \<Rightarrow> int \<Rightarrow> nat option \<Rightarrow> u32 \<Rightarrow> (nat \<times> int \<times> nat option \<times> u32) option" where
  "settle sr h item 0 c index toItem flags = Some (c, index, toItem, flags)"
| "settle sr h item (Suc n) c index toItem flags =
     (case queryDestination sr h c index item toItem flags of
        None \<Rightarrow> None
      | Some (subCylinder, index', toItem') \<Rightarrow>
          if subCylinder = c then Some (c, index', toItem', flags)
          else if \<not> is_container h subCylinder then None
          else settle sr h item n subCylinder index' toItem' 0)"

section \<open>The parts of a move\<close>

text \<open>\<open>Item::clone\<close>: attributes are copied if there are any, else the new item keeps its own.\<close>

definition clone_item :: "items \<Rightarrow> item \<Rightarrow> item" where
  "clone_item T it =
     (let new = new_item T (it_id it) (ucast (it_count it))
      in if it_attrs it = [] \<and> it_custom it = [] then new
         else new\<lparr>it_attrs := it_attrs it, it_custom := it_custom it\<rparr>)"

definition clone_thing :: "items \<Rightarrow> nat \<Rightarrow> u8 \<Rightarrow> nat \<Rightarrow> heap \<Rightarrow> heap" where
  "clone_thing T item newCount fresh h =
     h(fresh := (h item)\<lparr>th_parent := None, th_item := setItemCount newCount (clone_item T (th_item (h item)))\<rparr>)"

text \<open>The exchange of two items when the destination asks for it.\<close>

definition exchange_items ::
    "surroundings \<Rightarrow> heap \<Rightarrow> nat \<Rightarrow> nat \<Rightarrow> int \<Rightarrow> nat \<Rightarrow> u32 \<Rightarrow> u32 \<Rightarrow> nat option
     \<Rightarrow> (ReturnValue \<times> heap \<times> nat option) option" where
  "exchange_items sr h from to index item cnt flags toItem = (case toItem of
      None \<Rightarrow> None
    | Some other \<Rightarrow>
        let otherCount = ucast (it_count (th_item (h other)))
        in (case queryAdd sr h from (getThingIndex h from item) other otherCount 0 of
            None \<Rightarrow> None
          | Some ret \<Rightarrow>
              if ret \<noteq> RETURNVALUE_NOERROR then Some (ret, h, toItem)
              else (case queryMaxCount sr h from INDEX_WHEREEVER other otherCount 0 of
                  None \<Rightarrow> None
                | Some (retMax, maxCount) \<Rightarrow>
                    if retMax \<noteq> RETURNVALUE_NOERROR \<and> maxCount = 0 then Some (retMax, h, toItem)
                    else (case queryRemove sr h to other otherCount flags of
                        None \<Rightarrow> None
                      | Some r \<Rightarrow>
                          if r \<noteq> RETURNVALUE_NOERROR then Some (ret, h, toItem)
                          else Option.bind (removeThing (sr_items sr) to other otherCount h) (\<lambda>h1.
                            Option.bind (addThing (sr_items sr) from 0 (Some other) h1) (\<lambda>h2.
                              map_option (\<lambda>ret. (ret, h2, None)) (queryAdd sr h2 to index item cnt flags)))))))"

text \<open>The guard of a trade: the item must not go into the item it is traded for.\<close>

definition trade_stops :: "heap \<Rightarrow> nat \<Rightarrow> nat \<Rightarrow> ReturnValue option" where
  "trade_stops h tradeItem cy = (if is_item h cy \<and> cy = tradeItem then Some RETURNVALUE_NOTENOUGHROOM else None)"

definition trade_guard :: "heap \<Rightarrow> nat \<Rightarrow> nat option \<Rightarrow> ReturnValue option" where
  "trade_guard h to tradeItem = (case tradeItem of
      None \<Rightarrow> Some RETURNVALUE_NOERROR
    | Some t \<Rightarrow> around_loop h (trade_stops h t) (Some to))"

text \<open>How much of \<open>m\<close> joins the item found at the destination.\<close>

definition joined_count :: "surroundings \<Rightarrow> heap \<Rightarrow> nat \<Rightarrow> nat option \<Rightarrow> u32 \<Rightarrow> u32 option" where
  "joined_count sr h item toItem m = (case toItem of
      None \<Rightarrow> Some 0
    | Some d \<Rightarrow> map_option (\<lambda>same. if same
          then min (ucast (getStackSize (sr_items sr) (th_item (h d))) - ucast (it_count (th_item (h d)))) m
          else 0) (same_stack h item d))"

text \<open>The removal from the source and the addition to the destination.\<close>

definition put_moved ::
    "surroundings \<Rightarrow> heap \<Rightarrow> nat \<Rightarrow> int \<Rightarrow> nat \<Rightarrow> nat option \<Rightarrow> u32 \<Rightarrow> nat \<Rightarrow> (heap \<times> nat option) option" where
  "put_moved sr h to index item toItem m fresh =
     (if \<not> ty_stackable (sr_items sr (it_id (th_item (h item)))) then
        map_option (\<lambda>h2. (h2, Some item)) (addThing (sr_items sr) to index (Some item) h)
      else if th_kind (h item) \<noteq> K_Item then None
      else Option.bind (joined_count sr h item toItem m) (\<lambda>n.
        Option.bind
          (case toItem of
             None \<Rightarrow> Some h
           | Some d \<Rightarrow>
               if same_stack h item d = Some True
               then updateThing (sr_items sr) to d (it_id (th_item (h d))) (ucast (it_count (th_item (h d))) + n) h
               else Some h)
          (\<lambda>h1. if sint (m - n) > 0 then
                  map_option (\<lambda>h2. (h2, Some fresh))
                    (addThing (sr_items sr) to index (Some fresh) (clone_thing (sr_items sr) item (ucast (m - n)) fresh h1))
                else Some (h1, None))))"

section \<open>\<open>internalMoveItem\<close>\<close>

text \<open>From the point where the destination is known and \<open>queryAdd\<close> has answered.\<close>

definition move_after_query ::
    "surroundings \<Rightarrow> heap \<Rightarrow> nat \<Rightarrow> nat \<Rightarrow> int \<Rightarrow> nat \<Rightarrow> u32 \<Rightarrow> u32 \<Rightarrow> nat option \<Rightarrow> nat option \<Rightarrow> nat
     \<Rightarrow> (ReturnValue \<times> heap \<times> nat option) option" where
  "move_after_query sr h from to index item cnt flags toItem tradeItem fresh =
     (case queryMaxCount sr h to index item cnt flags of
        None \<Rightarrow> None
      | Some (retMax, maxQueryCount) \<Rightarrow>
          if retMax \<noteq> RETURNVALUE_NOERROR \<and> maxQueryCount = 0 then Some (retMax, h, None)
          else
            let stackable = ty_stackable (sr_items sr (it_id (th_item (h item))));
                m = (if stackable then min cnt maxQueryCount else maxQueryCount)
            in (case queryRemove sr h from item m flags of
                None \<Rightarrow> None
              | Some ret \<Rightarrow>
                  if ret \<noteq> RETURNVALUE_NOERROR then Some (ret, h, None)
                  else (case trade_guard h to tradeItem of
                      None \<Rightarrow> None
                    | Some guard \<Rightarrow>
                        if guard \<noteq> RETURNVALUE_NOERROR then Some (guard, h, None)
                        else Option.bind (removeThing (sr_items sr) from item m h) (\<lambda>h1.
                          map_option (\<lambda>(h2, moveItem).
                              (if stackable \<and> maxQueryCount < cnt then retMax else ret, h2,
                               Some (case moveItem of None \<Rightarrow> item | Some x \<Rightarrow> x)))
                            (put_moved sr h1 to index item toItem m fresh)))))"

definition internalMoveItem ::
    "surroundings \<Rightarrow> heap \<Rightarrow> nat \<Rightarrow> nat \<Rightarrow> int \<Rightarrow> nat \<Rightarrow> u32 \<Rightarrow> u32 \<Rightarrow> nat option \<Rightarrow> nat
     \<Rightarrow> (ReturnValue \<times> heap \<times> nat option) option" where
  "internalMoveItem sr h from to0 index0 item cnt0 flags0 tradeItem fresh =
     (case settle sr h item MAP_MAX_LAYERS to0 index0 None flags0 of
        None \<Rightarrow> None
      | Some (to, index, toItem, flags) \<Rightarrow>
          if toItem = Some item then Some (RETURNVALUE_NOERROR, h, None)
          else
            let cnt = (if ty_stackable (sr_items sr (it_id (th_item (h item)))) \<and> cnt0 = 255
                          \<and> th_parent (h from) = Some to
                       then ucast (it_count (th_item (h item))) else cnt0)
            in (case queryRemove sr h from item 1 flags of
                None \<Rightarrow> None
              | Some ret \<Rightarrow>
                  if ret \<noteq> RETURNVALUE_NOERROR then Some (ret, h, None)
                  else (case queryAdd sr h to index item cnt flags of
                      None \<Rightarrow> None
                    | Some RETURNVALUE_NEEDEXCHANGE \<Rightarrow>
                        (case exchange_items sr h from to index item cnt flags toItem of
                           None \<Rightarrow> None
                         | Some (ret, h1, toItem1) \<Rightarrow>
                             if ret \<noteq> RETURNVALUE_NOERROR then Some (ret, h1, None)
                             else move_after_query sr h1 from to index item cnt flags toItem1 tradeItem fresh)
                    | Some ret \<Rightarrow>
                        if ret \<noteq> RETURNVALUE_NOERROR then Some (ret, h, None)
                        else move_after_query sr h from to index item cnt flags toItem tradeItem fresh)))"

end
