(* ===== verification/Container_Safety.thy ===== *)
theory Container_Safety
  imports Container_Query
begin

text \<open>
  What the answers of a container are worth: on a forest of containers every query ends, an
  item \<open>queryAdd\<close> admits can be added without putting a container inside itself, in any
  sequence of questions, additions and removals, and two
  answers are not what their code was written for: the top container found by
  \<open>getTopParentContainer\<close> is the one below the top, and the house of the tile a container
  stands on is never asked by \<open>queryRemove\<close>.
\<close>

section \<open>Walks over the parents end on a forest\<close>

lemma top_parent_loop_answers:
  assumes "rooted h a"
  shows "\<exists>t. top_parent_loop h prev a = Some (Some t)"
  using assms
proof (induction arbitrary: prev rule: rooted.induct)
  case (top a)
  then show ?case by (cases prev) (simp_all add: top_parent_loop.simps [of h _ a])
next
  case (up a p)
  then show ?case by (simp add: top_parent_loop.simps [of h _ a])
qed

lemma getTopParent_answers:
  assumes "forest h" "is_cylinder h c"
  obtains t where "getTopParent h c = Some (Some t)"
proof (cases "th_parent (h c)")
  case None
  then show ?thesis using that assms(2) by (simp add: getTopParent_def)
next
  case (Some p)
  then show ?thesis
    using that top_parent_loop_answers [OF forest_rooted [OF assms(1), of p], of "Some c"] assms(2)
    by (auto simp: getTopParent_def)
qed

lemma top_container_loop_answers:
  "rooted h a \<Longrightarrow> top_container_loop h prev a \<noteq> None"
proof (induction arbitrary: prev rule: rooted.induct)
  case (top a)
  then show ?case by (simp add: top_container_loop.simps [of h _ a])
next
  case (up a p)
  then show ?case by (simp add: top_container_loop.simps [of h _ a])
qed

lemma getTopParentContainer_answers: "forest h \<Longrightarrow> getTopParentContainer h c \<noteq> None"
  using top_container_loop_answers [OF forest_rooted [of h]]
  by (auto simp: getTopParentContainer_def simp del: not_None_eq split: option.split)

lemma inside_id_loop_answers: "rooted h a \<Longrightarrow> inside_id_loop h i (Some a) \<noteq> None"
proof (induction rule: rooted.induct)
  case (top a)
  then show ?case
    by (simp add: inside_id_loop.simps [of h i "Some a"] inside_id_loop.simps [of h i None] del: not_None_eq)
next
  case (up a p)
  then show ?case by (simp add: inside_id_loop.simps [of h i "Some a"] del: not_None_eq)
qed

lemma around_loop_answers: "rooted h a \<Longrightarrow> around_loop h stops (Some a) \<noteq> None"
proof (induction rule: rooted.induct)
  case (top a)
  then show ?case
    by (simp add: around_loop.simps [of h stops "Some a"] around_loop.simps [of h stops None] split: option.split)
next
  case (up a p)
  then show ?case by (simp add: around_loop.simps [of h stops "Some a"] split: option.split)
qed

text \<open>The things still to be asked for an owner get fewer: items lie below their container.\<close>

definition held_in :: "heap \<Rightarrow> (nat \<times> nat) set" where
  "held_in h = {(x, c). is_container h c \<and> x \<in> set (itemlist (h c))}"

lemma trancl_held_in_above:
  assumes "forest h" "(x, c) \<in> (held_in h)\<^sup>+"
  shows "Container_Heap.above h x c"
  using assms(2,1)
proof (induction rule: trancl_induct)
  case (base c)
  then show ?case by (auto simp: held_in_def forest_contents intro: above.parent)
next
  case (step c d)
  then show ?case by (auto simp: held_in_def forest_contents intro: above_extend)
qed

lemma wf_held_in:
  assumes "forest h" "finite {a. is_container h a}"
  shows "wf (held_in h)"
proof (rule finite_acyclic_wf)
  have "held_in h \<subseteq> (\<Union>c\<in>{a. is_container h a}. set (itemlist (h c)) \<times> {c})" by (auto simp: held_in_def)
  then show "finite (held_in h)" by (rule finite_subset) (use assms(2) in simp)
  show "acyclic (held_in h)"
    using trancl_held_in_above [OF assms(1)] not_above_self [OF forest_rooted [OF assms(1)]]
    by (auto simp: acyclic_def)
qed

lemma first_owner_append:
  assumes "\<And>x. x \<in> set xs \<Longrightarrow> \<forall>rest. first_owner h rest \<noteq> None \<longrightarrow> first_owner h (x # rest) \<noteq> None"
    and "first_owner h rest \<noteq> None"
  shows "first_owner h (xs @ rest) \<noteq> None"
  using assms by (induction xs) simp_all

lemma thing_owner_answers:
  assumes "forest h" "finite {a. is_container h a}"
  shows "thing_owner h a \<noteq> None"
proof -
  have "\<forall>rest. first_owner h rest \<noteq> None \<longrightarrow> first_owner h (x # rest) \<noteq> None" for x
  proof (induction x rule: wf_induct_rule [OF wf_held_in [OF assms]])
    case (1 x)
    then have "is_container h x \<longrightarrow> first_owner h rest \<noteq> None \<longrightarrow> first_owner h (itemlist (h x) @ rest) \<noteq> None" for rest
      using first_owner_append [of "itemlist (h x)" h rest] by (auto simp: held_in_def)
    then show ?case by (auto simp: first_owner.simps [of h "x # _"])
  qed
  moreover have "first_owner h [] = Some 0" by (simp add: first_owner.simps)
  ultimately show ?thesis unfolding thing_owner_def by (metis option.discI)
qed

lemma sum_free_slots_append:
  assumes "\<And>x m. x \<in> set xs \<Longrightarrow> \<forall>rest. (\<forall>n. sum_free_slots h rest n \<noteq> None) \<longrightarrow> sum_free_slots h (x # rest) m \<noteq> None"
    and "\<And>n. sum_free_slots h rest n \<noteq> None"
  shows "sum_free_slots h (xs @ rest) n \<noteq> None"
  using assms by (induction xs arbitrary: n) simp_all

lemma getFreeSlots_answers:
  assumes "forest h" "finite {a. is_container h a}"
  shows "getFreeSlots h c \<noteq> None"
proof -
  have "\<forall>m rest. (\<forall>n. sum_free_slots h rest n \<noteq> None) \<longrightarrow> sum_free_slots h (x # rest) m \<noteq> None" for x
  proof (induction x rule: wf_induct_rule [OF wf_held_in [OF assms]])
    case (1 x)
    show ?case
    proof (intro allI impI)
      fix m rest
      assume rest: "\<forall>n. sum_free_slots h rest n \<noteq> None"
      show "sum_free_slots h (x # rest) m \<noteq> None"
      proof (cases "is_container h x")
        case True
        have "sum_free_slots h (itemlist (h x) @ rest) (m + own_free_slots h x) \<noteq> None"
          by (rule sum_free_slots_append) (use 1 True rest in \<open>auto simp: held_in_def\<close>)
        then show ?thesis using True by (simp add: sum_free_slots.simps [of h "x # rest"])
      qed (use rest in \<open>simp add: sum_free_slots.simps [of h "x # rest"]\<close>)
    qed
  qed
  then have "sum_free_slots h (itemlist (h c) @ []) (own_free_slots h c) \<noteq> None"
    by (intro sum_free_slots_append) (simp_all add: sum_free_slots.simps [of h "[]"])
  then show ?thesis by (simp add: getFreeSlots_def)
qed

text \<open>A container with more items than slots counts its missing slots as free ones.\<close>

lemma overfull_has_free_slots:
  assumes "maxSize (h c) = 8" "length (itemlist (h c)) = 9"
  shows "own_free_slots h c = 65535"
proof -
  have "(ucast (- 1 :: u32) :: u16) = 65535" by transfer (simp add: take_bit_minus_one_eq_mask mask_eq_exp_minus_1)
  with assms show ?thesis by (simp add: own_free_slots_def)
qed

section \<open>\<open>queryAdd\<close> answers\<close>

lemma container_cylinder: "is_container h c \<Longrightarrow> is_cylinder h c"
  by (simp add: is_container_def is_cylinder_def)

lemma holding_counts_answer:
  assumes "finite {a. is_container h a}"
  shows "getItemHoldingCount d h c \<noteq> None" "getContainerHoldingCount d h c \<noteq> None"
  using iterate_ends [OF assms, of "iter_begin d c"]
  by (simp_all add: getItemHoldingCount_def getContainerHoldingCount_def)

lemma owner_refuses_answers:
  assumes "forest h" "finite {a. is_container h a}" "is_container h c"
  shows "owner_refuses sr h c item \<noteq> None"
proof -
  obtain t where "getTopParent h c = Some (Some t)"
    using getTopParent_answers [OF assms(1) container_cylinder [OF assms(3)]] .
  then show ?thesis
    using thing_owner_answers [OF assms(1,2)] by (auto simp: owner_refuses_def split: option.split)
qed

lemma limits_refuse_answers:
  assumes "forest h" "finite {a. is_container h a}"
  shows "limits_refuse sr h c item \<noteq> None"
proof -
  have "\<exists>n. getItemHoldingCount d h k = Some n" "\<exists>n. getContainerHoldingCount d h k = Some n" for d k
    using holding_counts_answer [OF assms(2)] by (simp_all add: not_None_eq)
  then obtain m n where "\<And>d k. getItemHoldingCount d h k = Some (m d k)"
    "\<And>d k. getContainerHoldingCount d h k = Some (n d k)"
    by metis
  then show ?thesis
    using getTopParentContainer_answers [OF assms(1), of c]
    by (auto simp: limits_refuse_def split: option.split)
qed

lemma around_answers: "forest h \<Longrightarrow> around_loop h stops p \<noteq> None"
  by (cases p) (auto simp: around_loop.simps [of h stops None] around_loop_answers forest_rooted)

lemma queryAdd_answers:
  assumes "forest h" "finite {a. is_container h a}" "is_container h c"
  shows "queryAdd sr h c i item n flags \<noteq> None"
proof -
  obtain t where t: "getTopParent h c = Some (Some t)"
    using getTopParent_answers [OF assms(1) container_cylinder [OF assms(3)]] .
  obtain r where r: "owner_refuses sr h c item = Some r" using owner_refuses_answers [OF assms] by auto
  obtain l where l: "limits_refuse sr h c item = Some l" using limits_refuse_answers [OF assms(1,2)] by blast
  obtain s where s: "around_loop h (around_stops h (hasBitSet FLAG_NOLIMIT flags) item) (th_parent (h c)) = Some s"
    using around_answers [OF assms(1)] by auto
  show ?thesis by (cases r; cases l) (simp_all add: queryAdd_def t r l s Let_def)
qed

lemma same_stack_answers:
  assumes "forest h" "finite {a. is_container h a}"
  obtains same where "same_stack h a b = Some same"
proof -
  obtain oa ob where "thing_owner h a = Some oa" "thing_owner h b = Some ob"
    using thing_owner_answers [OF assms] by blast
  then show ?thesis using that by (simp add: same_stack_def)
qed

lemma same_stack_other_answers:
  assumes "forest h" "finite {a. is_container h a}"
  obtains same where "(if x \<noteq> item then same_stack h x item else Some False) = Some same"
proof -
  obtain s where "same_stack h x item = Some s" by (rule same_stack_answers [OF assms])
  then show ?thesis using that by (cases "x = item") auto
qed

lemma stack_slots_answers:
  assumes "forest h" "finite {a. is_container h a}" "is_container h c"
  shows "stack_slots sr h c item flags xs k n \<noteq> None"
proof (induction xs arbitrary: k n)
  case Nil
  then show ?case by simp
next
  case (Cons x xs)
  obtain same where same: "(if x \<noteq> item then same_stack h x item else Some False) = Some same"
    using same_stack_other_answers [OF assms(1,2)] .
  obtain r where "queryAdd sr h c (int k) item (ucast (stack_room sr h x)) flags = Some r"
    using queryAdd_answers [OF assms] by blast
  with same Cons.IH show ?case by (simp add: Let_def)
qed

lemma queryMaxCount_answers:
  assumes "forest h" "finite {a. is_container h a}" "is_container h c"
  shows "queryMaxCount sr h c index item n flags \<noteq> None"
proof -
  obtain m where m: "stack_slots sr h c item flags (itemlist (h c)) 0 0 = Some m"
    using stack_slots_answers [OF assms] by blast
  have "\<exists>same. same_stack h item d = Some same" for d using same_stack_answers [OF assms(1,2)] by blast
  then obtain same where "\<And>d. same_stack h item d = Some (same d)" by metis
  then show ?thesis by (auto simp: queryMaxCount_def Let_def m split: option.split)
qed

lemma find_stack_answers:
  assumes "forest h" "finite {a. is_container h a}"
  shows "find_stack sr h item xs n \<noteq> None"
proof (induction xs arbitrary: n)
  case Nil
  then show ?case by simp
next
  case (Cons x xs)
  obtain same where "(if x \<noteq> item then same_stack h x item else Some False) = Some same"
    using same_stack_other_answers [OF assms] .
  with Cons.IH show ?case by simp
qed

lemma auto_stack_answers:
  assumes "forest h" "finite {a. is_container h a}"
  shows "auto_stack sr h c index item d flags \<noteq> None"
proof -
  obtain same where same: "(case d of None \<Rightarrow> Some False
      | Some d \<Rightarrow> map_option (\<lambda>same. same \<and> stack_not_full sr h d) (same_stack h d item)) = Some same"
  proof (cases d)
    case None
    then show ?thesis using that [of False] by simp
  next
    case (Some e)
    obtain s where "same_stack h e item = Some s" by (rule same_stack_answers [OF assms])
    with Some show ?thesis using that by simp
  qed
  obtain f where "find_stack sr h item (itemlist (h c)) 0 = Some f"
    using find_stack_answers [OF assms] by blast
  then show ?thesis unfolding auto_stack_def same by (auto split: option.split bool.split)
qed

lemma queryDestination_answers:
  "forest h \<Longrightarrow> finite {a. is_container h a} \<Longrightarrow> queryDestination sr h c i item d flags \<noteq> None"
  using auto_stack_answers by (auto simp: queryDestination_def Let_def split: option.split)

lemma queryRemove_answers:
  assumes "forest h" "is_container h c"
  shows "queryRemove sr h c item n flags \<noteq> None"
proof -
  obtain t where "getTopParent h c = Some (Some t)"
    using getTopParent_answers [OF assms(1) container_cylinder [OF assms(2)]] .
  then show ?thesis by (simp add: queryRemove_def Let_def)
qed

section \<open>An admitted item may be put in\<close>

lemma around_loop_NOERROR:
  assumes "rooted h a" "around_loop h (around_stops h noLimit x) (Some a) = Some RETURNVALUE_NOERROR"
  shows "a \<noteq> x \<and> \<not> above h a x"
  using assms
proof (induction rule: rooted.induct)
  case (top a)
  then show ?case
    by (auto simp: around_loop.simps [of h _ "Some a"] around_stops_def elim: above.cases split: if_splits)
next
  case (up a p)
  then have "around_stops h noLimit x a = None"
    by (auto simp: around_loop.simps [of h _ "Some a"] around_stops_def split: if_splits)
  with up have "p \<noteq> x" "\<not> above h p x" "a \<noteq> x"
    by (auto simp: around_loop.simps [of h _ "Some a"] around_stops_def)
  with up.hyps show ?case by (auto elim: above.cases)
qed

lemma queryAdd_may_hold:
  assumes "forest h" "is_container h c" "\<not> hasBitSet FLAG_CHILDISOWNER flags"
    and "queryAdd sr h c i item n flags = Some RETURNVALUE_NOERROR"
  shows "may_hold h c item"
proof -
  have item: "is_item h item" "item \<noteq> c"
    and around: "around_loop h (around_stops h (hasBitSet FLAG_NOLIMIT flags) item) (th_parent (h c))
      = Some RETURNVALUE_NOERROR"
    using assms(3,4) by (auto simp: queryAdd_def Let_def split: if_splits option.splits bool.splits)
  have "\<not> above h c item"
  proof (cases "th_parent (h c)")
    case None
    then show ?thesis by (auto elim: above.cases)
  next
    case (Some p)
    then have "p \<noteq> item \<and> \<not> above h p item"
      using around around_loop_NOERROR [OF forest_rooted [OF assms(1), of p]] by simp
    with Some show ?thesis by (auto elim: above.cases)
  qed
  with item assms(2) show ?thesis by (simp add: may_hold_def)
qed

section \<open>The top container, and the house\<close>

lemma top_parent_loop_has_parent_or_prev:
  assumes "rooted h a" "top_parent_loop h (Some prev) a = Some (Some t)" "th_parent (h prev) \<noteq> None"
  shows "th_parent (h t) \<noteq> None"
  using assms
proof (induction arbitrary: prev rule: rooted.induct)
  case (top a)
  then show ?case by (simp add: top_parent_loop.simps [of h _ a])
next
  case (up a p)
  then show ?case by (simp add: top_parent_loop.simps [of h _ a])
qed

lemma getTopParent_has_parent:
  assumes "forest h" "is_cylinder h c" "th_parent (h c) \<noteq> None" "getTopParent h c = Some (Some t)"
  shows "th_parent (h t) \<noteq> None"
  using assms top_parent_loop_has_parent_or_prev [of h _ c t] forest_rooted [OF assms(1)]
  by (auto simp: getTopParent_def)


lemma getTopParent_no_tile:
  assumes "forest h" "is_container h c" "\<And>a b. th_kind (h a) = K_Tile b \<Longrightarrow> th_parent (h a) = None"
    and "getTopParent h c = Some (Some t)"
  shows "th_kind (h t) \<noteq> K_Tile b"
proof (cases "th_parent (h c)")
  case None
  then have "t = c" using assms(2,4) by (simp add: getTopParent_def container_cylinder)
  then show ?thesis using assms(2) by (simp add: is_container_def)
next
  case (Some p)
  then have "th_parent (h t) \<noteq> None"
    using getTopParent_has_parent [OF assms(1) container_cylinder [OF assms(2)] _ assms(4)] by simp
  then show ?thesis using assms(3) [of t b] by auto
qed

text \<open>A container in a container that is not itself in one takes itself for the top.\<close>

lemma top_container_is_not_the_top:
  assumes "is_container h c" "th_parent (h c) = Some b" "is_container h b" "getParentContainer h b = None"
  shows "getTopParentContainer h c = Some (Some c)"
  using assms
  by (auto simp: getTopParentContainer_def getParentContainer_def top_container_loop.simps [of h c b]
      split: option.splits if_splits)

text \<open>\<open>removeItem\<close> changes no weight, so the container keeps the weight of what left it.\<close>

lemma removeItem_keeps_weight: "totalWeight (removeItem T c x h k) = totalWeight (h k)"
  by (simp add: removeItem_def clearLootHighlight_def heap_updates split: option.split)

section \<open>Properties\<close>

text \<open>
  On a forest of finitely many containers every question to a container gets an answer:
  none of the loops over parents, over the contents or over the owners runs forever, and no
  null parent is followed.
\<close>

theorem container_queries_end:
  assumes "forest h" "finite {a. is_container h a}" "is_container h c"
  shows "queryAdd sr h c i item n flags \<noteq> None \<and> queryMaxCount sr h c i item n flags \<noteq> None
    \<and> queryRemove sr h c item n flags \<noteq> None \<and> queryDestination sr h c i item d flags \<noteq> None
    \<and> isInsideContainerWithId h c k \<noteq> None \<and> getFreeSlots h c \<noteq> None"
proof -
  have "isInsideContainerWithId h c k \<noteq> None"
    using inside_id_loop_answers [OF forest_rooted [OF assms(1)], of k]
    by (cases "th_parent (h c)") (simp_all add: isInsideContainerWithId_def inside_id_loop.simps [of h k None])
  then show ?thesis
    by (intro conjI queryAdd_answers queryMaxCount_answers queryRemove_answers queryDestination_answers
        getFreeSlots_answers assms)
qed

lemma apart_forest: "forest apart" "is_container apart 1" "finite {a. is_container apart a}"
proof -
  show "forest apart" using wf_heap_apart [of apart] by (simp add: wf_heap_def apart_def)
  show "is_container apart 1" by (simp add: is_container_def apart_def)
  have "{a. is_container apart a} = {0, 1}" by (auto simp: is_container_def apart_def)
  then show "finite {a. is_container apart a}" by simp
qed

definition free_surroundings :: surroundings where
  "free_surroundings = \<lparr>sr_items = (\<lambda>i. brick), sr_maxDepth = 10, sr_maxContainer = 100,
     sr_isOwner = (\<lambda>w p. False), sr_queryAdd = (\<lambda>h t a n f. RETURNVALUE_NOERROR),
     sr_houseRemove = (\<lambda>t a n f. RETURNVALUE_NOTPOSSIBLE)\<rparr>"

lemma container_queries_end_witness:
  "\<exists>r. queryAdd free_surroundings apart 1 (-1) 2 1 0 = Some r"
  using container_queries_end [OF apart_forest(1,3,2), of free_surroundings "-1" 2 1 0] by blast

text \<open>
  C29. What \<open>queryAdd\<close> admits may be added: the item comes to lie first in the container, no
  container ends up inside itself, and all weights stay exact, also those of the containers
  around it.
\<close>

theorem admitted_item_is_added:
  assumes "wf_heap T h" "is_container h c" "detached h item"
    and "queryAdd sr h c i item n flags = Some RETURNVALUE_NOERROR" "hasBitSet FLAG_CHILDISOWNER flags = False"
  shows "\<exists>h'. internalAddThing T c (Some item) h = Some h' \<and> wf_heap T h'
    \<and> itemlist (h' c) = item # itemlist (h c) \<and> th_parent (h' item) = Some c"
proof -
  have "may_hold h c item"
    using queryAdd_may_hold [of h c flags] assms by (simp add: wf_heap_def)
  then obtain h' where h': "internalAddThing T c (Some item) h = Some h'" "wf_heap T h'"
    "same_shape (put (item # itemlist (h c)) item c h) h'"
    using internalAddThing_wf assms(1,3) by blast
  have "itemlist (h' c) = item # itemlist (h c)" "th_parent (h' item) = Some c"
    using same_shape_fields(2,4) [OF h'(3)] by (simp_all add: put_def)
  with h' show ?thesis by blast
qed

text \<open>
  The house a container stands in has no say when something is taken out of the
  container: whatever the house would answer, the answer of \<open>queryRemove\<close> is the same.
\<close>

theorem house_is_not_asked:
  assumes "forest h" "is_container h c" "\<And>a b. th_kind (h a) = K_Tile b \<Longrightarrow> th_parent (h a) = None"
  shows "queryRemove (sr\<lparr>sr_houseRemove := f\<rparr>) h c item n flags = queryRemove sr h c item n flags"
proof -
  obtain t where "getTopParent h c = Some (Some t)"
    using getTopParent_answers [OF assms(1) container_cylinder [OF assms(2)]] .
  moreover have "th_kind (h t) \<noteq> K_Tile True" using getTopParent_no_tile [OF assms calculation] .
  ultimately show ?thesis by (simp add: queryRemove_def Let_def)
qed


lemma house_is_not_asked_witness:
  "queryRemove (free_surroundings\<lparr>sr_houseRemove := \<lambda>t a n f. RETURNVALUE_NOERROR\<rparr>) apart 1 2 1 0
    = queryRemove free_surroundings apart 1 2 1 0"
  using house_is_not_asked [OF apart_forest(1,2), where sr = free_surroundings] by (simp add: apart_def)


lemma apart_admits: "queryAdd free_surroundings apart 1 0 2 1 0 = Some RETURNVALUE_NOERROR"
proof -
  have kinds: "is_item apart 2" "is_container apart 1" "\<not> is_container apart 2" "is_cylinder apart 1"
    by (simp_all add: apart_def is_item_def is_container_def is_cylinder_def)
  have parent: "th_parent (apart 1) = None" and unlocked: "c_unlocked (apart 1)"
    by (simp_all add: apart_def)
  have owner: "thing_owner apart 2 = Some 0"
    by (simp add: thing_owner_def first_owner.simps kinds apart_def plain_def getOwnerId_def hasAttribute_def)
  have "below apart (Suc (10 - 1)) 1 = []" unfolding below_Suc by (simp add: apart_def)
  then have "getItemHoldingCount 10 apart 1 = Some 0"
    using iterate_forest [OF apart_forest(1,2), of 10] by (simp add: getItemHoldingCount_def)
  then have limits: "limits_refuse free_surroundings apart 1 2 = Some False"
    by (simp add: limits_refuse_def getTopParentContainer_def parent kinds free_surroundings_def del: One_nat_def)
      (simp add: apart_def)
  have "getTopParent apart 1 = Some (Some 1)" by (simp add: getTopParent_def parent kinds Let_def del: One_nat_def)
  then show ?thesis
    by (simp add: queryAdd_def owner_refuses_def owner limits parent unlocked kinds around_loop.simps Let_def
        hasBitSet_def FLAG_CHILDISOWNER_def INDEX_WHEREEVER_def del: One_nat_def)
      (simp add: free_surroundings_def brick_def)
qed

lemma admitted_item_is_added_witness:
  "\<exists>h'. internalAddThing (\<lambda>i. brick) 1 (Some 2) apart = Some h' \<and> wf_heap (\<lambda>i. brick) h'
    \<and> itemlist (h' 1) = 2 # itemlist (apart 1) \<and> th_parent (h' 2) = Some 1"
proof -
  have wf: "wf_heap (\<lambda>i. brick) apart" by (rule wf_heap_apart) (simp add: apart_def)
  have "detached apart 2" by (simp add: detached_def getParentContainer_def apart_def)
  then show ?thesis
    using admitted_item_is_added [OF wf apart_forest(2) _ apart_admits]
    by (simp add: hasBitSet_def FLAG_CHILDISOWNER_def)
qed

section \<open>Sequences of operations that are asked for first\<close>

text \<open>
  What the game asks before it changes a container. An item is put into a container only
  when it lies in no container and \<open>queryAdd\<close> has answered \<open>RETURNVALUE_NOERROR\<close>, whatever the
  surroundings, the index, the count and the flags (but the one that makes the container
  answer for a child). The item put in place of another is a new one: it lies nowhere and
  nothing lies in it. Whether the item and the container are different, or one inside the
  other, is left to the answers.
\<close>

definition admitted :: "heap \<Rightarrow> nat \<Rightarrow> nat \<Rightarrow> bool" where
  "admitted h c x \<longleftrightarrow> is_container h c \<and> detached h x
     \<and> (\<exists>sr i n flags. hasBitSet FLAG_CHILDISOWNER flags = False
          \<and> queryAdd sr h c i x n flags = Some RETURNVALUE_NOERROR)"

definition fresh_item :: "heap \<Rightarrow> nat \<Rightarrow> bool" where
  "fresh_item h x \<longleftrightarrow> is_item h x \<and> detached h x \<and> (\<forall>y. th_parent (h y) \<noteq> Some x)"

fun container_asked :: "heap \<Rightarrow> container_op \<Rightarrow> bool" where
  "container_asked h (Op_add c i x) = admitted h c x"
| "container_asked h (Op_internalAdd c x) = admitted h c x"
| "container_asked h (Op_addBack c x) = admitted h c x"
| "container_asked h (Op_update c x i n) = is_container h c"
| "container_asked h (Op_replace c i x) = (is_container h c \<and> fresh_item h x)"
| "container_asked h (Op_remove c x n) = is_container h c"

inductive asked_run :: "items \<Rightarrow> heap \<Rightarrow> heap \<Rightarrow> bool" for T where
  start: "asked_run T h h"
| op: "asked_run T h h1 \<Longrightarrow> container_asked h1 x \<Longrightarrow> container_exec T x h1 = Some h2 \<Longrightarrow> asked_run T h h2"

lemma admitted_may_hold: "forest h \<Longrightarrow> admitted h c x \<Longrightarrow> may_hold h c x \<and> detached h x"
  using queryAdd_may_hold by (auto simp: admitted_def)

lemma nothing_above_fresh: "Container_Heap.above h c x \<Longrightarrow> \<exists>y. th_parent (h y) = Some x"
  by (induction rule: above.induct) auto

lemma fresh_may_hold:
  assumes "forest h" "is_container h c" "fresh_item h x" "itemlist (h c) \<noteq> []"
  shows "may_hold h c x"
proof -
  obtain y where "y \<in> set (itemlist (h c))" using assms(4) by (cases "itemlist (h c)") auto
  then have "th_parent (h y) = Some c" using forest_contents [OF assms(1,2)] by simp
  then have "x \<noteq> c" using assms(3) by (auto simp: fresh_item_def)
  moreover have "\<not> Container_Heap.above h c x"
    using nothing_above_fresh assms(3) by (auto simp: fresh_item_def)
  ultimately show ?thesis using assms(2,3) by (simp add: may_hold_def fresh_item_def)
qed

lemma container_asked_wf:
  assumes "wf_heap T h" "container_asked h x"
  shows "\<exists>h'. container_exec T x h = Some h' \<and> wf_heap T h'"
proof (cases "container_allowed h x")
  case True
  with assms(1) show ?thesis by (rule container_exec_wf)
next
  case False
  have f: "forest h" using assms(1) by (simp add: wf_heap_def)
  obtain c i y where x: "x = Op_replace c i y"
    using False assms(2) admitted_may_hold [OF f] by (cases x) auto
  then have "itemlist (h c) = []"
    using False assms(2) fresh_may_hold [OF f] by (auto simp: fresh_item_def)
  with x assms(1) show ?thesis by (simp add: replaceThing_def)
qed

lemma asked_run_wf: "asked_run T h h' \<Longrightarrow> wf_heap T h \<Longrightarrow> wf_heap T h'"
  by (induction rule: asked_run.induct) (auto dest: container_asked_wf)

text \<open>
  C8. Containers stay sound when the answers are heeded. Start from containers with exact
  weights, none inside itself, and put things in (at the front, at the back, at an index),
  take them out, change them and replace them by new ones, in any order, as long as an item
  put into a container lies in no other and \<open>queryAdd\<close> has admitted it. Then the weight every
  container reports for its contents is exact (modulo 2^32), no container is inside itself,
  and no further operation asked for in this way fails to end.
\<close>

theorem asked_containers_stay_sound:
  assumes "wf_heap T start" "asked_run T start h"
  shows "{c. is_container h c \<and> totalWeight (h c) \<noteq> contents_weight T h c} = {}
    \<and> {c. Container_Heap.above h c c} = {}
    \<and> {x. container_asked h x \<and> container_exec T x h = None} = {}"
proof -
  have wf: "wf_heap T h" using asked_run_wf [OF assms(2,1)] .
  then have "\<not> Container_Heap.above h c c" for c using not_above_self forest_rooted by (auto simp: wf_heap_def)
  moreover have "container_exec T x h \<noteq> None" if "container_asked h x" for x
    using container_asked_wf [OF wf that] by auto
  ultimately show ?thesis using wf by (auto simp: wf_heap_def weights_ok_def)
qed

lemma asked_containers_stay_sound_witness:
  "\<exists>h. asked_run (\<lambda>i. brick) apart h \<and> itemlist (h 1) = [2] \<and> totalWeight (h 1) = contents_weight (\<lambda>i. brick) h 1
    \<and> \<not> Container_Heap.above h 1 1"
proof -
  have wf: "wf_heap (\<lambda>i. brick) apart" by (rule wf_heap_apart) (simp add: apart_def)
  have "hasBitSet FLAG_CHILDISOWNER 0 = False" by (simp add: hasBitSet_def FLAG_CHILDISOWNER_def)
  moreover have "detached apart 2" by (simp add: detached_def getParentContainer_def apart_def)
  ultimately have asked: "admitted apart 1 2"
    using apart_admits apart_forest(2) unfolding admitted_def by blast
  then have hold: "may_hold apart 1 2" "detached apart 2"
    using admitted_may_hold [OF apart_forest(1)] by blast+
  from internalAddThing_wf [OF wf this] obtain h where
    h: "internalAddThing (\<lambda>i. brick) 1 (Some 2) apart = Some h" "same_shape (put (2 # itemlist (apart 1)) 2 1 apart) h"
    by blast
  have run: "asked_run (\<lambda>i. brick) apart h"
    using asked_run.op [OF asked_run.start, of apart "Op_internalAdd 1 2"] asked h(1) by simp
  have "itemlist (h 1) = [2]" "is_container h 1"
    using is_container_same [OF h(2)] same_shape_fields(4) [OF h(2), of 1]
    by (simp_all add: put_def) (simp_all add: apart_def is_container_def)
  with run asked_containers_stay_sound [OF wf run] show ?thesis by blast
qed

end
