(* ===== verification/Item_Moves_Safety.thy ===== *)
theory Item_Moves_Safety
  imports Item_Moves Container_Safety
begin

text \<open>
  Moving items between containers keeps the containers a forest with exact weights and
  neither makes nor loses an item: for every type, the number of pieces lying in containers
  is the same before and after, whatever is split, joined or refused.
\<close>

section \<open>How many pieces there are\<close>

definition contained :: "heap \<Rightarrow> nat \<Rightarrow> bool" where
  "contained h x \<longleftrightarrow> \<not> detached h x"

definition pieces_of :: "u16 \<Rightarrow> item \<Rightarrow> nat" where
  "pieces_of i it = (if it_id it = i then unat (it_count it) else 0)"

definition stock :: "heap \<Rightarrow> u16 \<Rightarrow> nat" where
  "stock h i = (\<Sum>x | contained h x. pieces_of i (th_item (h x)))"

text \<open>Heaps that differ in weights and display only.\<close>

definition same_links :: "heap \<Rightarrow> heap \<Rightarrow> bool" where
  "same_links h h' \<longleftrightarrow> (\<forall>a. th_kind (h' a) = th_kind (h a) \<and> th_parent (h' a) = th_parent (h a)
     \<and> th_item (h' a) = th_item (h a) \<and> itemlist (h' a) = itemlist (h a) \<and> maxSize (h' a) = maxSize (h a)
     \<and> c_pagination (h' a) = c_pagination (h a))"

lemma same_links_refl [simp]: "same_links h h"
  by (simp add: same_links_def)

lemma same_links_trans: "same_links h h' \<Longrightarrow> same_links h' h'' \<Longrightarrow> same_links h h''"
  by (simp add: same_links_def)

lemma same_shape_pagination:
  assumes "same_shape h h'"
  shows "c_pagination (h' a) = c_pagination (h a)"
proof -
  have "h' a = (h a)\<lparr>totalWeight := totalWeight (h' a)\<rparr>" using assms by (simp only: same_shape_def)
  from arg_cong [OF this, of c_pagination] show ?thesis by simp
qed

lemma same_shape_links: "same_shape h h' \<Longrightarrow> same_links h h'"
  by (simp add: same_links_def same_shape_fields same_shape_pagination)

lemma same_links_clear: "same_links h (clearLootHighlight T c h)"
  by (simp add: same_links_def clearLootHighlight_def)

lemma same_links_updates:
  "same_links h h' \<Longrightarrow> same_links (setParent p x h) (setParent p x h')"
  "same_links h h' \<Longrightarrow> same_links (set_itemlist xs c h) (set_itemlist xs c h')"
  "same_links h h' \<Longrightarrow> same_links (set_item it x h) (set_item it x h')"
  by (simp_all add: same_links_def heap_updates)

lemma same_links_reads:
  assumes "same_links h h'"
  shows "is_container h' = is_container h" "is_item h' = is_item h" "detached h' = detached h" "contained h' = contained h"
proof -
  have "getParentContainer h' x = getParentContainer h x" for x
    using assms by (simp add: same_links_def getParentContainer_def is_container_def split: option.split)
  then show "detached h' = detached h" "contained h' = contained h"
    by (simp_all add: fun_eq_iff detached_def contained_def)
qed (use assms in \<open>simp_all add: same_links_def fun_eq_iff is_container_def is_item_def\<close>)

lemma stock_same_links: "same_links h h' \<Longrightarrow> stock h' = stock h"
  by (simp add: fun_eq_iff stock_def same_links_reads) (simp add: same_links_def)

lemma contained_in:
  assumes "forest h"
  shows "contained h x \<longleftrightarrow> (\<exists>c. is_container h c \<and> x \<in> set (itemlist (h c)))"
  using forest_contents [OF assms] getParentContainer_Some [of h x]
  by (auto simp: contained_def detached_def)

lemma finite_contained:
  assumes "forest h" "finite {a. is_container h a}"
  shows "finite {x. contained h x}"
proof -
  have "{x. contained h x} = (\<Union>c\<in>{a. is_container h a}. set (itemlist (h c)))"
    using contained_in [OF assms(1)] by auto
  then show ?thesis using assms(2) by simp
qed

lemma contained_updates [simp]:
  "contained (set_item it x h) y = contained h y"
  "contained (set_itemlist xs c h) y = contained h y"
  "contained (setParent p x h) y =
     (if y = x then (case p of None \<Rightarrow> False | Some c \<Rightarrow> is_container h c) else contained h y)"
  by (auto simp: contained_def detached_def getParentContainer_def split: option.split)

lemma th_item_updates [simp]:
  "th_item (setParent p x h y) = th_item (h y)" "th_item (set_itemlist xs c h y) = th_item (h y)"
  "th_item (set_item it x h y) = (if y = x then it else th_item (h y))"
  by (simp_all add: heap_updates)

lemma stock_set_item:
  assumes "forest h" "finite {a. is_container h a}" "contained h x"
  shows "stock (set_item it x h) i + pieces_of i (th_item (h x)) = stock h i + pieces_of i it"
proof -
  let ?S = "{y. contained h y}"
  have "(\<Sum>y\<in>?S - {x}. pieces_of i (th_item (set_item it x h y))) = (\<Sum>y\<in>?S - {x}. pieces_of i (th_item (h y)))"
    by (rule sum.cong) auto
  then show ?thesis
    using sum.remove [OF finite_contained [OF assms(1,2)], of x "\<lambda>y. pieces_of i (th_item (h y))"]
      sum.remove [OF finite_contained [OF assms(1,2)], of x "\<lambda>y. pieces_of i (th_item (set_item it x h y))"] assms(3)
    by (simp add: stock_def)
qed

lemma stock_take_out:
  assumes "forest h" "finite {a. is_container h a}" "contained h x"
  shows "stock (take_out xs x c h) i + pieces_of i (th_item (h x)) = stock h i"
proof -
  have "{y. contained (take_out xs x c h) y} = {y. contained h y} - {x}" by (auto simp: take_out_def)
  then show ?thesis
    using sum.remove [OF finite_contained [OF assms(1,2)], of x "\<lambda>y. pieces_of i (th_item (h y))"] assms(3)
    by (simp add: stock_def take_out_def)
qed

lemma stock_put:
  assumes "forest h" "finite {a. is_container h a}" "detached h x" "is_container h c"
  shows "stock (put xs x c h) i = stock h i + pieces_of i (th_item (h x))"
proof -
  have "{y. contained (put xs x c h) y} = insert x {y. contained h y}" using assms(4) by (auto simp: put_def)
  moreover have "x \<notin> {y. contained h y}" using assms(3) by (simp add: contained_def)
  ultimately show ?thesis
    using finite_contained [OF assms(1,2)] by (simp add: stock_def put_def)
qed

section \<open>What the operations do\<close>

lemma updateThing_links:
  assumes "wf_heap T h" "is_container h c" "x \<in> set (itemlist (h c))"
  obtains h' where "updateThing T c x i n h = Some h'" "wf_heap T h'"
    "same_links (set_item (setSubType T (ucast n) (setID T i (th_item (h x)))) x h) h'"
proof -
  have f: "forest h" using assms(1) by (simp add: wf_heap_def)
  have "is_item h x" using f assms(2,3) forest_contents [OF f assms(2)] by (auto simp: forest_def)
  moreover have "getThingIndex h c x \<noteq> -1" using assms(3) by (simp add: getThingIndex_absent)
  moreover obtain h' where
    "updateItemWeight (- thing_weight T h x + thing_weight T
        (set_item (setSubType T (ucast n) (setID T i (th_item (h x)))) x h) x) c
      (set_item (setSubType T (ucast n) (setID T i (th_item (h x)))) x h) = Some h'" "wf_heap T h'"
    "same_shape (set_item (setSubType T (ucast n) (setID T i (th_item (h x)))) x h) h'"
    by (rule set_item_wf [OF assms])
  ultimately show ?thesis using that by (simp add: updateThing_def Let_def same_shape_links)
qed

lemma removeThing_part:
  assumes "wf_heap T h" "is_container h c" "x \<in> set (itemlist (h c))"
    and "ty_stackable (T (it_id (th_item (h x))))" "n \<noteq> ucast (it_count (th_item (h x)))"
  obtains h' where "removeThing T c x n h = Some h'" "wf_heap T h'"
    "same_links (set_item (setItemCount (ucast (max0 (ucast (it_count (th_item (h x))) - n))) (th_item (h x))) x h) h'"
proof -
  have f: "forest h" using assms(1) by (simp add: wf_heap_def)
  have "is_item h x" using f assms(2,3) forest_contents [OF f assms(2)] by (auto simp: forest_def)
  moreover have "getThingIndex h c x \<noteq> -1" using assms(3) by (simp add: getThingIndex_absent)
  moreover obtain h' where
    "updateItemWeight (- thing_weight T h x + thing_weight T
        (set_item (setItemCount (ucast (max0 (ucast (it_count (th_item (h x))) - n))) (th_item (h x))) x h) x) c
      (set_item (setItemCount (ucast (max0 (ucast (it_count (th_item (h x))) - n))) (th_item (h x))) x h) = Some h'"
    "wf_heap T h'"
    "same_shape (set_item (setItemCount (ucast (max0 (ucast (it_count (th_item (h x))) - n))) (th_item (h x))) x h) h'"
    by (rule set_item_wf [OF assms(1-3)])
  ultimately show ?thesis using that assms(4,5) by (simp add: removeThing_def Let_def same_shape_links)
qed

lemma removeThing_whole:
  assumes "wf_heap T h" "is_container h c" "x \<in> set (itemlist (h c))"
    and "\<not> (ty_stackable (T (it_id (th_item (h x)))) \<and> n \<noteq> ucast (it_count (th_item (h x))))"
  obtains h' xs where "removeThing T c x n h = Some h'" "wf_heap T h'" "same_links (take_out xs x c h) h'"
    "distinct xs" "set xs = set (itemlist (h c)) - {x}"
proof -
  have f: "forest h" using assms(1) by (simp add: wf_heap_def)
  have item: "is_item h x" using f assms(2,3) forest_contents [OF f assms(2)] by (auto simp: forest_def)
  have index: "getThingIndex h c x \<noteq> -1" using assms(3) by (simp add: getThingIndex_absent)
  obtain h' where h': "updateItemWeight (- thing_weight T h x) c h = Some h'" "same_shape h h'"
    "\<And>xs. distinct xs \<Longrightarrow> set xs = set (itemlist (h c)) - {x} \<Longrightarrow> wf_heap T (take_out xs x c h')"
    using wf_removed [OF assms(1-3)] by blast
  let ?xs = "remove_nth (nat (getThingIndex h c x)) (itemlist (h c))"
  have xs: "distinct ?xs" "set ?xs = set (itemlist (h c)) - {x}"
    using remove_index [of h c x] forest_distinct [OF f assms(2)] assms(3) by blast+
  have "removeThing T c x n h = Some (clearLootHighlight T c (take_out ?xs x c h'))"
    unfolding removeThing_def Let_def
    by (simp only: item index assms(4) h'(1) simp_thms if_True if_False option.map)
      (simp add: take_out_def same_shape_fields(4) [OF h'(2)])
  moreover have "wf_heap T (clearLootHighlight T c (take_out ?xs x c h'))" using h'(3) [OF xs] by simp
  moreover have "same_links (take_out ?xs x c h) (clearLootHighlight T c (take_out ?xs x c h'))"
    by (rule same_links_trans [OF _ same_links_clear])
      (simp add: take_out_def same_links_updates same_shape_links [OF h'(2)])
  ultimately show ?thesis using xs by (rule that)
qed

lemma addThing_links:
  assumes "wf_heap T h" "may_hold h c x" "detached h x" "index < sint (maxSize (h c))"
  obtains h' where "addThing T c index (Some x) h = Some h'" "wf_heap T h'"
    "same_links (put (x # itemlist (h c)) x c h) h'"
proof -
  obtain h' where h': "internalAddThing T c (Some x) h = Some h'" "wf_heap T h'"
    "same_shape (put (x # itemlist (h c)) x c h) h'"
    by (rule internalAddThing_wf [OF assms(1-3)])
  then have "addThing T c index (Some x) h = Some h'" using assms(4) by (simp add: addThing_internal)
  then show ?thesis using h'(2) same_shape_links [OF h'(3)] by (rule that)
qed

section \<open>Where the item goes\<close>

text \<open>
  A world of plain containers, not overfull and without pages, in which stacks are plain
  items within their stack size.
\<close>

definition plain_stack :: "items \<Rightarrow> thing \<Rightarrow> bool" where
  "plain_stack T t \<longleftrightarrow> th_kind t = K_Item \<and> \<not> is_fluid T (th_item t)
     \<and> it_count (th_item t) \<le> getStackSize T (th_item t)"

definition plain_world :: "items \<Rightarrow> heap \<Rightarrow> bool" where
  "plain_world T h \<longleftrightarrow> wf_heap T h \<and> finite {a. is_container h a} \<and> (\<forall>a. th_kind (h a) \<noteq> K_CylinderItem)
     \<and> (\<forall>a. ty_stackable (T (it_id (th_item (h a)))) \<longrightarrow> plain_stack T (h a))
     \<and> (\<forall>c. is_container h c \<longrightarrow> \<not> c_pagination (h c) \<and> 0 < sint (maxSize (h c))
            \<and> int (length (itemlist (h c))) \<le> sint (maxSize (h c)))"

lemma plain_worldD:
  assumes "plain_world T h"
  shows "wf_heap T h" "forest h" "finite {a. is_container h a}" "th_kind (h a) \<noteq> K_CylinderItem"
    "ty_stackable (T (it_id (th_item (h a)))) \<Longrightarrow> plain_stack T (h a)"
    "is_container h c \<Longrightarrow> \<not> c_pagination (h c)" "is_container h c \<Longrightarrow> 0 < sint (maxSize (h c))"
    "is_container h c \<Longrightarrow> int (length (itemlist (h c))) \<le> sint (maxSize (h c))"
  using assms by (auto simp: plain_world_def wf_heap_def)

lemma find_stack_in:
  "find_stack sr h item xs n = Some (Some (x, k)) \<Longrightarrow> x \<in> set xs \<and> k < n + length xs"
proof (induction xs arbitrary: n)
  case (Cons y ys)
  show ?case
  proof (cases "if y \<noteq> item then same_stack h y item else Some False")
    case None
    then show ?thesis using Cons.prems by simp
  next
    case (Some same)
    then show ?thesis
      using Cons.prems Cons.IH [of "n + 1"] by (cases "same \<and> stack_not_full sr h y") auto
  qed
qed simp

definition joinable :: "heap \<Rightarrow> nat \<Rightarrow> nat option \<Rightarrow> bool" where
  "joinable h c d \<longleftrightarrow> (case d of None \<Rightarrow> True | Some x \<Rightarrow> x \<in> set (itemlist (h c)))"

lemma auto_stack_result:
  assumes "plain_world T h" "is_container h c" "auto_stack sr h c i item d fl = Some (c', i', d')"
    and "joinable h c d" "i < sint (maxSize (h c))"
  shows "c' = c \<and> joinable h c d' \<and> i' < sint (maxSize (h c))"
proof -
  have "int n < sint (maxSize (h c)) \<and> x \<in> set (itemlist (h c))"
    if "find_stack sr h item (itemlist (h c)) 0 = Some (Some (x, n))" for x n
    using find_stack_in [OF that] plain_worldD(8) [OF assms(1,2)] by linarith
  with assms(3-5) show ?thesis
    unfolding auto_stack_def
    by (auto simp: joinable_def split: if_splits option.splits bool.splits)
qed

lemma item_in_list:
  assumes "forest h" "is_container h c" "x \<in> set (itemlist (h c))"
  shows "is_item h x" "th_parent (h x) = Some c" "contained h x"
proof -
  show "th_parent (h x) = Some c" using forest_contents [OF assms(1,2)] assms(3) by simp
  then show "is_item h x" using assms(1,2) by (auto simp: forest_def)
  show "contained h x" using contained_in [OF assms(1)] assms(2,3) by blast
qed

lemma cylinder_in_list:
  assumes "plain_world T h" "is_container h c" "x \<in> set (itemlist (h c))" "is_cylinder h x"
  shows "is_container h x"
  using assms(4) item_in_list(1) [OF plain_worldD(2) [OF assms(1)] assms(2,3)] plain_worldD(4) [OF assms(1), of x]
  by (auto simp: is_item_def is_cylinder_def is_container_def)

lemma getItemByIndex_in: "getItemByIndex h c n = Some x \<Longrightarrow> x \<in> set (itemlist (h c))"
  by (auto simp: getItemByIndex_def split: if_splits)

lemma queryDestination_result:
  assumes pw: "plain_world T h" and c: "is_container h c" and item: "is_item h item" and d: "joinable h c d"
    and q: "queryDestination sr h c i item d fl = Some (c', i', d')"
  shows "is_container h c' \<and> joinable h c' d' \<and> (c' \<noteq> c \<longrightarrow> d' = None \<and> i' = -1)
    \<and> (c_unlocked (h c) \<longrightarrow> i' < sint (maxSize (h c')))"
proof -
  have size: "- 1 < sint (maxSize (h c))" if "is_container h c" for c
    using plain_worldD(7) [OF pw that] by simp
  consider (locked) "\<not> c_unlocked (h c)" | (up) "c_unlocked (h c)" "i = 254" | (rest) "c_unlocked (h c)" "i \<noteq> 254"
    by blast
  then show ?thesis
  proof cases
    case locked
    then show ?thesis using q c by (simp add: queryDestination_def joinable_def)
  next
    case up
    then show ?thesis
      using q c size getParentContainer_Some [of h c]
      by (auto simp: queryDestination_def joinable_def INDEX_WHEREEVER_def split: option.splits)
  next
    case rest
    define i1 d1 where "i1 = (if i = 255 \<or> i \<ge> sint (maxSize (h c)) then -1 else i)"
      and "d1 = (if i = 255 \<or> i \<ge> sint (maxSize (h c)) then None else d)"
    define d2 where "d2 = (if i1 \<noteq> -1 \<and> 0 \<le> i1 \<and> getItemByIndex h c (nat i1) \<noteq> None
      then getItemByIndex h c (nat i1) else d1)"
    have i1: "i1 < sint (maxSize (h c))" using size [OF c] by (simp add: i1_def)
    have d2: "joinable h c d2" using d getItemByIndex_in [of h c "nat i1"]
      by (auto simp: d2_def d1_def joinable_def split: option.splits)
    have q': "(case (if i1 \<noteq> -1 then d2 else None) of
          Some x \<Rightarrow> if is_cylinder h x then Some (x, -1, None) else auto_stack sr h c i1 item d2 fl
        | None \<Rightarrow> auto_stack sr h c i1 item d2 fl) = Some (c', i', d')"
      using q rest item plain_worldD(6) [OF pw c]
      by (cases d; cases "getItemByIndex h c (nat i)")
        (simp_all add: queryDestination_def Let_def INDEX_WHEREEVER_def i1_def d1_def d2_def split: if_splits)
    show ?thesis
    proof (cases "\<exists>x. i1 \<noteq> -1 \<and> d2 = Some x \<and> is_cylinder h x")
      case True
      then obtain x where x: "i1 \<noteq> -1" "d2 = Some x" "is_cylinder h x" by blast
      then have "is_container h x" using cylinder_in_list [OF pw c] d2 by (simp add: joinable_def)
      then show ?thesis using q' x size [of x] by (auto simp: joinable_def)
    next
      case False
      then have "auto_stack sr h c i1 item d2 fl = Some (c', i', d')"
        using q' by (auto split: option.splits if_splits)
      then show ?thesis using auto_stack_result [OF pw c _ d2 i1] c by blast
    qed
  qed
qed

lemma settle_result:
  assumes pw: "plain_world T h" and item: "is_item h item"
  shows "is_container h c \<Longrightarrow> joinable h c d \<Longrightarrow> (n = 0 \<Longrightarrow> i = -1) \<Longrightarrow>
    \<exists>to i' d' fl'. settle sr h item n c i d fl = Some (to, i', d', fl') \<and> is_container h to \<and> joinable h to d'
      \<and> fl' \<in> {fl, 0} \<and> (c_unlocked (h to) \<longrightarrow> i' < sint (maxSize (h to)))"
proof (induction n arbitrary: c i d fl)
  case 0
  then show ?case using plain_worldD(7) [OF pw, of c] by (auto intro: less_trans)
next
  case (Suc n)
  obtain c' i' d' where q: "queryDestination sr h c i item d fl = Some (c', i', d')"
    using queryDestination_answers [OF plain_worldD(2,3) [OF pw]] by (metis not_None_eq prod_cases3)
  note r = queryDestination_result [OF pw Suc.prems(1) item Suc.prems(2) q]
  show ?case
  proof (cases "c' = c")
    case True
    then show ?thesis using q r by auto
  next
    case False
    then have "is_container h c'" "joinable h c' d'" "i' = -1" using r by (auto simp: joinable_def)
    with Suc.IH [of c' d' i' 0] False q show ?thesis by auto
  qed
qed

section \<open>Taking the pieces away\<close>

lemma above_mono:
  assumes "above h' a b" "\<And>a p. th_parent (h' a) = Some p \<Longrightarrow> th_parent (h a) = Some p"
  shows "above h a b"
  using assms(1) by (induction rule: above.induct) (auto dest: assms(2) intro: above.intros)

lemma above_last: "above h a b \<Longrightarrow> \<exists>x. th_parent (h x) = Some b"
  by (induction rule: above.induct) auto

text \<open>\<open>h'\<close> is \<open>h\<close> with nothing new: what may be put somewhere in \<open>h\<close> may still be.\<close>

definition no_new_links :: "heap \<Rightarrow> heap \<Rightarrow> bool" where
  "no_new_links h h' \<longleftrightarrow> (\<forall>a. th_kind (h' a) = th_kind (h a) \<and> maxSize (h' a) = maxSize (h a))
     \<and> (\<forall>a p. th_parent (h' a) = Some p \<longrightarrow> th_parent (h a) = Some p)"

lemma no_new_links_trans: "no_new_links h h' \<Longrightarrow> no_new_links h' h'' \<Longrightarrow> no_new_links h h''"
  by (simp add: no_new_links_def)

lemma no_new_links_same: "same_links h h' \<Longrightarrow> no_new_links h h'"
  by (simp add: no_new_links_def same_links_def)

lemma no_new_links_updates:
  "no_new_links h (set_item it x h)" "no_new_links h (take_out xs x c h)"
  by (simp_all add: no_new_links_def take_out_def heap_updates)

lemma no_new_links_container [simp]: "no_new_links h h' \<Longrightarrow> is_container h' = is_container h"
  by (simp add: no_new_links_def is_container_def fun_eq_iff)

lemma no_new_links_hold: "no_new_links h h' \<Longrightarrow> may_hold h c x \<Longrightarrow> may_hold h' c x"
  using above_mono [of h' c x h]
  by (auto simp: may_hold_def no_new_links_def is_container_def is_item_def)

lemma unat_ucast8: "unat (ucast (c :: u8) :: u32) = unat c"
  using unsigned_less [of c, where ?'a = nat] by (simp add: unsigned_ucast_eq take_bit_nat_eq_self)

lemma int_unat32: "int (unat (x :: u32)) = uint x"
  by simp

lemma sint_small:
  assumes "unat (x :: u32) < 2 ^ 31"
  shows "sint x = int (unat x)"
proof -
  have "int (unat x) < int (2 ^ 31)" using assms by (simp only: of_nat_less_iff)
  then have "uint x < 2 ^ 31" by (simp only: int_unat32 of_nat_power of_nat_numeral)
  then have "signed_take_bit 31 (uint x) = uint x"
    by (intro signed_take_bit_int_eq_self) (auto intro: order_trans [OF _ uint_ge_0])
  then show ?thesis by (simp only: sint_uint int_unat32) simp
qed

lemma rest_count:
  assumes "n \<le> ucast (c :: u8)"
  shows "unat (ucast (max0 (ucast c - (n :: u32))) :: u8) + unat n = unat c"
proof -
  have nc: "unat n \<le> unat c" using assms unat_ucast8 [of c] by (simp add: word_le_nat_alt)
  have d: "unat (ucast c - n) = unat c - unat n" using assms unat_ucast8 [of c] by (simp add: unat_sub)
  have small: "unat c < 256" using unsigned_less [of c, where ?'a = nat] by simp
  have "sint (ucast c - n) \<ge> 0" using sint_small [of "ucast c - n"] d small by simp
  then have "max0 (ucast c - n) = ucast c - n" by (simp add: max0_def)
  moreover have "unat (ucast (ucast c - n) :: u8) = unat c - unat n"
    using d small by (simp add: unsigned_ucast_eq take_bit_nat_eq_self)
  ultimately show ?thesis using nc by simp
qed

text \<open>What a removal leaves: the pieces are gone from the stock, all else is in place.\<close>

definition removed_from :: "heap \<Rightarrow> nat \<Rightarrow> nat \<Rightarrow> heap \<Rightarrow> bool" where
  "removed_from h x n h' \<longleftrightarrow> no_new_links h h'
     \<and> (\<forall>i. stock h' i + (if it_id (th_item (h x)) = i then n else 0) = stock h i)
     \<and> (\<forall>a. a \<noteq> x \<longrightarrow> th_item (h' a) = th_item (h a) \<and> th_parent (h' a) = th_parent (h a))
     \<and> it_id (th_item (h' x)) = it_id (th_item (h x))
     \<and> (\<forall>c y. y \<noteq> x \<longrightarrow> y \<in> set (itemlist (h' c)) \<longleftrightarrow> y \<in> set (itemlist (h c)))"

lemma remove_some:
  assumes pw: "plain_world T h" and c: "is_container h c" and x: "x \<in> set (itemlist (h c))"
    and st: "ty_stackable (T (it_id (th_item (h x))))" and n: "n < ucast (it_count (th_item (h x)))"
  obtains h' where "removeThing T c x n h = Some h'" "wf_heap T h'" "removed_from h x (unat n) h'"
proof -
  let ?it = "th_item (h x)"
  let ?rest = "ucast (max0 (ucast (it_count ?it) - n)) :: u8"
  obtain h' where h': "removeThing T c x n h = Some h'" "wf_heap T h'" "same_links (set_item (setItemCount ?rest ?it) x h) h'"
    by (rule removeThing_part [OF plain_worldD(1) [OF pw] c x st]) (use n in auto)
  have sum: "unat ?rest + unat n = unat (it_count ?it)" using rest_count [of n "it_count ?it"] n by simp
  have "stock h' i + (if it_id ?it = i then unat n else 0) = stock h i" for i
    using stock_set_item [OF plain_worldD(2,3) [OF pw] item_in_list(3) [OF plain_worldD(2) [OF pw] c x],
        of "setItemCount ?rest ?it" i] stock_same_links [OF h'(3)] sum
    by (simp add: pieces_of_def setItemCount_def split: if_splits)
  moreover have "no_new_links h h'"
    by (rule no_new_links_trans [OF no_new_links_updates(1) no_new_links_same [OF h'(3)]])
  ultimately have "removed_from h x (unat n) h'"
    using h'(3) by (simp add: removed_from_def same_links_def setItemCount_def)
  with h'(1,2) show ?thesis by (rule that)
qed

lemma remove_all:
  assumes pw: "plain_world T h" and c: "is_container h c" and x: "x \<in> set (itemlist (h c))"
    and n: "\<not> (ty_stackable (T (it_id (th_item (h x)))) \<and> n \<noteq> ucast (it_count (th_item (h x))))"
  obtains h' where "removeThing T c x n h = Some h'" "wf_heap T h'"
    "removed_from h x (unat (it_count (th_item (h x)))) h'" "detached h' x" "th_item (h' x) = th_item (h x)"
proof -
  obtain h' xs where h': "removeThing T c x n h = Some h'" "wf_heap T h'" "same_links (take_out xs x c h) h'"
    "distinct xs" "set xs = set (itemlist (h c)) - {x}"
    by (rule removeThing_whole [OF plain_worldD(1) [OF pw] c x n])
  note f = plain_worldD(2) [OF pw]
  have "stock h' i + (if it_id (th_item (h x)) = i then unat (it_count (th_item (h x))) else 0) = stock h i" for i
    using stock_take_out [OF f plain_worldD(3) [OF pw] item_in_list(3) [OF f c x], of xs c i] stock_same_links [OF h'(3)]
    by (simp add: pieces_of_def split: if_splits)
  moreover have "no_new_links h h'"
    by (rule no_new_links_trans [OF no_new_links_updates(2) no_new_links_same [OF h'(3)]])
  ultimately have "removed_from h x (unat (it_count (th_item (h x)))) h'"
    using h'(3,5) by (auto simp: removed_from_def same_links_def take_out_def)
  moreover have "detached h' x"
    using h'(3) by (simp add: detached_def getParentContainer_def same_links_def take_out_def)
  moreover have "th_item (h' x) = th_item (h x)" using h'(3) by (simp add: same_links_def take_out_def)
  ultimately show ?thesis using h'(1,2) that by blast
qed

section \<open>Putting the pieces somewhere\<close>

lemma setID_keeps: "it_id (setID T i it) = i" "it_count (setID T i it) = it_count it"
  by (simp_all add: setID_def setDuration_def setDecaying_def Let_def)

lemma sum_count:
  assumes "unat (c :: u8) + unat (n :: u32) < 256"
  shows "unat (ucast (ucast (ucast c + n :: u32) :: u16) :: u8) = unat c + unat n"
proof -
  define y where "y = ucast c + n"
  have y: "unat y = unat c + unat n"
    using assms unat_ucast8 [of c] by (simp add: y_def unat_word_ariths)
  define z where "z = (ucast y :: u16)"
  have z: "unat z = unat y" using y assms by (simp add: z_def unsigned_ucast_eq take_bit_nat_eq_self)
  then have "unat (ucast z :: u8) = unat z" using y assms by (simp add: unsigned_ucast_eq take_bit_nat_eq_self)
  then show ?thesis using y z by (simp only: y_def z_def)
qed

lemma join_pieces:
  assumes wf: "wf_heap T h" and fin: "finite {a. is_container h a}" and c: "is_container h c"
    and d: "d \<in> set (itemlist (h c))"
    and st: "ty_stackable (T (it_id (th_item (h d))))" "\<not> is_fluid T (th_item (h d))"
    and room: "unat (it_count (th_item (h d))) + unat n < 256"
  obtains h' where "updateThing T c d (it_id (th_item (h d))) (ucast (it_count (th_item (h d))) + n) h = Some h'"
    "wf_heap T h'" "no_new_links h h'" "\<forall>a. th_parent (h' a) = th_parent (h a)" "\<forall>a. a \<noteq> d \<longrightarrow> th_item (h' a) = th_item (h a)"
    "\<forall>i. stock h' i = stock h i + (if it_id (th_item (h d)) = i then unat n else 0)"
proof -
  let ?it = "setSubType T (ucast (ucast (it_count (th_item (h d))) + n)) (setID T (it_id (th_item (h d))) (th_item (h d)))"
  obtain h' where h': "updateThing T c d (it_id (th_item (h d))) (ucast (it_count (th_item (h d))) + n) h = Some h'"
    "wf_heap T h'" "same_links (set_item ?it d h) h'"
    by (rule updateThing_links [OF wf c d])
  have f: "forest h" using wf by (simp add: wf_heap_def)
  have it: "it_id ?it = it_id (th_item (h d))" "unat (it_count ?it) = unat (it_count (th_item (h d))) + unat n"
    using st sum_count [OF room] by (simp_all add: setSubType_def is_fluid_def setID_keeps setItemCount_def)
  have "stock h' i = stock h i + (if it_id (th_item (h d)) = i then unat n else 0)" for i
    using stock_set_item [OF f fin item_in_list(3) [OF f c d], of ?it i] stock_same_links [OF h'(3)] it
    by (simp add: pieces_of_def split: if_splits)
  moreover have "no_new_links h h'"
    by (rule no_new_links_trans [OF no_new_links_updates(1) no_new_links_same [OF h'(3)]])
  moreover have "th_parent (h' a) = th_parent (h a)" for a using h'(3) by (simp add: same_links_def)
  moreover have "th_item (h' a) = th_item (h a)" if "a \<noteq> d" for a using h'(3) that by (simp add: same_links_def)
  ultimately show ?thesis using h'(1,2) that by blast
qed

text \<open>An address nothing refers to.\<close>

definition unused :: "heap \<Rightarrow> nat \<Rightarrow> bool" where
  "unused h a \<longleftrightarrow> th_parent (h a) = None \<and> \<not> is_container h a \<and> (\<forall>b. th_parent (h b) \<noteq> Some a)"

lemma unused_no_new_links: "no_new_links h h' \<Longrightarrow> unused h a \<Longrightarrow> unused h' a"
  by (cases "th_parent (h' a)") (auto simp: unused_def no_new_links_def is_container_def)

lemma clone_thing_wf:
  assumes wf: "wf_heap T h" and un: "unused h a" and item: "th_kind (h x) = K_Item"
  shows "wf_heap T (clone_thing T x n a h)" "stock (clone_thing T x n a h) = stock h"
proof -
  let ?h = "clone_thing T x n a h"
  have f: "forest h" using wf by (simp add: wf_heap_def)
  have cont: "is_container ?h k = is_container h k" for k
    using un item by (simp add: clone_thing_def is_container_def unused_def)
  have parent: "th_parent (?h k) = th_parent (h k)" for k using un by (simp add: clone_thing_def unused_def)
  have other: "k \<noteq> a \<Longrightarrow> ?h k = h k" for k by (simp add: clone_thing_def)
  have nota: "is_container h k \<Longrightarrow> k \<noteq> a" "a \<notin> set (itemlist (h k))" if "is_container h k" for k
    using un that forest_contents [OF f that, of a] by (auto simp: unused_def)
  have "forest ?h"
    unfolding forest_def
  proof (intro conjI allI impI)
    fix k y
    assume "is_container ?h k"
    then have k: "is_container h k" "?h k = h k" using cont other nota by auto
    show "distinct (itemlist (?h k))" using k forest_distinct [OF f] by simp
    show "y \<in> set (itemlist (?h k)) \<longleftrightarrow> th_parent (?h y) = Some k"
      using k forest_contents [OF f] parent by simp
  next
    fix k y
    assume "is_container ?h k \<and> th_parent (?h y) = Some k"
    then have "is_item h y" "y \<noteq> a" using f cont parent un by (auto simp: forest_def unused_def)
    then show "is_item ?h y" by (simp add: other is_item_def)
  next
    fix k show "rooted ?h k" using rooted_same [OF forest_rooted [OF f]] parent by blast
  qed
  moreover have "weights_ok T ?h"
    unfolding weights_ok_def
  proof (intro allI impI)
    fix k
    assume "is_container ?h k"
    then have k: "is_container h k" "?h k = h k" "a \<notin> set (itemlist (h k))" using cont other nota by auto
    have "thing_weight T ?h y = thing_weight T h y" if "y \<in> set (itemlist (h k))" for y
      using that k(3) other [of y] cont [of y] by (cases "y = a") (simp_all add: thing_weight_def)
    then have "contents_weight T ?h k = contents_weight T h k"
      using k(2) by (simp add: contents_weight_def cong: map_cong)
    then show "totalWeight (?h k) = contents_weight T ?h k" using k wf by (simp add: wf_heap_def weights_ok_def)
  qed
  ultimately show "wf_heap T ?h" by (simp add: wf_heap_def)
  have "contained ?h = contained h"
    using cont parent by (auto simp: fun_eq_iff contained_def detached_def getParentContainer_def split: option.splits)
  moreover have "a \<notin> {y. contained h y}"
    using un by (simp add: contained_def detached_def getParentContainer_def unused_def)
  then have "(\<Sum>y | contained h y. pieces_of i (th_item (?h y))) = (\<Sum>y | contained h y. pieces_of i (th_item (h y)))" for i
    by (intro sum.cong refl) (metis other)
  ultimately show "stock ?h = stock h" by (simp add: fun_eq_iff stock_def)
qed

lemma add_pieces:
  assumes "wf_heap T h" "finite {a. is_container h a}" "may_hold h c x" "detached h x" "i < sint (maxSize (h c))"
  obtains h' where "addThing T c i (Some x) h = Some h'" "wf_heap T h'"
    "\<forall>k. stock h' k = stock h k + pieces_of k (th_item (h x))"
proof -
  obtain h' where h': "addThing T c i (Some x) h = Some h'" "wf_heap T h'"
    "same_links (put (x # itemlist (h c)) x c h) h'"
    by (rule addThing_links [OF assms(1,3-5)])
  have "stock h' k = stock h k + pieces_of k (th_item (h x))" for k
    using stock_put [of h x c "x # itemlist (h c)" k] stock_same_links [OF h'(3)] assms
    by (simp add: wf_heap_def may_hold_def)
  with h'(1,2) show ?thesis using that by blast
qed

lemma clone_item_id: "it_id (clone_item T it) = it_id it"
  by (simp add: clone_item_def new_item_def setDefaultDuration_def setDuration_def setDecaying_def setItemCount_def Let_def)

lemma unat_ucast_small: "unat (x :: u32) < 256 \<Longrightarrow> unat (ucast x :: u8) = unat x"
  by (simp add: unsigned_ucast_eq take_bit_nat_eq_self)

lemma add_clone:
  assumes wf: "wf_heap T h" and fin: "finite {a. is_container h a}" and item: "th_kind (h x) = K_Item"
    and to: "is_container h to" "i < sint (maxSize (h to))" and un: "unused h a" and k: "unat (k :: u32) < 256"
  obtains h' where "addThing T to i (Some a) (clone_thing T x (ucast k) a h) = Some h'" "wf_heap T h'"
    "\<forall>j. stock h' j = stock h j + (if it_id (th_item (h x)) = j then unat k else 0)"
proof -
  let ?h = "clone_thing T x (ucast k) a h"
  have parent: "th_parent (?h b) = th_parent (h b)" for b using un by (simp add: clone_thing_def unused_def)
  have nota: "to \<noteq> a" using un to(1) by (auto simp: unused_def)
  have cont: "is_container ?h b = is_container h b" for b
    using un item by (simp add: clone_thing_def is_container_def unused_def)
  have "\<not> above ?h to a" using above_last [of ?h to a] un parent by (auto simp: unused_def)
  then have hold: "may_hold ?h to a"
    using nota to(1) cont item by (simp add: may_hold_def is_item_def clone_thing_def)
  have det: "detached ?h a" by (simp add: detached_def getParentContainer_def clone_thing_def)
  have fin': "finite {b. is_container ?h b}" using fin by (simp add: cont)
  have index: "i < sint (maxSize (?h to))" using to(2) nota by (simp add: clone_thing_def)
  obtain h' where h': "addThing T to i (Some a) ?h = Some h'" "wf_heap T h'"
    "\<forall>j. stock h' j = stock ?h j + pieces_of j (th_item (?h a))"
    by (rule add_pieces [OF clone_thing_wf(1) [OF wf un item] fin' hold det index])
  have "pieces_of j (th_item (?h a)) = (if it_id (th_item (h x)) = j then unat k else 0)" for j
    using unat_ucast_small [OF k] by (simp add: pieces_of_def clone_thing_def setItemCount_def clone_item_id)
  then have "stock h' j = stock h j + (if it_id (th_item (h x)) = j then unat k else 0)" for j
    using h'(3) clone_thing_wf(2) [OF wf un item] by simp
  with h'(1,2) show ?thesis using that by blast
qed

lemma same_stack_id: "same_stack h a b = Some True \<Longrightarrow> it_id (th_item (h a)) = it_id (th_item (h b))"
  by (auto simp: same_stack_def equals_owned_def split: option.splits)

text \<open>The pieces that join the item at the destination.\<close>

lemma join_step:
  assumes pw: "plain_world (sr_items sr) h" and rem: "removed_from h item (unat m) h1" and wf: "wf_heap (sr_items sr) h1"
    and st: "ty_stackable (sr_items sr (it_id (th_item (h item))))"
    and to: "is_container h to" "joinable h to d" "d \<noteq> Some item"
  obtains n h2 where "joined_count sr h1 item d m = Some n" "n \<le> m"
    "(case d of None \<Rightarrow> Some h1 | Some x \<Rightarrow>
        if same_stack h1 item x = Some True
        then updateThing (sr_items sr) to x (it_id (th_item (h1 x))) (ucast (it_count (th_item (h1 x))) + n) h1
        else Some h1) = Some h2"
    "wf_heap (sr_items sr) h2" "no_new_links h1 h2" "th_item (h2 item) = th_item (h1 item)"
    "\<forall>i. stock h2 i = stock h1 i + (if it_id (th_item (h item)) = i then unat n else 0)"
proof -
  have links: "no_new_links h h1" using rem by (simp add: removed_from_def)
  have f1: "forest h1" and fin1: "finite {a. is_container h1 a}" and c1: "is_container h1 to"
    using wf plain_worldD(3) [OF pw] to(1) links by (simp_all add: wf_heap_def)
  show ?thesis
  proof (cases d)
    case None
    show ?thesis by (rule that [of 0 h1]) (use None wf in \<open>simp_all add: joined_count_def no_new_links_def\<close>)
  next
    case (Some x)
    then have x: "x \<noteq> item" "x \<in> set (itemlist (h1 to))" "th_item (h1 x) = th_item (h x)"
      using to rem by (auto simp: joinable_def removed_from_def)
    obtain same where same: "same_stack h1 item x = Some same" by (rule same_stack_answers [OF f1 fin1])
    show ?thesis
    proof (cases same)
      case False
      show ?thesis
        by (rule that [of 0 h1]) (use Some same False wf in \<open>simp_all add: joined_count_def no_new_links_def\<close>)
    next
      case True
      let ?n = "min (ucast (getStackSize (sr_items sr) (th_item (h1 x))) - ucast (it_count (th_item (h1 x)))) m"
      have id: "it_id (th_item (h x)) = it_id (th_item (h item))"
        using same_stack_id [of h1 item x] same True rem x(3) by (simp add: removed_from_def)
      then have ps: "plain_stack (sr_items sr) (h x)" using plain_worldD(5) [OF pw, of x] st by simp
      have le: "unat (it_count (th_item (h x))) \<le> unat (getStackSize (sr_items sr) (th_item (h x)))"
        using ps by (simp add: plain_stack_def word_le_nat_alt)
      have "unat (ucast (getStackSize (sr_items sr) (th_item (h x))) - ucast (it_count (th_item (h x))) :: u32)
          = unat (getStackSize (sr_items sr) (th_item (h x))) - unat (it_count (th_item (h x)))"
        using le by (simp add: unat_sub unat_ucast8 word_le_nat_alt)
      moreover have "unat ?n \<le> unat (ucast (getStackSize (sr_items sr) (th_item (h x))) - ucast (it_count (th_item (h x))) :: u32)"
        using x(3) by (simp add: min_def word_le_nat_alt)
      ultimately have room: "unat (it_count (th_item (h1 x))) + unat ?n < 256"
        using le x(3) unsigned_less [of "getStackSize (sr_items sr) (th_item (h x))", where ?'a = nat] by simp
      have st1: "ty_stackable (sr_items sr (it_id (th_item (h1 x))))" "\<not> is_fluid (sr_items sr) (th_item (h1 x))"
        using st id ps x(3) by (simp_all add: plain_stack_def)
      obtain h2 where "updateThing (sr_items sr) to x (it_id (th_item (h1 x))) (ucast (it_count (th_item (h1 x))) + ?n) h1 = Some h2"
        "wf_heap (sr_items sr) h2" "no_new_links h1 h2" "\<forall>a. a \<noteq> x \<longrightarrow> th_item (h2 a) = th_item (h1 a)"
        "\<forall>i. stock h2 i = stock h1 i + (if it_id (th_item (h1 x)) = i then unat ?n else 0)"
        using join_pieces [OF wf fin1 c1 x(2) st1 room] by metis
      then show ?thesis
        by (intro that [of ?n h2]) (use Some same True x id in \<open>simp_all add: joined_count_def\<close>)
    qed
  qed
qed

lemma put_moved_stack:
  assumes pw: "plain_world (sr_items sr) h" and rem: "removed_from h item (unat m) h1" and wf: "wf_heap (sr_items sr) h1"
    and st: "ty_stackable (sr_items sr (it_id (th_item (h item))))" and m: "unat m < 256"
    and to: "is_container h to" "joinable h to d" "d \<noteq> Some item" "i < sint (maxSize (h to))"
    and un: "unused h fresh"
  obtains h2 mv where "put_moved sr h1 to i item d m fresh = Some (h2, mv)" "wf_heap (sr_items sr) h2" "stock h2 = stock h"
proof -
  have links: "no_new_links h h1" and id: "it_id (th_item (h1 item)) = it_id (th_item (h item))"
    using rem by (simp_all add: removed_from_def)
  have kind: "th_kind (h1 item) = K_Item"
    using plain_worldD(5) [OF pw st] links by (simp add: plain_stack_def no_new_links_def)
  obtain n h2 where n: "joined_count sr h1 item d m = Some n" "n \<le> m"
    and h2: "(case d of None \<Rightarrow> Some h1 | Some x \<Rightarrow>
        if same_stack h1 item x = Some True
        then updateThing (sr_items sr) to x (it_id (th_item (h1 x))) (ucast (it_count (th_item (h1 x))) + n) h1
        else Some h1) = Some h2"
    "wf_heap (sr_items sr) h2" "no_new_links h1 h2" "th_item (h2 item) = th_item (h1 item)"
    "\<forall>i. stock h2 i = stock h1 i + (if it_id (th_item (h item)) = i then unat n else 0)"
    by (rule join_step [OF pw rem wf st to(1-3)])
  have all: "stock h2 j + (if it_id (th_item (h item)) = j then unat (m - n) else 0) = stock h j" for j
  proof -
    have "unat (m - n) = unat m - unat n" "unat n \<le> unat m" using n(2) by (simp_all add: unat_sub word_le_nat_alt)
    moreover have "stock h1 j + (if it_id (th_item (h item)) = j then unat m else 0) = stock h j"
      using rem by (simp add: removed_from_def)
    ultimately show ?thesis using spec [OF h2(5), of j] by (cases "it_id (th_item (h item)) = j") simp_all
  qed
  have rest: "unat (m - n) < 256" using n(2) m by (simp add: unat_sub)
  have sint: "sint (m - n) = int (unat (m - n))" using rest by (intro sint_small) simp
  show ?thesis
  proof (cases "0 < sint (m - n)")
    case False
    then have "int (unat (m - n)) \<le> 0" using sint by linarith
    then have "unat (m - n) = 0" by (simp only: of_nat_le_0_iff)
    then have "stock h2 j = stock h j" for j using all [of j] by (metis add_0_right)
    then have "stock h2 = stock h" by (rule ext)
    then show ?thesis
      by (intro that [of h2 None] h2(2)) (use False st id kind n h2(1) in \<open>simp_all add: put_moved_def\<close>)
  next
    case True
    have links2: "no_new_links h h2" using links h2(3) by (rule no_new_links_trans)
    have "finite {a. is_container h2 a}" "is_container h2 to" using plain_worldD(3) [OF pw] to(1) links2 by simp_all
    moreover have "i < sint (maxSize (h2 to))" "th_kind (h2 item) = K_Item"
      using to(4) links2 kind h2(3) by (simp_all add: no_new_links_def)
    ultimately obtain h3 where h3: "addThing (sr_items sr) to i (Some fresh)
          (clone_thing (sr_items sr) item (ucast (m - n)) fresh h2) = Some h3" "wf_heap (sr_items sr) h3"
        "\<forall>j. stock h3 j = stock h2 j + (if it_id (th_item (h2 item)) = j then unat (m - n) else 0)"
      using add_clone [OF h2(2) _ _ _ _ unused_no_new_links [OF links2 un] rest] by blast
    have "stock h3 = stock h" using h3(3) all h2(4) id by (simp add: fun_eq_iff)
    then show ?thesis
      by (intro that [of h3 "Some fresh"] h3(2)) (use True st id kind n h2(1) h3(1) in \<open>simp_all add: put_moved_def\<close>)
  qed
qed

lemma put_moved_single:
  assumes pw: "plain_world (sr_items sr) h" and rem: "removed_from h item (unat (it_count (th_item (h item)))) h1"
    and wf: "wf_heap (sr_items sr) h1" and det: "detached h1 item" "th_item (h1 item) = th_item (h item)"
    and st: "\<not> ty_stackable (sr_items sr (it_id (th_item (h item))))"
    and to: "may_hold h to item" "i < sint (maxSize (h to))"
  obtains h2 where "put_moved sr h1 to i item d m fresh = Some (h2, Some item)" "wf_heap (sr_items sr) h2" "stock h2 = stock h"
proof -
  have links: "no_new_links h h1" using rem by (simp add: removed_from_def)
  have "finite {a. is_container h1 a}" using plain_worldD(3) [OF pw] links by simp
  moreover have "i < sint (maxSize (h1 to))" using to(2) links by (simp add: no_new_links_def)
  ultimately obtain h2 where h2: "addThing (sr_items sr) to i (Some item) h1 = Some h2" "wf_heap (sr_items sr) h2"
      "\<forall>k. stock h2 k = stock h1 k + pieces_of k (th_item (h1 item))"
    using add_pieces [OF wf _ no_new_links_hold [OF links to(1)] det(1)] by blast
  have "stock h1 k + pieces_of k (th_item (h item)) = stock h k" for k
    using rem by (simp add: removed_from_def pieces_of_def)
  then have "stock h2 = stock h" using h2(3) det(2) by (simp add: fun_eq_iff)
  then show ?thesis
    by (intro that [of h2] h2(2)) (use st det(2) h2(1) in \<open>simp_all add: put_moved_def\<close>)
qed

section \<open>The whole move\<close>

lemma queryRemove_result:
  assumes "queryRemove sr h c x n fl = Some RETURNVALUE_NOERROR"
  shows "x \<in> set (itemlist (h c))" "n \<noteq> 0"
    "ty_stackable (sr_items sr (it_id (th_item (h x)))) \<Longrightarrow> n \<le> ucast (it_count (th_item (h x)))"
  using assms getThingIndex_absent [of h c x]
  by (auto simp: queryRemove_def Let_def split: if_splits)

lemma trade_guard_answers: "forest h \<Longrightarrow> trade_guard h to t \<noteq> None"
  using around_loop_answers [OF forest_rooted [of h to]] by (simp add: trade_guard_def split: option.split)

lemma move_after_query_ok:
  assumes pw: "plain_world (sr_items sr) h" and c: "is_container h from" "is_container h to"
    and hold: "may_hold h to item" and d: "joinable h to d" "d \<noteq> Some item" and i: "i < sint (maxSize (h to))"
    and un: "unused h fresh"
  obtains ret h' mv where "move_after_query sr h from to i item n fl d t fresh = Some (ret, h', mv)"
    "wf_heap (sr_items sr) h'" "stock h' = stock h" "mv = None \<Longrightarrow> ret \<noteq> RETURNVALUE_NOERROR \<and> h' = h"
proof -
  let ?T = "sr_items sr"
  let ?st = "ty_stackable (?T (it_id (th_item (h item))))"
  note f = plain_worldD(2) [OF pw] and fin = plain_worldD(3) [OF pw] and wf = plain_worldD(1) [OF pw]
  obtain retMax mq where q: "queryMaxCount sr h to i item n fl = Some (retMax, mq)"
    using queryMaxCount_answers [OF f fin c(2)] by (metis not_None_eq surj_pair)
  define m where "m = (if ?st then min n mq else mq)"
  obtain r where r: "queryRemove sr h from item m fl = Some r" using queryRemove_answers [OF f c(1)] by blast
  obtain g where g: "trade_guard h to t = Some g" using trade_guard_answers [OF f] by blast
  show ?thesis
  proof (cases "retMax \<noteq> RETURNVALUE_NOERROR \<and> mq = 0 \<or> r \<noteq> RETURNVALUE_NOERROR \<or> g \<noteq> RETURNVALUE_NOERROR")
    case True
    then have "\<exists>ret. ret \<noteq> RETURNVALUE_NOERROR \<and> move_after_query sr h from to i item n fl d t fresh = Some (ret, h, None)"
      using q r g by (auto simp: move_after_query_def Let_def m_def)
    then show ?thesis using that wf by blast
  next
    case False
    then have R: "queryRemove sr h from item m fl = Some RETURNVALUE_NOERROR" using r by simp
    note x = queryRemove_result [OF R]
    have step: "move_after_query sr h from to i item n fl d t fresh =
        Option.bind (removeThing ?T from item m h) (\<lambda>h1. map_option (\<lambda>(h2, moveItem).
          (if ?st \<and> mq < n then retMax else RETURNVALUE_NOERROR, h2,
           Some (case moveItem of None \<Rightarrow> item | Some x \<Rightarrow> x))) (put_moved sr h1 to i item d m fresh))"
    proof -
      have F: "\<not> (retMax \<noteq> RETURNVALUE_NOERROR \<and> mq = 0)" "g = RETURNVALUE_NOERROR" using False by auto
      show ?thesis
        unfolding move_after_query_def q option.case prod.case if_not_P [OF F(1)] Let_def m_def [symmetric] R
        by (simp add: g F(2))
    qed
    have "\<exists>h1 h2 mv. removeThing ?T from item m h = Some h1 \<and> put_moved sr h1 to i item d m fresh = Some (h2, mv)
        \<and> wf_heap ?T h2 \<and> stock h2 = stock h"
    proof (cases ?st)
      case st: True
      then have le: "m \<le> ucast (it_count (th_item (h item)))" using x(3) by simp
      have m: "unat m < 256"
        using le unat_ucast8 [of "it_count (th_item (h item))"] unsigned_less [of "it_count (th_item (h item))", where ?'a = nat]
        by (simp add: word_le_nat_alt)
      obtain h1 where h1: "removeThing ?T from item m h = Some h1" "wf_heap ?T h1" "removed_from h item (unat m) h1"
      proof (cases "m = ucast (it_count (th_item (h item)))")
        case True
        then show ?thesis
          using remove_all [OF pw c(1) x(1), of m] that unat_ucast8 [of "it_count (th_item (h item))"] by auto
      next
        case False
        then have "m < ucast (it_count (th_item (h item)))" using le by simp
        then show ?thesis using remove_some [OF pw c(1) x(1) st] that by blast
      qed
      then show ?thesis
        using put_moved_stack [OF pw h1(3,2) st m c(2) d i un] by metis
    next
      case st: False
      then obtain h1 where h1: "removeThing ?T from item m h = Some h1" "wf_heap ?T h1"
          "removed_from h item (unat (it_count (th_item (h item)))) h1" "detached h1 item" "th_item (h1 item) = th_item (h item)"
        using remove_all [OF pw c(1) x(1), of m] by auto
      then show ?thesis using put_moved_single [OF pw h1(3,2,4,5) st hold i] by metis
    qed
    then obtain h1 h2 mv where "removeThing ?T from item m h = Some h1"
      "put_moved sr h1 to i item d m fresh = Some (h2, mv)" "wf_heap ?T h2" "stock h2 = stock h" by blast
    then show ?thesis using that step by simp
  qed
qed

section \<open>The whole move\<close>

lemma around_answer:
  "rooted h a \<Longrightarrow> around_loop h (around_stops h noLimit item) (Some a) \<noteq> Some RETURNVALUE_NEEDEXCHANGE"
proof (induction rule: rooted.induct)
  case (top a)
  then show ?case
    by (simp add: around_loop.simps [of h _ "Some a"] around_loop.simps [of h _ None] around_stops_def)
next
  case (up a p)
  then show ?case by (simp add: around_loop.simps [of h _ "Some a"] around_stops_def)
qed

lemma queryAdd_answer:
  assumes f: "forest h" and no: "\<forall>t k fl. sr_queryAdd sr h t item k fl \<noteq> RETURNVALUE_NEEDEXCHANGE"
  shows "queryAdd sr h c i item n flags \<noteq> Some RETURNVALUE_NEEDEXCHANGE"
proof
  assume q: "queryAdd sr h c i item n flags = Some RETURNVALUE_NEEDEXCHANGE"
  have "around_loop h (around_stops h noLimit item) (th_parent (h c)) \<noteq> Some RETURNVALUE_NEEDEXCHANGE" for noLimit
    using around_answer [OF forest_rooted [OF f]] by (cases "th_parent (h c)") (simp_all add: around_loop.simps [of h _ None])
  with q no show False
    by (auto simp: queryAdd_def Let_def split: if_split_asm option.split_asm bool.split_asm)
qed

text \<open>
  C9. Moving an item, or a part of a stack, from one container to another keeps every piece:
  for every item type the number of pieces in containers is the same afterwards, the
  containers are still a forest with exact weights, the move always ends, and when it is
  refused nothing has changed.
\<close>

theorem moving_keeps_every_piece:
  assumes "plain_world (sr_items sr) h" "is_container h from" "is_container h to" "is_item h item"
    and "\<forall>t k fl. sr_queryAdd sr h t item k fl \<noteq> RETURNVALUE_NEEDEXCHANGE"
    and "hasBitSet FLAG_CHILDISOWNER flags = False" "unused h fresh"
  shows "\<exists>ret h' mv. internalMoveItem sr h from to index item n flags trade fresh = Some (ret, h', mv)
    \<and> wf_heap (sr_items sr) h' \<and> stock h' = stock h \<and> (ret \<noteq> RETURNVALUE_NOERROR \<and> mv = None \<longrightarrow> h' = h)"
proof -
  note f = plain_worldD(2) [OF assms(1)] and fin = plain_worldD(3) [OF assms(1)] and wf = plain_worldD(1) [OF assms(1)]
  obtain c i d fl where s: "settle sr h item MAP_MAX_LAYERS to index None flags = Some (c, i, d, fl)"
    "is_container h c" "joinable h c d" "fl \<in> {flags, 0}" "c_unlocked (h c) \<longrightarrow> i < sint (maxSize (h c))"
    using settle_result [where sr = sr and d = None and n = MAP_MAX_LAYERS and i = index and fl = flags, OF assms(1,4,3)]
    by (auto simp: joinable_def MAP_MAX_LAYERS_def)
  define k where "k = (if ty_stackable (sr_items sr (it_id (th_item (h item)))) \<and> n = 255 \<and> th_parent (h from) = Some c
    then ucast (it_count (th_item (h item))) else n)"
  have fl: "\<not> hasBitSet FLAG_CHILDISOWNER fl" using s(4) assms(6) by (auto simp: hasBitSet_def)
  obtain r where r: "queryRemove sr h from item 1 fl = Some r" using queryRemove_answers [OF f assms(2)] by blast
  obtain a where a: "queryAdd sr h c i item k fl = Some a" using queryAdd_answers [OF f fin s(2)] by blast
  have ne: "a \<noteq> RETURNVALUE_NEEDEXCHANGE" using queryAdd_answer [OF f assms(5)] a by blast
  show ?thesis
  proof (cases "d = Some item \<or> r \<noteq> RETURNVALUE_NOERROR \<or> a \<noteq> RETURNVALUE_NOERROR")
    case True
    then have "\<exists>ret. internalMoveItem sr h from to index item n flags trade fresh = Some (ret, h, None)"
      using ne by (cases a) (auto simp: internalMoveItem_def s(1) k_def [symmetric] Let_def r a)
    then show ?thesis using wf by auto
  next
    case False
    then have A: "queryAdd sr h c i item k fl = Some RETURNVALUE_NOERROR" using a by simp
    have "c_unlocked (h c)" using A fl by (auto simp: queryAdd_def split: if_splits)
    then have i: "i < sint (maxSize (h c))" using s(5) by simp
    have "internalMoveItem sr h from to index item n flags trade fresh
        = move_after_query sr h from c i item k fl d trade fresh"
      using False by (simp add: internalMoveItem_def s(1) k_def [symmetric] Let_def r A)
    moreover obtain ret h' mv where "move_after_query sr h from c i item k fl d trade fresh = Some (ret, h', mv)"
      "wf_heap (sr_items sr) h'" "stock h' = stock h" "mv = None \<Longrightarrow> ret \<noteq> RETURNVALUE_NOERROR \<and> h' = h"
      using move_after_query_ok [OF assms(1,2) s(2) queryAdd_may_hold [OF f s(2) fl A] s(3) _ i assms(7)] False by blast
    ultimately show ?thesis by auto
  qed
qed

text \<open>Two containers, thirty coins in the first.\<close>

definition coins :: items where
  "coins i = (if i = 2 then brick\<lparr>ty_stackable := True, ty_stackSize := 100\<rparr> else brick)"

definition purse :: heap where
  "purse = apart(2 := (apart 2)\<lparr>th_parent := Some 0, th_item := (plain 2 [])\<lparr>it_count := 30\<rparr>\<rparr>,
                 0 := (apart 0)\<lparr>itemlist := [2], totalWeight := 1500\<rparr>)"

lemma purse_plain: "plain_world coins purse"
proof -
  have [simp]: "th_kind (purse a) = (if a < 2 then K_Container else K_Item)"
    "th_parent (purse a) = (if a = 2 then Some 0 else None)" "itemlist (purse a) = (if a = 0 then [2] else [])"
    "maxSize (purse a) = 20" "c_pagination (purse a) = False" for a
    by (auto simp: purse_def apart_def)
  have root: "rooted purse a" if "a \<noteq> 2" for a by (rule rooted.top) (simp add: that)
  have "rooted purse 2" by (rule rooted.up [of _ _ 0]) (simp_all add: root)
  with root have "rooted purse a" for a by (cases "a = 2") simp_all
  then have "forest purse" by (auto simp: forest_def is_container_def is_item_def)
  moreover have "weights_ok coins purse"
    by (auto simp: weights_ok_def contents_weight_def is_container_def thing_weight_def purse_def apart_def
        getWeight_def getBaseWeight_def hasAttribute_def plain_def coins_def brick_def)
  moreover have "{a. is_container purse a} = {0, 1}" by (auto simp: is_container_def)
  moreover have "plain_stack coins (purse a)" if "ty_stackable (coins (it_id (th_item (purse a))))" for a
  proof -
    have "it_id (th_item (purse a)) = 2" using that by (simp add: coins_def brick_def split: if_split_asm)
    moreover have "it_count (th_item (purse a)) = (if a = 2 then 30 else 1)"
      by (simp add: purse_def apart_def plain_def)
    moreover have "it_id (th_item (purse 0)) = 0" "it_id (th_item (purse 1)) = 1"
      by (simp_all add: purse_def apart_def plain_def)
    then have "\<not> a < 2" using calculation(1) by (cases "a = 0"; cases "a = 1") simp_all
    ultimately show ?thesis
      using that by (auto simp: plain_stack_def is_fluid_def coins_def brick_def getStackSize_def)
  qed
  ultimately show ?thesis by (simp add: plain_world_def wf_heap_def is_container_def)
qed

lemma moving_keeps_every_piece_witness:
  "\<exists>ret h' mv. internalMoveItem (free_surroundings\<lparr>sr_items := coins\<rparr>) purse 0 1 0 2 10 0 None 3 = Some (ret, h', mv)
    \<and> wf_heap coins h' \<and> stock h' = stock purse"
proof -
  have "is_container purse 0" "is_container purse 1" "is_item purse 2" "unused purse 3"
    by (auto simp: purse_def apart_def is_container_def is_item_def unused_def)
  then show ?thesis
    using moving_keeps_every_piece [of "free_surroundings\<lparr>sr_items := coins\<rparr>" purse 0 1 2 0 3 0 10 None] purse_plain
    by (auto simp: free_surroundings_def hasBitSet_def)
qed

end
