(* ===== verification/Trade.thy ===== *)
theory Trade
  imports Container_Query Map_Position "HOL-Library.AList"
begin

text \<open>
  Trading between two players (src/src/game/game.cpp: \<open>playerRequestTrade\<close>,
  \<open>internalStartTrade\<close>, \<open>playerAcceptTrade\<close>, \<open>playerCloseTrade\<close>, \<open>internalCloseTrade\<close>): who
  trades with whom, what each offers, who has accepted, and the table of items on offer.
  The world (positions, the items in containers, houses) is a state of any type; how it is
  looked at and how an item is moved to a player are arguments, collected in \<open>trade_env\<close>.
  A move may set off notifications that close trades; it returns the players whose
  \<open>internalCloseTrade\<close> they call. \<open>None\<close> is a walk through a container that does not end.
\<close>

section \<open>The state\<close>

datatype TradeState_t =
    TRADE_NONE | TRADE_INITIATED | TRADE_ACCEPT | TRADE_ACKNOWLEDGE | TRADE_TRANSFER

datatype TradeEvents_t = ON_TRADE_TRANSFER | ON_TRADE_CANCEL

record trader =
  tradeState :: TradeState_t
  tradePartner :: "nat option"
  tradeItem :: "nat option"

record 'w trading =
  traders :: "nat \<Rightarrow> trader"
  tradeItems :: "(nat \<times> nat) list"
  world :: 'w

record 'w trade_env =
  te_online :: "'w \<Rightarrow> nat \<Rightarrow> bool"
  te_position :: "'w \<Rightarrow> nat \<Rightarrow> position"
  te_itemPosition :: "'w \<Rightarrow> nat \<Rightarrow> position"
  te_canThrow :: "'w \<Rightarrow> position \<Rightarrow> position \<Rightarrow> bool"
  te_getThing :: "'w \<Rightarrow> nat \<Rightarrow> position \<Rightarrow> u8 \<Rightarrow> u16 \<Rightarrow> nat option"
  te_heap :: "'w \<Rightarrow> heap"
  te_types :: items
  te_maxDepth :: nat
  te_houseRefuses :: "'w \<Rightarrow> nat \<Rightarrow> nat \<Rightarrow> bool"
  te_onRequest :: "'w \<Rightarrow> nat \<Rightarrow> nat \<Rightarrow> nat \<Rightarrow> bool"
  te_onAccept :: "'w \<Rightarrow> nat \<Rightarrow> nat \<Rightarrow> nat option \<Rightarrow> nat option \<Rightarrow> bool"
  te_addTest :: "'w \<Rightarrow> nat \<Rightarrow> nat \<Rightarrow> ReturnValue"
  te_removeTest :: "'w \<Rightarrow> nat \<Rightarrow> ReturnValue"
  te_move :: "'w \<Rightarrow> nat \<Rightarrow> nat \<Rightarrow> nat option \<Rightarrow> ReturnValue \<times> 'w \<times> nat list"
  te_onTradeEvent :: "TradeEvents_t \<Rightarrow> nat \<Rightarrow> nat \<Rightarrow> 'w \<Rightarrow> 'w"

definition set_trader :: "nat \<Rightarrow> trader \<Rightarrow> 'w trading \<Rightarrow> 'w trading" where
  "set_trader p t s = s\<lparr>traders := (traders s)(p := t)\<rparr>"

definition setTradeState :: "nat \<Rightarrow> TradeState_t \<Rightarrow> 'w trading \<Rightarrow> 'w trading" where
  "setTradeState p st s = set_trader p ((traders s p)\<lparr>tradeState := st\<rparr>) s"

section \<open>Closing a trade\<close>

text \<open>One side takes its offer back.\<close>

definition take_back :: "'w trade_env \<Rightarrow> nat \<Rightarrow> 'w trading \<Rightarrow> 'w trading" where
  "take_back env p s = (case tradeItem (traders s p) of
      None \<Rightarrow> s
    | Some x \<Rightarrow> set_trader p ((traders s p)\<lparr>tradeItem := None\<rparr>)
        (s\<lparr>tradeItems := AList.delete x (tradeItems s),
           world := te_onTradeEvent env ON_TRADE_CANCEL x p (world s)\<rparr>))"

definition leave_trade :: "'w trade_env \<Rightarrow> nat \<Rightarrow> 'w trading \<Rightarrow> 'w trading" where
  "leave_trade env p s = (let s1 = take_back env p s
     in set_trader p ((traders s1 p)\<lparr>tradeState := TRADE_NONE, tradePartner := None\<rparr>) s1)"

definition in_transfer :: "'w trading \<Rightarrow> nat \<Rightarrow> bool" where
  "in_transfer s p \<longleftrightarrow> tradeState (traders s p) = TRADE_TRANSFER"

definition internalCloseTrade :: "'w trade_env \<Rightarrow> nat \<Rightarrow> 'w trading \<Rightarrow> 'w trading" where
  "internalCloseTrade env p s =
     (let partner = tradePartner (traders s p)
      in if (case partner of None \<Rightarrow> False | Some q \<Rightarrow> in_transfer s q) \<or> in_transfer s p then s
         else case partner of
             None \<Rightarrow> leave_trade env p s
           | Some q \<Rightarrow> leave_trade env q (leave_trade env p s))"

definition playerCloseTrade :: "'w trade_env \<Rightarrow> nat \<Rightarrow> 'w trading \<Rightarrow> 'w trading" where
  "playerCloseTrade env p s = (if te_online env (world s) p then internalCloseTrade env p s else s)"

section \<open>Requesting a trade\<close>

definition hasOwner :: "heap \<Rightarrow> nat \<Rightarrow> bool option" where
  "hasOwner h x = map_option (\<lambda>own. own \<noteq> 0) (thing_owner h x)"

text \<open>\<open>None\<close> of the outer option: a walk that does not end. The flag is the result.\<close>

definition internalStartTrade ::
    "'w trade_env \<Rightarrow> nat \<Rightarrow> nat \<Rightarrow> nat \<Rightarrow> 'w trading \<Rightarrow> (bool \<times> 'w trading) option" where
  "internalStartTrade env p q x s =
     (let t = traders s p; u = traders s q; h = te_heap env (world s)
      in if tradeState t \<noteq> TRADE_NONE \<and> \<not> (tradeState t = TRADE_ACKNOWLEDGE \<and> tradePartner t = Some q)
           then Some (False, s)
         else if tradeState u \<noteq> TRADE_NONE \<and> tradePartner u \<noteq> Some p then Some (False, s)
         else if isStoreItem (th_item (h x)) then Some (False, s)
         else (case hasOwner h x of
             None \<Rightarrow> None
           | Some True \<Rightarrow> Some (False, s)
           | Some False \<Rightarrow>
               let s1 = (set_trader p \<lparr>tradeState = TRADE_INITIATED, tradePartner = Some q, tradeItem = Some x\<rparr> s)
                          \<lparr>tradeItems := AList.update x p (tradeItems s)\<rparr>
               in Some (True,
                    if tradeState (traders s1 q) = TRADE_NONE
                    then set_trader q ((traders s1 q)\<lparr>tradeState := TRADE_ACKNOWLEDGE, tradePartner := Some p\<rparr>) s1
                    else s1)))"

text \<open>Is \<open>x\<close> the item \<open>y\<close> on offer, or is one of them inside the other?\<close>

definition clashes :: "nat \<Rightarrow> heap \<Rightarrow> nat \<Rightarrow> nat \<Rightarrow> bool option" where
  "clashes d h x y =
     (if x = y then Some True
      else case (if is_container h x then isHoldingItem d h x (Some y) else Some False) of
          None \<Rightarrow> None
        | Some True \<Rightarrow> Some True
        | Some False \<Rightarrow> if is_container h y then isHoldingItem d h y (Some x) else Some False)"

fun already_traded :: "nat \<Rightarrow> heap \<Rightarrow> nat \<Rightarrow> (nat \<times> nat) list \<Rightarrow> bool option" where
  "already_traded d h x [] = Some False"
| "already_traded d h x ((y, p) # xs) = (case clashes d h x y of
      None \<Rightarrow> None
    | Some True \<Rightarrow> Some True
    | Some False \<Rightarrow> already_traded d h x xs)"

text \<open>The limit of 100 items and the store items inside a container.\<close>

definition contents_refused :: "nat \<Rightarrow> heap \<Rightarrow> nat \<Rightarrow> bool option" where
  "contents_refused d h x =
     (if \<not> is_container h x then Some (isStoreItem (th_item (h x)))
      else case getItemHoldingCount d h x of
          None \<Rightarrow> None
        | Some n \<Rightarrow>
            if n + 1 > 100 then Some True
            else if isStoreItem (th_item (h x)) then Some True
            else map_option (list_ex (\<lambda>y. case y of None \<Rightarrow> False | Some i \<Rightarrow> isStoreItem (th_item (h i))))
              (iterate h (iter_begin d x)))"

text \<open>
  Everything up to the scripts. \<open>Some None\<close>: refused, or the player walks to the item first.
\<close>

definition trade_candidate ::
    "'w trade_env \<Rightarrow> nat \<Rightarrow> position \<Rightarrow> u8 \<Rightarrow> nat \<Rightarrow> u16 \<Rightarrow> 'w trading \<Rightarrow> nat option option" where
  "trade_candidate env p pos stackPos q itemId s =
     (let w = world s; h = te_heap env w
      in if \<not> te_online env w p then Some None
         else if \<not> te_online env w q \<or> q = p then Some None
         else if \<not> areInRange3 2 2 0 (te_position env w q) (te_position env w p) then Some None
         else if \<not> te_canThrow env w (te_position env w q) (te_position env w p) then Some None
         else (case te_getThing env w p pos stackPos itemId of
             None \<Rightarrow> Some None
           | Some x \<Rightarrow>
               let it = th_item (h x); itemPos = te_itemPosition env w x; ppos = te_position env w p
               in if it_id it \<noteq> itemId \<or> \<not> ty_pickupable (te_types env (it_id it)) \<or> has UNIQUEID it then Some None
                  else if isStoreItem it then Some None
                  else (case hasOwner h x of
                      None \<Rightarrow> None
                    | Some True \<Rightarrow> Some None
                    | Some False \<Rightarrow>
                        if te_houseRefuses env w p x then Some None
                        else if pos_z ppos \<noteq> pos_z itemPos then Some None
                        else if \<not> areInRange2 1 1 itemPos ppos then Some None
                        else (case already_traded (te_maxDepth env) h x (tradeItems s) of
                            None \<Rightarrow> None
                          | Some True \<Rightarrow> Some None
                          | Some False \<Rightarrow> map_option (\<lambda>refused. if refused then None else Some x)
                              (contents_refused (te_maxDepth env) h x)))))"

definition playerRequestTrade ::
    "'w trade_env \<Rightarrow> nat \<Rightarrow> position \<Rightarrow> u8 \<Rightarrow> nat \<Rightarrow> u16 \<Rightarrow> 'w trading \<Rightarrow> 'w trading option" where
  "playerRequestTrade env p pos stackPos q itemId s =
     (case trade_candidate env p pos stackPos q itemId s of
        None \<Rightarrow> None
      | Some None \<Rightarrow> Some s
      | Some (Some x) \<Rightarrow>
          if \<not> te_onRequest env (world s) p q x then Some s
          else map_option snd (internalStartTrade env p q x s))"

section \<open>Accepting\<close>

text \<open>\<open>internalAddItem\<close> as a test; it refuses a null item.\<close>

definition add_test :: "'w trade_env \<Rightarrow> 'w \<Rightarrow> nat \<Rightarrow> nat option \<Rightarrow> ReturnValue" where
  "add_test env w p x = (case x of None \<Rightarrow> RETURNVALUE_NOTPOSSIBLE | Some i \<Rightarrow> te_addTest env w p i)"

text \<open>A move of an item to a player, with the trades its notifications close.\<close>

definition move_to ::
    "'w trade_env \<Rightarrow> nat \<Rightarrow> nat \<Rightarrow> nat option \<Rightarrow> 'w trading \<Rightarrow> ReturnValue \<times> 'w trading" where
  "move_to env x p avoid s =
     (case te_move env (world s) x p avoid of (ret, w, closes) \<Rightarrow>
        (ret, fold (internalCloseTrade env) closes (s\<lparr>world := w\<rparr>)))"

text \<open>The exchange; the result says whether it counts as done.\<close>

definition exchange :: "'w trade_env \<Rightarrow> nat \<Rightarrow> nat \<Rightarrow> nat option \<Rightarrow> nat option \<Rightarrow> 'w trading \<Rightarrow> bool \<times> 'w trading" where
  "exchange env p q item1 item2 s =
     (if add_test env (world s) q item1 = RETURNVALUE_NOERROR \<and> add_test env (world s) p item2 = RETURNVALUE_NOERROR
      then (case (item1, item2) of
          (Some x, Some y) \<Rightarrow>
            if te_removeTest env (world s) x = RETURNVALUE_NOERROR \<and> te_removeTest env (world s) y = RETURNVALUE_NOERROR
            then (case move_to env x q (Some y) s of (ret1, s1) \<Rightarrow>
              if ret1 = RETURNVALUE_NOERROR then
                (case move_to env y p None s1 of (ret2, s2) \<Rightarrow>
                  (True, s2\<lparr>world := te_onTradeEvent env ON_TRADE_TRANSFER y p
                                   (te_onTradeEvent env ON_TRADE_TRANSFER x q (world s2))\<rparr>))
              else (False, s1))
            else (False, s)
        | _ \<Rightarrow> (False, s))
      else (False, s))"

definition notify_cancel :: "'w trade_env \<Rightarrow> nat \<Rightarrow> 'w trading \<Rightarrow> 'w trading" where
  "notify_cancel env p s = (case tradeItem (traders s p) of
      None \<Rightarrow> s
    | Some x \<Rightarrow> s\<lparr>world := te_onTradeEvent env ON_TRADE_CANCEL x p (world s)\<rparr>)"

definition idle :: trader where
  "idle = \<lparr>tradeState = TRADE_NONE, tradePartner = None, tradeItem = None\<rparr>"

text \<open>Both have accepted and no script objects.\<close>

definition finish_trade :: "'w trade_env \<Rightarrow> nat \<Rightarrow> nat \<Rightarrow> 'w trading \<Rightarrow> 'w trading" where
  "finish_trade env p q s =
     (let item1 = tradeItem (traders s p); item2 = tradeItem (traders s q);
          s1 = setTradeState q TRADE_TRANSFER (setTradeState p TRADE_TRANSFER s);
          erase = (\<lambda>x. case x of None \<Rightarrow> (\<lambda>xs. xs) | Some i \<Rightarrow> AList.delete i);
          s2 = s1\<lparr>tradeItems := erase item2 (erase item1 (tradeItems s1))\<rparr>
      in case exchange env p q item1 item2 s2 of (isSuccess, s3) \<Rightarrow>
           let s4 = (if isSuccess then s3 else notify_cancel env p (notify_cancel env q s3))
           in set_trader q idle (set_trader p idle s4))"

definition playerAcceptTrade :: "'w trade_env \<Rightarrow> nat \<Rightarrow> 'w trading \<Rightarrow> 'w trading" where
  "playerAcceptTrade env p s =
     (if \<not> te_online env (world s) p then s
      else if tradeState (traders s p) \<notin> {TRADE_ACKNOWLEDGE, TRADE_INITIATED} then s
      else (case tradePartner (traders s p) of
          None \<Rightarrow> s
        | Some q \<Rightarrow>
            if \<not> te_canThrow env (world s) (te_position env (world s) q) (te_position env (world s) p) then s
            else
              let s1 = setTradeState p TRADE_ACCEPT s
              in if tradeState (traders s1 q) \<noteq> TRADE_ACCEPT then s1
                 else if \<not> te_onAccept env (world s1) p q (tradeItem (traders s1 p)) (tradeItem (traders s1 q))
                   then internalCloseTrade env p s1
                 else finish_trade env p q s1))"

end
