(* ===== verification/Trade_Safety.thy ===== *)
theory Trade_Safety
  imports Trade
begin

text \<open>
  What a trade guarantees: partners point at each other, the table of items on offer is
  exactly what the traders offer, nobody is left in the middle of a transfer, and items only
  change hands when both sides have made an offer and both have accepted.
\<close>

section \<open>The invariant\<close>

text \<open>The players in \<open>X\<close> are in the middle of a transfer.\<close>

definition trader_ok :: "'w trading \<Rightarrow> nat \<Rightarrow> bool" where
  "trader_ok s p \<longleftrightarrow>
     (let t = traders s p
      in tradeState t \<noteq> TRADE_TRANSFER \<and> (tradePartner t = None \<longleftrightarrow> tradeState t = TRADE_NONE)
         \<and> (tradeState t = TRADE_INITIATED \<longrightarrow> tradeItem t \<noteq> None)
         \<and> (tradeState t \<in> {TRADE_NONE, TRADE_ACKNOWLEDGE} \<longrightarrow> tradeItem t = None)
         \<and> (\<forall>q. tradePartner t = Some q \<longrightarrow>
              \<not> (tradeState t = TRADE_ACCEPT \<and> tradeState (traders s q) = TRADE_ACCEPT)
              \<and> (tradeItem t \<noteq> None \<or> tradeItem (traders s q) \<noteq> None)))"

definition trade_inv :: "nat set \<Rightarrow> 'w trading \<Rightarrow> bool" where
  "trade_inv X s \<longleftrightarrow>
     (\<forall>p q. tradePartner (traders s p) = Some q \<longrightarrow>
        p \<noteq> q \<and> tradePartner (traders s q) = Some p \<and> (p \<in> X \<longleftrightarrow> q \<in> X))
     \<and> (\<forall>p x. map_of (tradeItems s) x = Some p \<longleftrightarrow> p \<notin> X \<and> tradeItem (traders s p) = Some x)
     \<and> distinct (map fst (tradeItems s))
     \<and> (\<forall>p. p \<in> X \<longrightarrow> in_transfer s p) \<and> (\<forall>p. p \<notin> X \<longrightarrow> trader_ok s p)"

lemma trade_inv_partner:
  assumes "trade_inv X s" "tradePartner (traders s p) = Some q"
  shows "p \<noteq> q" "tradePartner (traders s q) = Some p" "p \<in> X \<longleftrightarrow> q \<in> X"
  using assms unfolding trade_inv_def by blast+

lemma trade_inv_item:
  "trade_inv X s \<Longrightarrow> map_of (tradeItems s) x = Some p \<longleftrightarrow> p \<notin> X \<and> tradeItem (traders s p) = Some x"
  unfolding trade_inv_def by blast

lemma trade_inv_ok: "trade_inv X s \<Longrightarrow> p \<notin> X \<Longrightarrow> trader_ok s p"
  unfolding trade_inv_def by blast

lemma trade_inv_transfer: "trade_inv X s \<Longrightarrow> in_transfer s p \<longleftrightarrow> p \<in> X"
  using trade_inv_ok [of X s p] unfolding trade_inv_def trader_ok_def in_transfer_def Let_def by blast

lemma trade_inv_world [simp]: "trade_inv X (s\<lparr>world := w\<rparr>) = trade_inv X s"
  by (simp add: trade_inv_def trader_ok_def in_transfer_def)

lemma set_trader_simps [simp]:
  "traders (set_trader p t s) = (traders s)(p := t)"
  "tradeItems (set_trader p t s) = tradeItems s" "world (set_trader p t s) = world s"
  by (simp_all add: set_trader_def)

section \<open>Closing keeps the invariant\<close>

lemma leave_trade_traders [simp]: "traders (leave_trade env p s) = (traders s)(p := idle)"
  by (cases "traders s p") (simp add: leave_trade_def take_back_def idle_def Let_def split: option.split)

lemma leave_trade_items:
  "map_of (tradeItems (leave_trade env p s)) =
     (case tradeItem (traders s p) of None \<Rightarrow> map_of (tradeItems s) | Some x \<Rightarrow> (map_of (tradeItems s))(x := None))"
  by (simp add: leave_trade_def take_back_def Let_def delete_conv' split: option.split)

lemma leave_trade_distinct:
  "distinct (map fst (tradeItems s)) \<Longrightarrow> distinct (map fst (tradeItems (leave_trade env p s)))"
  by (simp add: leave_trade_def take_back_def Let_def distinct_delete split: option.split)

text \<open>Two partners, or one player without a partner, go back to idle.\<close>

lemma trade_inv_idle:
  assumes inv: "trade_inv X s" and P: "P \<inter> X = {}"
    and closed: "\<And>p q. p \<in> P \<Longrightarrow> tradePartner (traders s p) = Some q \<Longrightarrow> q \<in> P"
    and tr: "\<And>p. traders s' p = (if p \<in> P then idle else traders s p)"
    and items: "\<And>x. map_of (tradeItems s') x
        = (if \<exists>p \<in> P. tradeItem (traders s p) = Some x then None else map_of (tradeItems s) x)"
    and dist: "distinct (map fst (tradeItems s'))"
  shows "trade_inv X s'"
proof -
  have out: "q \<notin> P" if "p \<notin> P" "tradePartner (traders s p) = Some q" for p q
    using closed [of q p] trade_inv_partner [OF inv that(2)] that(1) by blast
  have "trader_ok s' p" if "p \<notin> X" for p
    using trade_inv_ok [OF inv that] out [of p]
    by (cases "p \<in> P") (auto simp: trader_ok_def Let_def tr idle_def)
  moreover have "map_of (tradeItems s') x = Some p \<longleftrightarrow> p \<notin> X \<and> tradeItem (traders s' p) = Some x" for p x
  proof (cases "p \<in> P")
    case True
    then have "map_of (tradeItems s) x \<noteq> Some p" if "\<not> (\<exists>p \<in> P. tradeItem (traders s p) = Some x)"
      using that trade_inv_item [OF inv, of x p] by blast
    then show ?thesis using True by (auto simp: items tr idle_def)
  next
    case False
    have "tradeItem (traders s p) \<noteq> Some x \<or> p \<in> X" if "r \<in> P" "tradeItem (traders s r) = Some x" for r
    proof -
      have "r \<notin> X" using that(1) P by blast
      then have "map_of (tradeItems s) x = Some r" using that(2) trade_inv_item [OF inv, of x r] by simp
      then show ?thesis using trade_inv_item [OF inv, of x p] False that(1) by auto
    qed
    then show ?thesis using False trade_inv_item [OF inv, of x p] by (auto simp: items tr)
  qed
  moreover have "in_transfer s' p" if "p \<in> X" for p
    using that P trade_inv_transfer [OF inv, of p] by (auto simp: in_transfer_def tr)
  moreover have "p \<noteq> q \<and> tradePartner (traders s' q) = Some p \<and> (p \<in> X \<longleftrightarrow> q \<in> X)"
    if "tradePartner (traders s' p) = Some q" for p q
    using that trade_inv_partner [OF inv, of p q] out [of p q] by (auto simp: tr idle_def split: if_splits)
  ultimately show ?thesis using dist unfolding trade_inv_def by blast
qed

lemma internalCloseTrade_inv:
  assumes "trade_inv X s"
  shows "trade_inv X (internalCloseTrade env p s)"
proof (cases "tradePartner (traders s p)")
  case None
  show ?thesis
  proof (cases "in_transfer s p")
    case True
    then show ?thesis using assms None by (simp add: internalCloseTrade_def Let_def)
  next
    case False
    then have "p \<notin> X" using trade_inv_transfer [OF assms] by blast
    have "trade_inv X (leave_trade env p s)"
    proof (rule trade_inv_idle [OF assms, of "{p}"])
      show "map_of (tradeItems (leave_trade env p s)) x
          = (if \<exists>r \<in> {p}. tradeItem (traders s r) = Some x then None else map_of (tradeItems s) x)" for x
        by (simp add: leave_trade_items split: option.split)
      show "distinct (map fst (tradeItems (leave_trade env p s)))"
        using assms by (simp add: leave_trade_distinct trade_inv_def)
    qed (use None \<open>p \<notin> X\<close> in auto)
    then show ?thesis using False None by (simp add: internalCloseTrade_def Let_def)
  qed
next
  case (Some q)
  note pq = trade_inv_partner [OF assms Some]
  show ?thesis
  proof (cases "p \<in> X")
    case True
    then show ?thesis using assms Some trade_inv_transfer [OF assms] by (simp add: internalCloseTrade_def Let_def)
  next
    case False
    then have "q \<notin> X" using pq by blast
    have "trade_inv X (leave_trade env q (leave_trade env p s))"
    proof (rule trade_inv_idle [OF assms, of "{p, q}"])
      show "{p, q} \<inter> X = {}" using False \<open>q \<notin> X\<close> by blast
      show "b \<in> {p, q}" if "a \<in> {p, q}" "tradePartner (traders s a) = Some b" for a b
        using that Some pq by auto
      show "traders (leave_trade env q (leave_trade env p s)) r = (if r \<in> {p, q} then idle else traders s r)" for r
        by simp
      show "map_of (tradeItems (leave_trade env q (leave_trade env p s))) x
          = (if \<exists>r \<in> {p, q}. tradeItem (traders s r) = Some x then None else map_of (tradeItems s) x)" for x
        using pq(1) by (auto simp: leave_trade_items split: option.split)
      show "distinct (map fst (tradeItems (leave_trade env q (leave_trade env p s))))"
        using assms by (simp add: leave_trade_distinct trade_inv_def)
    qed
    then show ?thesis
      using Some False \<open>q \<notin> X\<close> trade_inv_transfer [OF assms] by (simp add: internalCloseTrade_def Let_def)
  qed
qed

lemma closes_inv: "trade_inv X s \<Longrightarrow> trade_inv X (fold (internalCloseTrade env) ps s)"
  by (induction ps arbitrary: s) (simp_all add: internalCloseTrade_inv)

text \<open>A trade in transfer is not touched by what closes trades meanwhile.\<close>

lemma internalCloseTrade_transfer:
  assumes "trade_inv X s" "p \<in> X"
  shows "traders (internalCloseTrade env r s) p = traders s p"
proof (cases "tradePartner (traders s r)")
  case None
  then show ?thesis
    using assms trade_inv_transfer [OF assms(1), of r] by (auto simp: internalCloseTrade_def Let_def)
next
  case (Some q)
  then show ?thesis
    using assms trade_inv_transfer [OF assms(1)] trade_inv_partner(3) [OF assms(1) Some]
    by (auto simp: internalCloseTrade_def Let_def)
qed

lemma closes_transfer:
  assumes "trade_inv X s" "p \<in> X"
  shows "traders (fold (internalCloseTrade env) rs s) p = traders s p"
  using assms
  by (induction rs arbitrary: s) (simp_all add: internalCloseTrade_inv internalCloseTrade_transfer)

section \<open>Requests and acceptance keep the invariant\<close>

lemma setTradeState_simps [simp]:
  "traders (setTradeState p st s) = (traders s)(p := (traders s p)\<lparr>tradeState := st\<rparr>)"
  "tradeItems (setTradeState p st s) = tradeItems s" "world (setTradeState p st s) = world s"
  by (simp_all add: setTradeState_def)

lemma already_traded_absent:
  "already_traded d h x xs = Some False \<Longrightarrow> map_of xs x = None"
  by (induction xs) (auto simp: clashes_def split: option.splits bool.splits if_splits)

lemma internalStartTrade_traders:
  assumes "trade_inv {} s" "internalStartTrade env p q x s = Some (True, s')" "p \<noteq> q"
  shows "traders s' p = \<lparr>tradeState = TRADE_INITIATED, tradePartner = Some q, tradeItem = Some x\<rparr>"
    "(traders s p = idle \<and> traders s q = idle
        \<and> traders s' q = \<lparr>tradeState = TRADE_ACKNOWLEDGE, tradePartner = Some p, tradeItem = None\<rparr>)
     \<or> (tradeState (traders s p) = TRADE_ACKNOWLEDGE \<and> tradePartner (traders s p) = Some q
        \<and> tradeState (traders s q) \<noteq> TRADE_NONE \<and> traders s' q = traders s q)"
    "\<And>r. r \<noteq> p \<Longrightarrow> r \<noteq> q \<Longrightarrow> traders s' r = traders s r"
    "tradeItems s' = AList.update x p (tradeItems s)"
proof -
  have none: "traders s r = idle" if "tradeState (traders s r) = TRADE_NONE" for r
    using trade_inv_ok [OF assms(1), of r] that by (cases "traders s r") (simp add: trader_ok_def idle_def Let_def)
  have p: "tradeState (traders s p) = TRADE_NONE
      \<or> tradeState (traders s p) = TRADE_ACKNOWLEDGE \<and> tradePartner (traders s p) = Some q"
    using assms(2) by (auto simp: internalStartTrade_def Let_def split: if_splits)
  have q: "tradeState (traders s q) = TRADE_NONE \<or> tradePartner (traders s q) = Some p"
    using assms(2) by (auto simp: internalStartTrade_def Let_def split: if_splits)
  have s': "s' = (let s1 = (set_trader p \<lparr>tradeState = TRADE_INITIATED, tradePartner = Some q, tradeItem = Some x\<rparr> s)
        \<lparr>tradeItems := AList.update x p (tradeItems s)\<rparr>
      in if tradeState (traders s q) = TRADE_NONE
         then set_trader q ((traders s q)\<lparr>tradeState := TRADE_ACKNOWLEDGE, tradePartner := Some p\<rparr>) s1 else s1)"
    using assms(2,3) by (auto simp: internalStartTrade_def Let_def split: if_splits option.splits bool.splits)
  show "traders s' p = \<lparr>tradeState = TRADE_INITIATED, tradePartner = Some q, tradeItem = Some x\<rparr>"
    "\<And>r. r \<noteq> p \<Longrightarrow> r \<noteq> q \<Longrightarrow> traders s' r = traders s r"
    "tradeItems s' = AList.update x p (tradeItems s)"
    using assms(3) by (simp_all add: s' Let_def)
  have partner: "tradePartner (traders s r) = None \<longleftrightarrow> tradeState (traders s r) = TRADE_NONE" for r
    using trade_inv_ok [OF assms(1), of r] by (simp add: trader_ok_def Let_def)
  have "tradePartner (traders s p) = Some q \<longleftrightarrow> tradePartner (traders s q) = Some p"
    using trade_inv_partner(2) [OF assms(1)] by blast
  then have both: "tradeState (traders s p) = TRADE_NONE \<longleftrightarrow> tradeState (traders s q) = TRADE_NONE"
    using p q partner [of p] partner [of q] by auto
  show "(traders s p = idle \<and> traders s q = idle
        \<and> traders s' q = \<lparr>tradeState = TRADE_ACKNOWLEDGE, tradePartner = Some p, tradeItem = None\<rparr>)
     \<or> (tradeState (traders s p) = TRADE_ACKNOWLEDGE \<and> tradePartner (traders s p) = Some q
        \<and> tradeState (traders s q) \<noteq> TRADE_NONE \<and> traders s' q = traders s q)"
  proof (cases "tradeState (traders s q) = TRADE_NONE")
    case True
    then have "traders s p = idle" "traders s q = idle" using both none by simp_all
    then show ?thesis using assms(3) by (simp add: s' Let_def idle_def)
  next
    case False
    then have "traders s' q = traders s q" using assms(3) by (simp add: s' Let_def)
    then show ?thesis using False both p by simp
  qed
qed

lemma internalStartTrade_inv:
  assumes inv: "trade_inv {} s" and new: "map_of (tradeItems s) x = None" "p \<noteq> q"
    and start: "internalStartTrade env p q x s = Some (b, s')"
  shows "trade_inv {} s'"
proof (cases b)
  case False
  then have "s' = s"
    using start by (auto simp: internalStartTrade_def Let_def split: if_splits option.splits bool.splits)
  then show ?thesis using inv by simp
next
  case True
  have "internalStartTrade env p q x s = Some (True, s')" using start True by simp
  note tr = internalStartTrade_traders [OF inv this new(2)]
  have pq: "tradePartner (traders s' q) = Some p"
    using tr(2) trade_inv_partner(2) [OF inv, of p q] by auto
  have other: "tradePartner (traders s r) \<notin> {Some p, Some q}" if "r \<noteq> p" "r \<noteq> q" for r
    using tr(2) that trade_inv_partner(2) [OF inv, of r] trade_inv_partner(2) [OF inv, of p q]
    by (auto simp: idle_def)
  have "a \<noteq> b \<and> tradePartner (traders s' b) = Some a" if "tradePartner (traders s' a) = Some b" for a b
    using that tr(1,3) pq new(2) other trade_inv_partner [OF inv, of a b]
    by (cases "a = p"; cases "a = q"; cases "b = p"; cases "b = q") auto
  moreover have "trader_ok s' r" for r
  proof -
    consider "r = p" | "r = q" | "r \<noteq> p" "r \<noteq> q" by blast
    then show ?thesis
    proof cases
      case 1
      then show ?thesis using tr(1,2) by (auto simp: trader_ok_def Let_def)
    next
      case 2
      have "tradeState (traders s q) \<noteq> TRADE_NONE \<Longrightarrow> trader_ok s q" using trade_inv_ok [OF inv] by simp
      then show ?thesis using 2 tr(1,2) pq new(2) by (auto simp: trader_ok_def Let_def)
    next
      case 3
      then show ?thesis
        using trade_inv_ok [OF inv, of r] other [OF 3] tr(3)
        by (cases "tradePartner (traders s r)") (auto simp: trader_ok_def Let_def)
    qed
  qed
  moreover have "map_of (tradeItems s') y = Some r \<longleftrightarrow> tradeItem (traders s' r) = Some y" for y r
  proof -
    have item: "tradeItem (traders s p) = None" "tradeItem (traders s' q) = tradeItem (traders s q)"
      using tr(2) trade_inv_ok [OF inv, of p] by (auto simp: idle_def trader_ok_def Let_def)
    then show ?thesis
      using tr(1,3,4) new trade_inv_item [OF inv, of y r]
      by (cases "r = p"; cases "r = q"; cases "y = x") (auto simp: update_conv')
  qed
  moreover have "distinct (map fst (tradeItems s'))"
    using inv tr(4) by (simp add: trade_inv_def distinct_update)
  ultimately show ?thesis unfolding trade_inv_def by blast
qed

lemma playerRequestTrade_inv:
  assumes "trade_inv {} s" "playerRequestTrade env p pos sp q i s = Some s'"
  shows "trade_inv {} s'"
proof -
  consider "s' = s" | x b where "trade_candidate env p pos sp q i s = Some (Some x)"
      "internalStartTrade env p q x s = Some (b, s')"
    using assms(2) by (auto simp: playerRequestTrade_def split: option.splits if_splits)
  then show ?thesis
  proof cases
    case 2
    then have "already_traded (te_maxDepth env) (te_heap env (world s)) x (tradeItems s) = Some False" "q \<noteq> p"
      by (auto simp: trade_candidate_def Let_def split: if_splits option.splits bool.splits)
    then show ?thesis
      using internalStartTrade_inv [OF assms(1) already_traded_absent _ 2(2)] by blast
  qed (use assms(1) in simp)
qed

lemma setTradeState_accept_inv:
  assumes inv: "trade_inv {} s" and p: "tradeState (traders s p) \<in> {TRADE_ACKNOWLEDGE, TRADE_INITIATED}"
    and q: "tradePartner (traders s p) = Some q" "tradeState (traders s q) \<noteq> TRADE_ACCEPT"
  shows "trade_inv {} (setTradeState p TRADE_ACCEPT s)"
proof -
  note pq = trade_inv_partner [OF inv q(1)]
  have "trader_ok (setTradeState p TRADE_ACCEPT s) r" for r
  proof (cases "r = p")
    case True
    then show ?thesis using trade_inv_ok [OF inv, of p] p q pq by (auto simp: trader_ok_def Let_def)
  next
    case False
    have "tradePartner (traders s r) = Some p \<Longrightarrow> r = q" using trade_inv_partner(2) [OF inv, of r p] q(1) by simp
    then show ?thesis using False trade_inv_ok [OF inv, of r] q(2) by (auto simp: trader_ok_def Let_def)
  qed
  moreover have "map_of (tradeItems (setTradeState p TRADE_ACCEPT s)) x = Some r
      \<longleftrightarrow> tradeItem (traders (setTradeState p TRADE_ACCEPT s) r) = Some x" for x r
    using trade_inv_item [OF inv, of x r] by simp
  moreover have "a \<noteq> b \<and> tradePartner (traders (setTradeState p TRADE_ACCEPT s) b) = Some a"
    if "tradePartner (traders (setTradeState p TRADE_ACCEPT s) a) = Some b" for a b
    using that trade_inv_partner [OF inv, of a b] by (auto split: if_splits)
  moreover have "distinct (map fst (tradeItems (setTradeState p TRADE_ACCEPT s)))"
    using inv by (simp add: trade_inv_def)
  ultimately show ?thesis unfolding trade_inv_def by blast
qed

lemma leave_trade_setTradeState: "leave_trade env p (setTradeState p st s) = leave_trade env p s"
  by (cases s) (auto simp: leave_trade_def take_back_def set_trader_def setTradeState_def Let_def split: option.split)

lemma close_setTradeState:
  assumes "st \<noteq> TRADE_TRANSFER" "\<not> in_transfer s p" "\<not> in_transfer s q" "tradePartner (traders s p) = Some q" "p \<noteq> q"
  shows "internalCloseTrade env p (setTradeState p st s) = internalCloseTrade env p s"
  using assms by (auto simp: internalCloseTrade_def Let_def leave_trade_setTradeState in_transfer_def)

text \<open>The state in which both items are moved.\<close>

definition erase_offer :: "nat option \<Rightarrow> (nat \<times> nat) list \<Rightarrow> (nat \<times> nat) list" where
  "erase_offer x = (case x of None \<Rightarrow> (\<lambda>xs. xs) | Some i \<Rightarrow> AList.delete i)"

definition start_transfer :: "nat \<Rightarrow> nat \<Rightarrow> 'w trading \<Rightarrow> 'w trading" where
  "start_transfer p q s = (let s1 = setTradeState q TRADE_TRANSFER (setTradeState p TRADE_TRANSFER s)
     in s1\<lparr>tradeItems := erase_offer (tradeItem (traders s q)) (erase_offer (tradeItem (traders s p)) (tradeItems s1))\<rparr>)"

lemma finish_trade_start:
  "finish_trade env p q s =
     (case exchange env p q (tradeItem (traders s p)) (tradeItem (traders s q)) (start_transfer p q s) of
        (isSuccess, s3) \<Rightarrow>
          let s4 = (if isSuccess then s3 else notify_cancel env p (notify_cancel env q s3))
          in set_trader q idle (set_trader p idle s4))"
  by (simp add: finish_trade_def start_transfer_def erase_offer_def Let_def)

lemma map_of_erase_offer:
  "map_of (erase_offer x xs) = (case x of None \<Rightarrow> map_of xs | Some i \<Rightarrow> (map_of xs)(i := None))"
  by (simp add: erase_offer_def delete_conv' split: option.split)

lemma distinct_erase_offer: "distinct (map fst xs) \<Longrightarrow> distinct (map fst (erase_offer x xs))"
  by (simp add: erase_offer_def distinct_delete split: option.split)

lemma start_transfer_traders:
  "p \<noteq> q \<Longrightarrow> traders (start_transfer p q s) r =
     (if r = p \<or> r = q then (traders s r)\<lparr>tradeState := TRADE_TRANSFER\<rparr> else traders s r)"
  by (simp add: start_transfer_def Let_def)

lemma start_transfer_inv:
  assumes inv: "trade_inv {} s" and q: "tradePartner (traders s p) = Some q"
  shows "trade_inv {p, q} (start_transfer p q s)"
proof -
  let ?s = "start_transfer p q s"
  note pq = trade_inv_partner [OF inv q]
  have tr: "tradePartner (traders ?s r) = tradePartner (traders s r)"
    "tradeItem (traders ?s r) = tradeItem (traders s r)" for r
    using pq(1) by (simp_all add: start_transfer_traders)
  have out: "tradePartner (traders s r) \<notin> {Some p, Some q}" if "r \<notin> {p, q}" for r
    using that trade_inv_partner(2) [OF inv, of r] pq(2) q by auto
  have "trader_ok ?s r" if "r \<notin> {p, q}" for r
    using that out [OF that] trade_inv_ok [OF inv, of r] pq(1)
    by (cases "tradePartner (traders s r)") (auto simp: trader_ok_def Let_def start_transfer_traders)
  moreover have "in_transfer ?s r" if "r \<in> {p, q}" for r
    using that pq(1) by (auto simp: in_transfer_def start_transfer_traders)
  moreover have "map_of (tradeItems ?s) x = Some r \<longleftrightarrow> r \<notin> {p, q} \<and> tradeItem (traders ?s r) = Some x" for x r
    using trade_inv_item [OF inv, of x r] trade_inv_item [OF inv, of x p] trade_inv_item [OF inv, of x q]
    unfolding tr by (auto simp: start_transfer_def Let_def map_of_erase_offer split: option.split)
  moreover have "distinct (map fst (tradeItems ?s))"
    using inv by (simp add: trade_inv_def start_transfer_def Let_def distinct_erase_offer)
  moreover have "a \<noteq> b \<and> tradePartner (traders ?s b) = Some a \<and> (a \<in> {p, q} \<longleftrightarrow> b \<in> {p, q})"
    if "tradePartner (traders ?s a) = Some b" for a b
    using that trade_inv_partner [OF inv, of a b] out [of a] pq(2) q unfolding tr by auto
  ultimately show ?thesis unfolding trade_inv_def by blast
qed

lemma end_transfer_inv:
  assumes inv: "trade_inv {p, q} s"
  shows "trade_inv {} (set_trader q idle (set_trader p idle s))"
proof -
  let ?s = "set_trader q idle (set_trader p idle s)"
  have out: "tradePartner (traders s r) \<notin> {Some p, Some q}" if "r \<notin> {p, q}" for r
    using that trade_inv_partner(3) [OF inv, of r] by auto
  have "trader_ok ?s r" for r
    using out [of r] trade_inv_ok [OF inv, of r]
    by (cases "tradePartner (traders s r)") (auto simp: trader_ok_def idle_def Let_def)
  moreover have "map_of (tradeItems ?s) x = Some r \<longleftrightarrow> tradeItem (traders ?s r) = Some x" for x r
    using trade_inv_item [OF inv, of x r] by (auto simp: idle_def)
  moreover have "distinct (map fst (tradeItems ?s))" using inv by (simp add: trade_inv_def)
  moreover have "a \<noteq> b \<and> tradePartner (traders ?s b) = Some a" if "tradePartner (traders ?s a) = Some b" for a b
    using that trade_inv_partner [OF inv, of a b] out [of a] by (auto simp: idle_def split: if_splits)
  ultimately show ?thesis unfolding trade_inv_def by blast
qed

lemma move_to_inv: "trade_inv X s \<Longrightarrow> trade_inv X (snd (move_to env x p avoid s))"
  by (simp add: move_to_def closes_inv split: prod.split)

lemma exchange_inv:
  assumes "trade_inv X s"
  shows "trade_inv X (snd (exchange env p q i j s))"
proof -
  have move: "trade_inv X s2" if "trade_inv X s1" "move_to env x r avoid s1 = (ret, s2)" for s1 s2 x r avoid ret
    using move_to_inv [OF that(1), of env x r avoid] that(2) by simp
  show ?thesis
    using assms by (auto simp: exchange_def dest: move split: option.split prod.split)
qed

lemma notify_cancel_inv: "trade_inv X s \<Longrightarrow> trade_inv X (notify_cancel env p s)"
  by (simp add: notify_cancel_def split: option.split)

lemma finish_trade_inv:
  assumes "trade_inv {} s" "tradePartner (traders s p) = Some q"
  shows "trade_inv {} (finish_trade env p q (setTradeState p st s))"
proof -
  have pq: "p \<noteq> q" using trade_inv_partner [OF assms] by simp
  have start: "start_transfer p q (setTradeState p st s) = start_transfer p q s"
    using pq by (cases s) (auto simp: start_transfer_def setTradeState_def set_trader_def Let_def fun_upd_twist)
  define i j where "i = tradeItem (traders s p)" and "j = tradeItem (traders s q)"
  obtain ok s3 where ex: "exchange env p q i j (start_transfer p q s) = (ok, s3)" by fastforce
  have "trade_inv {p, q} s3"
    using exchange_inv [OF start_transfer_inv [OF assms], of env p q i j] ex by simp
  then have "trade_inv {p, q} (if ok then s3 else notify_cancel env p (notify_cancel env q s3))"
    by (simp add: notify_cancel_inv)
  from end_transfer_inv [OF this] show ?thesis
    using ex pq by (simp add: finish_trade_start start i_def j_def Let_def)
qed

lemma playerAcceptTrade_inv:
  assumes "trade_inv {} s"
  shows "trade_inv {} (playerAcceptTrade env p s)"
proof (cases "te_online env (world s) p \<and> tradeState (traders s p) \<in> {TRADE_ACKNOWLEDGE, TRADE_INITIATED}")
  case False
  then show ?thesis using assms by (auto simp: playerAcceptTrade_def)
next
  case True
  show ?thesis
  proof (cases "tradePartner (traders s p)")
    case None
    then show ?thesis using assms by (simp add: playerAcceptTrade_def)
  next
    case (Some q)
    note pq = trade_inv_partner [OF assms Some]
    have nt: "\<not> in_transfer s p" "\<not> in_transfer s q" using trade_inv_transfer [OF assms] by blast+
    show ?thesis
    proof (cases "tradeState (traders s q) = TRADE_ACCEPT")
      case False
      then show ?thesis
        using setTradeState_accept_inv [OF assms _ Some] True Some assms pq(1)
        by (simp add: playerAcceptTrade_def Let_def)
    next
      case accept: True
      have "internalCloseTrade env p (setTradeState p TRADE_ACCEPT s) = internalCloseTrade env p s"
        by (rule close_setTradeState [OF _ nt Some pq(1)]) simp
      then show ?thesis
        using accept True Some assms pq(1) internalCloseTrade_inv [OF assms] finish_trade_inv [OF assms Some]
        by (simp add: playerAcceptTrade_def Let_def)
    qed
  qed
qed

section \<open>Runs\<close>

text \<open>
  Requests of players, a house put up for trade by a script (a fresh document and another
  player), acceptance, closing by a player, closing because a player moved, left or an item
  on offer was touched, and any change of the world.
\<close>

datatype 'w trade_event =
    TE_Request nat position u8 nat u16 | TE_House nat nat nat | TE_Accept nat
  | TE_Close nat | TE_Interrupt nat | TE_World 'w

fun trade_exec :: "'w trade_env \<Rightarrow> 'w trade_event \<Rightarrow> 'w trading \<Rightarrow> 'w trading option" where
  "trade_exec env (TE_Request p pos sp q i) s = playerRequestTrade env p pos sp q i s"
| "trade_exec env (TE_House p q x) s = map_option snd (internalStartTrade env p q x s)"
| "trade_exec env (TE_Accept p) s = Some (playerAcceptTrade env p s)"
| "trade_exec env (TE_Close p) s = Some (playerCloseTrade env p s)"
| "trade_exec env (TE_Interrupt p) s = Some (internalCloseTrade env p s)"
| "trade_exec env (TE_World w) s = Some (s\<lparr>world := w\<rparr>)"

fun trade_allowed :: "'w trading \<Rightarrow> 'w trade_event \<Rightarrow> bool" where
  "trade_allowed s (TE_House p q x) = (p \<noteq> q \<and> map_of (tradeItems s) x = None)"
| "trade_allowed s _ = True"

inductive trade_run :: "'w trade_env \<Rightarrow> 'w trading \<Rightarrow> 'w trading \<Rightarrow> bool" for env where
  start: "trade_run env s s"
| event: "trade_run env s0 s \<Longrightarrow> trade_allowed s ev \<Longrightarrow> trade_exec env ev s = Some s' \<Longrightarrow> trade_run env s0 s'"

definition no_trades :: "'w \<Rightarrow> 'w trading" where
  "no_trades w = \<lparr>traders = (\<lambda>p. idle), tradeItems = [], world = w\<rparr>"

lemma trade_exec_inv:
  assumes "trade_inv {} s" "trade_allowed s ev" "trade_exec env ev s = Some s'"
  shows "trade_inv {} s'"
proof (cases ev)
  case (TE_Request p pos sp q i)
  then show ?thesis using playerRequestTrade_inv [OF assms(1)] assms(3) by simp
next
  case (TE_House p q x)
  then obtain b where "internalStartTrade env p q x s = Some (b, s')" using assms(3) by auto
  then show ?thesis using internalStartTrade_inv [OF assms(1), of x p q env b s'] assms(2) TE_House by simp
next
  case (TE_Accept p)
  then show ?thesis using playerAcceptTrade_inv [OF assms(1)] assms(3) by auto
next
  case (TE_Close p)
  then show ?thesis using internalCloseTrade_inv [OF assms(1)] assms(1,3) by (auto simp: playerCloseTrade_def)
next
  case (TE_Interrupt p)
  then show ?thesis using internalCloseTrade_inv [OF assms(1)] assms(3) by auto
next
  case (TE_World w)
  then show ?thesis using assms(1,3) by auto
qed

lemma no_trades_inv: "trade_inv {} (no_trades w)"
  by (simp add: trade_inv_def no_trades_def idle_def trader_ok_def Let_def)

lemma trade_run_inv: "trade_run env s0 s \<Longrightarrow> trade_inv {} s0 \<Longrightarrow> trade_inv {} s"
  by (induction rule: trade_run.induct) (auto intro: trade_exec_inv)

section \<open>No item moves without agreement\<close>

text \<open>Both have an offer, and the other side has accepted already.\<close>

definition agreed :: "'w trading \<Rightarrow> nat \<Rightarrow> nat \<Rightarrow> nat \<Rightarrow> nat \<Rightarrow> bool" where
  "agreed s p q x y \<longleftrightarrow> tradePartner (traders s p) = Some q \<and> tradeState (traders s q) = TRADE_ACCEPT
     \<and> tradeItem (traders s p) = Some x \<and> tradeItem (traders s q) = Some y"

lemma close_without_moves:
  "internalCloseTrade (env\<lparr>te_move := f\<rparr>) p s = internalCloseTrade env p s"
  by (simp add: internalCloseTrade_def leave_trade_def take_back_def Let_def cong: option.case_cong)

lemma notify_without_moves: "notify_cancel (env\<lparr>te_move := f\<rparr>) p s = notify_cancel env p s"
  by (simp add: notify_cancel_def cong: option.case_cong)

lemma exchange_without_agreement:
  "i = None \<or> j = None \<Longrightarrow> exchange env p q i j s = (False, s)"
  by (auto simp: exchange_def add_test_def split: option.split)

lemma accept_without_agreement:
  assumes "trade_inv {} s" "\<nexists>q x y. agreed s p q x y"
  shows "playerAcceptTrade (env\<lparr>te_move := f\<rparr>) p s = playerAcceptTrade env p s"
proof (cases "tradePartner (traders s p)")
  case None
  then show ?thesis by (simp add: playerAcceptTrade_def)
next
  case (Some q)
  have "p \<noteq> q" using trade_inv_partner(1) [OF assms(1) Some] .
  have fin: "finish_trade (env\<lparr>te_move := f\<rparr>) p q (setTradeState p TRADE_ACCEPT s)
      = finish_trade env p q (setTradeState p TRADE_ACCEPT s)" if "tradeState (traders s q) = TRADE_ACCEPT"
  proof -
    have none: "tradeItem (traders s p) = None \<or> tradeItem (traders s q) = None"
      using assms(2) Some that by (auto simp: agreed_def)
    then have "exchange e p q (tradeItem (traders s p)) (tradeItem (traders s q)) s' = (False, s')"
      for e :: "'a trade_env" and s' by (rule exchange_without_agreement)
    then show ?thesis using \<open>p \<noteq> q\<close> by (simp add: finish_trade_start notify_without_moves)
  qed
  then show ?thesis
    using Some \<open>p \<noteq> q\<close> by (simp add: playerAcceptTrade_def close_without_moves Let_def)
qed

section \<open>What an agreed trade does\<close>

text \<open>The tests before the exchange: both items can be taken, and given to the other.\<close>

definition tests_pass :: "'w trade_env \<Rightarrow> 'w \<Rightarrow> nat \<Rightarrow> nat \<Rightarrow> nat \<Rightarrow> nat \<Rightarrow> bool" where
  "tests_pass env w p q x y \<longleftrightarrow>
     te_addTest env w q x = RETURNVALUE_NOERROR \<and> te_addTest env w p y = RETURNVALUE_NOERROR
     \<and> te_removeTest env w x = RETURNVALUE_NOERROR \<and> te_removeTest env w y = RETURNVALUE_NOERROR"

lemma exchange_refused:
  "\<not> tests_pass env (world s) p q x y \<Longrightarrow> exchange env p q (Some x) (Some y) s = (False, s)"
  by (auto simp: exchange_def add_test_def tests_pass_def)

text \<open>An acceptance of the second side, taken apart.\<close>

lemma accept_agreed_cases:
  assumes "trade_inv {} s" "agreed s p q x y" "te_online env (world s) p"
    and "te_canThrow env (world s) (te_position env (world s) q) (te_position env (world s) p)"
  shows "p \<noteq> q"
    and "playerAcceptTrade env p s =
      (if te_onAccept env (world s) p q (Some x) (Some y) then finish_trade env p q (setTradeState p TRADE_ACCEPT s)
       else internalCloseTrade env p (setTradeState p TRADE_ACCEPT s))"
proof -
  have q: "tradePartner (traders s p) = Some q" using assms(2) by (simp add: agreed_def)
  show pq: "p \<noteq> q" using trade_inv_partner(1) [OF assms(1) q] .
  have "tradeState (traders s p) \<in> {TRADE_ACKNOWLEDGE, TRADE_INITIATED}"
    using trade_inv_ok [OF assms(1), of p] assms(2)
    by (cases "tradeState (traders s p)") (auto simp: agreed_def trader_ok_def Let_def)
  then show "playerAcceptTrade env p s =
      (if te_onAccept env (world s) p q (Some x) (Some y) then finish_trade env p q (setTradeState p TRADE_ACCEPT s)
       else internalCloseTrade env p (setTradeState p TRADE_ACCEPT s))"
    using assms pq by (simp add: playerAcceptTrade_def agreed_def Let_def)
qed

lemma closed_trade_idle:
  assumes "agreed s p q x y" "p \<noteq> q"
  shows "traders (internalCloseTrade env p (setTradeState p TRADE_ACCEPT s)) p = idle"
    and "traders (internalCloseTrade env p (setTradeState p TRADE_ACCEPT s)) q = idle"
  using assms by (simp_all add: agreed_def internalCloseTrade_def in_transfer_def Let_def)

lemma finished_trade_idle:
  "traders (finish_trade env p q s) p = idle" "traders (finish_trade env p q s) q = idle"
  by (simp_all add: finish_trade_def set_trader_def Let_def split: prod.split)

lemma start_transfer_accept:
  "p \<noteq> q \<Longrightarrow> start_transfer p q (setTradeState p st s) = start_transfer p q s"
  by (cases s) (auto simp: start_transfer_def setTradeState_def set_trader_def Let_def fun_upd_twist)

lemma start_transfer_world: "world (start_transfer p q s) = world s"
  by (simp add: start_transfer_def Let_def)

lemma finish_agreed:
  assumes "trade_inv {} s" "agreed s p q x y"
  shows "finish_trade env p q (setTradeState p TRADE_ACCEPT s)
    = (case exchange env p q (Some x) (Some y) (start_transfer p q s) of
        (isSuccess, s3) \<Rightarrow>
          set_trader q idle (set_trader p idle
            (if isSuccess then s3 else notify_cancel env p (notify_cancel env q s3))))"
proof -
  have "tradePartner (traders s p) = Some q" using assms(2) by (simp add: agreed_def)
  from trade_inv_partner(1) [OF assms(1) this] have "p \<noteq> q" .
  with assms(2) show ?thesis
    by (simp add: finish_trade_start start_transfer_accept agreed_def Let_def)
qed

text \<open>What the exchange of an agreed trade leaves of the world.\<close>

lemma accept_agreed_world:
  assumes inv: "trade_inv {} s" and agreed: "agreed s p q x y" and tests: "tests_pass env (world s) p q x y"
    and move1: "move_to env x q (Some y) (start_transfer p q s) = (ret1, s1)"
  shows "world (finish_trade env p q (setTradeState p TRADE_ACCEPT s))
    = (if ret1 = RETURNVALUE_NOERROR
       then te_onTradeEvent env ON_TRADE_TRANSFER y p (te_onTradeEvent env ON_TRADE_TRANSFER x q
              (world (snd (move_to env y p None s1))))
       else te_onTradeEvent env ON_TRADE_CANCEL x p (te_onTradeEvent env ON_TRADE_CANCEL y q (world s1)))"
proof -
  have q: "tradePartner (traders s p) = Some q" using agreed by (simp add: agreed_def)
  note pq = trade_inv_partner(1) [OF inv q]
  let ?t = "start_transfer p q s"
  have t: "trade_inv {p, q} (?t\<lparr>world := w\<rparr>)" for w
    using start_transfer_inv [OF inv q] by simp
  have "\<exists>w closes. s1 = fold (internalCloseTrade env) closes (?t\<lparr>world := w\<rparr>)"
    using move1 by (auto simp: move_to_def split: prod.splits)
  then obtain w closes where s1: "s1 = fold (internalCloseTrade env) closes (?t\<lparr>world := w\<rparr>)" by blast
  have items: "tradeItem (traders s1 p) = Some x" "tradeItem (traders s1 q) = Some y"
    unfolding s1 using closes_transfer [OF t, of p env closes w] closes_transfer [OF t, of q env closes w]
      agreed pq by (simp_all add: start_transfer_traders agreed_def)
  have ex: "exchange env p q (Some x) (Some y) ?t
      = (if ret1 = RETURNVALUE_NOERROR
         then (True, (snd (move_to env y p None s1))\<lparr>world := te_onTradeEvent env ON_TRADE_TRANSFER y p
                (te_onTradeEvent env ON_TRADE_TRANSFER x q (world (snd (move_to env y p None s1))))\<rparr>)
         else (False, s1))"
    using tests move1
    by (simp add: exchange_def add_test_def tests_pass_def start_transfer_world split: prod.split)
  show ?thesis
    unfolding finish_agreed [OF inv agreed] ex using items
    by (cases "ret1 = RETURNVALUE_NOERROR") (simp_all add: notify_cancel_def)
qed

lemma finish_without_tests:
  assumes inv: "trade_inv {} s" and agreed: "agreed s p q x y" and "\<not> tests_pass env (world s) p q x y"
  shows "finish_trade (env\<lparr>te_move := f\<rparr>) p q (setTradeState p TRADE_ACCEPT s)
    = finish_trade env p q (setTradeState p TRADE_ACCEPT s)"
proof -
  have "\<not> tests_pass (env\<lparr>te_move := f\<rparr>) (world s) p q x y" using assms(3) by (simp add: tests_pass_def)
  then have "exchange (env\<lparr>te_move := f\<rparr>) p q (Some x) (Some y) (start_transfer p q s) = (False, start_transfer p q s)"
    "exchange env p q (Some x) (Some y) (start_transfer p q s) = (False, start_transfer p q s)"
    using assms(3) by (simp_all add: exchange_refused start_transfer_world)
  then show ?thesis unfolding finish_agreed [OF inv agreed] by (simp add: notify_without_moves)
qed

section \<open>Properties\<close>

text \<open>
  C10. After any requests, acceptances, cancellations and interruptions, in any order, the
  trades are consistent: partners are two players who point at each other, nobody is left
  in the middle of a transfer or with an acceptance both have given, a player without a
  partner has no offer, and the table of items on offer is exactly what the traders offer,
  so no item is in two trades.
\<close>

theorem trades_stay_consistent:
  assumes "trade_run env (no_trades w) s"
  shows "{(p, q). tradePartner (traders s p) = Some q \<and> (p = q \<or> tradePartner (traders s q) \<noteq> Some p)} = {}
    \<and> {p. tradeState (traders s p) = TRADE_TRANSFER} = {}
    \<and> {p. tradePartner (traders s p) = None} = {p. traders s p = idle}
    \<and> {(x, p). map_of (tradeItems s) x = Some p} = {(x, p). tradeItem (traders s p) = Some x}
    \<and> {(p, q). tradePartner (traders s p) = Some q \<and> tradeState (traders s p) = TRADE_ACCEPT
        \<and> tradeState (traders s q) = TRADE_ACCEPT} = {}"
proof -
  have inv: "trade_inv {} s" by (rule trade_run_inv [OF assms no_trades_inv])
  have ok: "trader_ok s p" for p using trade_inv_ok [OF inv] by simp
  have "{(p, q). tradePartner (traders s p) = Some q \<and> (p = q \<or> tradePartner (traders s q) \<noteq> Some p)} = {}"
    using trade_inv_partner [OF inv] by blast
  moreover have "tradeState (traders s p) \<noteq> TRADE_TRANSFER" for p
    using ok [of p] by (simp add: trader_ok_def Let_def)
  then have "{p. tradeState (traders s p) = TRADE_TRANSFER} = {}" by blast
  moreover have "tradePartner (traders s p) = None \<longleftrightarrow> traders s p = idle" for p
    using ok [of p] by (cases "traders s p") (auto simp: trader_ok_def idle_def Let_def)
  then have "{p. tradePartner (traders s p) = None} = {p. traders s p = idle}" by simp
  moreover have "{(x, p). map_of (tradeItems s) x = Some p} = {(x, p). tradeItem (traders s p) = Some x}"
    using trade_inv_item [OF inv] by simp
  moreover have "{(p, q). tradePartner (traders s p) = Some q \<and> tradeState (traders s p) = TRADE_ACCEPT
        \<and> tradeState (traders s q) = TRADE_ACCEPT} = {}"
    using ok unfolding trader_ok_def Let_def by blast
  ultimately show ?thesis by (intro conjI)
qed

text \<open>
  C11. Items change hands only by agreement, and both sides come out of the trade. Unless
  both have an offer and the other side has accepted it already, accepting moves nothing,
  whatever moving would do. When they have, the accepting player is online and in sight of
  the other, then whatever the scripts, the tests and the moves answer, and whatever trades
  of others the moves close: both are idle again afterwards; if a script objects or a test
  of giving and taking the items fails, nothing is moved; otherwise the first item is moved
  to the other side; if that is refused the second is not touched and both are told of the
  end of the trade; if it works the second item is moved to the accepting player and both
  are told of the transfer. The code does not look at the result of the second move, so a
  second item that cannot be moved stays where it is while the first is gone.
\<close>

theorem trade_needs_agreement:
  assumes "trade_run env (no_trades w) s"
  shows "((\<nexists>q x y. agreed s p q x y) \<longrightarrow> playerAcceptTrade (env\<lparr>te_move := f\<rparr>) p s = playerAcceptTrade env p s)
    \<and> (agreed s p q x y \<and> te_online env (world s) p
         \<and> te_canThrow env (world s) (te_position env (world s) q) (te_position env (world s) p)
       \<longrightarrow> traders (playerAcceptTrade env p s) p = idle \<and> traders (playerAcceptTrade env p s) q = idle
         \<and> (if te_onAccept env (world s) p q (Some x) (Some y) \<and> tests_pass env (world s) p q x y
            then world (playerAcceptTrade env p s)
              = (case move_to env x q (Some y) (start_transfer p q s) of (ret1, s1) \<Rightarrow>
                  if ret1 = RETURNVALUE_NOERROR
                  then te_onTradeEvent env ON_TRADE_TRANSFER y p (te_onTradeEvent env ON_TRADE_TRANSFER x q
                         (world (snd (move_to env y p None s1))))
                  else te_onTradeEvent env ON_TRADE_CANCEL x p (te_onTradeEvent env ON_TRADE_CANCEL y q (world s1)))
            else playerAcceptTrade (env\<lparr>te_move := f\<rparr>) p s = playerAcceptTrade env p s))"
proof (intro conjI impI)
  have inv: "trade_inv {} s" by (rule trade_run_inv [OF assms no_trades_inv])
  show "playerAcceptTrade (env\<lparr>te_move := f\<rparr>) p s = playerAcceptTrade env p s"
    if "\<nexists>q x y. agreed s p q x y"
    using accept_without_agreement [OF inv that] .
  assume *: "agreed s p q x y \<and> te_online env (world s) p
    \<and> te_canThrow env (world s) (te_position env (world s) q) (te_position env (world s) p)"
  then have agreed: "agreed s p q x y" by blast
  have accept: "playerAcceptTrade e p s =
      (if te_onAccept e (world s) p q (Some x) (Some y) then finish_trade e p q (setTradeState p TRADE_ACCEPT s)
       else internalCloseTrade e p (setTradeState p TRADE_ACCEPT s))"
    if "te_online e (world s) p" "te_canThrow e (world s) (te_position e (world s) q) (te_position e (world s) p)"
    for e :: "'a trade_env"
    using accept_agreed_cases [OF inv agreed that] by blast
  note here = accept [of env] and there = accept [of "env\<lparr>te_move := f\<rparr>"]
  have pq: "p \<noteq> q" using accept_agreed_cases(1) [OF inv agreed, of env] * by blast
  show "traders (playerAcceptTrade env p s) p = idle" "traders (playerAcceptTrade env p s) q = idle"
    using here * by (simp_all add: finished_trade_idle closed_trade_idle [OF agreed pq])
  show "if te_onAccept env (world s) p q (Some x) (Some y) \<and> tests_pass env (world s) p q x y
      then world (playerAcceptTrade env p s)
        = (case move_to env x q (Some y) (start_transfer p q s) of (ret1, s1) \<Rightarrow>
            if ret1 = RETURNVALUE_NOERROR
            then te_onTradeEvent env ON_TRADE_TRANSFER y p (te_onTradeEvent env ON_TRADE_TRANSFER x q
                   (world (snd (move_to env y p None s1))))
            else te_onTradeEvent env ON_TRADE_CANCEL x p (te_onTradeEvent env ON_TRADE_CANCEL y q (world s1)))
      else playerAcceptTrade (env\<lparr>te_move := f\<rparr>) p s = playerAcceptTrade env p s"
    using here there * accept_agreed_world [OF inv agreed] finish_without_tests [OF inv agreed]
    by (auto simp: close_without_moves split: prod.split)
qed

text \<open>Two players, two items; the world is the list of the moves made.\<close>

definition demo_env :: "(nat \<times> nat) list trade_env" where
  "demo_env = \<lparr>te_online = \<lambda>w p. True, te_position = \<lambda>w p. Position 9 9 7,
     te_itemPosition = \<lambda>w x. Position 9 9 7, te_canThrow = \<lambda>w a b. True,
     te_getThing = \<lambda>w p a i t. None, te_heap = \<lambda>w. apart, te_types = \<lambda>i. brick, te_maxDepth = 10,
     te_houseRefuses = \<lambda>w p x. False, te_onRequest = \<lambda>w p q x. True, te_onAccept = \<lambda>w p q x y. True,
     te_addTest = \<lambda>w p x. RETURNVALUE_NOERROR, te_removeTest = \<lambda>w x. RETURNVALUE_NOERROR,
     te_move = \<lambda>w x p a. (RETURNVALUE_NOERROR, w @ [(x, p)], []), te_onTradeEvent = \<lambda>e x p w. w\<rparr>"

definition demo_offered :: "(nat \<times> nat) list trading" where
  "demo_offered = \<lparr>traders = (\<lambda>p. idle)(1 := \<lparr>tradeState = TRADE_INITIATED, tradePartner = Some 2, tradeItem = Some 2\<rparr>,
       2 := \<lparr>tradeState = TRADE_ACCEPT, tradePartner = Some 1, tradeItem = Some 3\<rparr>),
     tradeItems = [(2, 1), (3, 2)], world = []\<rparr>"

lemma demo_run: "trade_run demo_env (no_trades []) demo_offered"
proof -
  have free: "thing_owner apart x = Some 0" "isStoreItem (th_item (apart x)) = False" if "2 \<le> x" for x
  proof -
    have item: "\<not> is_container apart x" "it_attrs (th_item (apart x)) = []"
      using that by (simp_all add: is_container_def apart_def plain_def)
    then have "getOwnerId (th_item (apart x)) = 0" by (simp add: getOwnerId_def hasAttribute_def)
    then show "thing_owner apart x = Some 0"
      using item(1) by (simp add: thing_owner_def first_owner.simps [of apart "[x]"] first_owner.simps [of apart "[]"])
    show "isStoreItem (th_item (apart x)) = False" using item(2) by (simp add: isStoreItem_def getAttributeValue_def)
  qed
  define s1 :: "(nat \<times> nat) list trading" where "s1 = \<lparr>traders = (\<lambda>p. idle)(1 := \<lparr>tradeState = TRADE_INITIATED, tradePartner = Some 2, tradeItem = Some 2\<rparr>,
      2 := \<lparr>tradeState = TRADE_ACKNOWLEDGE, tradePartner = Some 1, tradeItem = None\<rparr>),
      tradeItems = [(2, 1)], world = []\<rparr>"
  define s2 where "s2 = s1\<lparr>traders := (traders s1)(2 := \<lparr>tradeState = TRADE_INITIATED, tradePartner = Some 1, tradeItem = Some 3\<rparr>),
      tradeItems := [(2, 1), (3, 2)]\<rparr>"
  have env: "te_heap demo_env w = apart" "te_online demo_env w p" "te_canThrow demo_env w a b" for w p a b
    by (simp_all add: demo_env_def)
  have e1: "trade_exec demo_env (TE_House 1 2 2) (no_trades []) = Some s1"
    by (simp add: internalStartTrade_def no_trades_def idle_def env hasOwner_def free set_trader_def s1_def)
  have e2: "trade_exec demo_env (TE_House 2 1 3) s1 = Some s2"
    by (simp add: internalStartTrade_def env hasOwner_def free set_trader_def s1_def s2_def)
  have e3: "trade_exec demo_env (TE_Accept 2) s2 = Some demo_offered"
    by (simp add: playerAcceptTrade_def env setTradeState_def set_trader_def demo_offered_def s1_def s2_def)
  have "trade_run demo_env (no_trades []) s1"
    by (rule trade_run.event [OF trade_run.start _ e1]) (simp add: no_trades_def)
  then have "trade_run demo_env (no_trades []) s2"
    by (rule trade_run.event [OF _ _ e2]) (simp add: s1_def)
  then show ?thesis by (rule trade_run.event [OF _ _ e3]) simp
qed

lemma trades_stay_consistent_witness:
  "{(x, p). map_of (tradeItems demo_offered) x = Some p} = {(x, p). tradeItem (traders demo_offered p) = Some x}
    \<and> map_of (tradeItems demo_offered) 3 = Some 2"
proof
  show "{(x, p). map_of (tradeItems demo_offered) x = Some p} = {(x, p). tradeItem (traders demo_offered p) = Some x}"
    using trades_stay_consistent [OF demo_run] by (elim conjE)
qed (simp add: demo_offered_def)

lemma trade_needs_agreement_witness:
  "world (playerAcceptTrade demo_env 1 demo_offered) = [(2, 2), (3, 1)]
    \<and> traders (playerAcceptTrade demo_env 1 demo_offered) 1 = idle
    \<and> traders (playerAcceptTrade demo_env 1 demo_offered) 2 = idle"
proof -
  have agreed: "agreed demo_offered 1 2 2 3" by (simp add: agreed_def demo_offered_def)
  have moves: "move_to demo_env 2 2 (Some 3) (start_transfer 1 2 demo_offered)
      = (RETURNVALUE_NOERROR, (start_transfer 1 2 demo_offered)\<lparr>world := [(2, 2)]\<rparr>)"
    by (simp add: move_to_def start_transfer_world) (simp add: demo_env_def demo_offered_def)
  have "te_online demo_env (world demo_offered) 1"
    "te_canThrow demo_env (world demo_offered) (te_position demo_env (world demo_offered) 2)
       (te_position demo_env (world demo_offered) 1)"
    "te_onAccept demo_env (world demo_offered) 1 2 (Some 2) (Some 3)"
    "tests_pass demo_env (world demo_offered) 1 2 2 3"
    by (simp_all add: demo_env_def tests_pass_def)
  with agreed moves have "world (playerAcceptTrade demo_env 1 demo_offered) = [(2, 2), (3, 1)]
      \<and> traders (playerAcceptTrade demo_env 1 demo_offered) 1 = idle
      \<and> traders (playerAcceptTrade demo_env 1 demo_offered) 2 = idle"
    using trade_needs_agreement [OF demo_run, where p = 1 and q = 2 and x = 2 and y = 3]
    by (simp add: move_to_def) (simp add: demo_env_def)
  then show ?thesis .
qed

end
