(* ===== verification/Dispatcher.thy ===== *)
theory Dispatcher
  imports Prelude
begin

text \<open>
  The dispatcher (src/src/game/scheduling: task.hpp, task.cpp, dispatcher.hpp, dispatcher.cpp):
  the one thread that changes the game. Every thread has queues of its own, one per group, in
  which it posts events; the dispatcher merges them into its own queues, runs the groups in
  order, then the scheduled events (timers) that are due, and waits. What a posted function
  does is an argument: it changes the world, of any type, and posts, schedules and stops
  events. Scheduled tasks are shared, so they live in a list and are referred to by their
  index; plain tasks are values. The clock \<open>OTSYS_TIME\<close> is the cached one of the code. Names
  of contexts, logging and metrics are left out; \<open>ds_trace\<close> records what was asked for and what
  happened, and is not in the code.
\<close>

section \<open>Tasks\<close>

datatype TaskGroup = Walk | WalkParallel | Serial | GenericParallel

text \<open>\<open>t_func\<close> is \<open>None\<close> when the task is cancelled.\<close>

record 'f task =
  t_func :: "'f option"
  t_utime :: int
  t_expiration :: int
  t_id :: u64
  t_delay :: u32
  t_cycle :: bool

definition new_task :: "int \<Rightarrow> u32 \<Rightarrow> 'f \<Rightarrow> 'f task" where
  "new_task now expiresAfterMs f =
     \<lparr>t_func = Some f, t_utime = now, t_expiration = (if expiresAfterMs > 0 then now + uint expiresAfterMs else 0),
      t_id = 0, t_delay = 0, t_cycle = False\<rparr>"

definition new_timer :: "int \<Rightarrow> 'f \<Rightarrow> u32 \<Rightarrow> bool \<Rightarrow> 'f task" where
  "new_timer now f delay cycle =
     \<lparr>t_func = Some f, t_utime = now + uint delay, t_expiration = 0, t_id = 0, t_delay = delay, t_cycle = cycle\<rparr>"

definition hasExpired :: "int \<Rightarrow> 'f task \<Rightarrow> bool" where
  "hasExpired now t \<longleftrightarrow> t_expiration t \<noteq> 0 \<and> t_expiration t < now"

definition isCanceled :: "'f task \<Rightarrow> bool" where
  "isCanceled t \<longleftrightarrow> t_func t = None"

definition cancel :: "'f task \<Rightarrow> 'f task" where
  "cancel t = t\<lparr>t_func := None\<rparr>"

definition updateTime :: "int \<Rightarrow> 'f task \<Rightarrow> 'f task" where
  "updateTime now t = t\<lparr>t_utime := now + uint (t_delay t)\<rparr>"

text \<open>The next event id; \<open>0\<close> is skipped when the counter wraps.\<close>

definition next_id :: "u64 \<Rightarrow> u64" where
  "next_id lastId = (if lastId + 1 = 0 then 1 else lastId + 1)"

section \<open>The state\<close>

record 'f thread_tasks =
  th_tasks :: "TaskGroup \<Rightarrow> 'f task list"
  th_scheduled :: "nat list"

datatype 'f trace =
    Posted TaskGroup 'f | Ran TaskGroup 'f | Dropped TaskGroup 'f
  | Scheduled nat u32 bool int | Fired nat int int | Skipped nat

record ('f, 'w) dispatcher =
  ds_threads :: "'f thread_tasks list"
  m_tasks :: "TaskGroup \<Rightarrow> 'f task list"
  scheduledTasks :: "nat list"
  scheduledTasksRef :: "u64 \<rightharpoonup> nat"
  ds_timers :: "'f task list"
  LAST_EVENT_ID :: u64
  hasPendingTasks :: bool
  dispatcherCycle :: u64
  otsys_time :: int
  ds_world :: 'w
  ds_trace :: "'f trace list"

definition log_trace :: "'f trace \<Rightarrow> ('f, 'w) dispatcher \<Rightarrow> ('f, 'w) dispatcher" where
  "log_trace e d = d\<lparr>ds_trace := ds_trace d @ [e]\<rparr>"

section \<open>Posting\<close>

definition notify :: "('f, 'w) dispatcher \<Rightarrow> ('f, 'w) dispatcher" where
  "notify d = d\<lparr>hasPendingTasks := True\<rparr>"

definition set_thread :: "nat \<Rightarrow> 'f thread_tasks \<Rightarrow> ('f, 'w) dispatcher \<Rightarrow> ('f, 'w) dispatcher" where
  "set_thread t q d = d\<lparr>ds_threads := (ds_threads d)[t := q]\<rparr>"

definition post :: "nat \<Rightarrow> TaskGroup \<Rightarrow> u32 \<Rightarrow> 'f \<Rightarrow> ('f, 'w) dispatcher \<Rightarrow> ('f, 'w) dispatcher" where
  "post t g expires f d =
     (let q = ds_threads d ! t
      in notify (log_trace (Posted g f)
           (set_thread t (q\<lparr>th_tasks := (th_tasks q)(g := th_tasks q g @ [new_task (otsys_time d) expires f])\<rparr>) d)))"

definition addEvent :: "nat \<Rightarrow> 'f \<Rightarrow> u32 \<Rightarrow> ('f, 'w) dispatcher \<Rightarrow> ('f, 'w) dispatcher" where
  "addEvent t f expiresAfterMs = post t Serial expiresAfterMs f"

definition addWalkEvent :: "nat \<Rightarrow> 'f \<Rightarrow> u32 \<Rightarrow> ('f, 'w) dispatcher \<Rightarrow> ('f, 'w) dispatcher" where
  "addWalkEvent t f expiresAfterMs = post t Walk expiresAfterMs f"

definition asyncEvent :: "nat \<Rightarrow> 'f \<Rightarrow> TaskGroup \<Rightarrow> ('f, 'w) dispatcher \<Rightarrow> ('f, 'w) dispatcher" where
  "asyncEvent t f g = post t g 0 f"

text \<open>
  \<open>emplace\<close> keeps the entry of an id that is there already. The trace records what was asked
  for, the delay and the cycle, and when.
\<close>

definition scheduleEvent :: "nat \<Rightarrow> u32 \<Rightarrow> 'f \<Rightarrow> bool \<Rightarrow> ('f, 'w) dispatcher \<Rightarrow> ('f, 'w) dispatcher" where
  "scheduleEvent t delay f cycle d =
     (let i = next_id (LAST_EVENT_ID d); a = length (ds_timers d); q = ds_threads d ! t
      in notify (log_trace (Scheduled a delay cycle (otsys_time d)) (set_thread t (q\<lparr>th_scheduled := th_scheduled q @ [a]\<rparr>)
           (d\<lparr>LAST_EVENT_ID := i, ds_timers := ds_timers d @ [(new_timer (otsys_time d) f delay cycle)\<lparr>t_id := i\<rparr>],
              scheduledTasksRef := (case scheduledTasksRef d i of
                  None \<Rightarrow> (scheduledTasksRef d)(i \<mapsto> a) | Some _ \<Rightarrow> scheduledTasksRef d)\<rparr>))))"

definition stopEvent :: "u64 \<Rightarrow> ('f, 'w) dispatcher \<Rightarrow> ('f, 'w) dispatcher" where
  "stopEvent i d = (case scheduledTasksRef d i of
      None \<Rightarrow> d
    | Some a \<Rightarrow> d\<lparr>ds_timers := (ds_timers d)[a := cancel (ds_timers d ! a)],
                  scheduledTasksRef := (scheduledTasksRef d)(i := None)\<rparr>)"

text \<open>What a function may ask of the dispatcher.\<close>

datatype 'f action =
    AddEvent 'f u32 | AddWalkEvent 'f u32 | AsyncEvent 'f TaskGroup | ScheduleEvent u32 'f bool | StopEvent u64

fun act :: "nat \<Rightarrow> 'f action \<Rightarrow> ('f, 'w) dispatcher \<Rightarrow> ('f, 'w) dispatcher" where
  "act t (AddEvent f e) = addEvent t f e"
| "act t (AddWalkEvent f e) = addWalkEvent t f e"
| "act t (AsyncEvent f g) = asyncEvent t f g"
| "act t (ScheduleEvent delay f cycle) = scheduleEvent t delay f cycle"
| "act t (StopEvent i) = stopEvent i"

type_synonym ('f, 'w) runner = "'f \<Rightarrow> 'w \<Rightarrow> 'w \<times> 'f action list"

definition run_func :: "('f, 'w) runner \<Rightarrow> nat \<Rightarrow> 'f \<Rightarrow> ('f, 'w) dispatcher \<Rightarrow> ('f, 'w) dispatcher" where
  "run_func runner t f d = (case runner f (ds_world d) of (w, acts) \<Rightarrow> fold (act t) acts (d\<lparr>ds_world := w\<rparr>))"

section \<open>Running the events\<close>

text \<open>\<open>Task::execute\<close> on thread \<open>t\<close>; the result says whether the function was called.\<close>

definition execute_task ::
    "('f, 'w) runner \<Rightarrow> nat \<Rightarrow> TaskGroup \<Rightarrow> 'f task \<Rightarrow> ('f, 'w) dispatcher \<Rightarrow> bool \<times> ('f, 'w) dispatcher" where
  "execute_task runner t g task d = (case t_func task of
      None \<Rightarrow> (False, d)
    | Some f \<Rightarrow>
        if hasExpired (otsys_time d) task then (False, log_trace (Dropped g f) d)
        else (True, run_func runner t f (log_trace (Ran g f) d)))"

definition execute_serial_task ::
    "('f, 'w) runner \<Rightarrow> nat \<Rightarrow> TaskGroup \<Rightarrow> 'f task \<Rightarrow> ('f, 'w) dispatcher \<Rightarrow> ('f, 'w) dispatcher" where
  "execute_serial_task runner me g task d = (case execute_task runner me g task d of
      (called, d1) \<Rightarrow> if called then d1\<lparr>dispatcherCycle := dispatcherCycle d1 + 1\<rparr> else d1)"

definition clear_group :: "TaskGroup \<Rightarrow> ('f, 'w) dispatcher \<Rightarrow> ('f, 'w) dispatcher" where
  "clear_group g d = d\<lparr>m_tasks := (m_tasks d)(g := [])\<rparr>"

definition executeSerialEvents ::
    "('f, 'w) runner \<Rightarrow> nat \<Rightarrow> TaskGroup \<Rightarrow> ('f, 'w) dispatcher \<Rightarrow> ('f, 'w) dispatcher" where
  "executeSerialEvents runner me g d = clear_group g (fold (execute_serial_task runner me g) (m_tasks d g) d)"

text \<open>
  How \<open>asyncWait\<close> splits the indices over the threads: blocks of
  \<open>ceil (size / threads)\<close>, exact below 2^24, where a float holds every integer.
\<close>

definition size_per_block :: "nat \<Rightarrow> nat \<Rightarrow> nat" where
  "size_per_block sz threads = (sz + threads - 1) div threads"

function blocks :: "nat \<Rightarrow> nat \<Rightarrow> nat \<Rightarrow> (nat \<times> nat) list" where
  "blocks sz block i = (if i < sz \<and> 0 < block then (i, min sz (i + block)) # blocks sz block (i + block) else [])"
  by auto
termination by (relation "measure (\<lambda>(sz, block, i). sz - i)") auto

declare blocks.simps [simp del]

definition generatePartition :: "nat \<Rightarrow> nat \<Rightarrow> (nat \<times> nat) list" where
  "generatePartition sz threads = (if sz = 0 then [] else blocks sz (size_per_block sz threads) 0)"

text \<open>The indices the caller runs itself, and the range given to the pool.\<close>

definition asyncWait :: "bool \<Rightarrow> nat \<Rightarrow> nat \<Rightarrow> nat list \<times> nat list" where
  "asyncWait disabled threads requestSize =
     (if requestSize = 0 then ([], [])
      else if disabled then ([0..<requestSize], [])
      else let partitions = generatePartition requestSize threads
           in ([fst (partitions ! 0)..<snd (partitions ! 0)],
               if length partitions > 1 then [fst (partitions ! 1)..<snd (last partitions)] else []))"

text \<open>In which order and on which threads the indices run is the list \<open>sch\<close>.\<close>

definition executeParallelEvents ::
    "('f, 'w) runner \<Rightarrow> TaskGroup \<Rightarrow> (nat \<times> nat) list \<Rightarrow> ('f, 'w) dispatcher \<Rightarrow> ('f, 'w) dispatcher" where
  "executeParallelEvents runner g sch d =
     clear_group g (fold (\<lambda>(i, t) e. snd (execute_task runner t g (m_tasks d g ! i) e)) sch d)"

section \<open>Merging\<close>

definition insert_timer :: "'f task list \<Rightarrow> nat \<Rightarrow> nat list \<Rightarrow> nat list" where
  "insert_timer ts a xs = takeWhile (\<lambda>b. t_utime (ts ! b) \<le> t_utime (ts ! a)) xs
     @ a # dropWhile (\<lambda>b. t_utime (ts ! b) \<le> t_utime (ts ! a)) xs"

text \<open>The two lists after the swap and the insertion.\<close>

definition merge_lists :: "'a list \<Rightarrow> 'a list \<Rightarrow> 'a list" where
  "merge_lists threadTasks tasks =
     (let (tasks1, threadTasks1) = (if length threadTasks > length tasks then (threadTasks, tasks) else (tasks, threadTasks))
      in tasks1 @ threadTasks1)"

definition merge_group :: "TaskGroup \<Rightarrow> 'f thread_tasks \<times> (TaskGroup \<Rightarrow> 'f task list)
    \<Rightarrow> 'f thread_tasks \<times> (TaskGroup \<Rightarrow> 'f task list)" where
  "merge_group g = (\<lambda>(q, m). (q\<lparr>th_tasks := (th_tasks q)(g := [])\<rparr>, m(g := merge_lists (th_tasks q g) (m g))))"

definition merge_thread :: "TaskGroup list \<Rightarrow> bool \<Rightarrow> nat \<Rightarrow> ('f, 'w) dispatcher \<Rightarrow> ('f, 'w) dispatcher" where
  "merge_thread groups timers t d =
     (case fold merge_group groups (ds_threads d ! t, m_tasks d) of (q, m) \<Rightarrow>
        let d1 = d\<lparr>m_tasks := m\<rparr>
        in if timers then
             set_thread t (q\<lparr>th_scheduled := []\<rparr>)
               (d1\<lparr>scheduledTasks := fold (insert_timer (ds_timers d)) (th_scheduled q) (scheduledTasks d)\<rparr>)
           else set_thread t q d1)"

definition merge_events :: "TaskGroup list \<Rightarrow> bool \<Rightarrow> ('f, 'w) dispatcher \<Rightarrow> ('f, 'w) dispatcher" where
  "merge_events groups timers d = fold (merge_thread groups timers) [0..<length (ds_threads d)] d"

definition mergeAsyncEvents :: "('f, 'w) dispatcher \<Rightarrow> ('f, 'w) dispatcher" where
  "mergeAsyncEvents = merge_events [WalkParallel, GenericParallel] False"

definition checkPendingTasks :: "('f, 'w) dispatcher \<Rightarrow> ('f, 'w) dispatcher" where
  "checkPendingTasks d =
     d\<lparr>hasPendingTasks := (\<exists>g \<in> {Walk, WalkParallel, Serial, GenericParallel}. m_tasks d g \<noteq> [])\<rparr>"

definition mergeEvents :: "('f, 'w) dispatcher \<Rightarrow> ('f, 'w) dispatcher" where
  "mergeEvents d = checkPendingTasks (merge_events [Walk, Serial] True d)"

section \<open>Timers\<close>

definition timer_executed ::
    "('f, 'w) runner \<Rightarrow> nat \<Rightarrow> nat \<Rightarrow> ('f, 'w) dispatcher \<Rightarrow> bool \<times> ('f, 'w) dispatcher" where
  "timer_executed runner me a d = (case t_func (ds_timers d ! a) of
      None \<Rightarrow> (False, log_trace (Skipped a) d)
    | Some f \<Rightarrow>
        if hasExpired (otsys_time d) (ds_timers d ! a) then (False, log_trace (Skipped a) d)
        else (True, run_func runner me f (log_trace (Fired a (t_utime (ds_timers d ! a)) (otsys_time d)) d)))"

definition fire_timer :: "('f, 'w) runner \<Rightarrow> nat \<Rightarrow> nat \<Rightarrow> ('f, 'w) dispatcher \<Rightarrow> ('f, 'w) dispatcher" where
  "fire_timer runner me a d = (case timer_executed runner me a d of (called, d1) \<Rightarrow>
      let task = ds_timers d1 ! a; q = ds_threads d1 ! me
      in if called \<and> t_cycle task then
           set_thread me (q\<lparr>th_scheduled := th_scheduled q @ [a]\<rparr>)
             (d1\<lparr>ds_timers := (ds_timers d1)[a := updateTime (otsys_time d1) task]\<rparr>)
         else d1\<lparr>scheduledTasksRef := (scheduledTasksRef d1)(t_id task := None)\<rparr>)"

text \<open>The loop; the second result is what is left of \<open>scheduledTasks\<close>.\<close>

fun fire_timers ::
    "('f, 'w) runner \<Rightarrow> nat \<Rightarrow> nat list \<Rightarrow> ('f, 'w) dispatcher \<Rightarrow> ('f, 'w) dispatcher \<times> nat list" where
  "fire_timers runner me [] d = (d, [])"
| "fire_timers runner me (a # as) d =
     (if t_utime (ds_timers d ! a) > otsys_time d then (d, a # as)
      else fire_timers runner me as (fire_timer runner me a d))"

text \<open>\<open>executeScheduledEvents\<close> up to the merge of the asynchronous events.\<close>

definition executeScheduledEvents :: "('f, 'w) runner \<Rightarrow> nat \<Rightarrow> ('f, 'w) dispatcher \<Rightarrow> ('f, 'w) dispatcher" where
  "executeScheduledEvents runner me d =
     (case fire_timers runner me (scheduledTasks d) d of (d1, rest) \<Rightarrow> d1\<lparr>scheduledTasks := rest\<rparr>)"

text \<open>\<open>None\<close> is \<open>milliseconds::max()\<close>.\<close>

definition timeUntilNextScheduledTask :: "('f, 'w) dispatcher \<Rightarrow> int option" where
  "timeUntilNextScheduledTask d = (case scheduledTasks d of
      [] \<Rightarrow> None
    | a # _ \<Rightarrow> Some (max (t_utime (ds_timers d ! a) - otsys_time d) 0))"

section \<open>The loop of the dispatcher thread\<close>

text \<open>
  Where the loop stands: \<open>executeEvents\<close> goes through the groups, \<open>executeScheduledEvents\<close>
  runs the timers and what they posted asynchronously, then the loop merges once more and
  waits. Between any two statements other threads may post.
\<close>

datatype phase =
    Merge TaskGroup | Check TaskGroup | Execute TaskGroup | MergeAsync TaskGroup
  | Timers | MergeTimersAsync | ExecuteTimersAsync | MergeLast | CheckLast | Waiting

fun next_group :: "TaskGroup \<Rightarrow> phase" where
  "next_group Walk = Execute WalkParallel"
| "next_group WalkParallel = Merge Serial"
| "next_group Serial = Execute GenericParallel"
| "next_group GenericParallel = Timers"

definition is_serial :: "TaskGroup \<Rightarrow> bool" where
  "is_serial g \<longleftrightarrow> g = Walk \<or> g = Serial"

text \<open>An order in which the pool may run the tasks of a group.\<close>

definition pool_order :: "('f, 'w) dispatcher \<Rightarrow> TaskGroup \<Rightarrow> (nat \<times> nat) list \<Rightarrow> bool" where
  "pool_order d g sch \<longleftrightarrow> mset (map fst sch) = mset [0..<length (m_tasks d g)]
     \<and> list_all (\<lambda>(i, t). t < length (ds_threads d)) sch"

inductive dispatcher_step ::
    "('f, 'w) runner \<Rightarrow> nat \<Rightarrow> phase \<times> ('f, 'w) dispatcher \<Rightarrow> phase \<times> ('f, 'w) dispatcher \<Rightarrow> bool"
  for runner me where
  merge: "dispatcher_step runner me (Merge g, d) (Check g, merge_events [Walk, Serial] True d)"
| check: "dispatcher_step runner me (Check g, d) (Execute g, checkPendingTasks d)"
| serial: "is_serial g \<Longrightarrow> dispatcher_step runner me (Execute g, d) (MergeAsync g, executeSerialEvents runner me g d)"
| parallel: "\<not> is_serial g \<Longrightarrow> pool_order d g sch
    \<Longrightarrow> dispatcher_step runner me (Execute g, d) (next_group g, executeParallelEvents runner g sch d)"
| merge_async: "dispatcher_step runner me (MergeAsync g, d) (next_group g, mergeAsyncEvents d)"
| timers: "dispatcher_step runner me (Timers, d) (MergeTimersAsync, executeScheduledEvents runner me d)"
| timers_merge: "dispatcher_step runner me (MergeTimersAsync, d) (ExecuteTimersAsync, mergeAsyncEvents d)"
| timers_parallel: "pool_order d GenericParallel sch \<Longrightarrow>
    dispatcher_step runner me (ExecuteTimersAsync, d) (MergeLast, executeParallelEvents runner GenericParallel sch d)"
| merge_last: "dispatcher_step runner me (MergeLast, d) (CheckLast, merge_events [Walk, Serial] True d)"
| check_last: "dispatcher_step runner me (CheckLast, d) (Waiting, checkPendingTasks d)"
| awake: "otsys_time d \<le> n \<Longrightarrow> dispatcher_step runner me (Waiting, d) (Merge Walk, d\<lparr>otsys_time := n\<rparr>)"
| other_thread: "t < length (ds_threads d) \<Longrightarrow> dispatcher_step runner me (p, d) (p, act t a d)"
| world: "dispatcher_step runner me (p, d) (p, d\<lparr>ds_world := w\<rparr>)"

definition no_tasks :: "'f thread_tasks" where
  "no_tasks = \<lparr>th_tasks = (\<lambda>g. []), th_scheduled = []\<rparr>"

definition new_dispatcher :: "nat \<Rightarrow> int \<Rightarrow> 'w \<Rightarrow> ('f, 'w) dispatcher" where
  "new_dispatcher threads now w =
     \<lparr>ds_threads = replicate threads no_tasks, m_tasks = (\<lambda>g. []), scheduledTasks = [], scheduledTasksRef = Map.empty,
      ds_timers = [], LAST_EVENT_ID = 0, hasPendingTasks = False, dispatcherCycle = 0, otsys_time = now,
      ds_world = w, ds_trace = []\<rparr>"

definition dispatcher_run ::
    "('f, 'w) runner \<Rightarrow> nat \<Rightarrow> phase \<times> ('f, 'w) dispatcher \<Rightarrow> phase \<times> ('f, 'w) dispatcher \<Rightarrow> bool" where
  "dispatcher_run runner me = (dispatcher_step runner me)\<^sup>*\<^sup>*"

end
