(* ===== verification/Dispatcher_Safety.thy ===== *)
theory Dispatcher_Safety
  imports Dispatcher
begin

text \<open>
  What the dispatcher promises: no posted event is lost or run twice, whatever the threads
  post and however the pool runs them; a timer fires when its delay has passed, not before, and never after it is
  stopped; the blocks of a parallel loop cover every index once.
\<close>

section \<open>Blocks of a parallel loop\<close>

lemma blocks_cover: "0 < block \<Longrightarrow> i \<le> sz \<Longrightarrow> concat (map (\<lambda>(a, b). [a..<b]) (blocks sz block i)) = [i..<sz]"
proof (induction sz block i rule: blocks.induct)
  case (1 sz block i)
  consider "i + block \<le> sz" "i < sz" | "sz < i + block" "i < sz" | "i = sz" using 1(3) by linarith
  then show ?case
  proof cases
    case 1
    then show ?thesis
      using "1.IH" "1.prems" upt_add_eq_append [of i "i + block" "sz - (i + block)"]
      by (simp add: blocks.simps [of sz block i])
  next
    case 2
    then show ?thesis using "1.prems" by (simp add: blocks.simps [of sz block i] blocks.simps [of sz block "i + block"])
  next
    case 3
    then show ?thesis by (simp add: blocks.simps)
  qed
qed

lemma last_block: "0 < block \<Longrightarrow> i < sz \<Longrightarrow> blocks sz block i \<noteq> [] \<and> snd (last (blocks sz block i)) = sz"
proof (induction sz block i rule: blocks.induct)
  case (1 sz block i)
  then show ?case
    by (cases "i + block < sz") (simp_all add: blocks.simps [of sz block i] blocks.simps [of sz block "i + block"])
qed

section \<open>No event is lost\<close>

definition is_posted :: "TaskGroup \<Rightarrow> 'f trace \<Rightarrow> 'f list" where
  "is_posted g e = (case e of Posted k f \<Rightarrow> if k = g then [f] else [] | _ \<Rightarrow> [])"

definition is_done :: "TaskGroup \<Rightarrow> 'f trace \<Rightarrow> 'f list" where
  "is_done g e = (case e of Ran k f \<Rightarrow> if k = g then [f] else [] | Dropped k f \<Rightarrow> if k = g then [f] else [] | _ \<Rightarrow> [])"

definition posted :: "TaskGroup \<Rightarrow> ('f, 'w) dispatcher \<Rightarrow> 'f multiset" where
  "posted g d = mset (concat (map (is_posted g) (ds_trace d)))"

definition handled :: "TaskGroup \<Rightarrow> ('f, 'w) dispatcher \<Rightarrow> 'f multiset" where
  "handled g d = mset (concat (map (is_done g) (ds_trace d)))"

definition funcs :: "'f task list \<Rightarrow> 'f multiset" where
  "funcs ts = mset (map (the \<circ> t_func) ts)"

definition queued :: "TaskGroup \<Rightarrow> ('f, 'w) dispatcher \<Rightarrow> 'f multiset" where
  "queued g d = funcs (m_tasks d g) + (\<Sum>q \<leftarrow> ds_threads d. funcs (th_tasks q g))"

definition uncancelled :: "('f, 'w) dispatcher \<Rightarrow> bool" where
  "uncancelled d \<longleftrightarrow> (\<forall>g. (\<forall>t \<in> set (m_tasks d g). t_func t \<noteq> None)
     \<and> (\<forall>q \<in> set (ds_threads d). \<forall>t \<in> set (th_tasks q g). t_func t \<noteq> None))"

text \<open>\<open>X\<close> are the functions handled but not yet taken off the queues.\<close>

definition balanced :: "(TaskGroup \<Rightarrow> 'f multiset) \<Rightarrow> ('f, 'w) dispatcher \<Rightarrow> bool" where
  "balanced X d \<longleftrightarrow> uncancelled d \<and> (\<forall>g. posted g d + X g = handled g d + queued g d)"

lemma funcs_simps [simp]: "funcs [] = {#}" "funcs (xs @ ys) = funcs xs + funcs ys" "funcs (t # ts) = add_mset (the (t_func t)) (funcs ts)"
  by (simp_all add: funcs_def)

lemma funcs_mset: "funcs ts = image_mset (the \<circ> t_func) (mset ts)"
  by (simp add: funcs_def)

lemma sum_list_update:
  fixes f :: "'a \<Rightarrow> 'b multiset"
  shows "t < length xs \<Longrightarrow> (\<Sum>q \<leftarrow> xs[t := y]. f q) + f (xs ! t) = (\<Sum>q \<leftarrow> xs. f q) + f y"
  by (induction xs arbitrary: t) (auto simp: nth_Cons' list_update_def split: nat.splits)

lemma trace_appended:
  "posted g (d\<lparr>ds_trace := ds_trace d @ [e]\<rparr>) = posted g d + mset (is_posted g e)"
  "handled g (d\<lparr>ds_trace := ds_trace d @ [e]\<rparr>) = handled g d + mset (is_done g e)"
  by (simp_all add: posted_def handled_def)

lemma balanced_cong:
  assumes "ds_threads d' = ds_threads d" "m_tasks d' = m_tasks d" "ds_trace d' = ds_trace d"
  shows "balanced X d' = balanced X d"
  using assms by (simp add: balanced_def uncancelled_def posted_def handled_def queued_def)

lemma balanced_timers:
  assumes "t < length (ds_threads d)" "th_tasks q = th_tasks (ds_threads d ! t)"
  shows "balanced X (set_thread t q d) = balanced X d"
proof -
  have "(\<Sum>q \<leftarrow> (ds_threads d)[t := q]. funcs (th_tasks q g)) = (\<Sum>q \<leftarrow> ds_threads d. funcs (th_tasks q g))" for g
    using sum_list_update [OF assms(1), of "\<lambda>q. funcs (th_tasks q g)" q] assms(2) by simp
  moreover have "(\<forall>q \<in> set ((ds_threads d)[t := q]). \<forall>t \<in> set (th_tasks q g). t_func t \<noteq> None)
      = (\<forall>q \<in> set (ds_threads d). \<forall>t \<in> set (th_tasks q g). t_func t \<noteq> None)" for g
    using assms by (auto simp: all_set_conv_all_nth nth_list_update)
  ultimately show ?thesis
    by (simp add: balanced_def uncancelled_def posted_def handled_def queued_def set_thread_def)
qed

lemma post_balanced:
  assumes "t < length (ds_threads d)" "balanced X d"
  shows "balanced X (post t g e f d)"
proof -
  let ?q = "ds_threads d ! t" and ?n = "new_task (otsys_time d) e f"
  let ?q' = "?q\<lparr>th_tasks := (th_tasks ?q)(g := th_tasks ?q g @ [?n])\<rparr>"
  have sum: "(\<Sum>q \<leftarrow> (ds_threads d)[t := ?q']. funcs (th_tasks q k))
      = (\<Sum>q \<leftarrow> ds_threads d. funcs (th_tasks q k)) + (if k = g then {#f#} else {#})" for k
    using sum_list_update [OF assms(1), of "\<lambda>q. funcs (th_tasks q k)" ?q'] by (auto simp: new_task_def)
  have "uncancelled (post t g e f d)"
    using assms by (auto simp: balanced_def uncancelled_def post_def Let_def notify_def log_trace_def set_thread_def
        all_set_conv_all_nth nth_list_update new_task_def nth_append)
  moreover have "posted k (post t g e f d) + X k = handled k (post t g e f d) + queued k (post t g e f d)" for k
  proof -
    have p: "posted k (post t g e f d) = posted k d + (if k = g then {#f#} else {#})"
        "handled k (post t g e f d) = handled k d"
      by (simp_all add: post_def Let_def notify_def log_trace_def set_thread_def posted_def handled_def is_posted_def is_done_def)
    have "queued k (post t g e f d) = queued k d + (if k = g then {#f#} else {#})"
      using sum [of k] by (simp add: post_def Let_def notify_def log_trace_def set_thread_def queued_def ac_simps)
    with p assms(2) show ?thesis by (simp add: balanced_def)
  qed
  ultimately show ?thesis by (simp add: balanced_def)
qed

text \<open>What posting leaves alone.\<close>

definition same_queues :: "('f, 'w) dispatcher \<Rightarrow> ('f, 'w) dispatcher \<Rightarrow> bool" where
  "same_queues d d' \<longleftrightarrow> m_tasks d' = m_tasks d \<and> length (ds_threads d') = length (ds_threads d)
     \<and> otsys_time d' = otsys_time d \<and> scheduledTasks d' = scheduledTasks d"

lemma same_queues_simps [simp]:
  "same_queues d d" "same_queues d (log_trace e d)" "same_queues d (set_thread t q d)" "same_queues d (notify d)"
  "same_queues d (d\<lparr>ds_world := w\<rparr>)" "same_queues d (stopEvent i d)"
  by (auto simp: same_queues_def log_trace_def set_thread_def notify_def stopEvent_def split: option.split)

lemma same_queues_trans: "same_queues d d' \<Longrightarrow> same_queues d' d'' \<Longrightarrow> same_queues d d''"
  by (simp add: same_queues_def)

lemma act_same_queues: "same_queues d (act t a d)"
  by (cases a) (auto simp: same_queues_def addEvent_def addWalkEvent_def asyncEvent_def post_def scheduleEvent_def
      stopEvent_def Let_def log_trace_def set_thread_def notify_def split: option.split)

lemma notify_balanced: "balanced X (notify d) = balanced X d"
  by (rule balanced_cong) (simp_all add: notify_def)

lemma cycle_balanced: "balanced X (d\<lparr>dispatcherCycle := n\<rparr>) = balanced X d"
  by (rule balanced_cong) simp_all

lemma stopEvent_balanced: "balanced X (stopEvent i d) = balanced X d"
  by (rule balanced_cong) (simp_all add: stopEvent_def split: option.split)

lemma log_scheduled_balanced: "balanced X (log_trace (Scheduled a delay cycle now) d) = balanced X d"
  by (auto simp: balanced_def uncancelled_def posted_def handled_def queued_def log_trace_def is_posted_def is_done_def)

lemma act_balanced:
  assumes "t < length (ds_threads d)" "balanced X d"
  shows "balanced X (act t a d)"
proof (cases a)
  case (ScheduleEvent delay f cycle)
  let ?e = "d\<lparr>LAST_EVENT_ID := next_id (LAST_EVENT_ID d),
      ds_timers := ds_timers d @ [(new_timer (otsys_time d) f delay cycle)\<lparr>t_id := next_id (LAST_EVENT_ID d)\<rparr>],
      scheduledTasksRef := (case scheduledTasksRef d (next_id (LAST_EVENT_ID d)) of
        None \<Rightarrow> (scheduledTasksRef d)(next_id (LAST_EVENT_ID d) \<mapsto> length (ds_timers d))
      | Some _ \<Rightarrow> scheduledTasksRef d)\<rparr>"
  let ?q = "ds_threads d ! t"
  have "balanced X ?e = balanced X d" by (rule balanced_cong) simp_all
  then have "balanced X ?e" using assms(2) by simp
  then have "balanced X (set_thread t (?q\<lparr>th_scheduled := th_scheduled ?q @ [length (ds_timers d)]\<rparr>) ?e)"
    using assms(1) by (simp add: balanced_timers)
  then show ?thesis
    using ScheduleEvent by (simp add: scheduleEvent_def Let_def notify_balanced log_scheduled_balanced)
qed (use assms in \<open>simp_all add: addEvent_def addWalkEvent_def asyncEvent_def post_balanced stopEvent_balanced\<close>)

lemma run_func_ok:
  assumes "t < length (ds_threads d)" "balanced X d"
  shows "balanced X (run_func runner t f d) \<and> same_queues d (run_func runner t f d)"
proof -
  have "balanced X e \<Longrightarrow> same_queues d e \<Longrightarrow> balanced X (fold (act t) acts e) \<and> same_queues d (fold (act t) acts e)" for acts e
  proof (induction acts arbitrary: e)
    case (Cons a acts)
    have "t < length (ds_threads e)" using Cons.prems(2) assms(1) by (simp add: same_queues_def)
    then show ?case
      using Cons.IH [of "act t a e"] Cons.prems act_balanced [of t e X a]
        same_queues_trans [OF Cons.prems(2) act_same_queues [of e t a]] by simp
  qed simp
  moreover have "balanced X (d\<lparr>ds_world := w\<rparr>)" for w
    using assms(2) by (subst balanced_cong [of _ d]) simp_all
  ultimately show ?thesis by (auto simp: run_func_def split: prod.split)
qed

text \<open>Running one task adds it to those handled.\<close>

definition plus_func :: "TaskGroup \<Rightarrow> 'f task \<Rightarrow> (TaskGroup \<Rightarrow> 'f multiset) \<Rightarrow> TaskGroup \<Rightarrow> 'f multiset" where
  "plus_func g task X = X(g := X g + {#the (t_func task)#})"

lemma done_balanced:
  assumes "balanced X d" "t_func task = Some f" "is_done g e = [f]" "\<And>k. k \<noteq> g \<Longrightarrow> is_done k e = []" "\<And>k. is_posted k e = []"
  shows "balanced (plus_func g task X) (log_trace e d)"
proof -
  have "uncancelled (log_trace e d) = uncancelled d" "queued k (log_trace e d) = queued k d" for k
    by (simp_all add: uncancelled_def queued_def log_trace_def)
  moreover have "posted k (log_trace e d) = posted k d" for k using assms(5) by (simp add: log_trace_def trace_appended)
  moreover have "handled k (log_trace e d) = handled k d + (if k = g then {#f#} else {#})" for k
    using assms(3,4) by (simp add: log_trace_def trace_appended)
  ultimately show ?thesis using assms(1,2) by (auto simp: balanced_def plus_func_def)
qed

lemma execute_task_ok:
  assumes "t < length (ds_threads d)" "balanced X d" "t_func task \<noteq> None"
  shows "balanced (plus_func g task X) (snd (execute_task runner t g task d))
    \<and> same_queues d (snd (execute_task runner t g task d))"
proof -
  obtain f where f: "t_func task = Some f" using assms(3) by blast
  have "balanced (plus_func g task X) (log_trace (Dropped g f) d)"
    by (rule done_balanced [OF assms(2) f]) (simp_all add: is_done_def is_posted_def)
  moreover have ran: "balanced (plus_func g task X) (log_trace (Ran g f) d)"
    by (rule done_balanced [OF assms(2) f]) (simp_all add: is_done_def is_posted_def)
  have "t < length (ds_threads (log_trace (Ran g f) d))" using assms(1) by (simp add: log_trace_def)
  from run_func_ok [OF this ran, of runner f]
  have "balanced (plus_func g task X) (run_func runner t f (log_trace (Ran g f) d))
    \<and> same_queues d (run_func runner t f (log_trace (Ran g f) d))"
    using same_queues_trans [OF same_queues_simps(2)] by blast
  ultimately show ?thesis using f by (simp add: execute_task_def)
qed

lemma clear_balanced:
  assumes "balanced X d" "X = (\<lambda>k. if k = g then funcs (m_tasks d g) else {#})"
  shows "balanced (\<lambda>k. {#}) (clear_group g d)"
proof -
  have "posted k (clear_group g d) = handled k (clear_group g d) + queued k (clear_group g d)" for k
  proof -
    have "posted k d + X k = handled k d + queued k d" using assms(1) by (simp add: balanced_def)
    then show ?thesis
      by (cases "k = g") (auto simp: assms(2) clear_group_def posted_def handled_def queued_def ac_simps)
  qed
  then show ?thesis using assms(1) by (auto simp: balanced_def uncancelled_def clear_group_def)
qed

text \<open>A list of tasks of group \<open>g\<close>, run one after the other on any threads.\<close>

lemma execute_list_ok:
  assumes "\<forall>(task, t) \<in> set xs. t_func task \<noteq> None \<and> t < length (ds_threads d)" "balanced X d"
    and "\<And>task t e. e1 (task, t) e = snd (execute_task runner t g task e)
        \<or> e1 (task, t) e = (snd (execute_task runner t g task e))
            \<lparr>dispatcherCycle := dispatcherCycle (snd (execute_task runner t g task e)) + 1\<rparr>"
  shows "balanced (X(g := X g + funcs (map fst xs))) (fold e1 xs d) \<and> same_queues d (fold e1 xs d)"
  using assms(1,2)
proof (induction xs arbitrary: X d)
  case (Cons y ys)
  obtain task t where y: "y = (task, t)" by (cases y)
  have t: "t < length (ds_threads d)" "t_func task \<noteq> None" using Cons.prems(1) y by auto
  note ok = execute_task_ok [OF t(1) Cons.prems(2) t(2), of g runner]
  have e: "balanced (plus_func g task X) (e1 (task, t) d)" "same_queues d (e1 (task, t) d)"
    using assms(3) [of task t d] ok by (auto simp: cycle_balanced same_queues_def)
  have "\<forall>(task, t) \<in> set ys. t_func task \<noteq> None \<and> t < length (ds_threads (e1 (task', t') d))"
    if "task' = task" "t' = t" for task' t' using Cons.prems(1) e(2) that by (auto simp: same_queues_def)
  then have "balanced ((plus_func g task X)(g := plus_func g task X g + funcs (map fst ys))) (fold e1 ys (e1 (task, t) d))
      \<and> same_queues (e1 (task, t) d) (fold e1 ys (e1 (task, t) d))"
    by (intro Cons.IH e(1)) blast
  moreover have "(plus_func g task X)(g := plus_func g task X g + funcs (map fst ys)) = X(g := X g + funcs (map fst (y # ys)))"
    by (simp add: plus_func_def y fun_eq_iff)
  moreover have "fold e1 (y # ys) d = fold e1 ys (e1 (task, t) d)" by (simp add: y)
  ultimately show ?case using same_queues_trans [OF e(2)] by metis
qed simp

abbreviation settled :: "('f, 'w) dispatcher \<Rightarrow> bool" where
  "settled \<equiv> balanced (\<lambda>g. {#})"

lemma clear_after:
  assumes "balanced (\<lambda>k. if k = g then funcs (m_tasks d g) else {#}) e" "same_queues d e"
  shows "settled (clear_group g e)"
  by (rule clear_balanced [OF assms(1)]) (use assms(2) in \<open>auto simp: same_queues_def fun_eq_iff\<close>)

lemma serial_balanced:
  assumes "me < length (ds_threads d)" "settled d"
  shows "settled (executeSerialEvents runner me g d)"
proof -
  have "fold (execute_serial_task runner me g) ts e
      = fold (\<lambda>(task, t). execute_serial_task runner t g task) (map (\<lambda>task. (task, me)) ts) e" for ts e
    by (induction ts arbitrary: e) auto
  moreover have "balanced ((\<lambda>k. {#})(g := {#} + funcs (map fst (map (\<lambda>task. (task, me)) (m_tasks d g)))))
      (fold (\<lambda>(task, t). execute_serial_task runner t g task) (map (\<lambda>task. (task, me)) (m_tasks d g)) d)
    \<and> same_queues d (fold (\<lambda>(task, t). execute_serial_task runner t g task) (map (\<lambda>task. (task, me)) (m_tasks d g)) d)"
    using assms by (intro execute_list_ok [where runner = runner])
      (auto simp: balanced_def uncancelled_def execute_serial_task_def split: prod.split)
  ultimately show ?thesis
    unfolding executeSerialEvents_def by (intro clear_after [where d = d]) (simp_all add: fun_upd_def comp_def)
qed

lemma parallel_balanced:
  assumes "pool_order d g sch" "settled d"
  shows "settled (executeParallelEvents runner g sch d)"
proof -
  let ?xs = "map (\<lambda>(i, t). (m_tasks d g ! i, t)) sch"
  have idx: "set (map fst sch) = {0..<length (m_tasks d g)}"
    using assms(1) mset_eq_setD [of "map fst sch" "[0..<length (m_tasks d g)]"] by (simp add: pool_order_def)
  have "fold (\<lambda>(i, t) e. snd (execute_task runner t g (m_tasks d g ! i) e)) ys e
      = fold (\<lambda>(task, t) e. snd (execute_task runner t g task e)) (map (\<lambda>(i, t). (m_tasks d g ! i, t)) ys) e" for ys e
    by (induction ys arbitrary: e) auto
  moreover have bal: "balanced ((\<lambda>k. {#})(g := {#} + funcs (map fst ?xs)))
      (fold (\<lambda>(task, t) e. snd (execute_task runner t g task e)) ?xs d)
    \<and> same_queues d (fold (\<lambda>(task, t) e. snd (execute_task runner t g task e)) ?xs d)"
  proof (intro execute_list_ok [where runner = runner])
    show "\<forall>(task, t) \<in> set ?xs. t_func task \<noteq> None \<and> t < length (ds_threads d)"
    proof -
      have "t_func (m_tasks d g ! i) \<noteq> None \<and> t < length (ds_threads d)" if "(i, t) \<in> set sch" for i t
      proof -
        have "i < length (m_tasks d g)" using idx that by force
        then have "m_tasks d g ! i \<in> set (m_tasks d g)" by (rule nth_mem)
        moreover have "t < length (ds_threads d)" using assms(1) that by (auto simp: pool_order_def list_all_iff)
        ultimately show ?thesis using assms(2) by (simp add: balanced_def uncancelled_def del: not_None_eq)
      qed
      then show ?thesis by auto
    qed
  qed (use assms(2) in simp_all)
  have f: "funcs (map fst ?xs) = funcs (m_tasks d g)"
  proof -
    have eq: "map fst ?xs = map ((!) (m_tasks d g)) (map fst sch)" by auto
    have "mset (map fst ?xs) = image_mset ((!) (m_tasks d g)) (mset (map fst sch))" by (simp only: eq mset_map)
    also have "\<dots> = mset (map ((!) (m_tasks d g)) [0..<length (m_tasks d g)])"
      using assms(1) by (simp add: pool_order_def)
    finally show ?thesis by (simp only: map_nth funcs_mset)
  qed
  ultimately show ?thesis
    using bal unfolding f executeParallelEvents_def
    by (intro clear_after [where d = d]) (simp_all add: fun_upd_def del: map_map)
qed

section \<open>Merging keeps everything\<close>

lemma merge_lists_mset: "mset (merge_lists xs ys) = mset xs + mset ys" "set (merge_lists xs ys) = set xs \<union> set ys"
  by (auto simp: merge_lists_def)

lemma merge_groups:
  assumes "fold merge_group groups (q, m) = (q', m')"
  shows "(\<forall>g. funcs (m' g) + funcs (th_tasks q' g) = funcs (m g) + funcs (th_tasks q g)
      \<and> set (m' g) \<union> set (th_tasks q' g) = set (m g) \<union> set (th_tasks q g)) \<and> th_scheduled q' = th_scheduled q"
  using assms
proof (induction groups arbitrary: q m)
  case (Cons g groups)
  obtain q1 m1 where one: "merge_group g (q, m) = (q1, m1)" by fastforce
  have "(\<forall>k. funcs (m1 k) + funcs (th_tasks q1 k) = funcs (m k) + funcs (th_tasks q k)
      \<and> set (m1 k) \<union> set (th_tasks q1 k) = set (m k) \<union> set (th_tasks q k)) \<and> th_scheduled q1 = th_scheduled q"
    using one by (auto simp: merge_group_def funcs_mset merge_lists_mset split: if_splits)
  with Cons.IH [of q1 m1] Cons.prems one show ?case by auto
qed simp

lemma swap_sums:
  fixes a :: "'a multiset"
  assumes "a + x = s + y" "m + y = e + x"
  shows "m + a = e + s"
proof -
  have "m + a + x = (m + y) + s" using assms(1) by (simp add: add.assoc add.commute)
  then show ?thesis using assms(2) by (simp add: add.assoc add.commute)
qed

lemma merge_thread_balanced:
  assumes t: "t < length (ds_threads d)" and b: "balanced X d"
  shows "balanced X (merge_thread groups timers t d)"
proof -
  obtain q m where f: "fold merge_group groups (ds_threads d ! t, m_tasks d) = (q, m)" by fastforce
  let ?q = "if timers then q\<lparr>th_scheduled := []\<rparr> else q"
  let ?d = "merge_thread groups timers t d"
  note g = merge_groups [OF f]
  have fields: "m_tasks ?d = m" "ds_threads ?d = (ds_threads d)[t := ?q]" "ds_trace ?d = ds_trace d"
    by (simp_all add: merge_thread_def f Let_def set_thread_def)
  have tasks: "th_tasks ?q = th_tasks q" by simp
  have "queued k ?d = queued k d" for k
  proof -
    have "(\<Sum>q \<leftarrow> (ds_threads d)[t := ?q]. funcs (th_tasks q k)) + funcs (th_tasks (ds_threads d ! t) k)
        = (\<Sum>q \<leftarrow> ds_threads d. funcs (th_tasks q k)) + funcs (th_tasks q k)"
      using sum_list_update [OF t, of "\<lambda>q. funcs (th_tasks q k)" ?q] tasks by simp
    moreover have "funcs (m k) + funcs (th_tasks q k) = funcs (m_tasks d k) + funcs (th_tasks (ds_threads d ! t) k)"
      using g by blast
    ultimately show ?thesis unfolding queued_def fields by (rule swap_sums)
  qed
  moreover have "posted k ?d = posted k d" "handled k ?d = handled k d" for k
    by (simp_all add: posted_def handled_def fields)
  moreover have "uncancelled ?d"
  proof -
    have un: "uncancelled d" using b by (simp add: balanced_def)
    have mem: "ds_threads d ! t \<in> set (ds_threads d)" using t by simp
    have new: "t_func x \<noteq> None" if "x \<in> set (m k) \<union> set (th_tasks q k)" for x k
    proof -
      have "x \<in> set (m_tasks d k) \<union> set (th_tasks (ds_threads d ! t) k)" using g that by blast
      then show ?thesis using un mem unfolding uncancelled_def by blast
    qed
    have "t_func x \<noteq> None" if "q' \<in> set (ds_threads ?d)" "x \<in> set (th_tasks q' k)" for q' x k
    proof -
      have "q' = ?q \<or> q' \<in> set (ds_threads d)"
        using that(1) set_update_subset_insert [of "ds_threads d" t ?q] unfolding fields by blast
      then show ?thesis
      proof
        assume "q' = ?q"
        then have "x \<in> set (th_tasks q k)" using that(2) tasks by simp
        then show ?thesis using new by blast
      next
        assume "q' \<in> set (ds_threads d)"
        then show ?thesis using un that(2) unfolding uncancelled_def by blast
      qed
    qed
    moreover have "t_func x \<noteq> None" if "x \<in> set (m k)" for x k using new that by blast
    ultimately show ?thesis unfolding uncancelled_def fields(1) by blast
  qed
  ultimately show ?thesis using b by (simp add: balanced_def)
qed

lemma merge_thread_length: "length (ds_threads (merge_thread groups timers t d)) = length (ds_threads d)"
  by (simp add: merge_thread_def Let_def set_thread_def split: prod.split)

lemma merge_events_balanced:
  assumes "balanced X d"
  shows "balanced X (merge_events groups timers d) \<and> length (ds_threads (merge_events groups timers d)) = length (ds_threads d)"
proof -
  have "balanced X e \<Longrightarrow> \<forall>t \<in> set ts. t < length (ds_threads e) \<Longrightarrow>
      balanced X (fold (merge_thread groups timers) ts e)
      \<and> length (ds_threads (fold (merge_thread groups timers) ts e)) = length (ds_threads e)" for ts e
    by (induction ts arbitrary: e) (simp_all add: merge_thread_balanced merge_thread_length)
  from this [of d "[0..<length (ds_threads d)]"] assms show ?thesis by (simp add: merge_events_def)
qed

section \<open>Timers\<close>

text \<open>The timers waiting anywhere, when \<open>xs\<close> is what is left of those merged.\<close>

definition waiting :: "nat list \<Rightarrow> ('f, 'w) dispatcher \<Rightarrow> nat multiset" where
  "waiting xs d = mset xs + (\<Sum>q \<leftarrow> ds_threads d. mset (th_scheduled q))"

definition in_order :: "'f task list \<Rightarrow> nat list \<Rightarrow> bool" where
  "in_order ts xs \<longleftrightarrow> sorted_wrt (\<lambda>a b. t_utime (ts ! a) \<le> t_utime (ts ! b)) xs"

text \<open>
  What the trace says of timers. A history is on time when every timer that fired had been
  scheduled before, at least its delay earlier, and fires again only if it was asked to be
  cyclic, at least its delay after every earlier time.
\<close>

definition timer_entry :: "'f trace \<Rightarrow> bool" where
  "timer_entry e \<longleftrightarrow> (case e of Scheduled _ _ _ _ \<Rightarrow> True | Fired _ _ _ \<Rightarrow> True | _ \<Rightarrow> False)"

definition timer_log :: "('f, 'w) dispatcher \<Rightarrow> 'f trace list" where
  "timer_log d = filter timer_entry (ds_trace d)"

lemma timer_log_simps [simp]:
  "timer_log (log_trace e d) = timer_log d @ (if timer_entry e then [e] else [])"
  "timer_log (notify d) = timer_log d" "timer_log (set_thread t q d) = timer_log d"
  "timer_log (d\<lparr>ds_world := w\<rparr>) = timer_log d" "timer_log (d\<lparr>m_tasks := m\<rparr>) = timer_log d"
  "timer_log (d\<lparr>scheduledTasks := s\<rparr>) = timer_log d" "timer_log (d\<lparr>dispatcherCycle := k\<rparr>) = timer_log d"
  "timer_log (d\<lparr>ds_threads := qs\<rparr>) = timer_log d" "timer_log (d\<lparr>scheduledTasksRef := r\<rparr>) = timer_log d"
  "timer_log (d\<lparr>ds_timers := ts\<rparr>) = timer_log d"
  by (simp_all add: timer_log_def log_trace_def notify_def set_thread_def)

lemma timer_log_cong: "ds_trace d' = ds_trace d \<Longrightarrow> timer_log d' = timer_log d"
  by (simp add: timer_log_def)

lemma timer_entry_simps [simp]:
  "timer_entry (Scheduled a delay cyc t)" "timer_entry (Fired a due t)" "\<not> timer_entry (Posted g f)"
  "\<not> timer_entry (Ran g f)" "\<not> timer_entry (Dropped g f)" "\<not> timer_entry (Skipped a)"
  by (simp_all add: timer_entry_def)

text \<open>Only the dispatcher itself makes timers fire.\<close>

definition fired_log :: "('f, 'w) dispatcher \<Rightarrow> 'f trace set" where
  "fired_log d = {e \<in> set (timer_log d). \<exists>a due t. e = Fired a due t}"

lemma act_fired: "fired_log (act t a d) = fired_log d"
proof (cases a)
  case (StopEvent i)
  have "timer_log (stopEvent i d) = timer_log d"
    by (rule timer_log_cong) (simp add: stopEvent_def split: option.split)
  with StopEvent show ?thesis by (simp add: fired_log_def)
next
  case (ScheduleEvent delay f cycle)
  then show ?thesis
    by (simp add: fired_log_def scheduleEvent_def Let_def) (auto simp: timer_log_def)
qed (auto simp: fired_log_def addEvent_def addWalkEvent_def asyncEvent_def post_def Let_def)

lemma fold_act_fired: "fired_log (fold (act t) acts d) = fired_log d"
  by (induction acts arbitrary: d) (simp_all add: act_fired)

lemma run_func_fired: "fired_log (run_func runner t f d) = fired_log d"
  by (simp add: run_func_def fold_act_fired split: prod.split) (simp add: fired_log_def)

definition may_fire :: "nat \<Rightarrow> int \<Rightarrow> 'f trace list \<Rightarrow> bool" where
  "may_fire a t xs \<longleftrightarrow> (\<exists>delay cyc t0. Scheduled a delay cyc t0 \<in> set xs)
     \<and> (\<forall>delay cyc t0. Scheduled a delay cyc t0 \<in> set xs \<longrightarrow> t0 + uint delay \<le> t
          \<and> (\<forall>due1 t1. Fired a due1 t1 \<in> set xs \<longrightarrow> cyc \<and> t1 + uint delay \<le> t))"

definition on_time :: "'f trace list \<Rightarrow> bool" where
  "on_time tr \<longleftrightarrow> (\<forall>xs a due t ys. tr = xs @ Fired a due t # ys \<longrightarrow> may_fire a t xs)"

lemma on_time_snoc: "on_time (tr @ [e]) \<longleftrightarrow> on_time tr \<and> (\<forall>a due t. e = Fired a due t \<longrightarrow> may_fire a t tr)"
proof
  assume l: "on_time (tr @ [e])"
  have "may_fire a t xs" if "tr = xs @ Fired a due t # ys" for xs a due t ys
    using l that unfolding on_time_def by (metis append.assoc append_Cons)
  moreover have "may_fire a t tr" if "e = Fired a due t" for a due t
    using l that unfolding on_time_def by blast
  ultimately show "on_time tr \<and> (\<forall>a due t. e = Fired a due t \<longrightarrow> may_fire a t tr)"
    unfolding on_time_def by blast
next
  assume r: "on_time tr \<and> (\<forall>a due t. e = Fired a due t \<longrightarrow> may_fire a t tr)"
  have "may_fire a t xs" if eq: "tr @ [e] = xs @ Fired a due t # ys" for xs a due t ys
  proof (cases ys rule: rev_cases)
    case Nil
    with eq r show ?thesis by simp
  next
    case (snoc zs z)
    with eq have "tr = xs @ Fired a due t # zs" by simp
    with r show ?thesis unfolding on_time_def by blast
  qed
  then show "on_time (tr @ [e])" unfolding on_time_def by blast
qed

text \<open>
  The timers \<open>ts\<close> carry what the trace asks of them; \<open>W\<close> are those that wait to fire.
\<close>

definition punctual :: "nat multiset \<Rightarrow> 'f task list \<Rightarrow> 'f trace list \<Rightarrow> bool" where
  "punctual W ts tr \<longleftrightarrow> on_time tr
     \<and> (\<forall>a < length ts. \<exists>delay cyc t0. Scheduled a delay cyc t0 \<in> set tr)
     \<and> (\<forall>a delay cyc t0. Scheduled a delay cyc t0 \<in> set tr \<longrightarrow> a < length ts
          \<and> delay = t_delay (ts ! a) \<and> cyc = t_cycle (ts ! a) \<and> t0 + uint delay \<le> t_utime (ts ! a))
     \<and> (\<forall>a due t1. Fired a due t1 \<in> set tr \<longrightarrow> a < length ts
          \<and> (a \<in># W \<longrightarrow> t_cycle (ts ! a) \<and> t1 + uint (t_delay (ts ! a)) \<le> t_utime (ts ! a)))"

lemma punctual_mono: "punctual W ts tr \<Longrightarrow> set_mset W' \<subseteq> set_mset W \<Longrightarrow> punctual W' ts tr"
  unfolding punctual_def by blast

lemma punctual_may_fire:
  assumes "punctual W ts tr" "a \<in># W" "a < length ts" "t_utime (ts ! a) \<le> t"
  shows "may_fire a t tr"
proof -
  have "t0 + uint delay \<le> t \<and> (\<forall>due1 t1. Fired a due1 t1 \<in> set tr \<longrightarrow> cyc \<and> t1 + uint delay \<le> t)"
    if s: "Scheduled a delay cyc t0 \<in> set tr" for delay cyc t0
  proof -
    have eq: "delay = t_delay (ts ! a)" "cyc = t_cycle (ts ! a)" "t0 + uint delay \<le> t_utime (ts ! a)"
      using assms(1) s unfolding punctual_def by blast+
    have "t_cycle (ts ! a) \<and> t1 + uint (t_delay (ts ! a)) \<le> t_utime (ts ! a)" if "Fired a due1 t1 \<in> set tr" for due1 t1
      using assms(1,2) that unfolding punctual_def by blast
    with eq assms(4) show ?thesis by (metis order_trans)
  qed
  moreover have "\<exists>delay cyc t0. Scheduled a delay cyc t0 \<in> set tr"
    using assms(1,3) unfolding punctual_def by blast
  ultimately show ?thesis unfolding may_fire_def by blast
qed

text \<open>Timers that keep delay, cycle and time keep the invariant.\<close>

lemma punctual_same:
  assumes "punctual W ts tr" "length ts' = length ts"
    and "\<And>a. a < length ts \<Longrightarrow> t_delay (ts' ! a) = t_delay (ts ! a) \<and> t_cycle (ts' ! a) = t_cycle (ts ! a)
      \<and> t_utime (ts' ! a) = t_utime (ts ! a)"
  shows "punctual W ts' tr"
  using assms unfolding punctual_def by (simp del: ex_simps)

lemma punctual_new:
  assumes p: "punctual W ts tr" and W: "\<forall>a \<in># W. a < length ts"
    and new: "t_delay n = delay" "t_cycle n = cyc" "t0 + uint delay \<le> t_utime n"
  shows "punctual (add_mset (length ts) W) (ts @ [n]) (tr @ [Scheduled (length ts) delay cyc t0])"
proof -
  let ?ts = "ts @ [n]" and ?tr = "tr @ [Scheduled (length ts) delay cyc t0]"
  have old: "?ts ! a = ts ! a" if "a < length ts" for a using that by (simp add: nth_append)
  have last: "?ts ! length ts = n" by simp
  have fired: "a < length ts \<and> (a \<in># W \<longrightarrow> t_cycle (ts ! a) \<and> t1 + uint (t_delay (ts ! a)) \<le> t_utime (ts ! a))"
    if "Fired a due t1 \<in> set tr" for a due t1
    using p that unfolding punctual_def by blast
  have sched: "a < length ts \<and> delay' = t_delay (ts ! a) \<and> cyc' = t_cycle (ts ! a) \<and> t' + uint delay' \<le> t_utime (ts ! a)"
    if "Scheduled a delay' cyc' t' \<in> set tr" for a delay' cyc' t'
    using p that unfolding punctual_def by blast
  have "on_time ?tr" using p by (simp add: punctual_def on_time_snoc)
  moreover have "\<exists>delay' cyc' t'. Scheduled a delay' cyc' t' \<in> set ?tr" if "a < length ?ts" for a
  proof (cases "a < length ts")
    case True
    then have "\<exists>delay' cyc' t'. Scheduled a delay' cyc' t' \<in> set tr" using p unfolding punctual_def by blast
    then show ?thesis by auto
  next
    case False
    with that show ?thesis by auto
  qed
  moreover have "a < length ?ts \<and> delay' = t_delay (?ts ! a) \<and> cyc' = t_cycle (?ts ! a) \<and> t' + uint delay' \<le> t_utime (?ts ! a)"
    if "Scheduled a delay' cyc' t' \<in> set ?tr" for a delay' cyc' t'
  proof (cases "Scheduled a delay' cyc' t' \<in> set tr")
    case True
    from sched [OF True] show ?thesis by (auto simp: old)
  next
    case False
    with that new show ?thesis by simp
  qed
  moreover have "a < length ?ts \<and> (a \<in># add_mset (length ts) W \<longrightarrow> t_cycle (?ts ! a) \<and> t1 + uint (t_delay (?ts ! a)) \<le> t_utime (?ts ! a))"
    if "Fired a due t1 \<in> set ?tr" for a due t1
  proof -
    have "Fired a due t1 \<in> set tr" using that by simp
    from fired [OF this] show ?thesis by (auto simp: old)
  qed
  ultimately show ?thesis unfolding punctual_def by blast
qed

text \<open>A timer fires: it waits no longer, until it is put back with a new time.\<close>

lemma punctual_fired:
  assumes p: "punctual (add_mset a W) ts tr" and "a \<notin># W" "a < length ts" "t_utime (ts ! a) \<le> t"
  shows "punctual W ts (tr @ [Fired a due t])"
proof -
  have "may_fire a t tr" by (rule punctual_may_fire [OF p _ assms(3,4)]) simp
  then have "on_time (tr @ [Fired a due t])" using p by (simp add: punctual_def on_time_snoc)
  with p assms(2,3) show ?thesis unfolding punctual_def by auto
qed

lemma punctual_again:
  assumes p: "punctual W ts tr" and a: "a < length ts" "a \<notin># W" "t_cycle (ts ! a)" "t_utime (ts ! a) \<le> t"
    and last: "\<And>due t1. Fired a due t1 \<in> set tr \<Longrightarrow> t1 \<le> t"
  shows "punctual (add_mset a W) (ts[a := updateTime t (ts ! a)]) tr"
proof -
  let ?ts = "ts[a := updateTime t (ts ! a)]"
  have eq: "t_delay (?ts ! b) = t_delay (ts ! b)" "t_cycle (?ts ! b) = t_cycle (ts ! b)"
    "t_utime (?ts ! b) = (if b = a then t + uint (t_delay (ts ! a)) else t_utime (ts ! b))" for b
    using a(1) by (auto simp: nth_list_update updateTime_def)
  have later: "t_utime (ts ! b) \<le> t_utime (?ts ! b)" for b
    using a(4) by (cases "b = a") (simp_all add: eq add_increasing2)
  have sched: "b < length ts \<and> delay = t_delay (ts ! b) \<and> cyc = t_cycle (ts ! b) \<and> t0 + uint delay \<le> t_utime (ts ! b)"
    if "Scheduled b delay cyc t0 \<in> set tr" for b delay cyc t0
    using p that unfolding punctual_def by blast
  have fired: "b < length ts \<and> (b \<in># W \<longrightarrow> t_cycle (ts ! b) \<and> t1 + uint (t_delay (ts ! b)) \<le> t_utime (ts ! b))"
    if "Fired b due t1 \<in> set tr" for b due t1
    using p that unfolding punctual_def by blast
  have "b < length ?ts \<and> delay = t_delay (?ts ! b) \<and> cyc = t_cycle (?ts ! b) \<and> t0 + uint delay \<le> t_utime (?ts ! b)"
    if "Scheduled b delay cyc t0 \<in> set tr" for b delay cyc t0
    using sched [OF that] later [of b] by (auto simp: eq(1,2))
  moreover have "b < length ?ts \<and> (b \<in># add_mset a W \<longrightarrow> t_cycle (?ts ! b) \<and> t1 + uint (t_delay (?ts ! b)) \<le> t_utime (?ts ! b))"
    if "Fired b due t1 \<in> set tr" for b due t1
    using fired [OF that] last [of due t1] that a(2,3) by (auto simp: eq)
  moreover have "\<exists>delay cyc t0. Scheduled b delay cyc t0 \<in> set tr" if "b < length ?ts" for b
    using p that unfolding punctual_def by simp
  ultimately show ?thesis using p unfolding punctual_def by blast
qed

definition timer_inv :: "nat list \<Rightarrow> ('f, 'w) dispatcher \<Rightarrow> bool" where
  "timer_inv xs d \<longleftrightarrow> (\<forall>a. count (waiting xs d) a \<le> 1) \<and> (\<forall>a \<in># waiting xs d. a < length (ds_timers d))
     \<and> in_order (ds_timers d) xs
     \<and> (\<forall>i a. scheduledTasksRef d i = Some a \<longrightarrow> a < length (ds_timers d) \<and> t_id (ds_timers d ! a) = i)
     \<and> (\<forall>t \<in> set (ds_timers d). t_expiration t = 0)
     \<and> (\<forall>a due now. Fired a due now \<in> set (timer_log d) \<longrightarrow> due \<le> now)
     \<and> punctual (waiting xs d) (ds_timers d) (timer_log d)"

text \<open>What happens to timers while functions run: none changes but by being cancelled.\<close>

definition timers_kept :: "'f task list \<Rightarrow> 'f task list \<Rightarrow> bool" where
  "timers_kept ts ts' \<longleftrightarrow> length ts \<le> length ts'
     \<and> (\<forall>a < length ts. ts' ! a = ts ! a \<or> ts' ! a = cancel (ts ! a))"

lemma timers_kept_refl [simp]: "timers_kept ts ts"
  by (simp add: timers_kept_def)

lemma timers_kept_trans: "timers_kept ts ts' \<Longrightarrow> timers_kept ts' ts'' \<Longrightarrow> timers_kept ts ts''"
  unfolding timers_kept_def cancel_def by (metis (no_types, lifting) order_trans order_less_le_trans task.simps(1) task.update_convs(1) task.surjective)

lemma timers_kept_utime: "timers_kept ts ts' \<Longrightarrow> a < length ts \<Longrightarrow> t_utime (ts' ! a) = t_utime (ts ! a)"
  by (auto simp: timers_kept_def cancel_def)

lemma in_order_kept:
  assumes "timers_kept ts ts'" "\<forall>a \<in> set xs. a < length ts" "in_order ts xs"
  shows "in_order ts' xs"
  using assms(3) unfolding in_order_def
  by (rule sorted_wrt_mono_rel [rotated]) (use assms(1,2) in \<open>simp add: timers_kept_utime\<close>)

lemma timer_inv_cong:
  assumes "ds_timers d' = ds_timers d" "scheduledTasksRef d' = scheduledTasksRef d"
    "map th_scheduled (ds_threads d') = map th_scheduled (ds_threads d)"
    "timer_log d' = timer_log d"
  shows "timer_inv xs d' = timer_inv xs d"
proof -
  have "map (\<lambda>q. mset (th_scheduled q)) (ds_threads d') = map (\<lambda>q. mset (th_scheduled q)) (ds_threads d)"
    using arg_cong [OF assms(3), of "map mset"] by (simp add: comp_def)
  then have "waiting xs d' = waiting xs d" by (simp add: waiting_def)
  then show ?thesis using assms(1,2,4) by (simp add: timer_inv_def)
qed

lemma scheduled_update:
  assumes "th_scheduled q = th_scheduled (ts ! t)"
  shows "map th_scheduled (ts[t := q]) = map th_scheduled ts"
  by (cases "t < length ts") (auto intro: nth_equalityI simp: nth_list_update assms)

lemma post_timers: "timer_inv xs (post t g e f d) = timer_inv xs d" "ds_timers (post t g e f d) = ds_timers d"
  by (rule timer_inv_cong) (simp_all add: post_def Let_def scheduled_update,
      simp_all add: notify_def log_trace_def set_thread_def scheduled_update)

lemma post_waiting: "waiting xs (post t g e f d) = waiting xs d"
proof -
  have "map th_scheduled (ds_threads (post t g e f d)) = map th_scheduled (ds_threads d)"
    by (simp add: post_def Let_def notify_def log_trace_def set_thread_def scheduled_update)
  from arg_cong [OF this, of "map mset"] show ?thesis by (simp add: waiting_def comp_def)
qed

lemma waiting_append:
  assumes "t < length (ds_threads d)"
  shows "waiting xs (set_thread t ((ds_threads d ! t)\<lparr>th_scheduled := th_scheduled (ds_threads d ! t) @ [a]\<rparr>) d)
    = add_mset a (waiting xs d)"
proof -
  let ?q = "ds_threads d ! t"
  have "(\<Sum>q \<leftarrow> (ds_threads d)[t := ?q\<lparr>th_scheduled := th_scheduled ?q @ [a]\<rparr>]. mset (th_scheduled q)) + mset (th_scheduled ?q)
      = (\<Sum>q \<leftarrow> ds_threads d. mset (th_scheduled q)) + add_mset a (mset (th_scheduled ?q))"
    using sum_list_update [OF assms, of "\<lambda>q. mset (th_scheduled q)" "?q\<lparr>th_scheduled := th_scheduled ?q @ [a]\<rparr>"]
    by simp
  then show ?thesis by (simp add: waiting_def set_thread_def)
qed

lemma schedule_timers:
  assumes t: "t < length (ds_threads d)" and inv: "timer_inv xs d"
  shows "timer_inv xs (scheduleEvent t delay f cycle d) \<and> timers_kept (ds_timers d) (ds_timers (scheduleEvent t delay f cycle d))"
proof -
  let ?d = "scheduleEvent t delay f cycle d" and ?n = "length (ds_timers d)"
  have new: "?n \<notin># waiting xs d" using inv by (auto simp: timer_inv_def)
  have w: "waiting xs ?d = add_mset ?n (waiting xs d)"
    using waiting_append [OF t, of xs ?n]
    by (simp add: scheduleEvent_def Let_def notify_def waiting_def set_thread_def log_trace_def)
  have ts: "ds_timers ?d = ds_timers d @ [(new_timer (otsys_time d) f delay cycle)\<lparr>t_id := next_id (LAST_EVENT_ID d)\<rparr>]"
    by (simp add: scheduleEvent_def Let_def notify_def set_thread_def log_trace_def)
  have refs: "scheduledTasksRef ?d = (case scheduledTasksRef d (next_id (LAST_EVENT_ID d)) of
      None \<Rightarrow> (scheduledTasksRef d)(next_id (LAST_EVENT_ID d) \<mapsto> ?n) | Some _ \<Rightarrow> scheduledTasksRef d)"
    by (simp add: scheduleEvent_def Let_def notify_def set_thread_def log_trace_def)
  have trace: "timer_log ?d = timer_log d @ [Scheduled ?n delay cycle (otsys_time d)]"
    by (simp add: scheduleEvent_def Let_def) (simp add: timer_log_def)
  have "punctual (waiting xs ?d) (ds_timers ?d) (timer_log ?d)"
    unfolding w ts trace
    by (rule punctual_new) (use inv in \<open>simp_all add: timer_inv_def new_timer_def\<close>)
  moreover have kept: "timers_kept (ds_timers d) (ds_timers ?d)" by (simp add: timers_kept_def ts nth_append)
  have xs: "\<forall>a \<in> set xs. a < ?n" using inv by (auto simp: timer_inv_def waiting_def)
  moreover have "count (waiting xs ?d) a \<le> 1" for a using inv new by (auto simp: w timer_inv_def not_in_iff)
  moreover have "\<forall>a \<in># waiting xs ?d. a < length (ds_timers ?d)" using inv by (auto simp: w ts timer_inv_def intro: less_SucI)
  moreover have "in_order (ds_timers ?d) xs" using in_order_kept [OF kept xs] inv by (simp add: timer_inv_def)
  moreover have "a < length (ds_timers ?d) \<and> t_id (ds_timers ?d ! a) = i" if "scheduledTasksRef ?d i = Some a" for i a
    using inv that unfolding timer_inv_def refs by (auto simp: ts nth_append less_SucI split: option.splits if_splits)
  moreover have "\<forall>t \<in> set (ds_timers ?d). t_expiration t = 0" using inv by (auto simp: ts new_timer_def timer_inv_def)
  moreover have "due \<le> now" if "Fired a due now \<in> set (timer_log ?d)" for a due now
    using inv that by (simp add: trace timer_inv_def)
  ultimately show ?thesis using kept unfolding timer_inv_def by blast
qed

lemma stop_timers:
  assumes inv: "timer_inv xs d"
  shows "timer_inv xs (stopEvent i d) \<and> timers_kept (ds_timers d) (ds_timers (stopEvent i d))"
proof (cases "scheduledTasksRef d i")
  case (Some a)
  let ?d = "stopEvent i d"
  have ts: "ds_timers ?d = (ds_timers d)[a := cancel (ds_timers d ! a)]" "timer_log ?d = timer_log d"
    "waiting xs ?d = waiting xs d" "scheduledTasksRef ?d = (scheduledTasksRef d)(i := None)"
    using Some by (simp_all add: stopEvent_def waiting_def timer_log_def)
  have nth: "ds_timers ?d ! b = (if b = a \<and> a < length (ds_timers d) then cancel (ds_timers d ! a) else ds_timers d ! b)" for b
    by (cases "a < length (ds_timers d)") (simp_all add: ts nth_list_update not_less list_update_beyond)
  have kept: "timers_kept (ds_timers d) (ds_timers ?d)" by (simp add: timers_kept_def nth) (simp add: ts)
  have xs: "\<forall>a \<in> set xs. a < length (ds_timers d)" using inv by (auto simp: timer_inv_def waiting_def)
  have "in_order (ds_timers ?d) xs" using in_order_kept [OF kept xs] inv by (simp add: timer_inv_def)
  moreover have "t_id (ds_timers ?d ! b) = t_id (ds_timers d ! b)" for b by (simp add: nth cancel_def)
  moreover have "\<forall>t \<in> set (ds_timers ?d). t_expiration t = 0"
    using inv by (auto simp: timer_inv_def all_set_conv_all_nth nth cancel_def) (simp_all add: ts)
  moreover have "punctual (waiting xs d) (ds_timers ?d) (timer_log d)"
    by (rule punctual_same [of _ "ds_timers d"])
      (use inv in \<open>simp_all add: timer_inv_def nth cancel_def\<close>, simp add: ts)
  ultimately show ?thesis using inv kept by (auto simp: timer_inv_def ts)
qed (use inv in \<open>simp add: stopEvent_def\<close>)

lemma act_timers:
  assumes "t < length (ds_threads d)" "timer_inv xs d"
  shows "timer_inv xs (act t a d) \<and> timers_kept (ds_timers d) (ds_timers (act t a d))"
  using assms
  by (cases a) (simp_all add: addEvent_def addWalkEvent_def asyncEvent_def post_timers schedule_timers stop_timers)

lemma run_func_timers:
  assumes "t < length (ds_threads d)" "timer_inv xs d"
  shows "timer_inv xs (run_func runner t f d) \<and> timers_kept (ds_timers d) (ds_timers (run_func runner t f d))
    \<and> same_queues d (run_func runner t f d)"
proof -
  have "timer_inv xs e \<Longrightarrow> timers_kept (ds_timers d) (ds_timers e) \<Longrightarrow> same_queues d e \<Longrightarrow>
      timer_inv xs (fold (act t) acts e) \<and> timers_kept (ds_timers d) (ds_timers (fold (act t) acts e))
      \<and> same_queues d (fold (act t) acts e)" for acts e
  proof (induction acts arbitrary: e)
    case (Cons a acts)
    have t: "t < length (ds_threads e)" using Cons.prems(3) assms(1) by (simp add: same_queues_def)
    show ?case
      using Cons.IH [of "act t a e"] act_timers [OF t Cons.prems(1), of a] timers_kept_trans [OF Cons.prems(2)]
        same_queues_trans [OF Cons.prems(3) act_same_queues [of e t a]] by simp
  qed simp
  moreover have "timer_inv xs (d\<lparr>ds_world := w\<rparr>) = timer_inv xs d" for w by (rule timer_inv_cong) simp_all
  ultimately show ?thesis using assms(2) by (auto simp: run_func_def split: prod.split)
qed

lemma act_waiting:
  assumes "t < length (ds_threads d)" "a \<notin># waiting xs d" "a < length (ds_timers d)"
  shows "a \<notin># waiting xs (act t x d) \<and> a < length (ds_timers (act t x d))"
proof (cases x)
  case (ScheduleEvent delay f cycle)
  have "waiting xs (scheduleEvent t delay f cycle d) = add_mset (length (ds_timers d)) (waiting xs d)"
    using waiting_append [OF assms(1), of xs "length (ds_timers d)"]
    by (simp add: scheduleEvent_def Let_def notify_def waiting_def set_thread_def log_trace_def)
  moreover have "length (ds_timers (scheduleEvent t delay f cycle d)) = Suc (length (ds_timers d))"
    by (simp add: scheduleEvent_def Let_def notify_def set_thread_def log_trace_def)
  ultimately show ?thesis using ScheduleEvent assms(2,3) by simp
next
  case (StopEvent i)
  have "waiting xs (stopEvent i d) = waiting xs d" "length (ds_timers (stopEvent i d)) = length (ds_timers d)"
    by (simp_all add: stopEvent_def waiting_def split: option.split)
  with StopEvent assms(2,3) show ?thesis by simp
qed (use assms(2,3) in \<open>simp_all add: addEvent_def addWalkEvent_def asyncEvent_def post_waiting post_timers(2)\<close>)

lemma fold_act_waiting:
  "t < length (ds_threads d) \<Longrightarrow> a \<notin># waiting xs d \<Longrightarrow> a < length (ds_timers d) \<Longrightarrow>
    a \<notin># waiting xs (fold (act t) acts d)"
proof (induction acts arbitrary: d)
  case (Cons x acts)
  have "t < length (ds_threads (act t x d))"
    using Cons.prems(1) act_same_queues [of d t x] by (simp add: same_queues_def)
  with Cons.IH [of "act t x d"] act_waiting [OF Cons.prems, of x] show ?case by simp
qed simp

lemma run_func_waiting:
  assumes "t < length (ds_threads d)" "a \<notin># waiting xs d" "a < length (ds_timers d)"
  shows "a \<notin># waiting xs (run_func runner t f d)"
proof (cases "runner f (ds_world d)")
  case (Pair w acts)
  have "a \<notin># waiting xs (d\<lparr>ds_world := w\<rparr>)" using assms(2) by (simp add: waiting_def)
  with fold_act_waiting [of t "d\<lparr>ds_world := w\<rparr>" a xs acts] assms Pair show ?thesis
    by (simp add: run_func_def)
qed

lemma log_timers:
  assumes "timer_inv xs d" "\<not> timer_entry e"
  shows "timer_inv xs (log_trace e d)"
proof -
  have "timer_inv xs (log_trace e d) = timer_inv xs d"
    by (rule timer_inv_cong) (simp_all add: assms(2), simp_all add: log_trace_def)
  with assms(1) show ?thesis by simp
qed

lemma timer_inv_rest: "timer_inv (a # as) d \<Longrightarrow> timer_inv as d \<and> a \<notin># waiting as d \<and> a < length (ds_timers d)"
proof -
  assume inv: "timer_inv (a # as) d"
  have w: "waiting (a # as) d = add_mset a (waiting as d)" by (simp add: waiting_def)
  then have c: "count (waiting (a # as) d) b = (if b = a then Suc (count (waiting as d) b) else count (waiting as d) b)" for b by simp
  have le: "count (waiting (a # as) d) b \<le> 1" for b using inv by (simp only: timer_inv_def)
  have "count (waiting as d) b \<le> 1" for b using le [of b] c [of b] by (simp split: if_splits)
  moreover have "a \<notin># waiting as d" using le [of a] c [of a] by (simp add: not_in_iff)
  moreover have "\<forall>b \<in># waiting as d. b < length (ds_timers d)" "a < length (ds_timers d)"
    using inv w by (auto simp: timer_inv_def)
  moreover have "in_order (ds_timers d) as" using inv by (simp add: timer_inv_def in_order_def)
  moreover have "punctual (waiting as d) (ds_timers d) (timer_log d)"
    by (rule punctual_mono [of "waiting (a # as) d"]) (use inv in \<open>auto simp: timer_inv_def w\<close>)
  ultimately show ?thesis using inv by (simp add: timer_inv_def)
qed

text \<open>A fired timer leaves the list; if it is cyclic it comes back with a new time.\<close>

lemma fire_timer_inv:
  assumes me: "me < length (ds_threads d)" and inv: "timer_inv (a # as) d"
    and due: "t_utime (ds_timers d ! a) \<le> otsys_time d"
  shows "timer_inv as (fire_timer runner me a d) \<and> same_queues d (fire_timer runner me a d)"
proof -
  note rest = timer_inv_rest [OF inv]
  have exp: "\<not> hasExpired n (ds_timers d ! a)" for n
    using inv rest by (simp add: timer_inv_def hasExpired_def)
  obtain called d1 where ex: "timer_executed runner me a d = (called, d1)" by fastforce
  have early: "t1 \<le> otsys_time d" if "Fired a due t1 \<in> set (timer_log d)" for due t1
  proof -
    have "t1 + uint (t_delay (ds_timers d ! a)) \<le> t_utime (ds_timers d ! a)"
      using inv that unfolding timer_inv_def punctual_def by (simp add: waiting_def)
    with due show ?thesis using uint_ge_0 [of "t_delay (ds_timers d ! a)"] by linarith
  qed
  have d1: "timer_inv as d1 \<and> same_queues d d1 \<and> a \<notin># waiting as d1 \<and> a < length (ds_timers d1)
      \<and> (called \<longrightarrow> t_utime (ds_timers d1 ! a) \<le> otsys_time d1
           \<and> (\<forall>due t1. Fired a due t1 \<in> set (timer_log d1) \<longrightarrow> t1 \<le> otsys_time d1))"
  proof (cases "t_func (ds_timers d ! a)")
    case None
    then have "d1 = log_trace (Skipped a) d" "\<not> called" using ex by (simp_all add: timer_executed_def)
    then show ?thesis
      using timer_inv_rest [OF log_timers [OF inv, of "Skipped a"]] by simp
  next
    case (Some f)
    let ?e = "log_trace (Fired a (t_utime (ds_timers d ! a)) (otsys_time d)) d"
    have d1: "d1 = run_func runner me f ?e" using ex Some exp by (simp add: timer_executed_def)
    have fields: "waiting as ?e = waiting as d" "ds_timers ?e = ds_timers d"
      "scheduledTasksRef ?e = scheduledTasksRef d" "otsys_time ?e = otsys_time d"
      by (simp_all add: log_trace_def waiting_def)
    have "punctual (waiting as d) (ds_timers d) (timer_log ?e)"
      using punctual_fired [of a "waiting as d" "ds_timers d" "timer_log d"] rest due inv
      by (simp add: timer_inv_def waiting_def)
    then have inv_e: "timer_inv as ?e"
      using rest due unfolding timer_inv_def fields by auto
    have me_e: "me < length (ds_threads ?e)" using me by (simp add: log_trace_def)
    note run = run_func_timers [OF me_e inv_e, of runner f, folded d1]
    have same: "same_queues d d1" using run same_queues_trans [OF same_queues_simps(2)] by blast
    have kept: "a < length (ds_timers d1)" "t_utime (ds_timers d1 ! a) = t_utime (ds_timers d ! a)"
      using run rest timers_kept_utime [of "ds_timers d" "ds_timers d1" a] by (auto simp: fields timers_kept_def)
    have "a \<notin># waiting as d1" using run_func_waiting [OF me_e, of a as runner f] rest by (simp add: fields d1)
    moreover have "t1 \<le> otsys_time d" if "Fired a due t1 \<in> set (timer_log d1)" for due t1
    proof -
      have "Fired a due t1 \<in> fired_log d1" using that by (simp add: fired_log_def)
      then have "Fired a due t1 \<in> fired_log ?e" by (simp add: d1 run_func_fired)
      then show ?thesis using early by (auto simp: fired_log_def)
    qed
    moreover have "otsys_time d1 = otsys_time d" using same by (simp add: same_queues_def)
    ultimately show ?thesis using run same kept due by simp
  qed
  then have me1: "me < length (ds_threads d1)" using me by (simp add: same_queues_def)
  have rest1: "timer_inv as d1 \<and> a \<notin># waiting as d1 \<and> a < length (ds_timers d1)" using d1 by blast
  show ?thesis
  proof (cases "called \<and> t_cycle (ds_timers d1 ! a)")
    case True
    let ?q = "ds_threads d1 ! me" and ?ts = "(ds_timers d1)[a := updateTime (otsys_time d1) (ds_timers d1 ! a)]"
    let ?d2 = "set_thread me (?q\<lparr>th_scheduled := th_scheduled ?q @ [a]\<rparr>) (d1\<lparr>ds_timers := ?ts\<rparr>)"
    have fire: "fire_timer runner me a d = ?d2" using ex True by (simp add: fire_timer_def Let_def)
    have w: "waiting as ?d2 = add_mset a (waiting as d1)"
      using waiting_append [OF me1, of as a] by (simp add: waiting_def set_thread_def)
    have nin: "a \<notin> set as" "\<forall>b \<in> set as. b < length (ds_timers d1)"
      using rest1 by (auto simp: waiting_def timer_inv_def)
    have "in_order (ds_timers d1) as" using rest1 by (simp add: timer_inv_def)
    then have "in_order ?ts as" unfolding in_order_def
      by (rule sorted_wrt_mono_rel [rotated]) (use nin(1) in \<open>metis nth_list_update_neq\<close>)
    moreover have "count (waiting as ?d2) b \<le> 1" for b
      using rest1 by (auto simp: w timer_inv_def not_in_iff)
    moreover have "t_id (?ts ! b) = t_id (ds_timers d1 ! b)" for b
      using rest1 by (cases "b = a") (simp_all add: updateTime_def)
    moreover have "\<forall>t \<in> set ?ts. t_expiration t = 0"
      using rest1 by (auto simp: timer_inv_def all_set_conv_all_nth nth_list_update updateTime_def)
    moreover have "ds_timers ?d2 = ?ts" "timer_log ?d2 = timer_log d1" "scheduledTasksRef ?d2 = scheduledTasksRef d1"
      by (simp_all add: set_thread_def timer_log_def)
    moreover have "punctual (add_mset a (waiting as d1)) ?ts (timer_log d1)"
      by (rule punctual_again) (use rest1 d1 True in \<open>auto simp: timer_inv_def\<close>)
    ultimately have "timer_inv as ?d2" using rest1 by (simp add: timer_inv_def w)
    moreover have "same_queues d ?d2" using d1 by (simp add: same_queues_def set_thread_def)
    ultimately show ?thesis unfolding fire by blast
  next
    case False
    have "fire_timer runner me a d = d1\<lparr>scheduledTasksRef := (scheduledTasksRef d1)(t_id (ds_timers d1 ! a) := None)\<rparr>"
      unfolding fire_timer_def ex prod.case Let_def if_not_P [OF False] ..
    moreover have "timer_log (d1\<lparr>scheduledTasksRef := m\<rparr>) = timer_log d1" for m by (rule timer_log_cong) simp
    ultimately show ?thesis using rest1 d1 by (simp add: timer_inv_def same_queues_def waiting_def)
  qed
qed

lemma fire_timers_inv:
  assumes "me < length (ds_threads d)" "timer_inv xs d"
    and "fire_timers runner me xs d = (d1, rest)"
  shows "timer_inv rest d1 \<and> same_queues d d1 \<and> (rest \<noteq> [] \<longrightarrow> t_utime (ds_timers d1 ! hd rest) > otsys_time d1)"
  using assms
proof (induction xs arbitrary: d)
  case (Cons a as)
  show ?case
  proof (cases "t_utime (ds_timers d ! a) > otsys_time d")
    case True
    then show ?thesis using Cons.prems by auto
  next
    case False
    note f = fire_timer_inv [OF Cons.prems(1,2), of runner]
    have "fire_timers runner me as (fire_timer runner me a d) = (d1, rest)" using Cons.prems(3) False by simp
    moreover have "me < length (ds_threads (fire_timer runner me a d))"
      using f False Cons.prems(1) by (simp add: same_queues_def)
    ultimately show ?thesis
      using Cons.IH [of "fire_timer runner me a d"] f False same_queues_trans [of d] by fastforce
  qed
qed simp

text \<open>The invariant of a whole state.\<close>

definition dispatcher_inv :: "('f, 'w) dispatcher \<Rightarrow> bool" where
  "dispatcher_inv d \<longleftrightarrow> settled d \<and> timer_inv (scheduledTasks d) d"

lemma scheduled_inv:
  assumes "me < length (ds_threads d)" "timer_inv (scheduledTasks d) d"
  shows "timer_inv (scheduledTasks (executeScheduledEvents runner me d)) (executeScheduledEvents runner me d)
    \<and> (\<forall>a \<in> set (scheduledTasks (executeScheduledEvents runner me d)).
        t_utime (ds_timers (executeScheduledEvents runner me d) ! a) > otsys_time (executeScheduledEvents runner me d))"
proof -
  obtain d1 rest where f: "fire_timers runner me (scheduledTasks d) d = (d1, rest)" by fastforce
  note i = fire_timers_inv [OF assms f]
  have "timer_inv rest (d1\<lparr>scheduledTasks := rest\<rparr>) = timer_inv rest d1" by (rule timer_inv_cong) simp_all
  moreover have "\<forall>a \<in> set rest. t_utime (ds_timers d1 ! a) > otsys_time d1"
    using i by (cases rest) (auto simp: timer_inv_def in_order_def)
  ultimately show ?thesis using i by (simp add: executeScheduledEvents_def f)
qed

lemma timer_executed_balanced:
  assumes "me < length (ds_threads d)" "balanced X d"
  shows "balanced X (snd (timer_executed runner me a d)) \<and> length (ds_threads (snd (timer_executed runner me a d))) = length (ds_threads d)"
proof -
  have log: "balanced X (log_trace e d) = balanced X d" if "e = Skipped a \<or> e = Fired a u n" for e u n
    using that by (auto simp: balanced_def uncancelled_def posted_def handled_def queued_def log_trace_def is_posted_def is_done_def)
  have "balanced X (log_trace (Skipped a) d)" "\<And>u n. balanced X (log_trace (Fired a u n) d)" using log assms(2) by simp_all
  moreover have "me < length (ds_threads (log_trace e d))" "length (ds_threads (log_trace e d)) = length (ds_threads d)" for e
    using assms(1) by (simp_all add: log_trace_def)
  ultimately show ?thesis
    using run_func_ok [of me "log_trace (Fired a u n) d" X runner for u n]
    by (auto simp: timer_executed_def same_queues_def split: option.split)
qed

lemma fire_timers_balanced:
  assumes "me < length (ds_threads d)" "balanced X d"
  shows "balanced X (fst (fire_timers runner me xs d))"
  using assms
proof (induction xs arbitrary: d)
  case (Cons a as)
  obtain called d1 where ex: "timer_executed runner me a d = (called, d1)" by fastforce
  have d1: "balanced X d1" "me < length (ds_threads d1)"
    using timer_executed_balanced [OF Cons.prems, of runner a] ex Cons.prems(1) by simp_all
  have "balanced X (fire_timer runner me a d) \<and> me < length (ds_threads (fire_timer runner me a d))"
  proof (cases "called \<and> t_cycle (ds_timers d1 ! a)")
    case True
    have "balanced X (d1\<lparr>ds_timers := ts\<rparr>)" for ts using d1(1) by (subst balanced_cong [of _ d1]) simp_all
    then show ?thesis
      using True ex d1(2) by (simp add: fire_timer_def Let_def balanced_timers) (simp add: set_thread_def)
  next
    case False
    have "balanced X (d1\<lparr>scheduledTasksRef := m\<rparr>)" for m using d1(1) by (subst balanced_cong [of _ d1]) simp_all
    then show ?thesis
      unfolding fire_timer_def ex prod.case Let_def if_not_P [OF False] using d1(2) by simp
  qed
  then show ?case using Cons by simp
qed simp

section \<open>The timers under every step\<close>

lemma execute_task_timers:
  assumes "t < length (ds_threads d)" "timer_inv xs d"
  shows "timer_inv xs (snd (execute_task runner t g task d)) \<and> same_queues d (snd (execute_task runner t g task d))"
proof (cases "t_func task")
  case (Some f)
  have "timer_inv xs (log_trace (Dropped g f) d)" "timer_inv xs (log_trace (Ran g f) d)"
    by (rule log_timers [OF assms(2)], simp)+
  moreover have "t < length (ds_threads (log_trace (Ran g f) d))" using assms(1) by (simp add: log_trace_def)
  ultimately show ?thesis
    using run_func_timers [of t "log_trace (Ran g f) d" xs runner f] same_queues_trans [OF same_queues_simps(2)] Some
    by (auto simp: execute_task_def)
qed (use assms(2) in \<open>simp add: execute_task_def\<close>)

lemma clear_timers: "timer_inv xs (clear_group g d) = timer_inv xs d"
  by (rule timer_inv_cong) (simp_all add: clear_group_def)

lemma serial_timers:
  assumes "me < length (ds_threads d)" "timer_inv xs d"
  shows "timer_inv xs (executeSerialEvents runner me g d) \<and> scheduledTasks (executeSerialEvents runner me g d) = scheduledTasks d
    \<and> length (ds_threads (executeSerialEvents runner me g d)) = length (ds_threads d)"
proof -
  have cyc: "timer_inv xs (e\<lparr>dispatcherCycle := n\<rparr>) = timer_inv xs e" for n and e :: "('a, 'b) dispatcher"
    by (rule timer_inv_cong) simp_all
  have one: "timer_inv xs (execute_serial_task runner me g task e) \<and> same_queues e (execute_serial_task runner me g task e)"
    if "me < length (ds_threads e)" "timer_inv xs e" for task e
    using execute_task_timers [OF that, of runner g task]
    by (auto simp: execute_serial_task_def cyc same_queues_def split: prod.split)
  have "me < length (ds_threads e) \<Longrightarrow> timer_inv xs e \<Longrightarrow> timer_inv xs (fold (execute_serial_task runner me g) ts e)
      \<and> same_queues e (fold (execute_serial_task runner me g) ts e)" for ts e
  proof (induction ts arbitrary: e)
    case (Cons task ts)
    note o = one [OF Cons.prems, of task]
    then have "me < length (ds_threads (execute_serial_task runner me g task e))"
      using Cons.prems(1) by (simp add: same_queues_def)
    with Cons.IH [of "execute_serial_task runner me g task e"] o show ?case
      using same_queues_trans [OF conjunct2 [OF o]] by simp
  qed simp
  from this [OF assms, of "m_tasks d g"] show ?thesis
    by (simp add: executeSerialEvents_def clear_timers) (simp add: clear_group_def same_queues_def)
qed

lemma parallel_timers:
  assumes "\<forall>(i, t) \<in> set sch. t < length (ds_threads d)" "timer_inv xs d"
  shows "timer_inv xs (executeParallelEvents runner g sch d) \<and> scheduledTasks (executeParallelEvents runner g sch d) = scheduledTasks d
    \<and> length (ds_threads (executeParallelEvents runner g sch d)) = length (ds_threads d)"
proof -
  define h where "h = (\<lambda>(i, t) e. snd (execute_task runner t g (m_tasks d g ! i) e))"
  have "\<forall>(i, t) \<in> set ys. t < length (ds_threads e) \<Longrightarrow> timer_inv xs e \<Longrightarrow>
      timer_inv xs (fold h ys e) \<and> same_queues e (fold h ys e)" for ys e
  proof (induction ys arbitrary: e)
    case (Cons y ys)
    obtain i t where y: "y = (i, t)" by (cases y)
    have o: "timer_inv xs (h y e) \<and> same_queues e (h y e)"
      using execute_task_timers [of t e xs runner g] Cons.prems y by (simp add: h_def)
    then have "\<forall>(i, t) \<in> set ys. t < length (ds_threads (h y e))" using Cons.prems(1) by (auto simp: same_queues_def)
    with Cons.IH [of "h y e"] o show ?case using same_queues_trans [OF conjunct2 [OF o]] by simp
  qed simp
  from this [OF assms] show ?thesis unfolding executeParallelEvents_def h_def [symmetric] clear_timers
    by (simp add: clear_group_def same_queues_def)
qed

lemma insert_timer_mset: "mset (insert_timer ts a xs) = add_mset a (mset xs)"
proof -
  let ?P = "\<lambda>b. t_utime (ts ! b) \<le> t_utime (ts ! a)"
  have "mset (takeWhile ?P xs) + mset (dropWhile ?P xs) = mset xs" by (metis mset_append takeWhile_dropWhile_id)
  then show ?thesis by (simp add: insert_timer_def)
qed

lemma insert_timer_in_order:
  assumes "in_order ts xs"
  shows "in_order ts (insert_timer ts a xs)"
proof -
  let ?P = "\<lambda>b. t_utime (ts ! b) \<le> t_utime (ts ! a)"
  define T D where "T = takeWhile ?P xs" and "D = dropWhile ?P xs"
  have parts: "in_order ts (T @ D)" using assms by (simp only: T_def D_def takeWhile_dropWhile_id)
  have early: "t_utime (ts ! b) \<le> t_utime (ts ! a)" if "b \<in> set T" for b
    using set_takeWhileD [OF that [unfolded T_def]] by simp
  have late: "t_utime (ts ! a) \<le> t_utime (ts ! b)" if b: "b \<in> set D" for b
  proof -
    obtain c cs where d: "D = c # cs" using b by (cases D) simp_all
    then have "\<not> ?P c" using hd_dropWhile [of ?P xs] by (simp add: D_def)
    moreover have "t_utime (ts ! c) \<le> t_utime (ts ! b)"
      using parts b unfolding d in_order_def sorted_wrt_append by auto
    ultimately show ?thesis by simp
  qed
  show ?thesis
    using parts early late unfolding insert_timer_def T_def [symmetric] D_def [symmetric] in_order_def
    by (simp add: sorted_wrt_append)
qed

lemma insert_timers: "in_order ts xs \<Longrightarrow> in_order ts (fold (insert_timer ts) as xs)
    \<and> mset (fold (insert_timer ts) as xs) = mset xs + mset as"
  by (induction as arbitrary: xs) (simp_all add: insert_timer_in_order insert_timer_mset)

lemma merge_thread_timers:
  assumes t: "t < length (ds_threads d)" and inv: "timer_inv (scheduledTasks d) d"
  shows "timer_inv (scheduledTasks (merge_thread groups timers t d)) (merge_thread groups timers t d)"
proof -
  obtain q m where f: "fold merge_group groups (ds_threads d ! t, m_tasks d) = (q, m)" by fastforce
  have q: "th_scheduled q = th_scheduled (ds_threads d ! t)" using merge_groups [OF f] by blast
  show ?thesis
  proof (cases timers)
    case True
    let ?s = "fold (insert_timer (ds_timers d)) (th_scheduled q) (scheduledTasks d)"
    let ?d = "merge_thread groups timers t d"
    have fields: "ds_timers ?d = ds_timers d" "scheduledTasks ?d = ?s" "timer_log ?d = timer_log d"
      "scheduledTasksRef ?d = scheduledTasksRef d" "ds_threads ?d = (ds_threads d)[t := q\<lparr>th_scheduled := []\<rparr>]"
      using True by (simp_all add: merge_thread_def f Let_def set_thread_def timer_log_def)
    have o: "in_order (ds_timers d) ?s" "mset ?s = mset (scheduledTasks d) + mset (th_scheduled q)"
      using insert_timers [of "ds_timers d" "scheduledTasks d" "th_scheduled q"] inv unfolding timer_inv_def by blast+
    have "waiting ?s ?d = waiting (scheduledTasks d) d"
      using sum_list_update [OF t, of "\<lambda>q. mset (th_scheduled q)" "q\<lparr>th_scheduled := []\<rparr>"] q o(2)
      by (simp add: waiting_def fields ac_simps)
    then show ?thesis using inv o(1) by (simp add: timer_inv_def fields)
  next
    case False
    then have "merge_thread groups timers t d = set_thread t q (d\<lparr>m_tasks := m\<rparr>)" by (simp add: merge_thread_def f Let_def)
    moreover have "timer_inv (scheduledTasks d) (set_thread t q (d\<lparr>m_tasks := m\<rparr>)) = timer_inv (scheduledTasks d) d"
      by (rule timer_inv_cong) (simp_all add: set_thread_def scheduled_update q)
    ultimately show ?thesis using inv by (simp add: set_thread_def)
  qed
qed

lemma merge_events_timers:
  assumes "timer_inv (scheduledTasks d) d"
  shows "timer_inv (scheduledTasks (merge_events groups timers d)) (merge_events groups timers d)"
proof -
  have "timer_inv (scheduledTasks e) e \<Longrightarrow> \<forall>t \<in> set ts. t < length (ds_threads e) \<Longrightarrow>
      timer_inv (scheduledTasks (fold (merge_thread groups timers) ts e)) (fold (merge_thread groups timers) ts e)" for ts e
    by (induction ts arbitrary: e) (simp_all add: merge_thread_timers merge_thread_length)
  from this [of d "[0..<length (ds_threads d)]"] assms show ?thesis by (simp add: merge_events_def)
qed

section \<open>Every run\<close>

lemma fields_inv:
  assumes "dispatcher_inv d" "ds_threads d' = ds_threads d" "m_tasks d' = m_tasks d" "ds_trace d' = ds_trace d"
    "ds_timers d' = ds_timers d" "scheduledTasksRef d' = scheduledTasksRef d" "scheduledTasks d' = scheduledTasks d"
  shows "dispatcher_inv d' \<and> length (ds_threads d') = length (ds_threads d)"
  using assms timer_log_cong [of d' d] timer_inv_cong [of d' d "scheduledTasks d"] balanced_cong [of d' d "\<lambda>g. {#}"] by (simp add: dispatcher_inv_def)

lemma merge_inv:
  "dispatcher_inv d \<Longrightarrow> dispatcher_inv (merge_events groups timers d)
    \<and> length (ds_threads (merge_events groups timers d)) = length (ds_threads d)"
  using merge_events_balanced merge_events_timers by (auto simp: dispatcher_inv_def)

lemma check_inv: "dispatcher_inv d \<Longrightarrow> dispatcher_inv (checkPendingTasks d) \<and> length (ds_threads (checkPendingTasks d)) = length (ds_threads d)"
  by (rule fields_inv) (simp_all add: checkPendingTasks_def)

lemma serial_inv:
  assumes "me < length (ds_threads d)" "dispatcher_inv d"
  shows "dispatcher_inv (executeSerialEvents runner me g d)
    \<and> length (ds_threads (executeSerialEvents runner me g d)) = length (ds_threads d)"
  using assms serial_timers [OF assms(1), of "scheduledTasks d" runner g] serial_balanced [OF assms(1)]
  by (simp add: dispatcher_inv_def)

lemma parallel_inv:
  assumes "pool_order d g sch" "dispatcher_inv d"
  shows "dispatcher_inv (executeParallelEvents runner g sch d)
    \<and> length (ds_threads (executeParallelEvents runner g sch d)) = length (ds_threads d)"
proof -
  have "\<forall>(i, t) \<in> set sch. t < length (ds_threads d)" using assms(1) by (simp add: pool_order_def list_all_iff)
  from parallel_timers [OF this, of "scheduledTasks d" runner g] parallel_balanced [OF assms(1)] assms(2)
  show ?thesis by (simp add: dispatcher_inv_def)
qed

lemma timers_inv:
  assumes "me < length (ds_threads d)" "dispatcher_inv d"
  shows "dispatcher_inv (executeScheduledEvents runner me d)
    \<and> length (ds_threads (executeScheduledEvents runner me d)) = length (ds_threads d)"
proof -
  have inv: "settled d" "timer_inv (scheduledTasks d) d" using assms(2) by (simp_all add: dispatcher_inv_def)
  obtain d1 rest where f: "fire_timers runner me (scheduledTasks d) d = (d1, rest)" by fastforce
  have "settled (d1\<lparr>scheduledTasks := rest\<rparr>) = settled d1" by (rule balanced_cong) simp_all
  then have "settled (executeScheduledEvents runner me d)"
    using fire_timers_balanced [OF assms(1) inv(1), of runner "scheduledTasks d"] by (simp add: executeScheduledEvents_def f)
  moreover have "length (ds_threads (executeScheduledEvents runner me d)) = length (ds_threads d)"
    using fire_timers_inv [OF assms(1) inv(2) f] by (simp add: executeScheduledEvents_def f same_queues_def)
  ultimately show ?thesis using scheduled_inv [OF assms(1) inv(2), of runner] by (simp add: dispatcher_inv_def)
qed

lemma act_inv:
  assumes "t < length (ds_threads d)" "dispatcher_inv d"
  shows "dispatcher_inv (act t a d) \<and> length (ds_threads (act t a d)) = length (ds_threads d)"
  using assms act_balanced [OF assms(1)] act_timers [OF assms(1)] act_same_queues [of d t a]
  by (simp add: dispatcher_inv_def same_queues_def)

lemma step_inv:
  assumes "dispatcher_step runner me (p, d) (p', d')" "me < length (ds_threads d)" "dispatcher_inv d"
  shows "dispatcher_inv d' \<and> length (ds_threads d') = length (ds_threads d)"
  using assms(1)
proof cases
  case (awake n)
  then show ?thesis using fields_inv [OF assms(3), of d'] by simp
next
  case (world w)
  then show ?thesis using fields_inv [OF assms(3), of d'] by simp
qed (use assms(2,3) in \<open>simp_all add: merge_inv check_inv serial_inv parallel_inv timers_inv act_inv mergeAsyncEvents_def\<close>)

lemma run_inv:
  assumes "dispatcher_run runner me (p, d) (p', d')" "me < length (ds_threads d)" "dispatcher_inv d"
  shows "dispatcher_inv d' \<and> length (ds_threads d') = length (ds_threads d)"
  using assms(1) unfolding dispatcher_run_def
proof (induction rule: rtranclp_induct2)
  case refl
  then show ?case using assms(3) by simp
next
  case (step p1 d1 p2 d2)
  then show ?case using step_inv [OF step(2)] assms(2) by simp
qed

lemma new_inv: "dispatcher_inv (new_dispatcher n now w)"
proof -
  have "sum_list (replicate n {#}) = ({#} :: 'a multiset)" "sum_list (replicate n {#}) = ({#} :: nat multiset)"
    by (induction n) simp_all
  then show ?thesis
    by (simp add: dispatcher_inv_def balanced_def uncancelled_def timer_inv_def waiting_def new_dispatcher_def posted_def
        handled_def queued_def no_tasks_def in_order_def timer_log_def punctual_def on_time_def)
qed

lemma new_run_inv:
  assumes "dispatcher_run runner me (p0, new_dispatcher n now w) (p, d)" "me < n"
  shows "dispatcher_inv d \<and> length (ds_threads d) = n"
proof -
  have l: "length (ds_threads (new_dispatcher n now w :: ('a, 'b) dispatcher)) = n" by (simp add: new_dispatcher_def)
  have "me < length (ds_threads (new_dispatcher n now w :: ('a, 'b) dispatcher))" using assms(2) by (simp only: l)
  from run_inv [OF assms(1) this new_inv] show ?thesis by (simp only: l)
qed

section \<open>A stopped timer\<close>

definition dead :: "nat \<Rightarrow> ('f, 'w) dispatcher \<Rightarrow> bool" where
  "dead a d \<longleftrightarrow> a < length (ds_timers d) \<and> isCanceled (ds_timers d ! a)"

definition fires :: "nat \<Rightarrow> ('f, 'w) dispatcher \<Rightarrow> 'f trace list" where
  "fires a d = filter (\<lambda>e. case e of Fired b _ _ \<Rightarrow> b = a | _ \<Rightarrow> False) (ds_trace d)"

definition stays_dead :: "nat \<Rightarrow> ('f, 'w) dispatcher \<Rightarrow> ('f, 'w) dispatcher \<Rightarrow> bool" where
  "stays_dead a d d' \<longleftrightarrow> (dead a d \<longrightarrow> dead a d' \<and> fires a d' = fires a d)"

lemma stays_dead_refl [simp]: "stays_dead a d d"
  by (simp add: stays_dead_def)

lemma stays_dead_trans: "stays_dead a d d' \<Longrightarrow> stays_dead a d' d'' \<Longrightarrow> stays_dead a d d''"
  by (simp add: stays_dead_def)

lemma stays_dead_fold: "(\<And>x e. stays_dead a e (f x e)) \<Longrightarrow> stays_dead a d (fold f xs d)"
  by (induction xs arbitrary: d) (auto intro: stays_dead_trans)

lemma stays_dead_fields: "ds_timers d' = ds_timers d \<Longrightarrow> ds_trace d' = ds_trace d \<Longrightarrow> stays_dead a d d'"
  by (simp add: stays_dead_def dead_def fires_def)

lemma stays_dead_log: "(\<And>u n. e \<noteq> Fired a u n) \<Longrightarrow> stays_dead a d (log_trace e d)"
  by (cases e) (auto simp: stays_dead_def dead_def fires_def log_trace_def)

lemma stays_dead_act: "stays_dead a d (act t x d)"
proof (cases x)
  case (ScheduleEvent delay f cycle)
  then show ?thesis
    by (auto simp: stays_dead_def dead_def fires_def scheduleEvent_def Let_def notify_def set_thread_def log_trace_def nth_append)
next
  case (StopEvent i)
  have "t_func (ts[b := cancel (ts ! b)] ! a) = None" if "t_func (ts ! a) = None" for ts :: "'a task list" and b
    using that by (cases "b < length ts") (auto simp: nth_list_update cancel_def not_less list_update_beyond)
  with StopEvent show ?thesis
    by (cases "scheduledTasksRef d i") (simp_all add: stays_dead_def dead_def fires_def stopEvent_def isCanceled_def)
qed (simp_all add: addEvent_def addWalkEvent_def asyncEvent_def post_def Let_def notify_def log_trace_def set_thread_def
    stays_dead_def dead_def fires_def)

lemma stays_dead_run_func: "stays_dead a d (run_func runner t f d)"
  unfolding run_func_def
  by (auto split: prod.split intro!: stays_dead_trans [OF stays_dead_fields stays_dead_fold] stays_dead_act)

lemma stays_dead_task: "stays_dead a d (snd (execute_task runner t g task d))"
proof (cases "t_func task")
  case (Some f)
  then show ?thesis
    by (auto simp: execute_task_def intro: stays_dead_log stays_dead_trans [OF stays_dead_log stays_dead_run_func])
qed (simp add: execute_task_def)

lemma stays_dead_serial_task: "stays_dead a d (execute_serial_task runner t g task d)"
proof -
  have "stays_dead a d (d1\<lparr>dispatcherCycle := n\<rparr>)" if "stays_dead a d d1" for d1 n
    by (rule stays_dead_trans [OF that stays_dead_fields]) simp_all
  then show ?thesis
    using stays_dead_task [of a d runner t g task] by (auto simp: execute_serial_task_def split: prod.splits)
qed

lemma stays_dead_events:
  "stays_dead a d (executeSerialEvents runner me g d)" "stays_dead a d (executeParallelEvents runner g sch d)"
  unfolding executeSerialEvents_def executeParallelEvents_def
  by (rule stays_dead_trans [OF stays_dead_fold stays_dead_fields];
      auto simp: stays_dead_serial_task stays_dead_task clear_group_def)+

lemma stays_dead_merge: "stays_dead a d (merge_events groups timers d)"
  unfolding merge_events_def
  by (rule stays_dead_fold, rule stays_dead_fields) (simp_all add: merge_thread_def Let_def set_thread_def split: prod.split)

lemma stays_dead_timer: "stays_dead a d (fire_timer runner me b d)"
proof -
  obtain called d1 where ex: "timer_executed runner me b d = (called, d1)" by fastforce
  have "stays_dead a d d1"
  proof (cases "t_func (ds_timers d ! b)")
    case None
    then show ?thesis using ex by (auto simp: timer_executed_def intro: stays_dead_log)
  next
    case (Some f)
    show ?thesis
    proof (cases "a = b")
      case True
      then show ?thesis using Some by (simp add: stays_dead_def dead_def isCanceled_def)
    next
      case False
      then show ?thesis
        using ex Some by (auto simp: timer_executed_def split: if_splits
            intro: stays_dead_log stays_dead_trans [OF stays_dead_log stays_dead_run_func])
    qed
  qed
  moreover have "stays_dead a d1 (fire_timer runner me b d)"
    by (cases "b < length (ds_timers d1)") (auto simp: fire_timer_def ex Let_def stays_dead_def dead_def fires_def set_thread_def
        isCanceled_def updateTime_def nth_list_update not_less list_update_beyond)
  ultimately show ?thesis by (rule stays_dead_trans)
qed

lemma stays_dead_timers: "stays_dead a d (fst (fire_timers runner me xs d))"
  by (induction xs arbitrary: d) (auto intro: stays_dead_trans stays_dead_timer)

lemma stays_dead_step: "dispatcher_step runner me (p, d) (p', d') \<Longrightarrow> stays_dead a d d'"
proof (induction "(p, d)" "(p', d')" rule: dispatcher_step.induct)
  case timers
  obtain d1 rest where f: "fire_timers runner me (scheduledTasks d) d = (d1, rest)" by fastforce
  have "stays_dead a d d1" using stays_dead_timers [of a d runner me "scheduledTasks d"] f by simp
  then have "stays_dead a d (d1\<lparr>scheduledTasks := rest\<rparr>)" by (rule stays_dead_trans) (rule stays_dead_fields, simp_all)
  with timers f show ?case by (simp add: executeScheduledEvents_def)
qed (auto simp: stays_dead_merge stays_dead_events stays_dead_act mergeAsyncEvents_def checkPendingTasks_def
    intro: stays_dead_fields)

lemma stays_dead_run: "dispatcher_run runner me (p, d) (p', d') \<Longrightarrow> stays_dead a d d'"
  unfolding dispatcher_run_def
  by (induction rule: rtranclp_induct2) (auto intro: stays_dead_trans stays_dead_step)

section \<open>Properties\<close>

text \<open>
  C12. No event is lost and none is run twice: after any run of the dispatcher, with other
  threads posting whatever they like at any time and the pool running parallel events in any
  order, the events of a group that were posted are those that were run (or dropped because
  they had expired) together with those still in a queue, each as often as it was posted.
\<close>

theorem no_event_lost_or_doubled:
  assumes "dispatcher_run runner me (Merge Walk, new_dispatcher n now w) (p, d)" "me < n"
  shows "posted g d = handled g d + queued g d"
proof -
  have "dispatcher_inv d" using new_run_inv [OF assms(1,2)] by simp
  then show ?thesis by (simp add: dispatcher_inv_def balanced_def)
qed

lemma no_event_lost_or_doubled_witness:
  "\<exists>d. dispatcher_run (\<lambda>f w. (w, [])) 0 (Merge Walk, new_dispatcher 2 0 ()) (Merge Walk, d)
    \<and> posted Serial d = {#7 :: nat#} \<and> {#7#} = handled Serial d + queued Serial d"
proof -
  let ?d = "act 1 (AddEvent (7 :: nat) 0) (new_dispatcher 2 0 ())"
  have "dispatcher_step (\<lambda>f w. (w, [])) 0 (Merge Walk, new_dispatcher 2 0 ()) (Merge Walk, ?d)"
    by (rule other_thread) (simp add: new_dispatcher_def)
  then have run: "dispatcher_run (\<lambda>f w. (w, [])) 0 (Merge Walk, new_dispatcher 2 0 ()) (Merge Walk, ?d)"
    by (simp add: dispatcher_run_def)
  moreover have "posted Serial ?d = {#7#}"
    by (simp add: addEvent_def post_def Let_def notify_def log_trace_def set_thread_def new_dispatcher_def posted_def is_posted_def)
  ultimately show ?thesis using no_event_lost_or_doubled [OF run, of Serial] by auto
qed

text \<open>
  C13. Timers keep their time. Whenever a timer has fired, it had been asked for before: at
  least its delay after \<open>scheduleEvent\<close> was called for it, and a timer that had fired before
  was asked to be cyclic and fires again at least its delay later; nor has any fired before
  its due time. The timers in the set are in the order of their times, none is in two places
  at once, and one pass of the dispatcher over the set leaves none that is due.
\<close>

theorem timers_fire_on_time:
  assumes "dispatcher_run runner me (Merge Walk, new_dispatcher n now w) (p, d)" "me < n"
  shows "(ds_trace d = xs @ Fired a due t # ys \<longrightarrow> due \<le> t
       \<and> (\<exists>delay cyc t0. Scheduled a delay cyc t0 \<in> set xs)
       \<and> (\<forall>delay cyc t0. Scheduled a delay cyc t0 \<in> set xs \<longrightarrow> t0 + uint delay \<le> t
            \<and> (\<forall>due1 t1. Fired a due1 t1 \<in> set xs \<longrightarrow> cyc \<and> t1 + uint delay \<le> t)))
    \<and> sorted (map (\<lambda>a. t_utime (ds_timers d ! a)) (scheduledTasks d))
    \<and> {a. count (waiting (scheduledTasks d) d) a > 1} = {}
    \<and> {a \<in> set (scheduledTasks (executeScheduledEvents runner me d)).
         t_utime (ds_timers (executeScheduledEvents runner me d) ! a) \<le> otsys_time (executeScheduledEvents runner me d)} = {}"
proof -
  have inv: "dispatcher_inv d" and me: "me < length (ds_threads d)" using new_run_inv [OF assms(1,2)] assms(2) by simp_all
  then have t: "timer_inv (scheduledTasks d) d" by (simp add: dispatcher_inv_def)
  have "\<not> count (waiting (scheduledTasks d) d) a > 1" for a using t unfolding timer_inv_def by (metis not_le)
  then have "{a. count (waiting (scheduledTasks d) d) a > 1} = {}" by blast
  moreover have "{a \<in> set (scheduledTasks (executeScheduledEvents runner me d)).
      t_utime (ds_timers (executeScheduledEvents runner me d) ! a) \<le> otsys_time (executeScheduledEvents runner me d)} = {}"
    using scheduled_inv [OF me t, of runner] by (auto simp: not_le)
  moreover have "sorted (map (\<lambda>a. t_utime (ds_timers d ! a)) (scheduledTasks d))"
    using t by (simp add: timer_inv_def in_order_def sorted_wrt_map)
  moreover have "due \<le> t \<and> may_fire a t xs" if eq: "ds_trace d = xs @ Fired a due t # ys"
  proof -
    have l: "timer_log d = filter timer_entry xs @ Fired a due t # filter timer_entry ys"
      by (simp add: timer_log_def eq)
    then have "Fired a due t \<in> set (timer_log d)" by simp
    then have "due \<le> t" using t unfolding timer_inv_def by blast
    moreover have "may_fire a t (filter timer_entry xs)"
      using t l unfolding timer_inv_def punctual_def on_time_def by blast
    moreover have "may_fire a t (filter timer_entry xs) = may_fire a t xs"
      by (simp only: may_fire_def set_filter mem_Collect_eq timer_entry_simps simp_thms)
    ultimately show ?thesis by simp
  qed
  ultimately show ?thesis unfolding may_fire_def by blast
qed

lemma timers_fire_on_time_witness:
  "\<exists>d. dispatcher_run (\<lambda>f w. (w, [])) 0 (Merge Walk, new_dispatcher 1 5 ()) (Check Walk, d)
    \<and> scheduledTasks d = [0] \<and> sorted (map (\<lambda>a. t_utime (ds_timers (d :: (nat, unit) dispatcher) ! a)) [0])"
proof -
  let ?r = "\<lambda>(f :: nat) (w :: unit). (w, [] :: nat action list)"
  let ?d = "act 0 (ScheduleEvent 50 (7 :: nat) True) (new_dispatcher 1 5 ())"
  let ?e = "merge_events [Walk, Serial] True ?d"
  have "dispatcher_step ?r 0 (Merge Walk, new_dispatcher 1 5 ()) (Merge Walk, ?d)"
    by (rule other_thread) (simp add: new_dispatcher_def)
  moreover have "dispatcher_step ?r 0 (Merge Walk, ?d) (Check Walk, ?e)" by (rule merge)
  ultimately have run: "dispatcher_run ?r 0 (Merge Walk, new_dispatcher 1 5 ()) (Check Walk, ?e)"
    by (auto simp: dispatcher_run_def intro: rtranclp_trans)
  moreover have "scheduledTasks ?e = [0]"
    by (simp add: scheduleEvent_def Let_def notify_def set_thread_def log_trace_def new_dispatcher_def merge_events_def merge_thread_def
        merge_group_def no_tasks_def insert_timer_def)
  moreover have "sorted (map (\<lambda>a. t_utime (ds_timers ?e ! a)) (scheduledTasks ?e))"
    by (rule timers_fire_on_time [OF run zero_less_one, THEN conjunct2, THEN conjunct1])
  ultimately show ?thesis by (intro exI [of _ ?e]) simp
qed

text \<open>
  C14. A timer that is stopped never fires again: whatever is posted, merged or run after
  \<open>stopEvent\<close> has found it, no step calls its function; and what \<open>stopEvent\<close> finds under an
  id is a timer with that id.
\<close>

theorem stopped_timer_never_fires:
  assumes "dispatcher_run runner me (Merge Walk, new_dispatcher n now w) (p, d)" "me < n"
    and "scheduledTasksRef d i = Some a" "dispatcher_run runner me (p, stopEvent i d) (p', d')"
  shows "t_id (ds_timers d ! a) = i \<and> fires a d' = fires a d"
proof -
  have "dispatcher_inv d" using new_run_inv [OF assms(1,2)] by simp
  then have a: "a < length (ds_timers d)" "t_id (ds_timers d ! a) = i"
    using assms(3) by (simp_all add: dispatcher_inv_def timer_inv_def)
  have "dead a (stopEvent i d)" "fires a (stopEvent i d) = fires a d"
    using a assms(3) by (simp_all add: dead_def fires_def stopEvent_def isCanceled_def cancel_def)
  then show ?thesis using stays_dead_run [OF assms(4), of a] a by (simp add: stays_dead_def)
qed

lemma stopped_timer_never_fires_witness:
  "\<exists>d d'. dispatcher_run (\<lambda>f w. (w, [])) 0 (Merge Walk, new_dispatcher 1 5 ()) (Merge Walk, d)
    \<and> scheduledTasksRef d 1 = Some 0 \<and> t_id (ds_timers d ! 0) = 1
    \<and> dispatcher_run (\<lambda>f w. (w, [])) 0 (Merge Walk, stopEvent 1 d) (Check Walk, d')
    \<and> fires 0 d' = fires 0 (d :: (nat, unit) dispatcher)"
proof -
  let ?r = "\<lambda>(f :: nat) (w :: unit). (w, [] :: nat action list)"
  let ?d = "act 0 (ScheduleEvent 50 (7 :: nat) True) (new_dispatcher 1 5 ())"
  let ?e = "merge_events [Walk, Serial] True (stopEvent 1 ?d)"
  have run: "dispatcher_run ?r 0 (Merge Walk, new_dispatcher 1 5 ()) (Merge Walk, ?d)"
    unfolding dispatcher_run_def by (rule r_into_rtranclp, rule other_thread) (simp add: new_dispatcher_def)
  have run2: "dispatcher_run ?r 0 (Merge Walk, stopEvent 1 ?d) (Check Walk, ?e)"
    unfolding dispatcher_run_def by (rule r_into_rtranclp, rule merge)
  have ref: "scheduledTasksRef ?d 1 = Some 0"
    by (simp add: scheduleEvent_def Let_def notify_def set_thread_def log_trace_def new_dispatcher_def next_id_def)
  show ?thesis
    using stopped_timer_never_fires [OF run zero_less_one ref run2] run run2 ref by blast
qed

text \<open>
  A parallel loop runs every index exactly once: the indices \<open>asyncWait\<close> runs itself and
  the range it gives to the pool are together those asked for, without a gap or an overlap.
\<close>

theorem parallel_indices_once:
  assumes "0 < threads"
  shows "fst (asyncWait disabled threads sz) @ snd (asyncWait disabled threads sz) = [0..<sz]"
proof (cases "sz = 0 \<or> disabled")
  case False
  define block where "block = size_per_block sz threads"
  have block: "0 < block"
    using False assms by (cases sz) (simp_all add: block_def size_per_block_def div_greater_zero_iff)
  let ?bs = "generatePartition sz threads"
  have bs: "?bs = blocks sz block 0" using False by (simp add: generatePartition_def block_def)
  have cons: "?bs = (0, min sz block) # blocks sz block block"
    using False block by (simp add: bs blocks.simps [of sz block 0])
  show ?thesis
  proof (cases "block < sz")
    case True
    then have next_block: "blocks sz block block = (block, min sz (block + block)) # blocks sz block (block + block)"
      using block by (simp add: blocks.simps [of sz block block])
    have "snd (last ?bs) = sz" using last_block [OF block True] cons by simp
    moreover have "[0..<block] @ [block..<sz] = [0..<sz]"
      using upt_add_eq_append [of 0 block "sz - block"] True by simp
    ultimately show ?thesis
      using False True next_block by (simp add: asyncWait_def Let_def cons)
  next
    case False': False
    then have "blocks sz block block = []" by (simp add: blocks.simps)
    then show ?thesis using False False' by (simp add: asyncWait_def Let_def cons min_def)
  qed
qed (auto simp: asyncWait_def)

lemma parallel_indices_once_witness:
  "fst (asyncWait False 3 10) @ snd (asyncWait False 3 10) = [0..<10] \<and> fst (asyncWait False 3 10) = [0..<4]"
  using parallel_indices_once [of 3 False 10]
  by (simp add: asyncWait_def Let_def generatePartition_def size_per_block_def blocks.simps)

text \<open>
  The swap in the merge breaks the order of posting: an event merged earlier runs after two
  that the same thread posted later.
\<close>

lemma merge_breaks_order:
  "map t_func (m_tasks (merge_events [Walk, Serial] True (act 0 (AddEvent CHR ''c'' 0) (act 0 (AddEvent CHR ''b'' 0)
     (merge_events [Walk, Serial] True (act 0 (AddEvent CHR ''a'' 0) (new_dispatcher 1 0 ())))))) Serial)
   = [Some CHR ''b'', Some CHR ''c'', Some CHR ''a'']"
  by (simp add: addEvent_def post_def Let_def notify_def log_trace_def set_thread_def new_dispatcher_def merge_events_def
      merge_thread_def merge_group_def merge_lists_def no_tasks_def new_task_def)

text \<open>
  \<open>checkPendingTasks\<close> forgets the asynchronous events, which \<open>mergeEvents\<close> does not merge: one
  posted since the last merge is in a queue, but the dispatcher goes to sleep, without a limit
  when no timer is set.
\<close>

lemma async_event_sleeps:
  "hasPendingTasks (act 0 (AsyncEvent f GenericParallel) (new_dispatcher 1 0 ()))
    \<and> \<not> hasPendingTasks (mergeEvents (act 0 (AsyncEvent f GenericParallel) (new_dispatcher 1 0 ())))
    \<and> timeUntilNextScheduledTask (mergeEvents (act 0 (AsyncEvent f GenericParallel) (new_dispatcher 1 0 ()))) = None
    \<and> queued GenericParallel (mergeEvents (act 0 (AsyncEvent f GenericParallel) (new_dispatcher 1 0 ()))) = {#f#}"
  by (simp add: asyncEvent_def post_def Let_def notify_def log_trace_def set_thread_def new_dispatcher_def mergeEvents_def
      merge_events_def merge_thread_def merge_group_def merge_lists_def no_tasks_def new_task_def checkPendingTasks_def
      timeUntilNextScheduledTask_def queued_def)

end
