(* ===== verification/Decay.thy ===== *)
theory Decay
  imports Items
begin

text \<open>
  Items that decay (src/src/items/decay/decay.cpp; src/src/game/game.cpp: \<open>startDecay\<close>,
  \<open>stopDecay\<close>): a table from the time at which items are due to the list of those items, and
  timers of the dispatcher that call \<open>checkDecay\<close>. What the decay of an item does to the world
  is an argument, given as the calls to start and stop the decay of items and the other
  changes of items it leads to; so is whether an item has been removed from the world. Times
  are those of \<open>OTSYS_TIME\<close>, in milliseconds. \<open>dc_cursor\<close> is where an iterator of \<open>checkDecay\<close>
  points while items decay, \<open>dc_dangling\<close> whether its entry has been erased under it.
\<close>

section \<open>The state\<close>

definition SCHEDULER_MINTICKS :: int where "SCHEDULER_MINTICKS = 50"

record 'w decaying =
  dc_items :: "nat \<Rightarrow> item"
  decayMap :: "(int \<times> nat list) list"
  dc_pending :: "int list"
  dc_now :: u64
  dc_cursor :: "int option"
  dc_dangling :: bool
  dc_world :: 'w

datatype decay_call = Call_Start nat u32 | Call_Stop nat | Call_Change nat "item \<Rightarrow> item"

record 'w decay_env =
  de_types :: items
  de_removed :: "'w \<Rightarrow> nat \<Rightarrow> bool"
  de_disabled :: "'w \<Rightarrow> nat \<Rightarrow> bool"
  de_decay :: "nat \<Rightarrow> 'w \<Rightarrow> 'w \<times> decay_call list"

definition change_item :: "nat \<Rightarrow> (item \<Rightarrow> item) \<Rightarrow> 'w decaying \<Rightarrow> 'w decaying" where
  "change_item x f s = s\<lparr>dc_items := (dc_items s)(x := f (dc_items s x))\<rparr>"

definition canDecay :: "'w decay_env \<Rightarrow> 'w decaying \<Rightarrow> nat \<Rightarrow> bool" where
  "canDecay env s x \<longleftrightarrow>
     (let it = dc_items s x; ty = de_types env (it_id it)
      in \<not> (ty_decayTo ty < 0 \<or> ty_decayTime ty = 0 \<or> de_disabled env (dc_world s) x)
         \<and> \<not> has UNIQUEID it \<and> \<not> de_removed env (dc_world s) x)"

section \<open>The table, a map ordered by time\<close>

fun push_due :: "int \<Rightarrow> nat \<Rightarrow> (int \<times> nat list) list \<Rightarrow> (int \<times> nat list) list" where
  "push_due k x [] = [(k, [x])]"
| "push_due k x ((j, ys) # m) =
     (if k < j then (k, [x]) # (j, ys) # m
      else if k = j then (j, ys @ [x]) # m
      else (j, ys) # push_due k x m)"

definition erase_due :: "int \<Rightarrow> 'w decaying \<Rightarrow> 'w decaying" where
  "erase_due k s = s\<lparr>decayMap := filter (\<lambda>(j, ys). j \<noteq> k) (decayMap s),
     dc_dangling := (dc_dangling s \<or> dc_cursor s = Some k)\<rparr>"

section \<open>Stopping and starting\<close>

text \<open>The remaining duration becomes the duration, and the item does not decay any more.\<close>

definition halt_item :: "u64 \<Rightarrow> item \<Rightarrow> item" where
  "halt_item now it = drop_attr DECAYSTATE (if has DURATION it then setDuration (getDuration now it) it else it)"

definition stopDecay :: "nat \<Rightarrow> int \<Rightarrow> 'w decaying \<Rightarrow> 'w decaying" where
  "stopDecay x timestamp s =
     (if timestamp \<le> 0 then s
      else case map_of (decayMap s) timestamp of
          None \<Rightarrow> s
        | Some ys \<Rightarrow>
            if length ys = 1 then
              (if x = ys ! 0 then erase_due timestamp (change_item x (halt_item (dc_now s)) s) else s)
            else if x \<in> set ys then
              (change_item x (halt_item (dc_now s)) s)
                \<lparr>decayMap := map (\<lambda>(j, zs). (j, if j = timestamp then swap_remove x zs else zs)) (decayMap s)\<rparr>
            else s)"

definition timestamp_of :: "item \<Rightarrow> int" where
  "timestamp_of it = sint (getAttributeValue DURATION_TIMESTAMP (it_attrs it))"

definition schedule_check :: "int \<Rightarrow> 'w decaying \<Rightarrow> 'w decaying" where
  "schedule_check delay s = s\<lparr>dc_pending := (sint (dc_now s) + max SCHEDULER_MINTICKS delay) # dc_pending s\<rparr>"

definition startDecay :: "nat \<Rightarrow> u32 \<Rightarrow> 'w decaying \<Rightarrow> 'w decaying" where
  "startDecay x duration s =
     (if sint duration \<le> 0 then s
      else
        let s1 = (if has DURATION_TIMESTAMP (dc_items s x) then stopDecay x (timestamp_of (dc_items s x)) s else s);
            timestamp = dc_now s1 + scast duration;
            s2 = (if decayMap s1 = [] \<or> sint timestamp < fst (hd (decayMap s1))
                  then schedule_check (sint duration) s1 else s1)
        in (change_item x (\<lambda>it. set_int DURATION_TIMESTAMP timestamp (setDecaying DECAYING_TRUE it)) s2)
             \<lparr>decayMap := push_due (sint timestamp) x (decayMap s2)\<rparr>)"

text \<open>\<open>Game::stopDecay\<close>.\<close>

definition game_stopDecay :: "nat \<Rightarrow> 'w decaying \<Rightarrow> 'w decaying" where
  "game_stopDecay x s =
     (if has DECAYSTATE (dc_items s x) then
        (if has DURATION_TIMESTAMP (dc_items s x)
         then change_item x (drop_attr DURATION_TIMESTAMP) (stopDecay x (timestamp_of (dc_items s x)) s)
         else change_item x (drop_attr DECAYSTATE) s)
      else s)"

section \<open>Decaying\<close>

fun perform :: "decay_call \<Rightarrow> 'w decaying \<Rightarrow> 'w decaying" where
  "perform (Call_Start x duration) = startDecay x duration"
| "perform (Call_Stop x) = game_stopDecay x"
| "perform (Call_Change x f) = change_item x f"

definition internalDecayItem :: "'w decay_env \<Rightarrow> nat \<Rightarrow> 'w decaying \<Rightarrow> 'w decaying" where
  "internalDecayItem env x s = (case de_decay env x (dc_world s) of
      (w, calls) \<Rightarrow> fold perform calls (s\<lparr>dc_world := w\<rparr>))"

text \<open>\<open>Game::startDecay\<close>.\<close>

definition game_startDecay :: "'w decay_env \<Rightarrow> nat \<Rightarrow> 'w decaying \<Rightarrow> 'w decaying" where
  "game_startDecay env x s =
     (let it = dc_items s x; decayState = getDecaying it
      in if decayState = DECAYING_STOPPING \<or> (\<not> canDecay env s x \<and> decayState = DECAYING_TRUE) then game_stopDecay x s
         else if \<not> canDecay env s x \<or> decayState = DECAYING_TRUE then s
         else
           let duration = ucast (getAttributeValue DURATION (it_attrs it)) :: u32
           in if sint duration > 0 then startDecay x duration s
              else internalDecayItem env x s)"

definition decay_due_item :: "'w decay_env \<Rightarrow> nat \<Rightarrow> 'w decaying \<Rightarrow> 'w decaying" where
  "decay_due_item env x s =
     (if \<not> canDecay env s x
      then change_item x (\<lambda>it. setDecaying DECAYING_FALSE (setDuration (getDuration (dc_now s) it) it)) s
      else internalDecayItem env x (change_item x (setDecaying DECAYING_FALSE) s))"

text \<open>The loop that takes the entries that are due out of the table.\<close>

definition due_items :: "'w decaying \<Rightarrow> nat list" where
  "due_items s = concat (map snd (takeWhile (\<lambda>(k, ys). k \<le> sint (dc_now s)) (decayMap s)))"

definition start_check :: "'w decaying \<Rightarrow> 'w decaying" where
  "start_check s =
     (let rest = dropWhile (\<lambda>(k, ys). k \<le> sint (dc_now s)) (decayMap s)
      in s\<lparr>decayMap := rest, dc_cursor := (case rest of [] \<Rightarrow> None | (k, ys) # _ \<Rightarrow> Some k), dc_dangling := False\<rparr>)"

text \<open>\<open>None\<close>: the iterator is used after its entry has been erased.\<close>

definition checkDecay :: "'w decay_env \<Rightarrow> 'w decaying \<Rightarrow> 'w decaying option" where
  "checkDecay env s =
     (let s0 = start_check s;
          s1 = fold (decay_due_item env) (due_items s) s0;
          s2 = s1\<lparr>dc_cursor := None\<rparr>
      in case dc_cursor s0 of
          None \<Rightarrow> Some s2
        | Some k \<Rightarrow> if dc_dangling s1 then None
            else Some (schedule_check (sint (word_of_int (k - sint (dc_now s)) :: u32)) s2))"

section \<open>Runs\<close>

text \<open>
  A run is what the game does with the table: it starts and stops the decay of items, changes
  items and the world in any way, lets time pass (up to \<open>2^62\<close> milliseconds) and calls
  \<open>checkDecay\<close> when one of its timers is due; a check that uses its iterator after the entry
  has been erased has no next state. In a calm run, moreover, nothing but the functions of
  this file touches the time stamps or clears the decay state, and the decay of an item does
  not stop and restart another that is due in the same check, which would then decay at once,
  with its new entry left behind in the table.
\<close>

definition harmless :: "item \<Rightarrow> item \<Rightarrow> bool" where
  "harmless it it' \<longleftrightarrow> item_ok it' \<and> map_of (it_attrs it') DURATION_TIMESTAMP = map_of (it_attrs it) DURATION_TIMESTAMP
     \<and> (has DECAYSTATE it \<longrightarrow> has DECAYSTATE it')"

definition harmless_env :: "'w decay_env \<Rightarrow> bool" where
  "harmless_env env \<longleftrightarrow> (\<forall>x w y f it. Call_Change y f \<in> set (snd (de_decay env x w)) \<longrightarrow> item_ok it \<longrightarrow> harmless it (f it))"

fun undisturbed :: "'w decay_env \<Rightarrow> nat list \<Rightarrow> 'w decaying \<Rightarrow> bool" where
  "undisturbed env [] s = True"
| "undisturbed env (x # xs) s =
     (x \<notin> set (concat (map snd (decayMap s))) \<and> undisturbed env xs (decay_due_item env x s))"

inductive decay_step :: "'w decay_env \<Rightarrow> bool \<Rightarrow> 'w decaying \<Rightarrow> 'w decaying \<Rightarrow> bool" for env calm where
  start: "decay_step env calm s (game_startDecay env x s)"
| stop: "decay_step env calm s (game_stopDecay x s)"
| change: "(calm \<longrightarrow> harmless (dc_items s x) it) \<Longrightarrow> decay_step env calm s (change_item x (\<lambda>_. it) s)"
| world: "decay_step env calm s (s\<lparr>dc_world := w\<rparr>)"
| time: "sint (dc_now s) \<le> sint n \<Longrightarrow> sint n < 2 ^ 62 \<Longrightarrow> decay_step env calm s (s\<lparr>dc_now := n\<rparr>)"
| fire: "e \<in> set (dc_pending s) \<Longrightarrow> e \<le> sint (dc_now s)
    \<Longrightarrow> (calm \<longrightarrow> undisturbed env (due_items s) (start_check (s\<lparr>dc_pending := remove1 e (dc_pending s)\<rparr>)))
    \<Longrightarrow> checkDecay env (s\<lparr>dc_pending := remove1 e (dc_pending s)\<rparr>) = Some s' \<Longrightarrow> decay_step env calm s s'"

definition decay_run :: "'w decay_env \<Rightarrow> bool \<Rightarrow> 'w decaying \<Rightarrow> 'w decaying \<Rightarrow> bool" where
  "decay_run env calm = (decay_step env calm)\<^sup>*\<^sup>*"

definition no_decay :: "u64 \<Rightarrow> (nat \<Rightarrow> item) \<Rightarrow> 'w \<Rightarrow> 'w decaying" where
  "no_decay now its w = \<lparr>dc_items = its, decayMap = [], dc_pending = [], dc_now = now, dc_cursor = None,
     dc_dangling = False, dc_world = w\<rparr>"

end
