(* ===== verification/Decay_Safety.thy ===== *)
theory Decay_Safety
  imports Decay
begin

text \<open>
  In every run the table of decaying items is ordered by time and without empty entries, and
  whenever something is decaying a check is pending in time. In a calm run every item of the
  table is in one entry only, the one of its time stamp, and no item with a time stamp is
  missing. The last section has runs that are not calm, and the check that goes wrong.
\<close>

section \<open>The table\<close>

definition due_at :: "item \<Rightarrow> int \<Rightarrow> bool" where
  "due_at it k \<longleftrightarrow> has DURATION_TIMESTAMP it \<and> timestamp_of it = k \<and> has DECAYSTATE it"

definition in_table :: "(int \<times> nat list) list \<Rightarrow> nat set" where
  "in_table m = set (concat (map snd m))"

definition table_ok :: "(nat \<Rightarrow> item) \<Rightarrow> (int \<times> nat list) list \<Rightarrow> bool" where
  "table_ok its m \<longleftrightarrow> sorted_wrt (<) (map fst m) \<and> distinct (concat (map snd m))
     \<and> (\<forall>k ys. (k, ys) \<in> set m \<longrightarrow> ys \<noteq> [] \<and> 0 < k \<and> (\<forall>x \<in> set ys. due_at (its x) k))"

lemma table_distinct: "sorted_wrt (<) (map fst m) \<Longrightarrow> distinct (map fst (m :: (int \<times> nat list) list))"
  by (induction m) auto

lemma table_cong: "(\<And>x. x \<in> in_table m \<Longrightarrow> its' x = its x) \<Longrightarrow> table_ok its' m = table_ok its m"
  by (fastforce simp: table_ok_def in_table_def)

lemma table_entry:
  assumes "table_ok its m" "x \<in> in_table m" "has DURATION_TIMESTAMP (its x)"
  obtains ys where "map_of m (timestamp_of (its x)) = Some ys" "x \<in> set ys"
proof -
  obtain k ys where ys: "(k, ys) \<in> set m" "x \<in> set ys" using assms(2) by (auto simp: in_table_def)
  then have "timestamp_of (its x) = k" using assms(1) by (simp add: table_ok_def due_at_def)
  then show ?thesis
    using that ys map_of_is_SomeI [OF table_distinct ys(1)] assms(1) by (simp add: table_ok_def)
qed

lemma table_filter:
  assumes "table_ok its m" "map_of m k = Some [x]" 
  shows "table_ok its (filter (\<lambda>(j, ys). j \<noteq> k) m) \<and> in_table (filter (\<lambda>(j, ys). j \<noteq> k) m) = in_table m - {x}"
  using assms
proof (induction m)
  case (Cons e m)
  obtain j ys where e: "e = (j, ys)" by (cases e)
  have rest: "table_ok its m" using Cons.prems(1) by (auto simp: table_ok_def)
  show ?case
  proof (cases "j = k")
    case True
    then have ys: "ys = [x]" using Cons.prems(2) e by simp
    have "k \<notin> fst ` set m" using Cons.prems(1) e True by (auto simp: table_ok_def)
    then have "filter (\<lambda>(j, ys). j \<noteq> k) m = m" by (intro filter_True) force
    moreover have "x \<notin> in_table m" using Cons.prems(1) e ys by (simp add: table_ok_def in_table_def)
    ultimately show ?thesis using rest e ys True by (simp add: in_table_def)
  next
    case False
    have "map_of m k = Some [x]" using Cons.prems(2) e False by simp
    note IH = Cons.IH [OF rest this]
    have "x \<in> in_table m" using \<open>map_of m k = Some [x]\<close> by (force simp: in_table_def dest: map_of_SomeD)
    then have "x \<notin> set ys" using Cons.prems(1) e by (auto simp: table_ok_def in_table_def)
    moreover have "table_ok its (e # filter (\<lambda>(j, ys). j \<noteq> k) m)"
      using Cons.prems(1) IH e by (auto simp: table_ok_def in_table_def)
    ultimately show ?thesis using IH e False by (auto simp: in_table_def)
  qed
qed simp

lemma table_swap:
  assumes "table_ok its m" "map_of m k = Some ys" "length ys \<noteq> 1" "x \<in> set ys"
  shows "table_ok its (map (\<lambda>(j, zs). (j, if j = k then swap_remove x zs else zs)) m)
    \<and> in_table (map (\<lambda>(j, zs). (j, if j = k then swap_remove x zs else zs)) m) = in_table m - {x}"
  using assms(1,2)
proof (induction m)
  case (Cons e m)
  let ?f = "\<lambda>(j, zs). (j, if j = k then swap_remove x zs else zs)"
  obtain j zs where e: "e = (j, zs)" by (cases e)
  have rest: "table_ok its m" using Cons.prems(1) by (auto simp: table_ok_def)
  have fst: "map fst (map ?f m) = map fst m" by auto
  show ?case
  proof (cases "j = k")
    case True
    then have ys: "zs = ys" using Cons.prems(2) e by simp
    have "k \<notin> fst ` set m" using Cons.prems(1) e True by (auto simp: table_ok_def)
    then have same: "map ?f m = m" by (intro map_idI) force
    have d: "distinct ys" "x \<notin> in_table m" using Cons.prems(1) e ys assms(4) by (auto simp: table_ok_def in_table_def)
    then have set: "set (swap_remove x ys) = set ys - {x}" "distinct (swap_remove x ys)"
      by (simp_all add: set_swap_remove distinct_swap_remove)
    have "size (mset (swap_remove x ys)) = length ys - 1"
      using assms(4) by (simp add: mset_swap_remove size_Diff_singleton)
    then have "swap_remove x ys \<noteq> []" using assms(3,4) by (cases ys) auto
    then have "table_ok its ((k, swap_remove x ys) # m)"
      using Cons.prems(1) e ys True set by (auto simp: table_ok_def)
    then show ?thesis using same e True ys set d by (auto simp: in_table_def)
  next
    case False
    have mk: "map_of m k = Some ys" using Cons.prems(2) e False by simp
    note IH = Cons.IH [OF rest mk]
    have "x \<in> in_table m" using mk assms(4) by (force simp: in_table_def dest: map_of_SomeD)
    then have "x \<notin> set zs" using Cons.prems(1) e by (auto simp: table_ok_def in_table_def)
    moreover have "table_ok its ((j, zs) # m')" if "map fst m' = map fst m" "table_ok its m'" "in_table m' = in_table m - {x}" for m'
    proof -
      have "\<forall>i \<in> set (map fst m'). j < i" using Cons.prems(1) e unfolding that(1) by (auto simp: table_ok_def)
      moreover have "set zs \<inter> in_table m' = {}" using Cons.prems(1) e that(3) by (auto simp: table_ok_def in_table_def)
      ultimately show ?thesis using Cons.prems(1) that(2) e by (auto simp: table_ok_def in_table_def)
    qed
    from this [OF fst] have "table_ok its ((j, zs) # map ?f m)" using IH by blast
    ultimately show ?thesis using IH e False by (auto simp: in_table_def)
  qed
qed simp

lemma push_keys: "set (map fst (push_due k x m)) = insert k (fst ` set m)" "in_table (push_due k x m) = insert x (in_table m)"
  by (induction k x m rule: push_due.induct) (auto simp: in_table_def)

lemma push_hd: "fst (hd (push_due k x m)) = (if m = [] \<or> k < fst (hd m) then k else fst (hd m))" "push_due k x m \<noteq> []"
  by (cases "(k, x, m)" rule: push_due.cases; simp)+

lemma table_push:
  assumes "table_ok its m" "x \<notin> in_table m" "0 < k" "due_at (its x) k"
  shows "table_ok its (push_due k x m)"
  using assms(1,2)
proof (induction m)
  case Nil
  then show ?case using assms(3,4) by (simp add: table_ok_def)
next
  case (Cons e m)
  obtain j ys where e: "e = (j, ys)" by (cases e)
  have rest: "table_ok its m" "x \<notin> in_table m" using Cons.prems by (auto simp: table_ok_def in_table_def)
  consider "k < j" | "k = j" | "j < k" by linarith
  then show ?case
  proof cases
    case 1
    then show ?thesis using Cons.prems assms(3,4) e by (fastforce simp: table_ok_def in_table_def)
  next
    case 2
    then show ?thesis using Cons.prems assms(4) e by (auto simp: table_ok_def in_table_def)
  next
    case 3
    note IH = Cons.IH [OF rest]
    have "\<forall>p \<in> set (push_due k x m). j < fst p"
    proof
      fix p assume "p \<in> set (push_due k x m)"
      then have "fst p \<in> set (map fst (push_due k x m))" by simp
      then show "j < fst p" using Cons.prems(1) e 3 unfolding push_keys by (auto simp: table_ok_def)
    qed
    moreover have "set ys \<inter> insert x (in_table m) = {}"
      using Cons.prems e by (auto simp: table_ok_def in_table_def)
    then have "set ys \<inter> in_table (push_due k x m) = {}" unfolding push_keys(2) .
    ultimately show ?thesis using IH Cons.prems(1) e 3 by (auto simp: table_ok_def in_table_def)
  qed
qed

section \<open>The invariants\<close>

text \<open>
  A check is pending in time, or the running \<open>checkDecay\<close> will see to it, or its iterator is
  no good any more.
\<close>

definition checked :: "'w decaying \<Rightarrow> bool" where
  "checked s \<longleftrightarrow> decayMap s = [] \<or> (\<exists>e \<in> set (dc_pending s). e \<le> fst (hd (decayMap s)) + SCHEDULER_MINTICKS)
     \<or> dc_cursor s = Some (fst (hd (decayMap s))) \<or> dc_dangling s"

text \<open>What holds whatever the rest of the game does to the items, and what needs a calm run.\<close>

definition entry_ok :: "u64 \<Rightarrow> int \<times> nat list \<Rightarrow> bool" where
  "entry_ok now e \<longleftrightarrow> snd e \<noteq> [] \<and> 0 < fst e \<and> fst e < sint now + 2 ^ 31"

definition timed :: "'w decaying \<Rightarrow> bool" where
  "timed s \<longleftrightarrow> sorted_wrt (<) (map fst (decayMap s)) \<and> (\<forall>e \<in> set (decayMap s). entry_ok (dc_now s) e) \<and> checked s
     \<and> 0 \<le> sint (dc_now s) \<and> sint (dc_now s) < 2 ^ 62"

definition in_step :: "'w decaying \<Rightarrow> bool" where
  "in_step s \<longleftrightarrow> (\<forall>x. item_ok (dc_items s x)) \<and> table_ok (dc_items s) (decayMap s)"

definition lost :: "'w decaying \<Rightarrow> nat set" where
  "lost s = {x. has DURATION_TIMESTAMP (dc_items s x)} - in_table (decayMap s)"

lemma halt_item_ok: "item_ok it \<Longrightarrow> item_ok (halt_item now it)"
  by (simp add: halt_item_def item_ok_updates item_ok_operations)

lemma halt_item_stamp: "item_ok it \<Longrightarrow> has DURATION_TIMESTAMP (halt_item now it) = has DURATION_TIMESTAMP it"
  by (simp add: halt_item_def setDuration_def item_ok_def item_simps setAttribute_int_ok)

lemma change_item_simps [simp]:
  "decayMap (change_item x f s) = decayMap s" "dc_pending (change_item x f s) = dc_pending s"
  "dc_now (change_item x f s) = dc_now s" "dc_cursor (change_item x f s) = dc_cursor s"
  "dc_dangling (change_item x f s) = dc_dangling s" "dc_world (change_item x f s) = dc_world s"
  "dc_items (change_item x f s) y = (if y = x then f (dc_items s x) else dc_items s y)"
  by (simp_all add: change_item_def)

lemma changed_items: "dc_items (change_item x f s) = (\<lambda>y. if y = x then f (dc_items s x) else dc_items s y)"
  by (simp add: fun_eq_iff)

lemma checked_erase:
  assumes "checked s" "sorted_wrt (<) (map fst (decayMap s))"
  shows "checked (erase_due k s)"
proof (cases "decayMap s")
  case (Cons e m)
  have later: "fst e \<le> fst (hd (filter (\<lambda>(j, ys). j \<noteq> k) (decayMap s)))" if "filter (\<lambda>(j, ys). j \<noteq> k) (decayMap s) \<noteq> []"
  proof -
    have "hd (filter (\<lambda>(j, ys). j \<noteq> k) (decayMap s)) \<in> set (e # m)"
      using hd_in_set [OF that] Cons by auto
    then show ?thesis using assms(2) Cons by auto
  qed
  show ?thesis
  proof (cases "fst e = k")
    case True
    then show ?thesis using assms(1) Cons later by (fastforce simp: checked_def erase_due_def)
  next
    case False
    then have "filter (\<lambda>(j, ys). j \<noteq> k) (decayMap s) = e # filter (\<lambda>(j, ys). j \<noteq> k) m"
      using Cons by (cases e) simp
    then show ?thesis using assms(1) Cons by (auto simp: checked_def erase_due_def)
  qed
qed (simp add: checked_def erase_due_def)

text \<open>The three ways in which \<open>stopDecay\<close> can end.\<close>

lemma stop_cases:
  obtains (none) "stopDecay x k s = s" "k \<le> 0 \<or> (\<forall>ys. map_of (decayMap s) k = Some ys \<longrightarrow> x \<notin> set ys)"
    | (one) "map_of (decayMap s) k = Some [x]" "stopDecay x k s = erase_due k (change_item x (halt_item (dc_now s)) s)"
    | (more) ys where "map_of (decayMap s) k = Some ys" "length ys \<noteq> 1" "x \<in> set ys"
        "stopDecay x k s = (change_item x (halt_item (dc_now s)) s)
          \<lparr>decayMap := map (\<lambda>(j, zs). (j, if j = k then swap_remove x zs else zs)) (decayMap s)\<rparr>"
proof (cases "k \<le> 0 \<or> map_of (decayMap s) k = None")
  case True
  then show ?thesis using none by (auto simp: stopDecay_def)
next
  case False
  then obtain a where a: "map_of (decayMap s) k = Some a" "\<not> k \<le> 0" by auto
  have single: "length a = 1 \<longleftrightarrow> (\<exists>y. a = [y])" by (auto simp: length_Suc_conv)
  show ?thesis
  proof (cases "x \<in> set a")
    case True
    then show ?thesis using one more [of a] a single by (cases "length a = 1") (auto simp: stopDecay_def)
  next
    case False
    then have "stopDecay x k s = s" using a by (cases a) (auto simp: stopDecay_def)
    then show ?thesis using none a False by simp
  qed
qed

lemma sint_later:
  assumes "0 \<le> sint (now :: u64)" "sint now < 2 ^ 62"
  shows "sint (now + scast (d :: u32)) = sint now + sint d"
proof -
  have d: "- (2 ^ 31) \<le> sint d" "sint d < 2 ^ 31" using sint_range_size [of d] by (simp_all add: word_size)
  have "sint (scast d :: u64) = sint d" by (simp add: sint_up_scast is_up)
  moreover have "sint (now + scast d) = signed_take_bit 63 (sint now + sint (scast d :: u64))"
    by (simp add: sint_word_ariths(1))
  moreover have "signed_take_bit 63 (sint now + sint d) = sint now + sint d"
    using assms d by (intro signed_take_bit_int_eq_self) simp_all
  ultimately show ?thesis by simp
qed

section \<open>The times, in any run\<close>

text \<open>What an operation does to the table, in the middle of a check or not.\<close>

definition good_step :: "'w decaying \<Rightarrow> 'w decaying \<Rightarrow> bool" where
  "good_step s s' \<longleftrightarrow> timed s' \<and> dc_now s' = dc_now s \<and> dc_cursor s' = dc_cursor s
     \<and> (dc_cursor s = None \<longrightarrow> dc_dangling s' = dc_dangling s)
     \<and> fst ` set (decayMap s') \<subseteq> fst ` set (decayMap s) \<union> {k. sint (dc_now s) < k}"

lemma good_step_refl: "timed s \<Longrightarrow> good_step s s"
  by (simp add: good_step_def)

lemma good_step_trans: "good_step s s' \<Longrightarrow> good_step s' s'' \<Longrightarrow> good_step s s''"
proof -
  assume a: "good_step s s'" and b: "good_step s' s''"
  have "fst ` set (decayMap s'') \<subseteq> fst ` set (decayMap s') \<union> {k. sint (dc_now s) < k}"
    "fst ` set (decayMap s') \<subseteq> fst ` set (decayMap s) \<union> {k. sint (dc_now s) < k}"
    using a b by (simp_all add: good_step_def)
  then have "fst ` set (decayMap s'') \<subseteq> fst ` set (decayMap s) \<union> {k. sint (dc_now s) < k}" by blast
  with a b show ?thesis by (simp add: good_step_def)
qed

lemma good_timed: "good_step s s' \<Longrightarrow> timed s'"
  by (simp add: good_step_def)

lemma good_then: "good_step s s' \<Longrightarrow> (timed s' \<Longrightarrow> good_step s' s'') \<Longrightarrow> good_step s s''"
  by (rule good_step_trans) (simp_all add: good_timed)

lemma change_good: "timed s \<Longrightarrow> good_step s (change_item x f s)"
  by (simp add: good_step_def timed_def checked_def)

lemma world_good: "timed s \<Longrightarrow> good_step s (s\<lparr>dc_world := w\<rparr>)"
  by (simp add: good_step_def timed_def checked_def)

lemma sorted_filter_keys: "sorted_wrt (<) (map fst m) \<Longrightarrow> sorted_wrt (<) (map fst (filter P m))"
  by (induction m) auto

lemma stop_good:
  assumes t: "timed s"
  shows "good_step s (stopDecay x k s)"
proof (cases rule: stop_cases [of x k s])
  case none
  then show ?thesis using t by (simp add: good_step_refl)
next
  case one
  have "checked (stopDecay x k s)" unfolding one(2)
    by (rule checked_erase) (use t in \<open>simp_all add: checked_def timed_def\<close>)
  then show ?thesis
    using t sorted_filter_keys [of "decayMap s"] by (auto simp: good_step_def timed_def one(2) erase_due_def)
next
  case (more ys)
  let ?f = "\<lambda>(j, zs). (j, if j = k then swap_remove x zs else zs)"
  have fst: "map fst (map ?f (decayMap s)) = map fst (decayMap s)" by auto
  have "size (mset (swap_remove x ys)) = length ys - 1"
    using more(3) by (simp add: mset_swap_remove size_Diff_singleton)
  then have left: "swap_remove x ys \<noteq> []" using more(2,3) by (cases ys) auto
  have key: "zs = ys" if "(k, zs) \<in> set (decayMap s)" for zs
    using that t more(1) map_of_is_SomeI [OF table_distinct that] by (simp add: timed_def)
  have entries: "\<forall>e \<in> set (map ?f (decayMap s)). entry_ok (dc_now s) e"
  proof
    fix e assume "e \<in> set (map ?f (decayMap s))"
    then obtain j zs where e: "(j, zs) \<in> set (decayMap s)" "e = ?f (j, zs)" by auto
    then have "entry_ok (dc_now s) (j, zs)" using t by (auto simp: timed_def)
    then show "entry_ok (dc_now s) e" using e key [of zs] left by (auto simp: entry_ok_def)
  qed
  have hd: "fst (hd (map ?f (decayMap s))) = fst (hd (decayMap s))" if "decayMap s \<noteq> []" using that by (cases "decayMap s") auto
  then have "checked (stopDecay x k s)" using t by (auto simp: checked_def more(4) timed_def)
  moreover have "fst ` set (map ?f (decayMap s)) = fst ` set (decayMap s)" by force
  moreover have "sorted_wrt (<) (map fst (map ?f (decayMap s)))" using t unfolding fst by (simp add: timed_def)
  ultimately show ?thesis using t entries by (simp add: good_step_def timed_def more(4) del: map_map)
qed

lemma push_sorted: "sorted_wrt (<) (map fst m) \<Longrightarrow> sorted_wrt (<) (map fst (push_due k x m))"
proof (induction k x m rule: push_due.induct)
  case (2 k x j ys m)
  have "\<forall>i \<in> set (map fst (push_due k x m)). j < i" if "j < k"
    using 2(2) that unfolding push_keys by auto
  then show ?case using 2 by auto
qed simp

lemma push_entries: "\<forall>e \<in> set m. entry_ok now e \<Longrightarrow> 0 < k \<Longrightarrow> k < sint now + 2 ^ 31 \<Longrightarrow> \<forall>e \<in> set (push_due k x m). entry_ok now e"
  by (induction k x m rule: push_due.induct) (auto simp: entry_ok_def)

text \<open>The parts of \<open>startDecay\<close> once it has decided to start.\<close>

definition unstamped :: "nat \<Rightarrow> 'w decaying \<Rightarrow> 'w decaying" where
  "unstamped x s = (if has DURATION_TIMESTAMP (dc_items s x) then stopDecay x (timestamp_of (dc_items s x)) s else s)"

definition with_check :: "u64 \<Rightarrow> u32 \<Rightarrow> 'w decaying \<Rightarrow> 'w decaying" where
  "with_check ts d s = (if decayMap s = [] \<or> sint ts < fst (hd (decayMap s)) then schedule_check (sint d) s else s)"

lemma with_check_fields [simp]:
  "decayMap (with_check ts d s) = decayMap s" "dc_items (with_check ts d s) = dc_items s"
  "dc_now (with_check ts d s) = dc_now s" "dc_cursor (with_check ts d s) = dc_cursor s"
  "dc_dangling (with_check ts d s) = dc_dangling s"
  by (simp_all add: with_check_def schedule_check_def)

lemma start_parts:
  assumes "\<not> sint d \<le> 0" "ts = dc_now (unstamped x s) + scast d"
  shows "startDecay x d s =
    (change_item x (\<lambda>it. set_int DURATION_TIMESTAMP ts (setDecaying DECAYING_TRUE it)) (with_check ts d (unstamped x s)))
      \<lparr>decayMap := push_due (sint ts) x (decayMap (unstamped x s))\<rparr>"
  using assms(1) unfolding assms(2)
  by (simp add: startDecay_def unstamped_def [symmetric] Let_def with_check_def [symmetric])

lemma unstamped_good: "timed s \<Longrightarrow> good_step s (unstamped x s)"
  by (simp add: unstamped_def stop_good good_step_refl)

lemma start_good:
  assumes t: "timed s"
  shows "good_step s (startDecay x d s)"
proof (cases "sint d \<le> 0")
  case True
  then show ?thesis using t by (simp add: startDecay_def good_step_refl)
next
  case False
  let ?s1 = "unstamped x s"
  define ts where "ts = dc_now ?s1 + scast d"
  have s1: "good_step s ?s1" "timed ?s1" using unstamped_good [OF t, of x] by (simp_all add: good_step_def)
  then have now: "dc_now ?s1 = dc_now s" by (simp add: good_step_def)
  have ts: "sint ts = sint (dc_now s) + sint d"
    using sint_later [of "dc_now s" d] t by (simp add: ts_def now timed_def)
  note result = start_parts [OF False ts_def]
  have "checked (startDecay x d s)"
  proof (cases "decayMap ?s1 = [] \<or> sint ts < fst (hd (decayMap ?s1))")
    case True
    then have "sint (dc_now s) + max SCHEDULER_MINTICKS (sint d) \<in> set (dc_pending (startDecay x d s))"
      by (simp add: result with_check_def schedule_check_def now)
    moreover have "sint (dc_now s) + max SCHEDULER_MINTICKS (sint d) \<le> sint ts + SCHEDULER_MINTICKS"
      using ts False by (simp add: SCHEDULER_MINTICKS_def)
    ultimately show ?thesis using True by (auto simp: checked_def result push_hd)
  next
    case False
    then show ?thesis using s1(2) by (auto simp: checked_def result push_hd with_check_def timed_def)
  qed
  moreover have "sint d < 2 ^ 31" using sint_range_size [of d] by (simp add: word_size)
  then have "\<forall>e \<in> set (push_due (sint ts) x (decayMap ?s1)). entry_ok (dc_now s) e"
    using s1(2) ts now False t by (intro push_entries) (simp_all add: timed_def)
  moreover have keys: "fst ` set (push_due (sint ts) x (decayMap ?s1)) = insert (sint ts) (fst ` set (decayMap ?s1))"
    using push_keys(1) [of "sint ts" x "decayMap ?s1"] by simp
  ultimately have "timed (startDecay x d s)"
    using s1(2) now push_sorted [of "decayMap ?s1" "sint ts" x] by (simp add: timed_def result)
  then show ?thesis using s1(1) keys ts False by (auto simp: good_step_def result)
qed

lemma game_stop_good: "timed s \<Longrightarrow> good_step s (game_stopDecay x s)"
  by (auto simp: game_stopDecay_def good_step_refl change_good intro!: good_then [OF stop_good change_good])

lemma perform_good: "timed s \<Longrightarrow> good_step s (perform c s)"
  by (cases c) (simp_all add: start_good game_stop_good change_good)

lemma fold_good:
  assumes "\<And>x e. timed e \<Longrightarrow> good_step e (f x e)"
  shows "good_step s e \<Longrightarrow> good_step s (fold f xs e)"
proof (induction xs arbitrary: e)
  case (Cons x xs)
  then have "good_step e (f x e)" using assms good_timed by blast
  then show ?case using Cons.IH [of "f x e"] good_step_trans [OF Cons.prems] by simp
qed simp

lemma internal_good: "timed s \<Longrightarrow> good_step s (internalDecayItem env x s)"
  by (simp add: internalDecayItem_def fold_good perform_good world_good split: prod.split)

lemma due_item_good: "timed s \<Longrightarrow> good_step s (decay_due_item env x s)"
  by (auto simp: decay_due_item_def change_good intro!: good_then [OF change_good internal_good])

lemma game_start_good: "timed s \<Longrightarrow> good_step s (game_startDecay env x s)"
  by (simp add: game_startDecay_def Let_def game_stop_good good_step_refl start_good internal_good)

section \<open>A check\<close>

text \<open>Between two requests nothing is being iterated.\<close>

definition at_rest :: "'w decaying \<Rightarrow> bool" where
  "at_rest s \<longleftrightarrow> timed s \<and> dc_cursor s = None \<and> \<not> dc_dangling s"

lemma start_check_inv:
  assumes t: "timed s"
  shows "timed (start_check (s\<lparr>dc_pending := p\<rparr>))
    \<and> (\<forall>k \<in> fst ` set (decayMap (start_check (s\<lparr>dc_pending := p\<rparr>))). sint (dc_now s) < k)"
proof -
  let ?P = "\<lambda>(k, ys :: nat list). k \<le> sint (dc_now s)"
  define rest where "rest = dropWhile ?P (decayMap s)"
  have split: "decayMap s = takeWhile ?P (decayMap s) @ rest" by (simp add: rest_def)
  have "sorted_wrt (<) (map fst (takeWhile ?P (decayMap s) @ rest))" using t split by (simp add: timed_def)
  then have sorted: "sorted_wrt (<) (map fst rest)" by (simp add: sorted_wrt_append)
  have later: "sint (dc_now s) < fst e" if e: "e \<in> set rest" for e
  proof -
    obtain e1 es where d: "rest = e1 # es" using e by (cases rest) simp_all
    then have "\<not> ?P e1" using hd_dropWhile [of ?P "decayMap s"] by (simp add: rest_def)
    moreover have "fst e1 \<le> fst e" using sorted e d by auto
    ultimately show ?thesis by (auto split: prod.splits)
  qed
  have "set rest \<subseteq> set (decayMap s)" unfolding rest_def by (rule set_dropWhileD [THEN subsetI]) 
  then have "\<forall>e \<in> set rest. entry_ok (dc_now s) e" using t by (auto simp: timed_def)
  moreover have "start_check (s\<lparr>dc_pending := p\<rparr>) = s\<lparr>dc_pending := p, decayMap := rest,
      dc_cursor := (case rest of [] \<Rightarrow> None | (k, ys) # _ \<Rightarrow> Some k), dc_dangling := False\<rparr>"
    by (simp add: start_check_def Let_def rest_def)
  ultimately show ?thesis
    using t sorted later by (auto simp: timed_def checked_def split: list.split prod.split)
qed

lemma sint_small_delay: "0 \<le> n \<Longrightarrow> n < 2 ^ 31 \<Longrightarrow> sint (word_of_int n :: u32) = n"
  by (simp add: sint_sbintrunc' signed_take_bit_int_eq_self)

lemma check_ends_at_rest:
  assumes t: "timed s" and c: "checkDecay env (s\<lparr>dc_pending := p\<rparr>) = Some s'"
  shows "at_rest s' \<and> dc_now s' = dc_now s \<and> (\<forall>k \<in> fst ` set (decayMap s'). sint (dc_now s) < k)"
proof -
  define s0 where "s0 = start_check (s\<lparr>dc_pending := p\<rparr>)"
  define s1 where "s1 = fold (decay_due_item env) (due_items s) s0"
  have s0: "timed s0" "\<forall>k \<in> fst ` set (decayMap s0). sint (dc_now s) < k"
    using start_check_inv [OF t, of p] by (simp_all add: s0_def)
  have now: "dc_now s0 = dc_now s" "\<not> dc_dangling s0" by (simp_all add: s0_def start_check_def Let_def)
  have g: "good_step s0 s1" unfolding s1_def
    by (rule fold_good [OF due_item_good good_step_refl [OF s0(1)]])
  have keys: "sint (dc_now s) < k" if "k \<in> fst ` set (decayMap s1)" for k
  proof -
    have "fst ` set (decayMap s1) \<subseteq> fst ` set (decayMap s0) \<union> {k. sint (dc_now s) < k}"
      using g now(1) by (simp add: good_step_def)
    then show ?thesis using s0(2) that by blast
  qed
  have "due_items (s\<lparr>dc_pending := p\<rparr>) = due_items s" by (simp add: due_items_def)
  then have res: "s' = (case dc_cursor s0 of None \<Rightarrow> s1\<lparr>dc_cursor := None\<rparr>
      | Some k \<Rightarrow> schedule_check (sint (word_of_int (k - sint (dc_now s)) :: u32)) (s1\<lparr>dc_cursor := None\<rparr>))"
    "dc_cursor s0 \<noteq> None \<longrightarrow> \<not> dc_dangling s1"
    using c by (auto simp: checkDecay_def Let_def s0_def [symmetric] s1_def [symmetric] split: option.splits if_splits)
  have dangling: "\<not> dc_dangling s1" using res(2) g now by (cases "dc_cursor s0") (auto simp: good_step_def)
  have inv1: "timed s1" "dc_now s1 = dc_now s" "dc_cursor s1 = dc_cursor s0" using g now by (simp_all add: good_step_def)
  have fields: "decayMap s' = decayMap s1" "dc_items s' = dc_items s1" "dc_now s' = dc_now s" "dc_cursor s' = None"
    "dc_dangling s' = dc_dangling s1" "set (dc_pending s1) \<subseteq> set (dc_pending s')"
    using res(1) inv1 by (auto simp: schedule_check_def split: option.split)
  have "checked s'"
  proof (cases "dc_cursor s0 = Some (fst (hd (decayMap s1))) \<and> decayMap s1 \<noteq> []")
    case True
    let ?k = "fst (hd (decayMap s1))"
    have "?k \<in> fst ` set (decayMap s1)" "hd (decayMap s1) \<in> set (decayMap s1)" using True by simp_all
    then have k: "sint (dc_now s) < ?k" "?k < sint (dc_now s) + 2 ^ 31"
      using keys inv1 by (auto simp: timed_def entry_ok_def)
    then have d: "sint (word_of_int (?k - sint (dc_now s)) :: u32) = ?k - sint (dc_now s)" by (intro sint_small_delay) simp_all
    have "s' = schedule_check (?k - sint (dc_now s)) (s1\<lparr>dc_cursor := None\<rparr>)"
      using res(1) True by (simp only: option.case d)
    then have "dc_pending s' = (sint (dc_now s) + max SCHEDULER_MINTICKS (?k - sint (dc_now s))) # dc_pending s1"
      using inv1(2) by (simp add: schedule_check_def)
    then show ?thesis using k by (auto simp: checked_def fields SCHEDULER_MINTICKS_def)
  next
    case False
    then show ?thesis using inv1 dangling fields by (auto simp: checked_def timed_def)
  qed
  then show ?thesis using inv1 fields dangling keys by (simp add: at_rest_def timed_def)
qed

lemma good_at_rest: "good_step s s' \<Longrightarrow> at_rest s \<Longrightarrow> at_rest s'"
  by (simp add: good_step_def at_rest_def)

lemma step_at_rest:
  assumes "decay_step env calm s s'" "at_rest s"
  shows "at_rest s'"
proof -
  have t: "timed s" using assms(2) by (simp add: at_rest_def)
  show ?thesis using assms(1)
  proof cases
    case (time n)
    then show ?thesis using assms(2) by (fastforce simp: at_rest_def timed_def checked_def entry_ok_def)
  next
    case (fire e)
    then show ?thesis using check_ends_at_rest [OF t] by blast
  qed (simp_all add: good_at_rest [OF _ assms(2)] t game_start_good game_stop_good change_good world_good)
qed

lemma run_at_rest: "decay_run env calm s s' \<Longrightarrow> at_rest s \<Longrightarrow> at_rest s'"
  unfolding decay_run_def by (induction rule: rtranclp_induct) (auto intro: step_at_rest)

lemma no_decay_at_rest:
  assumes "0 \<le> sint now" "sint now < 2 ^ 62"
  shows "at_rest (no_decay now its w)"
  using assms by (simp add: at_rest_def timed_def no_decay_def checked_def)

section \<open>The items, in calm runs\<close>

lemma table_suffix: "table_ok its (xs @ ys) \<Longrightarrow> table_ok its ys"
  by (auto simp: table_ok_def sorted_wrt_append)

lemma in_tableI: "table_ok its m \<Longrightarrow> x \<in> in_table m \<Longrightarrow> has DURATION_TIMESTAMP (its x)"
  by (auto simp: table_ok_def in_table_def due_at_def)

text \<open>An operation keeps the table in step with the items and adds no forgotten ones.\<close>

definition calm_step :: "'w decaying \<Rightarrow> 'w decaying \<Rightarrow> bool" where
  "calm_step s s' \<longleftrightarrow> in_step s' \<and> lost s' \<subseteq> lost s"

lemma calm_refl: "in_step s \<Longrightarrow> calm_step s s"
  by (simp add: calm_step_def)

lemma calm_then: "calm_step s s' \<Longrightarrow> (in_step s' \<Longrightarrow> calm_step s' s'') \<Longrightarrow> calm_step s s''"
  by (auto simp: calm_step_def)

lemma stop_apart:
  assumes inv: "in_step s"
  shows "in_step (stopDecay x k s) \<and> in_table (decayMap (stopDecay x k s)) - {x} = in_table (decayMap s) - {x}
    \<and> (\<forall>y. y \<noteq> x \<longrightarrow> dc_items (stopDecay x k s) y = dc_items s y)
    \<and> has DURATION_TIMESTAMP (dc_items (stopDecay x k s) x) = has DURATION_TIMESTAMP (dc_items s x)
    \<and> (x \<notin> in_table (decayMap (stopDecay x k s)) \<or> k \<noteq> timestamp_of (dc_items s x))"
proof -
  have t: "table_ok (dc_items s) (decayMap s)" and ok: "item_ok (dc_items s y)" for y
    using inv by (simp_all add: in_step_def)
  show ?thesis
  proof (cases rule: stop_cases [of x k s])
    case none
    have "x \<notin> in_table (decayMap s)" if k: "k = timestamp_of (dc_items s x)"
    proof
      assume x: "x \<in> in_table (decayMap s)"
      then obtain ys where ys: "map_of (decayMap s) (timestamp_of (dc_items s x)) = Some ys" "x \<in> set ys"
        using table_entry [OF t x in_tableI [OF t x]] by blast
      then have "0 < k" using t k map_of_SomeD [OF ys(1)] by (auto simp: table_ok_def)
      then show False using none(2) k ys by auto
    qed
    then show ?thesis unfolding none(1) using inv by blast
  next
    case one
    let ?m = "filter (\<lambda>(j, ys). j \<noteq> k) (decayMap s)"
    note f = table_filter [OF t one(1)]
    have "table_ok (dc_items (stopDecay x k s)) ?m"
      using f by (subst table_cong [of _ _ "dc_items s"]) (simp_all add: one(2) erase_due_def)
    then have "in_step (stopDecay x k s)" using f halt_item_ok [OF ok] ok by (simp add: one(2) erase_due_def in_step_def)
    moreover have "in_table (decayMap (stopDecay x k s)) = in_table (decayMap s) - {x}" using f by (simp add: one(2) erase_due_def)
    moreover have "dc_items (stopDecay x k s) = dc_items (change_item x (halt_item (dc_now s)) s)"
      by (simp add: one(2) erase_due_def)
    ultimately show ?thesis using halt_item_stamp [OF ok] by simp
  next
    case (more ys)
    let ?m = "map (\<lambda>(j, zs). (j, if j = k then swap_remove x zs else zs)) (decayMap s)"
    note f = table_swap [OF t more(1-3)]
    have "table_ok (dc_items (stopDecay x k s)) ?m"
      using f by (subst table_cong [of _ _ "dc_items s"]) (simp_all add: more(4))
    then have "in_step (stopDecay x k s)" using f halt_item_ok [OF ok] ok by (simp add: more(4) in_step_def)
    moreover have "in_table (decayMap (stopDecay x k s)) = in_table (decayMap s) - {x}" using f by (simp add: more(4))
    moreover have "dc_items (stopDecay x k s) = dc_items (change_item x (halt_item (dc_now s)) s)"
      by (simp add: more(4))
    ultimately show ?thesis using halt_item_stamp [OF ok] by simp
  qed
qed

lemma unstamped_apart:
  assumes inv: "in_step s"
  shows "in_step (unstamped x s) \<and> in_table (decayMap (unstamped x s)) = in_table (decayMap s) - {x}
    \<and> (\<forall>y. y \<noteq> x \<longrightarrow> dc_items (unstamped x s) y = dc_items s y)"
proof (cases "has DURATION_TIMESTAMP (dc_items s x)")
  case True
  then show ?thesis using stop_apart [OF inv, of x "timestamp_of (dc_items s x)"] by (auto simp: unstamped_def)
next
  case False
  then have "x \<notin> in_table (decayMap s)" using inv in_tableI by (auto simp: in_step_def)
  then show ?thesis using False inv by (simp add: unstamped_def)
qed

lemma start_calm:
  assumes t: "timed s" and inv: "in_step s"
  shows "calm_step s (startDecay x d s)"
proof (cases "sint d \<le> 0")
  case True
  then show ?thesis using inv by (simp add: startDecay_def calm_refl)
next
  case False
  let ?s1 = "unstamped x s"
  define ts where "ts = dc_now ?s1 + scast d"
  note u = unstamped_apart [OF inv, of x]
  have "dc_now ?s1 = dc_now s" using unstamped_good [OF t] by (simp add: good_step_def)
  then have ts: "0 < sint ts" using sint_later [of "dc_now s" d] t False by (simp add: ts_def timed_def)
  define it where "it = set_int DURATION_TIMESTAMP ts (setDecaying DECAYING_TRUE (dc_items ?s1 x))"
  have ok: "item_ok (dc_items ?s1 y)" for y using u by (simp add: in_step_def)
  then have it_ok: "item_ok it" by (simp add: it_def item_ok_updates item_ok_operations)
  have "attrs_ok (it_attrs (setDecaying DECAYING_TRUE (dc_items ?s1 x)))"
    using item_ok_operations(2) [OF ok] by (simp add: item_ok_def)
  then have due: "due_at it (sint ts)"
    using ok [of x] by (simp add: it_def due_at_def timestamp_of_def item_simps item_ok_def setDecaying_def decay_states)
  have items: "dc_items (startDecay x d s) = (\<lambda>y. if y = x then it else dc_items ?s1 y)"
    by (simp add: start_parts [OF False ts_def] it_def fun_eq_iff)
  have map: "decayMap (startDecay x d s) = push_due (sint ts) x (decayMap ?s1)"
    by (simp add: start_parts [OF False ts_def])
  have away: "x \<notin> in_table (decayMap ?s1)" using u by simp
  have "table_ok (dc_items (startDecay x d s)) (decayMap ?s1)"
    unfolding items using u away by (subst table_cong [of _ _ "dc_items ?s1"]) (auto simp: in_step_def)
  then have "table_ok (dc_items (startDecay x d s)) (decayMap (startDecay x d s))"
    unfolding map using away due ts by (intro table_push) (simp_all add: items)
  then have "in_step (startDecay x d s)" using ok it_ok by (simp add: in_step_def items)
  moreover have "lost (startDecay x d s) \<subseteq> lost s" using u by (auto simp: lost_def items map push_keys(2))
  ultimately show ?thesis by (simp add: calm_step_def)
qed

lemma change_calm:
  assumes inv: "in_step s" and ok: "item_ok (f (dc_items s x))"
    and free: "x \<notin> in_table (decayMap s) \<and> (has DURATION_TIMESTAMP (f (dc_items s x)) \<longrightarrow> has DURATION_TIMESTAMP (dc_items s x))
      \<or> harmless (dc_items s x) (f (dc_items s x))"
  shows "calm_step s (change_item x f s)"
proof -
  have same: "due_at (f (dc_items s x)) k" if "harmless (dc_items s x) (f (dc_items s x))" "due_at (dc_items s x) k" for k
  proof -
    have "getAttributeValue DURATION_TIMESTAMP (it_attrs (f (dc_items s x))) = getAttributeValue DURATION_TIMESTAMP (it_attrs (dc_items s x))"
      using that(1) ok inv by (simp add: getAttributeValue_map harmless_def item_ok_def in_step_def)
    then show ?thesis
      using that by (simp add: due_at_def timestamp_of_def harmless_def attr_simps)
  qed
  have t: "table_ok (dc_items s) (decayMap s)" using inv by (simp add: in_step_def)
  have "table_ok (dc_items (change_item x f s)) (decayMap s)"
  proof (cases "x \<in> in_table (decayMap s)")
    case False
    then show ?thesis using t by (subst table_cong [of _ _ "dc_items s"]) auto
  next
    case True
    then show ?thesis using t same free by (auto simp: table_ok_def)
  qed
  moreover have "has DURATION_TIMESTAMP (f (dc_items s x)) \<Longrightarrow> has DURATION_TIMESTAMP (dc_items s x)"
    using free by (auto simp: harmless_def attr_simps)
  ultimately show ?thesis using inv ok by (auto simp: calm_step_def in_step_def lost_def split: if_splits)
qed

lemma world_calm: "in_step s \<Longrightarrow> calm_step s (s\<lparr>dc_world := w\<rparr>)"
  by (simp add: calm_step_def in_step_def lost_def)

lemma dropped_stamp: "item_ok it \<Longrightarrow> \<not> has DURATION_TIMESTAMP (drop_attr DURATION_TIMESTAMP it)"
  by (simp add: item_ok_def item_simps)

lemma game_stop_calm:
  assumes inv: "in_step s"
  shows "calm_step s (game_stopDecay x s)"
proof -
  have ok: "item_ok (drop_attr t (dc_items s x))" for t using inv by (simp add: in_step_def item_ok_updates)
  let ?s = "stopDecay x (timestamp_of (dc_items s x)) s"
  note st = stop_apart [OF inv, of x "timestamp_of (dc_items s x)"]
  have s_ok: "item_ok (dc_items ?s x)" using st by (simp add: in_step_def)
  show ?thesis
  proof (cases "has DURATION_TIMESTAMP (dc_items s x)")
    case True
    have "calm_step ?s (change_item x (drop_attr DURATION_TIMESTAMP) ?s)"
      by (rule change_calm) (use st s_ok dropped_stamp [OF s_ok] in \<open>simp_all add: item_ok_updates\<close>)
    moreover have "lost (change_item x (drop_attr DURATION_TIMESTAMP) ?s) \<subseteq> lost s"
      using st dropped_stamp [OF s_ok] by (auto simp: lost_def split: if_splits)
    ultimately show ?thesis using True calm_refl [OF inv] by (simp add: game_stopDecay_def calm_step_def)
  next
    case False
    then have "x \<notin> in_table (decayMap s)" using inv in_tableI by (auto simp: in_step_def)
    moreover have "\<not> has DURATION_TIMESTAMP (drop_attr DECAYSTATE (dc_items s x))"
      using False inv by (simp add: in_step_def item_ok_def item_simps)
    ultimately have "calm_step s (change_item x (drop_attr DECAYSTATE) s)" by (intro change_calm inv ok) simp
    then show ?thesis using False calm_refl [OF inv] by (simp add: game_stopDecay_def)
  qed
qed

lemma perform_calm:
  assumes "timed s" "in_step s" "\<And>x f it. c = Call_Change x f \<Longrightarrow> item_ok it \<Longrightarrow> harmless it (f it)"
  shows "calm_step s (perform c s)"
proof (cases c)
  case (Call_Change x f)
  then have "harmless (dc_items s x) (f (dc_items s x))" using assms by (simp add: in_step_def)
  then show ?thesis using assms(2) Call_Change by (auto intro!: change_calm simp: harmless_def)
qed (use assms(1,2) in \<open>simp_all add: start_calm game_stop_calm\<close>)

lemma internal_calm:
  assumes env: "harmless_env env" and t: "timed s" and inv: "in_step s"
  shows "calm_step s (internalDecayItem env x s)"
proof -
  obtain w calls where c: "de_decay env x (dc_world s) = (w, calls)" by fastforce
  have "timed e \<Longrightarrow> calm_step s e \<Longrightarrow> set cs \<subseteq> set calls \<Longrightarrow> calm_step s (fold perform cs e)" for cs e
  proof (induction cs arbitrary: e)
    case (Cons c' cs)
    have "calm_step e (perform c' e)"
    proof (rule perform_calm [OF Cons.prems(1)])
      show "in_step e" using Cons.prems(2) by (simp add: calm_step_def)
      show "harmless it (f it)" if "c' = Call_Change y f" "item_ok it" for y f it
        using env that Cons.prems(3) c unfolding harmless_env_def by (metis list.set_intros(1) snd_conv subset_eq)
    qed
    moreover have "timed (perform c' e)" using perform_good [OF Cons.prems(1)] by (simp add: good_step_def)
    ultimately show ?case using Cons.IH [of "perform c' e"] Cons.prems(3) calm_then [OF Cons.prems(2)] by simp
  qed simp
  moreover have "timed (s\<lparr>dc_world := w\<rparr>)" using world_good [OF t] by (simp add: good_step_def)
  ultimately show ?thesis using c world_calm [OF inv] by (simp add: internalDecayItem_def)
qed

lemma game_start_calm: "harmless_env env \<Longrightarrow> timed s \<Longrightarrow> in_step s \<Longrightarrow> calm_step s (game_startDecay env x s)"
  by (simp add: game_startDecay_def Let_def game_stop_calm calm_refl start_calm internal_calm)

lemma decayed_stamp: "item_ok it \<Longrightarrow> \<not> has DURATION_TIMESTAMP (setDecaying DECAYING_FALSE it)"
  by (simp add: setDecaying_def Let_def item_ok_def item_simps setAttribute_int_ok)

text \<open>An item that is due is out of the table, and its time stamp goes before it decays.\<close>

lemma due_item_calm:
  assumes env: "harmless_env env" and t: "timed s" and inv: "in_step s" and x: "x \<notin> in_table (decayMap s)"
  shows "calm_step s (decay_due_item env x s) \<and> x \<notin> lost (decay_due_item env x s)"
proof -
  have ok: "item_ok (dc_items s x)" using inv by (simp add: in_step_def)
  let ?a = "change_item x (setDecaying DECAYING_FALSE) s"
  let ?b = "change_item x (\<lambda>it. setDecaying DECAYING_FALSE (setDuration (getDuration (dc_now s) it) it)) s"
  have a: "calm_step s ?a" by (rule change_calm [OF inv]) (use ok x decayed_stamp [OF ok] in \<open>simp_all add: item_ok_operations\<close>)
  have b: "calm_step s ?b"
    by (rule change_calm [OF inv]) (use ok x decayed_stamp in \<open>simp_all add: item_ok_operations\<close>)
  have gone: "x \<notin> lost ?a" "x \<notin> lost ?b"
    using decayed_stamp [OF ok] decayed_stamp [OF item_ok_operations(1) [OF ok]] by (simp_all add: lost_def)
  have "timed ?a" using change_good [OF t] by (simp add: good_step_def)
  then have c: "calm_step ?a (internalDecayItem env x ?a)" using internal_calm [OF env] a by (simp add: calm_step_def)
  show ?thesis
  proof (cases "canDecay env s x")
    case True
    then show ?thesis using calm_then [OF a c] gone(1) c by (auto simp: decay_due_item_def calm_step_def)
  next
    case False
    then show ?thesis using b gone(2) by (simp add: decay_due_item_def)
  qed
qed

lemma due_items_calm:
  assumes env: "harmless_env env"
  shows "timed e \<Longrightarrow> in_step e \<Longrightarrow> undisturbed env xs e
    \<Longrightarrow> in_step (fold (decay_due_item env) xs e) \<and> lost (fold (decay_due_item env) xs e) \<subseteq> lost e - set xs"
proof (induction xs arbitrary: e)
  case (Cons x xs)
  have c: "calm_step e (decay_due_item env x e)" "x \<notin> lost (decay_due_item env x e)"
    using Cons.prems due_item_calm [OF env, of e x] by (simp_all add: in_table_def)
  have "timed (decay_due_item env x e)" using due_item_good [OF Cons.prems(1)] by (simp add: good_step_def)
  then show ?case using Cons.IH [of "decay_due_item env x e"] Cons.prems(3) c by (auto simp: calm_step_def)
qed simp

lemma start_check_calm:
  assumes inv: "in_step s"
  shows "in_step (start_check (s\<lparr>dc_pending := p\<rparr>))
    \<and> lost (start_check (s\<lparr>dc_pending := p\<rparr>)) \<subseteq> lost s \<union> set (due_items s)"
proof -
  let ?P = "\<lambda>(k, ys :: nat list). k \<le> sint (dc_now s)"
  have fields: "decayMap (start_check (s\<lparr>dc_pending := p\<rparr>)) = dropWhile ?P (decayMap s)"
      "dc_items (start_check (s\<lparr>dc_pending := p\<rparr>)) = dc_items s" by (simp_all add: start_check_def Let_def)
  have "in_table (takeWhile ?P (decayMap s) @ dropWhile ?P (decayMap s)) = set (due_items s) \<union> in_table (dropWhile ?P (decayMap s))"
    unfolding in_table_def due_items_def map_append concat_append set_append by simp
  then have all: "in_table (decayMap s) = set (due_items s) \<union> in_table (dropWhile ?P (decayMap s))" by simp
  have "table_ok (dc_items s) (takeWhile ?P (decayMap s) @ dropWhile ?P (decayMap s))" using inv by (simp add: in_step_def)
  from table_suffix [OF this] show ?thesis using inv all by (auto simp: in_step_def lost_def fields)
qed

lemma check_calm:
  assumes env: "harmless_env env" and t: "timed s" and inv: "in_step s"
    and e: "undisturbed env (due_items s) (start_check (s\<lparr>dc_pending := p\<rparr>))"
    and c: "checkDecay env (s\<lparr>dc_pending := p\<rparr>) = Some s'"
  shows "calm_step s s'"
proof -
  let ?s0 = "start_check (s\<lparr>dc_pending := p\<rparr>)"
  let ?s1 = "fold (decay_due_item env) (due_items s) ?s0"
  have due: "due_items (s\<lparr>dc_pending := p\<rparr>) = due_items s" by (simp add: due_items_def)
  have "timed ?s0" using start_check_inv [OF t] by blast
  from due_items_calm [OF env this _ e] start_check_calm [OF inv, of p]
  have "in_step ?s1" "lost ?s1 \<subseteq> lost s" by blast+
  moreover have "decayMap s' = decayMap ?s1" "dc_items s' = dc_items ?s1"
    using c unfolding checkDecay_def Let_def due by (auto simp: schedule_check_def split: option.splits if_splits)
  ultimately show ?thesis by (simp add: calm_step_def in_step_def lost_def)
qed

lemma step_calm:
  assumes "decay_step env True s s'" "harmless_env env" "timed s" "in_step s"
  shows "calm_step s s'"
  using assms(1)
proof cases
  case (change x it)
  then have "harmless (dc_items s x) it" by simp
  then show ?thesis unfolding change(1) by (intro change_calm assms(4)) (simp_all add: harmless_def)
next
  case (time n)
  then show ?thesis using assms(4) by (simp add: calm_step_def in_step_def lost_def)
next
  case (fire e)
  then show ?thesis using check_calm [OF assms(2-4) _ fire(4)] by simp
qed (simp_all add: assms game_start_calm game_stop_calm world_calm)

lemma run_calm: "decay_run env True s s' \<Longrightarrow> harmless_env env \<Longrightarrow> at_rest s \<Longrightarrow> in_step s \<Longrightarrow> calm_step s s'"
  unfolding decay_run_def
proof (induction rule: rtranclp_induct)
  case (step s1 s2)
  have "at_rest s1" using run_at_rest step by (simp add: decay_run_def)
  then show ?case using calm_then [OF step.IH step_calm [OF step(2)]] step.prems by (simp add: at_rest_def)
qed (rule calm_refl)

section \<open>Properties\<close>

text \<open>
  C23. Nothing that decays is forgotten. Whatever the rest of the game does to the items and
  the world between and during the checks, as long as no check has used an iterator whose
  entry was erased under it, the table is in the order of times, no entry is empty, and if
  anything is decaying a check is pending no later than 50 ms after the first time due. In a
  calm run (the time stamps are left to these functions, and no item is stopped and restarted
  while it waits for its turn in a check) moreover no item is in two places, every item in the
  table carries the decay state and the time stamp of its entry, and every item with a time
  stamp is in the table, those apart that had one before, as the copy of a decaying item has.
\<close>

theorem decay_is_never_forgotten:
  assumes "decay_run env calm (no_decay now its w) s" "0 \<le> sint now" "sint now < 2 ^ 62"
  shows "(sorted_wrt (<) (map fst (decayMap s)) \<and> {(k, ys) \<in> set (decayMap s). ys = []} = {}
      \<and> (decayMap s = [] \<or> {e \<in> set (dc_pending s). e \<le> fst (hd (decayMap s)) + 50} \<noteq> {}))
    \<and> (calm \<and> harmless_env env \<and> (\<forall>x. item_ok (its x)) \<longrightarrow>
        distinct (concat (map snd (decayMap s)))
        \<and> {(k, ys, x). (k, ys) \<in> set (decayMap s) \<and> x \<in> set ys \<and> \<not> due_at (dc_items s x) k} = {}
        \<and> {x. has DURATION_TIMESTAMP (dc_items s x)} \<subseteq> in_table (decayMap s) \<union> {x. has DURATION_TIMESTAMP (its x)})"
proof (intro conjI impI)
  have rest: "at_rest (no_decay now its w)" by (rule no_decay_at_rest [OF assms(2,3)])
  have "at_rest s" by (rule run_at_rest [OF assms(1) rest])
  then have t: "timed s" "dc_cursor s = None" "\<not> dc_dangling s" by (simp_all add: at_rest_def)
  then show "sorted_wrt (<) (map fst (decayMap s))" "{(k, ys) \<in> set (decayMap s). ys = []} = {}"
    "decayMap s = [] \<or> {e \<in> set (dc_pending s). e \<le> fst (hd (decayMap s)) + 50} \<noteq> {}"
    by (fastforce simp: timed_def entry_ok_def checked_def SCHEDULER_MINTICKS_def)+
  assume c: "calm \<and> harmless_env env \<and> (\<forall>x. item_ok (its x))"
  then have "in_step (no_decay now its w)" by (simp add: in_step_def no_decay_def table_ok_def)
  then have "in_step s" "lost s \<subseteq> lost (no_decay now its w)"
    using run_calm [OF _ _ rest] assms(1) c by (simp_all add: calm_step_def)
  then show "distinct (concat (map snd (decayMap s)))"
    "{(k, ys, x). (k, ys) \<in> set (decayMap s) \<and> x \<in> set ys \<and> \<not> due_at (dc_items s x) k} = {}"
    "{x. has DURATION_TIMESTAMP (dc_items s x)} \<subseteq> in_table (decayMap s) \<union> {x. has DURATION_TIMESTAMP (its x)}"
    by (auto simp: in_step_def table_ok_def lost_def no_decay_def)
qed

text \<open>
  One check sees to everything that is due: after \<open>checkDecay\<close> (if its iterator has not
  been invalidated under it) no entry of the table is due, whatever the decay of items has
  started, stopped or changed meanwhile.
\<close>

theorem check_leaves_nothing_due:
  assumes "decay_run env calm (no_decay now its w) s" "0 \<le> sint now" "sint now < 2 ^ 62"
    and "checkDecay env s = Some s'"
  shows "{k \<in> fst ` set (decayMap s'). k \<le> sint (dc_now s')} = {}"
proof -
  have "at_rest s" by (rule run_at_rest [OF assms(1) no_decay_at_rest [OF assms(2,3)]])
  then have "timed s" by (simp add: at_rest_def)
  from check_ends_at_rest [OF this, of env "dc_pending s" s'] assms(4) show ?thesis by force
qed

text \<open>A world with one kind of item, whose decay does nothing else.\<close>

definition quiet_env :: "(nat \<Rightarrow> nat \<times> decay_call list) \<Rightarrow> nat decay_env" where
  "quiet_env f = \<lparr>de_types = (\<lambda>i. \<lparr>ty_stackable = False, ty_fluidContainer = False, ty_splash = False, ty_movable = True,
     ty_pickupable = True, ty_corpse = False, ty_quiver = False, ty_ammo = False, ty_charges = 0,
     ty_stackSize = 1, ty_weight = 50, ty_decayTime = 1, ty_decayTo = 0, ty_stopTime = False\<rparr>),
     de_removed = (\<lambda>w x. False), de_disabled = (\<lambda>w x. False), de_decay = (\<lambda>x w. f x)\<rparr>"

definition torch :: item where
  "torch = \<lparr>it_id = 1, it_count = 1, it_attrs = [(DURATION, AInt 100)], it_custom = []\<rparr>"

lemma quiet_harmless: "harmless_env (quiet_env (\<lambda>x. (0, [])))"
  by (simp add: harmless_env_def quiet_env_def)

lemma torch_ok: "item_ok torch"
  by (simp add: item_ok_def torch_def attrs_ok_def isAttributeInteger_def)

lemma torch_starts: "decayMap (game_startDecay (quiet_env f) 3 (no_decay 1000 (\<lambda>x. torch) 0)) = [(1100, [3])]"
  unfolding quiet_env_def torch_def no_decay_def by code_simp

lemma torch_run: "decay_run (quiet_env f) calm (no_decay 1000 (\<lambda>x. torch) 0) (game_startDecay (quiet_env f) 3 (no_decay 1000 (\<lambda>x. torch) 0))"
  unfolding decay_run_def by (rule r_into_rtranclp, rule decay_step.start)

lemma decay_is_never_forgotten_witness:
  "\<exists>s. decay_run (quiet_env (\<lambda>x. (0, []))) True (no_decay 1000 (\<lambda>x. torch) 0) s \<and> decayMap s = [(1100, [3])]
    \<and> {e \<in> set (dc_pending s). e \<le> fst (hd (decayMap s)) + 50} \<noteq> {}
    \<and> {x. has DURATION_TIMESTAMP (dc_items s x)} \<subseteq> in_table (decayMap s) \<union> {x. has DURATION_TIMESTAMP torch}"
proof -
  let ?env = "quiet_env (\<lambda>x. (0, []))"
  let ?s = "game_startDecay ?env 3 (no_decay 1000 (\<lambda>x. torch) 0)"
  have map: "decayMap ?s = [(1100, [3])]" by (rule torch_starts)
  from decay_is_never_forgotten [OF torch_run [of "\<lambda>x. (0, [])" True]] quiet_harmless torch_ok
  have "{e \<in> set (dc_pending ?s). e \<le> fst (hd (decayMap ?s)) + 50} \<noteq> {}"
    "{x. has DURATION_TIMESTAMP (dc_items ?s x)} \<subseteq> in_table (decayMap ?s) \<union> {x. has DURATION_TIMESTAMP torch}"
    by (simp_all add: map)
  then show ?thesis using map torch_run by blast
qed

lemma check_leaves_nothing_due_witness:
  "\<exists>s s'. decay_run (quiet_env (\<lambda>x. (0, []))) False (no_decay 1000 (\<lambda>x. torch) 0) s \<and> due_items s = [3]
    \<and> checkDecay (quiet_env (\<lambda>x. (0, []))) s = Some s' \<and> {k \<in> fst ` set (decayMap s'). k \<le> sint (dc_now s')} = {}"
proof -
  let ?env = "quiet_env (\<lambda>x. (0, []))"
  let ?s = "(game_startDecay ?env 3 (no_decay 1000 (\<lambda>x. torch) 0))\<lparr>dc_now := 1200\<rparr>"
  have "dc_now (game_startDecay ?env 3 (no_decay 1000 (\<lambda>x. torch) 0)) = 1000"
    unfolding quiet_env_def torch_def no_decay_def by code_simp
  then have "decay_step ?env False (game_startDecay ?env 3 (no_decay 1000 (\<lambda>x. torch) 0)) ?s"
    by (intro decay_step.time) simp_all
  then have run: "decay_run ?env False (no_decay 1000 (\<lambda>x. torch) 0) ?s"
    using torch_run [of "\<lambda>x. (0, [])" False] by (auto simp: decay_run_def)
  have due: "due_items ?s = [3]" and rest: "dc_cursor (start_check ?s) = None"
    using torch_starts [of "\<lambda>x. (0, [])"] by (simp_all add: due_items_def start_check_def)
  obtain s' where "checkDecay ?env ?s = Some s'" using rest by (simp add: checkDecay_def Let_def)
  then show ?thesis using check_leaves_nothing_due [OF run _ _ \<open>checkDecay ?env ?s = Some s'\<close>] run due by fastforce
qed

section \<open>Weaknesses\<close>

text \<open>
  The iterator of \<open>checkDecay\<close> is used after its entry has been erased, when the decay of an
  item that is due stops the decay of the only item next in time.
\<close>

lemma iterator_dangles:
  "Option.is_none (checkDecay (quiet_env (\<lambda>x. (0, [Call_Stop 4])))
     ((startDecay 4 200 (startDecay 3 100 (no_decay 1000 (\<lambda>x. torch) 0)))\<lparr>dc_now := 1150\<rparr>))"
  unfolding quiet_env_def torch_def no_decay_def by code_simp

text \<open>
  An item that is stopped and restarted while it waits for its turn decays at once, and its
  new entry stays behind: here item 3, due together with item 4, is restarted by the decay of 4.
\<close>

lemma restarted_item_stays_behind:
  "map_option (\<lambda>s. (decayMap s, has DURATION_TIMESTAMP (dc_items s 3)))
     (checkDecay (quiet_env (\<lambda>x. (0, if x = 4 then [Call_Stop 3, Call_Start 3 500] else [])))
       ((startDecay 3 100 (startDecay 4 100 (no_decay 1000 (\<lambda>x. torch) 0)))\<lparr>dc_now := 1150\<rparr>))
   = Some ([(1650, [3])], False)"
  unfolding quiet_env_def torch_def no_decay_def by code_simp

text \<open>
  \<open>Item::clone\<close> copies the attributes, the time stamp and the decay state among them: the
  copy of a decaying item looks as if it were decaying, is not in the table, and starting its
  decay does nothing, so that it never decays.
\<close>

lemma copy_never_decays:
  "(let s = startDecay 3 100 (no_decay 1000 (\<lambda>x. torch) 0);
        s' = game_startDecay (quiet_env (\<lambda>x. (0, []))) 4 (change_item 4 (\<lambda>_. dc_items s 3) s)
    in (decayMap s', has DURATION_TIMESTAMP (dc_items s' 4), getDecaying (dc_items s' 4) = DECAYING_TRUE)) = ([(1100, [3])], True, True)"
  unfolding quiet_env_def torch_def no_decay_def by code_simp

text \<open>
  No check that is pending is ever taken back, and every check schedules another one as long
  as something is left in the table: their number never goes down until the table is empty.
\<close>

lemma stop_pending: "dc_pending (stopDecay x k s) = dc_pending s"
  by (simp add: stopDecay_def erase_due_def change_item_def split: option.split)

lemma start_pending: "length (dc_pending s) \<le> length (dc_pending (startDecay x d s))"
  by (simp add: startDecay_def Let_def schedule_check_def stop_pending)

lemma perform_pending: "length (dc_pending s) \<le> length (dc_pending (perform c s))"
  by (cases c) (simp_all add: start_pending game_stopDecay_def stop_pending)

lemma internal_pending: "length (dc_pending s) \<le> length (dc_pending (internalDecayItem env x s))"
proof -
  have "length (dc_pending e) \<le> length (dc_pending (fold perform cs e))" for cs and e :: "'a decaying"
    by (induction cs arbitrary: e) (auto intro: order_trans [OF perform_pending])
  from this [of "s\<lparr>dc_world := fst (de_decay env x (dc_world s))\<rparr>" "snd (de_decay env x (dc_world s))"]
  show ?thesis by (auto simp: internalDecayItem_def split: prod.split)
qed

lemma checks_never_decrease:
  assumes "checkDecay env s = Some s'" "dc_cursor (start_check s) \<noteq> None"
  shows "length (dc_pending s) < length (dc_pending s')"
proof -
  have due: "length (dc_pending e) \<le> length (dc_pending (decay_due_item env x e))" for x e
    using internal_pending [of "change_item x (setDecaying DECAYING_FALSE) e" env x] by (simp add: decay_due_item_def)
  have "length (dc_pending e) \<le> length (dc_pending (fold (decay_due_item env) xs e))" for xs e
    by (induction xs arbitrary: e) (auto intro: order_trans [OF due])
  from this [of "start_check s" "due_items s"]
  have "length (dc_pending s) \<le> length (dc_pending (fold (decay_due_item env) (due_items s) (start_check s)))"
    by (simp add: start_check_def Let_def)
  then show ?thesis
    using assms by (auto simp: checkDecay_def Let_def schedule_check_def split: option.splits if_splits)
qed

end
