(* ===== verification/Player_Progress.thy ===== *)
theory Player_Progress
  imports Items
begin

text \<open>
  The progress of a player (src/src/creatures/players/player.cpp: \<open>getExpForLevel\<close>,
  \<open>addExperience\<close>, \<open>removeExperience\<close>, \<open>addSkillAdvance\<close>, \<open>addManaSpent\<close>, and from \<open>death\<close>
  the loss of skills, of magic level and of levels). Integers have their width, so the formula
  for the experience of a level wraps where the code's does. What scripts and bonuses (floating
  point) make of a gain, and the percentages lost at death, are arguments, as are the tries a
  vocation asks for (\<open>Vocation::getReqSkillTries\<close>, \<open>getReqMana\<close>, powers of a float). Messages,
  speed and the percentage shown are left out.
\<close>

lemma unat_below: "unat (x :: u64) < 18446744073709551616"
  using unsigned_less [of x, where ?'a = nat] by simp

section \<open>Levels\<close>

definition getExpForLevel :: "u32 \<Rightarrow> u64" where
  "getExpForLevel level = (((ucast level - 6) * ucast level + 17) * ucast level - 12) div 6 * 100"

record vocation =
  voc_id :: u16
  hpGain :: u32
  manaGain :: u32
  capGain :: u32

definition VOCATION_NONE :: u16 where "VOCATION_NONE = 0"

record level_env =
  le_vocation :: vocation
  le_none :: vocation
  le_rookSystem :: bool
  le_minLevelLeaveRook :: u32
  le_scripts :: "u64 \<Rightarrow> u64 \<times> u64"
  le_bonus :: "u64 \<Rightarrow> u64"
  le_lossScripts :: "u64 \<Rightarrow> u64"

record progress =
  level :: u32
  experience :: u64
  healthMax :: u32
  health :: u32
  manaMax :: u32
  mana :: u32
  capacity :: u32

text \<open>The vocation whose gains count when a level is gained.\<close>

definition gaining_vocation :: "level_env \<Rightarrow> u32 \<Rightarrow> vocation" where
  "gaining_vocation env lvl =
     (if voc_id (le_vocation env) \<noteq> VOCATION_NONE \<and> le_rookSystem env \<and> lvl \<le> le_minLevelLeaveRook env
      then le_none env else le_vocation env)"

definition gain_level :: "level_env \<Rightarrow> progress \<Rightarrow> progress" where
  "gain_level env p =
     (let lvl = level p + 1; voc = gaining_vocation env lvl
      in p\<lparr>level := lvl, healthMax := healthMax p + hpGain voc, health := health p + hpGain voc,
           manaMax := manaMax p + manaGain voc, mana := mana p + manaGain voc,
           capacity := capacity p + capGain voc\<rparr>)"

text \<open>The loop; it ends because the experience of the next level grows in every round but the last.\<close>

function level_up :: "level_env \<Rightarrow> u64 \<Rightarrow> progress \<Rightarrow> progress" where
  "level_up env nextLevelExp p =
     (if experience p \<ge> nextLevelExp then
        let p1 = gain_level env p; currLevelExp = nextLevelExp; next = getExpForLevel (level p1 + 1)
        in if currLevelExp \<ge> next then p1 else level_up env next p1
      else p)"
  by auto
termination
  by (relation "measure (\<lambda>(env, nextLevelExp, p). 2 ^ 64 - unat nextLevelExp)")
    (auto simp: word_less_nat_alt not_le intro!: diff_less_mono2 unat_below)

declare level_up.simps [simp del]

definition refill :: "u32 \<Rightarrow> progress \<Rightarrow> progress" where
  "refill oldLevel p = (if oldLevel \<noteq> level p then p\<lparr>health := healthMax p, mana := manaMax p\<rparr> else p)"

text \<open>\<open>None\<close> is the division by \<open>rawExp\<close> when a script sets it to zero.\<close>

definition addExperience :: "level_env \<Rightarrow> u64 \<Rightarrow> progress \<Rightarrow> progress option" where
  "addExperience env exp0 p =
     (if getExpForLevel (level p) \<ge> getExpForLevel (level p + 1) then Some p
      else case le_scripts env exp0 of (exp, rawExp) \<Rightarrow>
        if exp = 0 then Some p
        else if rawExp = 0 then None
        else let p1 = p\<lparr>experience := experience p + le_bonus env exp\<rparr>
             in Some (refill (level p) (level_up env (getExpForLevel (level p + 1)) p1)))"

definition losing_vocation :: "level_env \<Rightarrow> u32 \<Rightarrow> vocation" where
  "losing_vocation env lvl =
     (if voc_id (le_vocation env) \<noteq> VOCATION_NONE \<and> lvl \<le> 8 then le_none env else le_vocation env)"

definition dying_vocation :: "level_env \<Rightarrow> u32 \<Rightarrow> vocation" where
  "dying_vocation env lvl =
     (if voc_id (le_vocation env) \<noteq> VOCATION_NONE \<and> le_rookSystem env \<and> lvl < le_minLevelLeaveRook env
      then le_none env else le_vocation env)"

definition lose_level :: "(u32 \<Rightarrow> vocation) \<Rightarrow> progress \<Rightarrow> progress" where
  "lose_level losing p =
     (let lvl = level p - 1; voc = losing lvl
      in p\<lparr>level := lvl, healthMax := max0 (healthMax p - hpGain voc),
           manaMax := max0 (manaMax p - manaGain voc), capacity := max0 (capacity p - capGain voc)\<rparr>)"

function level_down :: "(u32 \<Rightarrow> vocation) \<Rightarrow> progress \<Rightarrow> progress" where
  "level_down losing p =
     (if level p > 1 \<and> experience p < getExpForLevel (level p) then level_down losing (lose_level losing p) else p)"
  by auto
termination
proof (relation "measure (\<lambda>(losing, p). unat (level p))")
  fix losing :: "u32 \<Rightarrow> vocation" and p :: progress
  assume "level p > 1 \<and> experience p < getExpForLevel (level p)"
  then have "level p \<noteq> 0" by auto
  then show "((losing, lose_level losing p), losing, p) \<in> measure (\<lambda>(losing, p). unat (level p))"
    by (simp add: lose_level_def Let_def measure_unat)
qed simp

declare level_down.simps [simp del]

text \<open>\<open>std::max<int64_t>(0, experience - exp)\<close> on unsigned operands.\<close>

definition take_experience :: "u64 \<Rightarrow> u64 \<Rightarrow> u64" where
  "take_experience have exp = (if sint (have - exp) < 0 then 0 else have - exp)"

definition removeExperience :: "level_env \<Rightarrow> u64 \<Rightarrow> progress \<Rightarrow> progress" where
  "removeExperience env exp0 p =
     (if experience p = 0 \<or> exp0 = 0 then p
      else let exp = le_lossScripts env exp0
           in if exp = 0 then p
              else let p1 = p\<lparr>experience := take_experience (experience p) exp\<rparr>
                   in refill (level p) (level_down (losing_vocation env) p1))"

text \<open>The loss of experience at death.\<close>

definition die_experience :: "level_env \<Rightarrow> u64 \<Rightarrow> progress \<Rightarrow> progress" where
  "die_experience env expLoss p =
     (if expLoss = 0 then p
      else let p1 = (if voc_id (le_vocation env) = VOCATION_NONE \<or> level p > 7
                     then p\<lparr>experience := experience p - expLoss\<rparr> else p)
           in level_down (dying_vocation env) p1)"

section \<open>Skills and magic level\<close>

record skill =
  sk_level :: u16
  sk_tries :: u64

text \<open>The loop of \<open>addSkillAdvance\<close>; \<open>req\<close> is \<open>getReqSkillTries\<close> of the skill.\<close>

function advance_loop :: "(u16 \<Rightarrow> u64) \<Rightarrow> u64 \<Rightarrow> u64 \<Rightarrow> skill \<Rightarrow> skill" where
  "advance_loop req nextReqTries n s =
     (if sk_tries s + n \<ge> nextReqTries then
        let n1 = n - (nextReqTries - sk_tries s); s1 = \<lparr>sk_level = sk_level s + 1, sk_tries = 0\<rparr>;
            currReqTries = nextReqTries; next = req (sk_level s1 + 1)
        in if currReqTries \<ge> next then s1 else advance_loop req next n1 s1
      else s\<lparr>sk_tries := sk_tries s + n\<rparr>)"
  by auto
termination
  by (relation "measure (\<lambda>(req, nextReqTries, n, s). 2 ^ 64 - unat nextReqTries)")
    (auto simp: word_less_nat_alt not_le intro!: diff_less_mono2 unat_below)

declare advance_loop.simps [simp del]

definition addSkillAdvance :: "(u16 \<Rightarrow> u64) \<Rightarrow> (u64 \<Rightarrow> u64) \<Rightarrow> u64 \<Rightarrow> skill \<Rightarrow> skill" where
  "addSkillAdvance req scripts count0 s =
     (if req (sk_level s) \<ge> req (sk_level s + 1) then s
      else let count = scripts count0
           in if count = 0 then s else advance_loop req (req (sk_level s + 1)) count s)"

text \<open>The loss of a skill at death: the loop and what follows it.\<close>

function lose_tries_loop :: "(u16 \<Rightarrow> u64) \<Rightarrow> u32 \<Rightarrow> skill \<Rightarrow> u32 \<times> skill" where
  "lose_tries_loop req lost s =
     (if ucast lost > sk_tries s then
        let lost1 = ucast (ucast lost - sk_tries s)
        in if sk_level s \<le> 10 then (0, \<lparr>sk_level = 10, sk_tries = 0\<rparr>)
           else lose_tries_loop req lost1 \<lparr>sk_level = sk_level s - 1, sk_tries = req (sk_level s)\<rparr>
      else (lost, s))"
  by auto
termination
proof (relation "measure (\<lambda>(req, lost, s). unat (sk_level s))")
  fix req :: "u16 \<Rightarrow> u64" and lost x :: u32 and s :: skill
  assume "\<not> sk_level s \<le> 10"
  then have "sk_level s \<noteq> 0" by auto
  then show "((req, x, \<lparr>sk_level = sk_level s - 1, sk_tries = req (sk_level s)\<rparr>), req, lost, s)
      \<in> measure (\<lambda>(req, lost, s). unat (sk_level s))"
    by (simp add: measure_unat)
qed simp

declare lose_tries_loop.simps [simp del]

definition max0_64 :: "u64 \<Rightarrow> u64" where
  "max0_64 x = (if sint (ucast x :: u32) < 0 then 0 else scast (ucast x :: u32))"

definition lose_skill :: "(u16 \<Rightarrow> u64) \<Rightarrow> u32 \<Rightarrow> skill \<Rightarrow> skill" where
  "lose_skill req lost s = (case lose_tries_loop req lost s of
      (rest, s1) \<Rightarrow> s1\<lparr>sk_tries := max0_64 (sk_tries s1 - ucast rest)\<rparr>)"

text \<open>
  What death takes: a share (a percentage) of the sum of all tries. The loop that sums up runs
  over \<open>uint16_t\<close> levels up to the one of the skill.
\<close>

definition sumSkillTries :: "(u16 \<Rightarrow> u64) \<Rightarrow> skill \<Rightarrow> u64" where
  "sumSkillTries req s = (\<Sum>c \<leftarrow> [11..<Suc (unat (sk_level s))]. req (of_nat c)) + sk_tries s"

definition die_skill :: "(u16 \<Rightarrow> u64) \<Rightarrow> (u64 \<Rightarrow> u32) \<Rightarrow> skill \<Rightarrow> skill" where
  "die_skill req share s = lose_skill req (share (sumSkillTries req s)) s"

record magic =
  magLevel :: u32
  manaSpent :: u64

text \<open>At the highest level the code returns with no mana spent.\<close>

function mana_loop :: "(u32 \<Rightarrow> u64) \<Rightarrow> u64 \<Rightarrow> u64 \<Rightarrow> magic \<Rightarrow> magic" where
  "mana_loop req nextReqMana amount m =
     (if manaSpent m + amount \<ge> nextReqMana then
        let amount1 = amount - (nextReqMana - manaSpent m); m1 = \<lparr>magLevel = magLevel m + 1, manaSpent = 0\<rparr>;
            next = req (magLevel m1 + 1)
        in if nextReqMana \<ge> next then m1 else mana_loop req next amount1 m1
      else m\<lparr>manaSpent := manaSpent m + amount\<rparr>)"
  by auto
termination
  by (relation "measure (\<lambda>(req, nextReqMana, amount, m). 2 ^ 64 - unat nextReqMana)")
    (auto simp: word_less_nat_alt not_le intro!: diff_less_mono2 unat_below)

declare mana_loop.simps [simp del]

definition addManaSpent :: "(u32 \<Rightarrow> u64) \<Rightarrow> bool \<Rightarrow> (u64 \<Rightarrow> u64) \<Rightarrow> u64 \<Rightarrow> magic \<Rightarrow> magic" where
  "addManaSpent req notGainMana scripts amount0 m =
     (if notGainMana then m
      else if req (magLevel m) \<ge> req (magLevel m + 1) then m
      else let amount = scripts amount0
           in if amount = 0 then m else mana_loop req (req (magLevel m + 1)) amount m)"

function lose_mana_loop :: "(u32 \<Rightarrow> u64) \<Rightarrow> u64 \<Rightarrow> magic \<Rightarrow> u64 \<times> magic" where
  "lose_mana_loop req lost m =
     (if lost > manaSpent m \<and> magLevel m > 0
      then lose_mana_loop req (lost - manaSpent m) \<lparr>magLevel = magLevel m - 1, manaSpent = req (magLevel m)\<rparr>
      else (lost, m))"
  by auto
termination
  by (relation "measure (\<lambda>(req, lost, m). unat (magLevel m))") (auto simp: measure_unat)

declare lose_mana_loop.simps [simp del]

definition lose_magic :: "(u32 \<Rightarrow> u64) \<Rightarrow> u64 \<Rightarrow> magic \<Rightarrow> magic" where
  "lose_magic req lost m = (case lose_mana_loop req lost m of
      (rest, m1) \<Rightarrow> m1\<lparr>manaSpent := manaSpent m1 - rest\<rparr>)"

definition sumMana :: "(u32 \<Rightarrow> u64) \<Rightarrow> magic \<Rightarrow> u64" where
  "sumMana req m = (\<Sum>i \<leftarrow> [1..<Suc (unat (magLevel m))]. req (of_nat i)) + manaSpent m"

definition die_magic :: "(u32 \<Rightarrow> u64) \<Rightarrow> (u64 \<Rightarrow> u64) \<Rightarrow> magic \<Rightarrow> magic" where
  "die_magic req share m = lose_magic req (share (sumMana req m)) m"

end
