(* ===== verification/Progress_Safety.thy ===== *)
theory Progress_Safety
  imports Player_Progress
begin

text \<open>
  What the progress of a player promises: the level is always the one of the experience,
  whatever is gained, lost or taken at death; the tries of a skill are counted exactly, so
  that losing what was gained leads back to where one was.
\<close>

section \<open>The experience of a level\<close>

text \<open>
  The reference: to get from level \<open>k\<close> to the next takes \<open>50 (k^2 - 3 k + 4)\<close> points. The
  bound is far above any level reached; below it no number is cut off.
\<close>

definition exp_of :: "nat \<Rightarrow> int" where
  "exp_of n = (\<Sum>k = 1..<n. 50 * (int k ^ 2 - 3 * int k + 4))"

definition LEVEL_BOUND :: nat where "LEVEL_BOUND = 800000"

lemma exp_of_Suc: "1 \<le> n \<Longrightarrow> exp_of (Suc n) = exp_of n + 50 * (int n ^ 2 - 3 * int n + 4)"
  by (simp add: exp_of_def)

lemma step_positive: "0 < (x :: int) ^ 2 - 3 * x + 4"
proof -
  have "0 < (2 * x - 3) ^ 2 + 7" using zero_le_power2 [of "2 * x - 3"] by linarith
  then show ?thesis by (simp add: power2_eq_square algebra_simps)
qed

lemma exp_of_less: "1 \<le> n \<Longrightarrow> n < m \<Longrightarrow> exp_of n < exp_of m"
proof (induction m)
  case (Suc m)
  show ?case
  proof (cases "n = m")
    case True
    then show ?thesis using Suc.prems step_positive [of "int m"] by (simp add: exp_of_Suc)
  next
    case False
    then show ?thesis using Suc step_positive [of "int m"] by (simp add: exp_of_Suc)
  qed
qed simp

lemma exp_of_1 [simp]: "exp_of (Suc 0) = 0"
  by (simp add: exp_of_def)

lemma exp_of_nonneg: "1 \<le> n \<Longrightarrow> 0 \<le> exp_of n"
  using exp_of_less [of 1 n] by (cases "n = 1") auto

text \<open>The formula of the code, over the integers.\<close>

definition cubic :: "int \<Rightarrow> int" where
  "cubic n = ((n - 6) * n + 17) * n - 12"

lemma cubic_exp: "1 \<le> n \<Longrightarrow> 6 dvd cubic (int n) \<and> 100 * cubic (int n) = 6 * exp_of n"
proof (induction n rule: nat_induct_at_least)
  case base
  then show ?case by (simp add: cubic_def)
next
  case (Suc n)
  have "even (int n ^ 2 - 3 * int n + 4)" by simp
  then obtain k where k: "int n ^ 2 - 3 * int n + 4 = 2 * k" by (rule dvdE)
  have "cubic (int (Suc n)) = cubic (int n) + 3 * (int n ^ 2 - 3 * int n + 4)"
    by (simp add: cubic_def power2_eq_square algebra_simps)
  then have step: "cubic (int (Suc n)) = cubic (int n) + 6 * k" using k by simp
  have "exp_of (Suc n) = exp_of n + 100 * k" using Suc.hyps k by (simp add: exp_of_Suc)
  then show ?case using Suc.IH step by simp
qed

lemma cubic_bound:
  assumes "1 \<le> n" "n \<le> LEVEL_BOUND"
  shows "cubic (int n) \<le> 512000000000000000"
proof -
  have "0 \<le> (int n - 2) * (6 * int n - 5) + 2"
    using assms by (cases "n = 1") (auto intro!: add_nonneg_nonneg mult_nonneg_nonneg)
  then have "cubic (int n) \<le> int n ^ 3" by (simp add: cubic_def power3_eq_cube algebra_simps)
  also have "\<dots> \<le> 800000 ^ 3" using assms by (intro power_mono) (simp_all add: LEVEL_BOUND_def)
  finally show ?thesis by simp
qed

lemma exp_of_bound: "1 \<le> n \<Longrightarrow> n \<le> LEVEL_BOUND \<Longrightarrow> exp_of n < 2 ^ 63"
  using cubic_exp [of n] cubic_bound [of n] by simp

lemma getExpForLevel_exact:
  assumes "1 \<le> n" "n \<le> LEVEL_BOUND"
  shows "uint (getExpForLevel (of_nat n)) = exp_of n"
proof -
  have small: "n < 2 ^ 32" using assms by (simp add: LEVEL_BOUND_def)
  have "ucast (of_nat n :: u32) = (of_int (int n) :: u64)"
    using small by (simp add: ucast_eq uint_nat unat_of_nat)
  then have formula: "((ucast (of_nat n :: u32) - 6) * ucast (of_nat n :: u32) + 17) * ucast (of_nat n :: u32) - 12
      = (of_int (cubic (int n)) :: u64)"
    by (simp add: cubic_def)
  obtain k where k: "cubic (int n) = 6 * k" using cubic_exp [OF assms(1)] by (auto elim: dvdE)
  have range: "0 \<le> k" "k \<le> 100000000000000000"
    using k exp_of_nonneg [OF assms(1)] cubic_exp [OF assms(1)] cubic_bound [OF assms] by simp_all
  have "uint (of_int (cubic (int n)) :: u64) = 6 * k"
    unfolding k uint_word_of_int using range by simp
  then have "uint ((of_int (cubic (int n)) :: u64) div 6) = k" by (simp add: uint_div)
  then have "uint ((of_int (cubic (int n)) :: u64) div 6 * 100) = k * 100"
    using range by (simp add: uint_word_ariths)
  then show ?thesis
    using formula k cubic_exp [OF assms(1)] by (simp add: getExpForLevel_def)
qed

lemma getExpForLevel_uint:
  assumes "1 \<le> unat lvl" "unat lvl \<le> LEVEL_BOUND"
  shows "uint (getExpForLevel lvl) = exp_of (unat lvl)"
  using getExpForLevel_exact [OF assms] by simp

section \<open>The level is the one of the experience\<close>

definition exact_level :: "progress \<Rightarrow> bool" where
  "exact_level p \<longleftrightarrow> 1 \<le> unat (level p) \<and> unat (level p) < LEVEL_BOUND
     \<and> exp_of (unat (level p)) \<le> uint (experience p) \<and> uint (experience p) < exp_of (unat (level p) + 1)"

lemma exp_of_le: "1 \<le> n \<Longrightarrow> n \<le> m \<Longrightarrow> exp_of n \<le> exp_of m"
  using exp_of_less [of n m] by (cases "n = m") auto

lemma exact_level_not_less:
  assumes "exact_level p" "exact_level q" "experience p = experience q"
  shows "\<not> unat (level p) < unat (level q)"
proof
  assume "unat (level p) < unat (level q)"
  then have "exp_of (unat (level p) + 1) \<le> exp_of (unat (level q))" by (intro exp_of_le) simp_all
  then show False using assms by (simp add: exact_level_def)
qed

lemma exact_level_unique:
  assumes "exact_level p" "exact_level q" "experience p = experience q"
  shows "level p = level q"
  using exact_level_not_less [OF assms] exact_level_not_less [OF assms(2,1) assms(3) [symmetric]]
  by (simp add: word_unat_eq_iff)

lemma next_level: "unat lvl < LEVEL_BOUND \<Longrightarrow> unat (lvl + 1 :: u32) = unat lvl + 1"
  by (simp add: unat_word_ariths LEVEL_BOUND_def)

lemma level_up_exact:
  assumes "1 \<le> unat (level p)" "unat (level p) < LEVEL_BOUND"
    and "exp_of (unat (level p)) \<le> uint (experience p)" "uint (experience p) < exp_of LEVEL_BOUND"
  shows "exact_level (level_up env (getExpForLevel (level p + 1)) p)
       \<and> (\<exists>k. level_up env (getExpForLevel (level p + 1)) p = (gain_level env ^^ k) p
          \<and> unat (level (level_up env (getExpForLevel (level p + 1)) p)) = unat (level p) + k)"
  using assms
proof (induction "LEVEL_BOUND - unat (level p)" arbitrary: p)
  case (Suc d)
  define p1 where "p1 = gain_level env p"
  have p1: "level p1 = level p + 1" "experience p1 = experience p"
    by (simp_all add: p1_def gain_level_def Let_def)
  have n: "unat (level p + 1) = unat (level p) + 1" using Suc.prems next_level by blast
  have now: "uint (getExpForLevel (level p + 1)) = exp_of (unat (level p) + 1)"
    using getExpForLevel_uint [of "level p + 1"] Suc.prems n by simp
  show ?case
  proof (cases "experience p \<ge> getExpForLevel (level p + 1)")
    case True
    then have reached: "exp_of (unat (level p) + 1) \<le> uint (experience p)" using now by (simp add: word_le_def)
    have below: "unat (level p) + 1 < LEVEL_BOUND"
    proof (rule ccontr)
      assume "\<not> ?thesis"
      then have "unat (level p) + 1 = LEVEL_BOUND" using Suc.prems by simp
      then show False using reached Suc.prems by simp
    qed
    then have n2: "unat (level p + 1 + 1) = unat (level p) + 2" using next_level [of "level p + 1"] n by simp
    have later: "uint (getExpForLevel (level p1 + 1)) = exp_of (unat (level p) + 2)"
      using getExpForLevel_uint [of "level p + 1 + 1"] below n2 p1 by simp
    have grows: "\<not> getExpForLevel (level p + 1) \<ge> getExpForLevel (level p1 + 1)"
      using now later exp_of_less [of "unat (level p) + 1" "unat (level p) + 2"] by (simp add: word_le_def)
    have "level_up env (getExpForLevel (level p + 1)) p = level_up env (getExpForLevel (level p1 + 1)) p1"
      using True grows by (subst level_up.simps) (simp add: p1_def [symmetric] Let_def)
    moreover have "d = LEVEL_BOUND - unat (level p1)" using Suc.hyps(2) p1 n by simp
    then have rest: "exact_level (level_up env (getExpForLevel (level p1 + 1)) p1)"
        "\<exists>k. level_up env (getExpForLevel (level p1 + 1)) p1 = (gain_level env ^^ k) p1
           \<and> unat (level (level_up env (getExpForLevel (level p1 + 1)) p1)) = unat (level p1) + k"
      using Suc.hyps(1) [of p1] Suc.prems p1 n below reached by simp_all
    then obtain k where k: "level_up env (getExpForLevel (level p1 + 1)) p1 = (gain_level env ^^ k) p1"
        "unat (level (level_up env (getExpForLevel (level p1 + 1)) p1)) = unat (level p1) + k" by blast
    then have "level_up env (getExpForLevel (level p1 + 1)) p1 = (gain_level env ^^ Suc k) p"
      by (simp add: p1_def funpow_swap1)
    ultimately show ?thesis using rest(1) k(2) p1 n by (metis add_Suc_right add_Suc_shift plus_1_eq_Suc add.commute)
  next
    case False
    then have "level_up env (getExpForLevel (level p + 1)) p = p" by (simp add: level_up.simps)
    moreover have "p = (gain_level env ^^ 0) p" by simp
    ultimately show ?thesis using False Suc.prems now
      by (simp add: exact_level_def word_le_def del: funpow_0)
  qed
qed simp

lemma level_down_exact:
  assumes "1 \<le> unat (level p)" "unat (level p) < LEVEL_BOUND" "uint (experience p) < exp_of (unat (level p) + 1)"
  shows "exact_level (level_down losing p) \<and> experience (level_down losing p) = experience p
       \<and> (\<exists>k. level_down losing p = (lose_level losing ^^ k) p \<and> unat (level p) = unat (level (level_down losing p)) + k)"
  using assms
proof (induction losing p rule: level_down.induct)
  case (1 losing p)
  have now: "uint (getExpForLevel (level p)) = exp_of (unat (level p))"
    using getExpForLevel_uint [of "level p"] "1.prems" by simp
  show ?case
  proof (cases "level p > 1 \<and> experience p < getExpForLevel (level p)")
    case True
    define p1 where "p1 = lose_level losing p"
    have p1: "level p1 = level p - 1" "experience p1 = experience p"
      by (simp_all add: p1_def lose_level_def Let_def)
    have n: "unat (level p1) = unat (level p) - 1" "1 < unat (level p)"
      using True p1 by (simp_all add: unat_sub word_le_nat_alt word_less_nat_alt)
    have rest: "exact_level (level_down losing p1) \<and> experience (level_down losing p1) = experience p1
       \<and> (\<exists>k. level_down losing p1 = (lose_level losing ^^ k) p1 \<and> unat (level p1) = unat (level (level_down losing p1)) + k)"
      using "1.IH" [OF True] "1.prems" True now n p1 by (simp add: p1_def [symmetric] word_less_def)
    then obtain k where k: "level_down losing p1 = (lose_level losing ^^ k) p1"
        "unat (level p1) = unat (level (level_down losing p1)) + k" by blast
    have "level_down losing p = level_down losing p1" using True by (simp add: level_down.simps [of losing p] p1_def)
    moreover have "level_down losing p1 = (lose_level losing ^^ Suc k) p" using k by (simp add: p1_def funpow_swap1)
    moreover have "unat (level p) = unat (level (level_down losing p1)) + Suc k" using k n by simp
    ultimately show ?thesis using rest p1 by metis
  next
    case False
    have "exp_of (unat (level p)) \<le> uint (experience p)"
    proof (cases "level p > 1")
      case True
      then show ?thesis using False now by (simp add: word_less_def)
    next
      case outer: False
      then have "unat (level p) = 1" using "1.prems" by (simp add: word_less_nat_alt)
      then show ?thesis by simp
    qed
    moreover have "level_down losing p = p" by (subst level_down.simps) (simp only: if_not_P [OF False])
    moreover have "p = (lose_level losing ^^ 0) p" by simp
    ultimately show ?thesis using "1.prems" by (metis add_0_right exact_level_def)
  qed
qed

lemma gain_levels_experience [simp]: "experience ((gain_level env ^^ k) p) = experience p"
  by (induction k) (simp_all add: gain_level_def Let_def)

lemma experience_fits: "exact_level p \<Longrightarrow> uint (experience p) < 2 ^ 63"
  using exp_of_le [of "unat (level p) + 1" LEVEL_BOUND] exp_of_bound [of LEVEL_BOUND]
  by (simp add: exact_level_def LEVEL_BOUND_def)

lemma refill_fields [simp]:
  "level (refill l p) = level p" "experience (refill l p) = experience p" "healthMax (refill l p) = healthMax p"
  "manaMax (refill l p) = manaMax p" "capacity (refill l p) = capacity p"
  by (simp_all add: refill_def)

lemma exact_refill [simp]: "exact_level (refill l p) = exact_level p"
  by (simp add: exact_level_def)

lemma take_experience_exact:
  assumes "uint points < 2 ^ 63" "uint exp \<le> 2 ^ 63"
  shows "uint (take_experience points exp) = max 0 (uint points - uint exp)"
proof (cases "uint exp \<le> uint points")
  case True
  then have u: "uint (points - exp) = uint points - uint exp" by (simp add: uint_sub_if')
  have small: "uint points - uint exp < 2 ^ 63" using assms(1) uint_ge_0 [of exp] by linarith
  from u have "sint (points - exp) = uint points - uint exp"
    using signed_take_bit_int_eq_self [of 63 "uint points - uint exp"] small True by (simp add: sint_uint)
  then show ?thesis using True u by (simp add: take_experience_def)
next
  case False
  then have u: "uint (points - exp) = uint points - uint exp + 2 ^ 64" by (simp add: uint_sub_if')
  have "sint (points - exp) = signed_take_bit 63 (uint points - uint exp + 2 ^ 64)" by (simp add: sint_uint u)
  also have "\<dots> = signed_take_bit 63 (uint points - uint exp)" by (simp add: signed_take_bit_eq_iff_take_bit_eq take_bit_eq_mod)
  also have "\<dots> = uint points - uint exp"
  proof (intro signed_take_bit_int_eq_self)
    show "- (2 ^ 63) \<le> uint points - uint exp" using assms(2) uint_ge_0 [of points] by linarith
  qed (use False in simp)
  finally show ?thesis using False by (simp add: take_experience_def)
qed

lemma addExperience_cases:
  assumes "addExperience env exp0 p = Some q" "exact_level p"
    and "uint (experience p) + uint (le_bonus env (fst (le_scripts env exp0))) < exp_of LEVEL_BOUND"
  shows "q = p \<or> (exact_level q \<and> experience q = experience p + le_bonus env (fst (le_scripts env exp0))
     \<and> uint (experience q) = uint (experience p) + uint (le_bonus env (fst (le_scripts env exp0)))
     \<and> (\<exists>k. q = refill (level p) ((gain_level env ^^ k)
              (p\<lparr>experience := experience p + le_bonus env (fst (le_scripts env exp0))\<rparr>))
          \<and> unat (level q) = unat (level p) + k))"
proof (cases "q = p")
  case False
  define b where "b = le_bonus env (fst (le_scripts env exp0))"
  define p1 where "p1 = p\<lparr>experience := experience p + b\<rparr>"
  define up where "up = level_up env (getExpForLevel (level p1 + 1)) p1"
  have q: "q = refill (level p) up"
    using assms(1) False
    by (auto simp: addExperience_def up_def p1_def b_def Let_def split: if_splits prod.splits)
  have "exp_of LEVEL_BOUND < 2 ^ 63" by (intro exp_of_bound) (simp_all add: LEVEL_BOUND_def)
  then have sum: "uint (experience p1) = uint (experience p) + uint b"
    using assms(3) by (simp add: p1_def b_def uint_plus_if')
  have ge: "exp_of (unat (level p)) \<le> uint (experience p) + uint b"
    using assms(2) uint_ge_0 [of b] unfolding exact_level_def by linarith
  have up: "exact_level up \<and> (\<exists>k. up = (gain_level env ^^ k) p1 \<and> unat (level up) = unat (level p1) + k)"
    unfolding up_def using assms(2,3) sum ge
    by (intro level_up_exact) (simp_all add: p1_def exact_level_def b_def)
  then have "experience up = experience p1" by auto
  then show ?thesis using up q sum by (auto simp: p1_def b_def)
qed simp

section \<open>Levels lost and won back\<close>

definition stats :: "progress \<Rightarrow> u32 \<times> u32 \<times> u32 \<times> u32" where
  "stats p = (level p, healthMax p, manaMax p, capacity p)"

lemma stats_simps [simp]:
  "stats (p\<lparr>experience := e\<rparr>) = stats p" "stats (refill l p) = stats p"
  by (simp_all add: stats_def)

lemma lose_level_cong: "stats p = stats q \<Longrightarrow> stats (lose_level losing p) = stats (lose_level losing q)"
  by (simp add: stats_def lose_level_def Let_def)

lemma lose_levels_cong: "stats p = stats q \<Longrightarrow> stats ((lose_level losing ^^ k) p) = stats ((lose_level losing ^^ k) q)"
  by (induction k) (auto intro: lose_level_cong)

lemma gain_levels_cong: "stats p = stats q \<Longrightarrow> stats ((gain_level env ^^ k) p) = stats ((gain_level env ^^ k) q)"
  by (induction k) (simp_all add: stats_def gain_level_def Let_def)

text \<open>Room for \<open>k\<close> levels: the sums stay below the sign bit that \<open>std::max<int32_t>\<close> looks at.\<close>

definition gains_at_most :: "nat \<Rightarrow> level_env \<Rightarrow> bool" where
  "gains_at_most g env \<longleftrightarrow> (case le_vocation env of v \<Rightarrow> unat (hpGain v) \<le> g \<and> unat (manaGain v) \<le> g \<and> unat (capGain v) \<le> g)
     \<and> (case le_none env of v \<Rightarrow> unat (hpGain v) \<le> g \<and> unat (manaGain v) \<le> g \<and> unat (capGain v) \<le> g)"

definition room_for :: "nat \<Rightarrow> progress \<Rightarrow> bool" where
  "room_for n p \<longleftrightarrow> unat (healthMax p) + n < 2 ^ 31 \<and> unat (manaMax p) + n < 2 ^ 31 \<and> unat (capacity p) + n < 2 ^ 31"

lemma neg_le_uint [simp]: "- numeral n \<le> uint x"
  by (rule order_trans [of _ 0]) simp_all

lemma max0_small: "unat x < 2 ^ 31 \<Longrightarrow> max0 x = x"
proof -
  assume "unat x < 2 ^ 31"
  then have "int (unat x) < int (2 ^ 31)" by (simp only: of_nat_less_iff)
  then have "uint x < 2 ^ 31" by simp
  then have "sint x = uint x" using signed_take_bit_int_eq_self [of 31 "uint x"] by (simp add: sint_uint)
  then show ?thesis by (simp add: max0_def)
qed

lemma room_gain:
  assumes "gains_at_most g env" "room_for (g + n) p"
  shows "room_for n (gain_level env p)"
proof -
  define v where "v = gaining_vocation env (level p + 1)"
  have g: "unat (hpGain v) \<le> g" "unat (manaGain v) \<le> g" "unat (capGain v) \<le> g"
    using assms(1) by (simp_all add: v_def gaining_vocation_def gains_at_most_def)
  have room: "unat (x + d :: u32) + n < 2147483648" if "unat x + (g + n) < 2147483648" "unat d \<le> g" for x d
    using that by (simp add: unat_word_ariths)
  show ?thesis
    using assms(2) g by (auto simp: room_for_def gain_level_def Let_def v_def [symmetric] simp del: One_nat_def intro!: room)
qed

lemma room_gains:
  assumes "gains_at_most g env" "room_for (k * g + n) p"
  shows "room_for n ((gain_level env ^^ k) p)"
  using assms(2)
proof (induction k arbitrary: n)
  case (Suc k)
  then have "room_for (g + n) ((gain_level env ^^ k) p)" by (intro Suc.IH) (simp add: ac_simps)
  then show ?case using room_gain [OF assms(1)] by simp
qed simp

lemma lose_what_was_gained:
  assumes "room_for 0 p" "level p < 4294967295"
  shows "stats (lose_level (dying_vocation env) (gain_level env p)) = stats p"
proof -
  have "level p + 1 \<le> m \<longleftrightarrow> level p < m" for m
    using assms(2) by (auto simp: word_le_nat_alt word_less_nat_alt unat_word_ariths)
  then have "gaining_vocation env (level p + 1) = dying_vocation env (level p)"
    by (simp add: gaining_vocation_def dying_vocation_def)
  then show ?thesis
    using assms(1) by (simp add: stats_def lose_level_def gain_level_def Let_def room_for_def max0_small)
qed

lemma gain_levels_level: "level ((gain_level env ^^ k) p) = level p + of_nat k"
  by (induction k) (simp_all add: gain_level_def Let_def)

lemma lose_all_gained:
  assumes "gains_at_most g env" "room_for (k * g) p" "unat (level p) + k < 2 ^ 32"
  shows "stats ((lose_level (dying_vocation env) ^^ k) ((gain_level env ^^ k) p)) = stats p"
  using assms(2,3)
proof (induction k)
  case (Suc k)
  define q where "q = (gain_level env ^^ k) p"
  have "room_for g q" using room_gains [OF assms(1), of k g p] Suc.prems by (simp add: q_def add.commute)
  then have room: "room_for 0 q" by (simp add: room_for_def)
  have "unat (level q) = unat (level p) + k" using Suc.prems by (simp add: q_def gain_levels_level unat_word_ariths unat_of_nat)
  then have "level q < 4294967295" using Suc.prems by (simp add: word_less_nat_alt)
  then have undone: "stats (lose_level (dying_vocation env) (gain_level env q)) = stats q"
    using lose_what_was_gained room by blast
  have "stats ((lose_level (dying_vocation env) ^^ Suc k) ((gain_level env ^^ Suc k) p))
      = stats ((lose_level (dying_vocation env) ^^ k) (lose_level (dying_vocation env) (gain_level env q)))"
    by (simp add: q_def funpow_swap1)
  also have "\<dots> = stats ((lose_level (dying_vocation env) ^^ k) q)" by (rule lose_levels_cong) (rule undone)
  also have "\<dots> = stats p" using Suc by (simp add: q_def room_for_def)
  finally show ?case .
qed simp

section \<open>Properties\<close>

lemma level_down_lower:
  assumes "exact_level p" "uint e \<le> uint (experience p)"
  shows "exact_level (level_down losing (p\<lparr>experience := e\<rparr>))" (is ?exact)
    and "experience (level_down losing (p\<lparr>experience := e\<rparr>)) = e" (is ?exp)
    and "\<exists>k. stats (level_down losing (p\<lparr>experience := e\<rparr>)) = stats ((lose_level losing ^^ k) p)
        \<and> unat (level p) = unat (level (level_down losing (p\<lparr>experience := e\<rparr>))) + k" (is ?steps)
proof -
  define p1 where "p1 = p\<lparr>experience := e\<rparr>"
  have pre: "1 \<le> unat (level p1)" "unat (level p1) < LEVEL_BOUND" "uint (experience p1) < exp_of (unat (level p1) + 1)"
    using assms by (simp_all add: exact_level_def p1_def)
  note down = level_down_exact [OF pre, of losing]
  show ?exact ?exp using down unfolding p1_def by simp_all
  obtain k where k: "level_down losing p1 = (lose_level losing ^^ k) p1"
      "unat (level p1) = unat (level (level_down losing p1)) + k" using down by blast
  have "stats ((lose_level losing ^^ k) p1) = stats ((lose_level losing ^^ k) p)"
    by (rule lose_levels_cong) (simp add: p1_def)
  then show ?steps using k by (auto simp: p1_def)
qed

lemma removeExperience_exact:
  assumes "exact_level p" "uint (le_lossScripts env exp0) \<le> 2 ^ 63"
  shows "exact_level (removeExperience env exp0 p)
     \<and> (experience p = 0 \<or> exp0 = 0 \<or> le_lossScripts env exp0 = 0 \<or>
        uint (experience (removeExperience env exp0 p)) = max 0 (uint (experience p) - uint (le_lossScripts env exp0)))"
proof -
  define loss where "loss = le_lossScripts env exp0"
  define p1 where "p1 = p\<lparr>experience := take_experience (experience p) loss\<rparr>"
  have e: "uint (experience p1) = max 0 (uint (experience p) - uint loss)"
    using take_experience_exact [OF experience_fits [OF assms(1)] assms(2)] by (simp add: p1_def loss_def)
  then have le: "uint (experience p1) \<le> uint (experience p)" using uint_ge_0 [of loss] by simp
  note level_down_lower [OF assms(1) le, of "losing_vocation env"]
  then have "exact_level (level_down (losing_vocation env) p1) \<and> experience (level_down (losing_vocation env) p1) = experience p1"
    by (simp add: p1_def)
  moreover have "removeExperience env exp0 p = p \<and> (experience p = 0 \<or> exp0 = 0 \<or> loss = 0)
      \<or> removeExperience env exp0 p = refill (level p) (level_down (losing_vocation env) p1)"
    by (auto simp: removeExperience_def Let_def p1_def loss_def)
  ultimately show ?thesis using assms(1) e by (auto simp: loss_def)
qed

lemma die_experience_exact:
  assumes "exact_level p" "expLoss \<le> experience p" "expLoss \<noteq> 0"
    "voc_id (le_vocation env) = VOCATION_NONE \<or> level p > 7"
  shows "exact_level (die_experience env expLoss p) \<and> experience (die_experience env expLoss p) = experience p - expLoss
     \<and> (\<exists>k. stats (die_experience env expLoss p) = stats ((lose_level (dying_vocation env) ^^ k) p)
        \<and> unat (level p) = unat (level (die_experience env expLoss p)) + k)"
proof -
  have "uint (experience p - expLoss) = uint (experience p) - uint expLoss"
    using assms(2) by (simp add: uint_sub_if' word_le_def)
  then have le: "uint (experience p - expLoss) \<le> uint (experience p)" by simp
  show ?thesis
    using level_down_lower [OF assms(1) le, of "dying_vocation env"] assms(3,4) by (auto simp: die_experience_def)
qed

lemma level_stays: "exact_level p \<Longrightarrow> level_down voc p = p"
  using getExpForLevel_uint [of "level p"]
  by (simp add: exact_level_def level_down.simps [of voc p] word_less_def)

lemma die_experience_none:
  "exact_level p \<Longrightarrow> \<not> (voc_id (le_vocation env) = VOCATION_NONE \<or> level p > 7) \<Longrightarrow> die_experience env expLoss p = p"
  by (simp add: die_experience_def level_stays)

lemma die_experience_kept:
  assumes "exact_level p" "\<not> (voc_id (le_vocation env) = VOCATION_NONE \<or> level p > 7)"
  shows "exact_level (die_experience env expLoss p)"
proof -
  have "die_experience env expLoss p = p \<or> die_experience env expLoss p = level_down (dying_vocation env) p"
    using assms(2) by (auto simp: die_experience_def)
  then show ?thesis using level_down_lower(1) [OF assms(1), of "experience p" "dying_vocation env"] assms(1) by auto
qed

text \<open>
  C24. The level is always the one of the experience: after a gain, after a removal and after a
  death (which takes no more experience than there is), level \<open>n\<close> means between the sum for
  \<open>n\<close> and the one for \<open>n + 1\<close>, for all levels below 800,000; there the formula of the code
  does not wrap and the comparison through \<open>int64_t\<close> loses nothing.
\<close>
theorem level_is_exact:
  assumes "exact_level p"
  shows "(\<forall>q. addExperience env e p = Some q
            \<and> uint (experience p) + uint (le_bonus env (fst (le_scripts env e))) < exp_of LEVEL_BOUND \<longrightarrow> exact_level q)
     \<and> (uint (le_lossScripts env e) \<le> 2 ^ 63 \<longrightarrow> exact_level (removeExperience env e p))
     \<and> (expLoss \<le> experience p \<longrightarrow> exact_level (die_experience env expLoss p))"
proof (intro conjI allI impI)
  fix q assume "addExperience env e p = Some q
            \<and> uint (experience p) + uint (le_bonus env (fst (le_scripts env e))) < exp_of LEVEL_BOUND"
  then show "exact_level q" using addExperience_cases [of env e p q] assms by auto
next
  assume "uint (le_lossScripts env e) \<le> 2 ^ 63"
  then show "exact_level (removeExperience env e p)" using removeExperience_exact assms by blast
next
  assume le: "expLoss \<le> experience p"
  consider "expLoss = 0" | "expLoss \<noteq> 0" "voc_id (le_vocation env) = VOCATION_NONE \<or> level p > 7"
    | "\<not> (voc_id (le_vocation env) = VOCATION_NONE \<or> level p > 7)" by blast
  then show "exact_level (die_experience env expLoss p)"
  proof cases
    case 1
    then show ?thesis using assms by (simp add: die_experience_def)
  next
    case 2
    then show ?thesis using die_experience_exact assms le by blast
  next
    case 3
    then show ?thesis by (rule die_experience_kept [OF assms])
  qed
qed

text \<open>A player of level 8 in a world without the starting island, to evaluate the model on.\<close>

definition knight_env :: level_env where
  "knight_env = \<lparr>le_vocation = \<lparr>voc_id = 4, hpGain = 15, manaGain = 5, capGain = 2500\<rparr>,
     le_none = \<lparr>voc_id = 0, hpGain = 5, manaGain = 5, capGain = 1000\<rparr>, le_rookSystem = False,
     le_minLevelLeaveRook = 8, le_scripts = (\<lambda>e. (e, e)), le_bonus = (\<lambda>e. e), le_lossScripts = (\<lambda>e. e)\<rparr>"

definition knight :: progress where
  "knight = \<lparr>level = 8, experience = 4500, healthMax = 185, health = 150, manaMax = 90, mana = 20, capacity = 47000\<rparr>"

definition knight9 :: progress where
  "knight9 = \<lparr>level = 9, experience = 6500, healthMax = 200, health = 200, manaMax = 95, mana = 95, capacity = 49500\<rparr>"

lemma exp_of_values: "exp_of 8 = 4200" "exp_of 9 = 6400" "exp_of 10 = 9300" "exp_of LEVEL_BOUND = 8533269333559999800"
  using cubic_exp [of 8] cubic_exp [of 9] cubic_exp [of 10] cubic_exp [of LEVEL_BOUND]
  by (simp_all add: cubic_def LEVEL_BOUND_def)

lemma knight_exact: "exact_level knight" 
  by (simp add: exact_level_def knight_def exp_of_values LEVEL_BOUND_def)

lemma knight_gains: "addExperience knight_env 2000 knight = Some knight9"
  by code_simp

theorem level_is_exact_witness:
  "addExperience knight_env 2000 knight = Some knight9 \<and> exact_level knight9
     \<and> exact_level (removeExperience knight_env 1000 knight) \<and> exact_level (die_experience knight_env 400 knight)"
proof (intro conjI)
  show "addExperience knight_env 2000 knight = Some knight9" by (rule knight_gains)
  show "exact_level knight9"
    using level_is_exact [OF knight_exact, of knight_env 2000] knight_gains
    by (simp add: knight_env_def knight_def exp_of_values)
  show "exact_level (removeExperience knight_env 1000 knight)"
    using level_is_exact [OF knight_exact, of knight_env 1000] by (simp add: knight_env_def)
  show "exact_level (die_experience knight_env 400 knight)"
    using level_is_exact [OF knight_exact, of knight_env _ 400] by (simp add: knight_def)
qed

lemma removing_undoes_gaining:
  assumes "exact_level p" "exact_level q" "experience p \<le> experience q"
    and "le_lossScripts env e' = experience q - experience p" "e' \<noteq> 0"
  shows "experience (removeExperience env e' q) = experience p \<and> level (removeExperience env e' q) = level p"
proof -
  define r where "r = removeExperience env e' q"
  have u: "uint (experience q - experience p) = uint (experience q) - uint (experience p)"
    using assms(3) by (simp add: uint_sub_if' word_le_def)
  then have "uint (le_lossScripts env e') \<le> 2 ^ 63"
    using experience_fits [OF assms(2)] uint_ge_0 [of "experience p"] unfolding assms(4) by linarith
  note r = removeExperience_exact [OF assms(2) this, folded r_def]
  have "experience r = experience p"
  proof (cases "experience q = 0 \<or> experience q = experience p")
    case True
    then have "r = q \<and> experience q = experience p"
      using assms(3,4) by (auto simp: r_def removeExperience_def)
    then show ?thesis by simp
  next
    case False
    then have "uint (experience r) = uint (experience p)" using r assms(4,5) u by auto
    then show ?thesis by (simp only: word_uint_eq_iff)
  qed
  then show ?thesis using exact_level_unique [of r p] r assms(1) by (simp add: r_def)
qed

lemma death_undoes_levels:
  assumes "exact_level p" "exact_level q" "experience p \<le> experience q"
    and k: "stats q = stats ((gain_level env ^^ k) p)" "unat (level q) = unat (level p) + k"
    and room: "gains_at_most g env" "room_for (k * g) p"
    and tall: "voc_id (le_vocation env) = VOCATION_NONE \<or> level q > 7"
  shows "experience (die_experience env (experience q - experience p) q) = experience p
       \<and> stats (die_experience env (experience q - experience p) q) = stats p"
proof (cases "experience q - experience p = 0")
  case True
  then have "level q = level p" using exact_level_unique [of q p] assms(1,2) by simp
  then show ?thesis using True k by (simp add: die_experience_def)
next
  case False
  define r where "r = die_experience env (experience q - experience p) q"
  have "uint (experience q - experience p) = uint (experience q) - uint (experience p)"
    using assms(3) by (simp add: uint_sub_if' word_le_def)
  then have "experience q - experience p \<le> experience q" by (simp add: word_le_def)
  note r = die_experience_exact [OF assms(2) this False tall, folded r_def]
  then have same: "experience r = experience p" by simp
  then have "level r = level p" using exact_level_unique [of r p] r assms(1) by blast
  then have steps: "stats r = stats ((lose_level (dying_vocation env) ^^ k) q)" using r k by auto
  have "unat (level p) + k < 2 ^ 32" using k assms(2) by (simp add: exact_level_def LEVEL_BOUND_def)
  then have "stats ((lose_level (dying_vocation env) ^^ k) ((gain_level env ^^ k) p)) = stats p"
    by (rule lose_all_gained [OF room])
  then show ?thesis using same steps lose_levels_cong [OF k(1), of k "dying_vocation env"] by (simp add: r_def)
qed

text \<open>
  C25. Losing exactly what was gained leads back, for experience below the sum for level
  800,000. A removal restores experience and level. A death, without a vocation or at a level
  above 7, restores experience and level and also the greatest health, the greatest mana and
  the capacity (the current health and mana are not touched by it, and a gain of a level has
  filled them up), as long as these values stay below \<open>2^31\<close> on the way; the vocation whose
  share it takes back for level \<open>n\<close> is the one that gave it, with and without the starting
  island. At level 7 and below, a death of a player with a vocation takes nothing.
\<close>
theorem dying_undoes_gaining:
  assumes "exact_level p" "addExperience env e p = Some q"
    and "uint (experience p) + uint (le_bonus env (fst (le_scripts env e))) < exp_of LEVEL_BOUND"
  shows "(le_lossScripts env e' = experience q - experience p \<and> e' \<noteq> 0 \<longrightarrow>
            experience (removeExperience env e' q) = experience p \<and> level (removeExperience env e' q) = level p)
     \<and> ((voc_id (le_vocation env) = VOCATION_NONE \<or> level q > 7) \<and> gains_at_most g env
          \<and> room_for ((unat (level q) - unat (level p)) * g) p \<longrightarrow>
            experience (die_experience env (experience q - experience p) q) = experience p
          \<and> stats (die_experience env (experience q - experience p) q) = stats p)
     \<and> (\<not> (voc_id (le_vocation env) = VOCATION_NONE \<or> level q > 7) \<longrightarrow> die_experience env expLoss q = q)"
proof -
  consider "q = p" | k where "q \<noteq> p" "exact_level q" "uint (experience q) = uint (experience p) + uint (le_bonus env (fst (le_scripts env e)))"
      "q = refill (level p) ((gain_level env ^^ k) (p\<lparr>experience := experience p + le_bonus env (fst (le_scripts env e))\<rparr>))"
      "unat (level q) = unat (level p) + k"
    using addExperience_cases [OF assms(2,1,3)] by blast
  then obtain k where q: "exact_level q" "experience p \<le> experience q"
      and k: "stats q = stats ((gain_level env ^^ k) p)" "unat (level q) = unat (level p) + k"
  proof cases
    case 1
    then show ?thesis using assms(1) that [of 0] by simp
  next
    case (2 k)
    then have "stats q = stats ((gain_level env ^^ k) p)" by (simp add: gain_levels_cong [OF stats_simps(1)])
    moreover have "experience p \<le> experience q" using 2(3) by (simp add: word_le_def)
    ultimately show ?thesis using that 2 by blast
  qed
  then show ?thesis
    using removing_undoes_gaining [OF assms(1) q] death_undoes_levels [OF assms(1) q k, where g = g] k(2)
      die_experience_none [OF q(1)] by auto
qed

theorem dying_undoes_gaining_witness:
  "addExperience knight_env 2000 knight = Some knight9
     \<and> experience (removeExperience knight_env 2000 knight9) = 4500 \<and> level (removeExperience knight_env 2000 knight9) = 8
     \<and> stats (die_experience knight_env 2000 knight9) = stats knight"
proof -
  have bound: "uint (experience knight) + uint (le_bonus knight_env (fst (le_scripts knight_env 2000))) < exp_of LEVEL_BOUND"
    by (simp add: knight_def knight_env_def exp_of_values)
  have diff: "experience knight9 - experience knight = 2000" by (simp add: knight_def knight9_def)
  have loss: "le_lossScripts knight_env 2000 = 2000" by (simp add: knight_env_def)
  have tall: "voc_id (le_vocation knight_env) = VOCATION_NONE \<or> level knight9 > 7" by (simp add: knight9_def)
  have gains: "gains_at_most 2500 knight_env" by (simp add: gains_at_most_def knight_env_def)
  have room: "room_for ((unat (level knight9) - unat (level knight)) * 2500) knight"
    by (simp add: room_for_def knight_def knight9_def)
  note both = dying_undoes_gaining [OF knight_exact knight_gains bound, of 2000 2500]
  show ?thesis using both diff loss tall gains room knight_gains by (simp add: knight_def)
qed

text \<open>
  A removal does not: it takes the share of no vocation back for every level up to 8, whoever
  gave it, so losing level 9 leaves ten of the health points behind.
\<close>
lemma removal_keeps_health:
  "healthMax (removeExperience knight_env 2000 knight9) = healthMax knight + 10"
  by code_simp

end
