(* ===== verification/Skill_Safety.thy ===== *)
theory Skill_Safety
  imports Player_Progress
begin

text \<open>
  What the skills of a player promise: tries are counted exactly over all levels. The tries of
  all levels climbed and the ones of the present level have one sum; a gain adds to it what
  was gained, a death takes from it what was lost, and a level with its tries is determined by
  the sum. The locale holds what skills and magic level share.
\<close>

section \<open>Levels and tries\<close>

definition tries_below :: "nat \<Rightarrow> (nat \<Rightarrow> nat) \<Rightarrow> nat \<Rightarrow> nat" where
  "tries_below low need l = (\<Sum>c = Suc low..l. need c)"

definition tries_total :: "nat \<Rightarrow> (nat \<Rightarrow> nat) \<Rightarrow> nat \<Rightarrow> nat \<Rightarrow> nat" where
  "tries_total low need l t = tries_below low need l + t"

definition settled :: "nat \<Rightarrow> (nat \<Rightarrow> nat) \<Rightarrow> nat \<Rightarrow> nat \<Rightarrow> bool" where
  "settled low need l t \<longleftrightarrow> low \<le> l \<and> t < need (Suc l)"

lemma below_next: "low \<le> l \<Longrightarrow> tries_below low need (Suc l) = tries_below low need l + need (Suc l)"
  by (simp add: tries_below_def)

lemma below_mono: "l \<le> m \<Longrightarrow> tries_below low need l \<le> tries_below low need m"
  by (auto simp: tries_below_def intro: sum_mono2)

lemma total_below:
  assumes "settled low need l t" "l < m"
  shows "tries_total low need l t < tries_below low need m"
proof -
  have "tries_total low need l t < tries_below low need (Suc l)"
    using assms(1) by (simp add: settled_def below_next tries_total_def)
  also have "\<dots> \<le> tries_below low need m" using assms(2) by (intro below_mono) simp
  finally show ?thesis .
qed

locale ladder =
  fixes rung :: "'s \<Rightarrow> nat" and tries :: "'s \<Rightarrow> nat" and low :: nat
  assumes rungs: "rung s = rung s' \<Longrightarrow> tries s = tries s' \<Longrightarrow> s = s'"
begin

lemma total_determines:
  assumes "settled low need (rung s) (tries s)" "settled low need (rung s') (tries s')"
    and "tries_total low need (rung s) (tries s) = tries_total low need (rung s') (tries s')"
  shows "s = s'"
proof -
  have "\<not> rung s < rung s'"
    using total_below [OF assms(1)] assms(3) by (fastforce simp: tries_total_def)
  moreover have "\<not> rung s' < rung s"
    using total_below [OF assms(2)] assms(3) by (fastforce simp: tries_total_def)
  ultimately have "rung s = rung s'" by simp
  moreover from this have "tries s = tries s'"
    using assms(3) by (simp add: tries_total_def)
  ultimately show ?thesis by (rule rungs)
qed

end

interpretation skills: ladder "\<lambda>s :: skill. unat (sk_level s)" "\<lambda>s. unat (sk_tries s)" 10
  by unfold_locales (rule skill.equality, simp_all add: word_unat_eq_iff)

interpretation magics: ladder "\<lambda>m :: magic. unat (magLevel m)" "\<lambda>m. unat (manaSpent m)" 0
  by unfold_locales (rule magic.equality, simp_all add: word_unat_eq_iff)

section \<open>Skills\<close>

definition skill_need :: "(u16 \<Rightarrow> u64) \<Rightarrow> nat \<Rightarrow> nat" where
  "skill_need req c = unat (req (of_nat c))"

abbreviation skill_total :: "(u16 \<Rightarrow> u64) \<Rightarrow> skill \<Rightarrow> nat" where
  "skill_total req s \<equiv> tries_total 10 (skill_need req) (unat (sk_level s)) (unat (sk_tries s))"

abbreviation skill_settled :: "(u16 \<Rightarrow> u64) \<Rightarrow> skill \<Rightarrow> bool" where
  "skill_settled req s \<equiv> settled 10 (skill_need req) (unat (sk_level s)) (unat (sk_tries s))"

definition skill_capped :: "(u16 \<Rightarrow> u64) \<Rightarrow> skill \<Rightarrow> bool" where
  "skill_capped req s \<longleftrightarrow> req (sk_level s) \<ge> req (sk_level s + 1)"

lemma skill_need_next: "unat l < 65535 \<Longrightarrow> skill_need req (Suc (unat l)) = unat (req (l + 1))"
  by (simp add: skill_need_def add.commute)

lemma skill_level_next: "unat (l :: u16) < 65535 \<Longrightarrow> unat (l + 1) = Suc (unat l)"
  by (simp add: unat_word_ariths)

lemma skill_level_max: "unat (l :: u16) \<le> 65535"
  using unsigned_less [of l, where ?'a = nat] by simp

lemma advance_loop_exact:
  assumes "skill_settled req s" "nextReq = req (sk_level s + 1)"
    and "skill_total req s + unat n < 2 ^ 64" "skill_total req s + unat n < tries_below 10 (skill_need req) 65535"
  shows "(skill_settled req (advance_loop req nextReq n s)
          \<and> skill_total req (advance_loop req nextReq n s) = skill_total req s + unat n)
      \<or> (skill_capped req (advance_loop req nextReq n s) \<and> sk_tries (advance_loop req nextReq n s) = 0)"
  using assms
proof (induction req nextReq n s rule: advance_loop.induct)
  case (1 req nextReq n s)
  let ?need = "skill_need req"
  have low: "10 \<le> unat (sk_level s)" using "1.prems"(1) by (simp add: settled_def)
  have below: "unat (sk_level s) < 65535"
  proof (rule ccontr)
    assume "\<not> ?thesis"
    then have "unat (sk_level s) = 65535" using skill_level_max [of "sk_level s"] by simp
    then show False using "1.prems"(4) by (simp add: tries_total_def)
  qed
  note need = skill_need_next [OF below, of req]
  have plus: "unat (sk_tries s + n) = unat (sk_tries s) + unat n"
    using "1.prems"(3) by (simp add: unat_word_ariths tries_total_def)
  have open_try: "unat (sk_tries s) < unat nextReq" using "1.prems"(1,2) need by (simp add: settled_def)
  show ?case
  proof (cases "sk_tries s + n \<ge> nextReq")
    case True
    define n1 where "n1 = n - (nextReq - sk_tries s)"
    define s1 where "s1 = \<lparr>sk_level = sk_level s + 1, sk_tries = 0 :: u64\<rparr>"
    have "unat (nextReq - sk_tries s) = unat nextReq - unat (sk_tries s)"
      using open_try by (simp add: unat_sub word_le_nat_alt)
    moreover have enough: "unat nextReq \<le> unat (sk_tries s) + unat n" using True plus by (simp add: word_le_nat_alt)
    ultimately have n1: "unat n1 + unat nextReq = unat (sk_tries s) + unat n"
      using open_try by (simp add: n1_def unat_sub word_le_nat_alt)
    have lvl: "unat (sk_level s1) = Suc (unat (sk_level s))" using skill_level_next [OF below] by (simp add: s1_def)
    have sum: "skill_total req s1 + unat n1 = skill_total req s + unat n"
      using below_next [OF low, of ?need] n1 need "1.prems"(2) by (simp add: lvl tries_total_def) (simp add: s1_def)
    show ?thesis
    proof (cases "nextReq \<ge> req (sk_level s1 + 1)")
      case top: True
      then have "advance_loop req nextReq n s = s1"
        using True by (simp add: advance_loop.simps [of req nextReq n s] s1_def Let_def)
      then show ?thesis using top "1.prems"(2) by (simp add: skill_capped_def s1_def)
    next
      case False
      then have step: "advance_loop req nextReq n s = advance_loop req (req (sk_level s1 + 1)) n1 s1"
        using True by (simp add: advance_loop.simps [of req nextReq n s] s1_def n1_def Let_def)
      have "unat (sk_level s1) \<noteq> 65535"
        using sum "1.prems"(4) by (auto simp: tries_total_def)
      then have "unat (sk_level s1) < 65535" using skill_level_max [of "sk_level s1"] by simp
      then have "skill_settled req s1"
        using False low lvl skill_need_next [of "sk_level s1" req] by (simp add: settled_def s1_def word_le_nat_alt)
      then show ?thesis
        using "1.IH" [OF True n1_def s1_def refl refl] False step sum "1.prems" by simp
    qed
  next
    case False
    then have "advance_loop req nextReq n s = s\<lparr>sk_tries := sk_tries s + n\<rparr>" by (simp add: advance_loop.simps)
    then show ?thesis
      using False low plus need "1.prems"(2) by (simp add: settled_def tries_total_def word_le_nat_alt not_le)
  qed
qed

text \<open>What may be lost: the tries of no level reach the sign bit of \<open>int32_t\<close>.\<close>

definition small_tries :: "(u16 \<Rightarrow> u64) \<Rightarrow> skill \<Rightarrow> bool" where
  "small_tries req s \<longleftrightarrow> unat (sk_tries s) < 2 ^ 31
     \<and> (\<forall>c \<in> set [11 ..< Suc (unat (sk_level s))]. skill_need req c < 2 ^ 31)"

lemma unat_up: "unat (ucast (x :: u32) :: u64) = unat x"
proof -
  have "unat x < 18446744073709551616" using unsigned_less [of x, where ?'a = nat] by simp
  then show ?thesis by (simp add: unsigned_ucast_eq take_bit_nat_eq_self)
qed

lemma max0_64_small: "unat x < 2 ^ 31 \<Longrightarrow> max0_64 x = x"
proof -
  assume "unat x < 2 ^ 31"
  then have "int (unat x) < int (2 ^ 31)" by (simp only: of_nat_less_iff)
  then have x: "uint x < 2 ^ 31" by simp
  then have low: "uint (ucast x :: u32) = uint x" by (simp add: uint_up_ucast unsigned_ucast_eq take_bit_int_eq_self)
  then have s: "sint (ucast x :: u32) = uint x"
    using x signed_take_bit_int_eq_self [of 31 "uint x"] order_trans [of "- 2147483648" 0 "uint x"] by (simp add: sint_uint)
  then have "scast (ucast x :: u32) = x" by (simp add: scast_eq)
  then show ?thesis using s by (simp add: max0_64_def)
qed

lemma lose_tries_loop_exact:
  assumes "10 \<le> unat (sk_level s)" "small_tries req s"
    and "unat (sk_tries s) < skill_need req (Suc (unat (sk_level s)))
       \<or> unat (sk_tries s) = skill_need req (Suc (unat (sk_level s))) \<and> lost \<noteq> 0"
    and "unat lost \<le> skill_total req s" "lose_tries_loop req lost s = (rest, s1)"
  shows "unat rest \<le> unat (sk_tries s1) \<and> unat (sk_tries s1) < 2 ^ 31 \<and> skill_total req s1 + unat lost = skill_total req s + unat rest
     \<and> 10 \<le> unat (sk_level s1) \<and> unat (sk_tries s1) - unat rest < skill_need req (Suc (unat (sk_level s1)))"
  using assms
proof (induction req lost s rule: lose_tries_loop.induct)
  case (1 req lost s)
  show ?case
  proof (cases "ucast lost > sk_tries s")
    case True
    define lost1 where "lost1 = (ucast (ucast lost - sk_tries s) :: u32)"
    have more_lost: "unat (sk_tries s) < unat lost" using True by (simp add: word_less_nat_alt unat_up)
    then have "unat (ucast lost - sk_tries s) = unat lost - unat (sk_tries s)"
      by (simp add: unat_sub word_le_nat_alt unat_up)
    moreover have "unat lost < 2 ^ 32" using unsigned_less [of lost, where ?'a = nat] by simp
    ultimately have lost1: "unat lost1 = unat lost - unat (sk_tries s)"
      by (simp add: lost1_def unsigned_ucast_eq take_bit_nat_eq_self)
    have not_lowest: "\<not> sk_level s \<le> 10"
    proof
      assume "sk_level s \<le> 10"
      then have "unat (sk_level s) = 10" using "1.prems"(1) by (simp add: word_le_nat_alt)
      then show False using "1.prems"(4) more_lost by (simp add: tries_total_def tries_below_def)
    qed
    define s2 where "s2 = \<lparr>sk_level = sk_level s - 1, sk_tries = req (sk_level s)\<rparr>"
    have up: "10 < unat (sk_level s)" using not_lowest by (simp add: word_le_nat_alt)
    then have lvl: "Suc (unat (sk_level s2)) = unat (sk_level s)"
      by (simp add: s2_def unat_sub word_le_nat_alt)
    have tries: "unat (sk_tries s2) = skill_need req (unat (sk_level s))" by (simp add: s2_def skill_need_def)
    have sum: "skill_total req s = skill_total req s2 + unat (sk_tries s)"
      using below_next [of 10 "unat (sk_level s2)" "skill_need req"] lvl tries up by (simp add: tries_total_def)
    have "small_tries req s2"
      using "1.prems"(2) lvl tries up by (auto simp: small_tries_def)
    moreover have "lost1 \<noteq> 0" using lost1 more_lost by (auto simp: unat_eq_0)
    moreover have "lose_tries_loop req lost1 s2 = (rest, s1)"
      using "1.prems"(5) True not_lowest by (simp add: lose_tries_loop.simps [of req lost s] lost1_def s2_def Let_def)
    moreover have "unat lost1 \<le> skill_total req s2" using sum lost1 more_lost "1.prems"(4) by linarith
    moreover have "10 \<le> unat (sk_level s2)" using up lvl by linarith
    moreover have "unat (sk_tries s2) = skill_need req (Suc (unat (sk_level s2)))" using tries lvl by simp
    ultimately have rest: "unat rest \<le> unat (sk_tries s1)" "unat (sk_tries s1) < 2 ^ 31"
        "skill_total req s1 + unat lost1 = skill_total req s2 + unat rest" "10 \<le> unat (sk_level s1)"
        "unat (sk_tries s1) - unat rest < skill_need req (Suc (unat (sk_level s1)))"
      using "1.IH" [OF True lost1_def not_lowest, folded s2_def] by blast+
    have "skill_total req s1 + unat lost = skill_total req s + unat rest"
      using rest(3) sum lost1 more_lost by linarith
    then show ?thesis using rest by blast
  next
    case False
    then have same: "rest = lost" "s1 = s" using "1.prems"(5) by (simp_all add: lose_tries_loop.simps [of req lost s])
    have "unat lost \<le> unat (sk_tries s)" using False by (simp add: word_less_nat_alt unat_up)
    moreover have "unat lost \<noteq> 0 \<or> lost = 0" by (simp add: unat_eq_0)
    ultimately show ?thesis using same "1.prems"(1,2,3) by (auto simp: small_tries_def)
  qed
qed

lemma lose_skill_exact:
  assumes "skill_settled req s" "small_tries req s" "unat lost \<le> skill_total req s"
  shows "skill_settled req (lose_skill req lost s) \<and> skill_total req (lose_skill req lost s) + unat lost = skill_total req s"
proof -
  obtain rest s1 where l: "lose_tries_loop req lost s = (rest, s1)" by (cases "lose_tries_loop req lost s")
  have e: "unat rest \<le> unat (sk_tries s1)" "unat (sk_tries s1) < 2 ^ 31" "skill_total req s1 + unat lost = skill_total req s + unat rest"
      "10 \<le> unat (sk_level s1)" "unat (sk_tries s1) - unat rest < skill_need req (Suc (unat (sk_level s1)))"
    using lose_tries_loop_exact [OF _ assms(2) _ assms(3) l] assms(1) by (simp_all add: settled_def)
  have u: "unat (sk_tries s1 - ucast rest) = unat (sk_tries s1) - unat rest"
    using e(1) by (simp add: unat_sub word_le_nat_alt unat_up)
  then have "max0_64 (sk_tries s1 - ucast rest) = sk_tries s1 - ucast rest"
    using e(2) by (intro max0_64_small) simp
  then have "lose_skill req lost s = s1\<lparr>sk_tries := sk_tries s1 - ucast rest\<rparr>" by (simp add: lose_skill_def l)
  then show ?thesis using e u by (simp add: settled_def tries_total_def)
qed

text \<open>More than there is cannot be lost: the loop stops at the lowest level.\<close>

lemma lose_tries_loop_all:
  "10 \<le> unat (sk_level s) \<Longrightarrow> skill_total req s < unat lost \<Longrightarrow> lose_tries_loop req lost s = (0, \<lparr>sk_level = 10, sk_tries = 0\<rparr>)"
proof (induction req lost s rule: lose_tries_loop.induct)
  case (1 req lost s)
  have more_lost: "unat (sk_tries s) < unat lost" using "1.prems"(2) by (simp add: tries_total_def)
  then have up: "ucast lost > sk_tries s" by (simp add: word_less_nat_alt unat_up)
  define lost1 where "lost1 = (ucast (ucast lost - sk_tries s) :: u32)"
  have "unat (ucast lost - sk_tries s) = unat lost - unat (sk_tries s)"
    using more_lost by (simp add: unat_sub word_le_nat_alt unat_up)
  moreover have "unat lost < 2 ^ 32" using unsigned_less [of lost, where ?'a = nat] by simp
  ultimately have lost1: "unat lost1 = unat lost - unat (sk_tries s)"
    by (simp add: lost1_def unsigned_ucast_eq take_bit_nat_eq_self)
  show ?case
  proof (cases "sk_level s \<le> 10")
    case True
    then show ?thesis using up by (simp add: lose_tries_loop.simps [of req lost s])
  next
    case False
    define s2 where "s2 = \<lparr>sk_level = sk_level s - 1, sk_tries = req (sk_level s)\<rparr>"
    have "10 < unat (sk_level s)" using False by (simp add: word_le_nat_alt)
    then have lvl: "Suc (unat (sk_level s2)) = unat (sk_level s)" by (simp add: s2_def unat_sub word_le_nat_alt)
    have tries: "unat (sk_tries s2) = skill_need req (unat (sk_level s))" by (simp add: s2_def skill_need_def)
    have low: "10 \<le> unat (sk_level s2)" using \<open>10 < unat (sk_level s)\<close> lvl by linarith
    then have "skill_total req s = skill_total req s2 + unat (sk_tries s)"
      using below_next [of 10 "unat (sk_level s2)" "skill_need req"] lvl tries by (simp add: tries_total_def)
    then have "skill_total req s2 < unat lost1" using lost1 more_lost "1.prems"(2) by linarith
    then have "lose_tries_loop req lost1 s2 = (0, \<lparr>sk_level = 10, sk_tries = 0\<rparr>)"
      using "1.IH" [OF up lost1_def False, folded s2_def] low by blast
    then show ?thesis
      using up False by (simp add: lose_tries_loop.simps [of req lost s] lost1_def s2_def Let_def)
  qed
qed

lemma lose_skill_all:
  "10 \<le> unat (sk_level s) \<Longrightarrow> skill_total req s < unat lost \<Longrightarrow> lose_skill req lost s = \<lparr>sk_level = 10, sk_tries = 0\<rparr>"
  by (simp add: lose_skill_def lose_tries_loop_all max0_64_def)

lemma addSkillAdvance_exact:
  assumes "skill_settled req s" "skill_total req s + unat (scripts n) < 2 ^ 64"
    and "skill_total req s + unat (scripts n) < tries_below 10 (skill_need req) 65535"
  shows "(skill_settled req (addSkillAdvance req scripts n s)
          \<and> skill_total req (addSkillAdvance req scripts n s) = skill_total req s + unat (scripts n))
      \<or> skill_capped req (addSkillAdvance req scripts n s)"
  using advance_loop_exact [OF assms(1) refl assms(2,3)] assms(1)
  by (auto simp: addSkillAdvance_def skill_capped_def Let_def)

text \<open>
  C26. Tries are counted exactly: unless the skill has reached its last level, where what is
  left over is dropped, an advance adds to the sum over all levels what the scripts made of it;
  and if no level of the skill, up to the one reached, needs or holds \<open>2^31\<close> tries or more
  (\<open>many_tries_are_cut\<close>), losing as many tries restores level and tries. The sums must fit
  \<open>uint64_t\<close> and stay below the tries for level 65535.
\<close>
theorem lost_tries_undo_gains:
  assumes "skill_settled req s" "skill_total req s + unat (scripts n) < 2 ^ 64"
    and "skill_total req s + unat (scripts n) < tries_below 10 (skill_need req) 65535"
  shows "skill_capped req (addSkillAdvance req scripts n s)
     \<or> (skill_settled req (addSkillAdvance req scripts n s)
        \<and> skill_total req (addSkillAdvance req scripts n s) = skill_total req s + unat (scripts n)
        \<and> (\<forall>lost. small_tries req (addSkillAdvance req scripts n s) \<and> unat lost = unat (scripts n)
              \<longrightarrow> lose_skill req lost (addSkillAdvance req scripts n s) = s))"
proof -
  define q where "q = addSkillAdvance req scripts n s"
  consider "skill_capped req q" | "skill_settled req q" "skill_total req q = skill_total req s + unat (scripts n)"
    using addSkillAdvance_exact [of req s scripts n, OF assms] q_def by blast
  then show ?thesis unfolding q_def [symmetric]
  proof cases
    case 2
    have "lose_skill req lost q = s" if "small_tries req q" "unat lost = unat (scripts n)" for lost
    proof -
      have "unat lost \<le> skill_total req q" using 2 that by simp
      note lose_skill_exact [OF 2(1) that(1) this]
      then show ?thesis using 2 that by (intro skills.total_determines [OF _ assms(1)]) simp_all
    qed
    then show "skill_capped req q \<or> (skill_settled req q \<and> skill_total req q = skill_total req s + unat (scripts n)
        \<and> (\<forall>lost. small_tries req q \<and> unat lost = unat (scripts n) \<longrightarrow> lose_skill req lost q = s))"
      using 2 by blast
  qed simp
qed

definition easy_req :: "u16 \<Rightarrow> u64" where
  "easy_req c = (if c < 11 then 0 else ucast c * 10)"

definition axe_before :: skill where "axe_before = \<lparr>sk_level = 10, sk_tries = 20\<rparr>"
definition axe_after :: skill where "axe_after = \<lparr>sk_level = 11, sk_tries = 60\<rparr>"

lemma axe_gains: "addSkillAdvance easy_req (\<lambda>n. n) 150 axe_before = axe_after"
  by code_simp

theorem lost_tries_undo_gains_witness:
  "addSkillAdvance easy_req (\<lambda>n. n) 150 axe_before = axe_after \<and> lose_skill easy_req 150 axe_after = axe_before"
proof -
  have s: "skill_settled easy_req axe_before" by (simp add: settled_def skill_need_def easy_req_def axe_before_def)
  have total: "skill_total easy_req axe_before = 20" by (simp add: tries_total_def tries_below_def axe_before_def)
  have "{Suc 10..12} = {11, 12 :: nat}" by auto
  then have "tries_below 10 (skill_need easy_req) 12 = 230"
    by (simp add: tries_below_def skill_need_def easy_req_def)
  then have "230 \<le> tries_below 10 (skill_need easy_req) 65535"
    using below_mono [of 12 65535 10 "skill_need easy_req"] by simp
  then have top: "skill_total easy_req axe_before + unat (150 :: u64) < tries_below 10 (skill_need easy_req) 65535"
    by (simp add: total)
  have capped: "\<not> skill_capped easy_req axe_after" by (simp add: skill_capped_def easy_req_def axe_after_def)
  have small: "small_tries easy_req axe_after"
    by (simp add: small_tries_def easy_req_def axe_after_def skill_need_def)
  have "lose_skill easy_req 150 axe_after = axe_before"
    using lost_tries_undo_gains [of easy_req axe_before "\<lambda>n. n" 150, unfolded axe_gains, OF s _ top] capped small total by simp
  then show ?thesis using axe_gains by simp
qed

text \<open>
  The bound on the tries matters: \<open>std::max<int32_t>\<close> takes tries from two to the power of 31
  on for a negative number, and a death that should cost one try costs all.
\<close>
lemma many_tries_are_cut: "lose_skill easy_req 1 \<lparr>sk_level = 50, sk_tries = 3000000000\<rparr> = \<lparr>sk_level = 50, sk_tries = 0\<rparr>"
  by code_simp

section \<open>Magic level\<close>

definition mana_need :: "(u32 \<Rightarrow> u64) \<Rightarrow> nat \<Rightarrow> nat" where
  "mana_need req c = unat (req (of_nat c))"

abbreviation mana_total :: "(u32 \<Rightarrow> u64) \<Rightarrow> magic \<Rightarrow> nat" where
  "mana_total req m \<equiv> tries_total 0 (mana_need req) (unat (magLevel m)) (unat (manaSpent m))"

abbreviation mana_settled :: "(u32 \<Rightarrow> u64) \<Rightarrow> magic \<Rightarrow> bool" where
  "mana_settled req m \<equiv> settled 0 (mana_need req) (unat (magLevel m)) (unat (manaSpent m))"

definition mana_capped :: "(u32 \<Rightarrow> u64) \<Rightarrow> magic \<Rightarrow> bool" where
  "mana_capped req m \<longleftrightarrow> req (magLevel m) \<ge> req (magLevel m + 1)"

lemma mana_level_max: "unat (l :: u32) \<le> 4294967295"
  using unsigned_less [of l, where ?'a = nat] by simp

lemma mana_level_next: "unat (l :: u32) < 4294967295 \<Longrightarrow> unat (l + 1) = Suc (unat l)"
  by (simp add: unat_word_ariths)

lemma mana_need_next: "mana_need req (Suc (unat l)) = unat (req (l + 1))"
  by (simp add: mana_need_def add.commute)

lemma mana_loop_exact:
  assumes "mana_settled req m" "nextReq = req (magLevel m + 1)"
    and "mana_total req m + unat n < 2 ^ 64" "mana_total req m + unat n < tries_below 0 (mana_need req) 4294967295"
  shows "(mana_settled req (mana_loop req nextReq n m)
          \<and> mana_total req (mana_loop req nextReq n m) = mana_total req m + unat n)
      \<or> (mana_capped req (mana_loop req nextReq n m) \<and> manaSpent (mana_loop req nextReq n m) = 0)"
  using assms
proof (induction req nextReq n m rule: mana_loop.induct)
  case (1 req nextReq n m)
  have below: "unat (magLevel m) < 4294967295"
  proof (rule ccontr)
    assume "\<not> ?thesis"
    then have "unat (magLevel m) = 4294967295" using mana_level_max [of "magLevel m"] by simp
    then show False using "1.prems"(4) by (simp add: tries_total_def)
  qed
  note need = mana_need_next [of req "magLevel m"]
  have plus: "unat (manaSpent m + n) = unat (manaSpent m) + unat n"
    using "1.prems"(3) by (simp add: unat_word_ariths tries_total_def)
  have open_try: "unat (manaSpent m) < unat nextReq" using "1.prems"(1,2) need by (simp add: settled_def)
  show ?case
  proof (cases "manaSpent m + n \<ge> nextReq")
    case True
    define n1 where "n1 = n - (nextReq - manaSpent m)"
    define m1 where "m1 = \<lparr>magLevel = magLevel m + 1, manaSpent = 0 :: u64\<rparr>"
    have "unat (nextReq - manaSpent m) = unat nextReq - unat (manaSpent m)"
      using open_try by (simp add: unat_sub word_le_nat_alt)
    moreover have enough: "unat nextReq \<le> unat (manaSpent m) + unat n" using True plus by (simp add: word_le_nat_alt)
    ultimately have n1: "unat n1 + unat nextReq = unat (manaSpent m) + unat n"
      using open_try by (simp add: n1_def unat_sub word_le_nat_alt)
    have lvl: "unat (magLevel m1) = Suc (unat (magLevel m))" using mana_level_next [OF below] by (simp add: m1_def)
    have sum: "mana_total req m1 + unat n1 = mana_total req m + unat n"
      using below_next [of 0 "unat (magLevel m)" "mana_need req"] n1 need "1.prems"(2)
      by (simp add: lvl tries_total_def) (simp add: m1_def)
    show ?thesis
    proof (cases "nextReq \<ge> req (magLevel m1 + 1)")
      case top: True
      then have "mana_loop req nextReq n m = m1"
        using True by (simp add: mana_loop.simps [of req nextReq n m] m1_def Let_def)
      then show ?thesis using top "1.prems"(2) by (simp add: mana_capped_def m1_def)
    next
      case False
      then have step: "mana_loop req nextReq n m = mana_loop req (req (magLevel m1 + 1)) n1 m1"
        using True by (simp add: mana_loop.simps [of req nextReq n m] m1_def n1_def Let_def)
      have "mana_settled req m1"
        using False lvl mana_need_next [of req "magLevel m1"] by (simp add: settled_def m1_def word_le_nat_alt)
      then show ?thesis
        using "1.IH" [OF True n1_def m1_def refl] False step sum "1.prems" by simp
    qed
  next
    case False
    then have "mana_loop req nextReq n m = m\<lparr>manaSpent := manaSpent m + n\<rparr>" by (simp add: mana_loop.simps)
    then show ?thesis
      using False plus need "1.prems"(2) by (simp add: settled_def tries_total_def word_le_nat_alt not_le)
  qed
qed

lemma lose_mana_loop_exact:
  assumes "unat (manaSpent m) < mana_need req (Suc (unat (magLevel m)))
       \<or> unat (manaSpent m) = mana_need req (Suc (unat (magLevel m))) \<and> lost \<noteq> 0"
    and "unat lost \<le> mana_total req m" "lose_mana_loop req lost m = (rest, m1)"
  shows "unat rest \<le> unat (manaSpent m1) \<and> mana_total req m1 + unat lost = mana_total req m + unat rest
     \<and> unat (manaSpent m1) - unat rest < mana_need req (Suc (unat (magLevel m1)))"
  using assms
proof (induction req lost m rule: lose_mana_loop.induct)
  case (1 req lost m)
  show ?case
  proof (cases "lost > manaSpent m \<and> magLevel m > 0")
    case True
    define m2 where "m2 = \<lparr>magLevel = magLevel m - 1, manaSpent = req (magLevel m)\<rparr>"
    have more_lost: "unat (manaSpent m) < unat lost" using True by (simp add: word_less_nat_alt)
    have lost1: "unat (lost - manaSpent m) = unat lost - unat (manaSpent m)"
      using more_lost by (simp add: unat_sub word_le_nat_alt)
    have up: "0 < unat (magLevel m)" using True by (simp add: word_less_nat_alt)
    then have lvl: "Suc (unat (magLevel m2)) = unat (magLevel m)" by (simp add: m2_def unat_sub word_le_nat_alt)
    have tries: "unat (manaSpent m2) = mana_need req (unat (magLevel m))" by (simp add: m2_def mana_need_def)
    have sum: "mana_total req m = mana_total req m2 + unat (manaSpent m)"
      using below_next [of 0 "unat (magLevel m2)" "mana_need req"] lvl tries by (simp add: tries_total_def)
    have "unat (manaSpent m2) = mana_need req (Suc (unat (magLevel m2)))" using tries lvl by simp
    moreover have "lost - manaSpent m \<noteq> 0" using more_lost by auto
    moreover have "unat (lost - manaSpent m) \<le> mana_total req m2" using sum lost1 more_lost "1.prems"(2) by linarith
    moreover have "lose_mana_loop req (lost - manaSpent m) m2 = (rest, m1)"
      using "1.prems"(3) True by (simp add: lose_mana_loop.simps [of req lost m] m2_def)
    ultimately have rest: "unat rest \<le> unat (manaSpent m1)"
        "mana_total req m1 + unat (lost - manaSpent m) = mana_total req m2 + unat rest"
        "unat (manaSpent m1) - unat rest < mana_need req (Suc (unat (magLevel m1)))"
      using "1.IH" [OF True, folded m2_def] by blast+
    have "mana_total req m1 + unat lost = mana_total req m + unat rest"
      using rest(2) sum lost1 more_lost by linarith
    then show ?thesis using rest by blast
  next
    case False
    then have same: "rest = lost" "m1 = m"
      using "1.prems"(3) by (auto simp: lose_mana_loop.simps [of req lost m] split: if_splits)
    have "unat lost \<le> unat (manaSpent m)"
    proof (cases "magLevel m > 0")
      case True
      then show ?thesis using False by (simp add: word_less_nat_alt)
    next
      case outer: False
      then have "unat (magLevel m) = 0" by (simp add: word_less_nat_alt)
      then show ?thesis using "1.prems"(2) by (simp add: tries_total_def tries_below_def)
    qed
    moreover have "unat lost \<noteq> 0 \<or> lost = 0" by (simp add: unat_eq_0)
    ultimately show ?thesis using same "1.prems"(1) by auto
  qed
qed

lemma lose_magic_exact:
  assumes "mana_settled req m" "unat lost \<le> mana_total req m"
  shows "mana_settled req (lose_magic req lost m) \<and> mana_total req (lose_magic req lost m) + unat lost = mana_total req m"
proof -
  obtain rest m1 where l: "lose_mana_loop req lost m = (rest, m1)" by (cases "lose_mana_loop req lost m")
  have e: "unat rest \<le> unat (manaSpent m1)" "mana_total req m1 + unat lost = mana_total req m + unat rest"
      "unat (manaSpent m1) - unat rest < mana_need req (Suc (unat (magLevel m1)))"
    using lose_mana_loop_exact [OF _ assms(2) l] assms(1) by (simp_all add: settled_def)
  have "unat (manaSpent m1 - rest) = unat (manaSpent m1) - unat rest"
    using e(1) by (simp add: unat_sub word_le_nat_alt)
  moreover have "lose_magic req lost m = m1\<lparr>manaSpent := manaSpent m1 - rest\<rparr>" by (simp add: lose_magic_def l)
  ultimately show ?thesis using e by (simp add: settled_def tries_total_def)
qed

lemma unat_sum_list:
  fixes f :: "nat \<Rightarrow> u64"
  assumes "(\<Sum>c \<leftarrow> cs. unat (f c)) < 2 ^ 64"
  shows "unat (\<Sum>c \<leftarrow> cs. f c) = (\<Sum>c \<leftarrow> cs. unat (f c))"
  using assms
proof (induction cs)
  case (Cons c cs)
  then have "unat (\<Sum>c \<leftarrow> cs. f c) = (\<Sum>c \<leftarrow> cs. unat (f c))" by simp
  then show ?case using Cons.prems by (simp add: unat_word_ariths)
qed simp

lemma sumSkillTries_exact: "skill_total req s < 2 ^ 64 \<Longrightarrow> unat (sumSkillTries req s) = skill_total req s"
proof -
  assume small: "skill_total req s < 2 ^ 64"
  have below: "tries_below 10 (skill_need req) (unat (sk_level s))
      = (\<Sum>c \<leftarrow> [11..<Suc (unat (sk_level s))]. unat (req (of_nat c)))"
    by (simp add: tries_below_def skill_need_def sum_list_distinct_conv_sum_set atLeastLessThanSuc_atLeastAtMost del: upt_Suc)
  then have "unat (\<Sum>c \<leftarrow> [11..<Suc (unat (sk_level s))]. req (of_nat c)) = tries_below 10 (skill_need req) (unat (sk_level s))"
    using small by (subst unat_sum_list) (simp_all add: tries_total_def)
  then show ?thesis using small by (simp add: sumSkillTries_def tries_total_def unat_word_ariths)
qed

lemma sumMana_exact: "mana_total req m < 2 ^ 64 \<Longrightarrow> unat (sumMana req m) = mana_total req m"
proof -
  assume small: "mana_total req m < 2 ^ 64"
  have below: "tries_below 0 (mana_need req) (unat (magLevel m))
      = (\<Sum>i \<leftarrow> [1..<Suc (unat (magLevel m))]. unat (req (of_nat i)))"
    by (simp add: tries_below_def mana_need_def sum_list_distinct_conv_sum_set atLeastLessThanSuc_atLeastAtMost del: upt_Suc)
  then have "unat (\<Sum>i \<leftarrow> [1..<Suc (unat (magLevel m))]. req (of_nat i)) = tries_below 0 (mana_need req) (unat (magLevel m))"
    using small by (subst unat_sum_list) (simp_all add: tries_total_def)
  then show ?thesis using small by (simp add: sumMana_def tries_total_def unat_word_ariths)
qed

text \<open>
  C27. Death takes its share: what the percentage makes of the sum of all tries is what is
  missing from the sum afterwards, or everything if that is less, and the skill is at the level
  that fits (at the lowest, without tries, if all is lost). For the magic level the same holds
  if the share is no more than the sum of all mana, as a percentage up to 100 gives; there is
  no test for more in the code, and the subtraction would wrap. Skill and magic level
  must fit their tries and mana to begin with, the sums must fit \<open>uint64_t\<close>, and no level of
  the skill, up to the one reached, may need or hold \<open>2^31\<close> tries or more: \<open>many_tries_are_cut\<close>.
\<close>
theorem death_takes_its_share:
  assumes "skill_settled req s" "small_tries req s" "skill_total req s < 2 ^ 64"
    and "mana_settled mreq m" "mana_total mreq m < 2 ^ 64"
  shows "skill_total req (die_skill req share s) = skill_total req s - unat (share (of_nat (skill_total req s)))
     \<and> (skill_settled req (die_skill req share s) \<or> die_skill req share s = \<lparr>sk_level = 10, sk_tries = 0\<rparr>)
     \<and> (unat (mana_share (of_nat (mana_total mreq m))) \<le> mana_total mreq m \<longrightarrow>
          mana_settled mreq (die_magic mreq mana_share m)
          \<and> mana_total mreq (die_magic mreq mana_share m) = mana_total mreq m - unat (mana_share (of_nat (mana_total mreq m))))"
proof -
  have s: "unat (sumSkillTries req s) = skill_total req s" and m: "unat (sumMana mreq m) = mana_total mreq m"
    using sumSkillTries_exact [OF assms(3)] sumMana_exact [OF assms(5)] by simp_all
  have back_s: "sumSkillTries req s = of_nat (skill_total req s)" and back_m: "sumMana mreq m = of_nat (mana_total mreq m)"
    unfolding s [symmetric] m [symmetric] by simp_all
  define lost where "lost = share (of_nat (skill_total req s))"
  have skill: "skill_total req (lose_skill req lost s) = skill_total req s - unat lost
      \<and> (skill_settled req (lose_skill req lost s) \<or> lose_skill req lost s = \<lparr>sk_level = 10, sk_tries = 0\<rparr>)"
  proof (cases "unat lost \<le> skill_total req s")
    case True
    from lose_skill_exact [OF assms(1,2) this] show ?thesis by linarith
  next
    case False
    then show ?thesis using lose_skill_all [of s req lost] assms(1) by (simp add: settled_def tries_total_def tries_below_def)
  qed
  have "mana_settled mreq (lose_magic mreq l m) \<and> mana_total mreq (lose_magic mreq l m) = mana_total mreq m - unat l"
    if "unat l \<le> mana_total mreq m" for l
    using lose_magic_exact [OF assms(4) that] by linarith
  then show ?thesis using skill unfolding back_s back_m die_skill_def die_magic_def lost_def by blast
qed

text \<open>
  The mana spent is counted exactly too: spending adds what the scripts made of it (unless
  the magic level has reached its last), a death takes what was lost and never more than there
  is, and losing what was spent restores the magic level.
\<close>
theorem lost_mana_undoes_spending:
  assumes "mana_settled req m" "mana_total req m + unat (scripts n) < 2 ^ 64"
    and "mana_total req m + unat (scripts n) < tries_below 0 (mana_need req) 4294967295"
  shows "mana_capped req (addManaSpent req False scripts n m)
     \<or> (mana_settled req (addManaSpent req False scripts n m)
        \<and> mana_total req (addManaSpent req False scripts n m) = mana_total req m + unat (scripts n)
        \<and> lose_magic req (scripts n) (addManaSpent req False scripts n m) = m)"
proof -
  define q where "q = addManaSpent req False scripts n m"
  have "mana_capped req q \<or> mana_settled req q \<and> mana_total req q = mana_total req m + unat (scripts n)"
    using mana_loop_exact [OF assms(1) refl assms(2,3)] assms(1)
    by (auto simp: addManaSpent_def q_def mana_capped_def Let_def)
  then consider "mana_capped req q" | "mana_settled req q" "mana_total req q = mana_total req m + unat (scripts n)"
    by blast
  then show ?thesis unfolding q_def [symmetric]
  proof cases
    case 2
    then have "unat (scripts n) \<le> mana_total req q" by simp
    note lose_magic_exact [OF 2(1) this]
    then have "lose_magic req (scripts n) q = m"
      using 2 by (intro magics.total_determines [OF _ assms(1)]) simp_all
    then show "mana_capped req q \<or> mana_settled req q \<and> mana_total req q = mana_total req m + unat (scripts n)
        \<and> lose_magic req (scripts n) q = m"
      using 2 by blast
  qed simp
qed

definition easy_mana :: "u32 \<Rightarrow> u64" where "easy_mana c = ucast c * 100"

lemma spending_example:
  "addManaSpent easy_mana False (\<lambda>n. n) 150 \<lparr>magLevel = 0, manaSpent = 20\<rparr> = \<lparr>magLevel = 1, manaSpent = 70\<rparr>"
  by code_simp

theorem lost_mana_undoes_spending_witness:
  "addManaSpent easy_mana False (\<lambda>n. n) 150 \<lparr>magLevel = 0, manaSpent = 20\<rparr> = \<lparr>magLevel = 1, manaSpent = 70\<rparr>
     \<and> lose_magic easy_mana 150 \<lparr>magLevel = 1, manaSpent = 70\<rparr> = \<lparr>magLevel = 0, manaSpent = 20\<rparr>"
proof -
  define m where "m = \<lparr>magLevel = 0 :: u32, manaSpent = 20 :: u64\<rparr>"
  have s: "mana_settled easy_mana m" by (simp add: settled_def mana_need_def easy_mana_def m_def)
  have total: "mana_total easy_mana m = 20" by (simp add: tries_total_def tries_below_def m_def)
  have "{Suc 0..2} = {1, 2 :: nat}" by auto
  then have "tries_below 0 (mana_need easy_mana) 2 = 300" by (simp add: tries_below_def mana_need_def easy_mana_def)
  then have "300 \<le> tries_below 0 (mana_need easy_mana) 4294967295"
    using below_mono [of 2 4294967295 0 "mana_need easy_mana"] by simp
  then have top: "mana_total easy_mana m + unat (150 :: u64) < tries_below 0 (mana_need easy_mana) 4294967295"
    by (simp add: total)
  have gains: "addManaSpent easy_mana False (\<lambda>n. n) 150 m = \<lparr>magLevel = 1, manaSpent = 70\<rparr>"
    using spending_example by (simp add: m_def)
  have "lose_magic easy_mana 150 \<lparr>magLevel = 1, manaSpent = 70\<rparr> = m"
    using lost_mana_undoes_spending [of easy_mana m "\<lambda>n. n" 150, unfolded gains, OF s _ top]
    by (simp add: total mana_capped_def easy_mana_def)
  then show ?thesis using spending_example by (simp add: m_def)
qed

theorem death_takes_its_share_witness:
  "skill_total easy_req (die_skill easy_req (\<lambda>x. ucast (x div 10)) axe_after) = 153
     \<and> mana_total easy_mana (die_magic easy_mana (\<lambda>x. x div 10) \<lparr>magLevel = 1, manaSpent = 70\<rparr>) = 153"
proof -
  define m where "m = \<lparr>magLevel = 1 :: u32, manaSpent = 70 :: u64\<rparr>"
  have totals: "skill_total easy_req axe_after = 170" "mana_total easy_mana m = 170"
    by (simp_all add: tries_total_def tries_below_def axe_after_def m_def skill_need_def easy_req_def mana_need_def easy_mana_def)
  have "skill_settled easy_req axe_after" "small_tries easy_req axe_after" "mana_settled easy_mana m"
    by (simp_all add: settled_def small_tries_def axe_after_def m_def skill_need_def easy_req_def mana_need_def easy_mana_def)
  then show ?thesis
    using death_takes_its_share [of easy_req axe_after easy_mana m "\<lambda>x. ucast (x div 10)" "\<lambda>x. x div 10"]
    by (simp add: totals m_def [symmetric])
qed

end
