(* ===== verification/Sight_Line.thy ===== *)
theory Sight_Line
  imports Map_Position
begin

text \<open>
  What can be seen and where one can throw (src/src/map/map.cpp: \<open>getTile\<close>, \<open>canThrowObjectTo\<close>,
  \<open>checkSightLine\<close>, \<open>isSightClear\<close>). The map is a function from positions to what these routines
  ask of a tile; loading and caching of sectors is not part of it. Coordinates and the
  accumulator of the line algorithm keep their width of 16 bits.
\<close>

section \<open>Tiles\<close>

record tile_view =
  tv_ground :: bool
  tv_blockProjectile :: bool
  tv_creature :: bool
  tv_field :: "u8 option"

type_synonym world = "position \<Rightarrow> tile_view option"

definition MAP_MAX_LAYERS :: u8 where "MAP_MAX_LAYERS = 16"
definition MAP_INIT_SURFACE_LAYER :: u8 where "MAP_INIT_SURFACE_LAYER = 7"
definition MAP_LAYER_VIEW_LIMIT :: int where "MAP_LAYER_VIEW_LIMIT = 2"

definition getTile :: "world \<Rightarrow> position \<Rightarrow> tile_view option" where
  "getTile w p = (if pos_x p = 0 \<and> pos_y p = 0 \<and> pos_z p = 0 then None
     else if pos_z p \<ge> MAP_MAX_LAYERS then None else w p)"

definition blocks :: "world \<Rightarrow> position \<Rightarrow> bool" where
  "blocks w p = (case getTile w p of None \<Rightarrow> False | Some t \<Rightarrow> tv_blockProjectile t)"

section \<open>The line\<close>

text \<open>The loops run one time less than the distance.\<close>

fun horizontal :: "world \<Rightarrow> u16 \<Rightarrow> nat \<Rightarrow> position \<Rightarrow> bool" where
  "horizontal w delta 0 start = True"
| "horizontal w delta (Suc n) (Position x y z) =
     (if blocks w (Position (x + delta) y z) then False else horizontal w delta n (Position (x + delta) y z))"

fun vertical :: "world \<Rightarrow> u16 \<Rightarrow> nat \<Rightarrow> position \<Rightarrow> bool" where
  "vertical w delta 0 start = True"
| "vertical w delta (Suc n) (Position x y z) =
     (if blocks w (Position x (y + delta) z) then False else vertical w delta n (Position x (y + delta) z))"

definition increase :: "u16 \<Rightarrow> u16 \<Rightarrow> u16 \<Rightarrow> u16" where
  "increase eAdj delta eAcc = (if eAcc + eAdj \<le> eAcc then delta else 0)"

fun steep :: "world \<Rightarrow> u16 \<Rightarrow> u16 \<Rightarrow> nat \<Rightarrow> u16 \<Rightarrow> position \<Rightarrow> position \<Rightarrow> bool" where
  "steep w eAdj deltaX 0 eAcc start destination = True"
| "steep w eAdj deltaX (Suc n) eAcc (Position x y z) destination =
     (let next = Position (x + increase eAdj deltaX eAcc) (y + 1) z
      in if blocks w next then areInRange2 1 1 (Position x y z) destination
         else steep w eAdj deltaX n (eAcc + eAdj) next destination)"

fun flat :: "world \<Rightarrow> u16 \<Rightarrow> u16 \<Rightarrow> nat \<Rightarrow> u16 \<Rightarrow> position \<Rightarrow> position \<Rightarrow> bool" where
  "flat w eAdj deltaY 0 eAcc start destination = True"
| "flat w eAdj deltaY (Suc n) eAcc (Position x y z) destination =
     (let next = Position (x + 1) (y + increase eAdj deltaY eAcc) z
      in if blocks w next then areInRange2 1 1 (Position x y z) destination
         else flat w eAdj deltaY n (eAcc + eAdj) next destination)"

definition slope :: "int \<Rightarrow> int \<Rightarrow> u16" where
  "slope short long = ucast (push_bit 16 (of_int short :: u32) div of_int long)"

text \<open>\<open>std::swap\<close> of both coordinates; the floor of the start stays.\<close>

definition exchange :: "position \<Rightarrow> position \<Rightarrow> position \<times> position" where
  "exchange s d = (Position (pos_x d) (pos_y d) (pos_z s), Position (pos_x s) (pos_y s) (pos_z d))"

definition checkSightLine :: "world \<Rightarrow> position \<Rightarrow> position \<Rightarrow> bool" where
  "checkSightLine w start destination =
     (let distanceX = getDistanceX start destination; distanceY = getDistanceY start destination
      in if pos_x start = pos_x destination \<and> pos_y start = pos_y destination then True
      else if pos_y start = pos_y destination
      then horizontal w (if pos_x start < pos_x destination then 1 else 0xFFFF) (nat (distanceX - 1)) start
      else if pos_x start = pos_x destination
      then vertical w (if pos_y start < pos_y destination then 1 else 0xFFFF) (nat (distanceY - 1)) start
      else if distanceY > distanceX then
        (let eAdj = slope distanceX distanceY;
             (s, d) = (if pos_y start > pos_y destination then exchange start destination else (start, destination));
             (deltaX, eAcc) = (if pos_x s > pos_x d then (0xFFFF, - eAdj) else (1, 0))
         in steep w eAdj deltaX (nat (distanceY - 1)) eAcc s d)
      else
        (let eAdj = slope distanceY distanceX;
             (s, d) = (if pos_x start > pos_x destination then exchange start destination else (start, destination));
             (deltaY, eAcc) = (if pos_y s > pos_y d then (0xFFFF, - eAdj) else (1, 0))
         in flat w eAdj deltaY (nat (distanceX - 1)) eAcc s d))"

section \<open>Floors\<close>

definition opaque :: "world \<Rightarrow> position \<Rightarrow> bool" where
  "opaque w p = (case getTile w p of None \<Rightarrow> False | Some t \<Rightarrow> tv_ground t \<or> tv_blockProjectile t)"

function jump_floors :: "world \<Rightarrow> position \<Rightarrow> u8 \<Rightarrow> bool" where
  "jump_floors w toPos startZ =
     (if startZ = pos_z toPos then True
      else if opaque w (Position (pos_x toPos) (pos_y toPos) startZ) then False
      else jump_floors w toPos (startZ + 1))"
  by auto
termination
proof (relation "measure (\<lambda>(w, toPos, startZ). unat (pos_z toPos - startZ))")
  fix w :: world and toPos :: position and startZ :: u8
  assume "startZ \<noteq> pos_z toPos"
  then have "pos_z toPos - startZ \<noteq> 0" by simp
  then have "unat (pos_z toPos - startZ - 1) < unat (pos_z toPos - startZ)" by (rule measure_unat)
  then show "((w, toPos, startZ + 1), w, toPos, startZ) \<in> measure (\<lambda>(w, toPos, startZ). unat (pos_z toPos - startZ))"
    by (simp add: diff_diff_eq)
qed simp

declare jump_floors.simps [simp del]

definition isSightClear :: "world \<Rightarrow> position \<Rightarrow> position \<Rightarrow> bool \<Rightarrow> bool" where
  "isSightClear w fromPos toPos floorCheck =
     (if floorCheck \<and> pos_z fromPos \<noteq> pos_z toPos then False
      else if pos_z fromPos = pos_z toPos
              \<and> (areInRange2 1 1 fromPos toPos \<or> (\<not> floorCheck \<and> pos_z fromPos = 0)) then True
      else if pos_z fromPos > pos_z toPos \<and> getDistanceZ fromPos toPos > 1 then False
      else let sightClear = checkSightLine w fromPos toPos
        in if floorCheck \<or> (pos_z fromPos = pos_z toPos \<and> sightClear) then sightClear
        else if sightClear \<and> (pos_z fromPos < pos_z toPos \<or> pos_z fromPos = pos_z toPos)
        then jump_floors w toPos (pos_z fromPos)
        else if opaque w (Position (pos_x fromPos) (pos_y fromPos) (pos_z fromPos - 1))
              \<or> \<not> checkSightLine w (Position (pos_x fromPos) (pos_y fromPos) (pos_z fromPos - 1))
                    (Position (pos_x toPos) (pos_y toPos) (pos_z toPos - 1)) then False
        else if pos_z fromPos > pos_z toPos then True
        else jump_floors w toPos (pos_z fromPos - 1))"

datatype sight_lines = SightLine_NoCheck | SightLine_CheckSightLine | SightLine_FloorCheck | SightLine_CheckSightLineAndFloor

definition checks_line :: "sight_lines \<Rightarrow> bool" where
  "checks_line l = (l = SightLine_CheckSightLine \<or> l = SightLine_CheckSightLineAndFloor)"

definition checks_floor :: "sight_lines \<Rightarrow> bool" where
  "checks_floor l = (l = SightLine_FloorCheck \<or> l = SightLine_CheckSightLineAndFloor)"

definition canThrowObjectTo :: "world \<Rightarrow> position \<Rightarrow> position \<Rightarrow> sight_lines \<Rightarrow> int \<Rightarrow> int \<Rightarrow> bool" where
  "canThrowObjectTo w fromPos toPos lineOfSight rangex rangey =
     (if (pos_z fromPos \<ge> 8 \<and> pos_z toPos \<le> MAP_INIT_SURFACE_LAYER)
          \<or> (pos_z toPos \<ge> MAP_INIT_SURFACE_LAYER + 1 \<and> pos_z fromPos \<le> MAP_INIT_SURFACE_LAYER) then False
      else let deltaz = getDistanceZ fromPos toPos
        in if deltaz > MAP_LAYER_VIEW_LIMIT then False
        else if getDistanceX fromPos toPos - deltaz > rangex then False
        else if getDistanceY fromPos toPos - deltaz > rangey then False
        else if \<not> checks_line lineOfSight then True
        else isSightClear w fromPos toPos (checks_floor lineOfSight))"

end
