(* ===== verification/Sight_Safety.thy ===== *)
theory Sight_Safety
  imports Sight_Line
begin

text \<open>
  What the line of sight promises: the tiles it asks are a chain from one end to the other, it
  is clear exactly when none of them blocks, and on one floor whoever sees can be seen: sight,
  and with it throwing, is symmetric.
\<close>

section \<open>The tiles of a line\<close>

fun steep_tiles :: "u16 \<Rightarrow> u16 \<Rightarrow> nat \<Rightarrow> u16 \<Rightarrow> position \<Rightarrow> position list" where
  "steep_tiles eAdj deltaX 0 eAcc p = []"
| "steep_tiles eAdj deltaX (Suc n) eAcc (Position x y z) =
     (let next = Position (x + increase eAdj deltaX eAcc) (y + 1) z in next # steep_tiles eAdj deltaX n (eAcc + eAdj) next)"

fun flat_tiles :: "u16 \<Rightarrow> u16 \<Rightarrow> nat \<Rightarrow> u16 \<Rightarrow> position \<Rightarrow> position list" where
  "flat_tiles eAdj deltaY 0 eAcc p = []"
| "flat_tiles eAdj deltaY (Suc n) eAcc (Position x y z) =
     (let next = Position (x + 1) (y + increase eAdj deltaY eAcc) z in next # flat_tiles eAdj deltaY n (eAcc + eAdj) next)"

definition straight_tiles :: "u16 \<Rightarrow> u16 \<Rightarrow> nat \<Rightarrow> position \<Rightarrow> position list" where
  "straight_tiles dx dy n p = map (\<lambda>k. Position (pos_x p + of_nat k * dx) (pos_y p + of_nat k * dy) (pos_z p)) [1..<Suc n]"

text \<open>The ends in the order in which the algorithm walks, and the tiles strictly between them.\<close>

definition line_ends :: "position \<Rightarrow> position \<Rightarrow> position \<times> position" where
  "line_ends s d = (if getDistanceY s d > getDistanceX s d
     then (if pos_y s > pos_y d then exchange s d else (s, d))
     else (if pos_x s > pos_x d then exchange s d else (s, d)))"

definition line_tiles :: "position \<Rightarrow> position \<Rightarrow> position list" where
  "line_tiles s d =
     (case line_ends s d of (a, b) \<Rightarrow>
       if getDistanceX s d = 0 then straight_tiles 0 1 (nat (getDistanceY s d - 1)) a
       else if getDistanceY s d = 0 then straight_tiles 1 0 (nat (getDistanceX s d - 1)) a
       else if getDistanceY s d > getDistanceX s d then
         (let e = slope (getDistanceX s d) (getDistanceY s d)
          in steep_tiles e (if pos_x a > pos_x b then 0xFFFF else 1) (nat (getDistanceY s d - 1)) (if pos_x a > pos_x b then - e else 0) a)
       else
         (let e = slope (getDistanceY s d) (getDistanceX s d)
          in flat_tiles e (if pos_y a > pos_y b then 0xFFFF else 1) (nat (getDistanceX s d - 1)) (if pos_y a > pos_y b then - e else 0) a))"

lemma horizontal_tiles: "horizontal w dx n p \<longleftrightarrow> (\<forall>q \<in> set (straight_tiles dx 0 n p). \<not> blocks w q)"
proof (induction w dx n p rule: horizontal.induct)
  case (2 w delta n x y z)
  have "[1..<Suc (Suc n)] = 1 # map Suc [1..<Suc n]" by (simp add: map_Suc_upt upt_conv_Cons del: upt_Suc)
  then have "straight_tiles delta 0 (Suc n) (Position x y z)
      = Position (x + delta) y z # straight_tiles delta 0 n (Position (x + delta) y z)"
    by (simp add: straight_tiles_def algebra_simps del: upt_Suc)
  then show ?case using 2 by simp
qed (simp add: straight_tiles_def)

lemma vertical_tiles: "vertical w dy n p \<longleftrightarrow> (\<forall>q \<in> set (straight_tiles 0 dy n p). \<not> blocks w q)"
proof (induction w dy n p rule: vertical.induct)
  case (2 w delta n x y z)
  have "[1..<Suc (Suc n)] = 1 # map Suc [1..<Suc n]" by (simp add: map_Suc_upt upt_conv_Cons del: upt_Suc)
  then have "straight_tiles 0 delta (Suc n) (Position x y z)
      = Position x (y + delta) z # straight_tiles 0 delta n (Position x (y + delta) z)"
    by (simp add: straight_tiles_def algebra_simps del: upt_Suc)
  then show ?case using 2 by simp
qed (simp add: straight_tiles_def)

text \<open>Walking from the other end visits the same tiles.\<close>

lemma straight_backwards:
  assumes "q = Position (pos_x p + of_nat (Suc n) * dx) (pos_y p + of_nat (Suc n) * dy) (pos_z p)"
  shows "set (straight_tiles (- dx) (- dy) n q) = set (straight_tiles dx dy n p)"
proof -
  have flip: "of_nat (Suc n) * e - of_nat k * e = of_nat (Suc n - k) * e" if "k \<le> n" for k and e :: u16
    using that by (simp add: of_nat_diff algebra_simps)
  have "(\<lambda>k. Position (pos_x p + of_nat (Suc n - k) * dx) (pos_y p + of_nat (Suc n - k) * dy) (pos_z p)) ` {1..<Suc n}
      = (\<lambda>k. Position (pos_x p + of_nat k * dx) (pos_y p + of_nat k * dy) (pos_z p)) ` {1..<Suc n}" (is "?a ` _ = ?b ` _")
  proof -
    have "k \<in> (\<lambda>k. Suc n - k) ` {1..<Suc n}" if "k \<in> {1..<Suc n}" for k
      using that by (intro image_eqI [of _ _ "Suc n - k"]) auto
    then have "(\<lambda>k. Suc n - k) ` {1..<Suc n} = {1..<Suc n}" by auto
    then show ?thesis by (metis (no_types, lifting) image_cong image_image)
  qed
  moreover have "(\<lambda>k. Position (pos_x q + of_nat k * - dx) (pos_y q + of_nat k * - dy) (pos_z q)) ` {1..<Suc n} = ?a ` {1..<Suc n}"
  proof (rule image_cong [OF refl])
    fix k assume "k \<in> {1..<Suc n}"
    then have k: "k \<le> n" by simp
    show "Position (pos_x q + of_nat k * - dx) (pos_y q + of_nat k * - dy) (pos_z q) = ?a k"
      using flip [OF k, of dx] flip [OF k, of dy] unfolding assms
      by (simp add: algebra_simps)
  qed
  ultimately show ?thesis by (simp add: straight_tiles_def del: upt_Suc)
qed

text \<open>Where the code lets an obstacle next to the destination pass, the destination is out of range.\<close>

lemma steep_tiles_clear:
  assumes "uint (pos_y d) = uint (pos_y p) + int n + 1"
  shows "steep w e dx n acc p d \<longleftrightarrow> (\<forall>q \<in> set (steep_tiles e dx n acc p). \<not> blocks w q)"
  using assms
proof (induction w e dx n acc p d rule: steep.induct)
  case (2 w e dx n acc x y z d)
  have y: "uint (y + 1) = uint y + 1"
    using "2.prems" unsigned_less [of "pos_y d", where ?'a = int] by (simp add: uint_plus_if')
  have "\<not> areInRange2 1 1 (Position x y z) d"
    using "2.prems" by (simp add: areInRange2_def distance_defs)
  then show ?case using 2 y by (simp add: Let_def)
qed simp

lemma flat_tiles_clear:
  assumes "uint (pos_x d) = uint (pos_x p) + int n + 1"
  shows "flat w e dy n acc p d \<longleftrightarrow> (\<forall>q \<in> set (flat_tiles e dy n acc p). \<not> blocks w q)"
  using assms
proof (induction w e dy n acc p d rule: flat.induct)
  case (2 w e dy n acc x y z d)
  have x: "uint (x + 1) = uint x + 1"
    using "2.prems" unsigned_less [of "pos_x d", where ?'a = int] by (simp add: uint_plus_if')
  have "\<not> areInRange2 1 1 (Position x y z) d"
    using "2.prems" by (simp add: areInRange2_def distance_defs)
  then show ?case using 2 x by (simp add: Let_def)
qed simp

lemma exchange_exchange: "pos_z s = pos_z d \<Longrightarrow> exchange s d = (d, s)"
  by (cases s; cases d) (simp add: exchange_def)

lemma line_ends_sym:
  assumes "pos_z s = pos_z d" "s \<noteq> d"
  shows "line_ends d s = line_ends s d"
proof -
  have "pos_x s = pos_x d \<Longrightarrow> pos_y s \<noteq> pos_y d" using assms by (cases s; cases d) auto
  then show ?thesis
    using assms(1) exchange_exchange [of s d] exchange_exchange [of d s]
    by (auto simp: line_ends_def distance_sym [of s d] distance_defs not_less word_le_def word_less_def word_uint_eq_iff)
qed

lemma distance_zero: "getDistanceX s d = 0 \<longleftrightarrow> pos_x s = pos_x d" "getDistanceY s d = 0 \<longleftrightarrow> pos_y s = pos_y d"
  by (simp_all add: distance_defs word_uint_eq_iff)

lemma minus_one16: "(0xFFFF :: u16) = - 1"
  by simp

lemma horizontal_line:
  assumes "pos_y s = pos_y d" "pos_x s \<noteq> pos_x d" "pos_z s = pos_z d"
  shows "checkSightLine w s d \<longleftrightarrow> (\<forall>q \<in> set (line_tiles s d). \<not> blocks w q)"
proof (cases "pos_x s < pos_x d")
  case True
  then have "line_tiles s d = straight_tiles 1 0 (nat (getDistanceX s d - 1)) s"
    using assms by (simp add: line_tiles_def line_ends_def distance_zero word_less_def)
  then show ?thesis using True assms by (simp add: checkSightLine_def horizontal_tiles Let_def)
next
  case False
  define n where "n = nat (getDistanceX s d - 1)"
  have level: "\<not> getDistanceX s d < getDistanceY s d" using assms(1) by (simp add: distance_defs)
  have less: "pos_x d < pos_x s" using False assms(2) by simp
  then have "uint (pos_x s) = uint (pos_x d) + int (Suc n)"
    by (simp add: n_def distance_defs word_less_def)
  then have "pos_x s = pos_x d + of_nat (Suc n)"
    by (metis of_int_add of_int_of_nat_eq word_of_int_uint)
  then have "s = Position (pos_x d + of_nat (Suc n) * 1) (pos_y d + of_nat (Suc n) * 0) (pos_z d)"
    using assms by (cases s) simp
  then have "set (straight_tiles (- 1) (- 0) n s) = set (straight_tiles 1 0 n d)" by (rule straight_backwards)
  moreover have "line_tiles s d = straight_tiles 1 0 n d"
    using assms less level exchange_exchange [of s d]
    by (simp add: line_tiles_def line_ends_def distance_zero word_less_def n_def)
  moreover have "checkSightLine w s d = horizontal w 0xFFFF n s"
    using False assms by (simp add: checkSightLine_def n_def Let_def)
  ultimately show ?thesis by (simp add: horizontal_tiles minus_one16)
qed

lemma vertical_line:
  assumes "pos_x s = pos_x d" "pos_y s \<noteq> pos_y d" "pos_z s = pos_z d"
  shows "checkSightLine w s d \<longleftrightarrow> (\<forall>q \<in> set (line_tiles s d). \<not> blocks w q)"
proof -
  have far: "getDistanceX s d < getDistanceY s d" "getDistanceX s d = 0"
    using assms(1,2) by (simp_all add: distance_defs word_uint_eq_iff)
  show ?thesis
  proof (cases "pos_y s < pos_y d")
    case True
    then have "line_tiles s d = straight_tiles 0 1 (nat (getDistanceY s d - 1)) s"
      using far by (simp add: line_tiles_def line_ends_def word_less_def)
    then show ?thesis using True assms by (simp add: checkSightLine_def vertical_tiles Let_def)
  next
    case False
    define n where "n = nat (getDistanceY s d - 1)"
    have less: "pos_y d < pos_y s" using False assms(2) by simp
    then have "uint (pos_y s) = uint (pos_y d) + int (Suc n)"
      by (simp add: n_def distance_defs word_less_def)
    then have "pos_y s = pos_y d + of_nat (Suc n)"
      by (metis of_int_add of_int_of_nat_eq word_of_int_uint)
    then have "s = Position (pos_x d + of_nat (Suc n) * 0) (pos_y d + of_nat (Suc n) * 1) (pos_z d)"
      using assms by (cases s) simp
    then have "set (straight_tiles (- 0) (- 1) n s) = set (straight_tiles 0 1 n d)" by (rule straight_backwards)
    moreover have "line_tiles s d = straight_tiles 0 1 n d"
      using assms less far exchange_exchange [of s d] by (simp add: line_tiles_def line_ends_def word_less_def n_def)
    moreover have "checkSightLine w s d = vertical w 0xFFFF n s"
      using False assms by (simp add: checkSightLine_def n_def Let_def)
    ultimately show ?thesis by (simp add: vertical_tiles minus_one16)
  qed
qed

lemma steep_line:
  assumes "getDistanceY s d > getDistanceX s d" "getDistanceX s d \<noteq> 0" "pos_z s = pos_z d"
  shows "checkSightLine w s d \<longleftrightarrow> (\<forall>q \<in> set (line_tiles s d). \<not> blocks w q)"
proof -
  obtain a b where ab: "line_ends s d = (a, b)" by (cases "line_ends s d")
  define n where "n = nat (getDistanceY s d - 1)"
  define e where "e = slope (getDistanceX s d) (getDistanceY s d)"
  define dx where "dx = (if pos_x a > pos_x b then 0xFFFF else 1 :: u16)"
  define acc where "acc = (if pos_x a > pos_x b then - e else 0)"
  have pos: "pos_x s \<noteq> pos_x d" "pos_y s \<noteq> pos_y d"
    using assms by (auto simp: distance_defs)
  have "line_tiles s d = steep_tiles e dx n acc a"
    using assms pos ab by (simp add: line_tiles_def distance_zero Let_def e_def n_def dx_def acc_def)
  moreover have "checkSightLine w s d = steep w e dx n acc a b"
    using assms pos ab
    by (auto simp: checkSightLine_def line_ends_def Let_def e_def n_def dx_def acc_def split: if_splits)
  moreover have "uint (pos_y b) = uint (pos_y a) + int n + 1"
    using ab pos assms by (auto simp: line_ends_def n_def exchange_def distance_defs word_less_def word_uint_eq_iff split: if_splits)
  ultimately show ?thesis by (simp add: steep_tiles_clear)
qed

lemma flat_line:
  assumes "\<not> getDistanceY s d > getDistanceX s d" "getDistanceY s d \<noteq> 0" "pos_z s = pos_z d"
  shows "checkSightLine w s d \<longleftrightarrow> (\<forall>q \<in> set (line_tiles s d). \<not> blocks w q)"
proof -
  obtain a b where ab: "line_ends s d = (a, b)" by (cases "line_ends s d")
  define n where "n = nat (getDistanceX s d - 1)"
  define e where "e = slope (getDistanceY s d) (getDistanceX s d)"
  define dy where "dy = (if pos_y a > pos_y b then 0xFFFF else 1 :: u16)"
  define acc where "acc = (if pos_y a > pos_y b then - e else 0)"
  have pos: "pos_x s \<noteq> pos_x d" "pos_y s \<noteq> pos_y d"
    using assms by (auto simp: distance_defs)
  have "line_tiles s d = flat_tiles e dy n acc a"
    using assms pos ab by (simp add: line_tiles_def distance_zero Let_def e_def n_def dy_def acc_def)
  moreover have "checkSightLine w s d = flat w e dy n acc a b"
    using assms pos ab
    by (auto simp: checkSightLine_def line_ends_def Let_def e_def n_def dy_def acc_def split: if_splits)
  moreover have "uint (pos_x b) = uint (pos_x a) + int n + 1"
    using ab pos assms by (auto simp: line_ends_def n_def exchange_def distance_defs word_less_def word_uint_eq_iff split: if_splits)
  ultimately show ?thesis by (simp add: flat_tiles_clear)
qed

lemma checkSightLine_tiles:
  assumes "pos_z s = pos_z d"
  shows "checkSightLine w s d \<longleftrightarrow> (\<forall>q \<in> set (line_tiles s d). \<not> blocks w q)"
proof -
  consider "s = d" | "pos_y s = pos_y d" "pos_x s \<noteq> pos_x d" | "pos_x s = pos_x d" "pos_y s \<noteq> pos_y d"
    | "pos_x s \<noteq> pos_x d" "pos_y s \<noteq> pos_y d"
    using assms by (cases s; cases d) auto
  then show ?thesis
  proof cases
    case 1
    then show ?thesis by (simp add: checkSightLine_def line_tiles_def straight_tiles_def split: prod.splits)
  next
    case 4
    then show ?thesis using steep_line [of s d w] flat_line [of s d w] assms by (auto simp: distance_zero)
  next
    case 2
    then show ?thesis using horizontal_line assms by blast
  next
    case 3
    then show ?thesis using vertical_line assms by blast
  qed
qed

lemma line_tiles_sym:
  assumes "pos_z s = pos_z d"
  shows "line_tiles d s = line_tiles s d"
proof (cases "s = d")
  case False
  then show ?thesis
    using line_ends_sym [OF assms False] by (simp add: line_tiles_def distance_sym [of d s] cong: if_cong)
qed simp

lemma checkSightLine_sym: "pos_z s = pos_z d \<Longrightarrow> checkSightLine w d s = checkSightLine w s d"
  by (simp add: checkSightLine_tiles line_tiles_sym)

section \<open>The line is a chain\<close>

definition touching :: "position \<Rightarrow> position \<Rightarrow> bool" where
  "touching p q \<longleftrightarrow> pos_x q - pos_x p \<in> {0, 1, - 1} \<and> pos_y q - pos_y p \<in> {0, 1, - 1} \<and> pos_z q = pos_z p"

text \<open>The number of steps among the first \<open>k\<close> in which the short side moves.\<close>

definition moves :: "u16 \<Rightarrow> u16 \<Rightarrow> nat \<Rightarrow> nat" where
  "moves e acc k = (unat acc + k * unat e) div 65536"

lemma moves_0 [simp]: "moves e acc 0 = 0"
  using unsigned_less [of acc, where ?'a = nat] by (simp add: moves_def)

lemma moves_step:
  assumes "e \<noteq> 0"
  shows "moves e acc (Suc k) = (if acc + e \<le> acc then 1 else 0) + moves e (acc + e) k"
proof -
  have small: "unat acc < 65536" "unat e < 65536" "0 < unat e"
    using unsigned_less [of acc, where ?'a = nat] unsigned_less [of e, where ?'a = nat] assms by (simp_all add: unat_gt_0)
  have sum: "unat (acc + e) = (unat acc + unat e) mod 65536" by (simp add: unat_word_ariths)
  show ?thesis
  proof (cases "unat acc + unat e < 65536")
    case True
    then have "\<not> acc + e \<le> acc" using sum small by (simp add: word_le_nat_alt)
    then show ?thesis using True sum by (simp add: moves_def algebra_simps)
  next
    case False
    then have "unat (acc + e) = unat acc + unat e - 65536" using sum small by (simp add: mod_if)
    moreover from this have "acc + e \<le> acc" using small by (simp add: word_le_nat_alt)
    moreover have "(unat acc + Suc k * unat e) = 65536 + (unat acc + unat e - 65536 + k * unat e)" using False by simp
    ultimately show ?thesis by (simp add: moves_def)
  qed
qed

definition moves_in :: "u16 \<Rightarrow> u16 \<Rightarrow> nat \<Rightarrow> nat" where
  "moves_in e acc k = (if e = 0 then k else moves e acc k)"

lemma moves_in_step: "moves_in e acc (Suc k) = (if acc + e \<le> acc then 1 else 0) + moves_in e (acc + e) k"
  by (simp add: moves_in_def moves_step)

lemma moves_in_0 [simp]: "moves_in e acc 0 = 0"
  by (simp add: moves_in_def)

lemma steep_tiles_last:
  "last (p # steep_tiles e dx n acc p) = Position (pos_x p + of_nat (moves_in e acc n) * dx) (pos_y p + of_nat n) (pos_z p)"
proof (induction e dx n acc p rule: steep_tiles.induct)
  case (2 e dx n acc x y z)
  define q where "q = Position (x + increase e dx acc) (y + 1) z"
  have "last (Position x y z # steep_tiles e dx (Suc n) acc (Position x y z)) = last (q # steep_tiles e dx n (acc + e) q)"
    by (simp add: q_def Let_def)
  also have "\<dots> = Position (pos_x q + of_nat (moves_in e (acc + e) n) * dx) (pos_y q + of_nat n) (pos_z q)"
    using 2 [OF q_def] .
  finally show ?case by (simp add: q_def moves_in_step increase_def algebra_simps)
qed simp

lemma steep_tiles_chain:
  assumes "dx \<in> {1, - 1}"
  shows "successively touching (p # steep_tiles e dx n acc p)"
  using assms
proof (induction e dx n acc p rule: steep_tiles.induct)
  case (2 e dx n acc x y z)
  then show ?case by (auto simp: Let_def touching_def increase_def successively_Cons)
qed simp

lemma steep_tiles_length: "length (steep_tiles e dx n acc p) = n"
  by (induction e dx n acc p rule: steep_tiles.induct) (simp_all add: Let_def)

text \<open>A flat line is a steep one with the axes exchanged.\<close>

definition transpose_pos :: "position \<Rightarrow> position" where
  "transpose_pos p = Position (pos_y p) (pos_x p) (pos_z p)"

lemma transpose_transpose [simp]: "transpose_pos (transpose_pos p) = p"
  by (cases p) (simp add: transpose_pos_def)

lemma touching_transpose [simp]: "touching (transpose_pos p) (transpose_pos q) = touching p q"
  by (auto simp: touching_def transpose_pos_def)

lemma flat_tiles_steep: "flat_tiles e dy n acc p = map transpose_pos (steep_tiles e dy n acc (transpose_pos p))"
  by (induction e dy n acc p rule: flat_tiles.induct) (simp_all add: Let_def transpose_pos_def)

lemma slope_value:
  assumes "1 \<le> m" "m \<le> n" "n \<le> (256 :: nat)"
  shows "unat (slope (int m) (int n)) = (if m = n then 0 else m * 65536 div n)"
proof -
  have "unat (push_bit 16 (of_int (int m) :: u32)) = m * 65536"
    using assms by (simp add: push_bit_eq_mult unat_word_ariths unat_of_nat)
  moreover have "unat (of_int (int n) :: u32) = n" using assms by (simp add: unat_of_nat)
  ultimately have "unat (push_bit 16 (of_int (int m) :: u32) div of_int (int n)) = m * 65536 div n"
    by (simp add: unat_div)
  then have s: "unat (slope (int m) (int n)) = (m * 65536 div n) mod 65536"
    by (simp add: slope_def unsigned_ucast_eq take_bit_eq_mod)
  show ?thesis
  proof (cases "m = n")
    case True
    then show ?thesis using s assms by simp
  next
    case False
    then have "m * 65536 < n * 65536" using assms by simp
    then have "m * 65536 div n < 65536" using assms by (simp add: div_less_iff_less_mult mult.commute)
    then show ?thesis using s False by simp
  qed
qed

text \<open>On the last tile before the end one move of the short side is left, or none.\<close>

lemma slope_bounds:
  assumes "1 \<le> m" "m < n" "n \<le> (256 :: nat)"
  defines "e \<equiv> m * 65536 div n"
  shows "1 \<le> e" "(m - 1) * 65536 \<le> (n - 1) * e" "(n - 1) * e < m * 65536" "e < 65536"
proof -
  have n: "0 < n" using assms by simp
  have le: "e * n \<le> m * 65536" by (simp add: e_def)
  have gt: "m * 65536 < (e + 1) * n"
    using dividend_less_times_div [OF n, of "m * 65536"] by (simp add: e_def algebra_simps)
  have "n * 1 \<le> 1 * 65536" using assms by simp
  also have "\<dots> \<le> m * 65536" using assms(1) by (intro mult_le_mono1)
  finally show e: "1 \<le> e" using n by (simp add: e_def Suc_le_eq div_greater_zero_iff)
  have "(e + n) * n \<le> 65536 * n"
  proof -
    have "n * n \<le> 256 * 256" using assms(3) by (intro mult_le_mono)
    moreover have "m * 65536 \<le> (n - 1) * 65536" using assms(2) by (intro mult_le_mono1) simp
    moreover have "(n - 1) * 65536 + 65536 = n * 65536" using n by (cases n) simp_all
    ultimately show ?thesis using le by (simp add: algebra_simps)
  qed
  then have room: "e + n \<le> 65536" using n by simp
  then show "e < 65536" using n by simp
  have split: "(n - 1) * e + e = e * n" using n by (cases n) simp_all
  have "(m - 1) * 65536 + 65536 = m * 65536" using assms(1) by (cases m) simp_all
  then show "(m - 1) * 65536 \<le> (n - 1) * e" using gt room split by (simp add: algebra_simps)
  show "(n - 1) * e < m * 65536" using le split e by linarith
qed

lemma moves_left:
  assumes "1 \<le> m" "m \<le> n" "n \<le> (256 :: nat)"
  defines "e \<equiv> slope (int m) (int n)"
  shows "moves_in e 0 (n - 1) \<in> {m - 1, m}" "moves_in e (- e) (n - 1) \<in> {m - 1, m}"
proof -
  have val: "unat e = (if m = n then 0 else m * 65536 div n)" unfolding e_def by (rule slope_value [OF assms(1-3)])
  have "moves_in e 0 (n - 1) \<in> {m - 1, m} \<and> moves_in e (- e) (n - 1) \<in> {m - 1, m}"
  proof (cases "m = n")
    case True
    then show ?thesis using val by (simp add: moves_in_def unat_eq_0)
  next
    case False
    then have less: "m < n" using assms(2) by simp
    note b = slope_bounds [OF assms(1) less assms(3)]
    have v: "unat e = m * 65536 div n" using val False by simp
    then have nz: "e \<noteq> 0" using b(1) by auto
    have plus: "moves_in e 0 (n - 1) = (n - 1) * unat e div 65536" using nz by (simp add: moves_in_def moves_def)
    have "m - 1 \<le> (n - 1) * unat e div 65536" using b(2) v by (simp add: less_eq_div_iff_mult_less_eq)
    moreover have "(n - 1) * unat e div 65536 < m" using b(3) v by (simp add: div_less_iff_less_mult)
    ultimately have "(n - 1) * unat e div 65536 = m - 1" by linarith
    then have one: "moves_in e 0 (n - 1) \<in> {m - 1, m}" using plus by auto
    have neg: "unat (- e) = 65536 - unat e" using nz unat_sub_if' [of 0 e] by (simp add: unat_eq_0)
    have "2 \<le> n" using less assms(1) by simp
    then have "65536 - unat e + (n - 1) * unat e = 65536 + (n - 2) * unat e"
      using b(4) v by (cases n; cases "n - 1") (auto simp: algebra_simps)
    then have minus: "moves_in e (- e) (n - 1) = 1 + (n - 2) * unat e div 65536"
      using nz neg by (simp add: moves_in_def moves_def)
    have split: "(n - 2) * unat e + unat e = (n - 1) * unat e" using \<open>2 \<le> n\<close> by (cases n; cases "n - 1") auto
    then have "(n - 2) * unat e div 65536 < m"
      using b(3) v by (simp add: div_less_iff_less_mult)
    moreover have "m - 1 \<le> 1 + (n - 2) * unat e div 65536"
    proof -
      have "(m - 2) * 65536 \<le> (n - 2) * unat e"
        using b(2,4) v split by (cases "m - 1") (auto simp: algebra_simps)
      then have "m - 2 \<le> (n - 2) * unat e div 65536" by (simp add: less_eq_div_iff_mult_less_eq)
      then show ?thesis by simp
    qed
    ultimately have "1 + (n - 2) * unat e div 65536 = m - 1 \<or> 1 + (n - 2) * unat e div 65536 = m" by linarith
    then show ?thesis using one minus by auto
  qed
  then show "moves_in e 0 (n - 1) \<in> {m - 1, m}" "moves_in e (- e) (n - 1) \<in> {m - 1, m}" by auto
qed

section \<open>Properties\<close>

lemma chain_append:
  "successively touching (p # xs) \<Longrightarrow> touching (last (p # xs)) q \<Longrightarrow> successively touching (p # xs @ [q])"
  by (induction xs arbitrary: p) (auto split: if_splits)

lemma steep_chain_ends:
  fixes dx :: u16
  assumes "uint (pos_y b) = uint (pos_y a) + int n" "pos_x b = pos_x a + of_nat m * dx" "pos_z b = pos_z a"
    and "1 \<le> m" "m \<le> n" "n \<le> 256" "dx \<in> {1, - 1}"
    and "acc = 0 \<or> acc = - slope (int m) (int n)"
  shows "successively touching (a # steep_tiles (slope (int m) (int n)) dx (n - 1) acc a @ [b])"
proof (rule chain_append)
  let ?e = "slope (int m) (int n)"
  show "successively touching (a # steep_tiles ?e dx (n - 1) acc a)" by (rule steep_tiles_chain [OF assms(7)])
  define c where "c = moves_in ?e acc (n - 1)"
  have "c \<in> {m - 1, m}" using moves_left [OF assms(4-6)] assms(8) by (auto simp: c_def)
  then have x: "pos_x b - (pos_x a + of_nat c * dx) \<in> {0, 1, - 1}"
    using assms(2,4,7) by (auto simp: algebra_simps of_nat_diff)
  have "pos_y b = pos_y a + of_nat n"
    using assms(1) by (metis of_int_add of_int_of_nat_eq word_of_int_uint)
  then have "pos_y b - (pos_y a + of_nat (n - 1)) = 1" using assms(4,5) by (simp add: of_nat_diff)
  then show "touching (last (a # steep_tiles ?e dx (n - 1) acc a)) b"
    using x assms(3) unfolding steep_tiles_last by (simp add: touching_def c_def)
qed

lemma straight_chain:
  assumes "dx \<in> {0, 1, - 1}" "dy \<in> {0, 1, - 1}"
    and "b = Position (pos_x a + of_nat (Suc n) * dx) (pos_y a + of_nat (Suc n) * dy) (pos_z a)"
  shows "successively touching (a # straight_tiles dx dy n a @ [b])"
proof -
  define f where "f k = Position (pos_x a + of_nat k * dx) (pos_y a + of_nat k * dy) (pos_z a)" for k
  have "[0..<Suc (Suc n)] = 0 # [1..<Suc n] @ [Suc n]" by (subst upt_Suc) (simp add: upt_conv_Cons del: upt_Suc)
  moreover have "f 0 = a" by (cases a) (simp add: f_def)
  ultimately have "a # straight_tiles dx dy n a @ [b] = map f [0..<Suc (Suc n)]"
    using assms(3) by (simp add: straight_tiles_def f_def del: upt_Suc of_nat_Suc)
  moreover have "successively touching (map f [0..<m])" for m
  proof (induction m)
    case (Suc m)
    have "touching (f (m - 1)) (f m)" if "0 < m"
      using that assms(1,2) by (cases m) (auto simp: touching_def f_def algebra_simps)
    then show ?case using Suc by (cases m) (auto simp: successively_append_iff)
  qed simp
  ultimately show ?thesis by metis
qed

lemma nat_int_less: "nat (int n - 1) = n - 1"
  by simp

lemma word_step: "uint (v :: u16) = uint u + int k \<Longrightarrow> v = u + of_nat k"
  by (metis of_int_add of_int_of_nat_eq word_of_int_uint)

lemma word_way:
  fixes u v :: u16
  assumes "\<bar>uint u - uint v\<bar> = int k"
  shows "v = u + of_nat k * (if u > v then 0xFFFF else 1)"
proof (cases "u > v")
  case True
  then have "u = v + of_nat k" using assms by (intro word_step) (simp add: word_less_def)
  then show ?thesis using True by (simp add: minus_one16 del: word_of_int_minus)
next
  case False
  then show ?thesis using assms by (simp add: word_step word_less_def)
qed

lemma line_ends_facts:
  assumes "line_ends s d = (a, b)" "pos_z s = pos_z d" "getDistanceX s d = int m" "getDistanceY s d = int n"
  shows "pos_z b = pos_z a" "\<bar>uint (pos_x a) - uint (pos_x b)\<bar> = int m" "\<bar>uint (pos_y a) - uint (pos_y b)\<bar> = int n"
  using assms by (auto simp: line_ends_def exchange_def distance_defs split: if_splits)

lemma line_chain_steep:
  assumes ab: "line_ends s d = (a, b)" and floor: "pos_z s = pos_z d"
    and d: "getDistanceX s d = int m" "getDistanceY s d = int n" and less: "m < n" "n \<le> 256"
  shows "successively touching (a # line_tiles s d @ [b])"
proof -
  note z = line_ends_facts(1) [OF ab floor d] and x = line_ends_facts(2) [OF ab floor d] and y = line_ends_facts(3) [OF ab floor d]
  note ways = word_way [OF x] word_way [OF y]
  have up: "uint (pos_y b) = uint (pos_y a) + int n"
    using less ab d by (auto simp: line_ends_def exchange_def distance_defs word_less_def split: if_splits)
  show ?thesis
  proof (cases "m = 0")
    case zero: True
    then have "b = Position (pos_x a + of_nat (Suc (n - 1)) * 0) (pos_y a + of_nat (Suc (n - 1)) * 1) (pos_z a)"
      using less x z word_step [OF up] by (cases b) (simp add: word_uint_eq_iff)
    then have "successively touching (a # straight_tiles 0 1 (n - 1) a @ [b])" by (intro straight_chain) simp_all
    moreover have "line_tiles s d = straight_tiles 0 1 (n - 1) a" using zero d ab by (simp add: line_tiles_def nat_int_less del: One_nat_def)
    ultimately show ?thesis using ab by simp
  next
    case False
    define dx where "dx = (if pos_x a > pos_x b then 0xFFFF else 1 :: u16)"
    define acc where "acc = (if pos_x a > pos_x b then - slope (int m) (int n) else 0)"
    have "successively touching (a # steep_tiles (slope (int m) (int n)) dx (n - 1) acc a @ [b])"
      using less False up ways z assms(4) d by (intro steep_chain_ends) (auto simp: dx_def acc_def minus_one16)
    moreover have "line_tiles s d = steep_tiles (slope (int m) (int n)) dx (n - 1) acc a"
      using less False d ab by (simp add: line_tiles_def Let_def dx_def acc_def nat_int_less del: One_nat_def)
    ultimately show ?thesis using ab by simp
  qed
qed

lemma line_chain_flat:
  assumes ab: "line_ends s d = (a, b)" and floor: "pos_z s = pos_z d"
    and d: "getDistanceX s d = int m" "getDistanceY s d = int n" and less: "\<not> m < n" "m \<noteq> 0" "m \<le> 256"
  shows "successively touching (a # line_tiles s d @ [b])"
proof -
  note z = line_ends_facts(1) [OF ab floor d] and x = line_ends_facts(2) [OF ab floor d] and y = line_ends_facts(3) [OF ab floor d]
  note ways = word_way [OF x] word_way [OF y]
  have right: "uint (pos_x b) = uint (pos_x a) + int m"
    using less ab d by (auto simp: line_ends_def exchange_def distance_defs word_less_def split: if_splits)
  show ?thesis
  proof (cases "n = 0")
    case zero: True
    then have "b = Position (pos_x a + of_nat (Suc (m - 1)) * 1) (pos_y a + of_nat (Suc (m - 1)) * 0) (pos_z a)"
      using \<open>m \<noteq> 0\<close> y z word_step [OF right] by (cases b) (simp add: word_uint_eq_iff)
    then have "successively touching (a # straight_tiles 1 0 (m - 1) a @ [b])" by (intro straight_chain) simp_all
    moreover have "line_tiles s d = straight_tiles 1 0 (m - 1) a"
      using zero d ab \<open>m \<noteq> 0\<close> by (simp add: line_tiles_def nat_int_less del: One_nat_def)
    ultimately show ?thesis using ab by simp
  next
    case long: False
    define dy where "dy = (if pos_y a > pos_y b then 0xFFFF else 1 :: u16)"
    define acc where "acc = (if pos_y a > pos_y b then - slope (int n) (int m) else 0)"
    have "successively touching (transpose_pos a # steep_tiles (slope (int n) (int m)) dy (m - 1) acc (transpose_pos a) @ [transpose_pos b])"
      using less long right ways z assms(3) d
      by (intro steep_chain_ends) (auto simp: dy_def acc_def minus_one16 transpose_pos_def)
    then have "successively touching (map transpose_pos (transpose_pos a # steep_tiles (slope (int n) (int m)) dy (m - 1) acc (transpose_pos a) @ [transpose_pos b]))"
      by (simp only: successively_map touching_transpose)
    moreover have "line_tiles s d = flat_tiles (slope (int n) (int m)) dy (m - 1) acc a"
      using less long d ab \<open>m \<noteq> 0\<close> by (simp add: line_tiles_def Let_def dy_def acc_def nat_int_less del: One_nat_def)
    ultimately show ?thesis using ab by (simp add: flat_tiles_steep)
  qed
qed

lemma line_chain:
  assumes "pos_z s = pos_z d" "s \<noteq> d" "getDistanceX s d \<le> 256" "getDistanceY s d \<le> 256"
  shows "successively touching (fst (line_ends s d) # line_tiles s d @ [snd (line_ends s d)])"
proof -
  obtain a b where ab: "line_ends s d = (a, b)" by (cases "line_ends s d")
  define m where "m = nat (getDistanceX s d)"
  define n where "n = nat (getDistanceY s d)"
  have d: "getDistanceX s d = int m" "getDistanceY s d = int n" by (simp_all add: m_def n_def distance_defs)
  show ?thesis
  proof (cases "m < n")
    case True
    then show ?thesis using line_chain_steep [OF ab assms(1) d] assms(4) ab d by simp
  next
    case False
    have "m \<noteq> 0"
    proof
      assume "m = 0"
      then have "getDistanceX s d = 0" "getDistanceY s d = 0" using False d by simp_all
      then show False using assms(1,2) by (cases s; cases d) (simp add: distance_zero)
    qed
    then show ?thesis using False line_chain_flat [OF ab assms(1) d] assms(3) ab d by simp
  qed
qed

lemma line_tiles_length:
  assumes "pos_z s = pos_z d"
  shows "int (length (line_tiles s d)) = max 0 (max (getDistanceX s d) (getDistanceY s d) - 1)"
proof -
  have pos: "0 \<le> getDistanceX s d" "0 \<le> getDistanceY s d" by (simp_all add: distance_defs)
  show ?thesis
    using pos by (auto simp: line_tiles_def straight_tiles_def Let_def flat_tiles_steep steep_tiles_length max_def split: prod.splits)
qed

text \<open>
  C22. The line of sight on a floor is clear exactly when no tile of a chain blocks it: from one
  end to the other every tile touches the next (for up to 256 tiles), there are as many as the
  distance asks for, and the tiles are the same seen from either end. The exception the code
  makes for an obstacle next to the destination never applies.
\<close>
theorem sight_asks_a_chain:
  assumes "pos_z s = pos_z d"
  shows "(checkSightLine w s d \<longleftrightarrow> (\<forall>q \<in> set (line_tiles s d). \<not> blocks w q))
     \<and> int (length (line_tiles s d)) = max 0 (max (getDistanceX s d) (getDistanceY s d) - 1)
     \<and> line_tiles d s = line_tiles s d
     \<and> (s \<noteq> d \<and> getDistanceX s d \<le> 256 \<and> getDistanceY s d \<le> 256 \<longrightarrow>
          successively touching (fst (line_ends s d) # line_tiles s d @ [snd (line_ends s d)]))"
  using checkSightLine_tiles [OF assms] line_tiles_length [OF assms] line_tiles_sym [OF assms] line_chain [OF assms]
  by blast

theorem sight_asks_a_chain_witness:
  "checkSightLine (\<lambda>p. if p = Position 103 101 7 then Some \<lparr>tv_ground = True, tv_blockProjectile = True,
       tv_creature = False, tv_field = None\<rparr> else None) (Position 100 100 7) (Position 105 102 7)
   \<longleftrightarrow> Position 103 101 7 \<notin> set (line_tiles (Position 100 100 7) (Position 105 102 7))"
proof -
  define w where "w = (\<lambda>p. if p = Position 103 101 7 then Some \<lparr>tv_ground = True, tv_blockProjectile = True,
       tv_creature = False, tv_field = None\<rparr> else None)"
  have "blocks w q \<longleftrightarrow> q = Position 103 101 7" for q
    by (auto simp: blocks_def getTile_def w_def MAP_MAX_LAYERS_def)
  then show ?thesis
    using sight_asks_a_chain [of "Position 100 100 7" "Position 105 102 7" w] unfolding w_def [symmetric] by auto
qed

lemma isSightClear_sym:
  assumes "pos_z s = pos_z d"
  shows "isSightClear w d s b = isSightClear w s d b"
proof -
  define s' where "s' = Position (pos_x s) (pos_y s) (pos_z s - 1)"
  define d' where "d' = Position (pos_x d) (pos_y d) (pos_z d - 1)"
  have up: "checkSightLine w d' s' = checkSightLine w s' d'"
    using assms by (intro checkSightLine_sym) (simp add: s'_def d'_def)
  have jump: "jump_floors w p (pos_z p - 1) \<longleftrightarrow> \<not> opaque w (Position (pos_x p) (pos_y p) (pos_z p - 1))" for p
  proof -
    have "pos_z p - 1 \<noteq> pos_z p" by (simp add: diff_eq_eq)
    then show ?thesis by (subst jump_floors.simps) (simp add: jump_floors.simps)
  qed
  have range: "areInRange2 1 1 d s = areInRange2 1 1 s d" by (simp add: areInRange2_def distance_sym)
  show ?thesis
    using assms up jump [of s] jump [of d] range checkSightLine_sym [OF assms, of w]
    by (auto simp: isSightClear_def Let_def s'_def d'_def)
qed

text \<open>
  C21. Sight and throwing on one floor are mutual: whoever can throw something at a position can
  be reached from there with the same range, over obstacles too.
\<close>
theorem throwing_is_mutual:
  assumes "pos_z s = pos_z d"
  shows "isSightClear w d s floorCheck = isSightClear w s d floorCheck
     \<and> canThrowObjectTo w d s line rangex rangey = canThrowObjectTo w s d line rangex rangey"
  using isSightClear_sym [OF assms] assms
  by (simp add: canThrowObjectTo_def distance_sym [of d s] Let_def)

theorem throwing_is_mutual_witness:
  "canThrowObjectTo (\<lambda>p. None) (Position 105 102 7) (Position 100 100 7) SightLine_CheckSightLine 8 6
   \<and> canThrowObjectTo (\<lambda>p. None) (Position 100 100 7) (Position 105 102 7) SightLine_CheckSightLine 8 6"
proof -
  have "canThrowObjectTo (\<lambda>p. None) (Position 100 100 7) (Position 105 102 7) SightLine_CheckSightLine 8 6"
    by code_simp
  then show ?thesis
    using throwing_is_mutual [of "Position 100 100 7" "Position 105 102 7" "\<lambda>p. None" False SightLine_CheckSightLine 8 6] by simp
qed

text \<open>Between floors they are not: from above one can throw over an obstacle, from below not.\<close>

definition wall :: world where
  "wall p = (if p = Position 101 100 6
     then Some \<lparr>tv_ground = True, tv_blockProjectile = True, tv_creature = False, tv_field = None\<rparr> else None)"

lemma floors_are_not_mutual:
  "isSightClear wall (Position 103 100 6) (Position 100 100 7) False"
  "\<not> isSightClear wall (Position 100 100 7) (Position 103 100 6) False"
  by code_simp+

end
