(* ===== verification/Path_Nodes.thy ===== *)
theory Path_Nodes
  imports Sight_Line
begin

text \<open>
  The nodes of the path search (src/src/map/utils/astarnodes.cpp). The array of nodes is a list
  as long as \<open>curNode\<close>, a pointer to a node its index. The compiler chooses one of several
  routines for the best node: a loop over all nodes, or vectors of 4, 8 or 16 lanes over an
  array of costs that is kept up to date on the side; all are modelled, the width of the
  vectors is an argument. Costs are integers: they stay far below the widths of the code.
\<close>

section \<open>The nodes\<close>

definition MAX_NODES :: nat where "MAX_NODES = 512"
definition MAP_NORMALWALKCOST :: int where "MAP_NORMALWALKCOST = 10"
definition MAP_DIAGONALWALKCOST :: int where "MAP_DIAGONALWALKCOST = 25"
definition INT32_MAX :: int where "INT32_MAX = 2147483647"

record anode =
  an_parent :: "nat option"
  an_f :: int
  an_g :: int
  an_c :: int
  an_x :: u16
  an_y :: u16

datatype simd = Portable | Lanes nat

record astar =
  nodes :: "anode list"
  nodesTable :: "u32 list"
  openNodes :: "bool list"
  calculatedNodes :: "int list"
  closedNodes :: int

definition xy_key :: "u16 \<Rightarrow> u16 \<Rightarrow> u32" where
  "xy_key x y = or (push_bit 16 (ucast x)) (ucast y)"

definition new_astar :: "u16 \<Rightarrow> u16 \<Rightarrow> int \<Rightarrow> astar" where
  "new_astar x y extraCost =
     \<lparr>nodes = [\<lparr>an_parent = None, an_f = 0, an_g = 0, an_c = extraCost, an_x = x, an_y = y\<rparr>],
      nodesTable = [xy_key x y], openNodes = [True],
      calculatedNodes = 0 # replicate (MAX_NODES - 1) INT32_MAX, closedNodes = 0\<rparr>"

text \<open>\<open>None\<close> is \<open>false\<close>: no node is left.\<close>

definition createOpenNode :: "nat \<Rightarrow> u16 \<Rightarrow> u16 \<Rightarrow> int \<Rightarrow> int \<Rightarrow> int \<Rightarrow> astar \<Rightarrow> astar option" where
  "createOpenNode parent x y f heuristic extraCost a =
     (if length (nodes a) \<ge> MAX_NODES then None
      else Some (a\<lparr>nodes := nodes a @ [\<lparr>an_parent = Some parent, an_f = f, an_g = heuristic, an_c = extraCost,
                      an_x = x, an_y = y\<rparr>],
             nodesTable := nodesTable a @ [xy_key x y], openNodes := openNodes a @ [True],
             calculatedNodes := (calculatedNodes a)[length (nodes a) := f + heuristic]\<rparr>))"

definition cost_of :: "anode \<Rightarrow> int" where
  "cost_of n = an_f n + an_g n"

definition closeNode :: "nat \<Rightarrow> astar \<Rightarrow> astar" where
  "closeNode i a = a\<lparr>calculatedNodes := (calculatedNodes a)[i := INT32_MAX],
     openNodes := (openNodes a)[i := False], closedNodes := closedNodes a + 1\<rparr>"

definition openNode :: "nat \<Rightarrow> astar \<Rightarrow> astar" where
  "openNode i a = a\<lparr>calculatedNodes := (calculatedNodes a)[i := cost_of (nodes a ! i)],
     closedNodes := closedNodes a - (if openNodes a ! i then 0 else 1), openNodes := (openNodes a)[i := True]\<rparr>"

section \<open>The best node\<close>

fun scan_best :: "astar \<Rightarrow> nat list \<Rightarrow> nat option \<times> int \<Rightarrow> nat option \<times> int" where
  "scan_best a [] best = best"
| "scan_best a (pos # ps) (best_node, best_node_f) =
     scan_best a ps
       (if \<not> openNodes a ! pos then (best_node, best_node_f)
        else let total_cost = cost_of (nodes a ! pos)
          in if total_cost < best_node_f then (Some pos, total_cost) else (best_node, best_node_f))"

text \<open>
  One lane of the vectors: block after block, the index and the value of its minimum. Then the
  first lane with the least value counts.
\<close>

fun lane_min :: "int list \<Rightarrow> nat \<Rightarrow> nat list \<Rightarrow> nat \<times> int \<Rightarrow> nat \<times> int" where
  "lane_min costs j [] m = m"
| "lane_min costs j (pos # ps) (i, v) =
     lane_min costs j ps (if costs ! (pos + j) < v then (pos + j, costs ! (pos + j)) else (i, v))"

definition block_starts :: "nat \<Rightarrow> nat \<Rightarrow> nat list" where
  "block_starts w cur = map (\<lambda>k. k * w) [1 ..< (cur + w - 1) div w]"

definition lane_minima :: "nat \<Rightarrow> astar \<Rightarrow> (nat \<times> int) list" where
  "lane_minima w a = map (\<lambda>j. lane_min (calculatedNodes a) j (block_starts w (length (nodes a))) (j, calculatedNodes a ! j)) [0..<w]"

fun first_least :: "(nat \<times> int) list \<Rightarrow> nat \<times> int \<Rightarrow> nat \<times> int" where
  "first_least [] m = m"
| "first_least ((i, v) # ms) (best, best_f) = first_least ms (if v < best_f then (i, v) else (best, best_f))"

definition lane_best :: "nat \<Rightarrow> astar \<Rightarrow> nat option" where
  "lane_best w a = (let best = fst (first_least (tl (lane_minima w a)) (hd (lane_minima w a)))
     in if best < length (nodes a) \<and> openNodes a ! best then Some best else None)"

definition getBestNode :: "simd \<Rightarrow> astar \<Rightarrow> nat option" where
  "getBestNode v a = (case v of
       Portable \<Rightarrow> fst (scan_best a [0..<length (nodes a)] (None, INT32_MAX))
     | Lanes w \<Rightarrow> lane_best w a)"

text \<open>
  The node at a position: the portable loop looks at the first node last, the vectors compare in
  order.
\<close>

fun find_key :: "u32 \<Rightarrow> nat \<Rightarrow> u32 list \<Rightarrow> nat option" where
  "find_key xy i [] = None"
| "find_key xy i (k # ks) = (if k = xy then Some i else find_key xy (Suc i) ks)"

definition getNodeByPosition :: "simd \<Rightarrow> u16 \<Rightarrow> u16 \<Rightarrow> astar \<Rightarrow> nat option" where
  "getNodeByPosition v x y a = (case v of
       Portable \<Rightarrow> (case find_key (xy_key x y) 1 (tl (nodesTable a)) of
           Some i \<Rightarrow> Some i
         | None \<Rightarrow> if hd (nodesTable a) = xy_key x y then Some 0 else None)
     | Lanes w \<Rightarrow> find_key (xy_key x y) 0 (nodesTable a))"

section \<open>Costs\<close>

definition getMapWalkCost :: "anode \<Rightarrow> position \<Rightarrow> int" where
  "getMapWalkCost n p =
     (\<bar>uint (an_x n) - uint (pos_x p)\<bar> + \<bar>uint (an_y n) - uint (pos_y p)\<bar> - 1) * MAP_DIAGONALWALKCOST + MAP_NORMALWALKCOST"

text \<open>
  What the search asks of the creature that walks: whether it may enter a tile (\<open>queryAdd\<close>) or
  stands on it, and how it takes the fields on the ground (\<open>None\<close> is not a monster).
\<close>

record walker =
  wk_position :: position
  wk_removed :: bool
  wk_on :: "position \<Rightarrow> bool"
  wk_enter :: "position \<Rightarrow> bool"
  wk_immune :: "u8 \<Rightarrow> bool"
  wk_condition :: "u8 \<Rightarrow> bool"
  wk_canWalkOnField :: "(u8 \<Rightarrow> bool) option"

definition COMBAT_NONE :: u8 where "COMBAT_NONE = 255"

definition getTileWalkCost :: "walker option \<Rightarrow> tile_view option \<Rightarrow> int" where
  "getTileWalkCost creature tile = (case (creature, tile) of
       (Some c, Some t) \<Rightarrow>
         (if tv_creature t then MAP_NORMALWALKCOST * 4 else 0)
         + (case tv_field t of None \<Rightarrow> 0
            | Some combatType \<Rightarrow>
                if combatType \<noteq> COMBAT_NONE \<and> \<not> wk_immune c combatType \<and> \<not> wk_condition c combatType
                   \<and> (case wk_canWalkOnField c of None \<Rightarrow> False | Some can \<Rightarrow> \<not> can combatType)
                then MAP_NORMALWALKCOST * 18 else 0)
     | _ \<Rightarrow> 0)"

definition canWalkTo :: "world \<Rightarrow> walker option \<Rightarrow> position \<Rightarrow> tile_view option" where
  "canWalkTo w creature p = (case creature of None \<Rightarrow> None
     | Some c \<Rightarrow> if wk_removed c then None
        else case getTile w p of None \<Rightarrow> None
          | Some t \<Rightarrow> if wk_on c p \<or> wk_enter c p then Some t else None)"

section \<open>The best node is a cheapest open one\<close>

text \<open>The array of costs on the side says what the nodes say.\<close>

definition costs_kept :: "astar \<Rightarrow> bool" where
  "costs_kept a \<longleftrightarrow> length (openNodes a) = length (nodes a) \<and> nodes a \<noteq> [] \<and> length (nodes a) \<le> MAX_NODES
     \<and> length (calculatedNodes a) = MAX_NODES
     \<and> (\<forall>i < length (nodes a). cost_of (nodes a ! i) < INT32_MAX)
     \<and> (\<forall>i < MAX_NODES. calculatedNodes a ! i
          = (if i < length (nodes a) \<and> openNodes a ! i then cost_of (nodes a ! i) else INT32_MAX))"

definition cheapest :: "astar \<Rightarrow> nat option \<Rightarrow> bool" where
  "cheapest a r \<longleftrightarrow> (case r of
       None \<Rightarrow> \<forall>i < length (nodes a). \<not> openNodes a ! i
     | Some b \<Rightarrow> b < length (nodes a) \<and> openNodes a ! b
          \<and> (\<forall>i < length (nodes a). openNodes a ! i \<longrightarrow> cost_of (nodes a ! b) \<le> cost_of (nodes a ! i)))"

definition best_so_far :: "astar \<Rightarrow> nat option \<times> int \<Rightarrow> bool" where
  "best_so_far a m = (case fst m of None \<Rightarrow> snd m = INT32_MAX
     | Some i \<Rightarrow> openNodes a ! i \<and> cost_of (nodes a ! i) = snd m \<and> snd m < INT32_MAX)"

lemma scan_best_least:
  assumes "\<forall>i \<in> set ps. cost_of (nodes a ! i) < INT32_MAX" "best_so_far a m"
  shows "best_so_far a (scan_best a ps m) \<and> snd (scan_best a ps m) \<le> snd m
     \<and> (\<forall>i \<in> set ps. openNodes a ! i \<longrightarrow> snd (scan_best a ps m) \<le> cost_of (nodes a ! i))
     \<and> fst (scan_best a ps m) \<in> insert (fst m) (Some ` set ps)"
  using assms
proof (induction ps arbitrary: m)
  case (Cons pos ps)
  obtain b v where m: "m = (b, v)" by (cases m)
  define m1 where "m1 = (if openNodes a ! pos \<and> cost_of (nodes a ! pos) < v then (Some pos, cost_of (nodes a ! pos)) else (b, v))"
  have step: "scan_best a (pos # ps) m = scan_best a ps m1" by (simp add: m m1_def Let_def)
  have "best_so_far a m1" using Cons.prems by (simp add: m m1_def best_so_far_def)
  then have ih: "best_so_far a (scan_best a ps m1)" "snd (scan_best a ps m1) \<le> snd m1"
      "\<forall>i \<in> set ps. openNodes a ! i \<longrightarrow> snd (scan_best a ps m1) \<le> cost_of (nodes a ! i)"
      "fst (scan_best a ps m1) \<in> insert (fst m1) (Some ` set ps)"
    using Cons.IH [of m1] Cons.prems(1) by simp_all
  have m1: "snd m1 \<le> snd m" "openNodes a ! pos \<longrightarrow> snd m1 \<le> cost_of (nodes a ! pos)" "fst m1 = fst m \<or> fst m1 = Some pos"
    by (auto simp: m m1_def)
  have "snd (scan_best a ps m1) \<le> snd m" using ih(2) m1(1) by linarith
  moreover have "openNodes a ! pos \<longrightarrow> snd (scan_best a ps m1) \<le> cost_of (nodes a ! pos)" using ih(2) m1(2) by linarith
  moreover have "fst (scan_best a ps m1) \<in> insert (fst m) (Some ` set (pos # ps))" using ih(4) m1(3) by auto
  ultimately show ?case unfolding step using ih(1,3) by simp
qed simp

lemma scan_best_cheapest:
  assumes "costs_kept a"
  shows "cheapest a (getBestNode Portable a)"
proof -
  define r where "r = scan_best a [0..<length (nodes a)] (None, INT32_MAX)"
  have r: "best_so_far a r" "\<forall>i < length (nodes a). openNodes a ! i \<longrightarrow> snd r \<le> cost_of (nodes a ! i)"
      "fst r = None \<or> (\<exists>i < length (nodes a). fst r = Some i)"
    using scan_best_least [of "[0..<length (nodes a)]" a "(None, INT32_MAX)"] assms
    by (auto simp: costs_kept_def best_so_far_def r_def)
  have small: "\<forall>i < length (nodes a). cost_of (nodes a ! i) < INT32_MAX" using assms by (simp add: costs_kept_def)
  show ?thesis
  proof (cases "fst r")
    case None
    then have "\<forall>i < length (nodes a). \<not> openNodes a ! i" using r(1,2) small by (force simp: best_so_far_def)
    then show ?thesis using None by (simp add: getBestNode_def cheapest_def r_def)
  next
    case (Some b)
    then have "openNodes a ! b" "cost_of (nodes a ! b) = snd r" "b < length (nodes a)" using r(1,3) by (auto simp: best_so_far_def)
    then show ?thesis using Some r(2) by (simp add: getBestNode_def cheapest_def r_def)
  qed
qed

lemma lane_min_least:
  assumes "lane_min cs j ps (i, v) = (i', v')" "v = cs ! i"
  shows "v' = cs ! i' \<and> v' \<le> v \<and> (\<forall>pos \<in> set ps. v' \<le> cs ! (pos + j)) \<and> (i' = i \<or> (\<exists>pos \<in> set ps. i' = pos + j))"
  using assms
proof (induction cs j ps "(i, v)" arbitrary: i v rule: lane_min.induct)
  case (2 cs j pos ps i v)
  show ?case
  proof (cases "cs ! (pos + j) < v")
    case True
    then have "lane_min cs j ps (pos + j, cs ! (pos + j)) = (i', v')" using "2.prems"(1) by simp
    then show ?thesis using "2.hyps" [of "pos + j" "cs ! (pos + j)"] True by auto
  next
    case False
    then have "lane_min cs j ps (i, v) = (i', v')" using "2.prems"(1) by simp
    then show ?thesis using "2.hyps" [of i v] False "2.prems"(2) by auto
  qed
qed auto

lemma first_least_least:
  "first_least ms m \<in> insert m (set ms) \<and> (\<forall>x \<in> insert m (set ms). snd (first_least ms m) \<le> snd x)"
proof (induction ms m rule: first_least.induct)
  case (2 i v ms best best_f)
  then show ?case by (cases "v < best_f") auto
qed simp

lemma block_starts_set: "0 < w \<Longrightarrow> 0 < cur \<Longrightarrow> set (block_starts w cur) = {pos. w dvd pos \<and> 0 < pos \<and> pos < cur}"
proof -
  assume w: "0 < w" "0 < cur"
  have "k < (cur + w - 1) div w \<longleftrightarrow> k * w < cur" for k
  proof -
    have "k < (cur + w - 1) div w \<longleftrightarrow> Suc k \<le> (cur + w - 1) div w" by auto
    also have "\<dots> \<longleftrightarrow> Suc k * w \<le> cur + w - 1" using w by (simp add: less_eq_div_iff_mult_less_eq)
    also have "\<dots> \<longleftrightarrow> k * w < cur" using w by auto
    finally show ?thesis .
  qed
  then have "set (block_starts w cur) = (\<lambda>k. k * w) ` {k. 1 \<le> k \<and> k * w < cur}"
    by (simp add: block_starts_def atLeastLessThan_def lessThan_def atLeast_def Int_def)
  also have "\<dots> = {pos. w dvd pos \<and> 0 < pos \<and> pos < cur}"
  proof (intro set_eqI iffI)
    fix pos assume "pos \<in> {pos. w dvd pos \<and> 0 < pos \<and> pos < cur}"
    then obtain k where "pos = k * w" "0 < k * w" "k * w < cur" by (auto simp: dvd_def mult.commute)
    then show "pos \<in> (\<lambda>k. k * w) ` {k. 1 \<le> k \<and> k * w < cur}" by (intro image_eqI [of _ _ k]) (auto simp: Suc_le_eq)
  qed (use w in auto)
  finally show ?thesis .
qed

lemma lane_best_cheapest:
  assumes "costs_kept a" "0 < w" "w dvd MAX_NODES"
  shows "cheapest a (lane_best w a)"
proof -
  define cs where "cs = calculatedNodes a"
  define m where "m j = lane_min cs j (block_starts w (length (nodes a))) (j, cs ! j)" for j
  define best where "best = first_least (tl (lane_minima w a)) (hd (lane_minima w a))"
  have cur: "0 < length (nodes a)" "length (nodes a) \<le> MAX_NODES" using assms(1) by (auto simp: costs_kept_def)
  have starts: "pos \<in> set (block_starts w (length (nodes a))) \<longleftrightarrow> w dvd pos \<and> 0 < pos \<and> pos < length (nodes a)" for pos
    using block_starts_set [OF assms(2) cur(1)] by simp
  have ms: "lane_minima w a = map m [0..<w]" by (simp add: lane_minima_def m_def cs_def)
  then have whole: "insert (hd (lane_minima w a)) (set (tl (lane_minima w a))) = m ` {0..<w}"
  proof -
    have "lane_minima w a \<noteq> []" using ms assms(2) by simp
    then have "insert (hd (lane_minima w a)) (set (tl (lane_minima w a))) = set (lane_minima w a)" by (cases "lane_minima w a") simp_all
    then show ?thesis by (simp add: ms)
  qed
  have lane: "snd (m j) = cs ! fst (m j)" "snd (m j) \<le> cs ! j"
      "\<And>pos. pos \<in> set (block_starts w (length (nodes a))) \<Longrightarrow> snd (m j) \<le> cs ! (pos + j)"
      "fst (m j) = j \<or> (\<exists>pos \<in> set (block_starts w (length (nodes a))). fst (m j) = pos + j)" for j
    using lane_min_least [of cs j "block_starts w (length (nodes a))" j "cs ! j" "fst (m j)" "snd (m j)"] by (auto simp: m_def)
  have "best \<in> m ` {0..<w}" and least: "\<And>j. j < w \<Longrightarrow> snd best \<le> snd (m j)"
    using first_least_least [of "tl (lane_minima w a)" "hd (lane_minima w a)"] unfolding whole best_def by auto
  then obtain j where j: "j < w" "best = m j" by auto
  have inside: "fst best < MAX_NODES"
  proof (cases "fst (m j) = j")
    case True
    then show ?thesis using j assms(3) by (metis MAX_NODES_def dvd_imp_le less_le_trans zero_less_numeral)
  next
    case False
    then obtain pos where pos: "w dvd pos" "pos < length (nodes a)" "fst (m j) = pos + j" using lane(4) [of j] starts by auto
    obtain k where k: "pos = w * k" using pos(1) by (rule dvdE)
    obtain n where n: "MAX_NODES = w * n" using assms(3) by (rule dvdE)
    have "w * k < w * n" using pos(2) cur(2) k n by linarith
    then have "Suc k \<le> n" by simp
    then have "w * Suc k \<le> w * n" by (rule mult_le_mono2)
    then have "pos + w \<le> MAX_NODES" using k n by simp
    then show ?thesis using pos(3) j(1) unfolding j(2) by linarith
  qed
  have all: "snd best \<le> cs ! i" if "i < length (nodes a)" for i
  proof -
    have l: "i mod w < w" using assms(2) by simp
    have "snd (m (i mod w)) \<le> cs ! i"
    proof (cases "i < w")
      case True
      then show ?thesis using lane(2) [of i] by simp
    next
      case False
      then have "i div w * w \<in> set (block_starts w (length (nodes a)))"
        using starts that assms(2) by (auto simp: div_greater_zero_iff intro: le_less_trans [OF div_times_less_eq_dividend])
      then show ?thesis using lane(3) [of "i div w * w" "i mod w"] by simp
    qed
    then show ?thesis using least [OF l] by simp
  qed
  have val: "snd best = cs ! fst best" using j lane(1) by simp
  have costs: "\<And>i. i < MAX_NODES \<Longrightarrow> cs ! i = (if i < length (nodes a) \<and> openNodes a ! i then cost_of (nodes a ! i) else INT32_MAX)"
      "\<And>i. i < length (nodes a) \<Longrightarrow> cost_of (nodes a ! i) < INT32_MAX"
    using assms(1) by (auto simp: costs_kept_def cs_def)
  show ?thesis
  proof (cases "fst best < length (nodes a) \<and> openNodes a ! fst best")
    case True
    then have "lane_best w a = Some (fst best)" by (simp add: lane_best_def best_def)
    moreover have "cost_of (nodes a ! fst best) \<le> cost_of (nodes a ! i)" if "i < length (nodes a)" "openNodes a ! i" for i
      using all [OF that(1)] val costs(1) [OF inside] costs(1) [of i] True that cur(2) by simp
    ultimately show ?thesis using True by (simp add: cheapest_def)
  next
    case False
    then have "lane_best w a = None" by (auto simp: lane_best_def best_def)
    moreover have "\<not> openNodes a ! i" if "i < length (nodes a)" for i
      using all [OF that] val costs(1) [OF inside] costs(1) [of i] costs(2) [OF that] False that cur(2) by (auto split: if_splits)
    ultimately show ?thesis by (simp add: cheapest_def)
  qed
qed

definition vector_width :: "simd \<Rightarrow> bool" where
  "vector_width v = (case v of Portable \<Rightarrow> True | Lanes w \<Rightarrow> w \<in> {4, 8, 16})"

lemma best_node_cheapest: "costs_kept a \<Longrightarrow> vector_width v \<Longrightarrow> cheapest a (getBestNode v a)"
  using scan_best_cheapest [of a] lane_best_cheapest [of a]
  by (auto simp: vector_width_def getBestNode_def MAX_NODES_def split: simd.splits)

text \<open>
  The vectors find what the loop finds: whatever their width, the node they choose is open and
  costs what the one of the portable loop costs, and they find none exactly when it finds none.
\<close>
theorem vectors_find_the_best:
  assumes "costs_kept a" "w \<in> {4, 8, 16}"
  shows "map_option (\<lambda>i. cost_of (nodes a ! i)) (getBestNode (Lanes w) a)
       = map_option (\<lambda>i. cost_of (nodes a ! i)) (getBestNode Portable a)
     \<and> pred_option (\<lambda>i. i < length (nodes a) \<and> openNodes a ! i) (getBestNode (Lanes w) a)"
proof -
  have "cheapest a (getBestNode (Lanes w) a)" "cheapest a (getBestNode Portable a)"
    using best_node_cheapest [OF assms(1)] assms(2) by (simp_all add: vector_width_def)
  then show ?thesis
    by (cases "getBestNode (Lanes w) a"; cases "getBestNode Portable a")
      (auto simp: cheapest_def intro: order.antisym)
qed

text \<open>Five nodes, the third closed; two of the others are equally cheap.\<close>

definition five_nodes :: astar where
  "five_nodes = \<lparr>nodes = map (\<lambda>k. \<lparr>an_parent = None, an_f = k, an_g = 0, an_c = 0, an_x = 1, an_y = 1\<rparr>) [9, 5, 1, 5, 7],
     nodesTable = [], openNodes = [True, True, False, True, True],
     calculatedNodes = [9, 5, INT32_MAX, 5, 7] @ replicate 507 INT32_MAX, closedNodes = 1\<rparr>"

lemma five_nodes_kept: "costs_kept five_nodes"
  by (auto simp: costs_kept_def five_nodes_def MAX_NODES_def cost_of_def INT32_MAX_def nth_Cons' nth_append)

theorem vectors_find_the_best_witness:
  "map_option (\<lambda>i. cost_of (nodes five_nodes ! i)) (getBestNode (Lanes 4) five_nodes) = Some 5"
proof -
  have "getBestNode Portable five_nodes = Some 1" by code_simp
  moreover have "cost_of (nodes five_nodes ! 1) = 5" by (simp add: five_nodes_def cost_of_def)
  ultimately show ?thesis using vectors_find_the_best [OF five_nodes_kept, of 4] by simp
qed

section \<open>Looking a node up\<close>

lemma xy_key_inject: "xy_key x y = xy_key x' y' \<longleftrightarrow> x = x' \<and> y = y'"
proof
  assume eq: "xy_key x y = xy_key x' y'"
  have key: "bit (xy_key a b) k \<longleftrightarrow> k < 32 \<and> (16 \<le> k \<and> bit a (k - 16) \<or> bit b k)" for a b k
    by (auto simp: xy_key_def bit_simps dest: bit_imp_le_length)
  have high: "16 \<le> k \<Longrightarrow> \<not> bit b k" for b :: u16 and k using bit_imp_le_length [of b k] by auto
  have "bit x k = bit x' k" if "k < 16" for k
    using key [of x y "k + 16"] key [of x' y' "k + 16"] eq that high by auto
  moreover have "bit y k = bit y' k" if "k < 16" for k
    using key [of x y k] key [of x' y' k] eq that by auto
  ultimately show "x = x' \<and> y = y'" by (auto intro!: bit_word_eqI)
qed simp

lemma find_key_sound: "find_key k i ks = Some j \<Longrightarrow> i \<le> j \<and> j - i < length ks \<and> ks ! (j - i) = k"
proof (induction ks arbitrary: i)
  case (Cons k' ks)
  show ?case
  proof (cases "k' = k")
    case False
    then have "find_key k (Suc i) ks = Some j" using Cons.prems by simp
    from Cons.IH [OF this] have "Suc i \<le> j" "j - Suc i < length ks" "ks ! (j - Suc i) = k" by auto
    moreover from this have "j - i = Suc (j - Suc i)" by simp
    ultimately show ?thesis by simp
  qed (use Cons.prems in simp)
qed simp

lemma find_key_None: "find_key k i ks = None \<Longrightarrow> k \<notin> set ks"
  by (induction ks arbitrary: i) (auto split: if_splits)

lemma getNodeByPosition_sound:
  assumes "getNodeByPosition v x y a = Some i" "nodesTable a \<noteq> []"
  shows "i < length (nodesTable a) \<and> nodesTable a ! i = xy_key x y"
proof (cases v)
  case (Lanes w)
  then show ?thesis using assms find_key_sound [of "xy_key x y" 0 "nodesTable a" i] by (simp add: getNodeByPosition_def)
next
  case Portable
  obtain k ks where t: "nodesTable a = k # ks" using assms(2) by (cases "nodesTable a") auto
  consider "find_key (xy_key x y) 1 ks = Some i" | "i = 0" "k = xy_key x y"
    using assms(1) Portable t by (auto simp: getNodeByPosition_def split: option.splits if_splits)
  then show ?thesis
  proof cases
    case 1
    then show ?thesis using find_key_sound [OF 1] t by (cases i) simp_all
  qed (use t in simp)
qed

lemma getNodeByPosition_none:
  assumes "getNodeByPosition v x y a = None" "nodesTable a \<noteq> []"
  shows "xy_key x y \<notin> set (nodesTable a)"
proof (cases v)
  case (Lanes w)
  then show ?thesis using assms find_key_None [of "xy_key x y" 0 "nodesTable a"] by (simp add: getNodeByPosition_def)
next
  case Portable
  obtain k ks where t: "nodesTable a = k # ks" using assms(2) by (cases "nodesTable a") auto
  then have "find_key (xy_key x y) 1 ks = None \<and> k \<noteq> xy_key x y"
    using assms(1) Portable by (auto simp: getNodeByPosition_def split: option.splits if_splits)
  then show ?thesis using find_key_None [of "xy_key x y" 1 ks] t by auto
qed

end
