(* ===== verification/Path_Search.thy ===== *)
theory Path_Search
  imports Path_Nodes
begin

text \<open>
  The path search (src/src/map/map.cpp: \<open>getPathMatching\<close>, \<open>getPathMatchingCond\<close>) and the
  condition a path has to meet (src/src/creatures/creature.cpp: \<open>FrozenPathingConditionCall\<close>).
  The two searches differ in which positions they skip, in the limit of the loop and in the
  position the condition takes for the start; these are arguments of the common loop. \<open>None\<close>
  as the result of a search is a loop that does not end, \<open>Some None\<close> is \<open>false\<close>.
\<close>

section \<open>The condition\<close>

record find_path_params =
  fullPathSearch :: bool
  clearSight :: bool
  allowDiagonal :: bool
  keepDistance :: bool
  maxSearchDist :: int
  minTargetDist :: int
  maxTargetDist :: int

definition isInRange :: "position \<Rightarrow> find_path_params \<Rightarrow> position \<Rightarrow> position \<Rightarrow> bool" where
  "isInRange targetPos fpp startPos testPos =
     (let tx = uint (pos_x testPos); ty = uint (pos_y testPos); gx = uint (pos_x targetPos); gy = uint (pos_y targetPos)
      in if fullPathSearch fpp then
           \<not> tx > gx + maxTargetDist fpp \<and> \<not> tx < gx - maxTargetDist fpp
           \<and> \<not> ty > gy + maxTargetDist fpp \<and> \<not> ty < gy - maxTargetDist fpp
         else
           let dx = getOffsetX startPos targetPos; dxMax = (if dx \<ge> 0 then maxTargetDist fpp else 0);
               dxMin = (if dx \<le> 0 then maxTargetDist fpp else 0);
               dy = getOffsetY startPos targetPos; dyMax = (if dy \<ge> 0 then maxTargetDist fpp else 0);
               dyMin = (if dy \<le> 0 then maxTargetDist fpp else 0)
           in \<not> tx > gx + dxMax \<and> \<not> tx < gx - dxMin \<and> \<not> ty > gy + dyMax \<and> \<not> ty < gy - dyMin)"

text \<open>The verdict, and the best distance so far, which the call may change.\<close>

definition pathCondition :: "world \<Rightarrow> position \<Rightarrow> find_path_params \<Rightarrow> position \<Rightarrow> position \<Rightarrow> int \<Rightarrow> bool \<times> int" where
  "pathCondition w targetPos fpp startPos testPos bestMatchDist =
     (if \<not> isInRange targetPos fpp startPos testPos then (False, bestMatchDist)
      else if clearSight fpp \<and> \<not> isSightClear w testPos targetPos True then (False, bestMatchDist)
      else let testDist = max (getDistanceX targetPos testPos) (getDistanceY targetPos testPos)
        in if maxTargetDist fpp = 1 then
             (\<not> (testDist < minTargetDist fpp \<or> testDist > maxTargetDist fpp), bestMatchDist)
           else if testDist \<le> maxTargetDist fpp then
             if testDist < minTargetDist fpp then (False, bestMatchDist)
             else if testDist = maxTargetDist fpp then (True, 0)
             else if testDist > bestMatchDist then (True, testDist)
             else (False, bestMatchDist)
           else (False, bestMatchDist))"

section \<open>The directions tried\<close>

definition allNeighbors :: "(int \<times> int) list" where
  "allNeighbors = [(-1, 0), (0, 1), (1, 0), (0, -1), (-1, -1), (1, -1), (1, 1), (-1, 1)]"

fun dirNeighbors :: "direction \<Rightarrow> (int \<times> int) list" where
  "dirNeighbors DIRECTION_NORTH = [(-1, 0), (0, 1), (1, 0), (1, 1), (-1, 1)]"
| "dirNeighbors DIRECTION_EAST = [(-1, 0), (0, 1), (0, -1), (-1, -1), (-1, 1)]"
| "dirNeighbors DIRECTION_SOUTH = [(-1, 0), (1, 0), (0, -1), (-1, -1), (1, -1)]"
| "dirNeighbors DIRECTION_WEST = [(0, 1), (1, 0), (0, -1), (1, -1), (1, 1)]"
| "dirNeighbors DIRECTION_SOUTHWEST = [(1, 0), (0, -1), (-1, -1), (1, -1), (1, 1)]"
| "dirNeighbors DIRECTION_SOUTHEAST = [(-1, 0), (0, -1), (-1, -1), (1, -1), (-1, 1)]"
| "dirNeighbors DIRECTION_NORTHWEST = [(0, 1), (1, 0), (1, -1), (1, 1), (-1, 1)]"
| "dirNeighbors DIRECTION_NORTHEAST = [(-1, 0), (0, 1), (-1, -1), (1, 1), (-1, 1)]"
| "dirNeighbors DIRECTION_NONE = []"

definition parent_direction :: "int \<Rightarrow> int \<Rightarrow> direction" where
  "parent_direction offset_x offset_y =
     (if offset_y = 0 then (if offset_x = -1 then DIRECTION_WEST else DIRECTION_EAST)
      else if offset_x = 0 then (if offset_y = -1 then DIRECTION_NORTH else DIRECTION_SOUTH)
      else if offset_y = -1 then (if offset_x = -1 then DIRECTION_NORTHWEST else DIRECTION_NORTHEAST)
      else if offset_x = -1 then DIRECTION_SOUTHWEST else DIRECTION_SOUTHEAST)"

definition neighbors :: "astar \<Rightarrow> nat \<Rightarrow> (int \<times> int) list" where
  "neighbors a i = (case an_parent (nodes a ! i) of None \<Rightarrow> allNeighbors
     | Some p \<Rightarrow> dirNeighbors (parent_direction
         (uint (an_x (nodes a ! p)) - uint (an_x (nodes a ! i))) (uint (an_y (nodes a ! p)) - uint (an_y (nodes a ! i)))))"

section \<open>The loop\<close>

record search_env =
  se_world :: world
  se_simd :: simd
  se_creature :: "walker option"
  se_tile :: "position \<Rightarrow> tile_view option"
  se_skip :: "position \<Rightarrow> bool"
  se_condition :: "position \<Rightarrow> int \<Rightarrow> bool \<times> int"
  se_start :: position
  se_target :: position
  se_unlimited :: bool

definition heuristic :: "search_env \<Rightarrow> position \<Rightarrow> int" where
  "heuristic env p =
     (let sX = \<bar>uint (pos_x (se_target env)) - uint (pos_x (se_start env))\<bar>;
          sY = \<bar>uint (pos_y (se_target env)) - uint (pos_y (se_start env))\<bar>;
          dX = \<bar>uint (pos_x (se_target env)) - uint (pos_x p)\<bar>; dY = \<bar>uint (pos_y (se_target env)) - uint (pos_y p)\<bar>
      in (dX - sX) * 8 + (dY - sY) * 8 + max dX dY * 8)"

definition neighbor_pos :: "search_env \<Rightarrow> anode \<Rightarrow> int \<times> int \<Rightarrow> position" where
  "neighbor_pos env n d = Position (of_int (uint (an_x n) + fst d)) (of_int (uint (an_y n) + snd d)) (pos_z (se_start env))"

text \<open>One neighbour; \<open>None\<close> is no room for another node.\<close>

definition visit :: "search_env \<Rightarrow> nat \<Rightarrow> anode \<Rightarrow> int \<times> int \<Rightarrow> astar \<Rightarrow> astar option" where
  "visit env i n d a =
     (let p = neighbor_pos env n d in
      if se_skip env p then Some a
      else case getNodeByPosition (se_simd env) (pos_x p) (pos_y p) a of
        Some m \<Rightarrow>
          let newf = an_f n + getMapWalkCost n p + an_c (nodes a ! m)
          in if an_f (nodes a ! m) \<le> newf then Some a
             else Some (openNode m (a\<lparr>nodes := (nodes a)[m := (nodes a ! m)\<lparr>an_f := newf, an_parent := Some i\<rparr>]\<rparr>))
      | None \<Rightarrow>
          (case se_tile env p of None \<Rightarrow> Some a
           | Some t \<Rightarrow>
               let extraCost = getTileWalkCost (se_creature env) (Some t);
                   newf = an_f n + getMapWalkCost n p + extraCost
               in createOpenNode i (pos_x p) (pos_y p) newf (heuristic env p) extraCost a))"

text \<open>
  The loop over the neighbours. \<open>None\<close> is \<open>return false\<close>, when no node is left and nothing
  has been found; when something has been found the loop is left.
\<close>

fun expand :: "search_env \<Rightarrow> bool \<Rightarrow> nat \<Rightarrow> anode \<Rightarrow> (int \<times> int) list \<Rightarrow> astar \<Rightarrow> astar option" where
  "expand env found i n [] a = Some a"
| "expand env found i n (d # ds) a = (case visit env i n d a of
       None \<Rightarrow> if found then Some a else None
     | Some a1 \<Rightarrow> expand env found i n ds a1)"

type_synonym find = "(nat \<times> position) option"

datatype round = Return_false | Leave astar find | Again astar find int

definition search_round :: "search_env \<Rightarrow> astar \<Rightarrow> find \<Rightarrow> int \<Rightarrow> round" where
  "search_round env a found bestMatch = (case getBestNode (se_simd env) a of
       None \<Rightarrow> if found = None then Return_false else Leave a found
     | Some i \<Rightarrow>
         let n = nodes a ! i; p = Position (an_x n) (an_y n) (pos_z (se_start env));
             (ok, best1) = se_condition env p bestMatch;
             found1 = (if ok then Some (i, p) else found)
         in if ok \<and> best1 = 0 then Leave a found1
            else case expand env (found1 \<noteq> None) i n (neighbors a i) a of
              None \<Rightarrow> Return_false
            | Some a1 \<Rightarrow>
                let a2 = closeNode i a1
                in if se_unlimited env \<or> closedNodes a2 < 100 then Again a2 found1 best1 else Leave a2 found1)"

partial_function (option) search_loop :: "search_env \<Rightarrow> astar \<Rightarrow> find \<Rightarrow> int \<Rightarrow> (astar \<times> nat \<times> position) option option" where
  "search_loop env a found bestMatch = (case search_round env a found bestMatch of
       Return_false \<Rightarrow> Some None
     | Leave a1 found1 \<Rightarrow> Some (map_option (Pair a1) found1)
     | Again a1 found1 best1 \<Rightarrow> search_loop env a1 found1 best1)"

definition step_direction :: "int \<Rightarrow> int \<Rightarrow> direction option" where
  "step_direction dx dy =
     (if dx = 1 then Some (if dy = 1 then DIRECTION_NORTHWEST else if dy = -1 then DIRECTION_SOUTHWEST else DIRECTION_WEST)
      else if dx = -1 then Some (if dy = 1 then DIRECTION_NORTHEAST else if dy = -1 then DIRECTION_SOUTHEAST else DIRECTION_EAST)
      else if dy = 1 then Some DIRECTION_NORTH
      else if dy = -1 then Some DIRECTION_SOUTH else None)"

text \<open>From the end to the start, along the parents.\<close>

partial_function (option) walk_back :: "astar \<Rightarrow> int \<times> int \<Rightarrow> nat option \<Rightarrow> direction list option" where
  "walk_back a prev found = (case found of None \<Rightarrow> Some []
     | Some i \<Rightarrow>
         let n = nodes a ! i; x = uint (an_x n); y = uint (an_y n)
         in Option.bind (walk_back a (x, y) (an_parent n))
              (\<lambda>ds. Some (case step_direction (x - fst prev) (y - snd prev) of None \<Rightarrow> ds | Some d \<Rightarrow> d # ds)))"

definition path_search :: "search_env \<Rightarrow> direction list option option" where
  "path_search env =
     (let s = se_start env;
          a = new_astar (pos_x s) (pos_y s) (getTileWalkCost (se_creature env) (getTile (se_world env) s))
      in case search_loop env a None 0 of
           None \<Rightarrow> None
         | Some None \<Rightarrow> Some None
         | Some (Some (a1, i, endPos)) \<Rightarrow>
             map_option Some (walk_back a1 (uint (pos_x endPos), uint (pos_y endPos)) (an_parent (nodes a1 ! i))))"

section \<open>The searches\<close>

text \<open>
  \<open>getPathMatching\<close> takes \<open>startPos\<close> by reference to the position that runs through the nodes,
  so the condition is always asked with the tested position as its start. Without a creature the
  position given is the start and the condition holds the target.
\<close>

definition getPathMatching_env :: "world \<Rightarrow> simd \<Rightarrow> walker option \<Rightarrow> position \<Rightarrow> position \<Rightarrow> find_path_params \<Rightarrow> search_env" where
  "getPathMatching_env w v creature targetPos condTarget fpp =
     \<lparr>se_world = w, se_simd = v, se_creature = creature,
      se_tile = (case creature of None \<Rightarrow> getTile w | Some c \<Rightarrow> canWalkTo w creature),
      se_skip = (\<lambda>p. False),
      se_condition = (\<lambda>p. pathCondition w condTarget fpp p p),
      se_start = (case creature of None \<Rightarrow> targetPos | Some c \<Rightarrow> wk_position c),
      se_target = (case creature of None \<Rightarrow> condTarget | Some c \<Rightarrow> targetPos),
      se_unlimited = False\<rparr>"

definition getPathMatching ::
    "world \<Rightarrow> simd \<Rightarrow> walker option \<Rightarrow> position \<Rightarrow> position \<Rightarrow> find_path_params \<Rightarrow> direction list option option" where
  "getPathMatching w v creature targetPos condTarget fpp =
     path_search (getPathMatching_env w v creature targetPos condTarget fpp)"

definition getPathMatchingCond_env :: "world \<Rightarrow> simd \<Rightarrow> walker \<Rightarrow> position \<Rightarrow> position \<Rightarrow> find_path_params \<Rightarrow> search_env" where
  "getPathMatchingCond_env w v creature targetPos condTarget fpp =
     \<lparr>se_world = w, se_simd = v, se_creature = Some creature, se_tile = canWalkTo w (Some creature),
      se_skip = (\<lambda>p. (maxSearchDist fpp \<noteq> 0
            \<and> (getDistanceX (wk_position creature) p > maxSearchDist fpp \<or> getDistanceY (wk_position creature) p > maxSearchDist fpp))
          \<or> (keepDistance fpp \<and> \<not> isInRange condTarget fpp (wk_position creature) p)),
      se_condition = pathCondition w condTarget fpp (wk_position creature),
      se_start = wk_position creature, se_target = targetPos, se_unlimited = (maxSearchDist fpp \<noteq> 0)\<rparr>"

definition getPathMatchingCond ::
    "world \<Rightarrow> simd \<Rightarrow> walker \<Rightarrow> position \<Rightarrow> position \<Rightarrow> find_path_params \<Rightarrow> direction list option option" where
  "getPathMatchingCond w v creature targetPos condTarget fpp =
     path_search (getPathMatchingCond_env w v creature targetPos condTarget fpp)"

definition getPathTo :: "world \<Rightarrow> simd \<Rightarrow> walker \<Rightarrow> position \<Rightarrow> find_path_params \<Rightarrow> direction list option option" where
  "getPathTo w v creature targetPos fpp =
     (if maxSearchDist fpp \<noteq> 0 \<or> keepDistance fpp
      then getPathMatchingCond w v creature targetPos targetPos fpp
      else getPathMatching w v (Some creature) targetPos targetPos fpp)"

end
