(* ===== verification/Path_Safety.thy ===== *)
theory Path_Safety
  imports Path_Search
begin

text \<open>
  What the path search promises. It ends; the directions it returns lead over tiles that may be
  entered to a position that meets the condition; and if it finds none although there was room
  for all positions that can be reached, there is none, although from most nodes only five of
  the eight directions are tried. The invariant is a tree of nodes in which costs grow away
  from the start. The map has no tiles on its outermost rows, where coordinates would wrap.
\<close>

section \<open>Where one can go\<close>

definition inside :: "u16 \<Rightarrow> bool" where
  "inside x \<longleftrightarrow> 1 \<le> uint x \<and> uint x \<le> 65534"

definition open_map :: "search_env \<Rightarrow> bool" where
  "open_map env \<longleftrightarrow> inside (pos_x (se_start env)) \<and> inside (pos_y (se_start env))
     \<and> (\<forall>p. se_tile env p \<noteq> None \<longrightarrow> inside (pos_x p) \<and> inside (pos_y p)) \<and> vector_width (se_simd env)"

definition enterable :: "search_env \<Rightarrow> position \<Rightarrow> bool" where
  "enterable env p \<longleftrightarrow> \<not> se_skip env p \<and> se_tile env p \<noteq> None"

fun offset :: "direction \<Rightarrow> int \<times> int" where
  "offset DIRECTION_NORTH = (0, -1)"
| "offset DIRECTION_EAST = (1, 0)"
| "offset DIRECTION_SOUTH = (0, 1)"
| "offset DIRECTION_WEST = (-1, 0)"
| "offset DIRECTION_SOUTHWEST = (-1, 1)"
| "offset DIRECTION_SOUTHEAST = (1, 1)"
| "offset DIRECTION_NORTHWEST = (-1, -1)"
| "offset DIRECTION_NORTHEAST = (1, -1)"
| "offset DIRECTION_NONE = (0, 0)"

definition go :: "direction \<Rightarrow> position \<Rightarrow> position" where
  "go d p = Position (of_int (uint (pos_x p) + fst (offset d))) (of_int (uint (pos_y p) + snd (offset d))) (pos_z p)"

text \<open>The moves lead from one position to another, over tiles that may be entered.\<close>

fun walks :: "search_env \<Rightarrow> position \<Rightarrow> direction list \<Rightarrow> position \<Rightarrow> bool" where
  "walks env p [] q \<longleftrightarrow> p = q"
| "walks env p (d # ds) q \<longleftrightarrow> d \<noteq> DIRECTION_NONE \<and> enterable env (go d p) \<and> walks env (go d p) ds q"

lemma walks_snoc: "walks env p (ds @ [d]) q \<longleftrightarrow> (\<exists>r. walks env p ds r \<and> d \<noteq> DIRECTION_NONE \<and> enterable env (go d r) \<and> q = go d r)"
  by (induction ds arbitrary: p) auto

section \<open>The tree of nodes\<close>

definition node_pos :: "search_env \<Rightarrow> astar \<Rightarrow> nat \<Rightarrow> position" where
  "node_pos env a i = Position (an_x (nodes a ! i)) (an_y (nodes a ! i)) (pos_z (se_start env))"

definition way :: "anode \<Rightarrow> anode \<Rightarrow> int \<times> int" where
  "way n m = (uint (an_x m) - uint (an_x n), uint (an_y m) - uint (an_y n))"

definition child_ok :: "search_env \<Rightarrow> astar \<Rightarrow> nat \<Rightarrow> bool" where
  "child_ok env a i \<longleftrightarrow> (\<exists>p < length (nodes a). an_parent (nodes a ! i) = Some p
     \<and> way (nodes a ! p) (nodes a ! i) \<in> set allNeighbors \<and> an_f (nodes a ! p) < an_f (nodes a ! i)
     \<and> enterable env (node_pos env a i))"

definition node_ok :: "astar \<Rightarrow> anode \<Rightarrow> bool" where
  "node_ok a n \<longleftrightarrow> inside (an_x n) \<and> inside (an_y n) \<and> 0 \<le> an_c n \<and> an_c n \<le> 220
     \<and> 0 \<le> an_f n \<and> an_f n \<le> 255 * (int (length (nodes a)) - 1) \<and> an_g n \<le> 1572840"

definition tree_inv :: "search_env \<Rightarrow> astar \<Rightarrow> bool" where
  "tree_inv env a \<longleftrightarrow> nodes a \<noteq> [] \<and> length (nodes a) \<le> MAX_NODES
     \<and> nodesTable a = map (\<lambda>n. xy_key (an_x n) (an_y n)) (nodes a) \<and> distinct (nodesTable a)
     \<and> an_parent (nodes a ! 0) = None \<and> an_f (nodes a ! 0) = 0 \<and> node_pos env a 0 = se_start env
     \<and> (\<forall>i. 0 < i \<and> i < length (nodes a) \<longrightarrow> child_ok env a i) \<and> (\<forall>n \<in> set (nodes a). node_ok a n)"

definition tables_inv :: "astar \<Rightarrow> bool" where
  "tables_inv a \<longleftrightarrow> length (openNodes a) = length (nodes a) \<and> length (calculatedNodes a) = MAX_NODES
     \<and> (\<forall>i < MAX_NODES. calculatedNodes a ! i
          = (if i < length (nodes a) \<and> openNodes a ! i then cost_of (nodes a ! i) else INT32_MAX))
     \<and> closedNodes a = int (length (filter Not (openNodes a)))"

lemma tables_costs: "tree_inv env a \<Longrightarrow> tables_inv a \<Longrightarrow> costs_kept a"
proof -
  assume t: "tree_inv env a" "tables_inv a"
  have "cost_of (nodes a ! i) < INT32_MAX" if "i < length (nodes a)" for i
  proof -
    have "node_ok a (nodes a ! i)" using t(1) that by (simp add: tree_inv_def)
    then show ?thesis using t(1) by (simp add: node_ok_def cost_of_def INT32_MAX_def tree_inv_def MAX_NODES_def)
  qed
  then show ?thesis using t by (simp add: costs_kept_def tree_inv_def tables_inv_def)
qed

lemma all_ways: "d \<in> set allNeighbors \<longleftrightarrow> fst d \<in> {-1, 0, 1} \<and> snd d \<in> {-1, 0, 1} \<and> d \<noteq> (0, 0)"
  by (cases d) (auto simp: allNeighbors_def)

lemma directions_are_ways: "set (dirNeighbors d) \<subseteq> set allNeighbors"
  by (cases d) (auto simp: allNeighbors_def)

lemma neighbors_ways: "d \<in> set (neighbors a i) \<Longrightarrow> d \<in> set allNeighbors"
  using directions_are_ways by (fastforce simp: neighbors_def split: option.splits)

text \<open>The coordinates of a neighbour do not wrap.\<close>

lemma uint_step: "0 \<le> k \<Longrightarrow> k \<le> 65535 \<Longrightarrow> uint (of_int k :: u16) = k"
  unfolding uint_word_of_int by simp

lemma neighbor_uint:
  assumes "inside (an_x n)" "inside (an_y n)" "d \<in> set allNeighbors"
  shows "uint (pos_x (neighbor_pos env n d)) = uint (an_x n) + fst d"
    "uint (pos_y (neighbor_pos env n d)) = uint (an_y n) + snd d"
proof -
  have "-1 \<le> fst d" "fst d \<le> 1" "-1 \<le> snd d" "snd d \<le> 1" using assms(3) by (auto simp: all_ways)
  then show "uint (pos_x (neighbor_pos env n d)) = uint (an_x n) + fst d"
    "uint (pos_y (neighbor_pos env n d)) = uint (an_y n) + snd d"
    using assms(1,2) unfolding neighbor_pos_def position.sel inside_def by (intro uint_step; linarith)+
qed

lemma walk_cost:
  assumes "inside (an_x n)" "inside (an_y n)" "d \<in> set allNeighbors"
  shows "10 \<le> getMapWalkCost n (neighbor_pos env n d)" "getMapWalkCost n (neighbor_pos env n d) \<le> 35"
  using assms(3) neighbor_uint [OF assms, of env]
  by (cases d; auto simp: getMapWalkCost_def MAP_DIAGONALWALKCOST_def MAP_NORMALWALKCOST_def allNeighbors_def)+

lemma tile_cost: "0 \<le> getTileWalkCost c t" "getTileWalkCost c t \<le> 220"
  by (auto simp: getTileWalkCost_def MAP_NORMALWALKCOST_def split: option.splits)

lemma heuristic_bound: "heuristic env p \<le> 1572840"
proof -
  have u: "\<bar>uint x - uint y\<bar> \<le> 65535" for x y :: u16
  proof -
    have "uint x < 65536" "uint y < 65536"
      using unsigned_less [of x, where ?'a = int] unsigned_less [of y, where ?'a = int] by simp_all
    then show ?thesis using uint_ge_0 [of x] uint_ge_0 [of y] by linarith
  qed
  have "(a - c) * 8 + (b - d) * 8 + max a b * 8 \<le> 1572840" if "a \<le> 65535" "b \<le> 65535" "0 \<le> c" "0 \<le> d" for a b c d :: int
    using that by (simp add: max_def)
  then show ?thesis unfolding heuristic_def Let_def by (simp add: u)
qed

section \<open>One neighbour keeps the tree\<close>

lemma tree_inv_cong: "nodes a' = nodes a \<Longrightarrow> nodesTable a' = nodesTable a \<Longrightarrow> tree_inv env a' = tree_inv env a"
  by (simp add: tree_inv_def child_ok_def node_ok_def node_pos_def)

lemma tree_nodeD:
  assumes "tree_inv env a" "i < length (nodes a)"
  shows "inside (an_x (nodes a ! i))" "inside (an_y (nodes a ! i))" "0 \<le> an_c (nodes a ! i)" "an_c (nodes a ! i) \<le> 220"
    "0 \<le> an_f (nodes a ! i)" "an_f (nodes a ! i) \<le> 255 * (int (length (nodes a)) - 1)" "an_g (nodes a ! i) \<le> 1572840"
  using assms by (simp_all add: tree_inv_def node_ok_def)

lemma tree_position_unique:
  assumes "tree_inv env a" "i < length (nodes a)" "j < length (nodes a)"
    and "an_x (nodes a ! i) = an_x (nodes a ! j)" "an_y (nodes a ! i) = an_y (nodes a ! j)"
  shows "i = j"
proof -
  have "distinct (nodesTable a)" "length (nodesTable a) = length (nodes a)"
    using assms(1) unfolding tree_inv_def by (metis, metis length_map)
  moreover have "nodesTable a ! i = nodesTable a ! j" using assms by (simp add: tree_inv_def)
  ultimately show ?thesis using assms(2,3) by (simp add: nth_eq_iff_index_eq)
qed

definition reparent :: "nat \<Rightarrow> nat \<Rightarrow> int \<Rightarrow> astar \<Rightarrow> astar" where
  "reparent i m newf a = a\<lparr>nodes := (nodes a)[m := (nodes a ! m)\<lparr>an_f := newf, an_parent := Some i\<rparr>]\<rparr>"

lemma reparent_nth:
  "m < length (nodes a) \<Longrightarrow> j < length (nodes a) \<Longrightarrow>
     nodes (reparent i m newf a) ! j = (if j = m then (nodes a ! m)\<lparr>an_f := newf, an_parent := Some i\<rparr> else nodes a ! j)"
  by (simp add: reparent_def nth_list_update)

lemma reparent_xy:
  assumes "m < length (nodes a)" "j < length (nodes a)"
  shows "an_x (nodes (reparent i m newf a) ! j) = an_x (nodes a ! j)" "an_y (nodes (reparent i m newf a) ! j) = an_y (nodes a ! j)"
  using assms by (simp_all add: reparent_nth)

lemma reparent_tree:
  assumes inv: "tree_inv env a" and m: "m < length (nodes a)" "0 < m" and i: "i < length (nodes a)" "i \<noteq> m"
    and way: "way (nodes a ! i) (nodes a ! m) \<in> set allNeighbors"
    and newf: "an_f (nodes a ! i) < newf" "newf < an_f (nodes a ! m)"
  shows "tree_inv env (reparent i m newf a)"
proof -
  let ?b = "reparent i m newf a"
  have len: "length (nodes ?b) = length (nodes a)" and tab: "nodesTable ?b = nodesTable a" by (simp_all add: reparent_def)
  note nth = reparent_nth [OF m(1)] and xy = reparent_xy [OF m(1)]
  have "map (\<lambda>n. xy_key (an_x n) (an_y n)) (nodes ?b) = map (\<lambda>n. xy_key (an_x n) (an_y n)) (nodes a)"
    by (rule nth_equalityI) (simp_all add: len xy)
  moreover have "child_ok env ?b j" if "0 < j" "j < length (nodes a)" for j
  proof -
    have pos: "node_pos env ?b j = node_pos env a j" using xy that by (simp add: node_pos_def)
    have c: "child_ok env a j" using inv that by (simp add: tree_inv_def)
    show ?thesis
    proof (cases "j = m")
      case True
      then show ?thesis using c i m way newf pos xy nth by (auto simp: child_ok_def way_def len)
    next
      case False
      from c obtain p where p: "p < length (nodes a)" "an_parent (nodes a ! j) = Some p"
          "way (nodes a ! p) (nodes a ! j) \<in> set allNeighbors" "an_f (nodes a ! p) < an_f (nodes a ! j)" "enterable env (node_pos env a j)"
        by (auto simp: child_ok_def)
      have "an_f (nodes ?b ! p) \<le> an_f (nodes a ! p)" using nth [OF p(1)] newf by simp
      then show ?thesis
        using p False that pos xy nth [OF that(2)] by (auto simp: child_ok_def way_def len intro!: exI [of _ p])
    qed
  qed
  moreover have "node_ok ?b n" if "n \<in> set (nodes ?b)" for n
  proof -
    from that obtain j where j: "j < length (nodes a)" "n = nodes ?b ! j" by (auto simp: in_set_conv_nth len)
    show ?thesis
      using j nth [OF j(1)] tree_nodeD [OF inv j(1)] tree_nodeD [OF inv m(1)] tree_nodeD [OF inv i(1)] newf
      by (auto simp: node_ok_def len)
  qed
  moreover have "node_pos env ?b 0 = node_pos env a 0" "nodes ?b ! 0 = nodes a ! 0"
    using m nth [of 0] order_less_trans [OF m(2,1)] by (simp_all add: node_pos_def)
  ultimately show ?thesis using inv unfolding tree_inv_def len tab by auto
qed

lemma create_tree:
  assumes inv: "tree_inv env a" and i: "i < length (nodes a)"
    and made: "createOpenNode i x y newf h c a = Some b"
    and new: "xy_key x y \<notin> set (nodesTable a)" "enterable env (Position x y (pos_z (se_start env)))"
    and way: "(uint x - uint (an_x (nodes a ! i)), uint y - uint (an_y (nodes a ! i))) \<in> set allNeighbors"
    and ok: "inside x" "inside y" "0 \<le> c" "c \<le> 220" "h \<le> 1572840" "an_f (nodes a ! i) < newf" "newf \<le> an_f (nodes a ! i) + 255"
  shows "tree_inv env b"
proof -
  let ?n = "\<lparr>an_parent = Some i, an_f = newf, an_g = h, an_c = c, an_x = x, an_y = y\<rparr>"
  have b: "nodes b = nodes a @ [?n]" "nodesTable b = nodesTable a @ [xy_key x y]" "length (nodes a) < MAX_NODES"
    using made by (auto simp: createOpenNode_def split: if_splits)
  have nth: "nodes b ! j = nodes a ! j" if "j < length (nodes a)" for j using that by (simp add: b nth_append)
  have last: "nodes b ! length (nodes a) = ?n" by (simp add: b)
  have "child_ok env b j" if "0 < j" "j < length (nodes b)" for j
  proof (cases "j = length (nodes a)")
    case True
    then show ?thesis using i way new(2) ok(6) nth [OF i] last by (auto simp: child_ok_def way_def node_pos_def b(1) intro!: exI [of _ i])
  next
    case False
    then have j: "j < length (nodes a)" using that by (simp add: b)
    then have "child_ok env a j" using inv that by (simp add: tree_inv_def)
    then obtain p where p: "p < length (nodes a)" "an_parent (nodes a ! j) = Some p"
        "way (nodes a ! p) (nodes a ! j) \<in> set allNeighbors" "an_f (nodes a ! p) < an_f (nodes a ! j)" "enterable env (node_pos env a j)"
      by (auto simp: child_ok_def)
    then show ?thesis using nth [OF j] nth [OF p(1)] by (auto simp: child_ok_def node_pos_def b(1) intro!: exI [of _ p])
  qed
  moreover have "node_ok b n" if "n \<in> set (nodes b)" for n
  proof (cases "n = ?n")
    case True
    then show ?thesis using ok tree_nodeD [OF inv i] by (simp add: node_ok_def b(1))
  next
    case False
    then have "node_ok a n" using that inv by (simp add: b(1) tree_inv_def)
    then show ?thesis by (simp add: node_ok_def b(1))
  qed
  moreover have "0 < length (nodes a)" using inv by (simp add: tree_inv_def)
  ultimately show ?thesis using inv b nth [of 0] new(1) by (auto simp: tree_inv_def node_pos_def)
qed

lemma filter_update_count:
  assumes "m < length bs"
  shows "int (length (filter Not (bs[m := b]))) = int (length (filter Not bs)) + (if bs ! m \<and> \<not> b then 1 else if \<not> bs ! m \<and> b then -1 else 0)"
  using assms
proof (induction bs arbitrary: m)
  case (Cons c bs)
  show ?case
  proof (cases m)
    case (Suc k)
    then show ?thesis using Cons.IH [of k] Cons.prems by (cases b; cases "bs ! k"; cases c; simp)
  qed simp
qed simp

lemma open_tables:
  assumes "tables_inv a" "m < length (nodes a)" "length (nodes a) \<le> MAX_NODES"
  shows "tables_inv (openNode m (reparent i m newf a))"
proof -
  let ?b = "openNode m (reparent i m newf a)"
  have nth: "nodes ?b ! j = (if j = m then (nodes a ! m)\<lparr>an_f := newf, an_parent := Some i\<rparr> else nodes a ! j)" if "j < length (nodes a)" for j
    using that assms(2) by (simp add: openNode_def reparent_nth)
  have "calculatedNodes ?b ! k = (if k < length (nodes ?b) \<and> openNodes ?b ! k then cost_of (nodes ?b ! k) else INT32_MAX)" if "k < MAX_NODES" for k
  proof (cases "k = m")
    case True
    then show ?thesis using assms that by (simp add: openNode_def reparent_def tables_inv_def)
  next
    case False
    then have "calculatedNodes ?b ! k = calculatedNodes a ! k" "k < length (nodes a) \<Longrightarrow> nodes ?b ! k = nodes a ! k" "openNodes ?b ! k = openNodes a ! k"
      using nth by (simp_all add: openNode_def reparent_def)
    then show ?thesis using assms(1) that by (simp add: tables_inv_def openNode_def reparent_def)
  qed
  then show ?thesis
    using assms filter_update_count [of m "openNodes a" True] by (simp add: tables_inv_def openNode_def reparent_def)
qed

lemma create_tables:
  assumes "tables_inv a" "createOpenNode i x y newf h c a = Some b"
  shows "tables_inv b"
proof -
  have b: "nodes b = nodes a @ [\<lparr>an_parent = Some i, an_f = newf, an_g = h, an_c = c, an_x = x, an_y = y\<rparr>]"
      "openNodes b = openNodes a @ [True]" "calculatedNodes b = (calculatedNodes a)[length (nodes a) := newf + h]"
      "closedNodes b = closedNodes a" "length (nodes a) < MAX_NODES"
    using assms(2) by (auto simp: createOpenNode_def split: if_splits)
  have "calculatedNodes b ! k = (if k < length (nodes b) \<and> openNodes b ! k then cost_of (nodes b ! k) else INT32_MAX)" if "k < MAX_NODES" for k
  proof (cases "k = length (nodes a)")
    case True
    then show ?thesis using assms(1) that by (simp add: b tables_inv_def cost_of_def nth_append)
  next
    case False
    then show ?thesis using assms(1) that by (simp add: b tables_inv_def nth_append)
  qed
  then show ?thesis using assms(1) by (simp add: tables_inv_def b)
qed

lemma close_tables:
  assumes "tables_inv a" "i < length (nodes a)" "openNodes a ! i" "length (nodes a) \<le> MAX_NODES"
  shows "tables_inv (closeNode i a)"
proof -
  have "calculatedNodes (closeNode i a) ! k = (if k < length (nodes (closeNode i a)) \<and> openNodes (closeNode i a) ! k
      then cost_of (nodes (closeNode i a) ! k) else INT32_MAX)" if "k < MAX_NODES" for k
    using assms that by (cases "k = i") (auto simp: closeNode_def tables_inv_def)
  then show ?thesis
    using assms filter_update_count [of i "openNodes a" False] by (simp add: tables_inv_def closeNode_def)
qed

section \<open>One neighbour\<close>

text \<open>
  What a visit may do: closed nodes that stay closed are untouched, nodes keep their place, and
  either nothing happens, a node is added, or a cost falls.
\<close>

definition fsum :: "astar \<Rightarrow> nat" where
  "fsum a = (\<Sum>n \<leftarrow> nodes a. nat (an_f n))"

definition moved_on :: "nat \<Rightarrow> astar \<Rightarrow> astar \<Rightarrow> bool" where
  "moved_on i a b \<longleftrightarrow> length (nodes a) \<le> length (nodes b) \<and> nodes b ! i = nodes a ! i \<and> openNodes b ! i = openNodes a ! i
     \<and> (\<forall>j < length (nodes a). nodesTable b ! j = nodesTable a ! j
          \<and> an_x (nodes b ! j) = an_x (nodes a ! j) \<and> an_y (nodes b ! j) = an_y (nodes a ! j))
     \<and> (\<forall>j < length (nodes b). \<not> openNodes b ! j \<longrightarrow> j < length (nodes a) \<and> \<not> openNodes a ! j \<and> nodes b ! j = nodes a ! j)
     \<and> (b = a \<or> length (nodes a) < length (nodes b) \<or> (length (nodes b) = length (nodes a) \<and> fsum b < fsum a))"

lemma sum_list_update_nat: "m < length xs \<Longrightarrow> sum_list (xs[m := x]) + xs ! m = sum_list xs + (x :: nat)"
  by (induction xs arbitrary: m) (auto split: nat.splits)

lemma fsum_reparent:
  assumes "tree_inv env a" "m < length (nodes a)" "0 \<le> newf" "newf < an_f (nodes a ! m)"
  shows "fsum (openNode m (reparent i m newf a)) < fsum a"
proof -
  have "map (\<lambda>n. nat (an_f n)) (nodes (reparent i m newf a)) = (map (\<lambda>n. nat (an_f n)) (nodes a))[m := nat newf]"
    by (simp add: reparent_def map_update)
  then have "fsum (openNode m (reparent i m newf a)) + nat (an_f (nodes a ! m)) = fsum a + nat newf"
    using sum_list_update_nat [of m "map (\<lambda>n. nat (an_f n)) (nodes a)" "nat newf"] assms(2) by (simp add: fsum_def openNode_def)
  then show ?thesis using assms(3,4) by linarith
qed

lemma neighbor_way:
  assumes "inside (an_x n)" "inside (an_y n)" "d \<in> set allNeighbors"
  shows "(uint (pos_x (neighbor_pos env n d)) - uint (an_x n), uint (pos_y (neighbor_pos env n d)) - uint (an_y n)) = d"
  using neighbor_uint [OF assms, of env] by (cases d) simp

definition seen :: "search_env \<Rightarrow> astar \<Rightarrow> position \<Rightarrow> bool" where
  "seen env a p \<longleftrightarrow> \<not> enterable env p \<or> (\<exists>j < length (nodes a). node_pos env a j = p)"

lemma update_visited:
  assumes inv: "tree_inv env a" "tables_inv a" and i: "i < length (nodes a)" and m: "m < length (nodes a)"
    and d: "d \<in> set allNeighbors" and at: "an_x (nodes a ! m) = pos_x (neighbor_pos env (nodes a ! i) d)"
      "an_y (nodes a ! m) = pos_y (neighbor_pos env (nodes a ! i) d)"
    and newf: "newf = an_f (nodes a ! i) + getMapWalkCost (nodes a ! i) (neighbor_pos env (nodes a ! i) d) + an_c (nodes a ! m)"
      "newf < an_f (nodes a ! m)"
  defines "b \<equiv> openNode m (reparent i m newf a)"
  shows "tree_inv env b \<and> tables_inv b \<and> moved_on i a b"
proof -
  note at_i = tree_nodeD [OF inv(1) i] and at_m = tree_nodeD [OF inv(1) m]
  note cost = walk_cost [OF at_i(1,2) d, of env] and w = neighbor_way [OF at_i(1,2) d, of env]
  have pos: "an_f (nodes a ! i) < newf" using newf(1) cost(1) at_m(3) by linarith
  have m0: "0 < m" using newf(2) pos at_i(5) inv(1) by (cases m) (auto simp: tree_inv_def)
  have ne: "i \<noteq> m" using pos newf(2) by auto
  have way: "way (nodes a ! i) (nodes a ! m) \<in> set allNeighbors" using w at d by (simp add: way_def)
  have "tree_inv env (reparent i m newf a)" by (rule reparent_tree [OF inv(1) m m0 i ne way pos newf(2)])
  then have "tree_inv env b" by (simp add: b_def openNode_def tree_inv_cong [of b "reparent i m newf a", unfolded b_def openNode_def])
  moreover have "tables_inv b" unfolding b_def using open_tables [OF inv(2) m] inv(1) by (simp add: tree_inv_def)
  moreover have "moved_on i a b"
  proof -
    have "fsum b < fsum a" unfolding b_def using fsum_reparent [OF inv(1) m _ newf(2)] pos at_i(5) by simp
    moreover have "length (openNodes a) = length (nodes a)" using inv(2) by (simp add: tables_inv_def)
    ultimately show ?thesis
      using ne i m by (auto simp: moved_on_def b_def openNode_def reparent_def nth_list_update)
  qed
  ultimately show ?thesis by blast
qed

lemma create_visited:
  assumes inv: "tree_inv env a" "tables_inv a" and i: "i < length (nodes a)" and d: "d \<in> set allNeighbors"
    and p: "p = neighbor_pos env (nodes a ! i) d" and new: "xy_key (pos_x p) (pos_y p) \<notin> set (nodesTable a)"
    and enter: "enterable env p" "open_map env"
    and made: "createOpenNode i (pos_x p) (pos_y p) (an_f (nodes a ! i) + getMapWalkCost (nodes a ! i) p + getTileWalkCost c t)
      (heuristic env p) (getTileWalkCost c t) a = Some b"
  shows "tree_inv env b \<and> tables_inv b \<and> moved_on i a b \<and> node_pos env b (length (nodes a)) = p \<and> length (nodes b) = Suc (length (nodes a))"
proof -
  note at_i = tree_nodeD [OF inv(1) i]
  note cost = walk_cost [OF at_i(1,2) d, of env, folded p] and w = neighbor_way [OF at_i(1,2) d, of env, folded p]
  have same: "Position (pos_x p) (pos_y p) (pos_z (se_start env)) = p" by (simp add: p neighbor_pos_def)
  have inside: "inside (pos_x p)" "inside (pos_y p)" using enter by (auto simp: enterable_def open_map_def)
  have "tree_inv env b"
    using create_tree [OF inv(1) i made new] same enter(1) w d inside cost tile_cost [of c t] heuristic_bound [of env p] by simp
  moreover have "tables_inv b" by (rule create_tables [OF inv(2) made])
  moreover have len: "length (openNodes a) = length (nodes a)" "length (nodesTable a) = length (nodes a)"
    using inv unfolding tables_inv_def tree_inv_def by (simp, metis length_map)
  moreover have b: "nodes b = nodes a @ [\<lparr>an_parent = Some i, an_f = an_f (nodes a ! i) + getMapWalkCost (nodes a ! i) p + getTileWalkCost c t,
        an_g = heuristic env p, an_c = getTileWalkCost c t, an_x = pos_x p, an_y = pos_y p\<rparr>]"
      "openNodes b = openNodes a @ [True]" "nodesTable b = nodesTable a @ [xy_key (pos_x p) (pos_y p)]"
    using made by (auto simp: createOpenNode_def split: if_splits)
  moreover have "moved_on i a b"
    using i len by (auto simp: moved_on_def b nth_append less_Suc_eq)
  ultimately show ?thesis using same by (simp add: node_pos_def)
qed

lemma visit_keeps:
  assumes inv: "tree_inv env a" "tables_inv a" and i: "i < length (nodes a)" and d: "d \<in> set allNeighbors"
    and map: "open_map env" and v: "visit env i (nodes a ! i) d a = Some b"
  shows "tree_inv env b \<and> tables_inv b \<and> moved_on i a b \<and> seen env b (neighbor_pos env (nodes a ! i) d)"
proof -
  define p where "p = neighbor_pos env (nodes a ! i) d"
  have nonempty: "nodesTable a \<noteq> []" using inv(1) i by (auto simp: tree_inv_def)
  have same: "b = a \<Longrightarrow> tree_inv env b \<and> tables_inv b \<and> moved_on i a b" using inv by (auto simp: moved_on_def)
  consider (skip) "b = a" "se_skip env p"
    | (known) m where "getNodeByPosition (se_simd env) (pos_x p) (pos_y p) a = Some m"
        "b = a \<or> (an_f (nodes a ! i) + getMapWalkCost (nodes a ! i) p + an_c (nodes a ! m) < an_f (nodes a ! m)
           \<and> b = openNode m (reparent i m (an_f (nodes a ! i) + getMapWalkCost (nodes a ! i) p + an_c (nodes a ! m)) a))"
    | (wall) "b = a" "se_tile env p = None"
    | (made) t where "\<not> se_skip env p" "getNodeByPosition (se_simd env) (pos_x p) (pos_y p) a = None" "se_tile env p = Some t"
        "createOpenNode i (pos_x p) (pos_y p) (an_f (nodes a ! i) + getMapWalkCost (nodes a ! i) p + getTileWalkCost (se_creature env) (Some t))
          (heuristic env p) (getTileWalkCost (se_creature env) (Some t)) a = Some b"
    using v unfolding visit_def p_def [symmetric] Let_def reparent_def
    by (auto split: if_splits option.splits)
  then show ?thesis unfolding p_def [symmetric]
  proof cases
    case skip
    then show "tree_inv env b \<and> tables_inv b \<and> moved_on i a b \<and> seen env b p" using same by (simp add: seen_def enterable_def)
  next
    case (known m)
    then have m: "m < length (nodes a)" "nodesTable a ! m = xy_key (pos_x p) (pos_y p)"
      using getNodeByPosition_sound [OF known(1) nonempty] inv(1) by (auto simp: tree_inv_def)
    then have at: "an_x (nodes a ! m) = pos_x p" "an_y (nodes a ! m) = pos_y p"
      using inv(1) by (simp_all add: tree_inv_def xy_key_inject)
    then have "node_pos env a m = p" by (simp add: node_pos_def p_def neighbor_pos_def)
    then have "seen env b p" if "moved_on i a b"
      using that m(1) by (auto simp: seen_def moved_on_def node_pos_def intro!: exI [of _ m])
    moreover have "tree_inv env b \<and> tables_inv b \<and> moved_on i a b"
      using known(2) same update_visited [OF inv i m(1) d at [unfolded p_def] refl] by (auto simp: p_def)
    ultimately show "tree_inv env b \<and> tables_inv b \<and> moved_on i a b \<and> seen env b p" by blast
  next
    case wall
    then show "tree_inv env b \<and> tables_inv b \<and> moved_on i a b \<and> seen env b p" using same by (simp add: seen_def enterable_def)
  next
    case (made t)
    have new: "xy_key (pos_x p) (pos_y p) \<notin> set (nodesTable a)" by (rule getNodeByPosition_none [OF made(2) nonempty])
    have "enterable env p" using made by (simp add: enterable_def)
    from create_visited [OF inv i d p_def new this map made(4)] show "tree_inv env b \<and> tables_inv b \<and> moved_on i a b \<and> seen env b p"
      by (auto simp: seen_def)
  qed
qed

section \<open>All neighbours, and one round\<close>

lemma moved_on_trans: "moved_on i a b \<Longrightarrow> moved_on i b c \<Longrightarrow> moved_on i a c"
  unfolding moved_on_def by (intro conjI; elim conjE; auto)

lemma moved_on_refl [simp]: "moved_on i a a"
  by (auto simp: moved_on_def)

lemma seen_moved_on: "seen env a p \<Longrightarrow> moved_on i a b \<Longrightarrow> seen env b p"
  by (fastforce simp: seen_def moved_on_def node_pos_def)

lemma expand_keeps:
  assumes "tree_inv env a" "tables_inv a" "i < length (nodes a)" "set ds \<subseteq> set allNeighbors" "open_map env"
    and "expand env found i (nodes a ! i) ds a = Some b"
  shows "tree_inv env b \<and> tables_inv b \<and> moved_on i a b
     \<and> (\<not> found \<longrightarrow> (\<forall>d \<in> set ds. seen env b (neighbor_pos env (nodes a ! i) d)))"
  using assms
proof (induction ds arbitrary: a)
  case (Cons d ds)
  show ?case
  proof (cases "visit env i (nodes a ! i) d a")
    case None
    then show ?thesis using Cons.prems by (auto split: if_splits)
  next
    case (Some a1)
    have v: "tree_inv env a1" "tables_inv a1" "moved_on i a a1" "seen env a1 (neighbor_pos env (nodes a ! i) d)"
      using visit_keeps [OF Cons.prems(1,2,3) _ Cons.prems(5) Some] Cons.prems(4) by auto
    have same: "nodes a1 ! i = nodes a ! i" "i < length (nodes a1)" using v(3) Cons.prems(3) by (auto simp: moved_on_def)
    have "expand env found i (nodes a1 ! i) ds a1 = Some b" using Cons.prems(6) Some same by simp
    from Cons.IH [OF v(1,2) same(2) _ Cons.prems(5) this] Cons.prems(4)
    have r: "tree_inv env b" "tables_inv b" "moved_on i a1 b"
        "\<not> found \<longrightarrow> (\<forall>d \<in> set ds. seen env b (neighbor_pos env (nodes a ! i) d))" using same by auto
    then show ?thesis using v moved_on_trans [OF v(3) r(3)] seen_moved_on [OF v(4) r(3)] by auto
  qed
qed auto

text \<open>What is asked of the condition, as the one of the code answers.\<close>

definition fair_condition :: "search_env \<Rightarrow> bool" where
  "fair_condition env \<longleftrightarrow> (\<forall>p b. (\<not> fst (se_condition env p b) \<longrightarrow> snd (se_condition env p b) = b)
     \<and> (0 \<le> b \<longrightarrow> 0 \<le> snd (se_condition env p b) \<and> (fst (se_condition env p b) \<longrightarrow> fst (se_condition env p 0))))"

definition good :: "search_env \<Rightarrow> position \<Rightarrow> bool" where
  "good env p \<longleftrightarrow> fst (se_condition env p 0)"

definition closed_done :: "search_env \<Rightarrow> astar \<Rightarrow> nat \<Rightarrow> bool" where
  "closed_done env a j \<longleftrightarrow> (\<forall>d \<in> set (neighbors a j). seen env a (neighbor_pos env (nodes a ! j) d)) \<and> \<not> good env (node_pos env a j)"

definition search_inv :: "search_env \<Rightarrow> astar \<Rightarrow> find \<Rightarrow> int \<Rightarrow> bool" where
  "search_inv env a found best \<longleftrightarrow> tree_inv env a \<and> tables_inv a \<and> 0 \<le> best
     \<and> (case found of
          None \<Rightarrow> best = 0 \<and> (\<forall>j < length (nodes a). \<not> openNodes a ! j \<longrightarrow> closed_done env a j)
        | Some (i, p) \<Rightarrow> i < length (nodes a) \<and> p = node_pos env a i \<and> good env p)"

lemma neighbors_cong:
  assumes "nodes b ! j = nodes a ! j"
    and "\<And>p. an_parent (nodes a ! j) = Some p \<Longrightarrow> an_x (nodes b ! p) = an_x (nodes a ! p) \<and> an_y (nodes b ! p) = an_y (nodes a ! p)"
  shows "neighbors b j = neighbors a j"
  using assms by (auto simp: neighbors_def split: option.splits)

lemma parent_below: "tree_inv env a \<Longrightarrow> j < length (nodes a) \<Longrightarrow> an_parent (nodes a ! j) = Some p \<Longrightarrow> p < length (nodes a)"
  by (cases j) (auto simp: tree_inv_def child_ok_def)

lemma closed_done_moved:
  assumes "tree_inv env a" "moved_on i a b" "j < length (nodes b)" "\<not> openNodes b ! j"
    and "j < length (nodes a) \<Longrightarrow> \<not> openNodes a ! j \<Longrightarrow> closed_done env a j"
  shows "closed_done env b j"
proof -
  have j: "j < length (nodes a)" "\<not> openNodes a ! j" "nodes b ! j = nodes a ! j" using assms(2,3,4) by (auto simp: moved_on_def)
  have "neighbors b j = neighbors a j"
    by (rule neighbors_cong [OF j(3)]) (use parent_below [OF assms(1) j(1)] assms(2) in \<open>auto simp: moved_on_def\<close>)
  then show ?thesis
    using assms(5) [OF j(1,2)] j(3) seen_moved_on [OF _ assms(2)] by (auto simp: closed_done_def node_pos_def)
qed

text \<open>Progress: nodes are added, or costs fall, or a node is closed for good.\<close>

definition progress_measure :: "(astar \<times> astar) set" where
  "progress_measure = measures [\<lambda>a. MAX_NODES - length (nodes a), fsum, \<lambda>a. length (filter id (openNodes a))]"

lemma wf_progress: "wf progress_measure"
  by (simp add: progress_measure_def)

lemma filter_id_close: "i < length bs \<Longrightarrow> bs ! i \<Longrightarrow> length (filter id (bs[i := False])) < length (filter id bs)"
proof (induction bs arbitrary: i)
  case (Cons b bs)
  then show ?case by (cases i) auto
qed simp

lemma close_progress:
  assumes "tree_inv env b" "moved_on i a b" "tables_inv a" "i < length (nodes a)" "openNodes a ! i"
  shows "(closeNode i b, a) \<in> progress_measure"
proof -
  have len: "length (openNodes a) = length (nodes a)" using assms(3) by (simp add: tables_inv_def)
  have close: "nodes (closeNode i b) = nodes b" "openNodes (closeNode i b) = (openNodes b)[i := False]" "fsum (closeNode i b) = fsum b"
    by (simp_all add: closeNode_def fsum_def)
  have "length (nodes b) \<le> MAX_NODES" using assms(1) by (simp add: tree_inv_def)
  moreover have "b = a \<or> length (nodes a) < length (nodes b) \<or> (length (nodes b) = length (nodes a) \<and> fsum b < fsum a)"
    using assms(2) by (simp add: moved_on_def)
  ultimately show ?thesis
    using filter_id_close [of i "openNodes a"] assms(4,5) len close by (auto simp: progress_measure_def)
qed

text \<open>How a search can end: with a node, with nothing left to try, or at one of its limits.\<close>

definition exhausted :: "search_env \<Rightarrow> astar \<Rightarrow> bool" where
  "exhausted env a \<longleftrightarrow> tree_inv env a \<and> (\<forall>j < length (nodes a). closed_done env a j)"

definition at_limit :: "search_env \<Rightarrow> astar \<Rightarrow> bool" where
  "at_limit env a \<longleftrightarrow> tree_inv env a \<and> tables_inv a
     \<and> ((length (nodes a) = MAX_NODES \<and> (\<exists>i < length (nodes a). \<exists>d \<in> set allNeighbors. \<not> seen env a (neighbor_pos env (nodes a ! i) d)))
        \<or> (\<not> se_unlimited env \<and> 100 \<le> closedNodes a))"

lemma visit_full:
  assumes "tree_inv env a" "i < length (nodes a)" "visit env i (nodes a ! i) d a = None"
  shows "length (nodes a) = MAX_NODES \<and> \<not> seen env a (neighbor_pos env (nodes a ! i) d)"
proof -
  define p where "p = neighbor_pos env (nodes a ! i) d"
  have nonempty: "nodesTable a \<noteq> []" using assms(1,2) by (auto simp: tree_inv_def)
  obtain t where v: "\<not> se_skip env p" "getNodeByPosition (se_simd env) (pos_x p) (pos_y p) a = None" "se_tile env p = Some t"
      "length (nodes a) \<ge> MAX_NODES"
    using assms(3) unfolding visit_def p_def [symmetric] Let_def
    by (auto simp: createOpenNode_def split: if_splits option.splits)
  have "node_pos env a j \<noteq> p" if "j < length (nodes a)" for j
  proof
    assume "node_pos env a j = p"
    then have "xy_key (pos_x p) (pos_y p) = nodesTable a ! j" using assms(1) that by (auto simp: tree_inv_def node_pos_def)
    then show False using getNodeByPosition_none [OF v(2) nonempty] assms(1) that by (auto simp: tree_inv_def)
  qed
  then show ?thesis using v assms(1) by (auto simp: tree_inv_def seen_def enterable_def p_def [symmetric])
qed

lemma expand_full:
  assumes "tree_inv env a" "tables_inv a" "i < length (nodes a)" "set ds \<subseteq> set allNeighbors" "open_map env"
    and "expand env found i (nodes a ! i) ds a = None"
  shows "\<not> found \<and> (\<exists>b. at_limit env b)"
  using assms
proof (induction ds arbitrary: a)
  case (Cons d ds)
  show ?case
  proof (cases "visit env i (nodes a ! i) d a")
    case None
    then have "at_limit env a" using visit_full [OF Cons.prems(1,3) None] Cons.prems by (auto simp: at_limit_def)
    then show ?thesis using None Cons.prems by (auto split: if_splits)
  next
    case (Some a1)
    have v: "tree_inv env a1" "tables_inv a1" "moved_on i a a1"
      using visit_keeps [OF Cons.prems(1,2,3) _ Cons.prems(5) Some] Cons.prems(4) by auto
    then have "nodes a1 ! i = nodes a ! i" "i < length (nodes a1)" using Cons.prems(3) by (auto simp: moved_on_def)
    then show ?thesis using Cons.IH [OF v(1,2)] Cons.prems Some by auto
  qed
qed simp

lemma tree_close: "tree_inv env (closeNode i a) = tree_inv env a"
  by (rule tree_inv_cong) (simp_all add: closeNode_def)

lemma node_pos_close [simp]: "node_pos env (closeNode i a) j = node_pos env a j"
  by (simp add: node_pos_def closeNode_def)

lemma closed_done_close [simp]: "closed_done env (closeNode i a) j = closed_done env a j"
  by (simp add: closed_done_def seen_def neighbors_def node_pos_def closeNode_def cong: option.case_cong)

text \<open>One round from the node chosen.\<close>

definition round_ok :: "search_env \<Rightarrow> astar \<Rightarrow> round \<Rightarrow> bool" where
  "round_ok env a r = (case r of
       Return_false \<Rightarrow> (\<exists>b. exhausted env b \<or> at_limit env b)
     | Leave b found \<Rightarrow> tree_inv env b \<and> (case found of None \<Rightarrow> at_limit env b
          | Some (i, p) \<Rightarrow> i < length (nodes b) \<and> p = node_pos env b i \<and> good env p)
     | Again b found best \<Rightarrow> search_inv env b found best \<and> (b, a) \<in> progress_measure)"

lemma round_expands:
  assumes inv: "search_inv env a found best" and fair: "fair_condition env" and map: "open_map env"
    and i: "i < length (nodes a)" "openNodes a ! i"
    and cond: "se_condition env (node_pos env a i) best = (ok, best1)"
    and found1: "found1 = (if ok then Some (i, node_pos env a i) else found)"
    and e: "expand env (found1 \<noteq> None) i (nodes a ! i) (neighbors a i) a = Some b"
  shows "search_inv env (closeNode i b) found1 best1 \<and> (closeNode i b, a) \<in> progress_measure"
proof -
  have t: "tree_inv env a" "tables_inv a" "0 \<le> best" using inv by (auto simp: search_inv_def)
  have sub: "set (neighbors a i) \<subseteq> set allNeighbors" using neighbors_ways by blast
  have b: "tree_inv env b" "tables_inv b" "moved_on i a b"
      "found1 = None \<longrightarrow> (\<forall>d \<in> set (neighbors a i). seen env b (neighbor_pos env (nodes a ! i) d))"
    using expand_keeps [OF t(1,2) i(1) sub map e] by simp_all
  have at: "i < length (nodes b)" "openNodes b ! i" "nodes b ! i = nodes a ! i" "length (nodes b) \<le> MAX_NODES"
    using b i by (auto simp: moved_on_def tree_inv_def)
  have pos: "node_pos env b k = node_pos env a k" if "k < length (nodes a)" for k
    using b(3) that by (simp add: moved_on_def node_pos_def)
  have snd_best: "0 \<le> best1" "\<not> ok \<longrightarrow> best1 = best" "ok \<longrightarrow> good env (node_pos env a i)"
    using fair cond t(3) unfolding fair_condition_def good_def by (metis fst_conv snd_conv)+
  have "search_inv env (closeNode i b) found1 best1"
  proof (cases found1)
    case None
    then have none: "\<not> ok" "found = None" using found1 by (auto split: if_splits)
    then have best0: "best = 0" "best1 = 0" using inv snd_best by (auto simp: search_inv_def)
    have "closed_done env b i"
    proof -
      have "neighbors b i = neighbors a i"
        by (rule neighbors_cong [OF at(3)]) (use parent_below [OF t(1) i(1)] b(3) in \<open>auto simp: moved_on_def\<close>)
      moreover have "\<not> good env (node_pos env a i)" using cond none(1) best0 by (simp add: good_def)
      ultimately show ?thesis using b(4) None at(3) pos [OF i(1)] by (simp add: closed_done_def)
    qed
    moreover have "closed_done env b j" if "j < length (nodes b)" "\<not> openNodes b ! j" for j
      by (rule closed_done_moved [OF t(1) b(3) that]) (use inv none(2) in \<open>simp add: search_inv_def\<close>)
    moreover have len: "length (openNodes b) = length (nodes b)" using b(2) by (simp add: tables_inv_def)
    ultimately have "closed_done env b j" if "j < length (nodes b)" "\<not> (openNodes b)[i := False] ! j" for j
      using that by (cases "j = i") simp_all
    then have "\<forall>j < length (nodes (closeNode i b)). \<not> openNodes (closeNode i b) ! j \<longrightarrow> closed_done env (closeNode i b) j"
      unfolding closed_done_close by (simp add: closeNode_def)
    then show ?thesis
      using None best0 b(1) close_tables [OF b(2) at(1,2,4)] by (simp add: search_inv_def tree_close)
  next
    case (Some f)
    obtain k q where f: "f = (k, q)" by (cases f)
    have "k < length (nodes a) \<and> q = node_pos env a k \<and> good env q"
      using Some f found1 inv i(1) snd_best(3) by (auto simp: search_inv_def split: if_splits)
    then have "k < length (nodes a)" "q = node_pos env a k" "good env (node_pos env a k)" by auto
    moreover have "length (nodes a) \<le> length (nodes b)" using b(3) by (simp add: moved_on_def)
    ultimately show ?thesis
      using Some f b(1) close_tables [OF b(2) at(1,2,4)] pos snd_best(1) by (simp add: search_inv_def tree_close) (simp add: closeNode_def)
  qed
  then show ?thesis using close_progress [OF b(1,3) t(2) i] by blast
qed

lemma round_keeps:
  assumes inv: "search_inv env a found best" and fair: "fair_condition env" and map: "open_map env"
  shows "round_ok env a (search_round env a found best)"
proof -
  have t: "tree_inv env a" "tables_inv a" "0 \<le> best" using inv by (auto simp: search_inv_def)
  have least: "cheapest a (getBestNode (se_simd env) a)"
    using best_node_cheapest [OF tables_costs [OF t(1,2)]] map by (simp add: open_map_def)
  show ?thesis
  proof (cases "getBestNode (se_simd env) a")
    case None
    then have "\<forall>j < length (nodes a). \<not> openNodes a ! j" using least by (simp add: cheapest_def)
    then have "found = None \<Longrightarrow> exhausted env a" using inv by (simp add: search_inv_def exhausted_def)
    then show ?thesis
      using None inv by (auto simp: search_round_def round_ok_def search_inv_def split: option.splits)
  next
    case (Some i)
    then have i: "i < length (nodes a)" "openNodes a ! i" using least by (auto simp: cheapest_def)
    obtain ok best1 where cond: "se_condition env (node_pos env a i) best = (ok, best1)"
      by (cases "se_condition env (node_pos env a i) best")
    define found1 where "found1 = (if ok then Some (i, node_pos env a i) else found)"
    define e where "e = expand env (found1 \<noteq> None) i (nodes a ! i) (neighbors a i) a"
    have r: "search_round env a found best =
        (if ok \<and> best1 = 0 then Leave a found1
         else case e of None \<Rightarrow> Return_false
           | Some a1 \<Rightarrow> if se_unlimited env \<or> closedNodes (closeNode i a1) < 100
               then Again (closeNode i a1) found1 best1 else Leave (closeNode i a1) found1)"
      using cond unfolding search_round_def Some found1_def e_def Let_def node_pos_def option.case by (simp only: prod.case)
    have sub: "set (neighbors a i) \<subseteq> set allNeighbors" using neighbors_ways by blast
    have ok_good: "ok \<Longrightarrow> good env (node_pos env a i)"
      using fair cond t(3) unfolding fair_condition_def good_def by (metis fst_conv)
    show ?thesis
    proof (cases "ok \<and> best1 = 0")
      case True
      then show ?thesis using r ok_good i t(1) by (simp add: round_ok_def found1_def)
    next
      case False
      show ?thesis
      proof (cases e)
        case None
        then show ?thesis using expand_full [OF t(1,2) i(1) sub map None [unfolded e_def]] r False by (auto simp: round_ok_def)
      next
        case (Some a1)
        have k: "search_inv env (closeNode i a1) found1 best1" "(closeNode i a1, a) \<in> progress_measure"
          using round_expands [OF inv fair map i cond found1_def Some [unfolded e_def]] by auto
        show ?thesis
        proof (cases "se_unlimited env \<or> closedNodes (closeNode i a1) < 100")
          case True
          then show ?thesis using r False Some k by (simp add: round_ok_def)
        next
          case limit: False
          then have "at_limit env (closeNode i a1)" using k by (auto simp: at_limit_def search_inv_def)
          then show ?thesis using r False Some k limit by (auto simp: round_ok_def search_inv_def split: option.splits)
        qed
      qed
    qed
  qed
qed

lemma search_loop_ends:
  assumes "search_inv env a found best" "fair_condition env" "open_map env"
  shows "(search_loop env a found best = Some None \<and> (\<exists>b. exhausted env b \<or> at_limit env b))
     \<or> (\<exists>b i. search_loop env a found best = Some (Some (b, i, node_pos env b i))
           \<and> tree_inv env b \<and> i < length (nodes b) \<and> good env (node_pos env b i))"
  using assms(1)
proof (induction a arbitrary: found best rule: wf_induct_rule [OF wf_progress])
  case (1 a)
  note ok = round_keeps [OF "1.prems" assms(2,3)]
  show ?case
  proof (cases "search_round env a found best")
    case Return_false
    then show ?thesis using ok by (simp add: search_loop.simps [of env a] round_ok_def)
  next
    case (Leave b f)
    then show ?thesis using ok by (cases f) (auto simp: search_loop.simps [of env a] round_ok_def)
  next
    case (Again b f best1)
    then have "search_inv env b f best1" "(b, a) \<in> progress_measure" using ok by (simp_all add: round_ok_def)
    moreover have "search_loop env a found best = search_loop env b f best1" using Again by (simp add: search_loop.simps [of env a])
    ultimately show ?thesis using "1.IH" [of b f best1] by simp
  qed
qed

lemma search_inv_start:
  assumes "open_map env" "0 \<le> c" "c \<le> 220"
  shows "search_inv env (new_astar (pos_x (se_start env)) (pos_y (se_start env)) c) None 0"
proof -
  let ?a = "new_astar (pos_x (se_start env)) (pos_y (se_start env)) c"
  have "tree_inv env ?a"
    using assms by (cases "se_start env") (auto simp: tree_inv_def new_astar_def node_pos_def MAX_NODES_def node_ok_def open_map_def)
  moreover have "tables_inv ?a"
    by (auto simp: tables_inv_def new_astar_def MAX_NODES_def cost_of_def nth_Cons' less_Suc_eq_0_disj)
  ultimately show ?thesis by (simp add: search_inv_def) (simp add: new_astar_def)
qed

section \<open>The way back, and all that can be reached\<close>

lemma step_direction_way:
  assumes "w \<in> set allNeighbors"
  obtains d where "step_direction (- fst w) (- snd w) = Some d" "offset d = w" "d \<noteq> DIRECTION_NONE"
  using assms by (auto simp: allNeighbors_def step_direction_def)

lemma go_child:
  assumes "offset d = way (nodes a ! p) (nodes a ! i)"
  shows "go d (node_pos env a p) = node_pos env a i"
  using assms by (simp add: go_def node_pos_def way_def)

lemma walk_back_leads:
  assumes "tree_inv env a" "i < length (nodes a)"
  shows "\<exists>ds. walk_back a (uint (an_x (nodes a ! i)), uint (an_y (nodes a ! i))) (an_parent (nodes a ! i)) = Some ds
     \<and> walks env (se_start env) (rev ds) (node_pos env a i)"
  using assms(2)
proof (induction "nat (an_f (nodes a ! i))" arbitrary: i rule: less_induct)
  case less
  show ?case
  proof (cases "i = 0")
    case True
    then show ?thesis using assms(1) by (simp add: walk_back.simps tree_inv_def)
  next
    case False
    then have "child_ok env a i" using assms(1) less.prems by (simp add: tree_inv_def)
    then obtain p where p: "p < length (nodes a)" "an_parent (nodes a ! i) = Some p"
        "way (nodes a ! p) (nodes a ! i) \<in> set allNeighbors" "an_f (nodes a ! p) < an_f (nodes a ! i)" "enterable env (node_pos env a i)"
      by (auto simp: child_ok_def)
    have "nat (an_f (nodes a ! p)) < nat (an_f (nodes a ! i))" using p(4) tree_nodeD(5) [OF assms(1) p(1)] by simp
    from less.hyps [OF this p(1)] obtain ds where
      ds: "walk_back a (uint (an_x (nodes a ! p)), uint (an_y (nodes a ! p))) (an_parent (nodes a ! p)) = Some ds"
        "walks env (se_start env) (rev ds) (node_pos env a p)" by blast
    obtain d where d: "step_direction (- fst (way (nodes a ! p) (nodes a ! i))) (- snd (way (nodes a ! p) (nodes a ! i))) = Some d"
        "offset d = way (nodes a ! p) (nodes a ! i)" "d \<noteq> DIRECTION_NONE"
      by (rule step_direction_way [OF p(3)])
    have "walk_back a (uint (an_x (nodes a ! i)), uint (an_y (nodes a ! i))) (Some p) = Some (d # ds)"
      using ds(1) d(1) by (subst walk_back.simps) (simp add: Let_def way_def)
    moreover have "walks env (se_start env) (rev (d # ds)) (node_pos env a i)"
      using ds(2) d(3) p(5) go_child [OF d(2), of env] by (auto simp: walks_snoc)
    ultimately show ?thesis using p(2) by metis
  qed
qed

definition reachable :: "search_env \<Rightarrow> position set" where
  "reachable env = {p. \<exists>ds. walks env (se_start env) ds p}"

lemma nodes_reachable: "tree_inv env a \<Longrightarrow> i < length (nodes a) \<Longrightarrow> node_pos env a i \<in> reachable env"
  using walk_back_leads [of env a i] by (auto simp: reachable_def)

lemma reachable_step: "p \<in> reachable env \<Longrightarrow> enterable env (go d p) \<Longrightarrow> d \<noteq> DIRECTION_NONE \<Longrightarrow> go d p \<in> reachable env"
proof -
  assume "p \<in> reachable env" and step: "enterable env (go d p)" "d \<noteq> DIRECTION_NONE"
  then obtain ds where "walks env (se_start env) ds p" by (auto simp: reachable_def)
  then have "walks env (se_start env) (ds @ [d]) (go d p)" using step by (auto simp: walks_snoc)
  then show ?thesis by (auto simp: reachable_def)
qed

text \<open>
  Five directions are enough: a position next to a node that is not tried from it is next to the
  parent, or the parent itself.
\<close>

lemma pruned_directions:
  assumes "w \<in> set allNeighbors" "d \<in> set allNeighbors" "d \<notin> set (dirNeighbors (parent_direction (fst w) (snd w)))" "d \<noteq> w"
  shows "(fst d - fst w, snd d - snd w) \<in> set allNeighbors"
proof -
  have "\<forall>w \<in> set allNeighbors. \<forall>d \<in> set allNeighbors. d \<notin> set (dirNeighbors (parent_direction (fst w) (snd w))) \<and> d \<noteq> w
      \<longrightarrow> (fst d - fst w, snd d - snd w) \<in> set allNeighbors"
    by code_simp
  then show ?thesis using assms by blast
qed

lemma opposite_way: "w \<in> set allNeighbors \<Longrightarrow> (- fst w, - snd w) \<in> set allNeighbors"
  by (cases w) (auto simp: allNeighbors_def)

lemma exhausted_seen:
  assumes "exhausted env a" "i < length (nodes a)" "d \<in> set allNeighbors"
  shows "seen env a (neighbor_pos env (nodes a ! i) d)"
  using assms(2,3)
proof (induction "nat (an_f (nodes a ! i))" arbitrary: i d rule: less_induct)
  case less
  have t: "tree_inv env a" "closed_done env a i" using assms(1) less.prems by (auto simp: exhausted_def)
  show ?case
  proof (cases "d \<in> set (neighbors a i)")
    case True
    then show ?thesis using t(2) by (simp add: closed_done_def)
  next
    case False
    then have "i \<noteq> 0" using t(1) less.prems(2) by (cases i) (auto simp: neighbors_def tree_inv_def)
    then have "child_ok env a i" using t(1) less.prems by (simp add: tree_inv_def)
    then obtain p where p: "p < length (nodes a)" "an_parent (nodes a ! i) = Some p"
        "way (nodes a ! p) (nodes a ! i) \<in> set allNeighbors" "an_f (nodes a ! p) < an_f (nodes a ! i)"
      by (auto simp: child_ok_def)
    define w where "w = (- fst (way (nodes a ! p) (nodes a ! i)), - snd (way (nodes a ! p) (nodes a ! i)))"
    have w: "w \<in> set allNeighbors" unfolding w_def by (rule opposite_way [OF p(3)])
    have pruned: "d \<notin> set (dirNeighbors (parent_direction (fst w) (snd w)))"
      using False p(2) by (simp add: neighbors_def w_def way_def)
    show ?thesis
    proof (cases "d = w")
      case True
      then have "neighbor_pos env (nodes a ! i) d = node_pos env a p" by (simp add: neighbor_pos_def node_pos_def w_def way_def)
      then show ?thesis using p(1) by (auto simp: seen_def)
    next
      case other: False
      have "nat (an_f (nodes a ! p)) < nat (an_f (nodes a ! i))" using p(4) tree_nodeD(5) [OF t(1) p(1)] by simp
      then have "seen env a (neighbor_pos env (nodes a ! p) (fst d - fst w, snd d - snd w))"
        using less.hyps p(1) pruned_directions [OF w less.prems(2) pruned other] by blast
      moreover have "neighbor_pos env (nodes a ! p) (fst d - fst w, snd d - snd w) = neighbor_pos env (nodes a ! i) d"
        by (simp add: neighbor_pos_def w_def way_def)
      ultimately show ?thesis by simp
    qed
  qed
qed

lemma exhausted_all:
  assumes "exhausted env a" "p \<in> reachable env"
  shows "\<exists>j < length (nodes a). node_pos env a j = p"
proof -
  from assms(2) obtain ds where "walks env (se_start env) ds p" by (auto simp: reachable_def)
  then show ?thesis
  proof (induction ds arbitrary: p rule: rev_induct)
    case Nil
    have "0 < length (nodes a)" "node_pos env a 0 = se_start env" using assms(1) by (auto simp: exhausted_def tree_inv_def)
    then show ?case using Nil by auto
  next
    case (snoc d ds)
    then obtain r where r: "walks env (se_start env) ds r" "d \<noteq> DIRECTION_NONE" "enterable env (go d r)" "p = go d r"
      by (auto simp: walks_snoc)
    from snoc.IH [OF r(1)] obtain j where j: "j < length (nodes a)" "node_pos env a j = r" by blast
    have "offset d \<in> set allNeighbors" using r(2) by (cases d) (auto simp: allNeighbors_def)
    then have "seen env a (neighbor_pos env (nodes a ! j) (offset d))" by (rule exhausted_seen [OF assms(1) j(1)])
    moreover have "neighbor_pos env (nodes a ! j) (offset d) = go d r" using j(2) by (auto simp: neighbor_pos_def go_def node_pos_def)
    ultimately show ?case using r by (auto simp: seen_def)
  qed
qed

lemma finite_positions: "finite (P :: position set)"
proof -
  have "(UNIV :: position set) = (\<lambda>(x, y, z). Position x y z) ` (UNIV :: (u16 \<times> u16 \<times> u8) set)"
  proof (intro set_eqI iffI UNIV_I)
    fix p :: position
    show "p \<in> (\<lambda>(x, y, z). Position x y z) ` UNIV" by (cases p) (auto simp: image_iff)
  qed
  then have "finite (UNIV :: position set)" by (metis finite finite_imageI)
  then show ?thesis by (rule finite_subset [OF subset_UNIV])
qed

text \<open>A search that stops at a limit has as many positions within reach.\<close>

definition room :: "search_env \<Rightarrow> nat" where
  "room env = (if se_unlimited env then MAX_NODES else 99)"

lemma at_limit_many:
  assumes "at_limit env a"
  shows "room env < card (reachable env)"
proof -
  let ?P = "node_pos env a ` {..<length (nodes a)}"
  have t: "tree_inv env a" using assms by (simp add: at_limit_def)
  have "inj_on (node_pos env a) {..<length (nodes a)}"
    using tree_position_unique [OF t] by (auto simp: inj_on_def node_pos_def)
  then have card: "card ?P = length (nodes a)" by (simp add: card_image)
  have sub: "?P \<subseteq> reachable env" using nodes_reachable [OF t] by auto
  then have le: "length (nodes a) \<le> card (reachable env)" using card card_mono [OF finite_positions sub] by simp
  consider i d where "length (nodes a) = MAX_NODES" "i < length (nodes a)" "d \<in> set allNeighbors"
      "\<not> seen env a (neighbor_pos env (nodes a ! i) d)"
    | "\<not> se_unlimited env" "100 \<le> closedNodes a"
    using assms by (auto simp: at_limit_def)
  then show ?thesis
  proof cases
    case 1
    obtain e where e: "offset e = d" "e \<noteq> DIRECTION_NONE"
      using step_direction_way [of d] 1(3) by metis
    then have q: "neighbor_pos env (nodes a ! i) d = go e (node_pos env a i)" by (auto simp: neighbor_pos_def go_def node_pos_def)
    then have "go e (node_pos env a i) \<in> reachable env"
      using 1(4) nodes_reachable [OF t 1(2)] e(2) by (intro reachable_step) (auto simp: seen_def)
    moreover have "go e (node_pos env a i) \<notin> ?P" using 1(4) q by (auto simp: seen_def)
    ultimately have "?P \<subset> reachable env" using sub by blast
    then have "card ?P < card (reachable env)" by (rule psubset_card_mono [OF finite_positions])
    then show ?thesis using card 1(1) by (simp add: room_def MAX_NODES_def)
  next
    case 2
    have "closedNodes a \<le> int (length (nodes a))"
      using assms length_filter_le [of Not "openNodes a"] by (simp add: at_limit_def tables_inv_def)
    then show ?thesis using 2 le by (simp add: room_def)
  qed
qed

lemma path_search_result:
  assumes "open_map env" "fair_condition env"
  shows "(path_search env = Some None \<and> (\<exists>b. exhausted env b \<or> at_limit env b))
     \<or> (\<exists>ds p. path_search env = Some (Some ds) \<and> walks env (se_start env) (rev ds) p \<and> good env p)"
proof -
  define a where "a = new_astar (pos_x (se_start env)) (pos_y (se_start env)) (getTileWalkCost (se_creature env) (getTile (se_world env) (se_start env)))"
  have "search_inv env a None 0" unfolding a_def by (rule search_inv_start [OF assms(1) tile_cost])
  from search_loop_ends [OF this assms(2,1)] show ?thesis
  proof (elim disjE exE conjE)
    fix b i assume l: "search_loop env a None 0 = Some (Some (b, i, node_pos env b i))" and t: "tree_inv env b" "i < length (nodes b)"
      and g: "good env (node_pos env b i)"
    obtain ds where ds: "walk_back b (uint (an_x (nodes b ! i)), uint (an_y (nodes b ! i))) (an_parent (nodes b ! i)) = Some ds"
        "walks env (se_start env) (rev ds) (node_pos env b i)" using walk_back_leads [OF t] by blast
    have "path_search env = Some (Some ds)" using l ds(1) by (simp add: path_search_def Let_def a_def node_pos_def)
    then show ?thesis using ds(2) g by blast
  next
    fix b assume "search_loop env a None 0 = Some None" "exhausted env b"
    then show ?thesis by (auto simp: path_search_def Let_def a_def)
  next
    fix b assume "search_loop env a None 0 = Some None" "at_limit env b"
    then show ?thesis by (auto simp: path_search_def Let_def a_def)
  qed
qed

lemma path_search_complete:
  assumes "open_map env" "fair_condition env" "card (reachable env) \<le> room env" "p \<in> reachable env" "good env p"
  shows "path_search env \<noteq> Some None"
proof
  assume "path_search env = Some None"
  then obtain b where "exhausted env b" using path_search_result [OF assms(1,2)] at_limit_many assms(3) by fastforce
  then obtain j where "j < length (nodes b)" "node_pos env b j = p" using exhausted_all assms(4) by blast
  then show False using \<open>exhausted env b\<close> assms(5) by (auto simp: exhausted_def closed_done_def)
qed

section \<open>The searches of the server\<close>

lemma pathCondition_fair: "0 \<le> b \<Longrightarrow> 0 \<le> snd (pathCondition w t fpp s p b) \<and> (fst (pathCondition w t fpp s p b) \<longrightarrow> fst (pathCondition w t fpp s p 0))"
  "\<not> fst (pathCondition w t fpp s p b) \<Longrightarrow> snd (pathCondition w t fpp s p b) = b"
  by (auto simp: pathCondition_def Let_def split: if_splits)

definition getPathTo_env :: "world \<Rightarrow> simd \<Rightarrow> walker \<Rightarrow> position \<Rightarrow> find_path_params \<Rightarrow> search_env" where
  "getPathTo_env w v creature targetPos fpp =
     (if maxSearchDist fpp \<noteq> 0 \<or> keepDistance fpp then getPathMatchingCond_env w v creature targetPos targetPos fpp
      else getPathMatching_env w v (Some creature) targetPos targetPos fpp)"

lemma getPathTo_search: "getPathTo w v c t fpp = path_search (getPathTo_env w v c t fpp)"
  by (simp add: getPathTo_def getPathTo_env_def getPathMatching_def getPathMatchingCond_def)

lemma getPathTo_fair: "fair_condition (getPathTo_env w v c t fpp)"
  using pathCondition_fair
  by (auto simp: fair_condition_def getPathTo_env_def getPathMatching_env_def getPathMatchingCond_env_def)

lemma getPathTo_start: "se_start (getPathTo_env w v c t fpp) = wk_position c"
  by (simp add: getPathTo_env_def getPathMatching_env_def getPathMatchingCond_env_def)

text \<open>
  C15. The search for a path ends, although nodes that are closed may be opened again, with any
  of the routines the compiler may choose for the best node.
\<close>
theorem path_search_ends:
  assumes "open_map (getPathTo_env w v c t fpp)"
  shows "\<exists>r. getPathTo w v c t fpp = Some r"
  using path_search_result [OF assms getPathTo_fair] by (auto simp: getPathTo_search)

text \<open>
  C16. The directions found lead, from the last to the first, from where the creature stands over
  positions it may enter to one that meets the condition.
\<close>
theorem found_path_leads:
  assumes "open_map (getPathTo_env w v c t fpp)" "getPathTo w v c t fpp = Some (Some ds)"
  shows "\<exists>p. walks (getPathTo_env w v c t fpp) (wk_position c) (rev ds) p \<and> good (getPathTo_env w v c t fpp) p"
  using path_search_result [OF assms(1) getPathTo_fair] assms(2) by (auto simp: getPathTo_search getPathTo_start)

text \<open>
  C17. Nothing is missed: when no more positions are within reach than a search may look at (99, or
  512 with a limit on the distance), a path is found exactly when a position within reach meets the
  condition; the three directions left out at every node but the first lose nothing.
\<close>
theorem search_misses_nothing:
  assumes "open_map (getPathTo_env w v c t fpp)" "card (reachable (getPathTo_env w v c t fpp)) \<le> room (getPathTo_env w v c t fpp)"
  shows "(\<exists>ds. getPathTo w v c t fpp = Some (Some ds))
     \<longleftrightarrow> (\<exists>p \<in> reachable (getPathTo_env w v c t fpp). good (getPathTo_env w v c t fpp) p)"
proof
  assume "\<exists>ds. getPathTo w v c t fpp = Some (Some ds)"
  then show "\<exists>p \<in> reachable (getPathTo_env w v c t fpp). good (getPathTo_env w v c t fpp) p"
    using path_search_result [OF assms(1) getPathTo_fair] by (auto simp: getPathTo_search reachable_def)
next
  assume "\<exists>p \<in> reachable (getPathTo_env w v c t fpp). good (getPathTo_env w v c t fpp) p"
  then have "getPathTo w v c t fpp \<noteq> Some None"
    using path_search_complete [OF assms(1) getPathTo_fair assms(2)] by (auto simp: getPathTo_search)
  then show "\<exists>ds. getPathTo w v c t fpp = Some (Some ds)"
    using path_search_result [OF assms(1) getPathTo_fair] by (auto simp: getPathTo_search)
qed

section \<open>An example\<close>

text \<open>A bent corridor, walked by a player from its west end to a position next to its other end.\<close>

definition floor_tile :: tile_view where
  "floor_tile = \<lparr>tv_ground = True, tv_blockProjectile = False, tv_creature = False, tv_field = None\<rparr>"

definition corridor_tiles :: "position list" where
  "corridor_tiles = [Position 100 100 7, Position 101 100 7, Position 102 101 7, Position 102 102 7]"

definition corridor :: world where
  "corridor p = (if List.member corridor_tiles p then Some floor_tile else None)"

definition visitor :: walker where
  "visitor = \<lparr>wk_position = Position 100 100 7, wk_removed = False, wk_on = (\<lambda>p. p = Position 100 100 7),
     wk_enter = (\<lambda>p. True), wk_immune = (\<lambda>f. False), wk_condition = (\<lambda>f. False), wk_canWalkOnField = None\<rparr>"

definition next_to :: find_path_params where
  "next_to = \<lparr>fullPathSearch = True, clearSight = True, allowDiagonal = True, keepDistance = False, maxSearchDist = 0, minTargetDist = 0, maxTargetDist = 1\<rparr>"

abbreviation corridor_env :: search_env where
  "corridor_env \<equiv> getPathTo_env corridor (Lanes 8) visitor (Position 102 102 7) next_to"

declare search_loop.simps [code] walk_back.simps [code]

lemma corridor_path:
  "getPathTo corridor (Lanes 8) visitor (Position 102 102 7) next_to = Some (Some [DIRECTION_SOUTHEAST, DIRECTION_EAST])"
  by code_simp

lemma corridor_env_fields:
  "se_start corridor_env = Position 100 100 7" "se_skip corridor_env = (\<lambda>p. False)" "se_unlimited corridor_env = False"
  "se_tile corridor_env = canWalkTo corridor (Some visitor)" "se_simd corridor_env = Lanes 8"
  by (simp_all add: getPathTo_env_def getPathMatching_env_def next_to_def visitor_def)

lemma corridor_tile: "canWalkTo corridor (Some visitor) p \<noteq> None \<Longrightarrow> p \<in> set corridor_tiles"
  by (auto simp: canWalkTo_def getTile_def corridor_def visitor_def split: if_splits)

lemma corridor_open: "open_map corridor_env"
  using corridor_tile
  by (fastforce simp: open_map_def corridor_env_fields vector_width_def corridor_tiles_def inside_def)

lemma corridor_small: "card (reachable corridor_env) \<le> room corridor_env"
proof -
  have "p \<in> set corridor_tiles" if "walks corridor_env s ds p" "s \<in> set corridor_tiles" for s ds p
    using that
  proof (induction corridor_env s ds p rule: walks.induct)
    case (2 s d ds q)
    then show ?case using corridor_tile [of "go d s"] by (simp add: enterable_def corridor_env_fields)
  qed simp
  then have "reachable corridor_env \<subseteq> set corridor_tiles"
    by (auto simp: reachable_def corridor_env_fields corridor_tiles_def)
  then have "card (reachable corridor_env) \<le> card (set corridor_tiles)" by (intro card_mono) simp_all
  also have "\<dots> \<le> 4" by (simp add: corridor_tiles_def card_insert_if)
  finally show ?thesis by (simp add: room_def corridor_env_fields)
qed

theorem path_search_ends_witness:
  "\<exists>r. getPathTo corridor (Lanes 8) visitor (Position 102 102 7) next_to = Some r"
  by (rule path_search_ends [OF corridor_open])

theorem found_path_leads_witness:
  "getPathTo corridor (Lanes 8) visitor (Position 102 102 7) next_to = Some (Some [DIRECTION_SOUTHEAST, DIRECTION_EAST])
   \<and> (\<exists>p. walks corridor_env (Position 100 100 7) [DIRECTION_EAST, DIRECTION_SOUTHEAST] p \<and> good corridor_env p)"
  using found_path_leads [OF corridor_open corridor_path] corridor_path by (simp add: visitor_def)

theorem search_misses_nothing_witness:
  "\<exists>p \<in> reachable corridor_env. good corridor_env p"
  using search_misses_nothing [OF corridor_open corridor_small] corridor_path by blast

text \<open>
  Because \<open>getPathMatching\<close> passes the running position as the start, a search that should stay on
  the near side of its target (\<open>fullPathSearch\<close> off) accepts all sides.
\<close>
lemma near_side_ignored: "isInRange t (fpp\<lparr>fullPathSearch := False\<rparr>) p p = isInRange t (fpp\<lparr>fullPathSearch := True\<rparr>) p p"
  by (auto simp: isInRange_def Let_def getOffsetX_def getOffsetY_def)

end
