(* ===== verification/Chat.thy ===== *)
theory Chat
  imports Prelude "HOL-Library.AList"
begin

text \<open>
  Chat channels (src/src/creatures/interactions/chat.cpp) and the requests that drive them
  (src/src/game/game.cpp, \<open>Player::sendClosePrivate\<close>). Players are numbers, looked up in
  \<open>chatters\<close>; a \<open>std::map\<close> is an
  association list in the order of its keys. The channel scripts (\<open>canJoin\<close>, \<open>onJoin\<close>,
  \<open>onSpeak\<close>) are arguments. What is said is kept in \<open>heard\<close>, one entry for each client that is
  sent the message; other notifications and the message of the day are left out.
\<close>

section \<open>Channels\<close>

definition CHANNEL_GUILD :: u16 where "CHANNEL_GUILD = 0"
definition CHANNEL_PARTY :: u16 where "CHANNEL_PARTY = 1"
definition CHANNEL_PRIVATE :: u16 where "CHANNEL_PRIVATE = 0xFFFF"
definition TALKTYPE_CHANNEL_Y :: u8 where "TALKTYPE_CHANNEL_Y = 7"
definition TALKTYPE_CHANNEL_O :: u8 where "TALKTYPE_CHANNEL_O = 8"
definition GUILDLEVEL_MEMBER :: u8 where "GUILDLEVEL_MEMBER = 1"

record chatter =
  ch_id :: u32
  ch_guid :: u32
  ch_name :: string
  ch_premium :: bool
  ch_guild :: "(u32 \<times> string) option"
  ch_rank :: "u8 option"
  ch_party :: "nat option"

record channel =
  cc_id :: u16
  cc_name :: string
  publicChannel :: bool
  users :: "(u32 \<times> nat) list"
  owner :: u32
  invites :: "(u32 \<times> nat) list"

record heard_line =
  hl_by :: nat
  hl_from :: nat
  hl_type :: u8
  hl_text :: string
  hl_channel :: u16

record chat =
  chatters :: "nat \<Rightarrow> chatter"
  normalChannels :: "(u16 \<times> channel) list"
  privateChannels :: "(u16 \<times> channel) list"
  partyChannels :: "(nat \<times> channel) list"
  guildChannels :: "(u32 \<times> channel) list"
  heard :: "heard_line list"

record chat_env =
  ce_canJoin :: "u16 \<Rightarrow> nat \<Rightarrow> bool"
  ce_onJoin :: "u16 \<Rightarrow> nat \<Rightarrow> bool"
  ce_onSpeak :: "u16 \<Rightarrow> nat \<Rightarrow> u8 \<Rightarrow> string \<Rightarrow> bool \<times> u8"

text \<open>Putting a pair into a \<open>std::map\<close>, which is kept in the order of its keys.\<close>

fun put_at :: "'k::linorder \<Rightarrow> 'v \<Rightarrow> ('k \<times> 'v) list \<Rightarrow> ('k \<times> 'v) list" where
  "put_at k v [] = [(k, v)]"
| "put_at k v ((k1, v1) # m) =
     (if k < k1 then (k, v) # (k1, v1) # m else if k = k1 then (k, v) # m else (k1, v1) # put_at k v m)"

definition new_channel :: "u16 \<Rightarrow> string \<Rightarrow> channel" where
  "new_channel channelId channelName =
     \<lparr>cc_id = channelId, cc_name = channelName, publicChannel = False, users = [], owner = 0, invites = []\<rparr>"

definition isInvited :: "u32 \<Rightarrow> channel \<Rightarrow> bool" where
  "isInvited guid c = (if guid = owner c then True else map_of (invites c) guid \<noteq> None)"

definition removeInvite :: "u32 \<Rightarrow> channel \<Rightarrow> bool \<times> channel" where
  "removeInvite guid c = (map_of (invites c) guid \<noteq> None, c\<lparr>invites := AList.delete guid (invites c)\<rparr>)"

definition hasUser :: "(nat \<Rightarrow> chatter) \<Rightarrow> nat \<Rightarrow> channel \<Rightarrow> bool" where
  "hasUser cs p c \<longleftrightarrow> map_of (users c) (ch_id (cs p)) \<noteq> None"

definition addUser :: "chat_env \<Rightarrow> (nat \<Rightarrow> chatter) \<Rightarrow> nat \<Rightarrow> channel \<Rightarrow> bool \<times> channel" where
  "addUser env cs p c =
     (if hasUser cs p c then (False, c)
      else if \<not> ce_onJoin env (cc_id c) p then (False, c)
      else if cc_id c = CHANNEL_GUILD \<and> (case ch_guild (cs p) of None \<Rightarrow> True | Some (guildId, _) \<Rightarrow> guildId = 0)
      then (False, c)
      else (True, c\<lparr>users := put_at (ch_id (cs p)) p (users c)\<rparr>))"

definition removeUser :: "(nat \<Rightarrow> chatter) \<Rightarrow> nat \<Rightarrow> channel \<Rightarrow> bool \<times> channel" where
  "removeUser cs p c =
     (if \<not> hasUser cs p c then (False, c) else (True, c\<lparr>users := AList.delete (ch_id (cs p)) (users c)\<rparr>))"

definition invitePlayer :: "(nat \<Rightarrow> chatter) \<Rightarrow> nat \<Rightarrow> channel \<Rightarrow> channel" where
  "invitePlayer cs q c = (if map_of (invites c) (ch_guid (cs q)) \<noteq> None then c
     else c\<lparr>invites := put_at (ch_guid (cs q)) q (invites c)\<rparr>)"

definition excludePlayer :: "(nat \<Rightarrow> chatter) \<Rightarrow> nat \<Rightarrow> channel \<Rightarrow> channel" where
  "excludePlayer cs q c = (case removeInvite (ch_guid (cs q)) c of
     (False, c1) \<Rightarrow> c1 | (True, c1) \<Rightarrow> snd (removeUser cs q c1))"

definition talk :: "(nat \<Rightarrow> chatter) \<Rightarrow> nat \<Rightarrow> u8 \<Rightarrow> string \<Rightarrow> channel \<Rightarrow> bool \<times> heard_line list" where
  "talk cs p type text c =
     (if \<not> hasUser cs p c then (False, [])
      else (True, map (\<lambda>(_, q). \<lparr>hl_by = q, hl_from = p, hl_type = type, hl_text = text, hl_channel = cc_id c\<rparr>)
              (filter (\<lambda>(u, _). u \<noteq> 0) (users c))))"

section \<open>The table of channels\<close>

text \<open>A pointer to a channel: the table and the key under which it is found.\<close>

datatype channel_ref = Normal u16 | Private u16 | OfParty nat | OfGuild u32 | Dummy_private

definition the_channel :: "chat \<Rightarrow> channel_ref \<Rightarrow> channel option" where
  "the_channel s r = (case r of
       Normal k \<Rightarrow> map_of (normalChannels s) k | Private k \<Rightarrow> map_of (privateChannels s) k
     | OfParty k \<Rightarrow> map_of (partyChannels s) k | OfGuild k \<Rightarrow> map_of (guildChannels s) k
     | Dummy_private \<Rightarrow> Some (new_channel CHANNEL_PRIVATE ''Private Chat Channel''))"

definition put_channel :: "channel_ref \<Rightarrow> channel \<Rightarrow> chat \<Rightarrow> chat" where
  "put_channel r c s = (case r of
       Normal k \<Rightarrow> s\<lparr>normalChannels := put_at k c (normalChannels s)\<rparr>
     | Private k \<Rightarrow> s\<lparr>privateChannels := put_at k c (privateChannels s)\<rparr>
     | OfParty k \<Rightarrow> s\<lparr>partyChannels := put_at k c (partyChannels s)\<rparr>
     | OfGuild k \<Rightarrow> s\<lparr>guildChannels := put_at k c (guildChannels s)\<rparr>
     | Dummy_private \<Rightarrow> s)"

definition getChannel :: "chat_env \<Rightarrow> nat \<Rightarrow> u16 \<Rightarrow> chat \<Rightarrow> channel_ref option" where
  "getChannel env p channelId s =
     (if channelId = CHANNEL_GUILD then
        (case ch_guild (chatters s p) of None \<Rightarrow> None
         | Some (guildId, _) \<Rightarrow> if map_of (guildChannels s) guildId \<noteq> None then Some (OfGuild guildId) else None)
      else if channelId = CHANNEL_PARTY then
        (case ch_party (chatters s p) of None \<Rightarrow> None
         | Some party \<Rightarrow> if map_of (partyChannels s) party \<noteq> None then Some (OfParty party) else None)
      else case map_of (normalChannels s) channelId of
          Some c \<Rightarrow> if ce_canJoin env channelId p then Some (Normal channelId) else None
        | None \<Rightarrow> (case map_of (privateChannels s) channelId of None \<Rightarrow> None
             | Some c \<Rightarrow> if isInvited (ch_guid (chatters s p)) c then Some (Private channelId) else None))"

definition getPrivateChannel :: "nat \<Rightarrow> chat \<Rightarrow> channel_ref option" where
  "getPrivateChannel p s = (case List.find (\<lambda>(k, c). owner c = ch_guid (chatters s p)) (privateChannels s) of
     None \<Rightarrow> None | Some (k, c) \<Rightarrow> Some (Private k))"

text \<open>The first free number from 100 to 9999.\<close>

function free_slot :: "(u16 \<times> channel) list \<Rightarrow> u16 \<Rightarrow> u16 option" where
  "free_slot cs i = (if i < 10000 then if map_of cs i = None then Some i else free_slot cs (i + 1) else None)"
  by auto
termination
  by (relation "measure (\<lambda>(cs, i). 10000 - unat i)") (auto simp: word_less_nat_alt unat_word_ariths)

declare free_slot.simps [simp del]

definition createChannel :: "chat_env \<Rightarrow> nat \<Rightarrow> u16 \<Rightarrow> chat \<Rightarrow> channel_ref option \<times> chat" where
  "createChannel env p channelId s =
     (if getChannel env p channelId s \<noteq> None then (None, s)
      else if channelId = CHANNEL_GUILD then
        (case ch_guild (chatters s p) of None \<Rightarrow> (None, s)
         | Some (guildId, name) \<Rightarrow>
             if map_of (guildChannels s) guildId \<noteq> None then (None, s)
             else (Some (OfGuild guildId), put_channel (OfGuild guildId) (new_channel channelId name) s))
      else if channelId = CHANNEL_PARTY then
        (case ch_party (chatters s p) of None \<Rightarrow> (None, s)
         | Some party \<Rightarrow>
             if map_of (partyChannels s) party \<noteq> None then (None, s)
             else (Some (OfParty party), put_channel (OfParty party) (new_channel channelId ''Party'') s))
      else if channelId = CHANNEL_PRIVATE then
        (if \<not> ch_premium (chatters s p) \<or> getPrivateChannel p s \<noteq> None then (None, s)
         else case free_slot (privateChannels s) 100 of None \<Rightarrow> (None, s)
           | Some i \<Rightarrow> (Some (Private i),
               put_channel (Private i) (new_channel i (ch_name (chatters s p) @ '''s Channel'')\<lparr>owner := ch_guid (chatters s p)\<rparr>) s))
      else (None, s))"

definition deleteChannel :: "nat \<Rightarrow> u16 \<Rightarrow> chat \<Rightarrow> bool \<times> chat" where
  "deleteChannel p channelId s =
     (if channelId = CHANNEL_GUILD then
        (case ch_guild (chatters s p) of None \<Rightarrow> (False, s)
         | Some (guildId, _) \<Rightarrow> if map_of (guildChannels s) guildId = None then (False, s)
             else (True, s\<lparr>guildChannels := AList.delete guildId (guildChannels s)\<rparr>))
      else if channelId = CHANNEL_PARTY then
        (case ch_party (chatters s p) of None \<Rightarrow> (False, s)
         | Some party \<Rightarrow> if map_of (partyChannels s) party = None then (False, s)
             else (True, s\<lparr>partyChannels := AList.delete party (partyChannels s)\<rparr>))
      else if map_of (privateChannels s) channelId = None then (False, s)
      else (True, s\<lparr>privateChannels := AList.delete channelId (privateChannels s)\<rparr>))"

definition addUserToChannel :: "chat_env \<Rightarrow> nat \<Rightarrow> u16 \<Rightarrow> chat \<Rightarrow> channel_ref option \<times> chat" where
  "addUserToChannel env p channelId s = (case getChannel env p channelId s of None \<Rightarrow> (None, s)
     | Some r \<Rightarrow> (case the_channel s r of None \<Rightarrow> (None, s)
         | Some c \<Rightarrow> (case addUser env (chatters s) p c of
             (True, c1) \<Rightarrow> (Some r, put_channel r c1 s) | (False, c1) \<Rightarrow> (None, s))))"

definition removeUserFromChannel :: "chat_env \<Rightarrow> nat \<Rightarrow> u16 \<Rightarrow> chat \<Rightarrow> bool \<times> chat" where
  "removeUserFromChannel env p channelId s = (case getChannel env p channelId s of None \<Rightarrow> (False, s)
     | Some r \<Rightarrow> (case the_channel s r of None \<Rightarrow> (False, s)
         | Some c \<Rightarrow> (case removeUser (chatters s) p c of
             (False, _) \<Rightarrow> (False, s)
           | (True, c1) \<Rightarrow>
               let s1 = put_channel r c1 s
               in (True, if owner c1 = ch_guid (chatters s p) then snd (deleteChannel p channelId s1) else s1))))"

text \<open>The tables other than that of the private channels skip a key that is zero.\<close>

definition remove_from :: "(nat \<Rightarrow> chatter) \<Rightarrow> nat \<Rightarrow> ('k \<Rightarrow> bool) \<Rightarrow> ('k \<times> channel) list \<Rightarrow> ('k \<times> channel) list" where
  "remove_from cs p skipped table = map (\<lambda>(k, c). if skipped k then (k, c) else (k, snd (removeUser cs p c))) table"

fun remove_private :: "(nat \<Rightarrow> chatter) \<Rightarrow> nat \<Rightarrow> (u16 \<times> channel) list \<Rightarrow> (u16 \<times> channel) list" where
  "remove_private cs p [] = []"
| "remove_private cs p ((k, c) # table) =
     (let c1 = snd (removeUser cs p (snd (removeInvite (ch_guid (cs p)) c)))
      in if owner c1 = ch_guid (cs p) then remove_private cs p table else (k, c1) # remove_private cs p table)"

definition removeUserFromAllChannels :: "nat \<Rightarrow> chat \<Rightarrow> chat" where
  "removeUserFromAllChannels p s = s\<lparr>
     normalChannels := remove_from (chatters s) p (\<lambda>k. k = 0) (normalChannels s),
     partyChannels := remove_from (chatters s) p (\<lambda>k. False) (partyChannels s),
     guildChannels := remove_from (chatters s) p (\<lambda>k. k = 0) (guildChannels s),
     privateChannels := remove_private (chatters s) p (privateChannels s)\<rparr>"

definition talk_type :: "chatter \<Rightarrow> u8 \<Rightarrow> u16 \<Rightarrow> u8" where
  "talk_type c type channelId =
     (if channelId = CHANNEL_GUILD then
        (case ch_rank c of Some level \<Rightarrow> if level > GUILDLEVEL_MEMBER then TALKTYPE_CHANNEL_O else TALKTYPE_CHANNEL_Y
         | None \<Rightarrow> TALKTYPE_CHANNEL_Y)
      else if channelId = CHANNEL_PRIVATE \<or> channelId = CHANNEL_PARTY then TALKTYPE_CHANNEL_Y else type)"

definition talkToChannel :: "chat_env \<Rightarrow> nat \<Rightarrow> u8 \<Rightarrow> string \<Rightarrow> u16 \<Rightarrow> chat \<Rightarrow> bool \<times> chat" where
  "talkToChannel env p type text channelId s = (case getChannel env p channelId s of None \<Rightarrow> (False, s)
     | Some r \<Rightarrow> (case the_channel s r of None \<Rightarrow> (False, s)
         | Some c \<Rightarrow> (case ce_onSpeak env (cc_id c) p (talk_type (chatters s p) type channelId) text of
             (False, _) \<Rightarrow> (False, s)
           | (True, type1) \<Rightarrow> (case talk (chatters s) p type1 text c of
               (ok, ls) \<Rightarrow> (ok, s\<lparr>heard := heard s @ ls\<rparr>)))))"

text \<open>The list of channels offered; those of guild and party are made when they are missing.\<close>

definition offer :: "chat_env \<Rightarrow> nat \<Rightarrow> u16 \<Rightarrow> chat \<Rightarrow> channel_ref list \<times> chat" where
  "offer env p channelId s = (case getChannel env p channelId s of Some r \<Rightarrow> ([r], s)
     | None \<Rightarrow> (case createChannel env p channelId s of (Some r, s1) \<Rightarrow> ([r], s1) | (None, s1) \<Rightarrow> ([], s1)))"

definition getChannelList :: "chat_env \<Rightarrow> nat \<Rightarrow> chat \<Rightarrow> channel_ref list \<times> chat" where
  "getChannelList env p s =
     (let (gs, s1) = (if ch_guild (chatters s p) \<noteq> None then offer env p CHANNEL_GUILD s else ([], s));
          (ps, s2) = (if ch_party (chatters s p) \<noteq> None then offer env p CHANNEL_PARTY s1 else ([], s1));
          guid = ch_guid (chatters s p);
          ns = List.map_filter (\<lambda>(k, c). if k = 0 then None else getChannel env p k s2) (normalChannels s2);
          vs = List.map_filter (\<lambda>(k, c). if k \<noteq> 0 \<and> isInvited guid c then Some (Private k) else None) (privateChannels s2);
          hasPrivate = (\<exists>(k, c) \<in> set (privateChannels s2). k \<noteq> 0 \<and> owner c = guid)
      in (gs @ ps @ ns @ vs @ (if \<not> hasPrivate \<and> ch_premium (chatters s p) then [Dummy_private] else []), s2))"

section \<open>Requests\<close>

definition playerCreatePrivateChannel :: "chat_env \<Rightarrow> nat \<Rightarrow> chat \<Rightarrow> chat" where
  "playerCreatePrivateChannel env p s =
     (if \<not> ch_premium (chatters s p) then s
      else case createChannel env p CHANNEL_PRIVATE s of
          (None, s1) \<Rightarrow> s1
        | (Some r, s1) \<Rightarrow> (case the_channel s1 r of None \<Rightarrow> s1
            | Some c \<Rightarrow> put_channel r (snd (addUser env (chatters s1) p c)) s1))"

definition playerChannelInvite :: "nat \<Rightarrow> nat \<Rightarrow> chat \<Rightarrow> chat" where
  "playerChannelInvite p q s = (case getPrivateChannel p s of None \<Rightarrow> s
     | Some r \<Rightarrow> if p = q then s
         else case the_channel s r of None \<Rightarrow> s | Some c \<Rightarrow> put_channel r (invitePlayer (chatters s) q c) s)"

definition playerChannelExclude :: "nat \<Rightarrow> nat \<Rightarrow> chat \<Rightarrow> chat" where
  "playerChannelExclude p q s = (case getPrivateChannel p s of None \<Rightarrow> s
     | Some r \<Rightarrow> if p = q then s
         else case the_channel s r of None \<Rightarrow> s | Some c \<Rightarrow> put_channel r (excludePlayer (chatters s) q c) s)"

text \<open>\<open>sendClosePrivate\<close>, which leaving a party calls after the player's party has been reset.\<close>

definition sendClosePrivate :: "chat_env \<Rightarrow> nat \<Rightarrow> u16 \<Rightarrow> chat \<Rightarrow> chat" where
  "sendClosePrivate env p channelId s =
     (if channelId = CHANNEL_GUILD \<or> channelId = CHANNEL_PARTY then snd (removeUserFromChannel env p channelId s) else s)"

definition leave_party :: "chat_env \<Rightarrow> nat \<Rightarrow> chat \<Rightarrow> chat" where
  "leave_party env p s =
     sendClosePrivate env p CHANNEL_PARTY (s\<lparr>chatters := (chatters s)(p := (chatters s p)\<lparr>ch_party := None\<rparr>)\<rparr>)"

datatype chat_event = Create_private nat | Invite nat nat | Exclude nat nat | Open_channel nat u16 | Close_channel nat u16
  | Say nat u8 string u16 | List_channels nat | Log_out nat | Join_party nat nat | Leave_party nat
  | Set_guild nat "(u32 \<times> string) option" "u8 option" | Set_premium nat bool

fun chat_step :: "chat_env \<Rightarrow> chat_event \<Rightarrow> chat \<Rightarrow> chat" where
  "chat_step env (Create_private p) s = playerCreatePrivateChannel env p s"
| "chat_step env (Invite p q) s = playerChannelInvite p q s"
| "chat_step env (Exclude p q) s = playerChannelExclude p q s"
| "chat_step env (Open_channel p channelId) s = snd (addUserToChannel env p channelId s)"
| "chat_step env (Close_channel p channelId) s = snd (removeUserFromChannel env p channelId s)"
| "chat_step env (Say p type text channelId) s = snd (talkToChannel env p type text channelId s)"
| "chat_step env (List_channels p) s = snd (getChannelList env p s)"
| "chat_step env (Log_out p) s = removeUserFromAllChannels p s"
| "chat_step env (Join_party p party) s = s\<lparr>chatters := (chatters s)(p := (chatters s p)\<lparr>ch_party := Some party\<rparr>)\<rparr>"
| "chat_step env (Leave_party p) s = leave_party env p s"
| "chat_step env (Set_guild p g rank) s = s\<lparr>chatters := (chatters s)(p := (chatters s p)\<lparr>ch_guild := g, ch_rank := rank\<rparr>)\<rparr>"
| "chat_step env (Set_premium p b) s = s\<lparr>chatters := (chatters s)(p := (chatters s p)\<lparr>ch_premium := b\<rparr>)\<rparr>"

end
