(* ===== verification/Chat_Safety.thy ===== *)
theory Chat_Safety
  imports Chat
begin

text \<open>
  The chat channels over any sequence of requests (Chat.thy): the tables stay well formed, a
  private channel is heard only by its owner and those invited, and who has logged out is in
  no channel and hears nothing until he opens one again. Two lemmas find faults: who leaves a
  party goes on hearing what its members say, and who is barred from a channel cannot leave it.
\<close>

section \<open>Maps in order\<close>

lemma map_of_put_at [simp]: "map_of (put_at k v m) = (map_of m)(k \<mapsto> v)"
  by (induction k v m rule: put_at.induct) auto

lemma set_put_at:
  assumes "sorted_wrt (<) (map fst m)"
  shows "set (put_at k v m) = insert (k, v) {x \<in> set m. fst x \<noteq> k}"
  using assms by (induction k v m rule: put_at.induct) force+

lemma set_put_at_subset: "x \<in> set (put_at k v m) \<Longrightarrow> x = (k, v) \<or> x \<in> set m"
  by (induction k v m rule: put_at.induct) (auto split: if_splits)

lemma sorted_put_at:
  assumes "sorted_wrt (<) (map fst m)"
  shows "sorted_wrt (<) (map fst (put_at k v m))"
  using assms
proof (induction k v m rule: put_at.induct)
  case (2 k v k1 v1 m)
  have "k1 < a" if "\<not> k < k1" "k \<noteq> k1" "(a, b) \<in> set (put_at k v m)" for a b
    using set_put_at_subset [OF that(3)] that(1,2) 2(2) by auto
  with 2 show ?case by (auto simp: order.strict_trans)
qed simp

lemma set_AList_delete: "set (AList.delete k m) = {x \<in> set m. fst x \<noteq> k}"
  by (auto simp: AList.delete_eq)

lemma sorted_delete: "sorted_wrt (<) (map fst m) \<Longrightarrow> sorted_wrt (<) (map fst (AList.delete k m))"
  by (simp add: AList.delete_eq sorted_wrt_map sorted_wrt_filter)

lemma map_of_in: "map_of m k = Some v \<Longrightarrow> (k, v) \<in> set m"
  by (rule map_of_SomeD)

section \<open>Well-formed tables\<close>

text \<open>Entries are keyed by their own player; in a private channel all users are invited.\<close>

definition users_right :: "(nat \<Rightarrow> chatter) \<Rightarrow> channel \<Rightarrow> bool" where
  "users_right cs c \<longleftrightarrow> (\<forall>(u, q) \<in> set (users c). u = ch_id (cs q))"

definition private_right :: "(nat \<Rightarrow> chatter) \<Rightarrow> u16 \<Rightarrow> channel \<Rightarrow> bool" where
  "private_right cs k c \<longleftrightarrow> 100 \<le> k \<and> k < 10000 \<and> cc_id c = k
     \<and> (\<forall>(u, q) \<in> set (users c). u = ch_id (cs q) \<and> isInvited (ch_guid (cs q)) c)
     \<and> (\<forall>(g, q) \<in> set (invites c). g = ch_guid (cs q))"

definition channel_right :: "(nat \<Rightarrow> chatter) \<Rightarrow> channel_ref \<Rightarrow> channel \<Rightarrow> bool" where
  "channel_right cs r c \<longleftrightarrow> (case r of
       Normal k \<Rightarrow> users_right cs c \<and> (k = 0 \<longrightarrow> users c = [])
     | Private k \<Rightarrow> private_right cs k c
     | OfParty k \<Rightarrow> users_right cs c
     | OfGuild k \<Rightarrow> users_right cs c \<and> cc_id c = CHANNEL_GUILD \<and> (k = 0 \<longrightarrow> users c = [])
     | Dummy_private \<Rightarrow> True)"

definition chat_ok :: "chat \<Rightarrow> bool" where
  "chat_ok s \<longleftrightarrow> sorted_wrt (<) (map fst (privateChannels s))
     \<and> (\<forall>(k, c) \<in> set (normalChannels s). channel_right (chatters s) (Normal k) c)
     \<and> (\<forall>(k, c) \<in> set (privateChannels s). channel_right (chatters s) (Private k) c)
     \<and> (\<forall>(k, c) \<in> set (partyChannels s). channel_right (chatters s) (OfParty k) c)
     \<and> (\<forall>(k, c) \<in> set (guildChannels s). channel_right (chatters s) (OfGuild k) c)
     \<and> (\<forall>(k, c) \<in> set (privateChannels s). \<forall>(k', c') \<in> set (privateChannels s). owner c = owner c' \<longrightarrow> k = k')"

lemma the_channel_right: "chat_ok s \<Longrightarrow> the_channel s r = Some c \<Longrightarrow> channel_right (chatters s) r c"
  by (cases r) (auto simp: the_channel_def chat_ok_def channel_right_def dest!: map_of_in)

lemma put_channel_ok:
  assumes "chat_ok s" "channel_right (chatters s) r c"
    and "\<And>k k' c'. r = Private k \<Longrightarrow> (k', c') \<in> set (privateChannels s) \<Longrightarrow> owner c' = owner c \<Longrightarrow> k' = k"
  shows "chat_ok (put_channel r c s)"
proof (cases r)
  case (Private k)
  with assms show ?thesis
    by (auto simp: put_channel_def chat_ok_def set_put_at sorted_put_at)
qed (use assms in \<open>auto simp: put_channel_def chat_ok_def dest!: set_put_at_subset\<close>)

lemma put_same_owner_ok:
  assumes "chat_ok s" "the_channel s r = Some c" "channel_right (chatters s) r c1" "owner c1 = owner c"
  shows "chat_ok (put_channel r c1 s)"
proof (rule put_channel_ok [OF assms(1,3)])
  show "k' = k" if "r = Private k" "(k', c') \<in> set (privateChannels s)" "owner c' = owner c1" for k k' c'
    using that assms(1,2,4) by (auto simp: chat_ok_def the_channel_def dest!: map_of_in)
qed

section \<open>The operations on one channel\<close>

definition ids_ok :: "(nat \<Rightarrow> chatter) \<Rightarrow> bool" where
  "ids_ok cs \<longleftrightarrow> (\<forall>p q. ch_id (cs p) = ch_id (cs q) \<longleftrightarrow> ch_guid (cs p) = ch_guid (cs q))"

definition may_enter :: "(nat \<Rightarrow> chatter) \<Rightarrow> nat \<Rightarrow> channel_ref \<Rightarrow> channel \<Rightarrow> bool" where
  "may_enter cs p r c \<longleftrightarrow> (case r of Normal k \<Rightarrow> k \<noteq> 0 | Private k \<Rightarrow> isInvited (ch_guid (cs p)) c
     | OfParty k \<Rightarrow> True | OfGuild k \<Rightarrow> \<exists>name. ch_guild (cs p) = Some (k, name) | Dummy_private \<Rightarrow> False)"

lemma getChannel_enters:
  assumes "getChannel env p k s = Some r"
  obtains c where "the_channel s r = Some c" "may_enter (chatters s) p r c"
  using assms
  by (auto simp: getChannel_def the_channel_def may_enter_def CHANNEL_GUILD_def split: if_splits option.splits)

lemma isInvited_iff: "isInvited g c \<longleftrightarrow> g = owner c \<or> g \<in> fst ` set (invites c)"
  by (auto simp: isInvited_def map_of_eq_None_iff)

lemma owner_kept [simp]:
  "owner (snd (addUser env cs p c)) = owner c" "owner (snd (removeUser cs p c)) = owner c"
  "owner (snd (removeInvite g c)) = owner c" "owner (invitePlayer cs q c) = owner c"
  "owner (excludePlayer cs q c) = owner c"
  by (auto simp: addUser_def removeUser_def removeInvite_def invitePlayer_def excludePlayer_def
      split: prod.splits bool.splits)

lemma addUser_right:
  assumes "channel_right cs r c" "may_enter cs p r c"
  shows "channel_right cs r (snd (addUser env cs p c))"
proof (cases r)
  case (OfGuild k)
  with assms show ?thesis
    by (auto simp: channel_right_def may_enter_def addUser_def users_right_def dest!: set_put_at_subset split: if_splits)
qed (use assms in \<open>auto simp: channel_right_def may_enter_def addUser_def users_right_def private_right_def
       isInvited_def dest!: set_put_at_subset\<close>)

lemma users_removeUser: "set (users (snd (removeUser cs p c))) = {x \<in> set (users c). fst x \<noteq> ch_id (cs p)}"
  by (auto simp: removeUser_def hasUser_def set_AList_delete map_of_eq_None_iff image_iff)

lemma removeUser_kept [simp]:
  "cc_id (snd (removeUser cs p c)) = cc_id c" "invites (snd (removeUser cs p c)) = invites c"
  by (auto simp: removeUser_def)

lemma isInvited_removeUser [simp]: "isInvited g (snd (removeUser cs p c)) = isInvited g c"
  by (simp add: isInvited_def)

lemma removeUser_right:
  assumes "channel_right cs r c"
  shows "channel_right cs r (snd (removeUser cs p c))"
proof -
  have "users c = [] \<Longrightarrow> users (snd (removeUser cs p c)) = []" by (auto simp: removeUser_def hasUser_def)
  with assms show ?thesis
    by (cases r) (auto simp: channel_right_def users_right_def private_right_def users_removeUser)
qed

lemma removeInvite_simps [simp]:
  "cc_id (snd (removeInvite g c)) = cc_id c" "users (snd (removeInvite g c)) = users c"
  "set (invites (snd (removeInvite g c))) = {x \<in> set (invites c). fst x \<noteq> g}"
  by (auto simp: removeInvite_def set_AList_delete)

lemma isInvited_removeInvite: "isInvited h (snd (removeInvite g c)) \<longleftrightarrow> h = owner c \<or> h \<noteq> g \<and> isInvited h c"
  by (auto simp: isInvited_iff)

text \<open>Taking back the invitation and the place of a player goes together.\<close>

lemma dismissed_right:
  assumes "ids_ok cs" "private_right cs k c"
  shows "private_right cs k (snd (removeUser cs p (snd (removeInvite (ch_guid (cs p)) c))))"
  using assms
  by (auto simp: private_right_def users_removeUser isInvited_removeInvite ids_ok_def)

lemma invitePlayer_right: "private_right cs k c \<Longrightarrow> private_right cs k (invitePlayer cs q c)"
  by (auto simp: private_right_def invitePlayer_def isInvited_def dest!: set_put_at_subset)

lemma excludePlayer_right:
  assumes "ids_ok cs" "private_right cs k c"
  shows "private_right cs k (excludePlayer cs q c)"
proof (cases "map_of (invites c) (ch_guid (cs q)) = None")
  case True
  then have "AList.delete (ch_guid (cs q)) (invites c) = invites c"
    by (metis delete_conv' fun_upd_triv delete_id map_of_eq_None_iff)
  with True assms(2) show ?thesis
    by (simp add: excludePlayer_def removeInvite_def)
next
  case False
  with dismissed_right [OF assms, of q] show ?thesis
    by (simp add: excludePlayer_def removeInvite_def)
qed

section \<open>The operations on the tables\<close>

lemma the_channel_put:
  "the_channel (put_channel r c s) r1 = (if r = r1 \<and> r \<noteq> Dummy_private then Some c else the_channel s r1)"
  by (cases r; cases r1) (auto simp: put_channel_def the_channel_def)

lemma put_channel_chatters [simp]: "chatters (put_channel r c s) = chatters s" "heard (put_channel r c s) = heard s"
  by (cases r; simp add: put_channel_def)+

lemma free_slot_free: "free_slot m i = Some j \<Longrightarrow> i \<le> j \<and> j < 10000 \<and> map_of m j = None"
proof (induction m i rule: free_slot.induct)
  case (1 m i)
  have "i \<le> i + 1" if "i < 10000"
    using that by (simp add: word_le_nat_alt word_less_nat_alt unat_word_ariths)
  with 1 show ?case by (fastforce simp: free_slot.simps [of m i] split: if_splits)
qed

lemma getPrivateChannel_None:
  "getPrivateChannel p s = None \<Longrightarrow> (k, c) \<in> set (privateChannels s) \<Longrightarrow> owner c \<noteq> ch_guid (chatters s p)"
  by (auto simp: getPrivateChannel_def find_None_iff split: option.splits)

lemma private_member: "chat_ok s \<Longrightarrow> (k, c) \<in> set (privateChannels s) \<Longrightarrow> the_channel s (Private k) = Some c"
  by (auto simp: chat_ok_def strict_sorted_iff the_channel_def)

lemma getPrivateChannel_Some:
  assumes "getPrivateChannel p s = Some r" "chat_ok s"
  obtains k c where "r = Private k" "the_channel s r = Some c" "owner c = ch_guid (chatters s p)"
    "(k, c) \<in> set (privateChannels s)"
proof -
  from assms(1) obtain k c where r: "r = Private k" "(k, c) \<in> set (privateChannels s)" "owner c = ch_guid (chatters s p)"
    by (auto simp: getPrivateChannel_def find_Some_iff split: option.splits dest!: nth_mem)
  with that private_member [OF assms(2) r(2)] show ?thesis by auto
qed

text \<open>What \<open>createChannel\<close> does: nothing, or it adds one channel without users.\<close>

definition fresh_at :: "chat \<Rightarrow> nat \<Rightarrow> channel_ref \<Rightarrow> channel \<Rightarrow> bool" where
  "fresh_at s p r c \<longleftrightarrow> users c = [] \<and> invites c = [] \<and> (case r of
       OfGuild g \<Rightarrow> cc_id c = CHANNEL_GUILD
     | Private i \<Rightarrow> 100 \<le> i \<and> i < 10000 \<and> cc_id c = i \<and> owner c = ch_guid (chatters s p)
         \<and> getPrivateChannel p s = None \<and> map_of (privateChannels s) i = None
     | Dummy_private \<Rightarrow> False | _ \<Rightarrow> True)"

lemma createChannel_adds:
  assumes "createChannel env p k s = (x, s1)"
  shows "x = None \<and> s1 = s \<or> (\<exists>r c. x = Some r \<and> s1 = put_channel r c s \<and> fresh_at s p r c)"
proof -
  have put: "\<exists>c'. put_channel r c s = put_channel r c' s \<and> fresh_at s p r c'" if "fresh_at s p r c" for r c
    using that by blast
  have "fresh_at s p (OfGuild a) (new_channel CHANNEL_GUILD name)" "fresh_at s p (OfParty b) (new_channel k name)" for a b name
    by (simp_all add: fresh_at_def new_channel_def)
  moreover have "fresh_at s p (Private i) (new_channel i name\<lparr>owner := ch_guid (chatters s p)\<rparr>)"
    if "free_slot (privateChannels s) 100 = Some i" "getPrivateChannel p s = None" for i name
    using that free_slot_free [OF that(1)] by (simp add: fresh_at_def new_channel_def)
  ultimately show ?thesis
    using assms by (simp add: createChannel_def split: if_splits option.splits prod.splits) (blast intro: put)+
qed

lemma createChannel_ok:
  assumes "createChannel env p k s = (x, s1)" "chat_ok s"
  shows "chat_ok s1"
  using createChannel_adds [OF assms(1)]
proof (elim disjE exE conjE)
  fix r c
  assume s1: "s1 = put_channel r c s" and c: "fresh_at s p r c"
  show "chat_ok s1"
    unfolding s1
  proof (rule put_channel_ok [OF assms(2)])
    show "channel_right (chatters s) r c"
      using c by (cases r) (auto simp: fresh_at_def channel_right_def users_right_def private_right_def)
    show "k1 = k0" if "r = Private k0" "(k1, c1) \<in> set (privateChannels s)" "owner c1 = owner c" for k0 k1 c1
      using that c getPrivateChannel_None [of p s k1 c1] by (auto simp: fresh_at_def)
  qed
qed (use assms(2) in auto)

lemma deleteChannel_ok: "chat_ok s \<Longrightarrow> chat_ok (snd (deleteChannel p k s))"
  by (auto simp: deleteChannel_def chat_ok_def set_AList_delete sorted_delete split: option.splits)

lemma deleteChannel_kept [simp]:
  "chatters (snd (deleteChannel p k s)) = chatters s" "heard (snd (deleteChannel p k s)) = heard s"
  by (auto simp: deleteChannel_def split: option.splits)

lemma the_channel_delete:
  "the_channel (snd (deleteChannel p k s)) r = Some c \<Longrightarrow> the_channel s r = Some c"
  by (cases r) (auto simp: deleteChannel_def the_channel_def delete_conv' split: option.splits if_splits)

lemma addUserToChannel_ok:
  assumes "chat_ok s"
  shows "chat_ok (snd (addUserToChannel env p k s))"
proof (cases "getChannel env p k s")
  case (Some r)
  obtain c where c: "the_channel s r = Some c" "may_enter (chatters s) p r c"
    using getChannel_enters [OF Some] by blast
  obtain b c1 where a: "addUser env (chatters s) p c = (b, c1)" by fastforce
  have "channel_right (chatters s) r c1" "owner c1 = owner c"
    using addUser_right [OF the_channel_right [OF assms c(1)] c(2), of env] owner_kept(1) [of env "chatters s" p c] a by simp_all
  with put_same_owner_ok [OF assms c(1)] Some c(1) a assms show ?thesis
    by (simp add: addUserToChannel_def split: bool.splits)
qed (use assms in \<open>simp add: addUserToChannel_def\<close>)

lemma removeUserFromChannel_ok:
  assumes "chat_ok s"
  shows "chat_ok (snd (removeUserFromChannel env p k s))"
proof (cases "getChannel env p k s")
  case (Some r)
  obtain c where c: "the_channel s r = Some c"
    using getChannel_enters [OF Some] by blast
  obtain b c1 where a: "removeUser (chatters s) p c = (b, c1)" by fastforce
  have "channel_right (chatters s) r c1" "owner c1 = owner c"
    using removeUser_right [OF the_channel_right [OF assms c], of p] owner_kept(2) [of "chatters s" p c] a by simp_all
  then have "chat_ok (put_channel r c1 s)" by (rule put_same_owner_ok [OF assms c])
  with deleteChannel_ok Some c a assms show ?thesis
    by (simp add: removeUserFromChannel_def Let_def split: bool.splits)
qed (use assms in \<open>simp add: removeUserFromChannel_def\<close>)

lemma offer_ok: "chat_ok s \<Longrightarrow> chat_ok (snd (offer env p k s))"
  by (auto simp: offer_def split: option.splits prod.splits dest: createChannel_ok)

lemma getChannelList_table:
  "snd (getChannelList env p s) =
     (let s1 = (if ch_guild (chatters s p) \<noteq> None then snd (offer env p CHANNEL_GUILD s) else s)
      in if ch_party (chatters s p) \<noteq> None then snd (offer env p CHANNEL_PARTY s1) else s1)"
  by (auto simp: getChannelList_def Let_def split: prod.splits)

lemma getChannelList_ok: "chat_ok s \<Longrightarrow> chat_ok (snd (getChannelList env p s))"
  by (simp add: getChannelList_table Let_def offer_ok)

lemma talkToChannel_kept:
  "\<exists>ls. snd (talkToChannel env p ty words k s) = s\<lparr>heard := heard s @ ls\<rparr>"
proof -
  have "\<exists>ls. s = s\<lparr>heard := heard s @ ls\<rparr>" by (rule exI [of _ "[]"]) simp
  then show ?thesis by (auto simp: talkToChannel_def split: option.splits prod.splits bool.splits)
qed

lemma chat_ok_heard [simp]: "chat_ok (s\<lparr>heard := h\<rparr>) = chat_ok s"
  by (simp add: chat_ok_def)

lemma talkToChannel_ok: "chat_ok s \<Longrightarrow> chat_ok (snd (talkToChannel env p ty words k s))"
  using talkToChannel_kept [of env p ty words k s] by auto

lemma remove_private_in:
  "(k, c1) \<in> set (remove_private cs p m) \<longleftrightarrow>
     (\<exists>c. (k, c) \<in> set m \<and> c1 = snd (removeUser cs p (snd (removeInvite (ch_guid (cs p)) c))) \<and> owner c \<noteq> ch_guid (cs p))"
proof (induction m)
  case (Cons x m)
  then show ?case by (cases x) (auto simp: Let_def)
qed simp

lemma sorted_remove_private:
  "sorted_wrt (<) (map fst m) \<Longrightarrow> sorted_wrt (<) (map fst (remove_private cs p m))"
proof (induction m)
  case (Cons x m)
  then show ?case by (cases x) (fastforce simp: Let_def remove_private_in)
qed simp

lemma remove_from_in:
  "(k, c1) \<in> set (remove_from cs p sk m) \<longleftrightarrow> (\<exists>c. (k, c) \<in> set m \<and> c1 = (if sk k then c else snd (removeUser cs p c)))"
  by (force simp: remove_from_def split: if_splits)

lemma remove_from_right:
  assumes "\<forall>(k, c) \<in> set m. channel_right cs (R k) c"
  shows "\<forall>(k, c) \<in> set (remove_from cs p sk m). channel_right cs (R k) c"
  using assms by (fastforce simp: remove_from_in intro: removeUser_right)

lemma remove_private_right:
  assumes "ids_ok cs" "\<forall>(k, c) \<in> set m. channel_right cs (Private k) c"
  shows "\<forall>(k, c) \<in> set (remove_private cs p m). channel_right cs (Private k) c"
  using assms(2) by (fastforce simp: remove_private_in channel_right_def intro: dismissed_right [OF assms(1)])

lemma removeUserFromAllChannels_ok:
  assumes "ids_ok (chatters s)" "chat_ok s"
  shows "chat_ok (removeUserFromAllChannels p s)"
proof -
  let ?cs = "chatters s" and ?m = "remove_private (chatters s) p (privateChannels s)"
  have owners: "\<forall>(k, c) \<in> set ?m. \<forall>(k', c') \<in> set ?m. owner c = owner c' \<longrightarrow> k = k'"
    using assms(2) by (fastforce simp: remove_private_in chat_ok_def)
  have tables: "\<forall>(k, c) \<in> set (normalChannels s). channel_right ?cs (Normal k) c"
    "\<forall>(k, c) \<in> set (partyChannels s). channel_right ?cs (OfParty k) c"
    "\<forall>(k, c) \<in> set (guildChannels s). channel_right ?cs (OfGuild k) c"
    "\<forall>(k, c) \<in> set (privateChannels s). channel_right ?cs (Private k) c"
    "sorted_wrt (<) (map fst (privateChannels s))"
    using assms(2) unfolding chat_ok_def by blast+
  note new = tables(1-3) [THEN remove_from_right] remove_private_right [OF assms(1) tables(4), of p]
    sorted_remove_private [OF tables(5), of ?cs p]
  show ?thesis
    using new owners unfolding chat_ok_def removeUserFromAllChannels_def by simp
qed

lemma removeUserFromChannel_kept [simp]:
  "chatters (snd (removeUserFromChannel env p k s)) = chatters s"
  "heard (snd (removeUserFromChannel env p k s)) = heard s"
  by (auto simp: removeUserFromChannel_def Let_def split: option.splits prod.splits bool.splits)

lemma addUserToChannel_kept [simp]:
  "chatters (snd (addUserToChannel env p k s)) = chatters s"
  "heard (snd (addUserToChannel env p k s)) = heard s"
  by (auto simp: addUserToChannel_def split: option.splits prod.splits bool.splits)

lemma createChannel_kept:
  "createChannel env p k s = (x, s1) \<Longrightarrow> chatters s1 = chatters s \<and> heard s1 = heard s"
  using createChannel_adds [of env p k s x s1] by auto

lemma offer_kept [simp]:
  "chatters (snd (offer env p k s)) = chatters s" "heard (snd (offer env p k s)) = heard s"
  by (auto simp: offer_def split: option.splits prod.splits dest: createChannel_kept)

lemma getChannelList_kept [simp]:
  "chatters (snd (getChannelList env p s)) = chatters s" "heard (snd (getChannelList env p s)) = heard s"
  by (simp_all add: getChannelList_table Let_def)

lemma removeUserFromAllChannels_kept [simp]:
  "chatters (removeUserFromAllChannels p s) = chatters s" "heard (removeUserFromAllChannels p s) = heard s"
  by (simp_all add: removeUserFromAllChannels_def)

lemma playerCreatePrivateChannel_kept [simp]:
  "chatters (playerCreatePrivateChannel env p s) = chatters s" "heard (playerCreatePrivateChannel env p s) = heard s"
  by (auto simp: playerCreatePrivateChannel_def split: option.splits prod.splits dest: createChannel_kept)

lemma playerChannelInvite_kept [simp]:
  "chatters (playerChannelInvite p q s) = chatters s" "heard (playerChannelInvite p q s) = heard s"
  by (auto simp: playerChannelInvite_def split: option.splits)

lemma playerChannelExclude_kept [simp]:
  "chatters (playerChannelExclude p q s) = chatters s" "heard (playerChannelExclude p q s) = heard s"
  by (auto simp: playerChannelExclude_def split: option.splits)

section \<open>Requests and runs\<close>

lemma createChannel_private:
  "createChannel env p CHANNEL_PRIVATE s = (Some r, s1) \<Longrightarrow> \<exists>i. r = Private i"
  by (auto simp: createChannel_def CHANNEL_PRIVATE_def CHANNEL_GUILD_def CHANNEL_PARTY_def split: if_splits option.splits)

lemma playerCreatePrivateChannel_ok:
  assumes "chat_ok s"
  shows "chat_ok (playerCreatePrivateChannel env p s)"
proof (cases "createChannel env p CHANNEL_PRIVATE s")
  case (Pair x s1)
  have ok1: "chat_ok s1" using createChannel_ok [OF Pair assms] .
  show ?thesis
  proof (cases x)
    case (Some r)
    then obtain i c where r: "r = Private i" "s1 = put_channel r c s" "fresh_at s p r c"
      using createChannel_adds [OF Pair] createChannel_private [of env p s r s1] Pair by auto
    then have c: "the_channel s1 r = Some c" by (simp add: the_channel_put)
    have "may_enter (chatters s1) p r c"
      using r by (auto simp: may_enter_def fresh_at_def isInvited_def)
    from put_same_owner_ok [OF ok1 c addUser_right [OF the_channel_right [OF ok1 c] this]] c Some Pair assms
    show ?thesis by (simp add: playerCreatePrivateChannel_def)
  qed (use assms ok1 Pair in \<open>simp add: playerCreatePrivateChannel_def\<close>)
qed

lemma playerChannelInvite_ok:
  assumes "chat_ok s"
  shows "chat_ok (playerChannelInvite p q s)"
proof (cases "getPrivateChannel p s")
  case (Some r)
  from getPrivateChannel_Some [OF this assms] obtain k c where c: "r = Private k" "the_channel s r = Some c" by metis
  then have "channel_right (chatters s) r (invitePlayer (chatters s) q c)"
    using the_channel_right [OF assms c(2)] by (simp add: channel_right_def invitePlayer_right)
  from put_same_owner_ok [OF assms c(2) this] Some c assms show ?thesis
    by (simp add: playerChannelInvite_def)
qed (use assms in \<open>simp add: playerChannelInvite_def\<close>)

lemma playerChannelExclude_ok:
  assumes "ids_ok (chatters s)" "chat_ok s"
  shows "chat_ok (playerChannelExclude p q s)"
proof (cases "getPrivateChannel p s")
  case (Some r)
  from getPrivateChannel_Some [OF this assms(2)] obtain k c where c: "r = Private k" "the_channel s r = Some c" by metis
  then have "channel_right (chatters s) r (excludePlayer (chatters s) q c)"
    using the_channel_right [OF assms(2) c(2)] by (simp add: channel_right_def excludePlayer_right [OF assms(1)])
  from put_same_owner_ok [OF assms(2) c(2) this] Some c assms show ?thesis
    by (simp add: playerChannelExclude_def)
qed (use assms in \<open>simp add: playerChannelExclude_def\<close>)

text \<open>What changes of a player leaves number and name alone.\<close>

definition same_ids :: "(nat \<Rightarrow> chatter) \<Rightarrow> (nat \<Rightarrow> chatter) \<Rightarrow> bool" where
  "same_ids cs cs1 \<longleftrightarrow> (\<forall>p. ch_id (cs1 p) = ch_id (cs p) \<and> ch_guid (cs1 p) = ch_guid (cs p))"

lemma channel_right_same_ids: "same_ids cs cs1 \<Longrightarrow> channel_right cs1 r c = channel_right cs r c"
  by (cases r) (simp_all add: same_ids_def channel_right_def users_right_def private_right_def)

lemma chat_ok_chatters: "same_ids (chatters s) cs1 \<Longrightarrow> chat_ok (s\<lparr>chatters := cs1\<rparr>) = chat_ok s"
  by (simp add: chat_ok_def channel_right_same_ids)

lemma same_ids_upd [simp]:
  "same_ids cs (cs(p := (cs p)\<lparr>ch_party := x\<rparr>))"
  "same_ids cs (cs(p := (cs p)\<lparr>ch_guild := g, ch_rank := rank\<rparr>))"
  "same_ids cs (cs(p := (cs p)\<lparr>ch_premium := b\<rparr>))"
  "same_ids cs cs"
  by (auto simp: same_ids_def)

lemma leave_party_kept [simp]:
  "chatters (leave_party env p s) = (chatters s)(p := (chatters s p)\<lparr>ch_party := None\<rparr>)"
  "heard (leave_party env p s) = heard s"
  by (auto simp: leave_party_def sendClosePrivate_def)

lemma talkToChannel_chatters [simp]: "chatters (snd (talkToChannel env p ty words k s)) = chatters s"
  using talkToChannel_kept [of env p ty words k s] by auto

lemma chat_step_ids: "same_ids (chatters s) (chatters (chat_step env e s))"
  by (cases e) simp_all

lemma chat_step_ok:
  assumes "ids_ok (chatters s)" "chat_ok s"
  shows "chat_ok (chat_step env e s)"
  using assms
  by (cases e) (simp_all add: playerCreatePrivateChannel_ok playerChannelInvite_ok playerChannelExclude_ok
      addUserToChannel_ok removeUserFromChannel_ok talkToChannel_ok getChannelList_ok removeUserFromAllChannels_ok
      chat_ok_chatters leave_party_def sendClosePrivate_def)

text \<open>A run: each event with what the scripts answer at that time.\<close>

fun chat_run :: "(chat_env \<times> chat_event) list \<Rightarrow> chat \<Rightarrow> chat" where
  "chat_run [] s = s"
| "chat_run ((env, e) # es) s = chat_run es (chat_step env e s)"

lemma same_ids_ok: "same_ids cs cs1 \<Longrightarrow> ids_ok cs1 = ids_ok cs"
  by (simp add: same_ids_def ids_ok_def)

lemma chat_run_ok: "ids_ok (chatters s) \<Longrightarrow> chat_ok s \<Longrightarrow> ids_ok (chatters (chat_run es s)) \<and> chat_ok (chat_run es s)"
proof (induction es arbitrary: s)
  case (Cons x es)
  then show ?case using chat_step_ok same_ids_ok [OF chat_step_ids] by (cases x) auto
qed simp

text \<open>The tables when the server has started.\<close>

definition chat_start :: "chat \<Rightarrow> bool" where
  "chat_start s \<longleftrightarrow> (\<forall>(k, c) \<in> set (normalChannels s). users c = [])
     \<and> privateChannels s = [] \<and> partyChannels s = [] \<and> guildChannels s = [] \<and> heard s = []"

lemma chat_start_ok: "chat_start s \<Longrightarrow> chat_ok s"
  by (auto simp: chat_start_def chat_ok_def channel_right_def users_right_def)

section \<open>Who is in no channel\<close>

definition absent :: "u32 \<Rightarrow> chat \<Rightarrow> bool" where
  "absent d s \<longleftrightarrow> (\<forall>r c. the_channel s r = Some c \<longrightarrow> d \<notin> fst ` set (users c))"

lemma absent_put: "absent d s \<Longrightarrow> d \<notin> fst ` set (users c) \<Longrightarrow> absent d (put_channel r c s)"
  by (auto simp: absent_def the_channel_put split: if_splits)

lemma absent_createChannel: "createChannel env p k s = (x, s1) \<Longrightarrow> absent d s \<Longrightarrow> absent d s1"
  by (auto dest!: createChannel_adds simp: fresh_at_def intro: absent_put)

lemma absent_offer: "absent d s \<Longrightarrow> absent d (snd (offer env p k s))"
  by (auto simp: offer_def split: option.splits prod.splits dest: absent_createChannel)

lemma absent_getChannelList: "absent d s \<Longrightarrow> absent d (snd (getChannelList env p s))"
  by (simp add: getChannelList_table Let_def absent_offer)

lemma users_addUser: "fst ` set (users (snd (addUser env cs p c))) \<subseteq> insert (ch_id (cs p)) (fst ` set (users c))"
  by (auto simp: addUser_def dest!: set_put_at_subset)

lemma addUser_absent:
  "d \<notin> fst ` set (users c) \<Longrightarrow> ch_id (cs p) \<noteq> d \<Longrightarrow> d \<notin> fst ` set (users (snd (addUser env cs p c)))"
  using subsetD [OF users_addUser [of env cs p c], of d] by (metis insertE)

lemma absent_addUserToChannel:
  assumes "absent d s" "ch_id (chatters s p) \<noteq> d"
  shows "absent d (snd (addUserToChannel env p k s))"
proof -
  have "absent d (put_channel r c1 s)" if "the_channel s r = Some c" "addUser env (chatters s) p c = (b, c1)" for r c b c1
    using addUser_absent [of d c "chatters s" p env] that assms by (intro absent_put) (auto simp only: absent_def snd_conv)
  with assms show ?thesis
    by (auto simp: addUserToChannel_def intro: absent_put split: option.splits prod.splits bool.splits)
qed

lemma absent_delete: "absent d s \<Longrightarrow> absent d (snd (deleteChannel p k s))"
  by (auto simp: absent_def dest: the_channel_delete)

lemma absent_removeUserFromChannel:
  assumes "absent d s"
  shows "absent d (snd (removeUserFromChannel env p k s))"
proof -
  have "absent d (put_channel r c1 s)" if "the_channel s r = Some c" "removeUser (chatters s) p c = (b, c1)" for r c b c1
    using that assms users_removeUser [of "chatters s" p c] by (intro absent_put) (auto simp: absent_def)
  with assms show ?thesis
    by (auto simp: removeUserFromChannel_def Let_def intro: absent_delete split: option.splits prod.splits bool.splits)
qed

lemma absent_kept [simp]:
  "absent d (s\<lparr>heard := h\<rparr>) = absent d s" "absent d (s\<lparr>chatters := cs\<rparr>) = absent d s"
  by (simp_all add: absent_def the_channel_def cong: channel_ref.case_cong)

lemma absent_talk: "absent d s \<Longrightarrow> absent d (snd (talkToChannel env p ty words k s))"
  using talkToChannel_kept [of env p ty words k s] by auto

lemma absent_invite: "absent d s \<Longrightarrow> absent d (playerChannelInvite p q s)"
  by (auto simp: playerChannelInvite_def invitePlayer_def absent_def the_channel_put split: option.splits)

lemma users_excludePlayer: "set (users (excludePlayer cs q c)) \<subseteq> set (users c)"
  by (auto simp: excludePlayer_def users_removeUser removeInvite_def split: prod.splits bool.splits)

lemma absent_exclude:
  assumes "absent d s"
  shows "absent d (playerChannelExclude p q s)"
proof -
  have "absent d (put_channel r (excludePlayer (chatters s) q c) s)" if "the_channel s r = Some c" for r c
    using that assms users_excludePlayer [of "chatters s" q c] by (intro absent_put) (auto simp: absent_def)
  with assms show ?thesis by (auto simp: playerChannelExclude_def split: option.splits)
qed

lemma absent_create_private:
  assumes "absent d s" "ch_id (chatters s p) \<noteq> d"
  shows "absent d (playerCreatePrivateChannel env p s)"
proof (cases "createChannel env p CHANNEL_PRIVATE s")
  case (Pair x s1)
  then have s1: "absent d s1" "chatters s1 = chatters s"
    using assms absent_createChannel createChannel_kept by metis+
  have "absent d (put_channel r (snd (addUser env (chatters s1) p c)) s1)" if "the_channel s1 r = Some c" for r c
    using that assms(2) s1 by (intro absent_put addUser_absent) (auto simp only: absent_def)
  with Pair s1 assms show ?thesis by (auto simp: playerCreatePrivateChannel_def split: option.splits)
qed

lemma map_of_remove_from:
  "map_of (remove_from cs p sk m) k = map_option (\<lambda>c. if sk k then c else snd (removeUser cs p c)) (map_of m k)"
  by (induction m) (auto simp: remove_from_def)

lemma log_out_channels:
  assumes "chat_ok s" "the_channel (removeUserFromAllChannels p s) r = Some c1"
  obtains c where "the_channel s r = Some c" "fst ` set (users c1) \<subseteq> fst ` set (users c) - {ch_id (chatters s p)}"
proof (cases r)
  case (Private k)
  with assms(2) have "(k, c1) \<in> set (remove_private (chatters s) p (privateChannels s))"
    by (auto simp: the_channel_def removeUserFromAllChannels_def dest: map_of_in)
  then obtain c where "(k, c) \<in> set (privateChannels s)"
    "c1 = snd (removeUser (chatters s) p (snd (removeInvite (ch_guid (chatters s p)) c)))"
    by (auto simp: remove_private_in)
  then show ?thesis
    by (intro that [of c]) (auto simp: Private users_removeUser private_member [OF assms(1)])
next
  case (Normal k)
  with assms(2) that the_channel_right [OF assms(1), of r] show ?thesis
    by (fastforce simp: the_channel_def removeUserFromAllChannels_def map_of_remove_from users_removeUser channel_right_def split: if_splits)
next
  case (OfGuild k)
  with assms(2) that the_channel_right [OF assms(1), of r] show ?thesis
    by (fastforce simp: the_channel_def removeUserFromAllChannels_def map_of_remove_from users_removeUser channel_right_def split: if_splits)
next
  case (OfParty k)
  with assms(2) that show ?thesis
    by (fastforce simp: the_channel_def removeUserFromAllChannels_def map_of_remove_from users_removeUser)
next
  case Dummy_private
  with assms(2) that show ?thesis by (auto simp: the_channel_def new_channel_def)
qed

lemma log_out_absent: "chat_ok s \<Longrightarrow> absent (ch_id (chatters s p)) (removeUserFromAllChannels p s)"
  by (fastforce simp: absent_def elim: log_out_channels)

lemma absent_log_out: "chat_ok s \<Longrightarrow> absent d s \<Longrightarrow> absent d (removeUserFromAllChannels p s)"
  unfolding absent_def by (meson Diff_subset log_out_channels subset_iff)

text \<open>Only opening or creating a channel brings a player into one.\<close>

fun opens :: "(nat \<Rightarrow> chatter) \<Rightarrow> u32 \<Rightarrow> chat_event \<Rightarrow> bool" where
  "opens cs d (Open_channel p k) = (ch_id (cs p) = d)"
| "opens cs d (Create_private p) = (ch_id (cs p) = d)"
| "opens cs d _ = False"

lemma absent_chat_step:
  assumes "chat_ok s" "absent d s" "\<not> opens (chatters s) d e"
  shows "absent d (chat_step env e s)"
  using assms
  by (cases e) (simp_all add: absent_create_private absent_invite absent_exclude absent_addUserToChannel
      absent_removeUserFromChannel absent_talk absent_getChannelList absent_log_out leave_party_def sendClosePrivate_def)

section \<open>Who hears what\<close>

lemma talk_reaches_users:
  assumes "heard (snd (talkToChannel env p ty words k s)) = heard s @ ls" "l \<in> set ls"
  obtains r c u where "getChannel env p k s = Some r" "the_channel s r = Some c" "hasUser (chatters s) p c"
    "(u, hl_by l) \<in> set (users c)" "hl_from l = p"
  using assms
  by (auto simp: talkToChannel_def talk_def split: option.splits prod.splits bool.splits if_splits)

lemma getChannel_not_dummy: "getChannel env p k s \<noteq> Some Dummy_private"
  by (auto simp: getChannel_def split: option.splits)

lemma channel_users_right:
  "channel_right cs r c \<Longrightarrow> r \<noteq> Dummy_private \<Longrightarrow> (u, q) \<in> set (users c) \<Longrightarrow> u = ch_id (cs q)"
  by (cases r) (auto simp: channel_right_def users_right_def private_right_def)

lemma step_heard:
  assumes "chat_ok s" "absent d s"
  shows "\<exists>ls. heard (chat_step env e s) = heard s @ ls \<and> (\<forall>l \<in> set ls. ch_id (chatters s (hl_by l)) \<noteq> d)"
proof (cases e)
  case (Say p ty words k)
  from talkToChannel_kept [of env p ty words k s] obtain ls where
    ls: "heard (snd (talkToChannel env p ty words k s)) = heard s @ ls" by auto
  have "ch_id (chatters s (hl_by l)) \<noteq> d" if "l \<in> set ls" for l
  proof -
    from ls that obtain r c u where r: "getChannel env p k s = Some r" "the_channel s r = Some c"
      "(u, hl_by l) \<in> set (users c)" by (rule talk_reaches_users)
    then have "u = ch_id (chatters s (hl_by l))"
      using channel_users_right [OF the_channel_right [OF assms(1) r(2)]] getChannel_not_dummy by metis
    with r assms(2) show ?thesis by (force simp: absent_def)
  qed
  with ls Say show ?thesis by auto
qed simp_all

lemma run_heard:
  assumes "ids_ok (chatters s)" "chat_ok s" "absent d s" "\<forall>(env, e) \<in> set es. \<not> opens (chatters s) d e"
  shows "\<exists>ls. heard (chat_run es s) = heard s @ ls \<and> (\<forall>l \<in> set ls. ch_id (chatters s (hl_by l)) \<noteq> d)"
  using assms
proof (induction es arbitrary: s)
  case (Cons x es)
  obtain env e where x: "x = (env, e)" by fastforce
  let ?s = "chat_step env e s"
  have ids: "same_ids (chatters s) (chatters ?s)" by (rule chat_step_ids)
  have opens: "opens (chatters ?s) d f = opens (chatters s) d f" for f
    using ids by (cases f) (simp_all add: same_ids_def)
  obtain ls where ls: "heard ?s = heard s @ ls" "\<forall>l \<in> set ls. ch_id (chatters s (hl_by l)) \<noteq> d"
    using step_heard [OF Cons.prems(2,3)] by blast
  have "\<exists>ls. heard (chat_run es ?s) = heard ?s @ ls \<and> (\<forall>l \<in> set ls. ch_id (chatters ?s (hl_by l)) \<noteq> d)"
    using Cons.prems x ids by (intro Cons.IH) (auto simp: same_ids_ok chat_step_ok absent_chat_step opens)
  with ls ids x show ?case by (auto simp: same_ids_def)
qed simp

lemma chat_run_append: "chat_run (es @ fs) s = chat_run fs (chat_run es s)"
  by (induction es s rule: chat_run.induct) simp_all

lemma chat_run_ids: "same_ids (chatters s) (chatters (chat_run es s))"
proof (induction es arbitrary: s)
  case (Cons x es)
  then show ?case using chat_step_ids by (cases x) (fastforce simp: same_ids_def)
qed simp

text \<open>C19. Whatever has been requested before, once a player has logged out he is sent nothing more
  that is said in any channel (regular, private, party or guild), until he opens or creates a
  channel again; players with the same number are the same player logged in again.\<close>

theorem logged_out_hears_nothing:
  assumes "chat_start s0" "ids_ok (chatters s0)"
    and "s1 = chat_run (es1 @ [(env, Log_out p)]) s0"
    and "\<forall>(env, e) \<in> set es2. \<not> opens (chatters s0) (ch_id (chatters s0 p)) e"
  shows "\<exists>ls. heard (chat_run es2 s1) = heard s1 @ ls
    \<and> (\<forall>l \<in> set ls. ch_id (chatters s0 (hl_by l)) \<noteq> ch_id (chatters s0 p))"
proof -
  let ?s = "chat_run es1 s0" and ?d = "ch_id (chatters s0 p)"
  have ids: "same_ids (chatters s0) (chatters s1)" using assms(3) chat_run_ids by blast
  have ok: "ids_ok (chatters s1) \<and> chat_ok s1"
    using chat_run_ok [OF assms(2) chat_start_ok [OF assms(1)]] assms(3) by blast
  have "absent ?d s1"
    using log_out_absent [of ?s p] chat_run_ok [OF assms(2) chat_start_ok [OF assms(1)], of es1] chat_run_ids [of s0 es1] assms(3)
    by (simp add: chat_run_append same_ids_def)
  moreover have "opens (chatters s1) ?d f = opens (chatters s0) ?d f" for f
    using ids by (cases f) (simp_all add: same_ids_def)
  ultimately show ?thesis
    using run_heard [of s1 ?d es2] ok assms(4) ids by (simp add: same_ids_def)
qed

lemma one_channel_each:
  "chat_ok s \<Longrightarrow> (k, c) \<in> set (privateChannels s) \<Longrightarrow> (k1, c1) \<in> set (privateChannels s) \<Longrightarrow> owner c = owner c1 \<Longrightarrow> k = k1"
  unfolding chat_ok_def by blast

lemma find_own_channel:
  assumes "chat_ok s" "(k, c) \<in> set (privateChannels s)" "owner c = ch_guid (chatters s p)"
  shows "getPrivateChannel p s = Some (Private k)"
proof (cases "getPrivateChannel p s")
  case None
  with getPrivateChannel_None [OF None assms(2)] assms(3) show ?thesis by simp
next
  case (Some r)
  from getPrivateChannel_Some [OF this assms(1)] obtain k1 c1 where
    r: "r = Private k1" "owner c1 = ch_guid (chatters s p)" "(k1, c1) \<in> set (privateChannels s)" by metis
  with one_channel_each [OF assms(1,2) r(3)] assms(3) have "k1 = k" by simp
  with Some r show ?thesis by simp
qed

lemma excluded_is_out:
  assumes "ids_ok cs" "private_right cs k c" "ch_guid (cs q) \<noteq> owner c"
  shows "\<not> isInvited (ch_guid (cs q)) (excludePlayer cs q c) \<and> \<not> hasUser cs q (excludePlayer cs q c)"
proof -
  have right: "private_right cs k (excludePlayer cs q c)" by (rule excludePlayer_right [OF assms(1,2)])
  have out: "\<not> isInvited (ch_guid (cs q)) (excludePlayer cs q c)"
    using assms(3) by (auto simp: excludePlayer_def isInvited_def removeInvite_def removeUser_def delete_conv' split: prod.splits bool.splits)
  have "\<not> hasUser cs q (excludePlayer cs q c)"
  proof
    assume "hasUser cs q (excludePlayer cs q c)"
    then obtain q1 where "(ch_id (cs q), q1) \<in> set (users (excludePlayer cs q c))"
      by (auto simp: hasUser_def dest: map_of_in)
    with right have "ch_id (cs q) = ch_id (cs q1)" "isInvited (ch_guid (cs q1)) (excludePlayer cs q c)"
      by (auto simp: private_right_def)
    with out assms(1) show False by (auto simp: ids_ok_def)
  qed
  with out show ?thesis by simp
qed

text \<open>C18. In a private channel there is at any time nobody but its owner and those he has invited;
  what is said there is heard only by them and said by one of them; whoever the owner excludes
  is neither invited nor in the channel any more.\<close>

theorem private_channels_stay_private:
  assumes "chat_start s0" "ids_ok (chatters s0)"
    and "s = chat_run es s0" "(k, c) \<in> set (privateChannels s)"
  shows "(\<forall>(u, q) \<in> set (users c). isInvited (ch_guid (chatters s q)) c)
    \<and> (getChannel env p k s = Some (Private k) \<and> heard (snd (talkToChannel env p ty words k s)) = heard s @ ls \<longrightarrow>
         (\<forall>l \<in> set ls. hl_from l = p \<and> isInvited (ch_guid (chatters s p)) c \<and> isInvited (ch_guid (chatters s (hl_by l))) c))
    \<and> (owner c = ch_guid (chatters s p) \<and> ch_guid (chatters s q) \<noteq> owner c \<longrightarrow>
         (\<exists>c1. map_of (privateChannels (playerChannelExclude p q s)) k = Some c1
            \<and> \<not> isInvited (ch_guid (chatters s q)) c1 \<and> \<not> hasUser (chatters s) q c1))"
proof (intro conjI impI)
  have ok: "ids_ok (chatters s)" "chat_ok s"
    using chat_run_ok [OF assms(2) chat_start_ok [OF assms(1)]] assms(3) by auto
  have c: "the_channel s (Private k) = Some c" by (rule private_member [OF ok(2) assms(4)])
  then have right: "private_right (chatters s) k c"
    using the_channel_right [OF ok(2)] by (fastforce simp: channel_right_def)
  then show users: "\<forall>(u, q) \<in> set (users c). isInvited (ch_guid (chatters s q)) c"
    by (auto simp: private_right_def)
  show "\<forall>l \<in> set ls. hl_from l = p \<and> isInvited (ch_guid (chatters s p)) c \<and> isInvited (ch_guid (chatters s (hl_by l))) c"
    if said: "getChannel env p k s = Some (Private k) \<and> heard (snd (talkToChannel env p ty words k s)) = heard s @ ls"
  proof
    fix l
    assume "l \<in> set ls"
    with said obtain r d u where r: "getChannel env p k s = Some r" "the_channel s r = Some d"
      "(u, hl_by l) \<in> set (users d)" "hl_from l = p" by (metis talk_reaches_users)
    obtain d1 where "the_channel s (Private k) = Some d1" "may_enter (chatters s) p (Private k) d1"
      by (rule getChannel_enters [OF conjunct1 [OF said]])
    with r c said users show "hl_from l = p \<and> isInvited (ch_guid (chatters s p)) c \<and> isInvited (ch_guid (chatters s (hl_by l))) c"
      by (auto simp: may_enter_def)
  qed
  show "\<exists>c1. map_of (privateChannels (playerChannelExclude p q s)) k = Some c1
      \<and> \<not> isInvited (ch_guid (chatters s q)) c1 \<and> \<not> hasUser (chatters s) q c1"
    if own: "owner c = ch_guid (chatters s p) \<and> ch_guid (chatters s q) \<noteq> owner c"
  proof -
    have "p \<noteq> q" using own by auto
    with find_own_channel [OF ok(2) assms(4)] own c have
      "map_of (privateChannels (playerChannelExclude p q s)) k = Some (excludePlayer (chatters s) q c)"
      by (simp add: playerChannelExclude_def put_channel_def)
    with excluded_is_out [OF ok(1) right] own show ?thesis by auto
  qed
qed

text \<open>C20. The tables of the chat stay well formed under every sequence of requests: each entry of a
  channel stands under the number of its own player and each invitation under his guid, a
  private channel has its own number, from 100 to 9999, and a player has at most one.\<close>

theorem chat_tables_stay_right:
  assumes "chat_start s0" "ids_ok (chatters s0)"
  shows "chat_ok (chat_run es s0)"
  using chat_run_ok [OF assms(2) chat_start_ok [OF assms(1)]] by blast

section \<open>A fault\<close>

text \<open>Leaving a party resets the player's party before the channel is closed, which therefore is
  not found: the player stays in it and goes on hearing the members.\<close>

lemma party_leaver_still_listens:
  assumes "ch_party (chatters s p) = Some g" "ch_party (chatters s q) = Some g" "p \<noteq> q"
    and "map_of (partyChannels s) g = Some c" "(ch_id (chatters s p), p) \<in> set (users c)" "ch_id (chatters s p) \<noteq> 0"
    and "hasUser (chatters s) q c" "ce_onSpeak env (cc_id c) q TALKTYPE_CHANNEL_Y words = (True, ty)"
  shows "\<exists>l \<in> set (heard (chat_step env (Say q ty0 words CHANNEL_PARTY) (chat_step env1 (Leave_party p) s))).
    hl_by l = p \<and> hl_from l = q \<and> hl_text l = words"
proof -
  let ?s = "s\<lparr>chatters := (chatters s)(p := (chatters s p)\<lparr>ch_party := None\<rparr>)\<rparr>"
  have same: "hasUser (chatters ?s) q c = hasUser (chatters s) q c" by (simp add: hasUser_def)
  have leave: "chat_step env1 (Leave_party p) s = ?s"
    by (simp add: leave_party_def sendClosePrivate_def removeUserFromChannel_def getChannel_def CHANNEL_PARTY_def CHANNEL_GUILD_def)
  have "getChannel env q CHANNEL_PARTY ?s = Some (OfParty g)" "the_channel ?s (OfParty g) = Some c"
    using assms by (simp_all add: getChannel_def the_channel_def CHANNEL_PARTY_def CHANNEL_GUILD_def)
  with assms same have "heard (chat_step env (Say q ty0 words CHANNEL_PARTY) ?s) = heard s @
      map (\<lambda>(_, h). \<lparr>hl_by = h, hl_from = q, hl_type = ty, hl_text = words, hl_channel = cc_id c\<rparr>)
        (filter (\<lambda>(u, _). u \<noteq> 0) (users c))"
    by (simp add: talkToChannel_def talk_def talk_type_def CHANNEL_PARTY_def CHANNEL_GUILD_def)
  with leave assms(5,6) show ?thesis by (force simp: image_iff)
qed

text \<open>Leaving a regular channel asks whether the player might join it.\<close>

lemma barred_cannot_leave:
  assumes "map_of (normalChannels s) k = Some c" "k \<noteq> CHANNEL_GUILD" "k \<noteq> CHANNEL_PARTY" "\<not> ce_canJoin env k p"
  shows "chat_step env (Close_channel p k) s = s"
  using assms by (simp add: removeUserFromChannel_def getChannel_def)

section \<open>A run of the chat\<close>

definition scripts_allow :: chat_env where
  "scripts_allow = \<lparr>ce_canJoin = (\<lambda>_ _. True), ce_onJoin = (\<lambda>_ _. True), ce_onSpeak = (\<lambda>_ _ type _. (True, type))\<rparr>"

definition quiet_chat :: chat where
  "quiet_chat = \<lparr>
     chatters = (\<lambda>p. \<lparr>ch_id = 0x10000000 + of_nat p, ch_guid = of_nat p, ch_name = ''Ann'', ch_premium = True,
       ch_guild = None, ch_rank = None, ch_party = None\<rparr>),
     normalChannels = [(3, new_channel 3 ''World''), (5, new_channel 5 ''Trade'')], privateChannels = [], partyChannels = [],
     guildChannels = [], heard = []\<rparr>"

definition two_in_private :: "(chat_env \<times> chat_event) list" where
  "two_in_private = map (Pair scripts_allow) [Create_private 1, Invite 1 2, Open_channel 2 100]"

lemma quiet_start: "chat_start quiet_chat" "ids_ok (chatters quiet_chat)"
  by (simp_all add: chat_start_def quiet_chat_def ids_ok_def new_channel_def)

lemma two_talk:
  "(100, \<lparr>cc_id = 100, cc_name = ''Ann's Channel'', publicChannel = False, users = [(0x10000001, 1), (0x10000002, 2)],
     owner = 1, invites = [(2, 2)]\<rparr>) \<in> set (privateChannels (chat_run two_in_private quiet_chat))"
  by code_simp

theorem private_channels_stay_private_witness:
  "\<exists>c1. map_of (privateChannels (playerChannelExclude 1 2 (chat_run two_in_private quiet_chat))) 100 = Some c1
     \<and> \<not> isInvited 2 c1"
proof -
  let ?s = "chat_run two_in_private quiet_chat"
  have "ch_guid (chatters ?s p) = of_nat p" for p
    using chat_run_ids [of quiet_chat two_in_private] by (simp add: same_ids_def quiet_chat_def)
  then have "ch_guid (chatters ?s 1) = 1" "ch_guid (chatters ?s 2) = 2" by simp_all
  with private_channels_stay_private [OF quiet_start refl two_talk, of _ 1 _ _ _ 2, THEN conjunct2, THEN conjunct2]
  show ?thesis by (simp only: channel.simps refl simp_thms) (simp, blast)
qed

theorem logged_out_hears_nothing_witness:
  "\<exists>ls. heard (chat_run [(scripts_allow, Say 1 7 ''hi'' 100)] (chat_run (two_in_private @ [(scripts_allow, Log_out 2)]) quiet_chat))
       = heard (chat_run (two_in_private @ [(scripts_allow, Log_out 2)]) quiet_chat) @ ls
     \<and> (\<forall>l \<in> set ls. ch_id (chatters quiet_chat (hl_by l)) \<noteq> ch_id (chatters quiet_chat 2))"
  by (rule logged_out_hears_nothing [OF quiet_start refl]) simp

theorem chat_tables_stay_right_witness:
  "chat_ok (chat_run two_in_private quiet_chat)"
  by (rule chat_tables_stay_right [OF quiet_start])

end
