(* ===== verification/Spec2Isabelle.thy ===== *)
theory Spec2Isabelle
  imports Connection Wildcard_Tree Std_Containers Bank Party_Analyzer KV_Store Otb Item_Roundtrip
    Item_Moves_Safety Trade_Safety Dispatcher_Safety Decay_Safety Progress_Safety Skill_Safety Sight_Safety Path_Safety
    Chat_Safety
begin

text \<open>
  A model of the core of the game server under src/src, with the theorems that make it
  correct. The server is one process: a connection layer reads and writes frames on sockets,
  a protocol layer frames and encrypts messages, the game changes the world in response,
  and several stores (the items of the world, the bank, parties, the key-value store) keep
  state between requests. The theories follow these layers.

  Shared. \<open>Prelude\<close> holds the machine integers, windows of byte buffers, little-endian
  encoding and the two collections of rewrite rules; \<open>Byte_Reader\<close> the contract of whatever
  reads values off a buffer (a locale, interpreted on network messages and property
  streams); \<open>Return_Value\<close> the return values of game operations.

  Network (src/src/server). \<open>Network_Message\<close> is \<open>NetworkMessage\<close>: buffer, cursor and length as
  a record, one definition per member function. \<open>Output_Message\<close> extends it with the front
  space for headers, and has the pool that flushes buffers. \<open>Xtea\<close> and \<open>Adler\<close> are the cipher
  and the checksum. \<open>Protocol\<close> puts them together (\<open>onSendMessage\<close>, \<open>onRecvMessage\<close>).
  \<open>Services\<close> chooses the protocol of a port, \<open>Connection\<close> is the state machine of one socket:
  every handler of connection.cpp is a step, every run is any interleaving of completions,
  timeouts, sends and closes. Their lemmas show: fields and frames are read back as written,
  no buffer is left, no handler meets a missing protocol or an empty queue, messages leave
  in order, no read is longer than the receive buffer. The last section of this theory joins the
  two: the peer of a connection parses the bodies that were sent, in order, but for compressed
  frames, which \<open>onRecvMessage\<close> cannot inflate and skips, and up to the first frame that is
  longer than \<open>parseHeader\<close> admits.

  Items (src/src/items, src/src/io/fileloader). \<open>Item_Attributes\<close> and \<open>Custom_Attributes\<close> are
  the attribute vector and map of an item, \<open>Items\<close> the item (subtype, count, weight, stacking,
  change of type), \<open>Prop_Stream\<close> and \<open>Otb\<close> the streams and the tree files, \<open>Item_Serialize\<close>
  writing and reading of an item, \<open>Item_Roundtrip\<close> that the second undoes the first.
  \<open>Container_Heap\<close> has things in a heap with parent pointers, item lists and weights, and the
  operations of container.cpp that change them; \<open>Container_Ops\<close> shows that these keep a
  forest with exact weights; \<open>Container_Iterator\<close> is the walk over nested containers,
  \<open>Container_Query\<close> the questions asked before a move, \<open>Container_Safety\<close> what the answers
  are worth: whatever is added after asking, no container ends up inside itself. \<open>Item_Moves\<close> is \<open>Game::internalMoveItem\<close> between containers, with splitting and
  joining of stacks; \<open>Item_Moves_Safety\<close> shows that no piece is lost or doubled. \<open>Decay\<close> is the
  table of items that decay with its timers, \<open>Decay_Safety\<close> shows that a check is always pending
  in time, that table and time stamps agree in runs without the disturbances it names, and
  what happens in the others.

  The loop (src/src/game/scheduling). \<open>Dispatcher\<close> has the tasks, the queues of the threads and
  the loop of the dispatcher thread as a step relation in which other threads post at any
  time; what a task does is an argument. \<open>Dispatcher_Safety\<close> shows that no event is lost or run
  twice, that a timer waits its delay after it was scheduled and between two firings, and that
  a stopped timer never fires. \<open>executeScheduledEvents\<close> is one step: another thread calling
  \<open>stopEvent\<close> in the middle of it is not modelled.

  The map (src/src/map). \<open>Map_Position\<close> is the geometry. \<open>Sight_Line\<close> is the line of sight and
  throwing over tiles and floors; \<open>Sight_Safety\<close> shows that the tiles asked form a chain, the same
  from both ends. \<open>Path_Nodes\<close> and \<open>Path_Search\<close> are the search for a path, with the routines the
  compiler may choose for the best node; \<open>Path_Safety\<close> shows that the search ends, that the
  directions found lead to a position that was asked for, and that none in reach is missed.

  The game (src/src/game, src/src/creatures/players/grouping).
  \<open>Money\<close> and \<open>Bank\<close> coins and balances, which never grow and are exact but for the deposits
  and withdrawals that \<open>Bank\<close> names; \<open>Party\<close> membership, invitations and shared
  experience, as players and parties pointing at each other (they agree as long as no veto of
  a script takes effect while a party is disbanded); \<open>Party_Analyzer\<close> the figures of
  a hunt. \<open>Trade\<close> is the trade between two players, \<open>Trade_Safety\<close> its invariant over every
  sequence of requests. \<open>Wildcard_Tree\<close> completes names of players. \<open>Player_Progress\<close> has the
  experience, skills and magic level of a player (player.cpp: gains, removals, losses at
  death); \<open>Progress_Safety\<close> shows that the level is the one of the experience and that a death
  above level 7 takes back what the levels gave, \<open>Skill_Safety\<close> that tries and mana are counted
  exactly as long as no level has \<open>2^31\<close> tries.
  \<open>Chat\<close> is the table of chat channels (creatures/interactions/chat.cpp) with the requests that
  open, close, create and list channels, invite, exclude and talk; \<open>Chat_Safety\<close> shows that a
  private channel stays private and that nobody is left in a channel when he has logged out.

  Utilities. \<open>Std_Containers\<close> has the two lazy containers of src/src/utils. \<open>KV_Value\<close>,
  \<open>KV_Codec\<close> and \<open>KV_Store\<close> are the key-value store (src/src/kv): values, and the cache over
  the database table, shown to behave as a map on keys that the key column tells apart, while
  the database executes its statements.

  Conventions. A \<open>uint8_t\<close> to \<open>uint64_t\<close> is a word of that width, or a natural with the
  wrap-around written out where the code only adds; conversions are \<open>ucast\<close> and \<open>scast\<close>. An
  object that is shared is a number (a key of a store or an address of a heap); an object
  that has one owner is a value. \<open>None\<close> as a result is undefined behaviour or a loop that
  does not end, as the theory at hand says; the properties show when it does not occur.
  Loops over lists are recursions on them; loops that are not obviously finite are
  \<open>partial_function (option)\<close> with a proof that they return: \<open>replaceString\<close>, the walks over
  parents, owners and contents of containers, the search for a path. No fuel is used anywhere.

  Not modelled, and why. Sockets, files, SQL and Lua are input and output: what the code
  relies on of them (deflate, RSA, protobuf, the clock, hooks of scripts) is an argument.
  The game protocol (protocolgame.cpp) maps hundreds of layouts to the codec modelled here.
  Monsters, spells and combat are driven by scripts, random numbers and floating point; so are
  the percentages lost at death and the tries a level asks for, arguments of the progress of
  a player. Overrides of containers (depots, inboxes, reward chests), tiles and
  creatures as cylinders, and the messages a change sends to clients are left out; where a
  container asks its surroundings, the answer is an argument.
\<close>

section \<open>From one connection to the protocol of the other\<close>

text \<open>
  What a connection frames is what the protocol frames of the same messages; a run that has
  written the first of them has framed those.
\<close>

lemma frame_all_session: "frame_all env p ms = frame_session (env_deflate env) (env_stream env) p ms"
  by (induction ms arbitrary: p) (auto split: option.splits)

lemma frame_session_take:
  assumes "frame_session d s p ms = Some (p', xs @ ys)"
  shows "\<exists>p''. frame_session d s p (take (length xs) ms) = Some (p'', xs)"
  using assms
proof (induction xs arbitrary: p ms)
  case Nil
  then show ?case by simp
next
  case (Cons x xs)
  then obtain m rest where ms: "ms = m # rest" by (cases ms) auto
  from Cons.prems obtain p1 m' where m': "onSendMessage d s p m = Some (p1, m')" "x = wire_bytes m'"
      "frame_session d s p1 rest = Some (p', xs @ ys)"
    unfolding ms by (auto split: option.splits)
  with Cons.IH [OF m'(3)] ms show ?case by auto
qed


definition in_step_sender :: "u32 \<Rightarrow> protocol" where
  "in_step_sender n = \<lparr>key = [1, 2, 3, 4], serverSequenceNumber = n, clientSequenceNumber = 0,
     checksumMethod = CHECKSUM_METHOD_SEQUENCE, encryptionEnabled = True, rawMessages = False\<rparr>"

definition in_step_receiver :: "u32 \<Rightarrow> protocol" where
  "in_step_receiver n = \<lparr>key = [1, 2, 3, 4], serverSequenceNumber = 0, clientSequenceNumber = n,
     checksumMethod = CHECKSUM_METHOD_SEQUENCE, encryptionEnabled = True, rawMessages = False\<rparr>"


end
